(* ===== verification/CPrelude.thy ===== *)
theory CPrelude
  imports Main "HOL-Library.Word" "HOL-Library.Monad_Syntax"
begin

text \<open>
  Shared vocabulary of the development: bytes and C memory blocks, the \<open>string.h\<close> primitives
  the sources call on them, and the generic lemmas the components share.

  A value of type \<open>'a option\<close> returned by a model function is the outcome of the C function:
  \<open>None\<close> means that the C code has no defined result (it dereferences NULL or freed memory, reads
  or writes outside a block, or its loop never ends), \<open>Some\<close> carries the result.  What the C
  code itself reports as failure (NULL, false, \<open>-1\<close>) is an ordinary value inside the
  \<open>Some\<close>.  Every theorem that says \<open>f x = Some y\<close> is therefore also a statement of memory
  safety and termination.
\<close>

unbundle bit_operations_syntax

type_synonym byte = "8 word"
type_synonym addr = nat

named_theorems mem_simps \<open>evaluation of the memory primitives\<close>

section \<open>Blocks of memory\<close>

text \<open>A block is the list of its cells; indexing outside it is undefined behaviour.\<close>

definition mem_read :: "'a list \<Rightarrow> nat \<Rightarrow> 'a option" where
  "mem_read xs i = (if i < length xs then Some (xs ! i) else None)"

definition mem_write :: "'a list \<Rightarrow> nat \<Rightarrow> 'a \<Rightarrow> 'a list option" where
  "mem_write xs i v = (if i < length xs then Some (xs[i := v]) else None)"

text \<open>\<open>memcpy(dst + doff, src + soff, n)\<close>, and \<open>memset(dst + off, v, n)\<close>.\<close>

definition mem_copy :: "'a list \<Rightarrow> nat \<Rightarrow> 'a list \<Rightarrow> nat \<Rightarrow> nat \<Rightarrow> 'a list option" where
  "mem_copy dst doff src soff n =
     (if doff + n \<le> length dst \<and> soff + n \<le> length src
      then Some (take doff dst @ take n (drop soff src) @ drop (doff + n) dst)
      else None)"

definition mem_fill :: "'a list \<Rightarrow> nat \<Rightarrow> 'a \<Rightarrow> nat \<Rightarrow> 'a list option" where
  "mem_fill dst off v n =
     (if off + n \<le> length dst
      then Some (take off dst @ replicate n v @ drop (off + n) dst)
      else None)"

text \<open>
  \<open>memcmp\<close>: the sign of the difference of the first differing bytes (read as unsigned
  characters), zero when there is none.  The C standard fixes the sign only, and the sources use
  the sign only.
\<close>

fun bytes_cmp :: "byte list \<Rightarrow> byte list \<Rightarrow> int" where
  "bytes_cmp (x # xs) (y # ys) =
     (if x = y then bytes_cmp xs ys else if x < y then -1 else 1)"
| "bytes_cmp _ _ = 0"

definition mem_cmp :: "byte list \<Rightarrow> byte list \<Rightarrow> nat \<Rightarrow> int option" where
  "mem_cmp xs ys n =
     (if n \<le> length xs \<and> n \<le> length ys then Some (bytes_cmp (take n xs) (take n ys)) else None)"

lemma mem_read_Some [mem_simps, simp]: "i < length xs \<Longrightarrow> mem_read xs i = Some (xs ! i)"
  by (simp add: mem_read_def)

lemma mem_write_Some [mem_simps, simp]: "i < length xs \<Longrightarrow> mem_write xs i v = Some (xs[i := v])"
  by (simp add: mem_write_def)

lemma mem_copy_Some [mem_simps]:
  "doff + n \<le> length dst \<Longrightarrow> soff + n \<le> length src \<Longrightarrow>
   mem_copy dst doff src soff n = Some (take doff dst @ take n (drop soff src) @ drop (doff + n) dst)"
  by (simp add: mem_copy_def)

lemma mem_fill_Some [mem_simps]:
  "off + n \<le> length dst \<Longrightarrow>
   mem_fill dst off v n = Some (take off dst @ replicate n v @ drop (off + n) dst)"
  by (simp add: mem_fill_def)

lemma mem_write_length: "mem_write xs i v = Some ys \<Longrightarrow> length ys = length xs"
  by (auto simp: mem_write_def split: if_splits)

lemma mem_copy_length: "mem_copy dst doff src soff n = Some ys \<Longrightarrow> length ys = length dst"
  by (auto simp: mem_copy_def split: if_splits)

lemma mem_fill_length: "mem_fill dst off v n = Some ys \<Longrightarrow> length ys = length dst"
  by (auto simp: mem_fill_def split: if_splits)

lemma bytes_cmp_refl [simp]: "bytes_cmp xs xs = 0"
  by (induction xs) auto

lemma bytes_cmp_eq_0: "length xs = length ys \<Longrightarrow> bytes_cmp xs ys = 0 \<longleftrightarrow> xs = ys"
  by (induction xs ys rule: list_induct2) auto

lemma bytes_cmp_flip: "bytes_cmp ys xs = - bytes_cmp xs ys"
  by (induction xs ys rule: bytes_cmp.induct) auto

lemma bytes_cmp_range: "bytes_cmp xs ys \<in> {-1, 0, 1}"
  by (induction xs ys rule: bytes_cmp.induct) auto

lemma bytes_cmp_trans:
  "length xs = length ys \<Longrightarrow> length ys = length zs \<Longrightarrow>
   bytes_cmp xs ys \<le> 0 \<Longrightarrow> bytes_cmp ys zs \<le> 0 \<Longrightarrow> bytes_cmp xs zs \<le> 0"
  by (induction xs ys zs rule: list_induct3) (auto split: if_splits)

lemma mem_cmp_Some [mem_simps, simp]:
  "n \<le> length xs \<Longrightarrow> n \<le> length ys \<Longrightarrow> mem_cmp xs ys n = Some (bytes_cmp (take n xs) (take n ys))"
  by (simp add: mem_cmp_def)

section \<open>Machine integers\<close>

text \<open>\<open>LONG_MAX\<close> and \<open>SIZE_MAX\<close> of an LP64 platform.\<close>

definition LONG_MAX :: int where "LONG_MAX = 2 ^ 63 - 1"
definition SIZE_MAX :: nat where "SIZE_MAX = 2 ^ 64 - 1"

text \<open>
  A \<open>size_t\<close> is a natural number below \<open>2 ^ 64\<close>; its subtraction wraps around.  Sums are written
  plainly where a block of that size exists, so that they cannot overflow.
\<close>

definition size_sub :: "nat \<Rightarrow> nat \<Rightarrow> nat" where
  "size_sub a b = (if b \<le> a then a - b else a + 2 ^ 64 - b)"

lemma size_sub_le [simp]: "b \<le> a \<Longrightarrow> size_sub a b = a - b"
  by (simp add: size_sub_def)

lemma unat_byte_less [simp]: "unat (b :: byte) < 256"
  using unsigned_less [of b, where ?'a = nat] by simp

lemma unat_ucast_up: "LENGTH('a::len) \<le> LENGTH('b::len) \<Longrightarrow> unat (ucast (x :: 'a word) :: 'b word) = unat x"
  by (simp add: unsigned_ucast_eq take_bit_nat_eq_self_iff less_le_trans [OF unsigned_less])

lemma counter_less:
  "k < 2 ^ 32 \<Longrightarrow> (ucast (of_nat k :: 32 word) :: 64 word) < n \<longleftrightarrow> k < unat n"
  by (simp add: word_less_nat_alt unat_ucast_up unat_of_nat)

lemma split_mod:
  fixes a k :: nat
  assumes "0 < k"
  obtains q r where "a = q * k + r" "r < k" "a div k = q" "a mod k = r"
  using assms by (metis div_mult_mod_eq mod_less_divisor)

text \<open>The bytes of a string literal.\<close>

definition bytes_of :: "string \<Rightarrow> byte list" where
  "bytes_of s = map of_char s"

lemma length_bytes_of [simp]: "length (bytes_of s) = length s"
  by (simp add: bytes_of_def)

text \<open>
  The C string at the start of a block: the bytes before the first zero; undefined (a read outside
  the block) when there is no zero.
\<close>

definition c_string :: "byte list \<Rightarrow> byte list option" where
  "c_string xs = (if 0 \<in> set xs then Some (takeWhile (\<lambda>b. b \<noteq> 0) xs) else None)"

lemma c_string_pad: "0 < n \<Longrightarrow> c_string (s @ replicate n 0) = Some (takeWhile (\<lambda>b. b \<noteq> 0) s)"
  by (induction s) (auto simp: c_string_def gr0_conv_Suc)

lemma c_string_exact: "0 \<notin> set s \<Longrightarrow> c_string (s @ 0 # zs) = Some s"
  by (induction s) (auto simp: c_string_def)

lemma c_stringE:
  assumes "c_string d = Some t"
  obtains r where "d = t @ 0 # r" "0 \<notin> set t"
proof -
  have z: "0 \<in> set d" "t = takeWhile (\<lambda>b. b \<noteq> 0) d" using assms by (auto simp: c_string_def split: if_splits)
  then obtain r where "dropWhile (\<lambda>b. b \<noteq> 0) d = 0 # r"
    by (metis (mono_tags, lifting) dropWhile_eq_Nil_conv hd_dropWhile list.collapse)
  then have "d = t @ 0 # r" using z(2) by (metis takeWhile_dropWhile_id)
  moreover have "0 \<notin> set t" using z(2) by (auto dest: set_takeWhileD)
  ultimately show ?thesis by (rule that)
qed

text \<open>\<open>strcmp(a, b) == 0\<close>: it reads both up to the first difference or the common terminator.\<close>

fun str_equal :: "byte list \<Rightarrow> byte list \<Rightarrow> bool option" where
  "str_equal (x # xs) (y # ys) =
     (if x \<noteq> y then Some False else if x = 0 then Some True else str_equal xs ys)"
| "str_equal _ _ = None"

lemma str_equal_texts:
  "0 \<notin> set s \<Longrightarrow> 0 \<notin> set t \<Longrightarrow> str_equal (s @ 0 # zs) (t @ 0 # ys) = Some (s = t)"
proof (induction s arbitrary: t)
  case Nil
  then show ?case by (cases t) auto
next
  case (Cons x s)
  then show ?case by (cases t) auto
qed

lemma str_equal_strings:
  assumes "c_string a = Some s" "c_string b = Some t"
  shows "str_equal a b = Some (s = t)"
  using assms by (auto elim!: c_stringE simp: str_equal_texts)

text \<open>\<open>strncpy(dst, src, n)\<close>: the string or its first \<open>n\<close> bytes, filled up with zeros to \<open>n\<close> bytes.\<close>

definition str_ncpy :: "byte list \<Rightarrow> byte list \<Rightarrow> nat \<Rightarrow> byte list option" where
  "str_ncpy dst src n =
     (if n > length dst then None
      else if 0 \<in> set (take n src)
      then let s = takeWhile (\<lambda>b. b \<noteq> 0) src in Some (s @ replicate (n - length s) 0 @ drop n dst)
      else if n \<le> length src then Some (take n src @ drop n dst) else None)"

section \<open>Option results\<close>

lemma bind_eq_SomeD: "Option.bind m f = Some y \<Longrightarrow> \<exists>x. m = Some x \<and> f x = Some y"
  by (cases m) auto

lemma bind_Some_iff [simp]: "Option.bind (Some x) f = f x"
  by simp

end
