(* ===== verification/Base64.thy ===== *)
theory Base64
  imports CPrelude
begin

text \<open>
  The codec of \<open>core/src/base64.c\<close>: \<open>base64_encode\<close> and \<open>base64_decode\<close> with their index loops
  over byte blocks, counters at the width of the C variables (\<open>unsigned int i, j\<close>, so \<open>32 word\<close>),
  the \<open>uint32_t\<close> arithmetic of each group and the padding arithmetic.
\<close>

section \<open>Tables\<close>

definition encodingtable :: "byte list" where
  "encodingtable = bytes_of ''ABCDEFGHIJKLMNOPQRSTUVWXYZabcdefghijklmnopqrstuvwxyz0123456789+/''"

definition modulustable :: "nat list" where
  "modulustable = [0, 2, 1]"

text \<open>The character \<open>'='\<close>.\<close>

definition pad_char :: byte where "pad_char = 61"

section \<open>Encoding\<close>

text \<open>\<open>i < inputlength ? (unsigned char)data[i++] : 0\<close>: the octet and the counter after it.\<close>

definition base64_octet :: "byte list \<Rightarrow> 64 word \<Rightarrow> 32 word \<Rightarrow> (32 word \<times> 32 word) option" where
  "base64_octet data n i =
     (if ucast i < n
      then do { b \<leftarrow> mem_read data (unat i); Some (ucast b, i + 1) }
      else Some (0, i))"

text \<open>\<open>encodingtable[(triple >> k * 6) & 0x3F]\<close>.\<close>

definition base64_symbol :: "32 word \<Rightarrow> nat \<Rightarrow> byte" where
  "base64_symbol triple k = encodingtable ! unat (drop_bit (k * 6) triple AND 0x3F)"

partial_function (option) base64_encode_loop ::
  "byte list \<Rightarrow> 64 word \<Rightarrow> 32 word \<Rightarrow> 32 word \<Rightarrow> byte list \<Rightarrow> byte list option" where
  "base64_encode_loop data n i j out =
     (if ucast i < n
      then do {
        (a, i1) \<leftarrow> base64_octet data n i;
        (b, i2) \<leftarrow> base64_octet data n i1;
        (c, i3) \<leftarrow> base64_octet data n i2;
        let triple = push_bit 16 a + push_bit 8 b + c;
        out1 \<leftarrow> mem_write out (unat j) (base64_symbol triple 3);
        out2 \<leftarrow> mem_write out1 (unat (j + 1)) (base64_symbol triple 2);
        out3 \<leftarrow> mem_write out2 (unat (j + 2)) (base64_symbol triple 1);
        out4 \<leftarrow> mem_write out3 (unat (j + 3)) (base64_symbol triple 0);
        base64_encode_loop data n i3 (j + 4) out4
      }
      else Some out)"

text \<open>The padding loop: the last \<open>modulustable[inputlength % 3]\<close> symbols become \<open>'='\<close>.\<close>

fun base64_pad :: "nat \<Rightarrow> nat \<Rightarrow> byte list \<Rightarrow> byte list option" where
  "base64_pad outlen 0 out = Some out"
| "base64_pad outlen (Suc k) out =
     do { out' \<leftarrow> base64_pad outlen k out; mem_write out' (outlen - 1 - k) pad_char }"

text \<open>
  \<open>base64_encode\<close>.  The result is the returned block (\<open>None\<close> for NULL) with the value stored in
  \<open>*outputlength\<close> (\<open>None\<close> when nothing is stored).  \<open>mem_ok\<close> is the answer of \<open>calloc\<close>,
  \<open>has_out\<close> says whether the \<open>outputlength\<close> pointer is not NULL.
\<close>

definition base64_encode ::
  "bool \<Rightarrow> byte list option \<Rightarrow> 64 word \<Rightarrow> bool \<Rightarrow> (byte list option \<times> 64 word option) option" where
  "base64_encode mem_ok data n has_out =
     (if \<not> has_out then Some (None, None)
      else if data = None \<and> n > 0 then Some (None, Some 0)
      else if n > (- 1 - 2) div 3 then Some (None, Some 0)
      else let outlen = 4 * ((n + 2) div 3) in
        if \<not> mem_ok then Some (None, Some 0)
        else do {
          out \<leftarrow> base64_encode_loop (case data of None \<Rightarrow> [] | Some d \<Rightarrow> d) n 0 0
                   (replicate (unat outlen + 1) 0);
          out' \<leftarrow> base64_pad (unat outlen) (modulustable ! unat (n mod 3)) out;
          Some (Some out', Some outlen)
        })"

section \<open>Decoding\<close>

text \<open>The table built at the start of every call: position of a symbol, 0 for any other byte.\<close>

fun base64_fill_table :: "nat \<Rightarrow> byte list \<Rightarrow> byte list option" where
  "base64_fill_table 0 tab = Some tab"
| "base64_fill_table (Suc k) tab =
     do { tab' \<leftarrow> base64_fill_table k tab;
          mem_write tab' (unat (encodingtable ! k)) (of_nat k) }"

text \<open>
  \<open>encodedString[i] == '=' ? 0 & i++ : decodingtable[(unsigned char)encodedString[i++]]\<close>: the
  sextet and the counter after it; the table's entries are plain \<open>char\<close>, so they are sign extended
  on their way to \<open>uint32_t\<close>.
\<close>

definition base64_sextet :: "byte list \<Rightarrow> byte list \<Rightarrow> 32 word \<Rightarrow> (32 word \<times> 32 word) option" where
  "base64_sextet tab enc i =
     do { c \<leftarrow> mem_read enc (unat i);
          if c = pad_char then Some (0 AND i, i + 1)
          else do { s \<leftarrow> mem_read tab (unat c); Some (scast s, i + 1) } }"

text \<open>\<open>if (j < *outputlength) decodedData[j++] = (triple >> k * 8) & 0xFF\<close>.\<close>

definition base64_put :: "64 word \<Rightarrow> 32 word \<Rightarrow> nat \<Rightarrow> byte list \<times> 32 word \<Rightarrow> (byte list \<times> 32 word) option" where
  "base64_put outlen triple k st =
     (case st of (out, j) \<Rightarrow>
        if ucast j < outlen
        then do { out' \<leftarrow> mem_write out (unat j) (ucast (drop_bit (k * 8) triple AND 0xFF));
                  Some (out', j + 1) }
        else Some (out, j))"

partial_function (option) base64_decode_loop ::
  "byte list \<Rightarrow> byte list \<Rightarrow> 64 word \<Rightarrow> 64 word \<Rightarrow> 32 word \<Rightarrow> 32 word \<Rightarrow> byte list \<Rightarrow> byte list option" where
  "base64_decode_loop tab enc n outlen i j out =
     (if ucast i < n
      then do {
        (a, i1) \<leftarrow> base64_sextet tab enc i;
        (b, i2) \<leftarrow> base64_sextet tab enc i1;
        (c, i3) \<leftarrow> base64_sextet tab enc i2;
        (d, i4) \<leftarrow> base64_sextet tab enc i3;
        let triple = push_bit 18 a + push_bit 12 b + push_bit 6 c + d;
        st1 \<leftarrow> base64_put outlen triple 2 (out, j);
        st2 \<leftarrow> base64_put outlen triple 1 st1;
        st3 \<leftarrow> base64_put outlen triple 0 st2;
        base64_decode_loop tab enc n outlen i4 (snd st3) (fst st3)
      }
      else Some out)"

definition base64_decode ::
  "bool \<Rightarrow> byte list option \<Rightarrow> 64 word \<Rightarrow> bool \<Rightarrow> (byte list option \<times> 64 word option) option" where
  "base64_decode mem_ok enc n has_out =
     (case enc of
        None \<Rightarrow> Some (None, None)
      | Some e \<Rightarrow>
        if \<not> has_out then Some (None, None)
        else if n = 0 then Some (if mem_ok then Some [0] else None, Some 0)
        else do {
          tab \<leftarrow> base64_fill_table 64 (replicate 256 0);
          if n mod 4 \<noteq> 0 then Some (None, Some 0)
          else do {
            l1 \<leftarrow> mem_read e (unat (n - 1));
            let len1 = (if l1 = pad_char then n div 4 * 3 - 1 else n div 4 * 3);
            l2 \<leftarrow> mem_read e (unat (n - 2));
            let outlen = (if l2 = pad_char then len1 - 1 else len1);
            if \<not> mem_ok then Some (None, Some 0)
            else do {
              out \<leftarrow> base64_decode_loop tab e n outlen 0 0
                       (replicate (if outlen = 0 then 1 else unat outlen) 0);
              Some (Some out, Some outlen)
            }
          }
        })"

section \<open>Specification\<close>

text \<open>
  The reference: RFC 4648 groups, by arithmetic on the octets.
\<close>

definition base64_sym :: "nat \<Rightarrow> byte" where "base64_sym n = encodingtable ! n"

fun base64_spec :: "byte list \<Rightarrow> byte list" where
  "base64_spec [] = []"
| "base64_spec [a] = [base64_sym (unat a div 4), base64_sym (unat a mod 4 * 16), pad_char, pad_char]"
| "base64_spec [a, b] =
     [base64_sym (unat a div 4), base64_sym (unat a mod 4 * 16 + unat b div 16), base64_sym (unat b mod 16 * 4), pad_char]"
| "base64_spec (a # b # c # r) =
     [base64_sym (unat a div 4), base64_sym (unat a mod 4 * 16 + unat b div 16),
      base64_sym (unat b mod 16 * 4 + unat c div 64), base64_sym (unat c mod 64)] @ base64_spec r"

section \<open>The encoding loop\<close>

lemma unat_triple:
  fixes a b c :: byte
  shows "unat (push_bit 16 (ucast a :: 32 word) + push_bit 8 (ucast b) + ucast c)
    = unat a * 65536 + unat b * 256 + unat c"
proof -
  have "unat a < 256" "unat b < 256" "unat c < 256" by simp_all
  then show ?thesis
    by (simp add: push_bit_eq_mult unat_word_ariths unat_ucast_up del: unat_byte_less)
qed

lemma symbol_nat: "base64_symbol t k = encodingtable ! (unat t div 2 ^ (k * 6) mod 64)"
proof -
  have "drop_bit (k * 6) t AND 0x3F = take_bit 6 (drop_bit (k * 6) t)"
    by (simp add: take_bit_eq_mask mask_eq_exp_minus_1)
  moreover have "unat (take_bit 6 (drop_bit (k * 6) t)) = unat t div 2 ^ (k * 6) mod 64"
    unfolding unsigned_take_bit_eq unat_drop_bit_eq by (simp add: take_bit_eq_mod drop_bit_eq_div)
  ultimately show ?thesis
    by (simp only: base64_symbol_def)
qed

lemma div3_step: "(5 + n) div 3 = Suc (Suc (Suc n) div (3 :: nat))"
  using div_add_self2 [of 3 "n + 2"] by simp

lemma digit64: "(q * 64 + (z::nat)) div 64 = q" "(q * 64 + z) mod 64 = z" if "z < 64"
  using that by simp_all

lemma digits64:
  fixes w x y z :: nat
  assumes "w < 64" "x < 64" "y < 64" "z < 64"
  defines "t \<equiv> ((w * 64 + x) * 64 + y) * 64 + z"
  shows "t div 262144 mod 64 = w" "t div 4096 mod 64 = x" "t div 64 mod 64 = y" "t mod 64 = z"
proof -
  have a: "t div 64 = (w * 64 + x) * 64 + y" unfolding t_def by (rule digit64 [OF assms(4)])
  have "t div 4096 = t div 64 div 64" by (simp add: div_mult2_eq [symmetric])
  then have b: "t div 4096 = w * 64 + x" unfolding a by (simp only: digit64 [OF assms(3)])
  have "t div 262144 = t div 4096 div 64" by (simp add: div_mult2_eq [symmetric])
  then have c: "t div 262144 = w" unfolding b by (simp only: digit64 [OF assms(2)])
  show "t div 262144 mod 64 = w" using assms(1) by (simp add: c)
  show "t div 4096 mod 64 = x" unfolding b by (rule digit64 [OF assms(2)])
  show "t div 64 mod 64 = y" unfolding a by (rule digit64 [OF assms(3)])
  show "t mod 64 = z" unfolding t_def by (rule digit64 [OF assms(4)])
qed

lemma unat_triple_sextets:
  fixes a b c :: nat
  assumes "a < 256" "b < 256" "c < 256"
  defines "t \<equiv> a * 65536 + b * 256 + c"
  shows "t div 262144 mod 64 = a div 4" "t div 4096 mod 64 = a mod 4 * 16 + b div 16"
    "t div 64 mod 64 = b mod 16 * 4 + c div 64" "t mod 64 = c mod 64"
proof -
  obtain a1 a0 where a: "a = a1 * 4 + a0" "a0 < 4" "a div 4 = a1" "a mod 4 = a0"
    by (rule split_mod [of 4 a]) simp
  obtain b1 b0 where b: "b = b1 * 16 + b0" "b0 < 16" "b div 16 = b1" "b mod 16 = b0"
    by (rule split_mod [of 16 b]) simp
  obtain c1 c0 where c: "c = c1 * 64 + c0" "c0 < 64" "c div 64 = c1" "c mod 64 = c0"
    by (rule split_mod [of 64 c]) simp
  have l: "a1 < 64" "a0 * 16 + b1 < 64" "b0 * 4 + c1 < 64" "c0 < 64"
    using assms(1-3) a(1,2) b(1,2) c(1,2) by linarith+
  have t: "t = ((a1 * 64 + (a0 * 16 + b1)) * 64 + (b0 * 4 + c1)) * 64 + c0"
    unfolding t_def a(1) b(1) c(1) by simp
  show "t div 262144 mod 64 = a div 4" "t div 4096 mod 64 = a mod 4 * 16 + b div 16"
    "t div 64 mod 64 = b mod 16 * 4 + c div 64" "t mod 64 = c mod 64"
    unfolding a(3,4) b(3,4) c(3,4) t by (rule digits64 [OF l])+
qed

lemma base64_octet_in:
  assumes "length pre < 2 ^ 32" "length pre < unat n"
  shows "base64_octet (pre @ a # r) n (of_nat (length pre)) = Some (ucast a, of_nat (Suc (length pre)))"
proof -
  have u: "unat (of_nat (length pre) :: 32 word) = length pre"
    using assms(1) by (simp add: unat_of_nat)
  have s: "of_nat (Suc (length pre)) = (of_nat (length pre) + 1 :: 32 word)" by simp
  show ?thesis
    unfolding base64_octet_def counter_less [OF assms(1)] u s using assms(2) by simp
qed

lemma base64_octet_end:
  "unat n < 2 ^ 32 \<Longrightarrow> base64_octet data n (of_nat (unat n)) = Some (0, of_nat (unat n))"
  unfolding base64_octet_def by (simp only: counter_less) simp

lemma write_at:
  assumes "length pre + k < 2 ^ 32" "k < length zs"
  shows "mem_write (pre @ zs) (unat (of_nat (length pre) + of_nat k :: 32 word)) s = Some (pre @ zs[k := s])"
proof -
  have "unat (of_nat (length pre + k) :: 32 word) = length pre + k"
    using assms(1) by (simp only: unat_of_nat) simp
  then show ?thesis using assms(2) by (simp add: list_update_append)
qed

lemma write4:
  assumes "length pre + 4 \<le> 2 ^ 32" "j = (of_nat (length pre) :: 32 word)"
  shows "do { out1 \<leftarrow> mem_write (pre @ z0 # z1 # z2 # z3 # zs) (unat j) a;
              out2 \<leftarrow> mem_write out1 (unat (j + 1)) b;
              out3 \<leftarrow> mem_write out2 (unat (j + 2)) c;
              out4 \<leftarrow> mem_write out3 (unat (j + 3)) d;
              f out4 } = f ((pre @ [a, b, c, d]) @ zs)"
  using write_at [of pre 0 "z0 # z1 # z2 # z3 # zs" a] write_at [of pre 1 "a # z1 # z2 # z3 # zs" b]
    write_at [of pre 2 "a # b # z2 # z3 # zs" c] write_at [of pre 3 "a # b # c # z3 # zs" d] assms
  by simp

text \<open>The four symbols of a full group, and the symbols before padding.\<close>

definition base64_group :: "byte \<Rightarrow> byte \<Rightarrow> byte \<Rightarrow> byte list" where
  "base64_group a b c =
     [base64_sym (unat a div 4), base64_sym (unat a mod 4 * 16 + unat b div 16),
      base64_sym (unat b mod 16 * 4 + unat c div 64), base64_sym (unat c mod 64)]"

fun base64_groups :: "byte list \<Rightarrow> byte list" where
  "base64_groups [] = []"
| "base64_groups [a] = base64_group a 0 0"
| "base64_groups [a, b] = base64_group a b 0"
| "base64_groups (a # b # c # r) = base64_group a b c @ base64_groups r"

lemma symbols_of_triple:
  fixes a b c :: byte
  defines "t \<equiv> push_bit 16 (ucast a :: 32 word) + push_bit 8 (ucast b) + ucast c"
  shows "[base64_symbol t 3, base64_symbol t 2, base64_symbol t 1, base64_symbol t 0] = base64_group a b c"
proof -
  have p: "(2 :: nat) ^ (3 * 6) = 262144" "(2 :: nat) ^ (2 * 6) = 4096" "(2 :: nat) ^ (1 * 6) = 64"
    "t' div 2 ^ (0 * 6) = t'" for t' :: nat by simp_all
  show ?thesis
    unfolding symbol_nat base64_group_def base64_sym_def t_def unat_triple p
    by (simp only: unat_triple_sextets unat_byte_less)
qed

lemma length_base64_group [simp]: "length (base64_group a b c) = 4"
  by (simp add: base64_group_def)

lemma length_ge_4: "4 \<le> length zs \<Longrightarrow> \<exists>z0 z1 z2 z3 zs'. zs = z0 # z1 # z2 # z3 # zs'"
  by (auto simp: Suc_le_length_iff eval_nat_numeral)

lemma drop4: "drop 4 (z0 # z1 # z2 # z3 # zs) = zs"
  by (simp add: eval_nat_numeral)

lemma base64_encode_step:
  assumes i: "(ucast i :: 64 word) < n"
    and o1: "base64_octet data n i = Some (ucast a, i1)"
    and o2: "base64_octet data n i1 = Some (ucast b, i2)"
    and o3: "base64_octet data n i2 = Some (ucast c, i3)"
    and l: "length pre + 4 \<le> 2 ^ 32" "4 \<le> length zs"
  shows "base64_encode_loop data n i (of_nat (length pre)) (pre @ zs) =
    base64_encode_loop data n i3 (of_nat (length (pre @ base64_group a b c)))
      ((pre @ base64_group a b c) @ drop 4 zs)"
proof -
  obtain z0 z1 z2 z3 zs' where zs: "zs = z0 # z1 # z2 # z3 # zs'"
    using length_ge_4 [OF l(2)] by blast
  have j: "of_nat (length pre) + 4 = (of_nat (length (pre @ base64_group a b c)) :: 32 word)" by simp
  show ?thesis
    unfolding zs
    by (subst base64_encode_loop.simps)
      (simp only: i o1 o2 o3 if_True bind.bind_lunit prod.case Let_def write4 [OF l(1) refl]
        symbols_of_triple j drop4)
qed

lemma base64_encode_loop_end:
  "unat n < 2 ^ 32 \<Longrightarrow> base64_encode_loop data n (of_nat (unat n)) j out = Some out"
  by (subst base64_encode_loop.simps) (simp only: counter_less if_False less_irrefl)

lemma base64_encode_loop_groups:
  "unat n = length pre + length r \<Longrightarrow> unat n < 2 ^ 32 \<Longrightarrow>
   length fin + length (base64_groups r) \<le> 2 ^ 32 \<Longrightarrow> length (base64_groups r) \<le> length zs \<Longrightarrow>
   base64_encode_loop (pre @ r @ junk) n (of_nat (length pre)) (of_nat (length fin)) (fin @ zs) =
     Some (fin @ base64_groups r @ drop (length (base64_groups r)) zs)"
proof (induction r arbitrary: pre fin zs rule: base64_groups.induct)
  case 1
  then show ?case
    by (subst base64_encode_loop.simps) (simp add: counter_less)
next
  case (2 a)
  have n: "length pre < 2 ^ 32" "length pre < unat n" "Suc (length pre) = unat n" using "2.prems" by simp_all
  have o: "base64_octet (pre @ [a] @ junk) n (of_nat (length pre)) = Some (ucast a, of_nat (unat n))"
    using base64_octet_in [OF n(1,2), of a junk] unfolding n(3) by simp
  have e: "base64_octet d n (of_nat (unat n)) = Some (ucast (0 :: byte), of_nat (unat n))" for d
    using base64_octet_end [OF "2.prems"(2)] by simp
  have l: "length fin + 4 \<le> 2 ^ 32" "4 \<le> length zs" using "2.prems" by simp_all
  have i: "ucast (of_nat (length pre) :: 32 word) < n" using counter_less [OF n(1)] n(2) by blast
  show ?case
    unfolding base64_encode_step [OF i o e e l]
    by (simp only: base64_encode_loop_end [OF "2.prems"(2)]) simp
next
  case (3 a b)
  have n: "length pre < 2 ^ 32" "length pre < unat n" "length (pre @ [a]) < 2 ^ 32"
    "length (pre @ [a]) < unat n" "Suc (length (pre @ [a])) = unat n" using "3.prems" by simp_all
  have o1: "base64_octet (pre @ [a, b] @ junk) n (of_nat (length pre)) =
      Some (ucast a, of_nat (length (pre @ [a])))"
    using base64_octet_in [OF n(1,2), of a "b # junk"] by simp
  have o2: "base64_octet (pre @ [a, b] @ junk) n (of_nat (length (pre @ [a]))) =
      Some (ucast b, of_nat (unat n))"
    using base64_octet_in [OF n(3,4), of b junk] unfolding n(5) by simp
  have e: "base64_octet d n (of_nat (unat n)) = Some (ucast (0 :: byte), of_nat (unat n))" for d
    using base64_octet_end [OF "3.prems"(2)] by simp
  have l: "length fin + 4 \<le> 2 ^ 32" "4 \<le> length zs" using "3.prems" by simp_all
  have i: "ucast (of_nat (length pre) :: 32 word) < n" using counter_less [OF n(1)] n(2) by blast
  show ?case
    unfolding base64_encode_step [OF i o1 o2 e l]
    by (simp only: base64_encode_loop_end [OF "3.prems"(2)]) simp
next
  case (4 a b c r)
  have n: "length pre < 2 ^ 32" "length pre < unat n" "length (pre @ [a]) < 2 ^ 32"
    "length (pre @ [a]) < unat n" "length (pre @ [a, b]) < 2 ^ 32"
    "length (pre @ [a, b]) < unat n" using "4.prems" by simp_all
  have o1: "base64_octet (pre @ (a # b # c # r) @ junk) n (of_nat (length pre)) =
      Some (ucast a, of_nat (length (pre @ [a])))"
    using base64_octet_in [OF n(1,2), of a "b # c # r @ junk"] by simp
  have o2: "base64_octet (pre @ (a # b # c # r) @ junk) n (of_nat (length (pre @ [a]))) =
      Some (ucast b, of_nat (length (pre @ [a, b])))"
    using base64_octet_in [OF n(3,4), of b "c # r @ junk"] by simp
  have o3: "base64_octet (pre @ (a # b # c # r) @ junk) n (of_nat (length (pre @ [a, b]))) =
      Some (ucast c, of_nat (length (pre @ [a, b, c])))"
    using base64_octet_in [OF n(5,6), of c "r @ junk"] by simp
  have l: "length fin + 4 \<le> 2 ^ 32" "4 \<le> length zs" using "4.prems" by simp_all
  have i: "ucast (of_nat (length pre) :: 32 word) < n" using counter_less [OF n(1)] n(2) by blast
  have IH: "base64_encode_loop ((pre @ [a, b, c]) @ r @ junk) n (of_nat (length (pre @ [a, b, c])))
      (of_nat (length (fin @ base64_group a b c))) ((fin @ base64_group a b c) @ drop 4 zs) =
    Some ((fin @ base64_group a b c) @ base64_groups r @ drop (length (base64_groups r)) (drop 4 zs))"
    by (rule "4.IH") (use "4.prems" in auto)
  show ?case
    unfolding base64_encode_step [OF i o1 o2 o3 l]
    using IH by (simp add: add.commute)
qed

lemma base64_encode_loop_diverges:
  assumes "2 ^ 32 \<le> unat n"
  shows "base64_encode_loop data n i j out = None"
proof -
  have i: "(ucast i :: 64 word) < n" for i :: "32 word"
    using less_le_trans [OF unsigned_less [of i, where ?'a = nat], of "unat n"] assms
    by (simp add: word_less_nat_alt unat_ucast_up)
  have "base64_encode_loop data n i j out = Some r \<Longrightarrow> n = n \<longrightarrow> False" for r
    apply (erule base64_encode_loop.raw_induct [where P = "\<lambda>data n' i j out r. n' = n \<longrightarrow> False", rotated])
    using i by (auto simp: Let_def Option.bind_eq_Some_conv split: prod.splits if_splits, blast)
  then show ?thesis by fastforce
qed

text \<open>The RFC 4648 reading of the groups: padding replaces the symbols of the missing octets.\<close>

lemma length_base64_groups: "length (base64_groups r) = 4 * ((length r + 2) div 3)"
  by (induction r rule: base64_groups.induct) (simp_all add: div3_step)

lemma base64_spec_groups:
  "base64_spec r = take (length (base64_groups r) - modulustable ! (length r mod 3)) (base64_groups r)
     @ replicate (modulustable ! (length r mod 3)) pad_char"
proof (induction r rule: base64_groups.induct)
  case (4 a b c r)
  have "modulustable ! (length r mod 3) \<le> length (base64_groups r)"
    unfolding length_base64_groups by (cases "length r mod 3 = 0"; cases "length r mod 3 = 1") (auto simp: modulustable_def )
  then show ?case using 4 by (simp add: base64_group_def Suc_diff_le)
qed (simp_all add: base64_group_def modulustable_def numeral_2_eq_2)

lemma base64_pad_eq:
  "k \<le> outlen \<Longrightarrow> outlen \<le> length out \<Longrightarrow>
   base64_pad outlen k out = Some (take (outlen - k) out @ replicate k pad_char @ drop outlen out)"
proof (induction k)
  case (Suc k)
  then obtain m where m: "outlen = Suc (m + k)" by (metis add.commute le_Suc_ex add_Suc)
  with Suc show ?case
    by (simp add: take_Suc_conv_app_nth list_update_append)
qed simp

lemma encode_guard: "(n :: 64 word) > (- 1 - 2) div 3 \<longleftrightarrow> 6148914691236517204 < unat n"
proof -
  have "(- 1 - 2 :: 64 word) = 18446744073709551613" by simp
  then have "unat ((- 1 - 2) div 3 :: 64 word) = 6148914691236517204" by (simp only: unat_div) simp
  then show ?thesis by (simp only: word_less_nat_alt)
qed

lemma unat_outlen:
  assumes "unat (n :: 64 word) \<le> 3 * 2 ^ 30"
  shows "unat (4 * ((n + 2) div 3)) = 4 * ((unat n + 2) div 3)" "unat (n mod 3) = unat n mod 3"
proof -
  have "unat (n + 2) = unat n + 2" using assms by (simp add: unat_word_ariths)
  then have "unat ((n + 2) div 3) = (unat n + 2) div 3" by (simp add: unat_div)
  moreover have "(unat n + 2) div 3 \<le> 2 ^ 30" using assms by simp
  ultimately show "unat (4 * ((n + 2) div 3)) = 4 * ((unat n + 2) div 3)"
    by (simp add: unat_word_ariths)
  show "unat (n mod 3) = unat n mod 3" by (simp add: unat_mod)
qed

lemma length_base64_spec: "length (base64_spec r) = 4 * ((length r + 2) div 3)"
  by (induction r rule: base64_spec.induct) (simp_all add: div3_step)

lemma modulustable_le: "modulustable ! (k mod 3) \<le> 4 * ((k + 2) div 3)"
proof -
  consider "k mod 3 = 0" | "k mod 3 = 1" "0 < k" | "k mod 3 = 2" "0 < k" by (cases "k = 0") (simp, linarith)
  then show ?thesis by cases (auto simp: modulustable_def numeral_2_eq_2)
qed

text \<open>
  C7: \<open>base64_encode\<close> is RFC 4648.  For every input of at most 3 GiB the loops end, no access leaves a
  block, the returned block is the RFC encoding (padding included) followed by the NUL, and
  \<open>*outputlength\<close> is its length.
\<close>

theorem base64_encode_correct:
  assumes len: "unat n \<le> length d" and small: "unat n \<le> 3 * 2 ^ 30"
  shows "base64_encode True (Some d) n True =
    Some (Some (base64_spec (take (unat n) d) @ [0]),
          Some (of_nat (length (base64_spec (take (unat n) d)))))"
proof -
  let ?r = "take (unat n) d"
  let ?L = "4 * ((unat n + 2) div 3)"
  have r: "length ?r = unat n" using len by (simp add: min_absorb2)
  have g: "length (base64_groups ?r) = ?L" by (simp only: length_base64_groups r)
  have n32: "unat n < 2 ^ 32" using small by simp
  have L: "?L \<le> 2 ^ 32" using small by simp
  have loop: "base64_encode_loop ([] @ ?r @ drop (unat n) d) n (of_nat (length ([] :: byte list)))
      (of_nat (length ([] :: byte list))) ([] @ replicate (?L + 1) 0)
    = Some ([] @ base64_groups ?r @ drop (length (base64_groups ?r)) (replicate (?L + 1) 0))"
    by (rule base64_encode_loop_groups) (use n32 L in \<open>simp_all only: r g length_append list.size add_0 length_replicate le_add1\<close>)
  have pad: "base64_pad ?L (modulustable ! (unat n mod 3)) (base64_groups ?r @ [0]) =
      Some (base64_spec ?r @ [0])"
    using base64_pad_eq [of "modulustable ! (unat n mod 3)" ?L "base64_groups ?r @ [0]"]
      base64_spec_groups [of ?r] modulustable_le [of "unat n"]
    by (simp add: g min_absorb2 [OF len])
  have le: "4 * ((n + 2) div 3) = of_nat (length (base64_spec ?r))"
    unfolding length_base64_spec r unat_outlen(1) [OF small, symmetric] by (simp only: of_nat_unat ucast_id)
  have guard: "\<not> (- 1 - 2) div 3 < n"
    using encode_guard [of n] small by simp
  have "drop ?L (replicate (?L + 1) (0 :: byte)) = [0]"
    by (simp only: drop_replicate) simp
  then have loop': "base64_encode_loop d n 0 0 (replicate (?L + 1) 0) = Some (base64_groups ?r @ [0])"
    using loop by (simp add: g)
  show ?thesis
    unfolding le [symmetric]
    using loop' pad by (simp only: base64_encode_def guard Let_def unat_outlen [OF small]) simp
qed

theorem base64_encode_correct_witness:
  "base64_encode True (Some (bytes_of ''Many'')) 4 True =
     Some (Some (bytes_of ''TWFueQ=='' @ [0]), Some 8)"
proof -
  have s: "base64_spec (take (unat (4 :: 64 word)) (bytes_of ''Many'')) = bytes_of ''TWFueQ==''"
    by code_simp
  show ?thesis using base64_encode_correct [of 4 "bytes_of ''Many''"] unfolding s by simp
qed

section \<open>The decoding loop\<close>

lemma encodingtable_distinct: "distinct encodingtable" by code_simp
lemma length_encodingtable [simp]: "length encodingtable = 64" by code_simp
lemma pad_not_symbol: "pad_char \<notin> set encodingtable" by code_simp

lemma base64_fill_table_props:
  assumes "k \<le> 64"
  shows "\<exists>T. base64_fill_table k (replicate 256 0) = Some T \<and> length T = 256
    \<and> (\<forall>i<k. T ! unat (encodingtable ! i) = of_nat i)
    \<and> (\<forall>c. c \<notin> set (take k encodingtable) \<longrightarrow> T ! unat c = 0)"
  using assms
proof (induction k)
  case 0
  then show ?case by (auto simp: nth_replicate)
next
  case (Suc k)
  then obtain T where T: "base64_fill_table k (replicate 256 0) = Some T" "length T = 256"
    "\<forall>i<k. T ! unat (encodingtable ! i) = of_nat i"
    "\<forall>c. c \<notin> set (take k encodingtable) \<longrightarrow> T ! unat c = 0" by auto
  let ?T = "T[unat (encodingtable ! k) := of_nat k]"
  have ne: "unat (encodingtable ! k) \<noteq> unat (encodingtable ! i)" if "i < k" for i
    using that Suc.prems encodingtable_distinct by (simp add: nth_eq_iff_index_eq word_unat_eq_iff [symmetric])
  have "take (Suc k) encodingtable = take k encodingtable @ [encodingtable ! k]"
    using Suc.prems by (simp add: take_Suc_conv_app_nth)
  then have "\<forall>c. c \<notin> set (take (Suc k) encodingtable) \<longrightarrow> ?T ! unat c = 0"
    using T(4) by (auto simp: nth_list_update word_unat_eq_iff)
  moreover have "\<forall>i<Suc k. ?T ! unat (encodingtable ! i) = of_nat i"
    using T(2,3) ne by (auto simp: less_Suc_eq)
  ultimately show ?case using T(1,2) by simp
qed

definition base64_table :: "byte list" where
  "base64_table = the (base64_fill_table 64 (replicate 256 0))"

lemma base64_table:
  shows base64_table_eq: "base64_fill_table 64 (replicate 256 0) = Some base64_table"
    and base64_table_length: "length base64_table = 256"
    and base64_table_symbol: "i < 64 \<Longrightarrow> base64_table ! unat (encodingtable ! i) = of_nat i"
    and base64_table_other: "c \<notin> set encodingtable \<Longrightarrow> base64_table ! unat c = 0"
  using base64_fill_table_props [of 64] by (auto simp: base64_table_def)

definition base64_value :: "byte \<Rightarrow> 32 word" where
  "base64_value c = (if c = pad_char then 0 else scast (base64_table ! unat c))"

lemma sext_small: "k < 64 \<Longrightarrow> (scast (of_nat k :: byte) :: 32 word) = of_nat k"
proof -
  have "\<forall>k \<in> set [0..<64]. (scast (of_nat k :: byte) :: 32 word) = of_nat k" by code_simp
  then show "k < 64 \<Longrightarrow> ?thesis" by simp
qed

lemma sym_not_pad [simp]: "k < 64 \<Longrightarrow> base64_sym k \<noteq> pad_char"
  using pad_not_symbol nth_mem [of k encodingtable] unfolding base64_sym_def length_encodingtable by metis

lemma base64_value_of_sym: "k < 64 \<Longrightarrow> base64_value (base64_sym k) = of_nat k"
  using sym_not_pad [of k] by (simp add: base64_value_def base64_table_symbol sext_small) (simp add: base64_sym_def base64_table_symbol sext_small)

lemma base64_value_other: "c \<notin> set encodingtable \<Longrightarrow> base64_value c = 0"
  by (simp add: base64_value_def base64_table_other)

definition base64_ungroup :: "byte \<Rightarrow> byte \<Rightarrow> byte \<Rightarrow> byte \<Rightarrow> byte list" where
  "base64_ungroup a b c d =
     (let t = push_bit 18 (base64_value a) + push_bit 12 (base64_value b) + push_bit 6 (base64_value c) + base64_value d
      in [ucast (drop_bit 16 t AND 0xFF), ucast (drop_bit 8 t AND 0xFF), ucast (t AND 0xFF)])"

fun base64_ungroups :: "byte list \<Rightarrow> byte list" where
  "base64_ungroups (a # b # c # d # r) = base64_ungroup a b c d @ base64_ungroups r"
| "base64_ungroups _ = []"

lemma base64_sextet_at:
  assumes "length pre < 2 ^ 32"
  shows "base64_sextet base64_table (pre @ c # r) (of_nat (length pre)) =
    Some (base64_value c, of_nat (Suc (length pre)))"
proof -
  have "unat (of_nat (length pre) :: 32 word) = length pre" using assms by (simp add: unat_of_nat)
  then show ?thesis
    by (simp add: base64_sextet_def base64_value_def base64_table_length mem_read_def nth_append add.commute)
qed

lemma base64_put_at:
  fixes t :: "32 word" and k :: nat and fin zs :: "byte list" and outlen :: "64 word"
  assumes "length fin \<le> unat outlen" "unat outlen < 2 ^ 32" "unat outlen \<le> length fin + length zs"
  defines "fin' \<equiv> take (unat outlen) (fin @ [ucast (drop_bit (k * 8) t AND 0xFF)])"
  shows "base64_put outlen t k (fin @ zs, of_nat (length fin)) =
    Some (fin' @ drop (length fin' - length fin) zs, of_nat (length fin'))"
proof (cases "length fin < unat outlen")
  case True
  then obtain z zs' where zs: "zs = z # zs'" using assms(3) by (cases zs) auto
  have "unat (of_nat (length fin) :: 32 word) = length fin" using assms(1,2) by (simp add: unat_of_nat)
  then show ?thesis using True assms(2)
    by (simp add: base64_put_def counter_less fin'_def zs list_update_append add.commute)
next
  case False
  then have "\<not> (ucast (of_nat (length fin) :: 32 word) :: 64 word) < outlen"
    using counter_less [of "length fin" outlen] assms(1,2) by linarith
  then show ?thesis using False assms(1,2)
    by (simp add: base64_put_def fin'_def)
qed

lemma base64_decode_step:
  assumes i: "(ucast i :: 64 word) < n"
    and s: "base64_sextet base64_table enc i = Some (base64_value a, i1)"
      "base64_sextet base64_table enc i1 = Some (base64_value b, i2)"
      "base64_sextet base64_table enc i2 = Some (base64_value c, i3)"
      "base64_sextet base64_table enc i3 = Some (base64_value d, i4)"
    and l: "length fin \<le> unat outlen" "unat outlen < 2 ^ 32" "unat outlen \<le> length fin + length zs"
  defines "fin' \<equiv> take (unat outlen) (fin @ base64_ungroup a b c d)"
  shows "base64_decode_loop base64_table enc n outlen i (of_nat (length fin)) (fin @ zs) =
    base64_decode_loop base64_table enc n outlen i4 (of_nat (length fin'))
      (fin' @ drop (length fin' - length fin) zs)"
proof -
  define t where "t = push_bit 18 (base64_value a) + push_bit 12 (base64_value b)
    + push_bit 6 (base64_value c) + base64_value d"
  let ?L = "unat outlen"
  let ?b = "\<lambda>k. ucast (drop_bit (k * 8) t AND 0xFF) :: byte"
  let ?f1 = "take ?L (fin @ [?b 2])"
  let ?f2 = "take ?L (?f1 @ [?b 1])"
  let ?f3 = "take ?L (?f2 @ [?b 0])"
  have f3: "?f3 = fin'"
    unfolding fin'_def base64_ungroup_def t_def [symmetric] Let_def by (simp add: take_Cons' min_def) linarith
  have p1: "base64_put outlen t 2 (fin @ zs, of_nat (length fin)) =
      Some (?f1 @ drop (length ?f1 - length fin) zs, of_nat (length ?f1))"
    by (rule base64_put_at) (use l in simp_all)
  have p2: "base64_put outlen t 1 (?f1 @ drop (length ?f1 - length fin) zs, of_nat (length ?f1)) =
      Some (?f2 @ drop (length ?f2 - length ?f1) (drop (length ?f1 - length fin) zs), of_nat (length ?f2))"
    by (rule base64_put_at) (use l in auto)
  have p3: "base64_put outlen t 0 (?f2 @ drop (length ?f2 - length ?f1) (drop (length ?f1 - length fin) zs), of_nat (length ?f2)) =
      Some (?f3 @ drop (length ?f3 - length ?f2) (drop (length ?f2 - length ?f1) (drop (length ?f1 - length fin) zs)),
        of_nat (length ?f3))"
    by (rule base64_put_at) (use l in auto)
  have d: "drop (length ?f3 - length ?f2) (drop (length ?f2 - length ?f1) (drop (length ?f1 - length fin) zs))
      = drop (length ?f3 - length fin) zs"
    unfolding drop_drop by (rule arg_cong [where f = "\<lambda>k. drop k zs"]) (use l in auto)
  show ?thesis
    by (subst base64_decode_loop.simps)
      (simp only: i s if_True bind.bind_lunit prod.case Let_def t_def [symmetric] p1 p2 p3 d [unfolded f3] f3 fst_conv snd_conv)
qed

lemma length_base64_ungroup [simp]: "length (base64_ungroup a b c d) = 3"
  by (simp add: base64_ungroup_def Let_def)

lemma base64_decode_loop_groups:
  "unat n = length pre + length r \<Longrightarrow> unat n < 2 ^ 32 \<Longrightarrow> length r mod 4 = 0 \<Longrightarrow>
   length fin \<le> unat outlen \<Longrightarrow> unat outlen < 2 ^ 32 \<Longrightarrow> unat outlen \<le> length fin + length zs \<Longrightarrow>
   base64_decode_loop base64_table (pre @ r @ junk) n outlen (of_nat (length pre)) (of_nat (length fin)) (fin @ zs) =
     (let fin' = take (unat outlen) (fin @ base64_ungroups r)
      in Some (fin' @ drop (length fin' - length fin) zs))"
proof (induction r arbitrary: pre fin zs rule: base64_ungroups.induct)
  case (1 a b c d r)
  have n: "length pre < 2 ^ 32" "length pre < unat n" "length (pre @ [a]) < 2 ^ 32"
    "length (pre @ [a, b]) < 2 ^ 32" "length (pre @ [a, b, c]) < 2 ^ 32"
    using "1.prems" by simp_all
  let ?enc = "pre @ (a # b # c # d # r) @ junk"
  have s: "base64_sextet base64_table ?enc (of_nat (length pre)) = Some (base64_value a, of_nat (length (pre @ [a])))"
    "base64_sextet base64_table ?enc (of_nat (length (pre @ [a]))) = Some (base64_value b, of_nat (length (pre @ [a, b])))"
    "base64_sextet base64_table ?enc (of_nat (length (pre @ [a, b]))) = Some (base64_value c, of_nat (length (pre @ [a, b, c])))"
    "base64_sextet base64_table ?enc (of_nat (length (pre @ [a, b, c]))) = Some (base64_value d, of_nat (length (pre @ [a, b, c, d])))"
    using base64_sextet_at [OF n(1), of a "b # c # d # r @ junk"]
      base64_sextet_at [OF n(3), of b "c # d # r @ junk"]
      base64_sextet_at [OF n(4), of c "d # r @ junk"] base64_sextet_at [OF n(5), of d "r @ junk"]
    by simp_all
  have i: "ucast (of_nat (length pre) :: 32 word) < n" using counter_less [OF n(1)] n(2) by blast
  define fin' where "fin' = take (unat outlen) (fin @ base64_ungroup a b c d)"
  have f: "length fin' \<le> unat outlen" "length fin \<le> length fin'"
    "unat outlen \<le> length fin' + length (drop (length fin' - length fin) zs)"
    using "1.prems" by (auto simp: fin'_def)
  define g where "g = take (unat outlen) (fin' @ base64_ungroups r)"
  have g: "take (unat outlen) (fin @ base64_ungroups (a # b # c # d # r)) = g"
    using "1.prems" by (auto simp: g_def fin'_def min_def)
  have "length fin' \<le> length g" using f(1) by (simp add: g_def)
  then have dd: "length g - length fin' + (length fin' - length fin) = length g - length fin"
    using f(2) by simp
  have "base64_decode_loop base64_table ((pre @ [a, b, c, d]) @ r @ junk) n outlen
      (of_nat (length (pre @ [a, b, c, d]))) (of_nat (length fin')) (fin' @ drop (length fin' - length fin) zs) =
     (let fin'' = take (unat outlen) (fin' @ base64_ungroups r)
      in Some (fin'' @ drop (length fin'' - length fin') (drop (length fin' - length fin) zs)))"
    by (rule "1.IH") (use "1.prems" f in auto)
  then show ?case
    unfolding base64_decode_step [OF i s "1.prems"(4-6)] fin'_def [symmetric] g g_def [symmetric]
      Let_def drop_drop dd by simp
qed (simp_all add: base64_decode_loop.simps counter_less)

subsection \<open>Decoding what the encoder produced\<close>

lemma digits256:
  fixes a b c :: nat
  assumes "a < 256" "b < 256" "c < 256"
  defines "t \<equiv> a * 65536 + b * 256 + c"
  shows "t div 65536 mod 256 = a" "t div 256 mod 256 = b" "t mod 256 = c"
proof -
  have d: "(q * 256 + (z::nat)) div 256 = q" "(q * 256 + z) mod 256 = z" if "z < 256" for q z
    using that by simp_all
  have t: "t = (a * 256 + b) * 256 + c" by (simp add: t_def)
  have 1: "t div 256 = a * 256 + b" unfolding t by (rule d [OF assms(3)])
  have "t div 65536 = t div 256 div 256" by (simp add: div_mult2_eq [symmetric])
  then have 2: "t div 65536 = a" unfolding 1 by (simp only: d [OF assms(2)])
  show "t div 65536 mod 256 = a" using assms(1) by (simp add: 2)
  show "t div 256 mod 256 = b" unfolding 1 by (rule d [OF assms(2)])
  show "t mod 256 = c" unfolding t by (rule d [OF assms(3)])
qed

lemma sextets_triple:
  fixes a b c :: nat
  shows "a div 4 * 262144 + (a mod 4 * 16 + b div 16) * 4096 + (b mod 16 * 4 + c div 64) * 64 + c mod 64
    = a * 65536 + b * 256 + c"
proof -
  obtain a1 a0 where a: "a = a1 * 4 + a0" "a div 4 = a1" "a mod 4 = a0"
    by (rule split_mod [of 4 a]) simp
  obtain b1 b0 where b: "b = b1 * 16 + b0" "b div 16 = b1" "b mod 16 = b0"
    by (rule split_mod [of 16 b]) simp
  obtain c1 c0 where c: "c = c1 * 64 + c0" "c div 64 = c1" "c mod 64 = c0"
    by (rule split_mod [of 64 c]) simp
  show ?thesis unfolding a(2,3) b(2,3) c(2,3) unfolding a(1) b(1) c(1) by simp
qed

lemma octet_of_triple:
  fixes t :: "32 word"
  shows "(ucast (drop_bit k t AND 0xFF) :: byte) = of_nat (unat t div 2 ^ k mod 256)"
proof -
  have "drop_bit k t AND 0xFF = take_bit 8 (drop_bit k t)"
    by (simp add: take_bit_eq_mask mask_eq_exp_minus_1)
  moreover have "unat (take_bit 8 (drop_bit k t)) = unat t div 2 ^ k mod 256"
    unfolding unsigned_take_bit_eq unat_drop_bit_eq by (simp add: take_bit_eq_mod drop_bit_eq_div)
  ultimately show ?thesis by (metis of_nat_unat)
qed

lemma base64_ungroup_nat:
  fixes w x y z :: nat
  assumes v: "base64_value p = of_nat w" "base64_value q = of_nat x" "base64_value r = of_nat y" "base64_value s = of_nat z"
    and l: "w < 64" "x < 64" "y < 64" "z < 64"
    and t: "w * 262144 + x * 4096 + y * 64 + z = unat a * 65536 + unat b * 256 + unat c"
  shows "base64_ungroup p q r s = [a, b, c]"
proof -
  define T :: "32 word" where "T = push_bit 18 (of_nat w) + push_bit 12 (of_nat x) + push_bit 6 (of_nat y) + of_nat z"
  have "T = of_nat (w * 262144 + x * 4096 + y * 64 + z)"
    by (simp add: T_def push_bit_eq_mult)
  then have "unat T = (w * 262144 + x * 4096 + y * 64 + z) mod 2 ^ 32"
    by (simp only: unat_of_nat) simp
  then have T: "unat T = unat a * 65536 + unat b * 256 + unat c"
    unfolding t using unat_byte_less [of a] unat_byte_less [of b] unat_byte_less [of c] by (simp del: unat_byte_less)
  have "base64_ungroup p q r s = [ucast (drop_bit 16 T AND 0xFF), ucast (drop_bit 8 T AND 0xFF), ucast (drop_bit 0 T AND 0xFF)]"
    by (simp add: base64_ungroup_def T_def v Let_def)
  also have "\<dots> = [a, b, c]"
    unfolding octet_of_triple T
    using digits256 [OF unat_byte_less [of a] unat_byte_less [of b] unat_byte_less [of c]] by simp
  finally show ?thesis .
qed

lemma base64_value_pad: "base64_value pad_char = of_nat 0"
  by (simp add: base64_value_def)

lemma sextet_bounds:
  fixes a b c :: byte
  shows "unat a div 4 < 64" "unat a mod 4 * 16 + unat b div 16 < 64"
    "unat b mod 16 * 4 + unat c div 64 < 64" "unat c mod 64 < 64"
    "unat a mod 4 * 16 < 64" "unat b mod 16 * 4 < 64"
  using unat_byte_less [of a] unat_byte_less [of b] unat_byte_less [of c] by linarith+

lemma base64_ungroups_spec: "take (length d) (base64_ungroups (base64_spec d)) = d"
proof (induction d rule: base64_spec.induct)
  case (2 a)
  have "base64_ungroup (base64_sym (unat a div 4)) (base64_sym (unat a mod 4 * 16)) pad_char pad_char = [a, 0, 0]"
    by (rule base64_ungroup_nat [OF base64_value_of_sym base64_value_of_sym base64_value_pad base64_value_pad])
      (use sextets_triple [of "unat a" 0 0] in \<open>simp_all add: sextet_bounds\<close>)
  then show ?case by simp
next
  case (3 a b)
  have "base64_ungroup (base64_sym (unat a div 4)) (base64_sym (unat a mod 4 * 16 + unat b div 16)) (base64_sym (unat b mod 16 * 4)) pad_char = [a, b, 0]"
    by (rule base64_ungroup_nat [OF base64_value_of_sym base64_value_of_sym base64_value_of_sym base64_value_pad])
      (use sextets_triple [of "unat a" "unat b" 0] in \<open>simp_all add: sextet_bounds\<close>)
  then show ?case by simp
next
  case (4 a b c r)
  have "base64_ungroup (base64_sym (unat a div 4)) (base64_sym (unat a mod 4 * 16 + unat b div 16))
      (base64_sym (unat b mod 16 * 4 + unat c div 64)) (base64_sym (unat c mod 64)) = [a, b, c]"
    by (rule base64_ungroup_nat [OF base64_value_of_sym base64_value_of_sym base64_value_of_sym base64_value_of_sym])
      (use sextets_triple [of "unat a" "unat b" "unat c"] in \<open>simp_all add: sextet_bounds\<close>)
  then show ?case using 4 by simp
qed simp

lemma base64_spec_last:
  "r \<noteq> [] \<Longrightarrow> (base64_spec r ! (length (base64_spec r) - 1) = pad_char \<longleftrightarrow> length r mod 3 \<noteq> 0)
     \<and> (base64_spec r ! (length (base64_spec r) - 2) = pad_char \<longleftrightarrow> length r mod 3 = 1)"
proof (induction r rule: base64_spec.induct)
  case (4 a b c r)
  show ?case
  proof (cases "r = []")
    case True
    then show ?thesis by (simp add: numeral_2_eq_2 sextet_bounds)
  next
    case False
    then have "4 \<le> length (base64_spec r)" by (cases r rule: base64_spec.cases) auto
    then show ?thesis using "4.IH" [OF False]
      by (auto simp: nth_append nth_Cons' numeral_2_eq_2)
  qed
qed (auto simp: numeral_2_eq_2 sextet_bounds)

definition base64_decoded_length :: "byte list \<Rightarrow> nat" where
  "base64_decoded_length e = length e div 4 * 3
     - of_bool (e ! (length e - 1) = pad_char) - of_bool (e ! (length e - 2) = pad_char)"

lemma length_base64_ungroups: "length (base64_ungroups r) = length r div 4 * 3"
  by (induction r rule: base64_ungroups.induct) (simp_all add: div_add_self1 [of 4])

lemma base64_decode_eq:
  assumes len: "unat n \<le> length e" and small: "unat n < 2 ^ 32" and pos: "0 < unat n" and four: "unat n mod 4 = 0"
  defines "L \<equiv> base64_decoded_length (take (unat n) e)"
  shows "base64_decode True (Some e) n True =
    Some (Some (if L = 0 then [0] else take L (base64_ungroups (take (unat n) e))), Some (of_nat L))"
proof -
  let ?e = "take (unat n) e"
  have le: "length ?e = unat n" using len by (simp add: min_absorb2)
  obtain q where q: "unat n = 4 * q" using four by (auto simp: dvd_def simp flip: mod_eq_0_iff_dvd)
  have n4: "4 \<le> unat n" "0 < q" using q pos by auto
  have nz: "n \<noteq> 0" using pos by auto
  have m4: "n mod 4 = 0" using four by (simp add: word_unat_eq_iff unat_mod)
  have u: "unat (n - 1) = unat n - 1" "unat (n - 2) = unat n - 2"
    using n4 by (simp_all add: unat_sub word_le_nat_alt)
  have base: "unat (n div 4 * 3) = 3 * q"
    using small q by (simp add: unat_word_ariths)
  define len1 where "len1 = (if e ! (unat n - 1) = pad_char then n div 4 * 3 - 1 else n div 4 * 3)"
  have len1: "unat len1 = 3 * q - of_bool (e ! (unat n - 1) = pad_char)"
    using n4 base by (simp add: len1_def unat_sub word_le_nat_alt)
  define outlen where "outlen = (if e ! (unat n - 2) = pad_char then len1 - 1 else len1)"
  have outlen: "unat outlen = L"
    using n4 len1 q le by (auto simp: outlen_def L_def base64_decoded_length_def unat_sub word_le_nat_alt)
  have L: "L \<le> 3 * q" "L < 2 ^ 32" using q le small by (auto simp: L_def base64_decoded_length_def)
  have loop: "base64_decode_loop base64_table ([] @ ?e @ drop (unat n) e) n outlen
      (of_nat (length ([] :: byte list))) (of_nat (length ([] :: byte list)))
      ([] @ replicate (if L = 0 then 1 else L) 0) =
    (let fin' = take (unat outlen) ([] @ base64_ungroups ?e)
     in Some (fin' @ drop (length fin' - length ([] :: byte list)) (replicate (if L = 0 then 1 else L) 0)))"
    by (rule base64_decode_loop_groups) (use small four L outlen in \<open>simp_all only: le, simp_all\<close>)
  have g: "length (base64_ungroups ?e) = 3 * q" by (simp only: length_base64_ungroups le) (simp add: q)
  have loop': "base64_decode_loop base64_table e n outlen 0 0 (replicate (if L = 0 then 1 else L) 0) =
      Some (if L = 0 then [0] else take L (base64_ungroups ?e))"
    using loop L by (auto simp: g outlen Let_def split: if_splits)
  have r: "mem_read e (unat n - 1) = Some (e ! (unat n - 1))" "mem_read e (unat n - 2) = Some (e ! (unat n - 2))"
    using n4 len by simp_all
  have o: "of_nat L = outlen" "(outlen = 0) = (L = 0)" using outlen by (auto simp: unat_eq_0)
  show ?thesis
    unfolding base64_decode_def option.case base64_table_eq bind.bind_lunit u r Let_def len1_def [symmetric] outlen_def [symmetric] o(2) outlen
    using nz m4 loop' by (simp add: o(1))
qed

text \<open>
  C8: \<open>base64_decode\<close> inverts \<open>base64_encode\<close>: decoding what the encoder returned, with the length it
  stored, gives back the input bytes and their length (an empty input gives the one zero byte the
  decoder allocates).
\<close>

theorem base64_roundtrip:
  assumes len: "unat n \<le> length d" and small: "unat n \<le> 3 * 2 ^ 30 - 3"
  shows "\<exists>e m. base64_encode True (Some d) n True = Some (Some e, Some m) \<and>
    base64_decode True (Some e) m True = Some (Some (if n = 0 then [0] else take (unat n) d), Some n)"
proof -
  let ?d = "take (unat n) d"
  define e where "e = base64_spec ?d @ [0]"
  define m :: "64 word" where "m = of_nat (length (base64_spec ?d))"
  have ld: "length ?d = unat n" using len by (simp add: min_absorb2)
  have enc: "base64_encode True (Some d) n True = Some (Some e, Some m)"
    unfolding e_def m_def by (rule base64_encode_correct [OF len]) (use small in simp)
  have ls: "length (base64_spec ?d) = 4 * ((unat n + 2) div 3)"
    by (simp only: length_base64_spec ld)
  have b: "4 * ((unat n + 2) div 3) < 2 ^ 32" using small by simp
  then have um: "unat m = length (base64_spec ?d)" "unat m < 2 ^ 32"
    unfolding m_def ls by (simp_all only: unat_of_nat) simp_all
  have dec: "base64_decode True (Some e) m True = Some (Some (if n = 0 then [0] else ?d), Some n)"
  proof (cases "n = 0")
    case True
    then show ?thesis by (simp add: m_def base64_decode_def)
  next
    case False
    then have p: "0 < unat n" by (simp add: unat_gt_0)
    with ld have "?d \<noteq> []" by (metis list.size(3) less_irrefl)
    with p have pos: "0 < unat n" "?d \<noteq> []" by simp_all
    have t: "take (unat m) e = base64_spec ?d" by (simp add: e_def um(1))
    have "(unat n + 2) div 3 * 3 - of_bool (unat n mod 3 \<noteq> 0) - of_bool (unat n mod 3 = 1) = unat n"
      using pos(1) by (cases "unat n mod 3 = 0"; cases "unat n mod 3 = 1"; auto) presburger+
    then have L: "base64_decoded_length (base64_spec ?d) = unat n"
      using base64_spec_last [OF pos(2)] by (simp only: base64_decoded_length_def ls ld) simp
    show ?thesis
      using base64_decode_eq [of m e] um pos ls e_def base64_ungroups_spec [of ?d]
      unfolding t L ld by (simp add: False)
  qed
  show ?thesis using enc dec by blast
qed

theorem base64_roundtrip_witness:
  "\<exists>e m. base64_encode True (Some [0x01, 0xFF, 0x80]) 2 True = Some (Some e, Some m) \<and>
     base64_decode True (Some e) m True = Some (Some [0x01, 0xFF], Some 2)"
  using base64_roundtrip [of 2 "[0x01, 0xFF, 0x80]"] by simp

section \<open>The width of the counters\<close>

text \<open>
  The counters of the encoding loop are 32 bits wide while \<open>inputlength\<close> has 64: an input of
  \<open>2 ^ 32\<close> bytes or more passes every guard of \<open>base64_encode\<close> and then never leaves the loop with a
  result (the counter wraps below \<open>inputlength\<close> for ever).
\<close>

theorem base64_encode_long_input:
  assumes "2 ^ 32 \<le> unat n" "n \<le> (- 1 - 2) div 3"
  shows "base64_encode True (Some d) n True = None"
  using assms by (simp add: base64_encode_def base64_encode_loop_diverges not_less Let_def)

theorem base64_encode_long_input_witness:
  "base64_encode True (Some [0]) 4294967296 True = None"
  by (rule base64_encode_long_input) (simp_all add: word_le_nat_alt unat_div)

end
