(* ===== verification/Interfaces.thy ===== *)
theory Interfaces
  imports CPrelude
begin

text \<open>
  The contracts between components, as locales.  A provider's theory interprets the locale on its
  own operations; a client's lemmas are proved once, here, from the laws alone.
\<close>

section \<open>A byte sink\<close>

text \<open>
  What the packet builders rely on when they call \<open>buffer_append\<close> and ignore its result:
  a non-empty append puts the bytes at the end as long as the total stays within \<open>room\<close>, an append
  of nothing changes nothing.
\<close>

locale byte_sink =
  fixes rep :: "'b \<Rightarrow> byte list \<Rightarrow> bool"
    and append :: "'b \<Rightarrow> byte list option \<Rightarrow> nat \<Rightarrow> ('b \<times> bool) option"
    and room :: nat
  assumes append_bytes:
      "rep b xs \<Longrightarrow> n \<le> length d \<Longrightarrow> 0 < n \<Longrightarrow> length xs + n \<le> room \<Longrightarrow>
       \<exists>b'. append b (Some d) n = Some (b', True) \<and> rep b' (xs @ take n d)"
    and append_nothing: "rep b xs \<Longrightarrow> append b src 0 = Some (b, False)"

text \<open>A run of appends, their results ignored.\<close>

fun append_all :: "('b \<Rightarrow> byte list option \<Rightarrow> nat \<Rightarrow> ('b \<times> bool) option) \<Rightarrow> 'b \<Rightarrow> byte list list \<Rightarrow> 'b option" where
  "append_all app b [] = Some b"
| "append_all app b (d # ds) =
     do { (b', _) \<leftarrow> app b (Some d) (length d); append_all app b' ds }"

context byte_sink begin

lemma append_chunk:
  assumes "rep b xs" "length xs + length d \<le> room"
  shows "\<exists>b' ok. append b (Some d) (length d) = Some (b', ok) \<and> rep b' (xs @ d)"
proof (cases "d = []")
  case True
  then show ?thesis using append_nothing [OF assms(1), of "Some d"] assms(1) by auto
next
  case False
  then obtain b' where "append b (Some d) (length d) = Some (b', True)" "rep b' (xs @ take (length d) d)"
    using append_bytes [OF assms(1), of "length d" d] assms(2) by auto
  then show ?thesis by auto
qed

lemma append_all_rep:
  "rep b xs \<Longrightarrow> length xs + length (concat ds) \<le> room \<Longrightarrow>
   \<exists>b'. append_all append b ds = Some b' \<and> rep b' (xs @ concat ds)"
proof (induction ds arbitrary: b xs)
  case (Cons d ds)
  then obtain b' ok where b': "append b (Some d) (length d) = Some (b', ok)" "rep b' (xs @ d)"
    using append_chunk [of b xs d] by auto
  show ?case using Cons.IH [OF b'(2)] Cons.prems(2) b'(1) by simp
qed simp

end

section \<open>A text sink\<close>

text \<open>
  What the printers of the library rely on when they append C strings one after the other: the characters
  before the terminator are added at the end, and an empty string changes nothing.
\<close>

locale text_sink =
  fixes rep :: "'s \<Rightarrow> byte list \<Rightarrow> bool"
    and app :: "'s \<Rightarrow> byte list option \<Rightarrow> ('s \<times> bool) option"
    and room :: nat
  assumes app_text:
      "rep s xs \<Longrightarrow> c_string d = Some t \<Longrightarrow> t \<noteq> [] \<Longrightarrow> length xs + length t \<le> room \<Longrightarrow>
       \<exists>s'. app s (Some d) = Some (s', True) \<and> rep s' (xs @ t)"
    and app_empty: "rep s xs \<Longrightarrow> c_string d = Some [] \<Longrightarrow> app s (Some d) = Some (s, False)"

fun text_all :: "('s \<Rightarrow> byte list option \<Rightarrow> ('s \<times> bool) option) \<Rightarrow> 's \<Rightarrow> byte list list \<Rightarrow> 's option" where
  "text_all ap s [] = Some s"
| "text_all ap s (d # ds) = do { (s', _) \<leftarrow> ap s (Some d); text_all ap s' ds }"

context text_sink begin

lemma app_any:
  assumes "rep s xs" "c_string d = Some t" "length xs + length t \<le> room"
  shows "\<exists>s' ok. app s (Some d) = Some (s', ok) \<and> rep s' (xs @ t)"
  using app_text [OF assms(1,2) _ assms(3)] app_empty [OF assms(1), of d] assms(1,2) by (cases "t = []") auto

lemma text_all_rep:
  "rep s xs \<Longrightarrow> list_all2 (\<lambda>d t. c_string d = Some t) ds ts \<Longrightarrow> length xs + length (concat ts) \<le> room \<Longrightarrow>
   \<exists>s'. text_all app s ds = Some s' \<and> rep s' (xs @ concat ts)"
proof (induction ds arbitrary: s xs ts)
  case (Cons d ds)
  then obtain t ts' where ts: "ts = t # ts'" "c_string d = Some t" "list_all2 (\<lambda>d t. c_string d = Some t) ds ts'"
    by (auto simp: list_all2_Cons1)
  obtain s1 ok where s1: "app s (Some d) = Some (s1, ok)" "rep s1 (xs @ t)"
    using app_any [OF Cons.prems(1) ts(2)] Cons.prems(3) ts(1) by auto
  show ?case using Cons.IH [OF s1(2) ts(3)] Cons.prems(3) ts(1) s1(1) by simp
qed simp

end

section \<open>A keyed store\<close>

text \<open>
  What a client of the dictionary relies on: storing under a key succeeds, is read back under that
  key, and changes no other key.
\<close>

locale keyed_store =
  fixes inv :: "'d \<Rightarrow> bool"
    and valid :: "'k \<Rightarrow> 'v \<Rightarrow> bool"
    and lookup :: "'d \<Rightarrow> 'k \<Rightarrow> 'v option"
    and store :: "'d \<Rightarrow> 'k \<Rightarrow> 'v \<Rightarrow> 'd option"
  assumes store_total: "inv d \<Longrightarrow> valid k v \<Longrightarrow> \<exists>d'. store d k v = Some d' \<and> inv d'"
    and lookup_same: "inv d \<Longrightarrow> valid k v \<Longrightarrow> store d k v = Some d' \<Longrightarrow> lookup d' k = Some v"
    and lookup_other:
      "inv d \<Longrightarrow> valid k v \<Longrightarrow> store d k v = Some d' \<Longrightarrow> k' \<noteq> k \<Longrightarrow> lookup d' k' = lookup d k'"

fun store_all :: "('d \<Rightarrow> 'k \<Rightarrow> 'v \<Rightarrow> 'd option) \<Rightarrow> 'd \<Rightarrow> ('k \<times> 'v) list \<Rightarrow> 'd option" where
  "store_all st d [] = Some d"
| "store_all st d ((k, v) # kvs) = do { d' \<leftarrow> st d k v; store_all st d' kvs }"

context keyed_store begin

lemma store_all_lookup:
  "inv d \<Longrightarrow> \<forall>(k, v)\<in>set kvs. valid k v \<Longrightarrow>
   \<exists>d'. store_all store d kvs = Some d' \<and> inv d' \<and>
        (\<forall>k. lookup d' k = (case map_of (rev kvs) k of None \<Rightarrow> lookup d k | Some v \<Rightarrow> Some v))"
proof (induction kvs arbitrary: d)
  case (Cons kv kvs)
  obtain k v where kv: "kv = (k, v)" by force
  with Cons.prems obtain d1 where d1: "store d k v = Some d1" "inv d1"
    using store_total [of d k v] by auto
  with Cons kv obtain d' where d': "store_all store d1 kvs = Some d'" "inv d'"
    "\<forall>k. lookup d' k = (case map_of (rev kvs) k of None \<Rightarrow> lookup d1 k | Some v \<Rightarrow> Some v)"
    by force
  moreover have "lookup d1 k' = (if k' = k then Some v else lookup d k')" for k'
    using lookup_same lookup_other d1(1) Cons.prems kv by auto
  ultimately show ?case
    using kv d1 by (auto simp: map_add_def split: option.splits)
qed simp

text \<open>Two stores under different keys commute for every reader.\<close>

lemma store_commute:
  assumes "inv d" "valid k v" "valid k' v'" "k \<noteq> k'"
  shows "\<exists>d1 d2. store_all store d [(k, v), (k', v')] = Some d1 \<and>
    store_all store d [(k', v'), (k, v)] = Some d2 \<and> lookup d1 = lookup d2"
proof -
  obtain d1 where d1: "store_all store d [(k, v), (k', v')] = Some d1"
    "\<forall>q. lookup d1 q = (case map_of (rev [(k, v), (k', v')]) q of None \<Rightarrow> lookup d q | Some v \<Rightarrow> Some v)"
    using store_all_lookup [of d "[(k, v), (k', v')]"] assms by auto
  obtain d2 where d2: "store_all store d [(k', v'), (k, v)] = Some d2"
    "\<forall>q. lookup d2 q = (case map_of (rev [(k', v'), (k, v)]) q of None \<Rightarrow> lookup d q | Some v \<Rightarrow> Some v)"
    using store_all_lookup [of d "[(k', v'), (k, v)]"] assms by auto
  have "lookup d1 q = lookup d2 q" for q using d1(2) d2(2) assms(4) by simp
  then have "lookup d1 = lookup d2" by (rule ext)
  with d1(1) d2(1) show ?thesis by blast
qed

end

section \<open>A channel of items\<close>

text \<open>
  What a queue and a stack have in common: items are put in and taken out one at a time; \<open>place\<close> says
  where an item goes among those that wait, the first of which leaves next.
\<close>

locale channel =
  fixes rep :: "'h \<Rightarrow> 'a list \<Rightarrow> bool"
    and ok :: "'a \<Rightarrow> bool"
    and put :: "'a \<Rightarrow> 'h \<Rightarrow> 'h option"
    and take_out :: "'h \<Rightarrow> ('a option \<times> 'h) option"
    and place :: "'a \<Rightarrow> 'a list \<Rightarrow> 'a list"
  assumes put_rep: "rep h xs \<Longrightarrow> ok x \<Longrightarrow> \<exists>h'. put x h = Some h' \<and> rep h' (place x xs)"
    and take_rep: "rep h (x # xs) \<Longrightarrow> \<exists>h'. take_out h = Some (Some x, h') \<and> rep h' xs"
    and take_empty: "rep h [] \<Longrightarrow> \<exists>h'. take_out h = Some (None, h') \<and> rep h' []"

datatype 'a channel_op = Put 'a | Take

fun channel_run ::
  "('a \<Rightarrow> 'h \<Rightarrow> 'h option) \<Rightarrow> ('h \<Rightarrow> ('a option \<times> 'h) option) \<Rightarrow> 'a channel_op list \<Rightarrow> 'h \<Rightarrow> ('a option list \<times> 'h) option" where
  "channel_run pt tk [] h = Some ([], h)"
| "channel_run pt tk (Put x # as) h = do { h1 \<leftarrow> pt x h; channel_run pt tk as h1 }"
| "channel_run pt tk (Take # as) h = do {
     (r, h1) \<leftarrow> tk h;
     (rs, h2) \<leftarrow> channel_run pt tk as h1;
     Some (r # rs, h2) }"

text \<open>The answers of the same operations on the list of waiting items.\<close>

fun channel_spec :: "('a \<Rightarrow> 'a list \<Rightarrow> 'a list) \<Rightarrow> 'a channel_op list \<Rightarrow> 'a list \<Rightarrow> 'a option list \<times> 'a list" where
  "channel_spec pl [] xs = ([], xs)"
| "channel_spec pl (Put x # as) xs = channel_spec pl as (pl x xs)"
| "channel_spec pl (Take # as) [] = (let (rs, ys) = channel_spec pl as [] in (None # rs, ys))"
| "channel_spec pl (Take # as) (x # xs) = (let (rs, ys) = channel_spec pl as xs in (Some x # rs, ys))"

fun channel_op_ok :: "('a \<Rightarrow> bool) \<Rightarrow> 'a channel_op \<Rightarrow> bool" where
  "channel_op_ok P (Put x) = P x"
| "channel_op_ok P Take = True"

context channel begin

lemma channel_refines:
  assumes "rep h xs" "list_all (channel_op_ok ok) as"
  shows "\<exists>h'. channel_run put take_out as h = Some (fst (channel_spec place as xs), h') \<and>
     rep h' (snd (channel_spec place as xs))"
  using assms
proof (induction as arbitrary: h xs)
  case (Cons a as)
  have ok: "list_all (channel_op_ok ok) as" using Cons.prems(2) by simp
  show ?case
  proof (cases a)
    case (Put x)
    then obtain h1 where "put x h = Some h1" "rep h1 (place x xs)"
      using put_rep [OF Cons.prems(1)] Cons.prems(2) by auto
    with Cons.IH [OF _ ok] Put show ?thesis by simp
  next
    case Take
    show ?thesis
    proof (cases xs)
      case Nil
      with take_empty Cons.prems(1) obtain h1 where "take_out h = Some (None, h1)" "rep h1 []" by blast
      with Cons.IH [OF _ ok, of h1 "[]"] Take Nil show ?thesis by (auto simp: case_prod_beta)
    next
      case (Cons x ys)
      with take_rep Cons.prems(1) obtain h1 where "take_out h = Some (Some x, h1)" "rep h1 ys" by blast
      with Cons.IH [OF _ ok, of h1 ys] Take Cons show ?thesis by (auto simp: case_prod_beta)
    qed
  qed
qed simp

end

section \<open>A byte stream\<close>

text \<open>
  What a protocol client relies on in its connection: everything written arrives behind what was
  written before, and a read of \<open>n\<close> bytes answers exactly the next \<open>n\<close> bytes, as long as the connection is
  good for that many.
\<close>

locale byte_stream =
  fixes written :: "'s \<Rightarrow> byte list"
    and pending :: "'s \<Rightarrow> byte list"
    and good_for :: "nat \<Rightarrow> 's \<Rightarrow> bool"
    and wr :: "byte list \<Rightarrow> 's \<Rightarrow> (bool \<times> 's) option"
    and rd :: "nat \<Rightarrow> 's \<Rightarrow> (byte list option \<times> 's) option"
    and limit :: nat
  assumes write_law: "good_for (length bs + n) s \<Longrightarrow> length bs < limit \<Longrightarrow>
      \<exists>s'. wr bs s = Some (True, s') \<and> written s' = written s @ bs \<and> pending s' = pending s \<and> good_for n s'"
    and read_law: "good_for (k + n) s \<Longrightarrow> 0 < k \<Longrightarrow> k < limit \<Longrightarrow> k \<le> length (pending s) \<Longrightarrow>
      \<exists>s'. rd k s = Some (Some (take k (pending s)), s') \<and> written s' = written s \<and>
        pending s' = drop k (pending s) \<and> good_for n s'"

text \<open>
  A request and its framed answer: write the request, read a header of \<open>h\<close> bytes, then as many bytes as
  the header announces.
\<close>

definition framed_exchange ::
  "(byte list \<Rightarrow> 's \<Rightarrow> (bool \<times> 's) option) \<Rightarrow> (nat \<Rightarrow> 's \<Rightarrow> (byte list option \<times> 's) option) \<Rightarrow>
   byte list \<Rightarrow> nat \<Rightarrow> (byte list \<Rightarrow> nat) \<Rightarrow> 's \<Rightarrow> ((byte list \<times> byte list) option \<times> 's) option" where
  "framed_exchange wr rd req h announced s = do {
     (ok, s1) \<leftarrow> wr req s;
     if \<not> ok then Some (None, s1)
     else do {
       (hd, s2) \<leftarrow> rd h s1;
       case hd of
         None \<Rightarrow> Some (None, s2)
       | Some header \<Rightarrow> do {
           (bd, s3) \<leftarrow> rd (announced header) s2;
           Some (map_option (\<lambda>body. (header, body)) bd, s3) } } }"

context byte_stream begin

lemma exchange_law:
  assumes g: "good_for (length req + (h + (announced header + n))) s"
    and p: "pending s = header @ body @ rest" "length header = h" "length body = announced header"
    and l: "length req < limit" "0 < h" "h < limit" "0 < announced header" "announced header < limit"
  shows "\<exists>s'. framed_exchange wr rd req h announced s = Some (Some (header, body), s') \<and>
     written s' = written s @ req \<and> pending s' = rest \<and> good_for n s'"
proof -
  obtain s1 where s1: "wr req s = Some (True, s1)" "written s1 = written s @ req" "pending s1 = pending s"
    "good_for (h + (announced header + n)) s1"
    using write_law [OF g l(1)] by blast
  obtain s2 where s2: "rd h s1 = Some (Some header, s2)" "written s2 = written s1" "pending s2 = body @ rest"
    "good_for (announced header + n) s2"
    using read_law [OF s1(4) l(2,3)] s1(3) p by auto
  obtain s3 where "rd (announced header) s2 = Some (Some body, s3)" "written s3 = written s2"
    "pending s3 = rest" "good_for n s3"
    using read_law [OF s2(4) l(4,5)] s2(3) p(3) by auto
  with s1 s2 show ?thesis by (simp add: framed_exchange_def)
qed

end

end
