(* ===== verification/Buffer.thy ===== *)
theory Buffer
  imports Interfaces
begin

text \<open>
  The growable byte buffer of \<open>core/src/buffer.c\<close>.  A \<open>buffer_t*\<close> is a \<open>buffer_t option\<close> (\<open>None\<close> is
  NULL); its \<open>data\<close> block has one owner, so it is held inside the record.  The answers of \<open>calloc\<close>
  and of \<open>sysconf(_SC_PAGESIZE)\<close> are arguments.  The theory proves the storage invariant of the
  buffer, that every operation keeps it without touching memory outside the block, and what each
  operation does to the bytes the buffer holds.
\<close>

section \<open>State and operations\<close>

record buffer_t =
  bf_data :: "byte list option"
  bf_data_size :: nat
  bf_memory_size :: nat

text \<open>\<open>calloc(n, 1)\<close>, answered with memory or not.\<close>

definition calloc_block :: "bool \<Rightarrow> nat \<Rightarrow> byte list option" where
  "calloc_block ok n = (if ok then Some (replicate n 0) else None)"

definition buffer_internal_page_size :: "int \<Rightarrow> nat" where
  "buffer_internal_page_size psize = (if psize \<le> 0 then 4096 else nat psize)"

definition buffer_internal_initial_capacity :: "int \<Rightarrow> nat \<Rightarrow> nat" where
  "buffer_internal_initial_capacity psize sz =
     (let page = buffer_internal_page_size psize
      in if sz = 0 then page else if sz > page then sz else page)"

text \<open>\<open>ok1\<close> answers the \<open>calloc\<close> of the structure, \<open>ok2\<close> that of the block.\<close>

definition buffer_allocate ::
  "int \<Rightarrow> bool \<Rightarrow> bool \<Rightarrow> byte list option \<Rightarrow> nat \<Rightarrow> buffer_t option option" where
  "buffer_allocate psize ok1 ok2 data sz =
     (if data = None \<and> sz > 0 then Some None
      else if \<not> ok1 then Some None
      else
        let mem = buffer_internal_initial_capacity psize sz;
            block = calloc_block ok2 mem
        in case (block, data) of
             (Some b, Some d) \<Rightarrow>
               if sz > 0
               then do { b' \<leftarrow> mem_copy b 0 d 0 sz;
                         Some (Some \<lparr>bf_data = Some b', bf_data_size = sz, bf_memory_size = mem\<rparr>) }
               else Some (Some \<lparr>bf_data = Some b, bf_data_size = sz, bf_memory_size = mem\<rparr>)
           | _ \<Rightarrow> Some (Some \<lparr>bf_data = block, bf_data_size = sz, bf_memory_size = mem\<rparr>))"

definition buffer_allocate_default :: "int \<Rightarrow> bool \<Rightarrow> bool \<Rightarrow> buffer_t option" where
  "buffer_allocate_default psize ok1 ok2 =
     (if ok1
      then let mem = buffer_internal_page_size psize
           in Some \<lparr>bf_data = calloc_block ok2 mem, bf_data_size = 0, bf_memory_size = mem\<rparr>
      else None)"

definition buffer_allocate_length :: "bool \<Rightarrow> bool \<Rightarrow> nat \<Rightarrow> buffer_t option" where
  "buffer_allocate_length ok1 ok2 len =
     (if ok1
      then let mem = (if len > 0 then len else 1)
           in Some \<lparr>bf_data = calloc_block ok2 mem, bf_data_size = 0, bf_memory_size = mem\<rparr>
      else None)"

text \<open>\<open>buffer_copy(dest, orig)\<close>: the buffer behind \<open>dest\<close> afterwards (it is also what is returned).\<close>

definition buffer_copy :: "bool \<Rightarrow> buffer_t option \<Rightarrow> buffer_t option \<Rightarrow> buffer_t option option" where
  "buffer_copy ok dest orig =
     (case (orig, dest) of
        (Some q, Some d) \<Rightarrow>
          (case bf_data q of
             None \<Rightarrow> Some dest
           | Some qd \<Rightarrow>
             let d1 = (if bf_data d \<noteq> None then d\<lparr>bf_data := None, bf_data_size := 0\<rparr> else d);
                 mem = (if bf_memory_size q > 0 then bf_memory_size q else 1);
                 d2 = d1\<lparr>bf_memory_size := mem, bf_data := calloc_block ok mem\<rparr>
             in case bf_data d2 of
                  None \<Rightarrow> Some (Some d2)
                | Some b \<Rightarrow> do {
                    b' \<leftarrow> mem_copy b 0 qd 0 (bf_data_size q);
                    Some (Some (d2\<lparr>bf_data := Some b', bf_data_size := bf_data_size q\<rparr>)) })
      | _ \<Rightarrow> Some dest)"

text \<open>
  The doubling loop of \<open>buffer_internal_adjust_storage\<close>: \<open>Some None\<close> is the early return when
  another doubling would overflow.
\<close>

partial_function (option) buffer_grow :: "nat \<Rightarrow> nat \<Rightarrow> nat \<Rightarrow> nat option option" where
  "buffer_grow data_size sz new_size =
     (if size_sub new_size data_size < sz
      then if new_size > SIZE_MAX div 2 then Some None
           else buffer_grow data_size sz (new_size * 2)
      else Some (Some new_size))"

definition buffer_internal_adjust_storage ::
  "bool \<Rightarrow> buffer_t option \<Rightarrow> nat \<Rightarrow> buffer_t option option" where
  "buffer_internal_adjust_storage ok ptr sz =
     (case ptr of
        None \<Rightarrow> Some None
      | Some b \<Rightarrow>
        (case bf_data b of
           None \<Rightarrow> Some None
         | Some d \<Rightarrow>
           if sz \<le> size_sub (bf_memory_size b) (bf_data_size b) then Some (Some b)
           else do {
             grown \<leftarrow> buffer_grow (bf_data_size b) sz (bf_memory_size b);
             case grown of
               None \<Rightarrow> Some (Some b)
             | Some new_size \<Rightarrow>
                 (case calloc_block ok new_size of
                    None \<Rightarrow> Some (Some b)
                  | Some p \<Rightarrow> do {
                      p' \<leftarrow> mem_copy p 0 d 0 (bf_data_size b);
                      Some (Some (b\<lparr>bf_data := Some p', bf_memory_size := new_size\<rparr>)) })
           }))"

text \<open>
  \<open>buffer_append(dest, data, sz)\<close>.  The result is the buffer behind \<open>dest\<close> afterwards (the new one
  when \<open>dest\<close> was NULL) and whether the returned pointer differs from NULL.
\<close>

definition buffer_append ::
  "int \<Rightarrow> bool \<Rightarrow> bool \<Rightarrow> buffer_t option \<Rightarrow> byte list option \<Rightarrow> nat \<Rightarrow> (buffer_t option \<times> bool) option" where
  "buffer_append psize ok1 ok2 dest data sz =
     (case data of
        None \<Rightarrow> Some (dest, False)
      | Some src \<Rightarrow>
        if sz < 1 then Some (dest, False)
        else (case dest of
          None \<Rightarrow> do { nd \<leftarrow> buffer_allocate psize ok1 ok2 data sz; Some (nd, nd \<noteq> None) }
        | Some d \<Rightarrow> do {
            r \<leftarrow> buffer_internal_adjust_storage ok2 dest sz;
            case r of
              None \<Rightarrow> Some (dest, False)
            | Some b \<Rightarrow>
                (case bf_data b of
                   None \<Rightarrow> Some (Some b, False)
                 | Some bd \<Rightarrow>
                   if size_sub (bf_memory_size b) (bf_data_size b) < sz then Some (Some b, False)
                   else do {
                     bd' \<leftarrow> mem_copy bd (bf_data_size b) src 0 sz;
                     Some (Some (b\<lparr>bf_data := Some bd', bf_data_size := bf_data_size b + sz\<rparr>), True)
                   })
          }))"

text \<open>\<open>memmove\<close> inside one block, then \<open>memset\<close> of the freed end.\<close>

definition buffer_remove :: "buffer_t option \<Rightarrow> nat \<Rightarrow> nat \<Rightarrow> buffer_t option option" where
  "buffer_remove ptr start len =
     (case ptr of
        None \<Rightarrow> Some None
      | Some b \<Rightarrow>
        (case bf_data b of
           None \<Rightarrow> Some ptr
         | Some d \<Rightarrow>
           if len < 1 then Some ptr
           else if start > bf_data_size b \<or> len > bf_data_size b - start then Some ptr
           else do {
             let old_size = bf_data_size b;
             let move_bytes = old_size - (start + len);
             d1 \<leftarrow> (if move_bytes > 0 then mem_copy d start d (start + len) move_bytes else Some d);
             d2 \<leftarrow> mem_fill d1 (old_size - len) 0 len;
             Some (Some (b\<lparr>bf_data := Some d2, bf_data_size := old_size - len\<rparr>))
           }))"

definition buffer_remove_end :: "buffer_t option \<Rightarrow> nat \<Rightarrow> buffer_t option option" where
  "buffer_remove_end ptr len =
     (case ptr of
        None \<Rightarrow> Some None
      | Some b \<Rightarrow>
        (case bf_data b of
           None \<Rightarrow> Some ptr
         | Some d \<Rightarrow>
           if len < 1 \<or> len > bf_data_size b then Some ptr
           else do {
             let pos = bf_data_size b - len;
             d' \<leftarrow> mem_fill d pos 0 len;
             Some (Some (b\<lparr>bf_data := Some d', bf_data_size := bf_data_size b - len\<rparr>))
           }))"

definition buffer_remove_start :: "buffer_t option \<Rightarrow> nat \<Rightarrow> buffer_t option option" where
  "buffer_remove_start ptr len = buffer_remove ptr 0 len"

text \<open>\<open>buffer_free(&p)\<close>: what \<open>p\<close> holds afterwards.\<close>

definition buffer_free :: "buffer_t option \<Rightarrow> buffer_t option" where
  "buffer_free ptr = None"

definition buffer_clear :: "buffer_t option \<Rightarrow> buffer_t option option" where
  "buffer_clear ptr =
     (case ptr of
        None \<Rightarrow> Some None
      | Some b \<Rightarrow>
        (case bf_data b of
           None \<Rightarrow> Some (Some (b\<lparr>bf_data_size := 0\<rparr>))
         | Some d \<Rightarrow> do {
             d' \<leftarrow> mem_fill d 0 0 (bf_data_size b);
             Some (Some (b\<lparr>bf_data := Some d', bf_data_size := 0\<rparr>)) }))"

text \<open>
  The three comparisons share their guards; \<open>test\<close> is the test of \<open>memcmp\<close>'s answer.
\<close>

definition buffer_compare_with :: "(int \<Rightarrow> bool) \<Rightarrow> buffer_t option \<Rightarrow> buffer_t option \<Rightarrow> bool option" where
  "buffer_compare_with test first second =
     (case (first, second) of
        (Some f, Some s) \<Rightarrow>
          (case (bf_data f, bf_data s) of
             (Some fd, Some sd) \<Rightarrow>
               if bf_data_size f \<noteq> bf_data_size s then Some False
               else map_option test (mem_cmp fd sd (bf_data_size f))
           | _ \<Rightarrow> Some False)
      | _ \<Rightarrow> Some False)"

definition buffer_is_equal :: "buffer_t option \<Rightarrow> buffer_t option \<Rightarrow> bool option" where
  "buffer_is_equal = buffer_compare_with (\<lambda>c. c = 0)"

definition buffer_is_greater :: "buffer_t option \<Rightarrow> buffer_t option \<Rightarrow> bool option" where
  "buffer_is_greater = buffer_compare_with (\<lambda>c. c > 0)"

definition buffer_is_less :: "buffer_t option \<Rightarrow> buffer_t option \<Rightarrow> bool option" where
  "buffer_is_less = buffer_compare_with (\<lambda>c. c < 0)"

definition buffer_is_null :: "buffer_t option \<Rightarrow> bool" where
  "buffer_is_null ptr = (case ptr of None \<Rightarrow> True | Some b \<Rightarrow> bf_data b = None)"

definition buffer_get_data :: "buffer_t option \<Rightarrow> byte list option" where
  "buffer_get_data ptr = (case ptr of None \<Rightarrow> None | Some b \<Rightarrow> bf_data b)"

definition buffer_get_size :: "buffer_t option \<Rightarrow> nat" where
  "buffer_get_size ptr = (case ptr of None \<Rightarrow> 0 | Some b \<Rightarrow> bf_data_size b)"

section \<open>The storage invariant\<close>

text \<open>
  A usable buffer owns a block of exactly \<open>memory_size\<close> bytes, at least one, the first
  \<open>data_size\<close> of them are its contents and the rest are zero.
\<close>

definition buffer_wf :: "buffer_t \<Rightarrow> bool" where
  "buffer_wf b \<longleftrightarrow> (\<exists>d. bf_data b = Some d \<and> length d = bf_memory_size b) \<and>
     0 < bf_memory_size b \<and> bf_data_size b \<le> bf_memory_size b \<and> bf_memory_size b \<le> SIZE_MAX \<and>
     (\<forall>i. bf_data_size b \<le> i \<longrightarrow> i < bf_memory_size b \<longrightarrow> the (bf_data b) ! i = 0)"

definition buffer_contents :: "buffer_t \<Rightarrow> byte list" where
  "buffer_contents b = take (bf_data_size b) (the (bf_data b))"

text \<open>The invariant is exactly: the block is the contents followed by zeros.\<close>

lemma buffer_wf_iff:
  "buffer_wf b \<longleftrightarrow> 0 < bf_memory_size b \<and> bf_memory_size b \<le> SIZE_MAX \<and>
     (\<exists>xs n. bf_data b = Some (xs @ replicate n 0) \<and> length xs = bf_data_size b \<and>
        bf_memory_size b = length xs + n)"
proof
  assume wf: "buffer_wf b"
  then obtain d where d: "bf_data b = Some d" "length d = bf_memory_size b" by (auto simp: buffer_wf_def)
  let ?xs = "take (bf_data_size b) d" and ?n = "bf_memory_size b - bf_data_size b"
  have "d = ?xs @ replicate ?n 0"
    using wf d by (intro nth_equalityI) (auto simp: buffer_wf_def nth_append)
  then show "0 < bf_memory_size b \<and> bf_memory_size b \<le> SIZE_MAX \<and>
     (\<exists>xs n. bf_data b = Some (xs @ replicate n 0) \<and> length xs = bf_data_size b \<and>
        bf_memory_size b = length xs + n)"
    using wf d by (intro conjI exI [of _ ?xs] exI [of _ ?n]) (auto simp: buffer_wf_def)
qed (auto simp: buffer_wf_def nth_append)

lemma buffer_wfE:
  assumes "buffer_wf b"
  obtains xs n where "bf_data b = Some (xs @ replicate n 0)" "bf_data_size b = length xs"
    "bf_memory_size b = length xs + n" "buffer_contents b = xs" "0 < length xs + n" "length xs + n \<le> SIZE_MAX"
proof -
  obtain xs n where "bf_data b = Some (xs @ replicate n 0)" "length xs = bf_data_size b"
    "bf_memory_size b = length xs + n" "0 < bf_memory_size b" "bf_memory_size b \<le> SIZE_MAX"
    using assms unfolding buffer_wf_iff by blast
  then show ?thesis by (intro that [of xs n]) (auto simp: buffer_contents_def)
qed

lemma buffer_wfI:
  "bf_data b = Some (xs @ replicate n 0) \<Longrightarrow> bf_data_size b = length xs \<Longrightarrow>
   bf_memory_size b = length xs + n \<Longrightarrow> 0 < length xs + n \<Longrightarrow> length xs + n \<le> SIZE_MAX \<Longrightarrow> buffer_wf b"
  unfolding buffer_wf_iff by auto

lemma buffer_contents_length: "buffer_wf b \<Longrightarrow> length (buffer_contents b) = bf_data_size b"
  by (erule buffer_wfE) simp

text \<open>\<open>buffer_rep p xs\<close>: the pointer \<open>p\<close> leads to a usable buffer that holds \<open>xs\<close>.\<close>

definition buffer_rep :: "buffer_t option \<Rightarrow> byte list \<Rightarrow> bool" where
  "buffer_rep p xs \<longleftrightarrow> (\<exists>b. p = Some b \<and> buffer_wf b \<and> buffer_contents b = xs)"

lemma buffer_repE:
  assumes "buffer_rep p xs"
  obtains b n where "p = Some b" "bf_data b = Some (xs @ replicate n 0)" "bf_data_size b = length xs"
    "bf_memory_size b = length xs + n" "0 < length xs + n" "length xs + n \<le> SIZE_MAX"
  using assms unfolding buffer_rep_def by (auto elim!: buffer_wfE intro: that)

lemma buffer_repI:
  "bf_data b = Some (xs @ replicate n 0) \<Longrightarrow> bf_data_size b = length xs \<Longrightarrow>
   bf_memory_size b = length xs + n \<Longrightarrow> 0 < length xs + n \<Longrightarrow> length xs + n \<le> SIZE_MAX \<Longrightarrow> buffer_rep (Some b) xs"
  unfolding buffer_rep_def by (auto intro: buffer_wfI simp: buffer_contents_def)

section \<open>What each operation does\<close>

lemma page_pos: "0 < buffer_internal_page_size ps"
  by (simp add: buffer_internal_page_size_def)

lemma buffer_allocate_rep:
  assumes "sz \<le> length d" "sz \<le> SIZE_MAX" "ps \<le> int SIZE_MAX"
  shows "\<exists>p. buffer_allocate ps True True (Some d) sz = Some p \<and> buffer_rep p (take sz d)"
  using assms page_pos [of ps]
  by (auto simp: buffer_allocate_def buffer_internal_initial_capacity_def calloc_block_def mem_copy_def Let_def
      buffer_internal_page_size_def SIZE_MAX_def drop_replicate intro!: buffer_repI)

lemma buffer_grow_enough:
  assumes "0 < m" "ds \<le> m" "ds + sz \<le> SIZE_MAX div 2"
  shows "\<exists>m'. buffer_grow ds sz m = Some (Some m') \<and> ds + sz \<le> m' \<and> m \<le> m' \<and> (m \<le> SIZE_MAX \<longrightarrow> m' \<le> SIZE_MAX)"
  using assms(1,2)
proof (induction "ds + sz - m" arbitrary: m rule: less_induct)
  case less
  show ?case
  proof (cases "m - ds < sz")
    case False
    then show ?thesis using less.prems by (subst buffer_grow.simps) auto
  next
    case True
    then have small: "\<not> SIZE_MAX div 2 < m" "m * 2 \<le> SIZE_MAX" using assms(3) by (auto simp: SIZE_MAX_def)
    have "\<exists>m'. buffer_grow ds sz (m * 2) = Some (Some m') \<and> ds + sz \<le> m' \<and> m * 2 \<le> m' \<and> (m * 2 \<le> SIZE_MAX \<longrightarrow> m' \<le> SIZE_MAX)"
      by (rule less.hyps) (use True less.prems in auto)
    then show ?thesis using True small less.prems
      by (subst buffer_grow.simps) auto
  qed
qed

text \<open>The loop ends for every size: it either covers the request or reports that it cannot.\<close>

lemma buffer_grow_total:
  assumes "0 < m" "ds \<le> m"
  shows "\<exists>r. buffer_grow ds sz m = Some r \<and> (\<forall>m'. r = Some m' \<longrightarrow> ds + sz \<le> m' \<and> m \<le> m' \<and> (m \<le> SIZE_MAX \<longrightarrow> m' \<le> SIZE_MAX))"
  using assms
proof (induction "ds + sz - m" arbitrary: m rule: less_induct)
  case less
  show ?case
  proof (cases "m - ds < sz \<and> \<not> SIZE_MAX div 2 < m")
    case False
    then show ?thesis using less.prems by (subst buffer_grow.simps) auto
  next
    case True
    then have small: "m * 2 \<le> SIZE_MAX" by (auto simp: SIZE_MAX_def)
    have "\<exists>r. buffer_grow ds sz (m * 2) = Some r \<and> (\<forall>m'. r = Some m' \<longrightarrow> ds + sz \<le> m' \<and> m * 2 \<le> m' \<and> (m * 2 \<le> SIZE_MAX \<longrightarrow> m' \<le> SIZE_MAX))"
      by (rule less.hyps) (use True less.prems in auto)
    then show ?thesis using True small less.prems
      by (subst buffer_grow.simps) fastforce
  qed
qed

lemma buffer_adjust_rep:
  assumes "buffer_rep p xs"
  shows "\<exists>q. buffer_internal_adjust_storage ok p sz = Some (Some q) \<and> buffer_rep (Some q) xs \<and>
    (ok \<longrightarrow> length xs + sz \<le> SIZE_MAX div 2 \<longrightarrow> sz \<le> bf_memory_size q - length xs)"
proof -
  obtain b n where b: "p = Some b" "bf_data b = Some (xs @ replicate n 0)" "bf_data_size b = length xs"
    "bf_memory_size b = length xs + n" "0 < length xs + n" "length xs + n \<le> SIZE_MAX"
    using assms by (rule buffer_repE)
  show ?thesis
  proof (cases "sz \<le> n")
    case True
    then show ?thesis using b assms by (simp add: buffer_internal_adjust_storage_def)
  next
    case False
    obtain r where r: "buffer_grow (length xs) sz (length xs + n) = Some r"
      "\<And>m'. r = Some m' \<Longrightarrow> length xs + sz \<le> m' \<and> length xs + n \<le> m' \<and> m' \<le> SIZE_MAX"
      using buffer_grow_total [of "length xs + n" "length xs" sz] b by auto
    show ?thesis
    proof (cases r)
      case None
      have "\<not> length xs + sz \<le> SIZE_MAX div 2"
        using buffer_grow_enough [of "length xs + n" "length xs" sz] r(1) None b(5) by auto
      then show ?thesis using b assms False r(1) None
        by (simp add: buffer_internal_adjust_storage_def)
    next
      case (Some m)
      show ?thesis
      proof (cases ok)
        case True
        let ?q = "b\<lparr>bf_data := Some (xs @ replicate (m - length xs) 0), bf_memory_size := m\<rparr>"
        have "buffer_internal_adjust_storage ok p sz = Some (Some ?q)"
          using b False r(2) [OF Some] True
          by (simp add: buffer_internal_adjust_storage_def r(1) Some calloc_block_def mem_copy_def drop_replicate)
        moreover have "buffer_rep (Some ?q) xs"
          by (rule buffer_repI [where n = "m - length xs"]) (use b r(2) [OF Some] in \<open>simp_all, linarith\<close>)
        ultimately show ?thesis using r(2) [OF Some] by auto
      next
        case False
        then show ?thesis using b assms \<open>\<not> sz \<le> n\<close>
          by (simp add: buffer_internal_adjust_storage_def r(1) Some calloc_block_def)
      qed
    qed
  qed
qed

lemma buffer_append_rep:
  assumes "buffer_rep p xs" "sz \<le> length d"
  shows "\<exists>q ok'. buffer_append ps ok1 ok p (Some d) sz = Some (q, ok') \<and>
    buffer_rep q (if ok' then xs @ take sz d else xs) \<and> (ok' \<longrightarrow> 0 < sz) \<and>
    (ok \<longrightarrow> 0 < sz \<longrightarrow> length xs + sz \<le> SIZE_MAX div 2 \<longrightarrow> ok')"
proof -
  obtain b0 where p: "p = Some b0" using assms(1) by (auto simp: buffer_rep_def)
  obtain b where q: "buffer_internal_adjust_storage ok p sz = Some (Some b)" "buffer_rep (Some b) xs"
    "ok \<longrightarrow> length xs + sz \<le> SIZE_MAX div 2 \<longrightarrow> sz \<le> bf_memory_size b - length xs"
    using buffer_adjust_rep [OF assms(1)] by blast
  obtain n where b: "bf_data b = Some (xs @ replicate n 0)" "bf_data_size b = length xs"
    "bf_memory_size b = length xs + n" "0 < length xs + n" "length xs + n \<le> SIZE_MAX"
    using q(2) by (auto elim!: buffer_repE)
  show ?thesis
  proof (cases "sz = 0 \<or> n < sz")
    case True
    then have "buffer_append ps ok1 ok p (Some d) sz = Some (if sz = 0 then p else Some b, False)"
      using p q(1) b(1-3) by (cases "sz = 0") (simp_all add: buffer_append_def)
    moreover have "buffer_rep (if sz = 0 then p else Some b) xs" using q(2) assms(1) by simp
    moreover have "sz \<le> n" if "ok" "length xs + sz \<le> SIZE_MAX div 2"
      using q(3) that unfolding b(3) by simp
    ultimately show ?thesis using True
      by (intro exI [of _ "if sz = 0 then p else Some b"] exI [of _ False]) (auto dest: leD)
  next
    case False
    have "buffer_rep (Some (b\<lparr>bf_data := Some (xs @ take sz d @ replicate (n - sz) 0), bf_data_size := length xs + sz\<rparr>)) (xs @ take sz d)"
      by (rule buffer_repI [where n = "n - sz"]) (use False b assms(2) in auto)
    moreover have "mem_copy (xs @ replicate n 0) (length xs) d 0 sz = Some (xs @ take sz d @ replicate (n - sz) 0)"
      using False assms(2) by (simp add: mem_copy_def)
    ultimately show ?thesis
      using p q(1) b False by (intro exI [of _ "Some _"] exI [of _ True]) (simp add: buffer_append_def)
  qed
qed

lemma buffer_remove_rep:
  assumes "buffer_rep p xs"
  shows "\<exists>q. buffer_remove p start len = Some q \<and>
    buffer_rep q (if start \<le> length xs \<and> len \<le> length xs - start then take start xs @ drop (start + len) xs else xs)"
proof -
  obtain b n where b: "p = Some b" "bf_data b = Some (xs @ replicate n 0)" "bf_data_size b = length xs"
    "bf_memory_size b = length xs + n" "0 < length xs + n" "length xs + n \<le> SIZE_MAX"
    using assms by (rule buffer_repE)
  show ?thesis
  proof (cases "0 < len \<and> start \<le> length xs \<and> len \<le> length xs - start")
    case False
    then show ?thesis using b assms by (cases "len = 0") (auto simp: buffer_remove_def)
  next
    case True
    let ?ys = "take start xs @ drop (start + len) xs"
    let ?mv = "length xs - (start + len)"
    have ly: "length ?ys = length xs - len" using True by auto
    have d1: "(if ?mv > 0 then mem_copy (xs @ replicate n 0) start (xs @ replicate n 0) (start + len) ?mv
        else Some (xs @ replicate n 0)) = Some (?ys @ drop (length xs - len) xs @ replicate n 0)"
    proof (cases "start + len = length xs")
      case True
      then have "length xs - len = start" by simp
      then show ?thesis using True by (simp flip: append_assoc)
    qed (use True in \<open>auto simp: mem_copy_def\<close>)
    have d2: "mem_fill (?ys @ drop (length xs - len) xs @ replicate n 0) (length xs - len) 0 len =
        Some (?ys @ replicate (len + n) 0)"
      unfolding mem_fill_def ly [symmetric] using True by (auto simp: replicate_add)
    have rep: "buffer_rep (Some (b\<lparr>bf_data := Some (?ys @ replicate (len + n) 0), bf_data_size := length xs - len\<rparr>)) ?ys"
      by (rule buffer_repI [where n = "len + n"]) (use True b ly in auto)
    have "buffer_remove p start len =
        Some (Some (b\<lparr>bf_data := Some (?ys @ replicate (len + n) 0), bf_data_size := length xs - len\<rparr>))"
    proof (cases "start + len < length xs")
      case True
      then show ?thesis
        using \<open>0 < len \<and> _\<close> b(1-3) d1 d2 by (simp add: buffer_remove_def Let_def)
    next
      case False
      then have e: "start + len = length xs" "length xs - len = start"
        using \<open>0 < len \<and> _\<close> by auto
      then have "mem_fill (xs @ replicate n 0) start 0 len = Some (take start xs @ replicate (len + n) 0)"
        by (simp add: mem_fill_def replicate_add)
      then show ?thesis using \<open>0 < len \<and> _\<close> b(1-3) e by (simp add: buffer_remove_def Let_def)
    qed
    with rep show ?thesis using True by auto
  qed
qed

lemma buffer_remove_end_rep:
  assumes "buffer_rep p xs"
  shows "\<exists>q. buffer_remove_end p len = Some q \<and>
    buffer_rep q (if len \<le> length xs then take (length xs - len) xs else xs)"
proof -
  obtain b n where b: "p = Some b" "bf_data b = Some (xs @ replicate n 0)" "bf_data_size b = length xs"
    "bf_memory_size b = length xs + n" "0 < length xs + n" "length xs + n \<le> SIZE_MAX"
    using assms by (rule buffer_repE)
  show ?thesis
  proof (cases "0 < len \<and> len \<le> length xs")
    case False
    then show ?thesis using b assms by (cases "len = 0") (auto simp: buffer_remove_end_def)
  next
    case True
    let ?ys = "take (length xs - len) xs"
    have "mem_fill (xs @ replicate n 0) (length xs - len) 0 len = Some (?ys @ replicate (len + n) 0)"
      using True by (simp add: mem_fill_def replicate_add)
    moreover have "buffer_rep (Some (b\<lparr>bf_data := Some (?ys @ replicate (len + n) 0), bf_data_size := length xs - len\<rparr>)) ?ys"
      by (rule buffer_repI [where n = "len + n"]) (use True b in auto)
    ultimately show ?thesis using True b(1-3) by (simp add: buffer_remove_end_def Let_def)
  qed
qed

lemma buffer_clear_rep:
  assumes "buffer_rep p xs"
  shows "\<exists>q. buffer_clear p = Some q \<and> buffer_rep q []"
proof -
  obtain b n where b: "p = Some b" "bf_data b = Some (xs @ replicate n 0)" "bf_data_size b = length xs"
    "bf_memory_size b = length xs + n" "0 < length xs + n" "length xs + n \<le> SIZE_MAX"
    using assms by (rule buffer_repE)
  have "mem_fill (xs @ replicate n 0) 0 0 (length xs) = Some (replicate (length xs + n) 0)"
    by (simp add: mem_fill_def replicate_add)
  moreover have "buffer_rep (Some (b\<lparr>bf_data := Some (replicate (length xs + n) 0), bf_data_size := 0\<rparr>)) []"
    by (rule buffer_repI [where n = "length xs + n"]) (use b in auto)
  ultimately show ?thesis using b(1-3) by (simp add: buffer_clear_def)
qed

lemma buffer_copy_rep:
  assumes "buffer_rep q xs" "d \<noteq> None"
  shows "\<exists>r. buffer_copy True d q = Some r \<and> buffer_rep r xs"
proof -
  obtain b n where b: "q = Some b" "bf_data b = Some (xs @ replicate n 0)" "bf_data_size b = length xs"
    "bf_memory_size b = length xs + n" "0 < length xs + n" "length xs + n \<le> SIZE_MAX"
    using assms(1) by (rule buffer_repE)
  obtain e where d: "d = Some e" using assms(2) by blast
  have c: "mem_copy (replicate (length xs + n) 0) 0 (xs @ replicate n 0) 0 (length xs) = Some (xs @ replicate n 0)"
    by (simp add: mem_copy_def drop_replicate)
  have "buffer_rep (Some (e'\<lparr>bf_data := Some (xs @ replicate n 0), bf_data_size := length xs\<rparr>)) xs"
    if "bf_memory_size e' = length xs + n" for e'
    by (rule buffer_repI [where n = n]) (use b that in auto)
  then show ?thesis using b c d by (auto simp: buffer_copy_def calloc_block_def Let_def)
qed

lemma buffer_compare_rep:
  assumes "buffer_rep p xs" "buffer_rep q ys"
  shows "buffer_compare_with test p q = Some (length xs = length ys \<and> test (bytes_cmp xs ys))"
proof -
  obtain b n where b: "p = Some b" "bf_data b = Some (xs @ replicate n 0)" "bf_data_size b = length xs"
    using assms(1) by (rule buffer_repE)
  obtain c m where c: "q = Some c" "bf_data c = Some (ys @ replicate m 0)" "bf_data_size c = length ys"
    using assms(2) by (rule buffer_repE)
  show ?thesis using b c by (auto simp: buffer_compare_with_def)
qed

lemma buffer_allocate_length_rep:
  "len \<le> SIZE_MAX \<Longrightarrow> buffer_rep (buffer_allocate_length True True len) []"
  by (auto simp: buffer_allocate_length_def calloc_block_def SIZE_MAX_def intro!: buffer_repI)

lemma buffer_allocate_default_rep:
  "ps \<le> LONG_MAX \<Longrightarrow> buffer_rep (buffer_allocate_default ps True True) []"
  using page_pos [of ps]
  by (auto simp: buffer_allocate_default_def calloc_block_def SIZE_MAX_def LONG_MAX_def Let_def
      buffer_internal_page_size_def intro!: buffer_repI)

lemma buffer_get_rep:
  assumes "buffer_rep p xs"
  shows buffer_get_size_rep: "buffer_get_size p = length xs"
    and buffer_get_data_rep: "\<exists>n. buffer_get_data p = Some (xs @ replicate n 0)"
  using assms by (auto elim!: buffer_repE simp: buffer_get_size_def buffer_get_data_def)

text \<open>The buffer is a byte sink: the packet builders of the library use it through this contract.\<close>

interpretation buffer_sink: byte_sink buffer_rep "\<lambda>p d n. buffer_append ps ok1 True p d n" "SIZE_MAX div 2"
  for ps ok1
proof unfold_locales
  fix b xs n d
  assume "buffer_rep b xs" "n \<le> length (d :: byte list)" "0 < n" "length xs + n \<le> SIZE_MAX div 2"
  then show "\<exists>b'. buffer_append ps ok1 True b (Some d) n = Some (b', True) \<and> buffer_rep b' (xs @ take n d)"
    using buffer_append_rep [of b xs n d ps ok1 True] by auto
next
  fix b xs d
  assume "buffer_rep b xs"
  then show "buffer_append ps ok1 True b d 0 = Some (b, False)"
    by (auto simp: buffer_append_def buffer_rep_def split: option.splits)
qed

section \<open>Refinement of a byte sequence\<close>

text \<open>
  The operations a client can run on a buffer it owns, the concrete step, and the abstract step on
  the byte sequence.  An append that finds no memory, or whose total is beyond half of the address
  space, may leave the sequence as it was; every other operation is determined.
\<close>

datatype buffer_op =
    Append bool "byte list" nat
  | Remove nat nat
  | Remove_End nat
  | Remove_Start nat
  | Clear

fun buffer_step :: "int \<Rightarrow> buffer_op \<Rightarrow> buffer_t option \<Rightarrow> buffer_t option option" where
  "buffer_step ps (Append ok d n) p = map_option fst (buffer_append ps ok ok p (Some d) n)"
| "buffer_step ps (Remove start len) p = buffer_remove p start len"
| "buffer_step ps (Remove_End len) p = buffer_remove_end p len"
| "buffer_step ps (Remove_Start len) p = buffer_remove_start p len"
| "buffer_step ps Clear p = buffer_clear p"

fun buffer_run :: "int \<Rightarrow> buffer_op list \<Rightarrow> buffer_t option \<Rightarrow> buffer_t option option" where
  "buffer_run ps [] p = Some p"
| "buffer_run ps (op # ops) p = do { q \<leftarrow> buffer_step ps op p; buffer_run ps ops q }"

text \<open>The caller's duty: the bytes it passes to an append are there.\<close>

fun buffer_op_ok :: "buffer_op \<Rightarrow> bool" where
  "buffer_op_ok (Append ok d n) = (n \<le> length d)"
| "buffer_op_ok _ = True"

inductive bytes_step :: "buffer_op \<Rightarrow> byte list \<Rightarrow> byte list \<Rightarrow> bool" where
  append_done: "bytes_step (Append ok d n) xs (xs @ take n d)"
| append_refused: "\<not> ok \<or> SIZE_MAX div 2 < length xs + n \<Longrightarrow> bytes_step (Append ok d n) xs xs"
| remove_range: "start + len \<le> length xs \<Longrightarrow>
     bytes_step (Remove start len) xs (take start xs @ drop (start + len) xs)"
| remove_outside: "length xs < start + len \<Longrightarrow> bytes_step (Remove start len) xs xs"
| remove_end: "len \<le> length xs \<Longrightarrow> bytes_step (Remove_End len) xs (take (length xs - len) xs)"
| remove_end_outside: "length xs < len \<Longrightarrow> bytes_step (Remove_End len) xs xs"
| remove_start: "len \<le> length xs \<Longrightarrow> bytes_step (Remove_Start len) xs (drop len xs)"
| remove_start_outside: "length xs < len \<Longrightarrow> bytes_step (Remove_Start len) xs xs"
| clear: "bytes_step Clear xs []"

inductive bytes_run :: "buffer_op list \<Rightarrow> byte list \<Rightarrow> byte list \<Rightarrow> bool" where
  run_nil: "bytes_run [] xs xs"
| run_cons: "bytes_step op xs ys \<Longrightarrow> bytes_run ops ys zs \<Longrightarrow> bytes_run (op # ops) xs zs"

inductive_simps bytes_step_simps:
  "bytes_step (Append ok d n) xs ys" "bytes_step (Remove start len) xs ys"
  "bytes_step (Remove_End len) xs ys" "bytes_step (Remove_Start len) xs ys" "bytes_step Clear xs ys"

inductive_simps bytes_run_simps: "bytes_run [] xs zs" "bytes_run (op # ops) xs zs"

lemma buffer_step_refines:
  assumes "buffer_rep p xs" "buffer_op_ok op"
  shows "\<exists>q ys. buffer_step ps op p = Some q \<and> bytes_step op xs ys \<and> buffer_rep q ys"
proof (cases op)
  case (Append ok d n)
  then obtain q ok' where q: "buffer_append ps ok ok p (Some d) n = Some (q, ok')"
    "buffer_rep q (if ok' then xs @ take n d else xs)"
    "ok \<longrightarrow> 0 < n \<longrightarrow> length xs + n \<le> SIZE_MAX div 2 \<longrightarrow> ok'"
    using buffer_append_rep [OF assms(1), of n d ps ok ok] assms(2) by auto
  then show ?thesis unfolding Append bytes_step_simps
    by (cases ok'; cases "n = 0") (auto simp: not_less)
next
  case (Remove start len)
  then show ?thesis using buffer_remove_rep [OF assms(1), of start len]
    by (cases "start + len \<le> length xs") (auto simp: bytes_step_simps split: if_splits)
next
  case (Remove_End len)
  then show ?thesis using buffer_remove_end_rep [OF assms(1), of len]
    by (cases "len \<le> length xs") (auto simp: bytes_step_simps split: if_splits)
next
  case (Remove_Start len)
  then show ?thesis using buffer_remove_rep [OF assms(1), of 0 len]
    by (cases "len \<le> length xs") (auto simp: bytes_step_simps buffer_remove_start_def split: if_splits)
next
  case Clear
  then show ?thesis using buffer_clear_rep [OF assms(1)] by (auto simp: bytes_step_simps)
qed

lemma buffer_run_refines_aux:
  "buffer_rep p xs \<Longrightarrow> list_all buffer_op_ok ops \<Longrightarrow>
   \<exists>q ys. buffer_run ps ops p = Some q \<and> bytes_run ops xs ys \<and> buffer_rep q ys"
proof (induction ops arbitrary: p xs)
  case (Cons op ops)
  then obtain q ys where "buffer_step ps op p = Some q" "bytes_step op xs ys" "buffer_rep q ys"
    using buffer_step_refines [of p xs op ps] by auto
  then show ?case using Cons.IH [of q ys] Cons.prems(2) by (fastforce intro: run_cons)
qed (auto intro: run_nil)

text \<open>
  C3: the buffer refines a byte sequence.  Started on a usable buffer, every sequence of appends,
  removals and clears ends without touching memory outside the block, leaves a usable buffer (block of
  \<open>memory_size\<close> bytes, zero beyond \<open>data_size\<close>), and the bytes it holds are those the abstract
  sequence of operations allows, in particular exactly the appended bytes when memory is available.
\<close>

theorem buffer_run_refines:
  assumes "buffer_rep p xs" "list_all buffer_op_ok ops"
  shows "\<exists>q ys. buffer_run ps ops p = Some q \<and> bytes_run ops xs ys \<and> buffer_rep q ys"
  using assms by (rule buffer_run_refines_aux)

theorem buffer_run_refines_witness:
  "\<exists>q. buffer_run 4096 [Append True [1, 2, 3] 3, Remove 1 1, Remove_End 7] (buffer_allocate_length True True 2) = Some q
     \<and> buffer_rep q [1, 3]"
proof -
  have "buffer_rep (buffer_allocate_length True True 2) []"
    by (rule buffer_allocate_length_rep) (simp add: SIZE_MAX_def)
  from buffer_run_refines [OF this, of "[Append True [1, 2, 3] 3, Remove 1 1, Remove_End 7]" 4096]
  show ?thesis by (auto simp: bytes_run_simps bytes_step_simps SIZE_MAX_def)
qed

text \<open>
  On a usable buffer \<open>buffer_append\<close> with memory available grows the block as often as needed
  and returns the buffer with exactly the \<open>sz\<close> bytes added at the end.
\<close>

theorem buffer_append_appends:
  assumes "buffer_rep p xs" "0 < sz" "sz \<le> length d" "length xs + sz \<le> SIZE_MAX div 2"
  shows "\<exists>q. buffer_append ps ok1 True p (Some d) sz = Some (q, True) \<and> buffer_rep q (xs @ take sz d)"
  using assms(1,3,2,4) by (rule buffer_sink.append_bytes)

theorem buffer_append_appends_witness:
  "\<exists>q. buffer_append 4096 True True (buffer_allocate_length True True 1) (Some [7, 8, 9]) 3 = Some (q, True)
     \<and> buffer_rep q [7, 8, 9]"
  using buffer_append_appends [OF buffer_allocate_length_rep, of 1 3 "[7, 8, 9]" 4096 True]
  by (simp add: SIZE_MAX_def)

text \<open>
  \<open>buffer_is_equal\<close> is equality of the contents, and \<open>buffer_is_less\<close>,
  \<open>buffer_is_greater\<close> order contents of one length only: two buffers of different sizes are
  neither equal nor less nor greater.
\<close>

theorem buffer_comparisons:
  assumes "buffer_rep p xs" "buffer_rep q ys"
  shows "buffer_is_equal p q = Some (xs = ys)
    \<and> buffer_is_less p q = Some (length xs = length ys \<and> bytes_cmp xs ys < 0)
    \<and> buffer_is_greater p q = buffer_is_less q p"
  using buffer_compare_rep [OF assms] buffer_compare_rep [OF assms(2,1)] bytes_cmp_eq_0 [of xs ys]
    bytes_cmp_flip [of xs ys]
  by (auto simp: buffer_is_equal_def buffer_is_less_def buffer_is_greater_def)

theorem buffer_comparisons_witness:
  "buffer_is_equal (buffer_allocate_length True True 4) (buffer_allocate_default 4096 True True) = Some True
    \<and> buffer_is_less (buffer_allocate_length True True 4) (buffer_allocate_default 4096 True True) = Some False"
  using buffer_comparisons [OF buffer_allocate_length_rep buffer_allocate_default_rep, of 4 4096]
  by (simp add: SIZE_MAX_def LONG_MAX_def)

end
