(* ===== verification/Keyvalue.thy ===== *)
theory Keyvalue
  imports Buffer
begin

text \<open>
  The key/value pair of \<open>core/src/keyvalue.c\<close> and \<open>core/include/keyvalue.h\<close>: two buffers, compared by
  key.  A \<open>key_value_t*\<close> is a \<open>key_value option\<close>; a \<open>buffer_t*\<close> as in Buffer.
\<close>

record key_value =
  Key :: "buffer_t option"
  Value :: "buffer_t option"

text \<open>\<open>ok1\<close> and \<open>ok2\<close> answer the allocations of the two \<open>buffer_copy\<close> calls.\<close>

definition keyvalue_copy ::
  "bool \<Rightarrow> bool \<Rightarrow> key_value option \<Rightarrow> key_value option \<Rightarrow> key_value option option" where
  "keyvalue_copy ok1 ok2 dest orig =
     (case (dest, orig) of
        (Some d, Some q) \<Rightarrow> do {
          k \<leftarrow> (if Key d \<noteq> None \<and> Key q \<noteq> None then buffer_copy ok1 (Key d) (Key q) else Some (Key d));
          v \<leftarrow> (if Value d \<noteq> None \<and> Value q \<noteq> None then buffer_copy ok2 (Value d) (Value q) else Some (Value d));
          Some (Some \<lparr>Key = k, Value = v\<rparr>) }
      | _ \<Rightarrow> Some dest)"

definition keyvalue_compare_with ::
  "(buffer_t option \<Rightarrow> buffer_t option \<Rightarrow> bool option) \<Rightarrow> key_value option \<Rightarrow> key_value option \<Rightarrow> bool option" where
  "keyvalue_compare_with cmp first second =
     (case (first, second) of
        (Some f, Some s) \<Rightarrow> if Key f = None \<or> Key s = None then Some False else cmp (Key f) (Key s)
      | _ \<Rightarrow> Some False)"

definition keyvalue_is_equal :: "key_value option \<Rightarrow> key_value option \<Rightarrow> bool option" where
  "keyvalue_is_equal = keyvalue_compare_with buffer_is_equal"

definition keyvalue_is_greater :: "key_value option \<Rightarrow> key_value option \<Rightarrow> bool option" where
  "keyvalue_is_greater = keyvalue_compare_with buffer_is_greater"

definition keyvalue_is_less :: "key_value option \<Rightarrow> key_value option \<Rightarrow> bool option" where
  "keyvalue_is_less = keyvalue_compare_with buffer_is_less"

lemma keyvalue_is_equal_key:
  "buffer_rep (Key f) k1 \<Longrightarrow> buffer_rep (Key s) k2 \<Longrightarrow>
   keyvalue_is_equal (Some f) (Some s) = Some (k1 = k2)"
  using bytes_cmp_eq_0 [of k1 k2] buffer_compare_rep [of "Key f" k1 "Key s" k2]
  by (auto simp: keyvalue_is_equal_def keyvalue_compare_with_def buffer_is_equal_def buffer_rep_def)

text \<open>
  Copying a pair.  When all four buffers exist and memory is available, the copy holds the key and the value
  of the original, its old content is gone, and the two then compare equal.
\<close>

theorem keyvalue_copy_equal:
  assumes "buffer_rep (Key d) k0" "buffer_rep (Value d) v0" "buffer_rep (Key q) k" "buffer_rep (Value q) v"
  shows "\<exists>r. keyvalue_copy True True (Some d) (Some q) = Some (Some r) \<and>
     buffer_rep (Key r) k \<and> buffer_rep (Value r) v \<and> keyvalue_is_equal (Some r) (Some q) = Some True"
proof -
  have some: "Key d \<noteq> None" "Key q \<noteq> None" "Value d \<noteq> None" "Value q \<noteq> None"
    using assms by (auto simp: buffer_rep_def)
  obtain k' where "buffer_copy True (Key d) (Key q) = Some k'" "buffer_rep k' k"
    using buffer_copy_rep [OF assms(3) some(1)] by blast
  moreover obtain v' where "buffer_copy True (Value d) (Value q) = Some v'" "buffer_rep v' v"
    using buffer_copy_rep [OF assms(4) some(3)] by blast
  moreover note some
  ultimately show ?thesis
    using keyvalue_is_equal_key [of "\<lparr>Key = k', Value = v'\<rparr>" k q k] assms(3)
    by (auto simp: keyvalue_copy_def)
qed

theorem keyvalue_copy_equal_witness:
  "\<exists>r. keyvalue_copy True True
       (Some \<lparr>Key = buffer_allocate_length True True 1, Value = buffer_allocate_length True True 1\<rparr>)
       (Some \<lparr>Key = buffer_allocate_length True True 8, Value = buffer_allocate_default 4096 True True\<rparr>) =
     Some (Some r) \<and> buffer_rep (Key r) []"
  using keyvalue_copy_equal
    [of "\<lparr>Key = buffer_allocate_length True True 1, Value = buffer_allocate_length True True 1\<rparr>" "[]" "[]"
        "\<lparr>Key = buffer_allocate_length True True 8, Value = buffer_allocate_default 4096 True True\<rparr>" "[]" "[]"]
  by (auto simp: buffer_allocate_length_rep buffer_allocate_default_rep SIZE_MAX_def LONG_MAX_def)

end
