(* ===== verification/Variant.thy ===== *)
theory Variant
  imports CPrelude
begin

text \<open>
  The tagged value of \<open>core/src/variant.c\<close>: a type tag, a raw buffer of 256 bytes and the number of
  bytes in use.  A \<open>variant_t*\<close> is a \<open>variant_t option\<close>.  A \<open>long\<close>, \<open>unsigned long\<close> or \<open>time\<close> value is
  a 64-bit word stored by \<open>memcpy\<close> in little-endian order; a \<open>double\<close> is its 64-bit pattern, which
  is all the code ever moves.  The theory proves the invariant of the raw buffer (in particular that
  stored strings stay NUL terminated inside it) and that every setter is read back by its getter and
  by no other.
\<close>

section \<open>State and operations\<close>

datatype VariantType =
    Void | Char | UnsignedChar | String | Boolean | Number | UnsignedNumber | Decimal | DateTimeStamp | Raw

record variant_t =
  DataType :: VariantType
  RawBuffer :: "byte list"
  DataSize :: nat

text \<open>The eight bytes of a 64-bit word in memory, and the word that eight bytes make.\<close>

definition word_bytes :: "64 word \<Rightarrow> byte list" where
  "word_bytes w = map (\<lambda>i. ucast (drop_bit (8 * i) w)) [0..<8]"

definition bytes_word :: "byte list \<Rightarrow> 64 word" where
  "bytes_word bs = foldr (\<lambda>b acc. push_bit 8 acc OR ucast b) bs 0"

definition variant_internal_string_len :: "nat \<Rightarrow> nat" where
  "variant_internal_string_len ln = (if ln > 256 - 1 then 256 - 1 else ln)"

text \<open>The zeroed structure \<open>calloc\<close> returns.\<close>

definition variant_zero :: variant_t where
  "variant_zero = \<lparr>DataType = Void, RawBuffer = replicate 256 0, DataSize = 0\<rparr>"

definition variant_allocate_default :: "bool \<Rightarrow> variant_t option" where
  "variant_allocate_default ok = (if ok then Some variant_zero else None)"

text \<open>\<open>variant_release\<close> frees the structure; nothing is left behind the pointer.\<close>

definition variant_release :: "variant_t option \<Rightarrow> variant_t option" where
  "variant_release varptr = None"

definition variant_allocate :: "bool \<Rightarrow> variant_t option \<Rightarrow> variant_t option" where
  "variant_allocate ok varptr = (if ok then Some variant_zero else None)"

definition variant_allocate_char :: "bool \<Rightarrow> byte \<Rightarrow> variant_t option option" where
  "variant_allocate_char ok ch =
     (if \<not> ok then Some None
      else do { raw \<leftarrow> mem_write (RawBuffer variant_zero) 0 ch;
                Some (Some (variant_zero\<lparr>DataSize := 1, DataType := Char, RawBuffer := raw\<rparr>)) })"

definition variant_allocate_unsigned_char :: "bool \<Rightarrow> byte \<Rightarrow> variant_t option option" where
  "variant_allocate_unsigned_char ok ch =
     (if \<not> ok then Some None
      else do { raw \<leftarrow> mem_write (RawBuffer variant_zero) 0 ch;
                Some (Some (variant_zero\<lparr>DataSize := 1, DataType := UnsignedChar, RawBuffer := raw\<rparr>)) })"

definition variant_allocate_string :: "bool \<Rightarrow> byte list option \<Rightarrow> nat \<Rightarrow> variant_t option option" where
  "variant_allocate_string ok str ln =
     (case str of
        None \<Rightarrow> Some None
      | Some s \<Rightarrow>
        if \<not> ok then Some None
        else do {
          let size = variant_internal_string_len ln;
          raw \<leftarrow> (if size > 0 then mem_copy (RawBuffer variant_zero) 0 s 0 size
                   else Some (RawBuffer variant_zero));
          raw' \<leftarrow> mem_write raw size 0;
          Some (Some (variant_zero\<lparr>DataSize := size, DataType := String, RawBuffer := raw'\<rparr>))
        })"

definition variant_allocate_bool :: "bool \<Rightarrow> bool \<Rightarrow> variant_t option option" where
  "variant_allocate_bool ok fl =
     (if \<not> ok then Some None
      else do { raw \<leftarrow> mem_write (RawBuffer variant_zero) 0 (of_bool fl);
                Some (Some (variant_zero\<lparr>DataSize := 1, DataType := Boolean, RawBuffer := raw\<rparr>)) })"

definition variant_allocate_long :: "bool \<Rightarrow> 64 word \<Rightarrow> variant_t option option" where
  "variant_allocate_long ok val =
     (if \<not> ok then Some None
      else do { raw \<leftarrow> mem_copy (RawBuffer variant_zero) 0 (word_bytes val) 0 8;
                Some (Some (variant_zero\<lparr>DataSize := 8, DataType := Number, RawBuffer := raw\<rparr>)) })"

definition variant_allocate_unsigned_long :: "bool \<Rightarrow> 64 word \<Rightarrow> variant_t option option" where
  "variant_allocate_unsigned_long ok val =
     (if \<not> ok then Some None
      else do { raw \<leftarrow> mem_copy (RawBuffer variant_zero) 0 (word_bytes val) 0 8;
                Some (Some (variant_zero\<lparr>DataSize := 8, DataType := UnsignedNumber, RawBuffer := raw\<rparr>)) })"

definition variant_allocate_double :: "bool \<Rightarrow> 64 word \<Rightarrow> variant_t option option" where
  "variant_allocate_double ok val =
     (if \<not> ok then Some None
      else do { raw \<leftarrow> mem_copy (RawBuffer variant_zero) 0 (word_bytes val) 0 8;
                Some (Some (variant_zero\<lparr>DataSize := 8, DataType := Decimal, RawBuffer := raw\<rparr>)) })"

definition variant_allocate_time_value :: "bool \<Rightarrow> 64 word \<Rightarrow> variant_t option option" where
  "variant_allocate_time_value ok val =
     (if \<not> ok then Some None
      else do { raw \<leftarrow> mem_copy (RawBuffer variant_zero) 0 (word_bytes val) 0 8;
                Some (Some (variant_zero\<lparr>DataSize := 8, DataType := DateTimeStamp, RawBuffer := raw\<rparr>)) })"

text \<open>\<open>memset(&varptr->RawBuffer[0], 0, sizeof(varptr->RawBuffer))\<close>.\<close>

definition variant_wipe :: "variant_t \<Rightarrow> variant_t option" where
  "variant_wipe v = do { raw \<leftarrow> mem_fill (RawBuffer v) 0 0 256; Some (v\<lparr>RawBuffer := raw\<rparr>) }"

definition variant_set_variant :: "variant_t option \<Rightarrow> variant_t option \<Rightarrow> variant_t option option" where
  "variant_set_variant varptr val =
     (case (varptr, val) of
        (Some v, Some x) \<Rightarrow> do {
          w \<leftarrow> variant_wipe v;
          let size = (if DataSize x > 256 then 256 else DataSize x);
          raw \<leftarrow> (if size > 0 then mem_copy (RawBuffer w) 0 (RawBuffer x) 0 size else Some (RawBuffer w));
          Some (Some (w\<lparr>DataSize := size, RawBuffer := raw, DataType := DataType x\<rparr>)) }
      | _ \<Rightarrow> Some varptr)"

text \<open>
  The same call with \<open>varptr == val\<close>: the source is the wiped target.  (Strictly, a \<open>memcpy\<close> of a block onto itself is
  undefined as well; here it copies.)
\<close>

definition variant_set_itself :: "variant_t option \<Rightarrow> variant_t option option" where
  "variant_set_itself varptr =
     (case varptr of
        None \<Rightarrow> Some None
      | Some v \<Rightarrow> do {
          w \<leftarrow> variant_wipe v;
          let size = (if DataSize w > 256 then 256 else DataSize w);
          raw \<leftarrow> (if size > 0 then mem_copy (RawBuffer w) 0 (RawBuffer w) 0 size else Some (RawBuffer w));
          Some (Some (w\<lparr>DataSize := size, RawBuffer := raw, DataType := DataType w\<rparr>)) })"

definition variant_set_char :: "variant_t option \<Rightarrow> byte \<Rightarrow> variant_t option option" where
  "variant_set_char varptr ch =
     (case varptr of None \<Rightarrow> Some None
      | Some v \<Rightarrow> do {
          w \<leftarrow> variant_wipe v;
          raw \<leftarrow> mem_write (RawBuffer w) 0 ch;
          Some (Some (w\<lparr>RawBuffer := raw, DataSize := 1, DataType := Char\<rparr>)) })"

definition variant_set_unsigned_char :: "variant_t option \<Rightarrow> byte \<Rightarrow> variant_t option option" where
  "variant_set_unsigned_char varptr ch =
     (case varptr of None \<Rightarrow> Some None
      | Some v \<Rightarrow> do {
          w \<leftarrow> variant_wipe v;
          raw \<leftarrow> mem_write (RawBuffer w) 0 ch;
          Some (Some (w\<lparr>RawBuffer := raw, DataSize := 1, DataType := UnsignedChar\<rparr>)) })"

definition variant_set_string :: "variant_t option \<Rightarrow> byte list option \<Rightarrow> nat \<Rightarrow> variant_t option option" where
  "variant_set_string varptr str ln =
     (case (varptr, str) of
        (Some v, Some s) \<Rightarrow>
          if ln < 1 then Some varptr
          else do {
            w \<leftarrow> variant_wipe v;
            let size = variant_internal_string_len ln;
            raw \<leftarrow> (if size > 0 then mem_copy (RawBuffer w) 0 s 0 size else Some (RawBuffer w));
            raw' \<leftarrow> mem_write raw size 0;
            Some (Some (w\<lparr>DataSize := size, RawBuffer := raw', DataType := String\<rparr>)) }
      | _ \<Rightarrow> Some varptr)"

definition variant_set_bool :: "variant_t option \<Rightarrow> bool \<Rightarrow> variant_t option option" where
  "variant_set_bool varptr fl =
     (case varptr of None \<Rightarrow> Some None
      | Some v \<Rightarrow> do {
          w \<leftarrow> variant_wipe v;
          raw \<leftarrow> mem_write (RawBuffer w) 0 (of_bool fl);
          Some (Some (w\<lparr>RawBuffer := raw, DataSize := 1, DataType := Boolean\<rparr>)) })"

definition variant_set_long :: "variant_t option \<Rightarrow> 64 word \<Rightarrow> variant_t option option" where
  "variant_set_long varptr val =
     (case varptr of None \<Rightarrow> Some None
      | Some v \<Rightarrow> do {
          w \<leftarrow> variant_wipe v;
          raw \<leftarrow> mem_copy (RawBuffer w) 0 (word_bytes val) 0 8;
          Some (Some (w\<lparr>RawBuffer := raw, DataSize := 8, DataType := Number\<rparr>)) })"

definition variant_set_unsigned_long :: "variant_t option \<Rightarrow> 64 word \<Rightarrow> variant_t option option" where
  "variant_set_unsigned_long varptr val =
     (case varptr of None \<Rightarrow> Some None
      | Some v \<Rightarrow> do {
          w \<leftarrow> variant_wipe v;
          raw \<leftarrow> mem_copy (RawBuffer w) 0 (word_bytes val) 0 8;
          Some (Some (w\<lparr>RawBuffer := raw, DataSize := 8, DataType := UnsignedNumber\<rparr>)) })"

definition variant_set_double :: "variant_t option \<Rightarrow> 64 word \<Rightarrow> variant_t option option" where
  "variant_set_double varptr val =
     (case varptr of None \<Rightarrow> Some None
      | Some v \<Rightarrow> do {
          w \<leftarrow> variant_wipe v;
          raw \<leftarrow> mem_copy (RawBuffer w) 0 (word_bytes val) 0 8;
          Some (Some (w\<lparr>RawBuffer := raw, DataSize := 8, DataType := Decimal\<rparr>)) })"

definition variant_set_time_value :: "variant_t option \<Rightarrow> 64 word \<Rightarrow> variant_t option option" where
  "variant_set_time_value varptr val =
     (case varptr of None \<Rightarrow> Some None
      | Some v \<Rightarrow> do {
          w \<leftarrow> variant_wipe v;
          raw \<leftarrow> mem_copy (RawBuffer w) 0 (word_bytes val) 0 8;
          Some (Some (w\<lparr>RawBuffer := raw, DataSize := 8, DataType := DateTimeStamp\<rparr>)) })"

definition variant_get_data_type :: "variant_t option \<Rightarrow> VariantType" where
  "variant_get_data_type varptr = (case varptr of None \<Rightarrow> Void | Some v \<Rightarrow> DataType v)"

definition variant_get_data_size :: "variant_t option \<Rightarrow> nat" where
  "variant_get_data_size varptr = (case varptr of None \<Rightarrow> 0 | Some v \<Rightarrow> DataSize v)"

definition variant_get_char :: "variant_t option \<Rightarrow> byte option" where
  "variant_get_char varptr =
     (case varptr of None \<Rightarrow> Some 0
      | Some v \<Rightarrow> if DataType v \<noteq> Char then Some 0 else mem_read (RawBuffer v) 0)"

definition variant_get_unsigned_char :: "variant_t option \<Rightarrow> byte option" where
  "variant_get_unsigned_char varptr =
     (case varptr of None \<Rightarrow> Some 0
      | Some v \<Rightarrow> if DataType v \<noteq> UnsignedChar then Some 0 else mem_read (RawBuffer v) 0)"

text \<open>The returned pointer is the raw buffer itself (\<open>None\<close> for NULL).\<close>

definition variant_get_string :: "variant_t option \<Rightarrow> byte list option" where
  "variant_get_string varptr =
     (case varptr of None \<Rightarrow> None
      | Some v \<Rightarrow> if DataType v \<noteq> String then None else Some (RawBuffer v))"

definition variant_get_bool :: "variant_t option \<Rightarrow> bool option" where
  "variant_get_bool varptr =
     (case varptr of None \<Rightarrow> Some False
      | Some v \<Rightarrow> if DataType v \<noteq> Boolean then Some False
                 else do { b \<leftarrow> mem_read (RawBuffer v) 0; Some (b \<noteq> 0) })"

text \<open>\<open>memcpy(&retval, &varptr->RawBuffer[0], 8)\<close> into a zero local.\<close>

definition variant_load :: "variant_t \<Rightarrow> 64 word option" where
  "variant_load v = do { bs \<leftarrow> mem_copy (replicate 8 0) 0 (RawBuffer v) 0 8; Some (bytes_word bs) }"

definition variant_get_long :: "variant_t option \<Rightarrow> 64 word option" where
  "variant_get_long varptr =
     (case varptr of None \<Rightarrow> Some 0
      | Some v \<Rightarrow> if DataType v \<noteq> Number then Some 0 else variant_load v)"

definition variant_get_unsigned_long :: "variant_t option \<Rightarrow> 64 word option" where
  "variant_get_unsigned_long varptr =
     (case varptr of None \<Rightarrow> Some 0
      | Some v \<Rightarrow> if DataType v \<noteq> UnsignedNumber then Some 0 else variant_load v)"

definition variant_get_double :: "variant_t option \<Rightarrow> 64 word option" where
  "variant_get_double varptr =
     (case varptr of None \<Rightarrow> Some 0
      | Some v \<Rightarrow> if DataType v \<noteq> Decimal then Some 0 else variant_load v)"

definition variant_get_time_value :: "variant_t option \<Rightarrow> 64 word option" where
  "variant_get_time_value varptr =
     (case varptr of None \<Rightarrow> Some 0
      | Some v \<Rightarrow> if DataType v \<noteq> DateTimeStamp then Some 0 else variant_load v)"

section \<open>Words in memory\<close>

lemma length_word_bytes [simp]: "length (word_bytes w) = 8"
  by (simp add: word_bytes_def)

lemma bytes_word_bytes [simp]: "bytes_word (word_bytes w) = w"
proof (rule bit_word_eqI)
  fix n assume "n < LENGTH(64)"
  then have n: "n < 64" by simp
  have "bit (foldr (\<lambda>b acc. push_bit 8 acc OR ucast b) (map (\<lambda>i. ucast (drop_bit (8 * i) w) :: byte) [k..<8]) (0 :: 64 word)) n
      = (n < 8 * (8 - k) \<and> bit w (n + 8 * k))" if "k \<le> 8" "n < 64" for k n
    using that
  proof (induction "8 - k" arbitrary: k n)
    case 0
    then show ?case by simp
  next
    case (Suc d)
    then have k: "k < 8" "[k..<8] = k # [Suc k..<8]" by (simp_all add: upt_conv_Cons)
    have IH: "n - 8 < 64 \<Longrightarrow> bit (foldr (\<lambda>b acc. push_bit 8 acc OR ucast b) (map (\<lambda>i. ucast (drop_bit (8 * i) w) :: byte) [Suc k..<8]) (0 :: 64 word)) (n - 8)
      = (n - 8 < 8 * (8 - Suc k) \<and> bit w (n - 8 + 8 * Suc k))"
      by (rule Suc.hyps) (use Suc in auto)
    show ?case
    proof (cases "n < 8")
      case True
      then show ?thesis using k Suc.prems
        by (auto simp: bit_simps add.commute)
    next
      case False
      then show ?thesis using k Suc.prems IH
        by (auto simp: bit_simps algebra_simps)
    qed
  qed
  from this [of 0 n] n show "bit (bytes_word (word_bytes w)) n = bit w n"
    by (simp add: bytes_word_def word_bytes_def)
qed

section \<open>The values a variant stands for\<close>

datatype variant_value =
    NoValue
  | CharValue byte
  | UnsignedCharValue byte
  | StringValue "byte list"
  | BoolValue bool
  | LongValue "64 word"
  | UnsignedLongValue "64 word"
  | DoubleValue "64 word"
  | TimeValue "64 word"

fun value_type :: "variant_value \<Rightarrow> VariantType" where
  "value_type NoValue = Void"
| "value_type (CharValue _) = Char"
| "value_type (UnsignedCharValue _) = UnsignedChar"
| "value_type (StringValue _) = String"
| "value_type (BoolValue _) = Boolean"
| "value_type (LongValue _) = Number"
| "value_type (UnsignedLongValue _) = UnsignedNumber"
| "value_type (DoubleValue _) = Decimal"
| "value_type (TimeValue _) = DateTimeStamp"

fun value_bytes :: "variant_value \<Rightarrow> byte list" where
  "value_bytes NoValue = []"
| "value_bytes (CharValue c) = [c]"
| "value_bytes (UnsignedCharValue c) = [c]"
| "value_bytes (StringValue s) = s"
| "value_bytes (BoolValue b) = [of_bool b]"
| "value_bytes (LongValue w) = word_bytes w"
| "value_bytes (UnsignedLongValue w) = word_bytes w"
| "value_bytes (DoubleValue w) = word_bytes w"
| "value_bytes (TimeValue w) = word_bytes w"

text \<open>A string leaves room for its terminator; every other value fits anyway.\<close>

definition value_ok :: "variant_value \<Rightarrow> bool" where
  "value_ok x = (length (value_bytes x) \<le> 255)"

text \<open>
  The one layout of a value: its bytes at the start of the raw buffer, zeroes behind them.  A
  variant that was only touched by the operations of the interface always has this form.
\<close>

definition variant_image :: "variant_value \<Rightarrow> variant_t" where
  "variant_image x =
     \<lparr>DataType = value_type x,
      RawBuffer = value_bytes x @ replicate (256 - length (value_bytes x)) 0,
      DataSize = length (value_bytes x)\<rparr>"

lemma value_ok_simps [simp]:
  "value_ok NoValue" "value_ok (CharValue c)" "value_ok (UnsignedCharValue c)"
  "value_ok (BoolValue b)" "value_ok (LongValue w)" "value_ok (UnsignedLongValue w)"
  "value_ok (DoubleValue w)" "value_ok (TimeValue w)"
  "value_ok (StringValue s) = (length s \<le> 255)"
  by (simp_all add: value_ok_def)

lemma image_simps [simp]:
  "DataType (variant_image x) = value_type x"
  "DataSize (variant_image x) = length (value_bytes x)"
  "RawBuffer (variant_image x) = value_bytes x @ replicate (256 - length (value_bytes x)) 0"
  by (simp_all add: variant_image_def)

lemma length_image_raw: "value_ok x \<Longrightarrow> length (RawBuffer (variant_image x)) = 256"
  by (simp add: value_ok_def)

lemma wipe_Some: "length (RawBuffer v) = 256 \<Longrightarrow> variant_wipe v = Some (v\<lparr>RawBuffer := replicate 256 0\<rparr>)"
  by (simp add: variant_wipe_def mem_fill_Some)

lemma write_first: "0 < n \<Longrightarrow> mem_write (replicate n (0 :: byte)) 0 c = Some (c # replicate (n - 1) 0)"
  by (cases n) (simp_all add: mem_write_def)

lemma copy_front:
  "n \<le> length src \<Longrightarrow> n \<le> k \<Longrightarrow>
   mem_copy (replicate k (0 :: byte)) 0 src 0 n = Some (take n src @ replicate (k - n) 0)"
  by (simp add: mem_copy_Some)

lemma copy_front': "n \<le> length src \<Longrightarrow> n \<le> k \<Longrightarrow>
   (if 0 < n then mem_copy (replicate k (0 :: byte)) 0 src 0 n else Some (replicate k 0)) =
     Some (take n src @ replicate (k - n) 0)"
  by (simp add: copy_front)

lemma update_first: "0 < n \<Longrightarrow> (replicate n (0 :: byte))[0 := c] = c # replicate (n - 1) 0"
  by (cases n) simp_all

lemmas variant_layout = wipe_Some update_first copy_front copy_front' variant_zero_def variant_image_def

lemma zero_image: "variant_zero = variant_image NoValue"
  by (simp add: variant_zero_def variant_image_def)

text \<open>The length a string keeps, and the terminator written behind it.\<close>

lemma string_len_le [simp]:
  "variant_internal_string_len n \<le> n" "variant_internal_string_len n \<le> 255"
  by (simp_all add: variant_internal_string_len_def)

lemma string_len_min: "variant_internal_string_len n = min n 255"
  by (auto simp: variant_internal_string_len_def min_def)

lemma put_string:
  assumes "m \<le> length s" "m \<le> 255" "raw = replicate 256 (0 :: byte)"
  shows "do { r \<leftarrow> (if m > 0 then mem_copy raw 0 s 0 m else Some raw); r' \<leftarrow> mem_write r m 0; f r' } =
         f (take m s @ replicate (256 - m) 0)"
proof -
  have "(take m s @ replicate (256 - m) (0 :: byte))[m := 0] = take m s @ replicate (256 - m) 0"
    using assms by (cases "256 - m") (simp_all add: list_update_append min_absorb2)
  moreover have "mem_copy (replicate 256 0) 0 s 0 m = Some (take m s @ replicate (256 - m) 0)"
    using assms by (intro copy_front) auto
  ultimately show ?thesis using assms by (cases "m = 0") (simp_all add: min_absorb2)
qed

section \<open>Allocation and assignment\<close>

definition string_value :: "byte list \<Rightarrow> nat \<Rightarrow> variant_value" where
  "string_value s n = StringValue (take (variant_internal_string_len n) s)"

lemma allocate_image:
  "variant_allocate_default True = Some (variant_image NoValue)"
  "variant_allocate True p = Some (variant_image NoValue)"
  "variant_allocate_char True c = Some (Some (variant_image (CharValue c)))"
  "variant_allocate_unsigned_char True c = Some (Some (variant_image (UnsignedCharValue c)))"
  "variant_allocate_bool True b = Some (Some (variant_image (BoolValue b)))"
  "variant_allocate_long True w = Some (Some (variant_image (LongValue w)))"
  "variant_allocate_unsigned_long True w = Some (Some (variant_image (UnsignedLongValue w)))"
  "variant_allocate_double True w = Some (Some (variant_image (DoubleValue w)))"
  "variant_allocate_time_value True w = Some (Some (variant_image (TimeValue w)))"
  by (simp_all add: variant_allocate_default_def variant_allocate_def variant_allocate_char_def
      variant_allocate_unsigned_char_def variant_allocate_bool_def variant_allocate_long_def
      variant_allocate_unsigned_long_def variant_allocate_double_def variant_allocate_time_value_def
      variant_layout)

lemma allocate_string_image:
  assumes "variant_internal_string_len n \<le> length s"
  shows "variant_allocate_string True (Some s) n = Some (Some (variant_image (string_value s n)))"
  using assms
  by (simp add: variant_allocate_string_def Let_def put_string variant_zero_def)
    (simp add: string_value_def variant_image_def min_absorb2)

lemma set_image:
  assumes "length (RawBuffer v) = 256"
  shows "variant_set_char (Some v) c = Some (Some (variant_image (CharValue c)))"
    "variant_set_unsigned_char (Some v) c = Some (Some (variant_image (UnsignedCharValue c)))"
    "variant_set_bool (Some v) b = Some (Some (variant_image (BoolValue b)))"
    "variant_set_long (Some v) w = Some (Some (variant_image (LongValue w)))"
    "variant_set_unsigned_long (Some v) w = Some (Some (variant_image (UnsignedLongValue w)))"
    "variant_set_double (Some v) w = Some (Some (variant_image (DoubleValue w)))"
    "variant_set_time_value (Some v) w = Some (Some (variant_image (TimeValue w)))"
  using assms by (simp_all add: variant_set_char_def variant_set_unsigned_char_def variant_set_bool_def
      variant_set_long_def variant_set_unsigned_long_def variant_set_double_def variant_set_time_value_def
      variant_layout)

lemma set_string_image:
  assumes "length (RawBuffer v) = 256" "variant_internal_string_len n \<le> length s" "0 < n"
  shows "variant_set_string (Some v) (Some s) n = Some (Some (variant_image (string_value s n)))"
  using assms
  by (simp add: variant_set_string_def Let_def put_string wipe_Some)
    (simp add: string_value_def variant_image_def min_absorb2)

lemma set_variant_image:
  assumes "length (RawBuffer v) = 256" "value_ok x"
  shows "variant_set_variant (Some v) (Some (variant_image x)) = Some (Some (variant_image x))"
  using assms
  by (simp add: variant_set_variant_def variant_layout copy_front' Let_def value_ok_def)

text \<open>Assigning a variant to itself erases its value; only the type and the size stay.\<close>

lemma set_itself_erases:
  assumes "length (RawBuffer v) = 256" "DataSize v \<le> 256"
  shows "variant_set_itself (Some v) = Some (Some (v\<lparr>RawBuffer := replicate 256 0\<rparr>))"
proof -
  have wipe: "variant_wipe v = Some (v\<lparr>RawBuffer := replicate 256 0\<rparr>)"
    using assms(1) by (simp add: variant_wipe_def mem_fill_Some)
  have copy: "mem_copy (replicate 256 0) 0 (replicate 256 0) 0 (DataSize v) = Some (replicate 256 (0 :: byte))"
    using assms(2) by (simp add: mem_copy_Some min_absorb1 flip: replicate_add)
  show ?thesis unfolding variant_set_itself_def option.case wipe bind_Some_iff Let_def using assms(2) copy by simp
qed

section \<open>Sequences of assignments\<close>

text \<open>
  The setters as a client calls them, with a live target.  \<open>OpVariant\<close> carries what \<open>val\<close> points to,
  another structure than the target (\<open>set_itself_erases\<close> is about the target itself).
\<close>

datatype variant_op =
    OpVariant "variant_t option"
  | OpChar byte
  | OpUnsignedChar byte
  | OpString "byte list option" nat
  | OpBool bool
  | OpLong "64 word"
  | OpUnsignedLong "64 word"
  | OpDouble "64 word"
  | OpTime "64 word"

fun variant_step :: "variant_op \<Rightarrow> variant_t option \<Rightarrow> variant_t option option" where
  "variant_step (OpVariant x) p = variant_set_variant p x"
| "variant_step (OpChar c) p = variant_set_char p c"
| "variant_step (OpUnsignedChar c) p = variant_set_unsigned_char p c"
| "variant_step (OpString s n) p = variant_set_string p s n"
| "variant_step (OpBool b) p = variant_set_bool p b"
| "variant_step (OpLong w) p = variant_set_long p w"
| "variant_step (OpUnsignedLong w) p = variant_set_unsigned_long p w"
| "variant_step (OpDouble w) p = variant_set_double p w"
| "variant_step (OpTime w) p = variant_set_time_value p w"

fun variant_run :: "variant_op list \<Rightarrow> variant_t option \<Rightarrow> variant_t option option" where
  "variant_run [] p = Some p"
| "variant_run (a # as) p = do { q \<leftarrow> variant_step a p; variant_run as q }"

text \<open>The effect an assignment has on the value, as the interface promises it.\<close>

inductive assigns :: "variant_op \<Rightarrow> variant_value \<Rightarrow> variant_value \<Rightarrow> bool" where
  "assigns (OpVariant None) x x"
| "value_ok y \<Longrightarrow> assigns (OpVariant (Some (variant_image y))) x y"
| "assigns (OpChar c) x (CharValue c)"
| "assigns (OpUnsignedChar c) x (UnsignedCharValue c)"
| "assigns (OpString None n) x x"
| "assigns (OpString (Some s) 0) x x"
| "0 < n \<Longrightarrow> n \<le> length s \<Longrightarrow> assigns (OpString (Some s) n) x (StringValue (take 255 (take n s)))"
| "assigns (OpBool b) x (BoolValue b)"
| "assigns (OpLong w) x (LongValue w)"
| "assigns (OpUnsignedLong w) x (UnsignedLongValue w)"
| "assigns (OpDouble w) x (DoubleValue w)"
| "assigns (OpTime w) x (TimeValue w)"

inductive_simps assigns_simps [simp]:
  "assigns (OpVariant p) x y" "assigns (OpChar c) x y" "assigns (OpUnsignedChar c) x y"
  "assigns (OpString s n) x y" "assigns (OpBool b) x y" "assigns (OpLong w) x y"
  "assigns (OpUnsignedLong w) x y" "assigns (OpDouble w) x y" "assigns (OpTime w) x y"

inductive assigned :: "variant_op list \<Rightarrow> variant_value \<Rightarrow> variant_value \<Rightarrow> bool" where
  "assigned [] x x"
| "assigns a x y \<Longrightarrow> assigned as y z \<Longrightarrow> assigned (a # as) x z"

inductive_simps assigned_simps [simp]: "assigned [] x y" "assigned (a # as) x y"

lemma set_nothing:
  "variant_set_variant p None = Some p"
  "variant_set_string p None n = Some p"
  "variant_set_string p s 0 = Some p"
  by (simp_all add: variant_set_variant_def variant_set_string_def split: option.split)

lemma assigns_ok: "assigns a x y \<Longrightarrow> value_ok x \<Longrightarrow> value_ok y"
  by (induction rule: assigns.induct) auto

lemma variant_step_image:
  assumes "assigns a x y" "value_ok x"
  shows "variant_step a (Some (variant_image x)) = Some (Some (variant_image y))"
  using assms
proof (induction rule: assigns.induct)
  case (7 n s x)
  then show ?case using set_string_image [OF length_image_raw, of x n s]
    by (simp add: string_value_def string_len_min min.commute)
qed (simp_all add: set_nothing set_image length_image_raw set_variant_image del: image_simps)

lemma variant_run_image:
  assumes "assigned as x y" "value_ok x"
  shows "variant_run as (Some (variant_image x)) = Some (Some (variant_image y)) \<and> value_ok y"
  using assms by (induction rule: assigned.induct) (auto simp: variant_step_image dest: assigns_ok)

section \<open>Reading back\<close>

fun char_of_value :: "variant_value \<Rightarrow> byte" where
  "char_of_value (CharValue c) = c" | "char_of_value _ = 0"

fun unsigned_char_of_value :: "variant_value \<Rightarrow> byte" where
  "unsigned_char_of_value (UnsignedCharValue c) = c" | "unsigned_char_of_value _ = 0"

fun bool_of_value :: "variant_value \<Rightarrow> bool" where
  "bool_of_value (BoolValue b) = b" | "bool_of_value _ = False"

fun long_of_value :: "variant_value \<Rightarrow> 64 word" where
  "long_of_value (LongValue w) = w" | "long_of_value _ = 0"

fun unsigned_long_of_value :: "variant_value \<Rightarrow> 64 word" where
  "unsigned_long_of_value (UnsignedLongValue w) = w" | "unsigned_long_of_value _ = 0"

fun double_of_value :: "variant_value \<Rightarrow> 64 word" where
  "double_of_value (DoubleValue w) = w" | "double_of_value _ = 0"

fun time_of_value :: "variant_value \<Rightarrow> 64 word" where
  "time_of_value (TimeValue w) = w" | "time_of_value _ = 0"

fun string_of_value :: "variant_value \<Rightarrow> byte list option" where
  "string_of_value (StringValue s) = Some s" | "string_of_value _ = None"

lemma load_word:
  "RawBuffer v = word_bytes w @ zs \<Longrightarrow> variant_load v = Some w"
  by (simp add: variant_load_def mem_copy_Some)

lemma get_image:
  "variant_get_data_type (Some (variant_image x)) = value_type x"
  "variant_get_data_size (Some (variant_image x)) = length (value_bytes x)"
  "variant_get_char (Some (variant_image x)) = Some (char_of_value x)"
  "variant_get_unsigned_char (Some (variant_image x)) = Some (unsigned_char_of_value x)"
  "variant_get_bool (Some (variant_image x)) = Some (bool_of_value x)"
  by (cases x; simp add: variant_get_data_type_def variant_get_data_size_def variant_get_char_def
      variant_get_unsigned_char_def variant_get_bool_def)+

lemma get_word_image:
  "variant_get_long (Some (variant_image x)) = Some (long_of_value x)"
  "variant_get_unsigned_long (Some (variant_image x)) = Some (unsigned_long_of_value x)"
  "variant_get_double (Some (variant_image x)) = Some (double_of_value x)"
  "variant_get_time_value (Some (variant_image x)) = Some (time_of_value x)"
  by (cases x; simp add: variant_get_long_def variant_get_unsigned_long_def variant_get_double_def
      variant_get_time_value_def load_word)+

text \<open>The C string at the start of a block: the bytes before the first zero, when there is one.\<close>

lemma get_string_image:
  assumes "value_ok x"
  shows "Option.bind (variant_get_string (Some (variant_image x))) c_string =
         map_option (takeWhile (\<lambda>b. b \<noteq> 0)) (string_of_value x)"
  using assms
  by (cases x) (simp_all add: variant_get_string_def c_string_pad)

text \<open>
  C5: variant assignments refine their values.  Let a variant hold the value \<open>x\<close> and let any sequence of calls of the
  setters be made on it (other variants copied in, strings of any length at least as long as they
  claim).  No call touches memory outside the raw buffer, and afterwards the variant has the type,
  size and content of the last assignment: every getter returns the stored value when its type is
  the stored one and 0, false or NULL otherwise, and a string is the first 255 bytes that were
  given, readable as a C string.
\<close>

theorem variant_assignments:
  assumes "assigned as x y" "value_ok x"
  shows "\<exists>v. variant_run as (Some (variant_image x)) = Some (Some v)
     \<and> length (RawBuffer v) = 256
     \<and> variant_get_data_type (Some v) = value_type y
     \<and> variant_get_data_size (Some v) = length (value_bytes y)
     \<and> variant_get_char (Some v) = Some (char_of_value y)
     \<and> variant_get_unsigned_char (Some v) = Some (unsigned_char_of_value y)
     \<and> variant_get_bool (Some v) = Some (bool_of_value y)
     \<and> variant_get_long (Some v) = Some (long_of_value y)
     \<and> variant_get_unsigned_long (Some v) = Some (unsigned_long_of_value y)
     \<and> variant_get_double (Some v) = Some (double_of_value y)
     \<and> variant_get_time_value (Some v) = Some (time_of_value y)
     \<and> Option.bind (variant_get_string (Some v)) c_string =
         map_option (takeWhile (\<lambda>b. b \<noteq> 0)) (string_of_value y)"
proof -
  note run = variant_run_image [OF assms]
  show ?thesis
    by (rule exI [of _ "variant_image y"])
      (use run in \<open>simp add: get_image get_word_image get_string_image length_image_raw del: image_simps\<close>)
qed

theorem variant_assignments_witness:
  "\<exists>v. variant_run [OpLong 7, OpString (Some [104, 105, 33]) 2, OpVariant (Some (variant_image (BoolValue True))),
        OpString (Some [104, 105, 33]) 2] (Some (variant_image NoValue)) = Some (Some v)
     \<and> variant_get_data_type (Some v) = String
     \<and> variant_get_long (Some v) = Some 0
     \<and> Option.bind (variant_get_string (Some v)) c_string = Some [104, 105]"
proof -
  have "assigned [OpLong 7, OpString (Some [104, 105, 33]) 2, OpVariant (Some (variant_image (BoolValue True))),
        OpString (Some [104, 105, 33]) 2] NoValue (StringValue [104, 105])"
    by (auto simp: exI [of _ "BoolValue True"])
  from variant_assignments [OF this] show ?thesis by auto
qed

text \<open>
  Variant constructors.  When \<open>calloc\<close> succeeds, every allocator returns a variant holding exactly the value
  it was given (a string cut to 255 bytes); when it fails, or for a NULL string, NULL.
\<close>

theorem variant_allocators:
  "variant_allocate_default ok = (if ok then Some (variant_image NoValue) else None) \<and>
   variant_allocate ok p = (if ok then Some (variant_image NoValue) else None) \<and>
   variant_allocate_char ok c = Some (if ok then Some (variant_image (CharValue c)) else None) \<and>
   variant_allocate_unsigned_char ok c = Some (if ok then Some (variant_image (UnsignedCharValue c)) else None) \<and>
   variant_allocate_bool ok b = Some (if ok then Some (variant_image (BoolValue b)) else None) \<and>
   variant_allocate_long ok w = Some (if ok then Some (variant_image (LongValue w)) else None) \<and>
   variant_allocate_unsigned_long ok w = Some (if ok then Some (variant_image (UnsignedLongValue w)) else None) \<and>
   variant_allocate_double ok w = Some (if ok then Some (variant_image (DoubleValue w)) else None) \<and>
   variant_allocate_time_value ok w = Some (if ok then Some (variant_image (TimeValue w)) else None) \<and>
   variant_allocate_string ok None n = Some None \<and>
   variant_allocate_string ok (Some (s @ rest)) (length s) =
     Some (if ok then Some (variant_image (StringValue (take 255 s))) else None)"
proof (cases ok)
  case True
  have "variant_allocate_string True (Some (s @ rest)) (length s) = Some (Some (variant_image (StringValue (take 255 s))))"
    using allocate_string_image [of "length s" "s @ rest"]
    by (simp add: string_value_def string_len_min min_def split: if_splits)
  with True show ?thesis
    by (simp add: allocate_image) (simp add: variant_allocate_string_def)
next
  case False
  then show ?thesis
    by (simp add: variant_allocate_default_def variant_allocate_def variant_allocate_char_def
      variant_allocate_unsigned_char_def variant_allocate_bool_def variant_allocate_long_def
      variant_allocate_unsigned_long_def variant_allocate_double_def variant_allocate_time_value_def
      variant_allocate_string_def)
qed

end
