(* ===== verification/Dictionary.thy ===== *)
theory Dictionary
  imports Interfaces
begin

text \<open>
  The dictionary of \<open>core/src/dictionary.c\<close>: a chain of hash buckets, each with a chain of entries.
  Every node has one owner, the chains are walked from their head and never shared, so a chain of
  \<open>next\<close> pointers is a list.  A \<open>dictionary_t*\<close> is a \<open>dictionary_t option\<close>.  A value is a block the
  dictionary allocated and owns, or a reference to memory of the caller, told apart by \<open>is_value\<close>
  alone; freeing a reference is undefined behaviour in the model.  The n-th \<open>calloc\<close> of a call
  succeeds when \<open>ok n\<close>.

  The theory proves that the dictionary implements a finite map (with the locale \<open>keyed_store\<close>),
  that it owns exactly the blocks it frees, and what it does to its buckets.
\<close>

section \<open>State\<close>

datatype value_ptr = NullValue | Owned "byte list" | Reference addr

record key_value_t =
  key :: "byte list"
  kv_value :: value_ptr
  is_value :: bool
  value_size :: nat
  key_size :: nat

record hash_bucket_t =
  hash :: "64 word"
  key_value_count :: int
  key_value_list :: "key_value_t list"

record dictionary_t =
  hash_count :: int
  hash_bucket :: "hash_bucket_t list"

section \<open>Operations\<close>

definition dictionary_allocate :: "bool \<Rightarrow> dictionary_t option" where
  "dictionary_allocate ok = (if ok then Some \<lparr>hash_count = 0, hash_bucket = []\<rparr> else None)"

text \<open>\<open>free(kv->value)\<close>, and the guarded form of \<open>dictionary_free\<close> and the setters.\<close>

fun free_value :: "value_ptr \<Rightarrow> unit option" where
  "free_value (Reference _) = None"
| "free_value _ = Some ()"

definition release_value :: "key_value_t \<Rightarrow> unit option" where
  "release_value kv = (if is_value kv then free_value (kv_value kv) else Some ())"

fun dictionary_free_entries :: "key_value_t list \<Rightarrow> unit option" where
  "dictionary_free_entries [] = Some ()"
| "dictionary_free_entries (kv # kvs) = do { release_value kv; dictionary_free_entries kvs }"

fun dictionary_free_buckets :: "hash_bucket_t list \<Rightarrow> unit option" where
  "dictionary_free_buckets [] = Some ()"
| "dictionary_free_buckets (b # bs) =
     do { dictionary_free_entries (key_value_list b); dictionary_free_buckets bs }"

definition dictionary_free :: "dictionary_t option \<Rightarrow> unit option" where
  "dictionary_free dict =
     (case dict of None \<Rightarrow> Some () | Some d \<Rightarrow> dictionary_free_buckets (hash_bucket d))"

text \<open>
  The hash loop.  A \<open>char\<close> is signed: \<open>(unsigned)key_buffer[index]\<close> extends the sign to 32 bits, and
  the addition to \<open>hash\<close> widens the result to 64 bits with zeroes.
\<close>

definition key_char :: "byte \<Rightarrow> 64 word" where
  "key_char b = ucast (scast b :: 32 word)"

definition hash_round :: "64 word \<Rightarrow> byte \<Rightarrow> 64 word" where
  "hash_round h b =
     (let h1 = h + key_char b; h2 = h1 + push_bit 10 h1 in h2 XOR drop_bit 6 h2)"

function dictionary_hash_loop :: "byte list \<Rightarrow> nat \<Rightarrow> nat \<Rightarrow> 64 word \<Rightarrow> 64 word option" where
  "dictionary_hash_loop ky n index h =
     (if index < n
      then do { b \<leftarrow> mem_read ky index; dictionary_hash_loop ky n (index + 1) (hash_round h b) }
      else Some h)"
  by pat_completeness auto
termination by (relation "measure (\<lambda>(ky, n, index, h). n - index)") auto

declare dictionary_hash_loop.simps [simp del]

definition hash_final :: "64 word \<Rightarrow> 64 word" where
  "hash_final h =
     (let h1 = h + push_bit 3 h; h2 = h1 XOR drop_bit 11 h1 in h2 + push_bit 15 h2)"

definition dictionary_internal_get_hash :: "byte list option \<Rightarrow> nat \<Rightarrow> 64 word option" where
  "dictionary_internal_get_hash ky n =
     (case ky of None \<Rightarrow> Some 0
      | Some k \<Rightarrow> do { h \<leftarrow> dictionary_hash_loop k n 0 0; Some (hash_final h) })"

definition dictionary_internal_add_hash_bucket ::
  "bool \<Rightarrow> dictionary_t \<Rightarrow> byte list \<Rightarrow> nat \<Rightarrow> dictionary_t option" where
  "dictionary_internal_add_hash_bucket ok d ky n =
     (if \<not> ok then None
      else do {
        h \<leftarrow> dictionary_internal_get_hash (Some ky) n;
        Some (d\<lparr>hash_bucket := hash_bucket d @ [\<lparr>hash = h, key_value_count = 0, key_value_list = []\<rparr>],
                hash_count := hash_count d + 1\<rparr>) })"

text \<open>Appends the entry \<open>new_kv\<close> to the first bucket of hash \<open>h\<close>, if there is one.\<close>

fun add_to_bucket :: "64 word \<Rightarrow> key_value_t \<Rightarrow> hash_bucket_t list \<Rightarrow> hash_bucket_t list" where
  "add_to_bucket h new_kv [] = []"
| "add_to_bucket h new_kv (b # bs) =
     (if hash b = h
      then b\<lparr>key_value_list := key_value_list b @ [new_kv], key_value_count := key_value_count b + 1\<rparr> # bs
      else b # add_to_bucket h new_kv bs)"

text \<open>
  \<open>ok\<close> answers the three allocations: the entry, its key and its value.  None of them is checked, and
  they are made only when a bucket of the hash is found.
\<close>

definition dictionary_internal_add_key_value ::
  "(nat \<Rightarrow> bool) \<Rightarrow> dictionary_t \<Rightarrow> 64 word \<Rightarrow> byte list \<Rightarrow> nat \<Rightarrow> byte list \<Rightarrow> nat \<Rightarrow> dictionary_t option" where
  "dictionary_internal_add_key_value ok d h ky n val m =
     (if list_all (\<lambda>b. hash b \<noteq> h) (hash_bucket d) then Some d
      else if \<not> ok 0 \<or> \<not> ok 1 then None
      else do {
        k \<leftarrow> mem_copy (replicate n 0) 0 ky 0 n;
        if \<not> ok 2 then None
        else do {
          v \<leftarrow> mem_copy (replicate m 0) 0 val 0 m;
          Some (d\<lparr>hash_bucket := add_to_bucket h
                   \<lparr>key = k, kv_value = Owned v, is_value = True, value_size = m, key_size = n\<rparr>
                   (hash_bucket d)\<rparr>) } })"

definition dictionary_internal_add_key_reference ::
  "(nat \<Rightarrow> bool) \<Rightarrow> dictionary_t \<Rightarrow> 64 word \<Rightarrow> byte list \<Rightarrow> nat \<Rightarrow> addr \<Rightarrow> dictionary_t option" where
  "dictionary_internal_add_key_reference ok d h ky n ref =
     (if list_all (\<lambda>b. hash b \<noteq> h) (hash_bucket d) then Some d
      else if \<not> ok 0 \<or> \<not> ok 1 then None
      else do {
        k \<leftarrow> mem_copy (replicate n 0) 0 ky 0 n;
        Some (d\<lparr>hash_bucket := add_to_bucket h
                 \<lparr>key = k, kv_value = Reference ref, is_value = False, value_size = 0, key_size = n\<rparr>
                 (hash_bucket d)\<rparr>) })"

text \<open>\<open>current_kv->key_size == key_size && memcmp(current_kv->key, key, key_size) == 0\<close>.\<close>

definition key_matches :: "key_value_t \<Rightarrow> byte list \<Rightarrow> nat \<Rightarrow> bool option" where
  "key_matches kv ky n =
     (if key_size kv = n then do { c \<leftarrow> mem_cmp (key kv) ky n; Some (c = 0) } else Some False)"

text \<open>
  The double loop all three accessors share: the first entry with the key is replaced by \<open>f\<close> of it.
  \<open>Some None\<close> means that no entry matched.
\<close>

fun update_entries ::
  "(key_value_t \<Rightarrow> key_value_t option) \<Rightarrow> byte list \<Rightarrow> nat \<Rightarrow> key_value_t list \<Rightarrow> key_value_t list option option" where
  "update_entries f ky n [] = Some None"
| "update_entries f ky n (kv # kvs) = do {
     found \<leftarrow> key_matches kv ky n;
     if found then do { kv' \<leftarrow> f kv; Some (Some (kv' # kvs)) }
     else do { r \<leftarrow> update_entries f ky n kvs; Some (map_option (Cons kv) r) } }"

fun update_buckets ::
  "(key_value_t \<Rightarrow> key_value_t option) \<Rightarrow> byte list \<Rightarrow> nat \<Rightarrow> hash_bucket_t list \<Rightarrow> hash_bucket_t list option option" where
  "update_buckets f ky n [] = Some None"
| "update_buckets f ky n (b # bs) = do {
     r \<leftarrow> update_entries f ky n (key_value_list b);
     case r of
       Some kvs \<Rightarrow> Some (Some (b\<lparr>key_value_list := kvs\<rparr> # bs))
     | None \<Rightarrow> do { r' \<leftarrow> update_buckets f ky n bs; Some (map_option (Cons b) r') } }"

definition replace_value :: "bool \<Rightarrow> byte list \<Rightarrow> nat \<Rightarrow> key_value_t \<Rightarrow> key_value_t option" where
  "replace_value ok val m kv = do {
     release_value kv;
     if \<not> ok then Some (kv\<lparr>kv_value := NullValue, is_value := False, value_size := 0\<rparr>)
     else do {
       v \<leftarrow> mem_copy (replicate m 0) 0 val 0 m;
       Some (kv\<lparr>kv_value := Owned v, is_value := True, value_size := m\<rparr>) } }"

definition replace_reference :: "addr \<Rightarrow> key_value_t \<Rightarrow> key_value_t option" where
  "replace_reference ref kv = do {
     release_value kv;
     Some (kv\<lparr>kv_value := Reference ref, is_value := False, value_size := 0\<rparr>) }"

definition dictionary_set_value ::
  "(nat \<Rightarrow> bool) \<Rightarrow> dictionary_t option \<Rightarrow> byte list option \<Rightarrow> nat \<Rightarrow> byte list option \<Rightarrow> nat \<Rightarrow> dictionary_t option option" where
  "dictionary_set_value ok dict ky n val m =
     (case (dict, ky, val) of
        (Some d, Some k, Some v) \<Rightarrow>
          if n = 0 \<or> m = 0 then Some dict
          else do {
            r \<leftarrow> update_buckets (replace_value (ok 0) v m) k n (hash_bucket d);
            case r of
              Some bs \<Rightarrow> Some (Some (d\<lparr>hash_bucket := bs\<rparr>))
            | None \<Rightarrow> do {
                h \<leftarrow> dictionary_internal_get_hash ky n;
                d1 \<leftarrow> dictionary_internal_add_hash_bucket (ok 0) d k n;
                d2 \<leftarrow> dictionary_internal_add_key_value (\<lambda>i. ok (i + 1)) d1 h k n v m;
                Some (Some d2) } }
      | _ \<Rightarrow> Some dict)"

text \<open>A reference is an address; the address 0 is NULL.\<close>

definition dictionary_set_reference ::
  "(nat \<Rightarrow> bool) \<Rightarrow> dictionary_t option \<Rightarrow> byte list option \<Rightarrow> nat \<Rightarrow> addr \<Rightarrow> dictionary_t option option" where
  "dictionary_set_reference ok dict ky n ref =
     (case (dict, ky) of
        (Some d, Some k) \<Rightarrow>
          if n = 0 \<or> ref = 0 then Some dict
          else do {
            r \<leftarrow> update_buckets (replace_reference ref) k n (hash_bucket d);
            case r of
              Some bs \<Rightarrow> Some (Some (d\<lparr>hash_bucket := bs\<rparr>))
            | None \<Rightarrow> do {
                h \<leftarrow> dictionary_internal_get_hash ky n;
                d1 \<leftarrow> dictionary_internal_add_hash_bucket (ok 0) d k n;
                d2 \<leftarrow> dictionary_internal_add_key_reference (\<lambda>i. ok (i + 1)) d1 h k n ref;
                Some (Some d2) } }
      | _ \<Rightarrow> Some dict)"

fun find_entry :: "byte list \<Rightarrow> nat \<Rightarrow> key_value_t list \<Rightarrow> key_value_t option option" where
  "find_entry ky n [] = Some None"
| "find_entry ky n (kv # kvs) = do {
     found \<leftarrow> key_matches kv ky n;
     if found then Some (Some kv) else find_entry ky n kvs }"

fun find_in_buckets :: "byte list \<Rightarrow> nat \<Rightarrow> hash_bucket_t list \<Rightarrow> key_value_t option option" where
  "find_in_buckets ky n [] = Some None"
| "find_in_buckets ky n (b # bs) = do {
     r \<leftarrow> find_entry ky n (key_value_list b);
     if r = None then find_in_buckets ky n bs else Some r }"

definition dictionary_get_value ::
  "dictionary_t option \<Rightarrow> byte list option \<Rightarrow> nat \<Rightarrow> value_ptr option" where
  "dictionary_get_value dict ky n =
     (case (dict, ky) of
        (Some d, Some k) \<Rightarrow>
          if n = 0 then Some NullValue
          else do {
            r \<leftarrow> find_in_buckets k n (hash_bucket d);
            Some (case r of None \<Rightarrow> NullValue | Some kv \<Rightarrow> kv_value kv) }
      | _ \<Rightarrow> Some NullValue)"

text \<open>
  \<open>dictionary_get_all_keys\<close>: \<open>ok 0\<close> answers the table, \<open>ok (i + 1)\<close> the copy of the i-th key; neither is
  checked.  A cell of the table is a \<open>char*\<close>.
\<close>

definition total_keys :: "dictionary_t \<Rightarrow> int" where
  "total_keys d = fold (\<lambda>b n. n + key_value_count b) (hash_bucket d) 0"

fun copy_keys ::
  "(nat \<Rightarrow> bool) \<Rightarrow> key_value_t list \<Rightarrow> byte list option list option \<Rightarrow> nat \<Rightarrow> (byte list option list option \<times> nat) option" where
  "copy_keys ok [] buffer index = Some (buffer, index)"
| "copy_keys ok (kv # kvs) buffer index =
     (case buffer of
        None \<Rightarrow> None
      | Some cells \<Rightarrow>
          if \<not> ok (index + 1) then None
          else do {
            s \<leftarrow> mem_copy (replicate (key_size kv + 1) 0) 0 (key kv) 0 (key_size kv);
            cells' \<leftarrow> mem_write cells index (Some s);
            copy_keys ok kvs (Some cells') (index + 1) })"

fun copy_bucket_keys ::
  "(nat \<Rightarrow> bool) \<Rightarrow> hash_bucket_t list \<Rightarrow> byte list option list option \<Rightarrow> nat \<Rightarrow> (byte list option list option \<times> nat) option" where
  "copy_bucket_keys ok [] buffer index = Some (buffer, index)"
| "copy_bucket_keys ok (b # bs) buffer index = do {
     (buffer', index') \<leftarrow> copy_keys ok (key_value_list b) buffer index;
     copy_bucket_keys ok bs buffer' index' }"

definition dictionary_get_all_keys ::
  "(nat \<Rightarrow> bool) \<Rightarrow> dictionary_t option \<Rightarrow> byte list option list option option" where
  "dictionary_get_all_keys ok dict =
     (case dict of
        None \<Rightarrow> Some None
      | Some d \<Rightarrow> do {
          let buffer = (if ok 0 then Some (replicate (nat (total_keys d + 1)) None) else None);
          (buffer', index) \<leftarrow> copy_bucket_keys ok (hash_bucket d) buffer 0;
          Some buffer' })"

text \<open>\<open>dictionary_free_key_list\<close>: the number of key copies it frees before the NULL cell.\<close>

function free_key_cells :: "byte list option list \<Rightarrow> nat \<Rightarrow> nat option" where
  "free_key_cells cells index =
     (if index < length cells
      then (if cells ! index = None then Some index else free_key_cells cells (index + 1))
      else None)"
  by pat_completeness auto
termination by (relation "measure (\<lambda>(cells, index). length cells - index)") auto

declare free_key_cells.simps [simp del]

definition dictionary_free_key_list ::
  "dictionary_t option \<Rightarrow> byte list option list option \<Rightarrow> nat option" where
  "dictionary_free_key_list dict key_list =
     (case (dict, key_list) of
        (Some d, Some cells) \<Rightarrow> free_key_cells cells 0
      | _ \<Rightarrow> Some 0)"

section \<open>Invariant and abstraction\<close>

text \<open>The hash of a whole key.\<close>

definition key_hash :: "byte list \<Rightarrow> 64 word" where
  "key_hash ky = hash_final (fold (\<lambda>b h. hash_round h b) ky 0)"

text \<open>\<open>is_value\<close> says who owns the value.\<close>

definition entry_ok :: "key_value_t \<Rightarrow> bool" where
  "entry_ok kv =
     (length (key kv) = key_size kv \<and> 0 < key_size kv \<and>
      (case kv_value kv of
         Owned v \<Rightarrow> is_value kv \<and> value_size kv = length v
       | _ \<Rightarrow> \<not> is_value kv \<and> value_size kv = 0))"

definition bucket_ok :: "hash_bucket_t \<Rightarrow> bool" where
  "bucket_ok b =
     (key_value_count b = int (length (key_value_list b)) \<and>
      (\<forall>kv\<in>set (key_value_list b). entry_ok kv \<and> key_hash (key kv) = hash b))"

definition bucket_entries :: "hash_bucket_t list \<Rightarrow> key_value_t list" where
  "bucket_entries bs = concat (map key_value_list bs)"

definition dict_entries :: "dictionary_t \<Rightarrow> key_value_t list" where
  "dict_entries d = bucket_entries (hash_bucket d)"

definition dict_wf :: "dictionary_t \<Rightarrow> bool" where
  "dict_wf d =
     ((\<forall>b\<in>set (hash_bucket d). bucket_ok b) \<and>
      distinct (map key (dict_entries d)) \<and>
      hash_count d = int (length (hash_bucket d)) \<and>
      length (hash_bucket d) = length (dict_entries d))"

text \<open>The map a dictionary stands for.\<close>

definition entry_map :: "key_value_t list \<Rightarrow> byte list \<rightharpoonup> value_ptr" where
  "entry_map kvs = map_of (map (\<lambda>kv. (key kv, kv_value kv)) kvs)"

definition dict_map :: "dictionary_t \<Rightarrow> byte list \<rightharpoonup> value_ptr" where
  "dict_map d = entry_map (dict_entries d)"

lemma bucket_entries_simps [simp]:
  "bucket_entries [] = []"
  "bucket_entries (b # bs) = key_value_list b @ bucket_entries bs"
  "bucket_entries (bs @ cs) = bucket_entries bs @ bucket_entries cs"
  by (simp_all add: bucket_entries_def)

lemma entry_map_simps [simp]:
  "entry_map [] = Map.empty"
  "entry_map (kv # kvs) = (entry_map kvs)(key kv \<mapsto> kv_value kv)"
  by (simp_all add: entry_map_def)

lemma dom_entry_map: "dom (entry_map kvs) = key ` set kvs"
  by (simp add: entry_map_def dom_map_of_conv_image_fst image_image)

lemma entry_map_insert:
  "key x \<notin> key ` set xs \<Longrightarrow> entry_map (xs @ x # ys) = (entry_map (xs @ ys))(key x \<mapsto> kv_value x)"
  by (induction xs) (auto simp: fun_upd_twist)

lemma entry_map_none: "entry_map kvs k = None \<longleftrightarrow> k \<notin> key ` set kvs"
  by (induction kvs) auto

lemma bucket_entries_ok:
  "\<forall>b\<in>set bs. bucket_ok b \<Longrightarrow> kv \<in> set (bucket_entries bs) \<Longrightarrow> entry_ok kv"
  by (induction bs) (auto simp: bucket_ok_def)

section \<open>The loops\<close>

lemma hash_loop:
  assumes "n \<le> length ky" "index \<le> n"
  shows "dictionary_hash_loop ky n index h =
         Some (fold (\<lambda>b h. hash_round h b) (drop index (take n ky)) h)"
  using assms
proof (induction "n - index" arbitrary: index h)
  case 0
  then show ?case by (subst dictionary_hash_loop.simps) simp
next
  case (Suc d)
  then have "index < n" "index < length ky" by auto
  then have "drop index (take n ky) = ky ! index # drop (index + 1) (take n ky)"
    by (metis Cons_nth_drop_Suc Suc_eq_plus1 length_take min_less_iff_conj nth_take)
  with \<open>index < n\<close> \<open>index < length ky\<close> Suc.hyps(1) [of "index + 1"] Suc.hyps(2) Suc.prems show ?case
    by (subst dictionary_hash_loop.simps) simp
qed

lemma get_hash: "n \<le> length ky \<Longrightarrow> dictionary_internal_get_hash (Some ky) n = Some (key_hash (take n ky))"
  by (simp add: dictionary_internal_get_hash_def hash_loop key_hash_def)

lemma key_matches:
  "entry_ok kv \<Longrightarrow> n \<le> length ky \<Longrightarrow> key_matches kv ky n = Some (key kv = take n ky)"
  by (auto simp: key_matches_def entry_ok_def bytes_cmp_eq_0)

lemma find_entry:
  "\<forall>kv\<in>set kvs. entry_ok kv \<Longrightarrow> n \<le> length ky \<Longrightarrow>
   find_entry ky n kvs = Some (List.find (\<lambda>kv. key kv = take n ky) kvs)"
  by (induction kvs) (auto simp: key_matches)

lemma find_append: "List.find P (xs @ ys) = (case List.find P xs of None \<Rightarrow> List.find P ys | r \<Rightarrow> r)"
  by (induction xs) auto

lemma find_in_buckets:
  "\<forall>b\<in>set bs. bucket_ok b \<Longrightarrow> n \<le> length ky \<Longrightarrow>
   find_in_buckets ky n bs = Some (List.find (\<lambda>kv. key kv = take n ky) (bucket_entries bs))"
  by (induction bs) (auto simp: find_entry bucket_ok_def find_append split: option.splits)

lemma find_entry_map:
  "map_option kv_value (List.find (\<lambda>kv. key kv = k) kvs) = entry_map kvs k"
  by (induction kvs) auto

text \<open>What a setter does to the entry it found.\<close>

definition rewrite :: "byte list \<Rightarrow> (key_value_t \<Rightarrow> key_value_t) \<Rightarrow> key_value_t \<Rightarrow> key_value_t" where
  "rewrite k g kv = (if key kv = k then g kv else kv)"

lemma rewrite_id: "k \<notin> key ` set kvs \<Longrightarrow> map (rewrite k g) kvs = kvs"
  by (induction kvs) (auto simp: rewrite_def)

lemma update_entries:
  assumes "\<forall>kv\<in>set kvs. entry_ok kv" "n \<le> length ky" "distinct (map key kvs)"
    and "\<And>kv. entry_ok kv \<Longrightarrow> f kv = Some (g kv)"
  shows "update_entries f ky n kvs =
     Some (if take n ky \<in> key ` set kvs then Some (map (rewrite (take n ky) g) kvs) else None)"
  using assms by (induction kvs) (auto simp: key_matches rewrite_id rewrite_def)

definition rewrite_buckets :: "byte list \<Rightarrow> (key_value_t \<Rightarrow> key_value_t) \<Rightarrow> hash_bucket_t list \<Rightarrow> hash_bucket_t list" where
  "rewrite_buckets k g bs = map (\<lambda>b. b\<lparr>key_value_list := map (rewrite k g) (key_value_list b)\<rparr>) bs"

lemma rewrite_buckets_simps [simp]:
  "rewrite_buckets k g [] = []"
  "rewrite_buckets k g (b # bs) =
     b\<lparr>key_value_list := map (rewrite k g) (key_value_list b)\<rparr> # rewrite_buckets k g bs"
  "length (rewrite_buckets k g bs) = length bs"
  by (simp_all add: rewrite_buckets_def)

lemma rewrite_buckets_id: "k \<notin> key ` set (bucket_entries bs) \<Longrightarrow> rewrite_buckets k g bs = bs"
  by (induction bs) (simp_all add: rewrite_id image_Un)

lemma rewrite_buckets_entries: "bucket_entries (rewrite_buckets k g bs) = map (rewrite k g) (bucket_entries bs)"
  by (induction bs) auto

lemma update_buckets:
  assumes "\<forall>b\<in>set bs. bucket_ok b" "n \<le> length ky" "distinct (map key (bucket_entries bs))"
    and "\<And>kv. entry_ok kv \<Longrightarrow> f kv = Some (g kv)"
  shows "update_buckets f ky n bs =
     Some (if take n ky \<in> key ` set (bucket_entries bs)
           then Some (rewrite_buckets (take n ky) g bs) else None)"
  using assms
proof (induction bs)
  case (Cons b bs)
  then have "update_entries f ky n (key_value_list b) =
     Some (if take n ky \<in> key ` set (key_value_list b)
           then Some (map (rewrite (take n ky) g) (key_value_list b)) else None)"
    by (intro update_entries) (auto simp: bucket_ok_def)
  moreover have "rewrite_buckets (take n ky) g bs = bs"
    if "take n ky \<in> key ` set (key_value_list b)"
    using that Cons.prems(3) by (intro rewrite_buckets_id) auto
  moreover have "map (rewrite (take n ky) g) (key_value_list b) = key_value_list b"
    if "take n ky \<notin> key ` set (key_value_list b)"
    using that by (rule rewrite_id)
  ultimately show ?case using Cons by (auto simp: rewrite_id)
qed simp

text \<open>Rewriting the value under an existing key.\<close>

lemma rewrite_wf:
  assumes "dict_wf d" "\<And>kv. entry_ok kv \<Longrightarrow> entry_ok (g kv)" "\<And>kv. key (g kv) = key kv"
  shows "dict_wf (d\<lparr>hash_bucket := rewrite_buckets k g (hash_bucket d)\<rparr>)"
proof -
  have "key (rewrite k g kv) = key kv" for kv by (simp add: rewrite_def assms(3))
  then have keys: "map key (map (rewrite k g) kvs) = map key kvs" for kvs by simp
  have "\<forall>b\<in>set (rewrite_buckets k g (hash_bucket d)). bucket_ok b"
    using assms by (auto simp: rewrite_buckets_def bucket_ok_def rewrite_def dict_wf_def)
  with assms(1) keys show ?thesis
    by (simp add: dict_wf_def dict_entries_def rewrite_buckets_entries del: map_map)
qed

lemma entry_map_rewrite:
  assumes "distinct (map key kvs)" "k \<in> key ` set kvs" "\<And>kv. key (g kv) = key kv" "\<And>kv. kv_value (g kv) = v"
  shows "entry_map (map (rewrite k g) kvs) = (entry_map kvs)(k \<mapsto> v)"
  using assms(1,2)
proof (induction kvs)
  case (Cons kv kvs)
  then show ?case
    by (cases "key kv = k") (auto simp: rewrite_id rewrite_def [of _ _ kv] assms(3,4) fun_upd_twist)
qed simp

section \<open>The operations on the map\<close>

lemma release_Some: "entry_ok kv \<Longrightarrow> release_value kv = Some ()"
  by (auto simp: release_value_def entry_ok_def split: value_ptr.splits)

lemma block_copy: "m \<le> length src \<Longrightarrow> mem_copy (replicate m (0 :: byte)) 0 src 0 m = Some (take m src)"
  by (simp add: mem_copy_Some)

lemma free_entries: "\<forall>kv\<in>set kvs. entry_ok kv \<Longrightarrow> dictionary_free_entries kvs = Some ()"
  by (induction kvs) (simp_all add: release_Some)

lemma free_buckets: "\<forall>b\<in>set bs. bucket_ok b \<Longrightarrow> dictionary_free_buckets bs = Some ()"
  by (induction bs) (simp_all add: free_entries bucket_ok_def)

lemma get_value:
  assumes "dict_wf d" "0 < n" "n \<le> length ky"
  shows "dictionary_get_value (Some d) (Some ky) n =
         Some (case dict_map d (take n ky) of None \<Rightarrow> NullValue | Some v \<Rightarrow> v)"
  using assms
  by (simp add: dictionary_get_value_def dict_wf_def find_in_buckets dict_map_def dict_entries_def
      flip: find_entry_map split: option.split)

lemma add_to_bucket_split:
  "h \<in> hash ` set bs \<Longrightarrow> \<exists>bs1 b bs2. bs = bs1 @ b # bs2 \<and> hash b = h \<and> h \<notin> hash ` set bs1 \<and>
     add_to_bucket h kv bs =
       bs1 @ b\<lparr>key_value_list := key_value_list b @ [kv], key_value_count := key_value_count b + 1\<rparr> # bs2"
proof (induction bs)
  case (Cons b bs)
  show ?case
  proof (cases "hash b = h")
    case True
    then show ?thesis by (intro exI [of _ "[]"]) auto
  next
    case False
    with Cons obtain bs1 c bs2 where "bs = bs1 @ c # bs2" "hash c = h" "h \<notin> hash ` set bs1"
      "add_to_bucket h kv bs =
         bs1 @ c\<lparr>key_value_list := key_value_list c @ [kv], key_value_count := key_value_count c + 1\<rparr> # bs2"
      by auto
    with False show ?thesis by (intro exI [of _ "b # bs1"] exI [of _ c] exI [of _ bs2]) auto
  qed
qed simp

text \<open>A new entry: a bucket appended, the entry put into the first bucket of its hash.\<close>

lemma insert_wf:
  assumes d: "dict_wf d" and kv: "entry_ok kv" and fresh: "key kv \<notin> key ` set (dict_entries d)"
    and e: "e = d\<lparr>hash_count := hash_count d + 1,
      hash_bucket := add_to_bucket (key_hash (key kv)) kv
        (hash_bucket d @ [\<lparr>hash = key_hash (key kv), key_value_count = 0, key_value_list = []\<rparr>])\<rparr>"
  shows "dict_wf e" "dict_map e = (dict_map d)(key kv \<mapsto> kv_value kv)"
proof -
  let ?h = "key_hash (key kv)"
  let ?bs = "hash_bucket d @ [\<lparr>hash = ?h, key_value_count = 0, key_value_list = []\<rparr>]"
  have ok: "\<forall>b\<in>set ?bs. bucket_ok b" using d by (auto simp: dict_wf_def bucket_ok_def)
  have ent: "bucket_entries ?bs = dict_entries d" by (simp add: dict_entries_def)
  obtain bs1 b bs2 where s: "?bs = bs1 @ b # bs2" "hash b = ?h"
    "add_to_bucket ?h kv ?bs =
       bs1 @ b\<lparr>key_value_list := key_value_list b @ [kv], key_value_count := key_value_count b + 1\<rparr> # bs2"
    using add_to_bucket_split [of ?h ?bs kv] by auto
  have e': "hash_bucket e =
       bs1 @ b\<lparr>key_value_list := key_value_list b @ [kv], key_value_count := key_value_count b + 1\<rparr> # bs2"
    using e s(3) by simp
  have old: "dict_entries d = (bucket_entries bs1 @ key_value_list b) @ bucket_entries bs2"
    using ent s(1) by simp
  have new: "dict_entries e = (bucket_entries bs1 @ key_value_list b) @ kv # bucket_entries bs2"
    using e' by (simp add: dict_entries_def)
  have len: "length ?bs = length (hash_bucket e)" using e' s(1) by simp
  have "\<forall>b\<in>set (hash_bucket e). bucket_ok b"
    using ok kv s(1,2) e' by (auto simp: bucket_ok_def)
  with d fresh old new len show "dict_wf e"
    by (auto simp: dict_wf_def e)
  show "dict_map e = (dict_map d)(key kv \<mapsto> kv_value kv)"
    using fresh old new entry_map_insert [of kv "bucket_entries bs1 @ key_value_list b" "bucket_entries bs2"]
    by (auto simp: dict_map_def)
qed

lemma replace_value_Some:
  assumes "entry_ok kv" "m \<le> length val"
  shows "replace_value ok val m kv =
    Some (if ok then kv\<lparr>kv_value := Owned (take m val), is_value := True, value_size := m\<rparr>
          else kv\<lparr>kv_value := NullValue, is_value := False, value_size := 0\<rparr>)"
  using assms by (simp add: replace_value_def release_Some block_copy)

lemma replace_reference_Some:
  "entry_ok kv \<Longrightarrow> replace_reference ref kv =
    Some (kv\<lparr>kv_value := Reference ref, is_value := False, value_size := 0\<rparr>)"
  by (simp add: replace_reference_def release_Some)

lemma add_bucket_Some:
  "n \<le> length ky \<Longrightarrow> dictionary_internal_add_hash_bucket True d ky n =
    Some (d\<lparr>hash_bucket := hash_bucket d @
              [\<lparr>hash = key_hash (take n ky), key_value_count = 0, key_value_list = []\<rparr>],
            hash_count := hash_count d + 1\<rparr>)"
  by (simp add: dictionary_internal_add_hash_bucket_def get_hash)

text \<open>The value a setter stores: NULL when replacing an existing value and \<open>calloc\<close> fails.\<close>

lemma set_existing:
  assumes d: "dict_wf d" and n: "0 < n" "n \<le> length ky" and k: "take n ky \<in> dom (dict_map d)"
  shows "0 < m \<Longrightarrow> m \<le> length val \<Longrightarrow>
      \<exists>d'. dictionary_set_value ok (Some d) (Some ky) n (Some val) m = Some (Some d') \<and> dict_wf d' \<and>
        hash_count d' = hash_count d \<and>
        dict_map d' = (dict_map d)(take n ky \<mapsto> if ok 0 then Owned (take m val) else NullValue)"
    and "ref \<noteq> 0 \<Longrightarrow>
      \<exists>d'. dictionary_set_reference ok (Some d) (Some ky) n ref = Some (Some d') \<and> dict_wf d' \<and>
        hash_count d' = hash_count d \<and> dict_map d' = (dict_map d)(take n ky \<mapsto> Reference ref)"
proof -
  let ?k = "take n ky"
  have wf: "\<forall>b\<in>set (hash_bucket d). bucket_ok b" "distinct (map key (dict_entries d))"
    using d by (auto simp: dict_wf_def)
  have mem: "?k \<in> key ` set (dict_entries d)" using k by (simp add: dict_map_def dom_entry_map)
  have main: "update_buckets f ky n (hash_bucket d) = Some (Some (rewrite_buckets ?k g (hash_bucket d))) \<and>
      dict_wf (d\<lparr>hash_bucket := rewrite_buckets ?k g (hash_bucket d)\<rparr>) \<and>
      dict_map (d\<lparr>hash_bucket := rewrite_buckets ?k g (hash_bucket d)\<rparr>) = (dict_map d)(?k \<mapsto> v)"
    if "\<And>kv. entry_ok kv \<Longrightarrow> f kv = Some (g kv)" "\<And>kv. entry_ok kv \<Longrightarrow> entry_ok (g kv)"
      "\<And>kv. key (g kv) = key kv" "\<And>kv. kv_value (g kv) = v" for f g v
    using update_buckets [of "hash_bucket d" n ky f g] wf n mem that rewrite_wf [OF d, of g ?k]
      entry_map_rewrite [of "dict_entries d" ?k g v]
    by (simp add: dict_entries_def dict_map_def rewrite_buckets_entries)
  {
    assume m: "0 < m" "m \<le> length val"
    let ?g = "\<lambda>kv. if ok 0 then kv\<lparr>kv_value := Owned (take m val), is_value := True, value_size := m\<rparr>
          else kv\<lparr>kv_value := NullValue, is_value := False, value_size := 0\<rparr>"
    show "\<exists>d'. dictionary_set_value ok (Some d) (Some ky) n (Some val) m = Some (Some d') \<and> dict_wf d' \<and>
        hash_count d' = hash_count d \<and>
        dict_map d' = (dict_map d)(?k \<mapsto> if ok 0 then Owned (take m val) else NullValue)"
      using main [of "replace_value (ok 0) val m" ?g "if ok 0 then Owned (take m val) else NullValue"] m n
      by (simp add: dictionary_set_value_def replace_value_Some entry_ok_def)
  }
  {
    assume "ref \<noteq> 0"
    then show "\<exists>d'. dictionary_set_reference ok (Some d) (Some ky) n ref = Some (Some d') \<and> dict_wf d' \<and>
        hash_count d' = hash_count d \<and> dict_map d' = (dict_map d)(?k \<mapsto> Reference ref)"
      using main [of "replace_reference ref"
          "\<lambda>kv. kv\<lparr>kv_value := Reference ref, is_value := False, value_size := 0\<rparr>" "Reference ref"] n
      by (simp add: dictionary_set_reference_def replace_reference_Some entry_ok_def)
  }
qed

lemma set_new:
  assumes d: "dict_wf d" and n: "0 < n" "n \<le> length ky" and k: "take n ky \<notin> dom (dict_map d)"
    and ok: "\<forall>i<4. ok i"
  shows "0 < m \<Longrightarrow> m \<le> length val \<Longrightarrow>
      \<exists>d'. dictionary_set_value ok (Some d) (Some ky) n (Some val) m = Some (Some d') \<and> dict_wf d' \<and>
        hash_count d' = hash_count d + 1 \<and>
        dict_map d' = (dict_map d)(take n ky \<mapsto> Owned (take m val))"
    and "ref \<noteq> 0 \<Longrightarrow>
      \<exists>d'. dictionary_set_reference ok (Some d) (Some ky) n ref = Some (Some d') \<and> dict_wf d' \<and>
        hash_count d' = hash_count d + 1 \<and> dict_map d' = (dict_map d)(take n ky \<mapsto> Reference ref)"
proof -
  let ?k = "take n ky"
  have fresh: "?k \<notin> key ` set (dict_entries d)" using k by (simp add: dict_map_def dom_entry_map)
  have len: "length ?k = n" using n by simp
  have none: "update_buckets f ky n (hash_bucket d) = Some None"
    if "\<And>kv. entry_ok kv \<Longrightarrow> f kv = Some (g kv)" for f g
    using update_buckets [of "hash_bucket d" n ky f g] d n fresh that
    by (simp add: dict_wf_def dict_entries_def)
  have ok': "ok 0" "ok (Suc 0)" "ok 2" "ok 3" "ok (Suc 2)" "ok (Suc (Suc 0))" "ok (Suc (Suc (Suc 0)))"
    using ok by (simp_all add: numeral_eq_Suc)
  {
    assume m: "0 < m" "m \<le> length val"
    let ?kv = "\<lparr>key = ?k, kv_value = Owned (take m val), is_value = True, value_size = m, key_size = n\<rparr>"
    have "entry_ok ?kv" using m n by (simp add: entry_ok_def)
    from insert_wf [OF d this] fresh
    show "\<exists>d'. dictionary_set_value ok (Some d) (Some ky) n (Some val) m = Some (Some d') \<and> dict_wf d' \<and>
        hash_count d' = hash_count d + 1 \<and> dict_map d' = (dict_map d)(?k \<mapsto> Owned (take m val))"
      using m n none [OF replace_value_Some, OF _ m(2)]
      by (simp add: dictionary_set_value_def get_hash add_bucket_Some ok'
          dictionary_internal_add_key_value_def block_copy)
  }
  {
    assume ref: "ref \<noteq> 0"
    let ?kv = "\<lparr>key = ?k, kv_value = Reference ref, is_value = False, value_size = 0, key_size = n\<rparr>"
    have "entry_ok ?kv" using n by (simp add: entry_ok_def)
    from insert_wf [OF d this] fresh
    show "\<exists>d'. dictionary_set_reference ok (Some d) (Some ky) n ref = Some (Some d') \<and> dict_wf d' \<and>
        hash_count d' = hash_count d + 1 \<and> dict_map d' = (dict_map d)(?k \<mapsto> Reference ref)"
      using ref n none [OF replace_reference_Some]
      by (simp add: dictionary_set_reference_def get_hash add_bucket_Some ok'
          dictionary_internal_add_key_reference_def block_copy)
  }
qed

section \<open>The dictionary as a keyed store\<close>

definition dictionary_store :: "dictionary_t \<Rightarrow> byte list \<Rightarrow> value_ptr \<Rightarrow> dictionary_t option" where
  "dictionary_store d k v =
     (case v of
        Owned val \<Rightarrow> Option.bind (dictionary_set_value (\<lambda>_. True) (Some d) (Some k) (length k) (Some val) (length val)) id
      | Reference ref \<Rightarrow> Option.bind (dictionary_set_reference (\<lambda>_. True) (Some d) (Some k) (length k) ref) id
      | NullValue \<Rightarrow> None)"

fun storable :: "byte list \<Rightarrow> value_ptr \<Rightarrow> bool" where
  "storable k (Owned v) = (k \<noteq> [] \<and> v \<noteq> [])"
| "storable k (Reference a) = (k \<noteq> [] \<and> a \<noteq> 0)"
| "storable k NullValue = False"

lemma dictionary_store_map:
  assumes "dict_wf d" "storable k v"
  shows "\<exists>d'. dictionary_store d k v = Some d' \<and> dict_wf d' \<and> dict_map d' = (dict_map d)(k \<mapsto> v)"
proof -
  have ex: "\<exists>d'. dictionary_store d k v = Some d' \<and> dict_wf d' \<and> dict_map d' = (dict_map d)(k \<mapsto> v)"
    if "\<exists>d'. f = Some (Some d') \<and> dict_wf d' \<and> Q d' \<and> dict_map d' = (dict_map d)(k \<mapsto> v)"
      "dictionary_store d k v = Option.bind f id" for f Q
    using that by auto
  have k: "0 < length k" "length k \<le> length k" "take (length k) k = k"
    using assms(2) by (cases v; simp)+
  show ?thesis
  proof (cases v)
    case NullValue
    then show ?thesis using assms(2) by simp
  next
    case (Owned val)
    then have m: "0 < length val" "length val \<le> length val" "take (length val) val = val"
      "dictionary_store d k v = Option.bind (dictionary_set_value (\<lambda>_. True) (Some d) (Some k)
         (length k) (Some val) (length val)) id"
      using assms(2) by (simp_all add: dictionary_store_def)
    show ?thesis
      using set_existing(1) [OF assms(1) k(1,2) _ m(1,2), of "\<lambda>_. True"]
        set_new(1) [OF assms(1) k(1,2) _ _ m(1,2), of "\<lambda>_. True"] m Owned k(3)
      by (cases "k \<in> dom (dict_map d)") (force intro: ex)+
  next
    case (Reference ref)
    then have m: "ref \<noteq> 0"
      "dictionary_store d k v = Option.bind (dictionary_set_reference (\<lambda>_. True) (Some d) (Some k) (length k) ref) id"
      using assms(2) by (simp_all add: dictionary_store_def)
    show ?thesis
      using set_existing(2) [OF assms(1) k(1,2) _ m(1), of "\<lambda>_. True"]
        set_new(2) [OF assms(1) k(1,2) _ _ m(1), of "\<lambda>_. True"] m Reference k(3)
      by (cases "k \<in> dom (dict_map d)") (force intro: ex)+
  qed
qed

interpretation dict_store: keyed_store dict_wf storable dict_map dictionary_store
proof
  show "\<exists>d'. dictionary_store d k v = Some d' \<and> dict_wf d'" if "dict_wf d" "storable k v" for d k v
    using dictionary_store_map [OF that] by blast
  show "dict_map d' k = Some v"
    if "dict_wf d" "storable k v" "dictionary_store d k v = Some d'" for d k v d'
    using dictionary_store_map [OF that(1,2)] that(3) by auto
  show "dict_map d' k' = dict_map d k'"
    if "dict_wf d" "storable k v" "dictionary_store d k v = Some d'" "k' \<noteq> k" for d k v d' k'
    using dictionary_store_map [OF that(1,2)] that(3,4) by auto
qed

section \<open>Sequences of calls\<close>

datatype dictionary_op =
    SetValue "nat \<Rightarrow> bool" "byte list option" nat "byte list option" nat
  | SetReference "nat \<Rightarrow> bool" "byte list option" nat addr

fun dictionary_step :: "dictionary_op \<Rightarrow> dictionary_t option \<Rightarrow> dictionary_t option option" where
  "dictionary_step (SetValue ok ky n val m) p = dictionary_set_value ok p ky n val m"
| "dictionary_step (SetReference ok ky n ref) p = dictionary_set_reference ok p ky n ref"

fun dictionary_run :: "dictionary_op list \<Rightarrow> dictionary_t option \<Rightarrow> dictionary_t option option" where
  "dictionary_run [] p = Some p"
| "dictionary_run (a # as) p = do { q \<leftarrow> dictionary_step a p; dictionary_run as q }"

text \<open>
  What the calls mean for the map: invalid arguments are ignored, a new key needs its four (or
  three) allocations to succeed, and a failing \<open>calloc\<close> leaves an existing key with NULL.
\<close>

inductive map_step :: "dictionary_op \<Rightarrow> (byte list \<rightharpoonup> value_ptr) \<Rightarrow> (byte list \<rightharpoonup> value_ptr) \<Rightarrow> bool" where
  "ky = None \<or> n = 0 \<or> val = None \<or> m = 0 \<Longrightarrow> map_step (SetValue ok ky n val m) M M"
| "ky = None \<or> n = 0 \<or> ref = 0 \<Longrightarrow> map_step (SetReference ok ky n ref) M M"
| "0 < n \<Longrightarrow> n \<le> length k \<Longrightarrow> 0 < m \<Longrightarrow> m \<le> length v \<Longrightarrow> take n k \<in> dom M \<Longrightarrow>
   map_step (SetValue ok (Some k) n (Some v) m) M
     (M(take n k \<mapsto> if ok 0 then Owned (take m v) else NullValue))"
| "0 < n \<Longrightarrow> n \<le> length k \<Longrightarrow> 0 < m \<Longrightarrow> m \<le> length v \<Longrightarrow> \<forall>i<4. ok i \<Longrightarrow> take n k \<notin> dom M \<Longrightarrow>
   map_step (SetValue ok (Some k) n (Some v) m) M (M(take n k \<mapsto> Owned (take m v)))"
| "0 < n \<Longrightarrow> n \<le> length k \<Longrightarrow> ref \<noteq> 0 \<Longrightarrow> take n k \<in> dom M \<or> (\<forall>i<4. ok i) \<Longrightarrow>
   map_step (SetReference ok (Some k) n ref) M (M(take n k \<mapsto> Reference ref))"

inductive map_run :: "dictionary_op list \<Rightarrow> (byte list \<rightharpoonup> value_ptr) \<Rightarrow> (byte list \<rightharpoonup> value_ptr) \<Rightarrow> bool" where
  "map_run [] M M"
| "map_step a M M' \<Longrightarrow> map_run as M' M'' \<Longrightarrow> map_run (a # as) M M''"

lemma dictionary_step_refines:
  assumes "map_step a M M'" "dict_wf d" "M = dict_map d"
  shows "\<exists>d'. dictionary_step a (Some d) = Some (Some d') \<and> dict_wf d' \<and> dict_map d' = M'"
  using assms
proof (induction rule: map_step.induct)
  case (1 ky n val m ok M)
  then show ?case by (auto simp: dictionary_set_value_def split: option.split)
next
  case (2 ky n ref ok M)
  then show ?case by (auto simp: dictionary_set_reference_def split: option.split)
next
  case (3 n k m v M ok)
  with set_existing(1) [of d n k m v ok] show ?case by auto
next
  case (4 n k m v ok M)
  with set_new(1) [of d n k ok m v] show ?case by auto
next
  case (5 n k ref M ok)
  show ?case
  proof (cases "take n k \<in> dom M")
    case True
    with 5 set_existing(2) [of d n k ref ok] show ?thesis by (auto simp: fun_upd_def)
  next
    case False
    with 5 set_new(2) [of d n k ok ref] show ?thesis by (auto simp: fun_upd_def)
  qed
qed

lemma dictionary_run_wf:
  assumes "map_run as M M'" "dict_wf d" "M = dict_map d"
  shows "\<exists>d'. dictionary_run as (Some d) = Some (Some d') \<and> dict_wf d' \<and> dict_map d' = M'"
  using assms
proof (induction arbitrary: d rule: map_run.induct)
  case (2 a M M' as M'')
  from dictionary_step_refines [OF 2(1) 2(4,5)]
  obtain d1 where "dictionary_step a (Some d) = Some (Some d1)" "dict_wf d1" "M' = dict_map d1" by auto
  with 2(3) [of d1] show ?case by simp
qed simp

lemma empty_wf:
  "dictionary_allocate True = Some \<lparr>hash_count = 0, hash_bucket = []\<rparr>"
  "dict_wf \<lparr>hash_count = 0, hash_bucket = []\<rparr>"
  "dict_map \<lparr>hash_count = 0, hash_bucket = []\<rparr> = Map.empty"
  by (simp_all add: dictionary_allocate_def dict_wf_def dict_map_def dict_entries_def)

text \<open>
  C4: the dictionary refines a finite map.  Any sequence of \<open>dictionary_set_value\<close> and \<open>dictionary_set_reference\<close> calls,
  valid or not, that starts on a new dictionary has a defined result, and the dictionary then
  answers every \<open>dictionary_get_value\<close> as the map built by the same calls does; releasing it frees
  only blocks it owns.
\<close>

theorem dictionary_refines_map:
  assumes "map_run as Map.empty M"
  shows "\<exists>d. dictionary_run as (dictionary_allocate True) = Some (Some d) \<and>
     (\<forall>k n. 0 < n \<and> n \<le> length k \<longrightarrow>
        dictionary_get_value (Some d) (Some k) n =
          Some (case M (take n k) of None \<Rightarrow> NullValue | Some v \<Rightarrow> v)) \<and>
     dictionary_free (Some d) = Some ()"
proof -
  obtain d where d: "dictionary_run as (dictionary_allocate True) = Some (Some d)" "dict_wf d" "dict_map d = M"
    using dictionary_run_wf [OF assms empty_wf(2)] empty_wf by auto
  with get_value [OF d(2)] free_buckets show ?thesis
    by (auto simp: dictionary_free_def dict_wf_def)
qed

theorem dictionary_refines_map_witness:
  "\<exists>d. dictionary_run
       [SetValue (\<lambda>_. True) (Some [1]) 1 (Some [10, 11]) 2, SetReference (\<lambda>_. True) (Some [2, 3]) 2 4096,
        SetValue (\<lambda>_. False) (Some [1]) 1 (Some [12]) 1] (dictionary_allocate True) = Some (Some d) \<and>
     dictionary_get_value (Some d) (Some [2, 3]) 2 = Some (Reference 4096) \<and>
     dictionary_get_value (Some d) (Some [1]) 1 = Some NullValue \<and>
     dictionary_get_value (Some d) (Some [7]) 1 = Some NullValue"
proof -
  have 1: "map_step (SetValue (\<lambda>_. True) (Some [1]) 1 (Some [10, 11]) 2) Map.empty [[1] \<mapsto> Owned [10, 11]]"
    using map_step.intros(4) [of 1 "[1]" 2 "[10, 11]" "\<lambda>_. True" Map.empty] by simp
  have 2: "map_step (SetReference (\<lambda>_. True) (Some [2, 3]) 2 4096) [[1] \<mapsto> Owned [10, 11]]
      [[1] \<mapsto> Owned [10, 11], [2, 3] \<mapsto> Reference 4096]"
    using map_step.intros(5) [of 2 "[2, 3]" 4096 "[[1] \<mapsto> Owned [10, 11]]" "\<lambda>_. True"] by simp
  have 3: "map_step (SetValue (\<lambda>_. False) (Some [1]) 1 (Some [12]) 1)
      [[1] \<mapsto> Owned [10, 11], [2, 3] \<mapsto> Reference 4096]
      ([[1] \<mapsto> Owned [10, 11], [2, 3] \<mapsto> Reference 4096]([1] \<mapsto> NullValue))"
    using map_step.intros(3) [of 1 "[1]" 1 "[12]" "[[1] \<mapsto> Owned [10, 11], [2, 3] \<mapsto> Reference 4096]" "\<lambda>_. False"]
    by simp
  from dictionary_refines_map [OF map_run.intros(2) [OF 1 map_run.intros(2) [OF 2 map_run.intros(2) [OF 3 map_run.intros(1)]]]]
  obtain d where d: "dictionary_run
       [SetValue (\<lambda>_. True) (Some [1]) 1 (Some [10, 11]) 2, SetReference (\<lambda>_. True) (Some [2, 3]) 2 4096,
        SetValue (\<lambda>_. False) (Some [1]) 1 (Some [12]) 1] (dictionary_allocate True) = Some (Some d)"
    and g: "\<And>k n. 0 < n \<Longrightarrow> n \<le> length k \<Longrightarrow> dictionary_get_value (Some d) (Some k) n =
       Some (case ([[1] \<mapsto> Owned [10, 11], [2, 3] \<mapsto> Reference 4096]([1] \<mapsto> NullValue)) (take n k)
             of None \<Rightarrow> NullValue | Some v \<Rightarrow> v)"
    by blast
  from d g [of 2 "[2, 3]"] g [of 1 "[1]"] g [of 1 "[7]"] show ?thesis by auto
qed

text \<open>
  Last write wins.  With memory available, storing any list of values and references on any
  well-formed dictionary succeeds and every key then reads as its last stored value, or as before when it was
  not stored.
\<close>

theorem dictionary_last_write_wins:
  assumes "dict_wf d" "\<forall>(k, v)\<in>set kvs. storable k v" "k \<noteq> []"
  shows "\<exists>d'. store_all dictionary_store d kvs = Some d' \<and>
    (case map_of (rev kvs) k of
       Some v \<Rightarrow> dictionary_get_value (Some d') (Some k) (length k) = Some v
     | None \<Rightarrow> dictionary_get_value (Some d') (Some k) (length k) =
               dictionary_get_value (Some d) (Some k) (length k))"
proof -
  obtain d' where "store_all dictionary_store d kvs = Some d'" "dict_wf d'"
    "\<forall>k. dict_map d' k = (case map_of (rev kvs) k of None \<Rightarrow> dict_map d k | Some v \<Rightarrow> Some v)"
    using dict_store.store_all_lookup [OF assms(1,2)] by blast
  with assms(1,3) show ?thesis by (auto simp: get_value split: option.split)
qed

theorem dictionary_last_write_wins_witness:
  "\<exists>d'. store_all dictionary_store \<lparr>hash_count = 0, hash_bucket = []\<rparr>
      [([1], Owned [5]), ([2], Reference 9), ([1], Owned [6])] = Some d' \<and>
    dictionary_get_value (Some d') (Some [1]) 1 = Some (Owned [6])"
  using dictionary_last_write_wins [OF empty_wf(2), of "[([1], Owned [5]), ([2], Reference 9), ([1], Owned [6])]" "[1]"]
  by simp

section \<open>Listing the keys\<close>

lemma total_keys_entries: "dict_wf d \<Longrightarrow> total_keys d = int (length (dict_entries d))"
proof -
  have "\<forall>b\<in>set bs. bucket_ok b \<Longrightarrow>
    fold (\<lambda>b n. n + key_value_count b) bs k = k + int (length (bucket_entries bs))" for bs k
    by (induction bs arbitrary: k) (auto simp: bucket_ok_def)
  then show "dict_wf d \<Longrightarrow> ?thesis" by (simp add: total_keys_def dict_wf_def dict_entries_def)
qed

text \<open>The table after some keys: their copies, each with a terminator, then NULL cells.\<close>

definition key_cells :: "key_value_t list \<Rightarrow> byte list option list" where
  "key_cells kvs = map (\<lambda>kv. Some (key kv @ [0])) kvs"

lemma key_cells_simps [simp]:
  "key_cells [] = []" "key_cells (xs @ ys) = key_cells xs @ key_cells ys"
  "key_cells (kv # kvs) = Some (key kv @ [0]) # key_cells kvs" "length (key_cells kvs) = length kvs"
  by (simp_all add: key_cells_def)

lemma copy_keys:
  assumes "\<forall>kv\<in>set kvs. entry_ok kv" "\<forall>i<length pre + length kvs. ok (Suc i)" "length kvs \<le> k"
  shows "copy_keys ok kvs (Some (pre @ replicate k None)) (length pre) =
         Some (Some (pre @ key_cells kvs @ replicate (k - length kvs) None), length pre + length kvs)"
  using assms
proof (induction kvs arbitrary: pre k)
  case (Cons kv kvs)
  then obtain j where k: "k = Suc j" by (cases k) auto
  have kv: "length (key kv) = key_size kv" using Cons.prems by (simp add: entry_ok_def)
  have ok: "ok (Suc (length pre))" using Cons.prems(2) k by auto
  have "mem_copy (replicate (key_size kv + 1) 0) 0 (key kv) 0 (key_size kv) = Some (key kv @ [0])"
    using kv by (simp add: mem_copy_Some del: replicate_Suc) simp
  with Cons.IH [of "pre @ [Some (key kv @ [0])]" j] Cons.prems k ok show ?case
    by (auto simp: list_update_append)
qed simp

lemma copy_bucket_keys:
  assumes "\<forall>b\<in>set bs. bucket_ok b" "\<forall>i<length pre + length (bucket_entries bs). ok (Suc i)" "length (bucket_entries bs) \<le> k"
  shows "copy_bucket_keys ok bs (Some (pre @ replicate k None)) (length pre) =
         Some (Some (pre @ key_cells (bucket_entries bs) @ replicate (k - length (bucket_entries bs)) None),
               length pre + length (bucket_entries bs))"
  using assms
proof (induction bs arbitrary: pre k)
  case (Cons b bs)
  have c: "copy_keys ok (key_value_list b) (Some (pre @ replicate k None)) (length pre) =
     Some (Some (pre @ key_cells (key_value_list b) @ replicate (k - length (key_value_list b)) None),
       length pre + length (key_value_list b))"
    using Cons.prems by (intro copy_keys) (auto simp: bucket_ok_def)
  with Cons.IH [of "pre @ key_cells (key_value_list b)" "k - length (key_value_list b)"] Cons.prems
  show ?case by (simp add: add.assoc)
qed simp

lemma free_key_cells:
  assumes "index \<le> length kvs"
  shows "free_key_cells (key_cells kvs @ [None]) index = Some (length kvs)"
  using assms
proof (induction "length kvs - index" arbitrary: index)
  case 0
  then show ?case by (subst free_key_cells.simps) (simp add: nth_append)
next
  case (Suc k)
  then have "index < length kvs" by simp
  with Suc.hyps(1) [of "index + 1"] Suc.hyps(2) show ?case
    by (subst free_key_cells.simps) (simp add: nth_append key_cells_def)
qed

text \<open>
  Listing the keys.  With memory available, \<open>dictionary_get_all_keys\<close> returns a NULL-terminated table holding a
  zero-terminated copy of every key exactly once, without writing outside the table, and
  \<open>dictionary_free_key_list\<close> frees exactly these copies.
\<close>

theorem dictionary_lists_keys:
  assumes "dict_wf d" "\<forall>i\<le>length (dict_entries d). ok i"
  shows "\<exists>ks. dictionary_get_all_keys ok (Some d) = Some (Some (map (\<lambda>k. Some (k @ [0])) ks @ [None])) \<and>
     distinct ks \<and> set ks = dom (dict_map d) \<and> length ks = nat (hash_count d) \<and>
     dictionary_free_key_list (Some d) (Some (map (\<lambda>k. Some (k @ [0])) ks @ [None])) = Some (length ks)"
proof (intro exI [of _ "map key (dict_entries d)"] conjI)
  let ?n = "length (dict_entries d)"
  have cells: "map (\<lambda>k. Some (k @ [0])) (map key (dict_entries d)) = key_cells (dict_entries d)"
    by (simp add: key_cells_def)
  have "copy_bucket_keys ok (hash_bucket d) (Some (replicate (Suc ?n) None)) 0 =
     Some (Some (key_cells (dict_entries d) @ [None]), ?n)"
    using assms copy_bucket_keys [of "hash_bucket d" "[]" ok "Suc ?n"]
    by (simp add: dict_wf_def dict_entries_def)
  then show "dictionary_get_all_keys ok (Some d) =
      Some (Some (map (\<lambda>k. Some (k @ [0])) (map key (dict_entries d)) @ [None]))"
    unfolding cells using assms
    by (simp add: dictionary_get_all_keys_def total_keys_entries nat_add_distrib Let_def del: replicate_Suc)
  show "distinct (map key (dict_entries d))" using assms(1) by (simp add: dict_wf_def)
  show "set (map key (dict_entries d)) = dom (dict_map d)" by (simp add: dict_map_def dom_entry_map)
  show "length (map key (dict_entries d)) = nat (hash_count d)" using assms(1) by (simp add: dict_wf_def)
  show "dictionary_free_key_list (Some d)
     (Some (map (\<lambda>k. Some (k @ [0])) (map key (dict_entries d)) @ [None])) = Some (length (map key (dict_entries d)))"
    unfolding cells by (simp add: dictionary_free_key_list_def free_key_cells)
qed

theorem dictionary_lists_keys_witness:
  "\<exists>d ks. dictionary_get_all_keys (\<lambda>_. True) (Some d) = Some (Some (map (\<lambda>k. Some (k @ [0])) ks @ [None])) \<and>
     set ks = {[1], [2, 3]} \<and>
     dictionary_free_key_list (Some d) (Some (map (\<lambda>k. Some (k @ [0])) ks @ [None])) = Some 2"
proof -
  obtain d where d: "dict_wf d" "\<forall>k. dict_map d k = (case map_of (rev [([1], Owned [5]), ([2, 3], Reference 9)]) k of
      None \<Rightarrow> None | Some v \<Rightarrow> Some v)"
    using dict_store.store_all_lookup [OF empty_wf(2), of "[([1], Owned [5]), ([2, 3], Reference 9)]"]
    by (auto simp: empty_wf(3))
  have "dict_map d = [[2, 3] \<mapsto> Reference 9, [1] \<mapsto> Owned [5]]"
    using d(2) by (auto simp: fun_eq_iff)
  then have dom: "dom (dict_map d) = {[1], [2, 3]}" by auto
  obtain ks where ks: "dictionary_get_all_keys (\<lambda>_. True) (Some d) = Some (Some (map (\<lambda>k. Some (k @ [0])) ks @ [None]))"
    "distinct ks" "set ks = dom (dict_map d)"
    "dictionary_free_key_list (Some d) (Some (map (\<lambda>k. Some (k @ [0])) ks @ [None])) = Some (length ks)"
    using dictionary_lists_keys [OF d(1), of "\<lambda>_. True"] by auto
  moreover have "length ks = 2" using ks(2,3) dom by (simp flip: distinct_card)
  ultimately show ?thesis using dom by (intro exI [of _ d] exI [of _ ks]) simp
qed

lemma add_to_bucket_last:
  "h \<in> hash ` set bs \<Longrightarrow> add_to_bucket h kv (bs @ [b]) = add_to_bucket h kv bs @ [b]"
  by (induction bs) auto

lemma length_add_to_bucket [simp]: "length (add_to_bucket h kv bs) = length bs"
  by (induction bs) auto

text \<open>
  Buckets do not group keys.  When a new key has the hash of a bucket that is already there, the entry
  joins that bucket, and yet a further bucket of the same hash is appended, which stays empty.
\<close>

theorem dictionary_leaves_empty_bucket:
  assumes "dict_wf d" "0 < n" "n \<le> length ky" "0 < m" "m \<le> length val"
    and "take n ky \<notin> dom (dict_map d)" "key_hash (take n ky) \<in> hash ` set (hash_bucket d)" "\<forall>i<4. ok i"
  shows "\<exists>d' bs. dictionary_set_value ok (Some d) (Some ky) n (Some val) m = Some (Some d') \<and>
     hash_bucket d' = bs @ [\<lparr>hash = key_hash (take n ky), key_value_count = 0, key_value_list = []\<rparr>] \<and>
     length bs = length (hash_bucket d)"
proof -
  have "update_buckets (replace_value (ok 0) val m) ky n (hash_bucket d) = Some None"
    using update_buckets [of "hash_bucket d" n ky, OF _ _ _ replace_value_Some] assms
    by (simp add: dict_wf_def dict_entries_def dict_map_def dom_entry_map)
  then show ?thesis
    using assms by (simp add: dictionary_set_value_def get_hash add_bucket_Some numeral_eq_Suc
        dictionary_internal_add_key_value_def block_copy add_to_bucket_last)
qed

theorem dictionary_leaves_empty_bucket_witness:
  "\<exists>d d'. dictionary_set_value (\<lambda>_. True) (Some d) (Some [0]) 1 (Some [5]) 1 = Some (Some d') \<and>
     hash_bucket d' \<noteq> [] \<and> key_value_list (last (hash_bucket d')) = []"
proof -
  let ?kv = "\<lparr>key = [0, 0], kv_value = Owned [5], is_value = True, value_size = 1, key_size = 2\<rparr>"
  let ?d = "\<lparr>hash_count = 1, hash_bucket = [\<lparr>hash = 0, key_value_count = 1, key_value_list = [?kv]\<rparr>]\<rparr>"
  have h: "key_hash [0, 0] = 0" "key_hash [0] = 0"
    by (simp_all add: key_hash_def hash_round_def hash_final_def key_char_def Let_def)
  have "dict_wf ?d"
    by (simp add: dict_wf_def bucket_ok_def entry_ok_def dict_entries_def h)
  from dictionary_leaves_empty_bucket [OF this, of 1 "[0]" 1 "[5]" "\<lambda>_. True"] h
  obtain d' bs where "dictionary_set_value (\<lambda>_. True) (Some ?d) (Some [0]) 1 (Some [5]) 1 = Some (Some d')"
    "hash_bucket d' = bs @ [\<lparr>hash = 0, key_value_count = 0, key_value_list = []\<rparr>]"
    by (auto simp: dict_map_def dict_entries_def)
  then show ?thesis by (intro exI [of _ ?d] exI [of _ d']) simp
qed

end
