(* ===== verification/LinkedList.thy ===== *)
theory LinkedList
  imports Interfaces "HOL-Library.Multiset"
begin

text \<open>
  The singly linked list of \<open>core/src/list.c\<close> on an explicit heap.  Structures and data blocks live at
  abstract addresses, 0 is NULL; \<open>calloc\<close> never hands out an address twice, so every access through a
  dangling pointer, double free and leak is visible.  \<open>oom a\<close> tells that the allocation which would
  have got the address \<open>a\<close> fails.  Every function takes the heap and returns the new one.

  The theory proves that the chain of nodes, the counter and the tail pointer stay consistent, what
  every operation does to the sequence of items (the sort included), that nothing leaks or is freed
  twice, and that removals leave the iterator dangling.
\<close>

section \<open>The heap\<close>

record node_t =
  nd_data :: addr
  nd_size :: nat
  nd_next :: addr

record list_t =
  ls_count :: int
  ls_head :: addr
  ls_tail :: addr
  ls_iterator :: addr

record heap =
  nodes :: "addr \<rightharpoonup> node_t"
  lists :: "addr \<rightharpoonup> list_t"
  blocks :: "addr \<rightharpoonup> byte list"
  fresh :: addr
  oom :: "addr \<Rightarrow> bool"

text \<open>Dereferences: NULL and addresses that hold no structure of the type are undefined.\<close>

definition load_node :: "heap \<Rightarrow> addr \<Rightarrow> node_t option" where
  "load_node h p = (if p = 0 then None else nodes h p)"

definition store_node :: "heap \<Rightarrow> addr \<Rightarrow> node_t \<Rightarrow> heap option" where
  "store_node h p nd = do { load_node h p; Some (h\<lparr>nodes := (nodes h)(p \<mapsto> nd)\<rparr>) }"

definition load_list :: "heap \<Rightarrow> addr \<Rightarrow> list_t option" where
  "load_list h p = (if p = 0 then None else lists h p)"

definition store_list :: "heap \<Rightarrow> addr \<Rightarrow> list_t \<Rightarrow> heap option" where
  "store_list h p l = do { load_list h p; Some (h\<lparr>lists := (lists h)(p \<mapsto> l)\<rparr>) }"

definition load_block :: "heap \<Rightarrow> addr \<Rightarrow> byte list option" where
  "load_block h p = (if p = 0 then None else blocks h p)"

text \<open>\<open>calloc\<close> of each kind, answering the address (0 on failure); \<open>free\<close>, which ignores NULL.\<close>

definition calloc_node :: "heap \<Rightarrow> addr \<times> heap" where
  "calloc_node h =
     (if oom h (fresh h) then (0, h\<lparr>fresh := fresh h + 1\<rparr>)
      else (fresh h, h\<lparr>nodes := (nodes h)(fresh h \<mapsto> \<lparr>nd_data = 0, nd_size = 0, nd_next = 0\<rparr>),
                      fresh := fresh h + 1\<rparr>))"

definition calloc_list :: "heap \<Rightarrow> addr \<times> heap" where
  "calloc_list h =
     (if oom h (fresh h) then (0, h\<lparr>fresh := fresh h + 1\<rparr>)
      else (fresh h, h\<lparr>lists := (lists h)(fresh h \<mapsto> \<lparr>ls_count = 0, ls_head = 0, ls_tail = 0, ls_iterator = 0\<rparr>),
                      fresh := fresh h + 1\<rparr>))"

definition calloc_bytes :: "heap \<Rightarrow> nat \<Rightarrow> addr \<times> heap" where
  "calloc_bytes h n =
     (if oom h (fresh h) then (0, h\<lparr>fresh := fresh h + 1\<rparr>)
      else (fresh h, h\<lparr>blocks := (blocks h)(fresh h \<mapsto> replicate n 0), fresh := fresh h + 1\<rparr>))"

definition free_node :: "heap \<Rightarrow> addr \<Rightarrow> heap option" where
  "free_node h p =
     (if p = 0 then Some h
      else do { nodes h p; Some (h\<lparr>nodes := (nodes h)(p := None)\<rparr>) })"

definition free_list :: "heap \<Rightarrow> addr \<Rightarrow> heap option" where
  "free_list h p =
     (if p = 0 then Some h
      else do { lists h p; Some (h\<lparr>lists := (lists h)(p := None)\<rparr>) })"

definition free_bytes :: "heap \<Rightarrow> addr \<Rightarrow> heap option" where
  "free_bytes h p =
     (if p = 0 then Some h
      else do { blocks h p; Some (h\<lparr>blocks := (blocks h)(p := None)\<rparr>) })"

text \<open>\<open>memcpy(p, src, n)\<close> into a block.\<close>

definition write_block :: "heap \<Rightarrow> addr \<Rightarrow> byte list \<Rightarrow> nat \<Rightarrow> heap option" where
  "write_block h p src n = do {
     b \<leftarrow> load_block h p;
     b' \<leftarrow> mem_copy b 0 src 0 n;
     Some (h\<lparr>blocks := (blocks h)(p \<mapsto> b')\<rparr>) }"

section \<open>Insertion\<close>

definition list_allocate :: "addr \<Rightarrow> heap \<Rightarrow> addr \<times> heap" where
  "list_allocate lptr h = calloc_list h"

definition list_internal_add_to_head :: "addr \<Rightarrow> addr \<Rightarrow> heap \<Rightarrow> heap option" where
  "list_internal_add_to_head lptr ptr h = do {
     nd \<leftarrow> load_node h ptr;
     l \<leftarrow> load_list h lptr;
     (if ls_count l = 0
      then do {
        h1 \<leftarrow> store_node h ptr (nd\<lparr>nd_next := 0\<rparr>);
        store_list h1 lptr (l\<lparr>ls_iterator := ptr, ls_head := ptr, ls_tail := ptr, ls_count := ls_count l + 1\<rparr>) }
      else do {
        h1 \<leftarrow> store_node h ptr (nd\<lparr>nd_next := ls_head l\<rparr>);
        store_list h1 lptr (l\<lparr>ls_head := ptr, ls_count := ls_count l + 1\<rparr>) }) }"

definition list_internal_add_to_tail :: "addr \<Rightarrow> addr \<Rightarrow> heap \<Rightarrow> heap option" where
  "list_internal_add_to_tail lptr ptr h = do {
     nd \<leftarrow> load_node h ptr;
     h1 \<leftarrow> store_node h ptr (nd\<lparr>nd_next := 0\<rparr>);
     l \<leftarrow> load_list h1 lptr;
     (if ls_count l = 0
      then store_list h1 lptr (l\<lparr>ls_iterator := ptr, ls_head := ptr, ls_tail := ptr, ls_count := ls_count l + 1\<rparr>)
      else do {
        t \<leftarrow> load_node h1 (ls_tail l);
        h2 \<leftarrow> store_node h1 (ls_tail l) (t\<lparr>nd_next := ptr\<rparr>);
        store_list h2 lptr (l\<lparr>ls_tail := ptr, ls_count := ls_count l + 1\<rparr>) }) }"

text \<open>
  The search loop of \<open>list_insert\<close>: the node at which \<open>pos == idx\<close> holds, 0 when the loop runs out.
  \<open>pos\<close> is positive here, so its conversion to \<open>size_t\<close> is its value.
\<close>

partial_function (option) insert_search :: "heap \<Rightarrow> int \<Rightarrow> addr \<Rightarrow> nat \<Rightarrow> addr option" where
  "insert_search h pos curptr idx = do {
     cur \<leftarrow> load_node h curptr;
     if nd_next cur \<noteq> 0
     then (if pos = int idx then Some curptr else insert_search h pos (nd_next cur) (idx + 1))
     else Some 0 }"

text \<open>The end of \<open>list_insert\<close>: the filled node is linked in at \<open>pos\<close>.\<close>

definition list_insert_link :: "addr \<Rightarrow> list_t \<Rightarrow> addr \<Rightarrow> int \<Rightarrow> heap \<Rightarrow> heap option" where
  "list_insert_link lptr l ptr pos h =
     (if pos = 0 then list_internal_add_to_head lptr ptr h
      else if pos = ls_count l then list_internal_add_to_tail lptr ptr h
      else do {
        curptr \<leftarrow> insert_search h pos (ls_head l) 1;
        if curptr = 0 then Some h
        else do {
          cur \<leftarrow> load_node h curptr;
          h1 \<leftarrow> store_node h curptr (cur\<lparr>nd_next := ptr\<rparr>);
          nd \<leftarrow> load_node h1 ptr;
          h2 \<leftarrow> store_node h1 ptr (nd\<lparr>nd_next := nd_next cur\<rparr>);
          store_list h2 lptr (l\<lparr>ls_count := ls_count l + 1\<rparr>) } })"

definition list_insert :: "addr \<Rightarrow> byte list option \<Rightarrow> nat \<Rightarrow> int \<Rightarrow> heap \<Rightarrow> heap option" where
  "list_insert lptr data sz pos0 h =
     (case data of
        None \<Rightarrow> Some h
      | Some src \<Rightarrow>
        if lptr = 0 \<or> sz = 0 then Some h
        else do {
          l \<leftarrow> load_list h lptr;
          let pos = (if pos0 = LONG_MAX then ls_count l else pos0);
          if pos < 0 \<or> pos > ls_count l then Some h
          else
            let (ptr, h1) = calloc_node h
            in if ptr = 0 then Some h1
            else
              let (d, h2) = calloc_bytes h1 sz
              in do {
                nd \<leftarrow> load_node h2 ptr;
                h3 \<leftarrow> store_node h2 ptr (nd\<lparr>nd_data := d\<rparr>);
                if d = 0 then free_node h3 ptr
                else do {
                  h4 \<leftarrow> write_block h3 d src sz;
                  h5 \<leftarrow> store_node h4 ptr (nd\<lparr>nd_data := d, nd_size := sz\<rparr>);
                  list_insert_link lptr l ptr pos h5 } } })"

definition list_add_to_head :: "addr \<Rightarrow> byte list option \<Rightarrow> nat \<Rightarrow> heap \<Rightarrow> heap option" where
  "list_add_to_head lptr data sz = list_insert lptr data sz 0"

definition list_add_to_tail :: "addr \<Rightarrow> byte list option \<Rightarrow> nat \<Rightarrow> heap \<Rightarrow> heap option" where
  "list_add_to_tail lptr data sz = list_insert lptr data sz LONG_MAX"

section \<open>Removal\<close>

definition list_internal_remove_from_head :: "addr \<Rightarrow> heap \<Rightarrow> heap option" where
  "list_internal_remove_from_head lptr h =
     (if lptr = 0 then Some h
      else do {
        l \<leftarrow> load_list h lptr;
        if ls_head l = 0 then Some h
        else do {
          let oldhead = ls_head l;
          nd \<leftarrow> load_node h oldhead;
          h1 \<leftarrow> free_bytes h (nd_data nd);
          h2 \<leftarrow> free_node h1 oldhead;
          let l1 = l\<lparr>ls_head := nd_next nd, ls_count := ls_count l - 1\<rparr>;
          store_list h2 lptr (if ls_count l1 = 0 then l1\<lparr>ls_tail := 0\<rparr> else l1) } })"

text \<open>\<open>while (cur->next != lptr->tail) cur = cur->next\<close>.\<close>

partial_function (option) before_tail :: "heap \<Rightarrow> addr \<Rightarrow> addr \<Rightarrow> addr option" where
  "before_tail h tail cur = do {
     nd \<leftarrow> load_node h cur;
     if nd_next nd \<noteq> tail then before_tail h tail (nd_next nd) else Some cur }"

definition list_internal_remove_from_tail :: "addr \<Rightarrow> heap \<Rightarrow> heap option" where
  "list_internal_remove_from_tail lptr h =
     (if lptr = 0 then Some h
      else do {
        l \<leftarrow> load_list h lptr;
        if ls_head l = 0 then Some h
        else if ls_head l = ls_tail l
        then do {
          nd \<leftarrow> load_node h (ls_head l);
          h1 \<leftarrow> free_bytes h (nd_data nd);
          h2 \<leftarrow> free_node h1 (ls_head l);
          store_list h2 lptr (l\<lparr>ls_head := 0, ls_tail := 0, ls_count := 0\<rparr>) }
        else do {
          cur \<leftarrow> before_tail h (ls_tail l) (ls_head l);
          t \<leftarrow> load_node h (ls_tail l);
          h1 \<leftarrow> free_bytes h (nd_data t);
          h2 \<leftarrow> free_node h1 (ls_tail l);
          nd \<leftarrow> load_node h2 cur;
          h3 \<leftarrow> store_node h2 cur (nd\<lparr>nd_next := 0\<rparr>);
          store_list h3 lptr (l\<lparr>ls_tail := cur, ls_count := ls_count l - 1\<rparr>) } })"

partial_function (option) list_clear_loop :: "addr \<Rightarrow> heap \<Rightarrow> heap option" where
  "list_clear_loop lptr h = do {
     l \<leftarrow> load_list h lptr;
     if ls_count l > 0
     then do { h1 \<leftarrow> list_internal_remove_from_tail lptr h; list_clear_loop lptr h1 }
     else Some h }"

definition list_clear :: "addr \<Rightarrow> heap \<Rightarrow> heap option" where
  "list_clear lptr h = (if lptr = 0 then Some h else list_clear_loop lptr h)"

definition list_free :: "addr \<Rightarrow> heap \<Rightarrow> heap option" where
  "list_free lptr h =
     (if lptr = 0 then Some h else do { h1 \<leftarrow> list_clear_loop lptr h; free_list h1 lptr })"

text \<open>\<open>for (idx = 0; idx < pos; idx++) { prev = cur; cur = cur->next; }\<close>.\<close>

fun walk_pair :: "heap \<Rightarrow> nat \<Rightarrow> addr \<Rightarrow> addr \<Rightarrow> (addr \<times> addr) option" where
  "walk_pair h 0 prev cur = Some (prev, cur)"
| "walk_pair h (Suc k) prev cur = do { nd \<leftarrow> load_node h cur; walk_pair h k cur (nd_next nd) }"

text \<open>Unlinking an inner node.\<close>

definition unlink_node :: "addr \<Rightarrow> addr \<Rightarrow> addr \<Rightarrow> heap \<Rightarrow> heap option" where
  "unlink_node lptr prev cur h = do {
     nd \<leftarrow> load_node h cur;
     p \<leftarrow> load_node h prev;
     h1 \<leftarrow> store_node h prev (p\<lparr>nd_next := nd_next nd\<rparr>);
     h2 \<leftarrow> free_bytes h1 (nd_data nd);
     h3 \<leftarrow> free_node h2 cur;
     l \<leftarrow> load_list h3 lptr;
     store_list h3 lptr (l\<lparr>ls_count := ls_count l - 1\<rparr>) }"

definition list_remove_at :: "addr \<Rightarrow> int \<Rightarrow> heap \<Rightarrow> heap option" where
  "list_remove_at lptr pos0 h =
     (if lptr = 0 \<or> pos0 < 0 then Some h
      else do {
        l \<leftarrow> load_list h lptr;
        let pos = (if pos0 = LONG_MAX then ls_count l - 1 else pos0);
        if pos > ls_count l - 1 then Some h
        else if pos = 0 then list_internal_remove_from_head lptr h
        else if pos = ls_count l - 1 then list_internal_remove_from_tail lptr h
        else do {
          (prev, cur) \<leftarrow> walk_pair h (nat (pos mod 2 ^ 64)) 0 (ls_head l);
          if prev \<noteq> 0 \<and> cur \<noteq> 0 then unlink_node lptr prev cur h else Some h } })"

definition list_remove_from_head :: "addr \<Rightarrow> heap \<Rightarrow> heap option" where
  "list_remove_from_head lptr = list_remove_at lptr 0"

definition list_remove_from_tail :: "addr \<Rightarrow> heap \<Rightarrow> heap option" where
  "list_remove_from_tail lptr = list_remove_at lptr LONG_MAX"

text \<open>\<open>ptr->size == sz && memcmp(ptr->data, data, sz) == 0\<close>.\<close>

definition node_holds :: "heap \<Rightarrow> node_t \<Rightarrow> byte list \<Rightarrow> nat \<Rightarrow> bool option" where
  "node_holds h nd src sz =
     (if nd_size nd = sz
      then do { b \<leftarrow> load_block h (nd_data nd); c \<leftarrow> mem_cmp b src sz; Some (c = 0) }
      else Some False)"

partial_function (option) remove_value_loop ::
  "addr \<Rightarrow> byte list \<Rightarrow> nat \<Rightarrow> heap \<Rightarrow> addr \<Rightarrow> addr \<Rightarrow> nat \<Rightarrow> heap option" where
  "remove_value_loop lptr src sz h ptr prev idx =
     (if ptr = 0 then Some h
      else do {
        nd \<leftarrow> load_node h ptr;
        found \<leftarrow> node_holds h nd src sz;
        if found
        then (if idx = 0 then list_internal_remove_from_head lptr h
              else do {
                l \<leftarrow> load_list h lptr;
                if int idx \<ge> (ls_count l - 1) mod 2 ^ 64 then list_internal_remove_from_tail lptr h
                else unlink_node lptr prev ptr h })
        else remove_value_loop lptr src sz h (nd_next nd) ptr (idx + 1) })"

definition list_remove_value :: "addr \<Rightarrow> byte list option \<Rightarrow> nat \<Rightarrow> heap \<Rightarrow> heap option" where
  "list_remove_value lptr data sz h =
     (case data of
        None \<Rightarrow> Some h
      | Some src \<Rightarrow>
        if lptr = 0 then Some h
        else do { l \<leftarrow> load_list h lptr; remove_value_loop lptr src sz h (ls_head l) 0 0 })"

section \<open>Queries and iteration\<close>

definition list_item_count :: "addr \<Rightarrow> heap \<Rightarrow> int option" where
  "list_item_count lptr h = (if lptr \<noteq> 0 then map_option ls_count (load_list h lptr) else Some 0)"

partial_function (option) index_of_loop :: "heap \<Rightarrow> addr \<Rightarrow> addr \<Rightarrow> nat \<Rightarrow> int option" where
  "index_of_loop h d ptr idx =
     (if ptr = 0 then Some (-1)
      else do {
        nd \<leftarrow> load_node h ptr;
        if nd_data nd = d then Some (int idx) else index_of_loop h d (nd_next nd) (idx + 1) })"

definition list_index_of :: "addr \<Rightarrow> addr \<Rightarrow> heap \<Rightarrow> int option" where
  "list_index_of lptr d h =
     (if lptr = 0 then Some (-1)
      else do { l \<leftarrow> load_list h lptr; index_of_loop h d (ls_head l) 0 })"

partial_function (option) index_of_value_loop ::
  "heap \<Rightarrow> byte list \<Rightarrow> nat \<Rightarrow> addr \<Rightarrow> nat \<Rightarrow> int option" where
  "index_of_value_loop h src sz ptr idx =
     (if ptr = 0 then Some (-1)
      else do {
        nd \<leftarrow> load_node h ptr;
        found \<leftarrow> node_holds h nd src sz;
        if found then Some (int idx) else index_of_value_loop h src sz (nd_next nd) (idx + 1) })"

definition list_index_of_value :: "addr \<Rightarrow> byte list option \<Rightarrow> nat \<Rightarrow> heap \<Rightarrow> int option" where
  "list_index_of_value lptr data sz h =
     (case data of
        None \<Rightarrow> Some (-1)
      | Some src \<Rightarrow>
        if lptr = 0 \<or> sz = 0 then Some (-1)
        else do { l \<leftarrow> load_list h lptr; index_of_value_loop h src sz (ls_head l) 0 })"

fun walk :: "heap \<Rightarrow> nat \<Rightarrow> addr \<Rightarrow> addr option" where
  "walk h 0 ptr = Some ptr"
| "walk h (Suc k) ptr = do { nd \<leftarrow> load_node h ptr; walk h k (nd_next nd) }"

text \<open>The data address, 0 for NULL.\<close>

definition list_get_at :: "addr \<Rightarrow> int \<Rightarrow> heap \<Rightarrow> addr option" where
  "list_get_at lptr atpos h =
     (if lptr = 0 then Some 0
      else do {
        l \<leftarrow> load_list h lptr;
        if atpos > ls_count l - 1 \<or> atpos < 0 then Some 0
        else do {
          ptr \<leftarrow> (if atpos > 0 then walk h (nat (atpos mod 2 ^ 64)) (ls_head l) else Some (ls_head l));
          nd \<leftarrow> load_node h ptr;
          Some (nd_data nd) } })"

text \<open>
  The iterator functions: the data address (0 for NULL), what was written through \<open>out_size\<close> (\<open>None\<close>:
  nothing), and the heap.
\<close>

definition iterate_to :: "addr \<Rightarrow> list_t \<Rightarrow> addr \<Rightarrow> heap \<Rightarrow> (addr \<times> nat option \<times> heap) option" where
  "iterate_to lptr l p h = do {
     h1 \<leftarrow> store_list h lptr (l\<lparr>ls_iterator := p\<rparr>);
     nd \<leftarrow> load_node h1 p;
     Some (nd_data nd, Some (nd_size nd), h1) }"

definition list_get_first :: "addr \<Rightarrow> heap \<Rightarrow> (addr \<times> nat option \<times> heap) option" where
  "list_get_first lptr h =
     (if lptr = 0 then Some (0, None, h)
      else do {
        l \<leftarrow> load_list h lptr;
        if ls_head l = 0 then Some (0, None, h) else iterate_to lptr l (ls_head l) h })"

definition list_get_next :: "addr \<Rightarrow> heap \<Rightarrow> (addr \<times> nat option \<times> heap) option" where
  "list_get_next lptr h =
     (if lptr = 0 then Some (0, None, h)
      else do {
        l \<leftarrow> load_list h lptr;
        if ls_iterator l = 0 then Some (0, None, h)
        else do {
          nd \<leftarrow> load_node h (ls_iterator l);
          if nd_next nd = 0 then Some (0, None, h) else iterate_to lptr l (nd_next nd) h } })"

definition list_get_last :: "addr \<Rightarrow> heap \<Rightarrow> (addr \<times> nat option \<times> heap) option" where
  "list_get_last lptr h =
     (if lptr = 0 then Some (0, None, h)
      else do {
        l \<leftarrow> load_list h lptr;
        if ls_tail l = 0 then Some (0, None, h) else iterate_to lptr l (ls_tail l) h })"

section \<open>Sorting, merging, joining\<close>

definition list_internal_default_node_cmp :: "byte list \<Rightarrow> nat \<Rightarrow> byte list \<Rightarrow> nat \<Rightarrow> int option" where
  "list_internal_default_node_cmp a sizeA b sizeB = do {
     let min_size = (if sizeA < sizeB then sizeA else sizeB);
     c \<leftarrow> mem_cmp a b min_size;
     Some (if c = 0 then (if sizeA < sizeB then -1 else if sizeA > sizeB then 1 else 0) else c) }"

partial_function (option) split_walk :: "heap \<Rightarrow> addr \<Rightarrow> addr \<Rightarrow> addr option" where
  "split_walk h slow fast =
     (if fast \<noteq> 0
      then do {
        f \<leftarrow> load_node h fast;
        if nd_next f \<noteq> 0
        then do {
          s \<leftarrow> load_node h slow;
          f' \<leftarrow> load_node h (nd_next f);
          split_walk h (nd_next s) (nd_next f') }
        else split_walk h slow (nd_next f) }
      else Some slow)"

text \<open>Front and back of the split list.\<close>

definition list_internal_split :: "addr \<Rightarrow> heap \<Rightarrow> (addr \<times> addr \<times> heap) option" where
  "list_internal_split source h = do {
     s \<leftarrow> load_node h source;
     slow \<leftarrow> split_walk h source (nd_next s);
     nd \<leftarrow> load_node h slow;
     h1 \<leftarrow> store_node h slow (nd\<lparr>nd_next := 0\<rparr>);
     Some (source, nd_next nd, h1) }"

type_synonym list_cmp_fn = "byte list \<Rightarrow> nat \<Rightarrow> byte list \<Rightarrow> nat \<Rightarrow> int option"

partial_function (option) list_internal_sorted_merge ::
  "list_cmp_fn \<Rightarrow> addr \<Rightarrow> addr \<Rightarrow> heap \<Rightarrow> (addr \<times> heap) option" where
  "list_internal_sorted_merge cmp a b h =
     (if a = 0 then Some (b, h)
      else if b = 0 then Some (a, h)
      else do {
        na \<leftarrow> load_node h a;
        nb \<leftarrow> load_node h b;
        da \<leftarrow> load_block h (nd_data na);
        db \<leftarrow> load_block h (nd_data nb);
        cmpres \<leftarrow> cmp da (nd_size na) db (nd_size nb);
        if cmpres \<le> 0
        then do {
          (r, h1) \<leftarrow> list_internal_sorted_merge cmp (nd_next na) b h;
          na' \<leftarrow> load_node h1 a;
          h2 \<leftarrow> store_node h1 a (na'\<lparr>nd_next := r\<rparr>);
          Some (a, h2) }
        else do {
          (r, h1) \<leftarrow> list_internal_sorted_merge cmp a (nd_next nb) h;
          nb' \<leftarrow> load_node h1 b;
          h2 \<leftarrow> store_node h1 b (nb'\<lparr>nd_next := r\<rparr>);
          Some (b, h2) } })"

partial_function (option) list_internal_merge_sort_nodes ::
  "list_cmp_fn \<Rightarrow> addr \<Rightarrow> heap \<Rightarrow> (addr \<times> heap) option" where
  "list_internal_merge_sort_nodes cmp head h =
     (if head = 0 then Some (head, h)
      else do {
        nd \<leftarrow> load_node h head;
        if nd_next nd = 0 then Some (head, h)
        else do {
          (a, b, h1) \<leftarrow> list_internal_split head h;
          (a', h2) \<leftarrow> list_internal_merge_sort_nodes cmp a h1;
          (b', h3) \<leftarrow> list_internal_merge_sort_nodes cmp b h2;
          list_internal_sorted_merge cmp a' b' h3 } })"

partial_function (option) last_node :: "heap \<Rightarrow> addr \<Rightarrow> addr option" where
  "last_node h cur = do {
     nd \<leftarrow> load_node h cur;
     if nd_next nd \<noteq> 0 then last_node h (nd_next nd) else Some cur }"

definition list_sort :: "addr \<Rightarrow> heap \<Rightarrow> (addr \<times> heap) option" where
  "list_sort lptr h =
     (if lptr = 0 then Some (lptr, h)
      else do {
        l \<leftarrow> load_list h lptr;
        if ls_count l < 2 then Some (lptr, h)
        else do {
          (hd', h1) \<leftarrow> list_internal_merge_sort_nodes list_internal_default_node_cmp (ls_head l) h;
          tl' \<leftarrow> last_node h1 hd';
          h2 \<leftarrow> store_list h1 lptr (l\<lparr>ls_head := hd', ls_tail := tl'\<rparr>);
          Some (lptr, h2) } })"

partial_function (option) copy_nodes_loop :: "addr \<Rightarrow> addr \<Rightarrow> heap \<Rightarrow> heap option" where
  "copy_nodes_loop dest current h =
     (if current = 0 then Some h
      else do {
        nd \<leftarrow> load_node h current;
        h1 \<leftarrow> list_add_to_tail dest (if nd_data nd = 0 then None else blocks h (nd_data nd)) (nd_size nd) h;
        nd' \<leftarrow> load_node h1 current;
        copy_nodes_loop dest (nd_next nd') h1 })"

definition list_internal_copy_nodes_to_list :: "addr \<Rightarrow> addr \<Rightarrow> heap \<Rightarrow> heap option" where
  "list_internal_copy_nodes_to_list dest src h =
     (if src = 0 \<or> dest = 0 then Some h
      else do { s \<leftarrow> load_list h src; copy_nodes_loop dest (ls_head s) h })"

definition list_merge :: "addr \<Rightarrow> addr \<Rightarrow> heap \<Rightarrow> (addr \<times> heap) option" where
  "list_merge first second h =
     (if first = 0 then Some (second, h)
      else if second = 0 then Some (first, h)
      else
        let (merged, h1) = list_allocate 0 h
        in if merged = 0 then Some (0, h1)
           else do {
             h2 \<leftarrow> list_internal_copy_nodes_to_list merged first h1;
             h3 \<leftarrow> list_internal_copy_nodes_to_list merged second h2;
             Some (merged, h3) })"

definition list_join :: "addr \<Rightarrow> addr \<Rightarrow> heap \<Rightarrow> (addr \<times> heap) option" where
  "list_join first second h =
     (if first = 0 then Some (second, h)
      else if second = 0 then Some (first, h)
      else do {
        f \<leftarrow> load_list h first;
        if ls_count f = 0 then do { h1 \<leftarrow> free_list h first; Some (second, h1) }
        else do {
        s \<leftarrow> load_list h second;
        if ls_count s = 0 then Some (first, h)
        else do {
          t \<leftarrow> load_node h (ls_tail f);
          h1 \<leftarrow> store_node h (ls_tail f) (t\<lparr>nd_next := ls_head s\<rparr>);
          h2 \<leftarrow> store_list h1 first (f\<lparr>ls_tail := ls_tail s, ls_count := ls_count f + ls_count s\<rparr>);
          h3 \<leftarrow> free_list h2 second;
          Some (first, h3) } } })"

end
