(* ===== verification/ListLaws.thy ===== *)
theory ListLaws
  imports LinkedList
begin

text \<open>
  The laws of the singly linked list: chains of nodes, ownership, and for every operation of
  LinkedList what it does to the items of a list, which addresses it allocates and frees, and that it
  touches nothing else.
\<close>

section \<open>Chains of nodes\<close>

text \<open>An item of a list: the address of its node, the address of its block, and the bytes there.\<close>

type_synonym item = "addr \<times> addr \<times> byte list"

abbreviation node_addr :: "item \<Rightarrow> addr" where "node_addr x \<equiv> fst x"
abbreviation data_addr :: "item \<Rightarrow> addr" where "data_addr x \<equiv> fst (snd x)"
abbreviation item_bytes :: "item \<Rightarrow> byte list" where "item_bytes x \<equiv> snd (snd x)"

definition node_of :: "item \<Rightarrow> addr \<Rightarrow> node_t" where
  "node_of x n = \<lparr>nd_data = data_addr x, nd_size = length (item_bytes x), nd_next = n\<rparr>"

definition item_at :: "heap \<Rightarrow> item \<Rightarrow> bool" where
  "item_at h x =
     (node_addr x \<noteq> 0 \<and> data_addr x \<noteq> 0 \<and> item_bytes x \<noteq> [] \<and> blocks h (data_addr x) = Some (item_bytes x))"

text \<open>From \<open>p\<close> the \<open>next\<close> pointers lead through the items \<open>cs\<close> to \<open>q\<close>.\<close>

fun chain :: "heap \<Rightarrow> addr \<Rightarrow> item list \<Rightarrow> addr \<Rightarrow> bool" where
  "chain h p [] q = (p = q)"
| "chain h p (x # cs) q =
     (p = node_addr x \<and> item_at h x \<and>
      (\<exists>n. nodes h (node_addr x) = Some (node_of x n) \<and> chain h n cs q))"

definition separate :: "item list \<Rightarrow> bool" where
  "separate cs = (distinct (map node_addr cs) \<and> distinct (map data_addr cs))"

definition list_rep :: "heap \<Rightarrow> addr \<Rightarrow> item list \<Rightarrow> bool" where
  "list_rep h l cs =
     (l \<noteq> 0 \<and> separate cs \<and>
      (\<exists>L. lists h l = Some L \<and> chain h (ls_head L) cs 0 \<and> ls_count L = int (length cs) \<and>
           ls_tail L = (if cs = [] then 0 else node_addr (last cs))))"

text \<open>Nothing lives at NULL or at an address that has not been handed out.\<close>

definition heap_wf :: "heap \<Rightarrow> bool" where
  "heap_wf h = (0 < fresh h \<and>
     (\<forall>a. a = 0 \<or> fresh h \<le> a \<longrightarrow> nodes h a = None \<and> lists h a = None \<and> blocks h a = None))"

text \<open>
  From \<open>h\<close> to \<open>h'\<close> only the list \<open>l\<close> changed: its items went from \<open>cs\<close> to \<open>cs'\<close>, what it no longer owns
  is released, what it owns now and did not before is fresh, and nothing else was touched.
\<close>

definition only_changes :: "addr \<Rightarrow> heap \<Rightarrow> item list \<Rightarrow> heap \<Rightarrow> item list \<Rightarrow> bool" where
  "only_changes l h cs h' cs' =
     ((\<forall>a. a \<notin> node_addr ` set cs \<longrightarrow> a \<notin> node_addr ` set cs' \<longrightarrow> nodes h' a = nodes h a) \<and>
      (\<forall>a. a \<in> node_addr ` set cs \<longrightarrow> a \<notin> node_addr ` set cs' \<longrightarrow> nodes h' a = None) \<and>
      (\<forall>a. a \<in> node_addr ` set cs' \<longrightarrow> a \<notin> node_addr ` set cs \<longrightarrow> fresh h \<le> a) \<and>
      (\<forall>a. a \<notin> data_addr ` set cs \<longrightarrow> a \<notin> data_addr ` set cs' \<longrightarrow> blocks h' a = blocks h a) \<and>
      (\<forall>a. a \<in> data_addr ` set cs \<longrightarrow> a \<notin> data_addr ` set cs' \<longrightarrow> blocks h' a = None) \<and>
      (\<forall>a. a \<in> data_addr ` set cs' \<longrightarrow> a \<notin> data_addr ` set cs \<longrightarrow> fresh h \<le> a) \<and>
      (\<forall>p. p \<noteq> l \<longrightarrow> lists h' p = lists h p) \<and> fresh h \<le> fresh h' \<and> oom h' = oom h)"

named_theorems heap_simps \<open>evaluation of the heap operations\<close>

lemma load_simps [heap_simps]:
  "p \<noteq> 0 \<Longrightarrow> load_node h p = nodes h p"
  "p \<noteq> 0 \<Longrightarrow> load_list h p = lists h p"
  "p \<noteq> 0 \<Longrightarrow> load_block h p = blocks h p"
  by (simp_all add: load_node_def load_list_def load_block_def)

lemma store_simps [heap_simps]:
  "p \<noteq> 0 \<Longrightarrow> nodes h p = Some nd0 \<Longrightarrow> store_node h p nd = Some (h\<lparr>nodes := (nodes h)(p \<mapsto> nd)\<rparr>)"
  "p \<noteq> 0 \<Longrightarrow> lists h p = Some l0 \<Longrightarrow> store_list h p l = Some (h\<lparr>lists := (lists h)(p \<mapsto> l)\<rparr>)"
  by (simp_all add: store_node_def store_list_def load_simps)

lemma free_simps [heap_simps]:
  "p \<noteq> 0 \<Longrightarrow> nodes h p = Some nd0 \<Longrightarrow> free_node h p = Some (h\<lparr>nodes := (nodes h)(p := None)\<rparr>)"
  "p \<noteq> 0 \<Longrightarrow> lists h p = Some l0 \<Longrightarrow> free_list h p = Some (h\<lparr>lists := (lists h)(p := None)\<rparr>)"
  "p \<noteq> 0 \<Longrightarrow> blocks h p = Some b \<Longrightarrow> free_bytes h p = Some (h\<lparr>blocks := (blocks h)(p := None)\<rparr>)"
  by (simp_all add: free_node_def free_list_def free_bytes_def)

lemma node_of_simps [simp]:
  "nd_data (node_of x n) = data_addr x" "nd_size (node_of x n) = length (item_bytes x)"
  "nd_next (node_of x n) = n" "(node_of x n)\<lparr>nd_next := m\<rparr> = node_of x m"
  by (simp_all add: node_of_def)

lemma separate_simps [simp]:
  "separate []"
  "separate (x # cs) = (node_addr x \<notin> node_addr ` set cs \<and> data_addr x \<notin> data_addr ` set cs \<and> separate cs)"
  "separate (cs @ ds) = (separate cs \<and> separate ds \<and>
     node_addr ` set cs \<inter> node_addr ` set ds = {} \<and> data_addr ` set cs \<inter> data_addr ` set ds = {})"
  by (auto simp: separate_def)

lemma chain_append: "chain h p (cs @ ds) q = (\<exists>m. chain h p cs m \<and> chain h m ds q)"
  by (induction cs arbitrary: p) auto

lemma chain_cong:
  "chain h p cs q \<Longrightarrow> (\<And>a. a \<in> node_addr ` set cs \<Longrightarrow> nodes h' a = nodes h a) \<Longrightarrow>
   (\<And>a. a \<in> data_addr ` set cs \<Longrightarrow> blocks h' a = blocks h a) \<Longrightarrow> chain h' p cs q"
  by (induction cs arbitrary: p) (auto simp: item_at_def)

lemma chain_start: "chain h p cs q \<Longrightarrow> p = (if cs = [] then q else node_addr (hd cs))"
  by (cases cs) auto

lemma chain_nonzero: "chain h p cs q \<Longrightarrow> x \<in> set cs \<Longrightarrow> item_at h x"
  by (induction cs arbitrary: p) auto

lemma chain_owned: "chain h p cs q \<Longrightarrow> x \<in> set cs \<Longrightarrow>
    \<exists>n. nodes h (node_addr x) = Some (node_of x n) \<and> blocks h (data_addr x) = Some (item_bytes x)"
  by (induction cs arbitrary: p) (auto simp: item_at_def)

text \<open>A chain does not see writes to other nodes, to list structures or to the counters.\<close>

lemma chain_upd_other:
  "chain h p cs q \<Longrightarrow> a \<notin> node_addr ` set cs \<Longrightarrow> chain (h\<lparr>nodes := (nodes h)(a := v)\<rparr>) p cs q"
  by (erule chain_cong) auto

text \<open>Redirecting the last \<open>next\<close> pointer of a chain.\<close>

lemma chain_redirect:
  assumes "chain h p (cs @ [x]) q" "separate (cs @ [x])"
  shows "chain (h\<lparr>nodes := (nodes h)(node_addr x \<mapsto> node_of x m)\<rparr>) p (cs @ [x]) m"
proof -
  obtain k where k: "chain h p cs k" "chain h k [x] q" using assms(1) by (auto simp: chain_append)
  have x: "node_addr x \<notin> node_addr ` set cs" using assms(2) by simp
  have "chain (h\<lparr>nodes := (nodes h)(node_addr x \<mapsto> node_of x m)\<rparr>) p cs k"
    by (rule chain_upd_other [OF k(1) x])
  with k(2) show ?thesis by (auto simp: chain_append item_at_def)
qed

text \<open>Fresh addresses belong to no item.\<close>

lemma chain_fresh:
  assumes "chain h p cs q" "heap_wf h"
  shows "\<forall>x\<in>set cs. node_addr x < fresh h \<and> data_addr x < fresh h"
proof
  fix x assume "x \<in> set cs"
  with chain_owned [OF assms(1)] obtain n where
    "nodes h (node_addr x) = Some (node_of x n)" "blocks h (data_addr x) = Some (item_bytes x)" by blast
  with assms(2) show "node_addr x < fresh h \<and> data_addr x < fresh h"
    by (metis heap_wf_def not_le option.distinct(1))
qed

lemma fresh_not_in:
  assumes "chain h p cs q" "heap_wf h" "fresh h \<le> a"
  shows "a \<notin> node_addr ` set cs" "a \<notin> data_addr ` set cs"
  using chain_fresh [OF assms(1,2)] assms(3) by auto

lemma only_changesD:
  assumes "only_changes l h cs h' cs'"
  shows "a \<notin> node_addr ` set cs \<Longrightarrow> a \<notin> node_addr ` set cs' \<Longrightarrow> nodes h' a = nodes h a"
    "a \<in> node_addr ` set cs' \<Longrightarrow> a \<notin> node_addr ` set cs \<Longrightarrow> fresh h \<le> a"
    "a \<notin> data_addr ` set cs \<Longrightarrow> a \<notin> data_addr ` set cs' \<Longrightarrow> blocks h' a = blocks h a"
    "a \<in> data_addr ` set cs' \<Longrightarrow> a \<notin> data_addr ` set cs \<Longrightarrow> fresh h \<le> a"
    "p \<noteq> l \<Longrightarrow> lists h' p = lists h p"
    "a \<in> node_addr ` set cs \<Longrightarrow> a \<notin> node_addr ` set cs' \<Longrightarrow> nodes h' a = None"
    "a \<in> data_addr ` set cs \<Longrightarrow> a \<notin> data_addr ` set cs' \<Longrightarrow> blocks h' a = None"
    "fresh h \<le> fresh h'" "oom h' = oom h"
  using assms by (simp_all add: only_changes_def)

lemma other_list_kept:
  assumes oc: "only_changes l h cs h' cs'" and rep: "list_rep h k ds" and "k \<noteq> l" and wf: "heap_wf h"
    and dj: "node_addr ` set cs \<inter> node_addr ` set ds = {}" "data_addr ` set cs \<inter> data_addr ` set ds = {}"
  shows "list_rep h' k ds"
proof -
  obtain L where L: "lists h k = Some L" "chain h (ls_head L) ds 0" using rep by (auto simp: list_rep_def)
  have kept: "a \<notin> node_addr ` set cs \<Longrightarrow> \<not> fresh h \<le> a \<Longrightarrow> nodes h' a = nodes h a"
    "a \<notin> data_addr ` set cs \<Longrightarrow> \<not> fresh h \<le> a \<Longrightarrow> blocks h' a = blocks h a" for a
    using only_changesD [OF oc] by metis+
  have "chain h' (ls_head L) ds 0"
  proof (rule chain_cong [OF L(2)])
    fix a assume a: "a \<in> node_addr ` set ds"
    then have "\<not> fresh h \<le> a" using fresh_not_in(1) [OF L(2) wf] by blast
    moreover have "a \<notin> node_addr ` set cs" using a dj(1) by blast
    ultimately show "nodes h' a = nodes h a" by (rule kept(1) [rotated])
  next
    fix a assume a: "a \<in> data_addr ` set ds"
    then have "\<not> fresh h \<le> a" using fresh_not_in(2) [OF L(2) wf] by blast
    moreover have "a \<notin> data_addr ` set cs" using a dj(2) by blast
    ultimately show "blocks h' a = blocks h a" by (rule kept(2) [rotated])
  qed
  moreover have "lists h' k = lists h k" using oc \<open>k \<noteq> l\<close> by (simp add: only_changes_def)
  ultimately show ?thesis using rep L by (auto simp: list_rep_def)
qed

section \<open>Insertion\<close>

lemma insert_search:
  assumes "chain h p cs 0" "Suc k < length cs"
  shows "insert_search h (int idx + int k) p idx = Some (node_addr (cs ! k))"
  using assms
proof (induction cs arbitrary: p k idx)
  case (Cons x cs)
  then obtain n y ds where n: "p = node_addr x" "item_at h x" "nodes h p = Some (node_of x n)" "chain h n cs 0"
    and cs: "cs = y # ds"
    by (cases cs) auto
  then have ne: "p \<noteq> 0" "n \<noteq> 0" by (auto simp: item_at_def)
  show ?case
  proof (cases k)
    case 0
    then show ?thesis using n ne by (subst insert_search.simps) (simp add: load_simps)
  next
    case (Suc j)
    have "insert_search h (int (idx + 1) + int j) n (idx + 1) = Some (node_addr (cs ! j))"
      by (rule Cons.IH [OF n(4)]) (use Cons.prems Suc in auto)
    then show ?thesis using n ne Suc by (subst insert_search.simps) (simp add: load_simps algebra_simps)
  qed
qed simp

text \<open>
  Relinking: only the nodes of \<open>A\<close> and the structure \<open>l\<close> are written, nothing is allocated or freed.
\<close>

definition relinks :: "addr \<Rightarrow> addr set \<Rightarrow> heap \<Rightarrow> heap \<Rightarrow> bool" where
  "relinks l A h h' =
     ((\<forall>a. a \<notin> A \<longrightarrow> nodes h' a = nodes h a) \<and> (\<forall>a. nodes h' a = None \<longleftrightarrow> nodes h a = None) \<and>
      (\<forall>p. p \<noteq> l \<longrightarrow> lists h' p = lists h p) \<and> (\<forall>p. lists h' p = None \<longleftrightarrow> lists h p = None) \<and>
      blocks h' = blocks h \<and> fresh h' = fresh h \<and> oom h' = oom h)"

lemma relinks_wf: "relinks l A h h' \<Longrightarrow> heap_wf h \<Longrightarrow> heap_wf h'"
  by (simp add: relinks_def heap_wf_def)

lemma list_repE:
  assumes "list_rep h l cs"
  obtains L where "lists h l = Some L" "l \<noteq> 0" "chain h (ls_head L) cs 0" "ls_count L = int (length cs)"
    "ls_tail L = (if cs = [] then 0 else node_addr (last cs))" "separate cs"
  using assms by (auto simp: list_rep_def)

lemma list_repI:
  "lists h l = Some L \<Longrightarrow> l \<noteq> 0 \<Longrightarrow> chain h (ls_head L) cs 0 \<Longrightarrow> ls_count L = int (length cs) \<Longrightarrow>
   ls_tail L = (if cs = [] then 0 else node_addr (last cs)) \<Longrightarrow> separate cs \<Longrightarrow> list_rep h l cs"
  by (simp add: list_rep_def)

lemma chain_lists [simp]: "chain (h\<lparr>lists := ls\<rparr>) p cs q = chain h p cs q"
  by (rule iffI; erule chain_cong) auto

lemma item_at_simps [simp]:
  "item_at (h\<lparr>lists := ls\<rparr>) x = item_at h x" "item_at (h\<lparr>nodes := ns\<rparr>) x = item_at h x"
  by (simp_all add: item_at_def)

lemma add_to_head:
  assumes rep: "list_rep h l cs" and x: "item_at h x" "nodes h (node_addr x) = Some (node_of x n)"
    and sep: "separate (x # cs)"
  shows "\<exists>h'. list_internal_add_to_head l (node_addr x) h = Some h' \<and> list_rep h' l (x # cs) \<and>
    relinks l {node_addr x} h h'"
proof -
  obtain L where L: "lists h l = Some L" "l \<noteq> 0" "chain h (ls_head L) cs 0" "ls_count L = int (length cs)"
      "ls_tail L = (if cs = [] then 0 else node_addr (last cs))"
    using rep by (rule list_repE)
  have nx: "node_addr x \<noteq> 0" using x(1) by (simp add: item_at_def)
  let ?L = "if cs = [] then L\<lparr>ls_iterator := node_addr x, ls_head := node_addr x, ls_tail := node_addr x, ls_count := 1\<rparr>
            else L\<lparr>ls_head := node_addr x, ls_count := ls_count L + 1\<rparr>"
  let ?h = "h\<lparr>nodes := (nodes h)(node_addr x \<mapsto> node_of x (ls_head L)), lists := (lists h)(l \<mapsto> ?L)\<rparr>"
  have "list_internal_add_to_head l (node_addr x) h = Some ?h"
    using L x(2) nx by (auto simp: list_internal_add_to_head_def heap_simps)
  moreover have "chain (h\<lparr>nodes := (nodes h)(node_addr x \<mapsto> node_of x (ls_head L))\<rparr>) (ls_head L) cs 0"
    by (rule chain_upd_other [OF L(3)]) (use sep in simp)
  then have "list_rep ?h l (x # cs)"
    using L x(1) sep by (intro list_repI [where L = ?L]) auto
  moreover have "relinks l {node_addr x} h ?h" using x(2) L(1) by (auto simp: relinks_def)
  ultimately show ?thesis by blast
qed

lemma add_to_tail:
  assumes rep: "list_rep h l cs" and x: "item_at h x" "nodes h (node_addr x) = Some (node_of x n)"
    and sep: "separate (cs @ [x])"
  shows "\<exists>h'. list_internal_add_to_tail l (node_addr x) h = Some h' \<and> list_rep h' l (cs @ [x]) \<and>
    relinks l (node_addr ` set (cs @ [x])) h h'"
proof -
  obtain L where L: "lists h l = Some L" "l \<noteq> 0" "chain h (ls_head L) cs 0" "ls_count L = int (length cs)"
      "ls_tail L = (if cs = [] then 0 else node_addr (last cs))" "separate cs"
    using rep by (rule list_repE)
  have nx: "node_addr x \<noteq> 0" "node_addr x \<notin> node_addr ` set cs" using x(1) sep by (auto simp: item_at_def)
  let ?h1 = "h\<lparr>nodes := (nodes h)(node_addr x \<mapsto> node_of x 0)\<rparr>"
  have c1: "chain ?h1 (ls_head L) cs 0" by (rule chain_upd_other [OF L(3) nx(2)])
  show ?thesis
  proof (cases cs rule: rev_cases)
    case Nil
    let ?L = "L\<lparr>ls_iterator := node_addr x, ls_head := node_addr x, ls_tail := node_addr x, ls_count := 1\<rparr>"
    let ?h = "?h1\<lparr>lists := (lists h)(l \<mapsto> ?L)\<rparr>"
    have "list_internal_add_to_tail l (node_addr x) h = Some ?h"
      using L x(2) nx Nil by (auto simp: list_internal_add_to_tail_def heap_simps)
    moreover have "list_rep ?h l (cs @ [x])"
      using L x(1) sep Nil by (intro list_repI [where L = ?L]) auto
    moreover have "relinks l (node_addr ` set (cs @ [x])) h ?h" using x(2) L(1) by (auto simp: relinks_def)
    ultimately show ?thesis by blast
  next
    case (snoc ds t)
    let ?L = "L\<lparr>ls_tail := node_addr x, ls_count := ls_count L + 1\<rparr>"
    let ?h2 = "?h1\<lparr>nodes := (nodes ?h1)(node_addr t \<mapsto> node_of t (node_addr x))\<rparr>"
    let ?h = "?h2\<lparr>lists := (lists h)(l \<mapsto> ?L)\<rparr>"
    have c2: "chain ?h2 (ls_head L) cs (node_addr x)"
      using chain_redirect [of ?h1 "ls_head L" ds t 0 "node_addr x"] c1 L(6) snoc by simp
    obtain m where t: "nodes h (node_addr t) = Some (node_of t m)" "item_at h t"
      using L(3) snoc by (auto simp: chain_append)
    then have nt: "node_addr t \<noteq> 0" "node_addr t \<noteq> node_addr x"
      using nx(2) snoc by (auto simp: item_at_def)
    have "list_internal_add_to_tail l (node_addr x) h = Some ?h"
      using L x(2) nx snoc t nt by (auto simp: list_internal_add_to_tail_def heap_simps)
    moreover have "list_rep ?h l (cs @ [x])"
      using L x(1) sep c2 nt by (intro list_repI [where L = ?L]) (auto simp: chain_append [of _ _ cs])
    moreover have "relinks l (node_addr ` set (cs @ [x])) h ?h"
      using x(2) L(1) t(1) snoc by (auto simp: relinks_def)
    ultimately show ?thesis by blast
  qed
qed

text \<open>The inner insertion: behind the node \<open>c\<close>, in front of its successor.\<close>

lemma add_inside:
  assumes rep: "list_rep h l (xs @ c # ys)" and x: "item_at h x" "nodes h (node_addr x) = Some (node_of x n)"
    and sep: "separate (xs @ c # x # ys)" and ys: "ys \<noteq> []"
  shows "\<exists>L cur. lists h l = Some L \<and> load_node h (node_addr c) = Some cur \<and>
    (let h1 = h\<lparr>nodes := (nodes h)(node_addr c \<mapsto> cur\<lparr>nd_next := node_addr x\<rparr>)\<rparr>;
         h2 = h1\<lparr>nodes := (nodes h1)(node_addr x \<mapsto> node_of x (nd_next cur))\<rparr>;
         h3 = h2\<lparr>lists := (lists h)(l \<mapsto> L\<lparr>ls_count := ls_count L + 1\<rparr>)\<rparr>
     in list_rep h3 l (xs @ c # x # ys) \<and> relinks l (node_addr ` set (xs @ c # x # ys)) h h3)"
proof -
  obtain L where L: "lists h l = Some L" "l \<noteq> 0" "chain h (ls_head L) (xs @ c # ys) 0"
      "ls_count L = int (length (xs @ c # ys))" "ls_tail L = node_addr (last (c # ys))"
    using rep by (rule list_repE) (simp split: if_splits)
  obtain m where m: "chain h (ls_head L) xs (node_addr c)" "item_at h c" "nodes h (node_addr c) = Some (node_of c m)"
    "chain h m ys 0" using L(3) by (auto simp: chain_append)
  let ?h1 = "h\<lparr>nodes := (nodes h)(node_addr c \<mapsto> node_of c (node_addr x))\<rparr>"
  let ?h2 = "?h1\<lparr>nodes := (nodes ?h1)(node_addr x \<mapsto> node_of x m)\<rparr>"
  let ?L = "L\<lparr>ls_count := ls_count L + 1\<rparr>"
  let ?h3 = "?h2\<lparr>lists := (lists h)(l \<mapsto> ?L)\<rparr>"
  have nx: "node_addr x \<notin> node_addr ` set xs" "node_addr x \<noteq> node_addr c" "node_addr x \<notin> node_addr ` set ys"
    "node_addr c \<notin> node_addr ` set xs" "node_addr c \<notin> node_addr ` set ys" "node_addr c \<noteq> 0"
    using sep m(2) by (auto simp: item_at_def image_iff)
  have "chain ?h2 (ls_head L) xs (node_addr c)"
    by (intro chain_upd_other [OF chain_upd_other]) (use m nx in simp_all)
  moreover have "chain ?h2 m ys 0"
    by (intro chain_upd_other [OF chain_upd_other]) (use m nx in simp_all)
  ultimately have "chain ?h2 (ls_head L) (xs @ c # x # ys) 0"
    using m x nx by (auto simp: chain_append)
  then have "list_rep ?h3 l (xs @ c # x # ys)"
    using L sep ys by (intro list_repI [where L = ?L]) auto
  moreover have "relinks l (node_addr ` set (xs @ c # x # ys)) h ?h3"
    using m(3) x(2) L(1) by (auto simp: relinks_def)
  ultimately show ?thesis using L(1) m(3) nx(6) by (auto simp: load_simps Let_def)
qed

text \<open>The two allocations of \<open>list_insert\<close> and the copy make a detached item.\<close>

definition with_item :: "heap \<Rightarrow> item \<Rightarrow> heap" where
  "with_item h x = h\<lparr>fresh := fresh h + 2, blocks := (blocks h)(data_addr x \<mapsto> item_bytes x),
     nodes := (nodes h)(node_addr x \<mapsto> node_of x 0)\<rparr>"

definition new_item :: "heap \<Rightarrow> byte list \<Rightarrow> item" where
  "new_item h bs = (fresh h, fresh h + 1, bs)"

lemma with_item_simps [simp]:
  "lists (with_item h x) = lists h" "oom (with_item h x) = oom h" "fresh (with_item h x) = fresh h + 2"
  by (simp_all add: with_item_def)

lemma chain_list_rep_upd:
  assumes "list_rep h l cs" "\<And>a. a \<in> node_addr ` set cs \<Longrightarrow> nodes h' a = nodes h a"
    "\<And>a. a \<in> data_addr ` set cs \<Longrightarrow> blocks h' a = blocks h a" "lists h' l = lists h l"
  shows "list_rep h' l cs"
proof -
  obtain L where L: "lists h l = Some L" "l \<noteq> 0" "chain h (ls_head L) cs 0" "ls_count L = int (length cs)"
      "ls_tail L = (if cs = [] then 0 else node_addr (last cs))" "separate cs"
    using assms(1) by (rule list_repE)
  have "chain h' (ls_head L) cs 0" using chain_cong [OF L(3) assms(2,3)] .
  with L assms(4) show ?thesis by (intro list_repI) auto
qed

lemma new_item_ready:
  assumes wf: "heap_wf h" and rep: "list_rep h l cs" and bs: "bs \<noteq> []"
  shows "heap_wf (with_item h (new_item h bs))" "list_rep (with_item h (new_item h bs)) l cs"
    "item_at (with_item h (new_item h bs)) (new_item h bs)"
    "nodes (with_item h (new_item h bs)) (node_addr (new_item h bs)) = Some (node_of (new_item h bs) 0)"
    "node_addr (new_item h bs) \<notin> node_addr ` set cs" "data_addr (new_item h bs) \<notin> data_addr ` set cs"
proof -
  obtain L :: list_t where L: "chain h (ls_head L) cs 0" using rep by (auto simp: list_rep_def)
  show fresh_item: "node_addr (new_item h bs) \<notin> node_addr ` set cs" "data_addr (new_item h bs) \<notin> data_addr ` set cs"
    using fresh_not_in [OF L wf] by (simp_all add: new_item_def)
  show "heap_wf (with_item h (new_item h bs))" using wf by (auto simp: heap_wf_def with_item_def new_item_def)
  show "item_at (with_item h (new_item h bs)) (new_item h bs)"
    "nodes (with_item h (new_item h bs)) (node_addr (new_item h bs)) = Some (node_of (new_item h bs) 0)"
    using wf bs by (auto simp: item_at_def heap_wf_def with_item_def new_item_def)
  show "list_rep (with_item h (new_item h bs)) l cs"
  proof (rule chain_list_rep_upd [OF rep])
    fix a assume "a \<in> node_addr ` set cs"
    with fresh_item(1) have "a \<noteq> node_addr (new_item h bs)" by metis
    then show "nodes (with_item h (new_item h bs)) a = nodes h a" by (simp add: with_item_def)
  next
    fix a assume "a \<in> data_addr ` set cs"
    with fresh_item(2) have "a \<noteq> data_addr (new_item h bs)" by metis
    then show "blocks (with_item h (new_item h bs)) a = blocks h a" by (simp add: with_item_def)
  qed simp
qed

text \<open>A relinking of the detached item into the list is an insertion.\<close>

lemma relinks_insertion:
  assumes wf: "heap_wf h" and rep: "list_rep h l cs" and bs: "bs \<noteq> []"
    and r: "relinks l A (with_item h (new_item h bs)) h'" and A: "A \<subseteq> node_addr ` set cs'"
    and cs': "set cs' = insert (new_item h bs) (set cs)"
  shows "heap_wf h'" "only_changes l h cs h' cs'"
proof -
  show "heap_wf h'" using relinks_wf [OF r] new_item_ready(1) [OF wf rep bs] by blast
  have "nodes h' a = nodes h a" if "a \<notin> node_addr ` set cs'" for a
  proof -
    have "a \<notin> A" "a \<noteq> node_addr (new_item h bs)" using that A cs' by auto
    with r show ?thesis by (simp add: relinks_def with_item_def)
  qed
  moreover have "blocks h' a = blocks h a" if "a \<notin> data_addr ` set cs'" for a
  proof -
    have "a \<noteq> data_addr (new_item h bs)" using that cs' by auto
    with r show ?thesis by (simp add: relinks_def with_item_def)
  qed
  moreover have "fresh h \<le> node_addr (new_item h bs)" "fresh h \<le> data_addr (new_item h bs)"
    by (simp_all add: new_item_def)
  ultimately show "only_changes l h cs h' cs'"
    using r cs' unfolding only_changes_def by (simp add: relinks_def)
qed

definition insert_at :: "nat \<Rightarrow> 'a \<Rightarrow> 'a list \<Rightarrow> 'a list" where
  "insert_at k x xs = take k xs @ x # drop k xs"

lemma set_insert_at [simp]: "set (insert_at k x xs) = insert x (set xs)"
  by (auto simp: insert_at_def dest: in_set_takeD in_set_dropD) (metis Un_iff append_take_drop_id set_append)

lemma separate_insert_at:
  assumes "separate cs" "node_addr x \<notin> node_addr ` set cs" "data_addr x \<notin> data_addr ` set cs"
  shows "separate (insert_at k x cs)"
proof -
  have "separate (take k cs @ drop k cs)" using assms(1) by simp
  moreover have "set cs = set (take k cs) \<union> set (drop k cs)" by (metis append_take_drop_id set_append)
  ultimately show ?thesis using assms(2,3) unfolding insert_at_def separate_simps by auto
qed

lemma list_insert_correct:
  assumes wf: "heap_wf h" and rep: "list_rep h l cs" and sz: "0 < sz" "sz \<le> length src"
    and pos: "pos = LONG_MAX \<and> k = length cs \<or> pos = int k \<and> k \<le> length cs \<and> pos < LONG_MAX"
    and ok: "\<not> oom h (fresh h)" "\<not> oom h (fresh h + 1)"
  shows "\<exists>h'. list_insert l (Some src) sz pos h = Some h' \<and> heap_wf h' \<and>
     list_rep h' l (insert_at k (new_item h (take sz src)) cs) \<and>
     only_changes l h cs h' (insert_at k (new_item h (take sz src)) cs)"
proof -
  let ?x = "new_item h (take sz src)"
  let ?cs = "insert_at k ?x cs"
  let ?h = "with_item h ?x"
  have bs: "take sz src \<noteq> []" using sz by auto
  note ready = new_item_ready [OF wf rep bs]
  obtain L where L: "lists h l = Some L" "l \<noteq> 0" "chain h (ls_head L) cs 0" "ls_count L = int (length cs)"
    "separate cs"
    using rep by (rule list_repE)
  have sep: "separate ?cs" by (rule separate_insert_at [OF L(5) ready(5,6)])
  have f0: "fresh h \<noteq> 0" using wf by (simp add: heap_wf_def)
  let ?f = "list_insert_link l L (node_addr ?x) (int k)"
  have k: "k \<le> length cs" using pos by auto
  have run: "list_insert l (Some src) sz pos h = ?f ?h"
  proof -
    have p: "(if pos = LONG_MAX then ls_count L else pos) = int k" using pos L(4) by auto
    have x: "?x = (fresh h, Suc (fresh h), take sz src)" by (simp add: new_item_def)
    show ?thesis
      using L(1,2,4) sz ok f0 k unfolding with_item_def x node_of_def
      by (simp add: list_insert_def p calloc_node_def calloc_bytes_def Let_def heap_simps write_block_def
          mem_copy_Some min_absorb2)
  qed
  have "\<exists>h'. ?f ?h = Some h' \<and> list_rep h' l ?cs \<and> relinks l (node_addr ` set ?cs) ?h h'"
  proof -
    consider "k = 0" | "0 < k" "k = length cs" | "0 < k" "k < length cs" using k by linarith
    then show ?thesis
    proof cases
      case 1
      then show ?thesis using add_to_head [OF ready(2-4)] sep
        by (auto simp: insert_at_def relinks_def list_insert_link_def)
    next
      case 2
      then show ?thesis using add_to_tail [OF ready(2-4)] sep L(4) by (auto simp: insert_at_def list_insert_link_def)
    next
      case 3
      then obtain j where j: "k = Suc j" "j < length cs" by (cases k) auto
      define c xs ys where c: "c = cs ! j" and xs: "xs = take j cs" and ys: "ys = drop k cs"
      have cs: "cs = xs @ c # ys" using id_take_nth_drop [OF j(2)] j(1) by (simp add: c xs ys)
      have ins: "?cs = xs @ c # ?x # ys" using j(2) by (simp add: insert_at_def ys xs c j(1) take_Suc_conv_app_nth)
      have "list_rep ?h l (xs @ c # ys)" "separate (xs @ c # ?x # ys)" using ready(2) sep cs ins by simp_all
      moreover have "ys \<noteq> []" using 3 by (simp add: ys)
      ultimately have "\<exists>L' cur. lists ?h l = Some L' \<and> load_node ?h (node_addr c) = Some cur \<and>
        (let h1 = ?h\<lparr>nodes := (nodes ?h)(node_addr c \<mapsto> cur\<lparr>nd_next := node_addr ?x\<rparr>)\<rparr>;
             h2 = h1\<lparr>nodes := (nodes h1)(node_addr ?x \<mapsto> node_of ?x (nd_next cur))\<rparr>;
             h3 = h2\<lparr>lists := (lists ?h)(l \<mapsto> L'\<lparr>ls_count := ls_count L' + 1\<rparr>)\<rparr>
         in list_rep h3 l (xs @ c # ?x # ys) \<and> relinks l (node_addr ` set (xs @ c # ?x # ys)) ?h h3)"
        by (intro add_inside [OF _ ready(3,4)])
      then
      obtain cur where a: "load_node ?h (node_addr c) = Some cur"
        "list_rep (?h\<lparr>nodes := (nodes ?h)(node_addr c \<mapsto> cur\<lparr>nd_next := node_addr ?x\<rparr>,
            node_addr ?x \<mapsto> node_of ?x (nd_next cur)),
           lists := (lists ?h)(l \<mapsto> L\<lparr>ls_count := ls_count L + 1\<rparr>)\<rparr>) l ?cs"
        "relinks l (node_addr ` set ?cs) ?h
          (?h\<lparr>nodes := (nodes ?h)(node_addr c \<mapsto> cur\<lparr>nd_next := node_addr ?x\<rparr>,
            node_addr ?x \<mapsto> node_of ?x (nd_next cur)),
           lists := (lists ?h)(l \<mapsto> L\<lparr>ls_count := ls_count L + 1\<rparr>)\<rparr>)"
        unfolding ins using L(1) by (auto simp: Let_def)
      have "chain ?h (ls_head L) cs 0" using ready(2) L(1) by (simp add: list_rep_def)
      from insert_search [OF this, of j 1] have s: "insert_search ?h (int k) (ls_head L) 1 = Some (node_addr c)"
        using 3 j(1) by (simp add: c)
      have c0: "node_addr c \<noteq> 0" "node_addr ?x \<noteq> 0" "node_addr c \<noteq> node_addr ?x"
        using a(1) f0 ready(5) cs by (auto simp: load_node_def new_item_def split: if_splits)
      then have "nodes ?h (node_addr c) = Some cur" using a(1) by (simp add: load_simps)
      then show ?thesis
        using 3 s a(2,3) c0 ready(4) L(1,2,4) by (simp add: heap_simps list_insert_link_def)
    qed
  qed
  then obtain h' where h': "?f ?h = Some h'" "list_rep h' l ?cs" "relinks l (node_addr ` set ?cs) ?h h'"
    by blast
  with run relinks_insertion [OF wf rep bs h'(3) subset_refl] show ?thesis by simp
qed

section \<open>Removal\<close>

definition delete_at :: "nat \<Rightarrow> 'a list \<Rightarrow> 'a list" where
  "delete_at k xs = take k xs @ drop (Suc k) xs"

text \<open>
  Cutting \<open>x\<close> out: its node and block are released, the chain around it is closed, and only nodes of the
  list were written.
\<close>

lemma cut_item:
  assumes wf: "heap_wf h" and rep: "list_rep h l (xs @ x # ys)"
    and L': "lists h' l = Some L'" "chain h' (ls_head L') (xs @ ys) 0" "ls_count L' = int (length (xs @ ys))"
      "ls_tail L' = (if xs @ ys = [] then 0 else node_addr (last (xs @ ys)))"
    and n: "\<And>a. a \<notin> node_addr ` set (xs @ x # ys) \<Longrightarrow> nodes h' a = nodes h a" "nodes h' (node_addr x) = None"
    and b: "blocks h' = (blocks h)(data_addr x := None)"
    and rest: "\<And>p. p \<noteq> l \<Longrightarrow> lists h' p = lists h p" "fresh h' = fresh h" "oom h' = oom h"
  shows "heap_wf h' \<and> list_rep h' l (xs @ ys) \<and> only_changes l h (xs @ x # ys) h' (xs @ ys)"
proof (intro conjI)
  obtain L where L: "lists h l = Some L" "l \<noteq> 0" "chain h (ls_head L) (xs @ x # ys) 0" "separate (xs @ x # ys)"
    using rep by (rule list_repE)
  have N: "node_addr ` set (xs @ x # ys) = insert (node_addr x) (node_addr ` set (xs @ ys))"
    "data_addr ` set (xs @ x # ys) = insert (data_addr x) (data_addr ` set (xs @ ys))" by auto
  have f: "\<not> fresh h \<le> a" "a \<noteq> 0" if "a \<in> node_addr ` set (xs @ x # ys)" for a
    using that fresh_not_in(1) [OF L(3) wf] chain_nonzero [OF L(3)] unfolding item_at_def by blast+
  have lf: "\<not> fresh h \<le> l" using L(1) wf by (auto simp: heap_wf_def)
  show "heap_wf h'"
    unfolding heap_wf_def
  proof (intro conjI allI impI)
    show "0 < fresh h'" using wf rest by (simp add: heap_wf_def)
    fix a assume a: "a = 0 \<or> fresh h' \<le> a"
    then have na: "a \<notin> node_addr ` set (xs @ x # ys)" using f rest(2) by metis
    have nl: "a \<noteq> l" using a lf L(2) rest(2) by auto
    have "nodes h a = None \<and> lists h a = None \<and> blocks h a = None"
      using a wf rest(2) unfolding heap_wf_def by metis
    with n(1) [OF na] rest(1) [OF nl] b
    show "nodes h' a = None" "lists h' a = None" "blocks h' a = None" by simp_all
  qed
  show "list_rep h' l (xs @ ys)"
    using L(2,4) L' by (intro list_repI [where L = L']) simp_all
  have sep: "node_addr x \<notin> node_addr ` set (xs @ ys)" "data_addr x \<notin> data_addr ` set (xs @ ys)"
    using L(4) by (simp_all add: image_Un)
  show "only_changes l h (xs @ x # ys) h' (xs @ ys)"
    unfolding only_changes_def N using n(1) [unfolded N] n(2) b rest by auto
qed

lemma remove_from_head:
  assumes wf: "heap_wf h" and rep: "list_rep h l (x # cs)"
  shows "\<exists>h'. list_internal_remove_from_head l h = Some h' \<and> heap_wf h' \<and> list_rep h' l cs \<and>
     only_changes l h (x # cs) h' cs"
proof -
  obtain L where L: "lists h l = Some L" "l \<noteq> 0" "chain h (ls_head L) (x # cs) 0" "ls_count L = int (length (x # cs))"
      "ls_tail L = node_addr (last (x # cs))" "separate (x # cs)"
    using rep by (rule list_repE) simp
  obtain n where n: "ls_head L = node_addr x" "item_at h x" "nodes h (node_addr x) = Some (node_of x n)" "chain h n cs 0"
    using L(3) by auto
  let ?L1 = "L\<lparr>ls_head := n, ls_count := int (length cs)\<rparr>"
  let ?L = "if ls_count ?L1 = 0 then ?L1\<lparr>ls_tail := 0\<rparr> else ?L1"
  let ?h = "h\<lparr>blocks := (blocks h)(data_addr x := None), nodes := (nodes h)(node_addr x := None),
              lists := (lists h)(l \<mapsto> ?L)\<rparr>"
  have run: "list_internal_remove_from_head l h = Some ?h"
    using L(1,2,4) n by (simp add: list_internal_remove_from_head_def heap_simps item_at_def Let_def)
  have "chain ?h n cs 0"
    by (rule chain_cong [OF n(4)]) (use L(6) in \<open>auto simp: image_iff\<close>)
  then have "heap_wf ?h \<and> list_rep ?h l ([] @ cs) \<and> only_changes l h ([] @ x # cs) ?h ([] @ cs)"
    using L(5) by (intro cut_item [OF wf, where L' = ?L]) (use rep in auto)
  with run show ?thesis by auto
qed

lemma before_tail:
  assumes "chain h p (xs @ [c, t]) 0" "separate (xs @ [c, t])"
  shows "before_tail h (node_addr t) p = Some (node_addr c)"
  using assms
proof (induction xs arbitrary: p)
  case Nil
  then show ?case by (subst before_tail.simps) (auto simp: load_simps item_at_def)
next
  case (Cons x xs)
  then obtain n where n: "p = node_addr x" "item_at h x" "nodes h p = Some (node_of x n)" "chain h n (xs @ [c, t]) 0"
    by auto
  have "n \<noteq> node_addr t" using chain_start [OF n(4)] Cons.prems(2) by (cases xs) auto
  with Cons.IH [OF n(4)] Cons.prems(2) n show ?case
    by (subst before_tail.simps) (auto simp: load_simps item_at_def)
qed

lemma remove_from_tail:
  assumes wf: "heap_wf h" and rep: "list_rep h l (cs @ [t])"
  shows "\<exists>h'. list_internal_remove_from_tail l h = Some h' \<and> heap_wf h' \<and> list_rep h' l cs \<and>
     only_changes l h (cs @ [t]) h' cs"
proof -
  obtain L where L: "lists h l = Some L" "l \<noteq> 0" "chain h (ls_head L) (cs @ [t]) 0" "ls_count L = int (length (cs @ [t]))"
      "ls_tail L = node_addr t" "separate (cs @ [t])"
    using rep by (rule list_repE) simp
  have t: "item_at h t" "nodes h (node_addr t) = Some (node_of t 0)" using L(3) by (auto simp: chain_append)
  show ?thesis
  proof (cases cs rule: rev_cases)
    case Nil
    let ?L = "L\<lparr>ls_head := 0, ls_tail := 0, ls_count := 0\<rparr>"
    let ?h = "h\<lparr>blocks := (blocks h)(data_addr t := None), nodes := (nodes h)(node_addr t := None),
                lists := (lists h)(l \<mapsto> ?L)\<rparr>"
    have run: "list_internal_remove_from_tail l h = Some ?h"
      using L t Nil by (simp add: list_internal_remove_from_tail_def heap_simps item_at_def)
    have "heap_wf ?h \<and> list_rep ?h l ([] @ []) \<and> only_changes l h ([] @ t # []) ?h ([] @ [])"
      by (intro cut_item [OF wf, where L' = ?L]) (use rep Nil in auto)
    with run Nil show ?thesis by auto
  next
    case (snoc ds c)
    have cs: "cs @ [t] = ds @ [c, t]" using snoc by simp
    obtain m where c: "item_at h c" "nodes h (node_addr c) = Some (node_of c m)" "chain h (ls_head L) cs (node_addr t)"
      using L(3) snoc by (auto simp: chain_append)
    have ne: "node_addr c \<noteq> node_addr t" "node_addr c \<noteq> 0" "node_addr t \<noteq> 0" "ls_head L \<noteq> node_addr t" "ls_head L \<noteq> 0"
      using L(6) t c snoc chain_start [OF c(3)] by (cases ds; auto simp: item_at_def)+
    have bt: "before_tail h (node_addr t) (ls_head L) = Some (node_addr c)"
      using before_tail [of h "ls_head L" ds c t] L(3,6) cs by simp
    let ?L = "L\<lparr>ls_tail := node_addr c, ls_count := int (length cs)\<rparr>"
    let ?h = "h\<lparr>blocks := (blocks h)(data_addr t := None),
                nodes := (nodes h)(node_addr t := None, node_addr c \<mapsto> node_of c 0), lists := (lists h)(l \<mapsto> ?L)\<rparr>"
    have run: "list_internal_remove_from_tail l h = Some ?h"
      using L(1,2,4,5) t c ne bt by (simp add: list_internal_remove_from_tail_def heap_simps item_at_def)
    have "chain (h\<lparr>blocks := (blocks h)(data_addr t := None), nodes := (nodes h)(node_addr t := None)\<rparr>) (ls_head L) cs (node_addr t)"
      by (rule chain_cong [OF c(3)]) (use L(6) in \<open>auto simp: image_iff\<close>)
    from chain_redirect [OF this [unfolded snoc], of 0] L(6) snoc
    have "chain ?h (ls_head L) cs 0" by simp
    then have "heap_wf ?h \<and> list_rep ?h l (cs @ []) \<and> only_changes l h (cs @ t # []) ?h (cs @ [])"
      by (intro cut_item [OF wf, where L' = ?L]) (use rep snoc ne in auto)
    with run show ?thesis by auto
  qed
qed

lemma unlink:
  assumes wf: "heap_wf h" and rep: "list_rep h l (xs @ c # x # ys)" and ys: "ys \<noteq> []"
  shows "\<exists>h'. unlink_node l (node_addr c) (node_addr x) h = Some h' \<and> heap_wf h' \<and> list_rep h' l (xs @ c # ys) \<and>
     only_changes l h (xs @ c # x # ys) h' (xs @ c # ys)"
proof -
  obtain L where L: "lists h l = Some L" "l \<noteq> 0" "chain h (ls_head L) (xs @ c # x # ys) 0"
      "ls_count L = int (length (xs @ c # x # ys))"
      "ls_tail L = node_addr (last ys)" "separate (xs @ c # x # ys)"
    using rep by (rule list_repE) (use ys in simp)
  obtain n where n: "chain h (ls_head L) (xs @ [c]) (node_addr x)" "nodes h (node_addr c) = Some (node_of c (node_addr x))"
    "item_at h c" "item_at h x" "nodes h (node_addr x) = Some (node_of x n)" "chain h n ys 0"
    using L(3) by (auto simp: chain_append)
  have ne: "node_addr c \<noteq> node_addr x" "node_addr c \<noteq> 0" "node_addr x \<noteq> 0"
    using L(6) n by (auto simp: item_at_def)
  let ?L = "L\<lparr>ls_count := ls_count L - 1\<rparr>"
  let ?h = "h\<lparr>blocks := (blocks h)(data_addr x := None),
              nodes := (nodes h)(node_addr c \<mapsto> node_of c n, node_addr x := None), lists := (lists h)(l \<mapsto> ?L)\<rparr>"
  have run: "unlink_node l (node_addr c) (node_addr x) h = Some ?h"
    using L(1,2) n ne by (simp add: unlink_node_def heap_simps item_at_def)
  have "chain (h\<lparr>nodes := (nodes h)(node_addr c \<mapsto> node_of c n)\<rparr>) (ls_head L) (xs @ [c]) n"
    by (rule chain_redirect [OF n(1)]) (use L(6) in auto)
  then have c1: "chain ?h (ls_head L) (xs @ [c]) n"
    by (rule chain_cong) (use L(6) in \<open>auto simp: image_iff\<close>)
  have "chain ?h n ys 0"
    by (rule chain_cong [OF n(6)]) (use L(6) in \<open>auto simp: image_iff\<close>)
  with c1 have "chain ?h (ls_head L) ((xs @ [c]) @ ys) 0" by (simp only: chain_append) blast
  then have "heap_wf ?h \<and> list_rep ?h l ((xs @ [c]) @ ys) \<and> only_changes l h ((xs @ [c]) @ x # ys) ?h ((xs @ [c]) @ ys)"
    using L ys by (intro cut_item [OF wf, where L' = ?L]) (use rep in auto)
  with run show ?thesis by auto
qed

lemma walk_pair:
  assumes "chain h p cs 0" "k < length cs"
  shows "walk_pair h k prev p =
    Some (if k = 0 then prev else node_addr (cs ! (k - 1)), node_addr (cs ! k))"
  using assms
proof (induction k arbitrary: cs prev p)
  case 0
  then show ?case by (cases cs) auto
next
  case (Suc k)
  then obtain x ds n where cs: "cs = x # ds" and n: "p = node_addr x" "item_at h x"
      "nodes h p = Some (node_of x n)" "chain h n ds 0"
    by (cases cs) auto
  with Suc.IH [OF n(4), of p] Suc.prems show ?case
    by (cases k) (auto simp: load_simps item_at_def)
qed

lemma split_around:
  assumes "Suc k < length cs"
  shows "cs = take k cs @ cs ! k # cs ! Suc k # drop (Suc (Suc k)) cs"
  using assms by (metis Cons_nth_drop_Suc Suc_lessD append_take_drop_id)

lemma delete_at_cases:
  "delete_at 0 (x # cs) = cs" "delete_at (length cs) (cs @ [x]) = cs"
  "delete_at (length xs) (xs @ x # ys) = xs @ ys" "delete_at (Suc (length xs)) (xs @ c # x # ys) = xs @ c # ys"
  by (simp_all add: delete_at_def)

text \<open>Removing the item of index \<open>k\<close> by the function the code picks for it.\<close>

lemma list_remove_at_correct:
  assumes wf: "heap_wf h" and rep: "list_rep h l cs"
    and pos: "pos = LONG_MAX \<and> Suc k = length cs \<or> pos = int k \<and> k < length cs \<and> pos < LONG_MAX"
  shows "\<exists>h'. list_remove_at l pos h = Some h' \<and> heap_wf h' \<and> list_rep h' l (delete_at k cs) \<and>
     only_changes l h cs h' (delete_at k cs)"
proof -
  obtain L where L: "lists h l = Some L" "l \<noteq> 0" "chain h (ls_head L) cs 0" "ls_count L = int (length cs)"
    using rep by (rule list_repE)
  have k: "k < length cs" using pos by auto
  have p: "(if pos = LONG_MAX then ls_count L - 1 else pos) = int k" "\<not> pos < 0"
    using pos L(4) by (auto simp: LONG_MAX_def)
  have run: "list_remove_at l pos h =
     (if k = 0 then list_internal_remove_from_head l h
      else if Suc k = length cs then list_internal_remove_from_tail l h
      else do {
        (prev, cur) \<leftarrow> walk_pair h (nat (int k mod 2 ^ 64)) 0 (ls_head L);
        if prev \<noteq> 0 \<and> cur \<noteq> 0 then unlink_node l prev cur h else Some h })"
    using L(1,2,4) k p by (auto simp: list_remove_at_def load_simps Let_def)
  consider "k = 0" | "0 < k" "Suc k = length cs" | "0 < k" "Suc k < length cs" using k by linarith
  then show ?thesis
  proof cases
    case 1
    then obtain x ds where cs: "cs = x # ds" using k by (cases cs) auto
    with remove_from_head [OF wf, of l x ds] rep run 1 show ?thesis by (simp add: delete_at_cases)
  next
    case 2
    then obtain ds x where cs: "cs = ds @ [x]" by (cases cs rule: rev_cases) auto
    then have "delete_at k cs = ds" using 2 by (simp add: delete_at_def)
    with remove_from_tail [OF wf, of l ds x] rep run 2 cs show ?thesis by simp
  next
    case 3
    then obtain j where j: "k = Suc j" by (cases k) auto
    let ?xs = "take j cs" and ?c = "cs ! j" and ?x = "cs ! k" and ?ys = "drop (Suc k) cs"
    have cs: "cs = ?xs @ ?c # ?x # ?ys" using split_around [of j cs] 3 j by simp
    have del: "delete_at k cs = ?xs @ ?c # ?ys"
      using 3 j by (simp add: delete_at_def take_Suc_conv_app_nth)
    have "int k < LONG_MAX" using pos 3 by auto
    then have nk: "nat (int k mod 2 ^ 64) = k" by (simp add: LONG_MAX_def)
    have w: "walk_pair h (nat (int k mod 2 ^ 64)) 0 (ls_head L) = Some (node_addr ?c, node_addr ?x)"
      unfolding nk using walk_pair [OF L(3) k, of 0] j by (simp del: walk_pair.simps)
    have ne: "node_addr ?c \<noteq> 0" "node_addr ?x \<noteq> 0"
      using chain_nonzero [OF L(3), of ?c] chain_nonzero [OF L(3), of ?x] 3 j by (simp_all add: item_at_def)
    have "list_rep h l (?xs @ ?c # ?x # ?ys)" "?ys \<noteq> []" using rep cs 3 by simp_all
    from unlink [OF wf this] cs del run 3 w ne show ?thesis by simp
  qed
qed

text \<open>Clearing and releasing.\<close>

lemma only_changes_trans:
  assumes "only_changes l h cs h1 ds" "only_changes l h1 ds h2 es" "set es \<subseteq> set ds" "set ds \<subseteq> set cs"
  shows "only_changes l h cs h2 es"
proof -
  have s: "node_addr ` set es \<subseteq> node_addr ` set ds" "node_addr ` set ds \<subseteq> node_addr ` set cs"
    "data_addr ` set es \<subseteq> data_addr ` set ds" "data_addr ` set ds \<subseteq> data_addr ` set cs"
    using assms(3,4) by blast+
  note d1 = only_changesD [OF assms(1)] and d2 = only_changesD [OF assms(2)]
  show ?thesis
    unfolding only_changes_def
  proof (intro conjI allI impI)
    fix a
    show "nodes h2 a = nodes h a" if "a \<notin> node_addr ` set cs" "a \<notin> node_addr ` set es"
      using d1(1) [of a] d2(1) [of a] that s(2) by auto
    show "nodes h2 a = None" if "a \<in> node_addr ` set cs" "a \<notin> node_addr ` set es"
      using d1(6) [of a] d2(1,6) [of a] that by metis
    show "blocks h2 a = blocks h a" if "a \<notin> data_addr ` set cs" "a \<notin> data_addr ` set es"
      using d1(3) [of a] d2(3) [of a] that s(4) by auto
    show "blocks h2 a = None" if "a \<in> data_addr ` set cs" "a \<notin> data_addr ` set es"
      using d1(7) [of a] d2(3,7) [of a] that by metis
    show "fresh h \<le> a" if "a \<in> node_addr ` set es" "a \<notin> node_addr ` set cs"
      using that s by blast
    show "fresh h \<le> a" if "a \<in> data_addr ` set es" "a \<notin> data_addr ` set cs"
      using that s by blast
  next
    show "fresh h \<le> fresh h2" "oom h2 = oom h" using d1(8,9) d2(8,9) by simp_all
    fix p show "p \<noteq> l \<Longrightarrow> lists h2 p = lists h p" using d1(5) d2(5) by simp
  qed
qed

lemma only_changes_refl: "only_changes l h cs h cs"
  by (simp add: only_changes_def)

lemma list_clear_loop_correct:
  assumes "heap_wf h" "list_rep h l cs"
  shows "\<exists>h'. list_clear_loop l h = Some h' \<and> heap_wf h' \<and> list_rep h' l [] \<and> only_changes l h cs h' []"
  using assms
proof (induction cs arbitrary: h rule: rev_induct)
  case Nil
  then obtain L where "lists h l = Some L" "l \<noteq> 0" "ls_count L = 0" by (auto simp: list_rep_def)
  then show ?case using Nil
    by (subst list_clear_loop.simps) (simp add: load_simps only_changes_refl)
next
  case (snoc t cs)
  obtain L where L: "lists h l = Some L" "l \<noteq> 0" "ls_count L = int (length (cs @ [t]))"
    using snoc.prems(2) by (auto simp: list_rep_def)
  obtain h1 where h1: "list_internal_remove_from_tail l h = Some h1" "heap_wf h1" "list_rep h1 l cs"
    "only_changes l h (cs @ [t]) h1 cs" using remove_from_tail [OF snoc.prems] by blast
  obtain h' where h': "list_clear_loop l h1 = Some h'" "heap_wf h'" "list_rep h' l []" "only_changes l h1 cs h' []"
    using snoc.IH [OF h1(2,3)] by blast
  have "only_changes l h (cs @ [t]) h' []" by (rule only_changes_trans [OF h1(4) h'(4)]) auto
  with L h1(1) h'(1-3) show ?case by (subst list_clear_loop.simps) (simp add: load_simps)
qed

text \<open>Everything the list owned is gone, and nothing else is.\<close>

lemma list_free_correct:
  assumes "heap_wf h" "list_rep h l cs"
  shows "\<exists>h'. list_free l h = Some h' \<and> lists h' = (lists h)(l := None) \<and>
     nodes h' = (\<lambda>a. if a \<in> node_addr ` set cs then None else nodes h a) \<and>
     blocks h' = (\<lambda>a. if a \<in> data_addr ` set cs then None else blocks h a)"
proof -
  obtain h1 where h1: "list_clear_loop l h = Some h1" "list_rep h1 l []" "only_changes l h cs h1 []"
    using list_clear_loop_correct [OF assms] by blast
  obtain L where L: "lists h1 l = Some L" "l \<noteq> 0" using h1(2) by (auto simp: list_rep_def)
  then have f: "list_free l h = Some (h1\<lparr>lists := (lists h1)(l := None)\<rparr>)"
    using h1(1) by (simp add: list_free_def free_simps)
  show ?thesis
    unfolding f using h1(3) by (auto simp: only_changes_def fun_eq_iff)
qed

section \<open>Searching\<close>

text \<open>Where the bytes first occur in the list.\<close>

fun position :: "('a \<Rightarrow> bool) \<Rightarrow> 'a list \<Rightarrow> nat option" where
  "position P [] = None"
| "position P (x # xs) = (if P x then Some 0 else map_option Suc (position P xs))"

lemma position_None: "position P xs = None \<longleftrightarrow> (\<forall>x\<in>set xs. \<not> P x)"
  by (induction xs) auto

lemma position_Some: "position P xs = Some k \<Longrightarrow> k < length xs \<and> P (xs ! k) \<and> (\<forall>i<k. \<not> P (xs ! i))"
proof (induction xs arbitrary: k)
  case (Cons x xs)
  show ?case
  proof (cases "P x")
    case False
    then obtain j where "position P xs = Some j" "k = Suc j" using Cons.prems by auto
    with Cons.IH False show ?thesis by (auto simp: nth_Cons' gr0_conv_Suc less_Suc_eq_0_disj)
  qed (use Cons.prems in auto)
qed simp

lemma node_holds:
  assumes "item_at h x" "sz \<le> length src"
  shows "node_holds h (node_of x n) src sz = Some (item_bytes x = take sz src)"
  using assms bytes_cmp_eq_0 [of "item_bytes x" "take sz src"]
  by (auto simp: node_holds_def item_at_def load_simps)

lemma index_of_value_loop:
  assumes "chain h p cs 0" "sz \<le> length src"
  shows "index_of_value_loop h src sz p idx =
    Some (case position (\<lambda>x. item_bytes x = take sz src) cs of None \<Rightarrow> -1 | Some k \<Rightarrow> int (idx + k))"
  using assms
proof (induction cs arbitrary: p idx)
  case Nil
  then show ?case by (subst index_of_value_loop.simps) simp
next
  case (Cons x cs)
  then obtain n where n: "p = node_addr x" "item_at h x" "nodes h p = Some (node_of x n)" "chain h n cs 0" by auto
  with Cons.IH [OF n(4) Cons.prems(2), of "idx + 1"] show ?case
    by (subst index_of_value_loop.simps)
      (auto simp: load_simps node_holds [OF n(2) Cons.prems(2)] item_at_def split: option.split)
qed

lemma index_of_loop:
  assumes "chain h p cs 0"
  shows "index_of_loop h d p idx =
    Some (case position (\<lambda>x. data_addr x = d) cs of None \<Rightarrow> -1 | Some k \<Rightarrow> int (idx + k))"
  using assms
proof (induction cs arbitrary: p idx)
  case Nil
  then show ?case by (subst index_of_loop.simps) simp
next
  case (Cons x cs)
  then obtain n where n: "p = node_addr x" "item_at h x" "nodes h p = Some (node_of x n)" "chain h n cs 0" by auto
  with Cons.IH [OF n(4), of "idx + 1"] show ?case
    by (subst index_of_loop.simps) (auto simp: load_simps item_at_def split: option.split)
qed

lemma walk_correct:
  assumes "chain h p cs 0" "k < length cs"
  shows "walk h k p = Some (node_addr (cs ! k))"
  using assms
proof (induction k arbitrary: cs p)
  case 0
  then show ?case by (cases cs) auto
next
  case (Suc k)
  then obtain x ds n where "cs = x # ds" "p = node_addr x" "item_at h x" "nodes h p = Some (node_of x n)" "chain h n ds 0"
    by (cases cs) auto
  with Suc.IH [of n ds] Suc.prems show ?case by (auto simp: load_simps item_at_def)
qed

lemma list_get_at_correct:
  assumes "list_rep h l cs" "pos < 2 ^ 63"
  shows "list_get_at l pos h = Some (if 0 \<le> pos \<and> pos < int (length cs) then data_addr (cs ! nat pos) else 0)"
proof -
  obtain L where L: "lists h l = Some L" "l \<noteq> 0" "chain h (ls_head L) cs 0" "ls_count L = int (length cs)"
    using assms(1) by (rule list_repE)
  show ?thesis
  proof (cases "0 \<le> pos \<and> pos < int (length cs)")
    case False
    then show ?thesis using L by (auto simp: list_get_at_def load_simps)
  next
    case True
    define k where "k = nat pos"
    have k: "k < length cs" "nat (pos mod 2 ^ 64) = k" using True assms(2) by (auto simp: k_def)
    have ptr: "(if pos > 0 then walk h (nat (pos mod 2 ^ 64)) (ls_head L) else Some (ls_head L)) = Some (node_addr (cs ! k))"
      using walk_correct [OF L(3) k(1)] k(2) True by (auto simp: k_def)
    obtain n where "nodes h (node_addr (cs ! k)) = Some (node_of (cs ! k) n)" "node_addr (cs ! k) \<noteq> 0"
      using chain_owned [OF L(3), of "cs ! k"] chain_nonzero [OF L(3), of "cs ! k"] k(1) by (auto simp: item_at_def)
    with ptr True L show ?thesis by (simp add: list_get_at_def load_simps k_def)
  qed
qed

lemma remove_value_loop:
  assumes wf: "heap_wf h" and rep: "list_rep h l (pre @ cs)" and L: "lists h l = Some L"
    and c: "chain h p cs 0" and prev: "pre \<noteq> [] \<longrightarrow> prev = node_addr (last pre)"
    and sz: "sz \<le> length src" and small: "length (pre @ cs) < 2 ^ 63"
  shows "case position (\<lambda>x. item_bytes x = take sz src) cs of
      None \<Rightarrow> remove_value_loop l src sz h p prev (length pre) = Some h
    | Some k \<Rightarrow> \<exists>h'. remove_value_loop l src sz h p prev (length pre) = Some h' \<and> heap_wf h' \<and>
        list_rep h' l (delete_at (length pre + k) (pre @ cs)) \<and>
        only_changes l h (pre @ cs) h' (delete_at (length pre + k) (pre @ cs))"
  using rep c prev small
proof (induction cs arbitrary: p prev pre)
  case Nil
  then show ?case by (subst remove_value_loop.simps) simp
next
  case (Cons x cs)
  then obtain n where n: "p = node_addr x" "item_at h x" "nodes h p = Some (node_of x n)" "chain h n cs 0" by auto
  note loop = remove_value_loop.simps [of l src sz h p prev "length pre"]
  have count: "ls_count L = int (length (pre @ x # cs))" "l \<noteq> 0" using Cons.prems(1) L by (auto simp: list_rep_def)
  show ?case
  proof (cases "item_bytes x = take sz src")
    case True
    have eval: "remove_value_loop l src sz h p prev (length pre) =
      (if pre = [] then list_internal_remove_from_head l h
       else if cs = [] then list_internal_remove_from_tail l h
       else unlink_node l prev p h)"
      using n True L count Cons.prems(4) by (subst loop) (auto simp: load_simps node_holds sz item_at_def)
    consider "pre = []" | "pre \<noteq> []" "cs = []" | "pre \<noteq> []" "cs \<noteq> []" by blast
    then show ?thesis
    proof cases
      case 1
      with remove_from_head [OF wf, of l x cs] Cons.prems(1) eval True show ?thesis by (simp add: delete_at_cases)
    next
      case 2
      with remove_from_tail [OF wf, of l pre x] Cons.prems(1) eval True show ?thesis by (simp add: delete_at_cases)
    next
      case 3
      then obtain ps c where pre: "pre = ps @ [c]" by (cases pre rule: rev_cases) auto
      with unlink [OF wf, of l ps c x cs] Cons.prems(1,3) eval True 3 n(1) show ?thesis
        using delete_at_cases(4) [of ps c x cs] by simp
    qed
  next
    case False
    have eval: "remove_value_loop l src sz h p prev (length pre) = remove_value_loop l src sz h n p (length (pre @ [x]))"
      using n False by (subst loop) (auto simp: load_simps node_holds sz item_at_def)
    from Cons.IH [of "pre @ [x]" n p] Cons.prems n(1,4) False show ?thesis
      unfolding eval by (auto split: option.splits)
  qed
qed

lemma list_remove_value_correct:
  assumes wf: "heap_wf h" and rep: "list_rep h l cs" and sz: "sz \<le> length src" "length cs < 2 ^ 63"
  shows "case position (\<lambda>x. item_bytes x = take sz src) cs of
      None \<Rightarrow> list_remove_value l (Some src) sz h = Some h
    | Some k \<Rightarrow> \<exists>h'. list_remove_value l (Some src) sz h = Some h' \<and> heap_wf h' \<and>
        list_rep h' l (delete_at k cs) \<and> only_changes l h cs h' (delete_at k cs)"
proof -
  obtain L where L: "lists h l = Some L" "l \<noteq> 0" "chain h (ls_head L) cs 0"
    using rep by (rule list_repE)
  with remove_value_loop [OF wf, of l "[]" cs L "ls_head L" 0 sz src] rep sz show ?thesis
    by (simp add: list_remove_value_def load_simps split: option.splits)
qed

section \<open>Sorting\<close>

text \<open>The order of the default comparison: lexicographic on unsigned bytes, a prefix first.\<close>

fun lex_cmp :: "byte list \<Rightarrow> byte list \<Rightarrow> int" where
  "lex_cmp [] [] = 0"
| "lex_cmp [] (y # ys) = -1"
| "lex_cmp (x # xs) [] = 1"
| "lex_cmp (x # xs) (y # ys) = (if x = y then lex_cmp xs ys else if x < y then -1 else 1)"

lemma default_cmp:
  "list_internal_default_node_cmp a (length a) b (length b) = Some (lex_cmp a b)"
proof -
  have "(let c = bytes_cmp (take (min (length a) (length b)) a) (take (min (length a) (length b)) b)
         in if c = 0 then (if length a < length b then -1 else if length b < length a then 1 else 0) else c) = lex_cmp a b"
    by (induction a b rule: lex_cmp.induct) (auto simp: Let_def)
  then show ?thesis
    by (cases "length a" "length b" rule: linorder_cases)
      (simp_all add: list_internal_default_node_cmp_def Let_def split: if_splits)
qed

lemma lex_cmp_total: "lex_cmp xs ys \<le> 0 \<or> lex_cmp ys xs \<le> 0"
  by (induction xs ys rule: lex_cmp.induct) (auto split: if_splits)

lemma lex_cmp_trans: "lex_cmp xs ys \<le> 0 \<Longrightarrow> lex_cmp ys zs \<le> 0 \<Longrightarrow> lex_cmp xs zs \<le> 0"
proof (induction xs ys arbitrary: zs rule: lex_cmp.induct)
  case (1 zs) then show ?case by simp
next
  case (2 y ys zs) then show ?case by (cases zs) auto
next
  case (3 x xs zs) then show ?case by simp
next
  case (4 x xs y ys zs)
  then show ?case by (cases zs) (auto split: if_splits)
qed

lemma lex_cmp_eq: "lex_cmp xs ys = 0 \<longleftrightarrow> xs = ys"
  by (induction xs ys rule: lex_cmp.induct) auto

definition before :: "item \<Rightarrow> item \<Rightarrow> bool" where
  "before x y = (lex_cmp (item_bytes x) (item_bytes y) \<le> 0)"

fun merge_items :: "item list \<Rightarrow> item list \<Rightarrow> item list" where
  "merge_items [] ys = ys"
| "merge_items xs [] = xs"
| "merge_items (x # xs) (y # ys) =
     (if before x y then x # merge_items xs (y # ys) else y # merge_items (x # xs) ys)"

function sort_items :: "item list \<Rightarrow> item list" where
  "sort_items xs =
     (if length xs < 2 then xs
      else let m = (length xs + 1) div 2 in merge_items (sort_items (take m xs)) (sort_items (drop m xs)))"
  by pat_completeness auto
termination by (relation "measure length") auto

declare sort_items.simps [simp del]

lemma mset_merge_items [simp]: "mset (merge_items xs ys) = mset xs + mset ys"
  by (induction xs ys rule: merge_items.induct) auto

lemma set_merge_items [simp]: "set (merge_items xs ys) = set xs \<union> set ys"
  by (metis mset_merge_items set_mset_mset set_mset_union)

lemma mset_sort_items [simp]: "mset (sort_items xs) = mset xs"
proof (induction xs rule: sort_items.induct)
  case (1 xs)
  show ?case
  proof (cases "length xs < 2")
    case False
    let ?m = "(length xs + 1) div 2"
    have "mset (sort_items xs) = mset (take ?m xs) + mset (drop ?m xs)"
      using 1 [OF False refl] False by (subst sort_items.simps) (simp add: Let_def)
    then show ?thesis by (metis append_take_drop_id mset_append)
  qed (subst sort_items.simps, simp)
qed

lemma set_sort_items [simp]: "set (sort_items xs) = set xs"
  by (metis mset_sort_items set_mset_mset)

lemma length_sort_items [simp]: "length (sort_items xs) = length xs"
  by (metis mset_sort_items size_mset)

lemma before_trans: "before x y \<Longrightarrow> before y z \<Longrightarrow> before x z"
  unfolding before_def by (rule lex_cmp_trans)

lemma not_before: "\<not> before x y \<Longrightarrow> before y x"
  using lex_cmp_total unfolding before_def by blast

lemma sorted_merge_items:
  "sorted_wrt before xs \<Longrightarrow> sorted_wrt before ys \<Longrightarrow> sorted_wrt before (merge_items xs ys)"
proof (induction xs ys rule: merge_items.induct)
  case (3 x xs y ys)
  then show ?case by (auto intro: before_trans dest: not_before)
qed auto

lemma sorted_sort_items: "sorted_wrt before (sort_items xs)"
proof (induction xs rule: sort_items.induct)
  case (1 xs)
  show ?case
  proof (cases "length xs < 2")
    case True
    then show ?thesis by (subst sort_items.simps) (cases xs; simp)
  next
    case False
    with 1 [OF False refl] show ?thesis by (subst sort_items.simps) (simp add: Let_def sorted_merge_items)
  qed
qed

lemma separate_mset:
  assumes "mset xs = mset ys" "separate ys"
  shows "separate xs"
proof -
  have "mset (map node_addr xs) = mset (map node_addr ys)" "mset (map data_addr xs) = mset (map data_addr ys)"
    using assms(1) by simp_all
  with assms(2) show ?thesis unfolding separate_def by (metis mset_eq_imp_distinct_iff)
qed

text \<open>Only \<open>next\<close> pointers of the nodes in \<open>A\<close> change.\<close>

definition rewires :: "addr set \<Rightarrow> heap \<Rightarrow> heap \<Rightarrow> bool" where
  "rewires A h h' = (\<exists>ns. h' = h\<lparr>nodes := ns\<rparr> \<and> (\<forall>a. a \<notin> A \<longrightarrow> ns a = nodes h a) \<and>
     (\<forall>a. ns a = None \<longleftrightarrow> nodes h a = None))"

lemma rewires_refl: "rewires A h h"
  unfolding rewires_def by (rule exI [of _ "nodes h"]) simp

lemma rewires_store: "nodes h a = Some nd0 \<Longrightarrow> a \<in> A \<Longrightarrow> rewires A h (h\<lparr>nodes := (nodes h)(a \<mapsto> nd)\<rparr>)"
  unfolding rewires_def by (rule exI [of _ "(nodes h)(a \<mapsto> nd)"]) auto

lemma rewires_trans: "rewires A h h1 \<Longrightarrow> rewires B h1 h2 \<Longrightarrow> A \<subseteq> C \<Longrightarrow> B \<subseteq> C \<Longrightarrow> rewires C h h2"
proof -
  assume a: "rewires A h h1" "rewires B h1 h2" "A \<subseteq> C" "B \<subseteq> C"
  then obtain ns ns' where n: "h1 = h\<lparr>nodes := ns\<rparr>" "h2 = h1\<lparr>nodes := ns'\<rparr>" "\<And>a. a \<notin> A \<Longrightarrow> ns a = nodes h a"
    "\<And>a. a \<notin> B \<Longrightarrow> ns' a = nodes h1 a" "\<And>a. ns a = None \<longleftrightarrow> nodes h a = None"
    "\<And>a. ns' a = None \<longleftrightarrow> nodes h1 a = None"
    unfolding rewires_def by auto
  have "ns' a = nodes h a" if "a \<notin> C" for a
  proof -
    have "a \<notin> A" "a \<notin> B" using that a(3,4) by blast+
    with n(1,3,4) show ?thesis by simp
  qed
  then show ?thesis unfolding rewires_def using n by (intro exI [of _ ns']) auto
qed

lemma rewires_mono: "rewires A h h' \<Longrightarrow> A \<subseteq> C \<Longrightarrow> rewires C h h'"
  using rewires_trans rewires_refl by blast

lemma rewires_simps:
  assumes "rewires A h h'"
  shows "blocks h' = blocks h" "lists h' = lists h" "fresh h' = fresh h" "oom h' = oom h"
    "a \<notin> A \<Longrightarrow> nodes h' a = nodes h a" "heap_wf h' = heap_wf h"
  using assms by (auto simp: rewires_def heap_wf_def)

lemma rewires_chain: "chain h p cs q \<Longrightarrow> rewires A h h' \<Longrightarrow> node_addr ` set cs \<inter> A = {} \<Longrightarrow> chain h' p cs q"
proof (erule chain_cong)
  fix a assume "rewires A h h'" "node_addr ` set cs \<inter> A = {}" "a \<in> node_addr ` set cs"
  then show "nodes h' a = nodes h a" by (intro rewires_simps(5)) blast+
qed (simp add: rewires_simps)

lemma rewires_item: "rewires A h h' \<Longrightarrow> item_at h' x = item_at h x"
  by (simp add: item_at_def rewires_simps)

lemma sorted_merge_correct:
  assumes "chain h a xs 0" "chain h b ys 0" "separate (xs @ ys)"
  shows "\<exists>r h'. list_internal_sorted_merge list_internal_default_node_cmp a b h = Some (r, h') \<and>
    chain h' r (merge_items xs ys) 0 \<and> rewires (node_addr ` set (xs @ ys)) h h'"
  using assms
proof (induction xs ys arbitrary: a b h rule: merge_items.induct)
  case (1 ys)
  then show ?case by (subst list_internal_sorted_merge.simps) (auto intro: rewires_refl)
next
  case (2 x xs)
  then show ?case by (subst list_internal_sorted_merge.simps) (auto simp: item_at_def intro: rewires_refl)
next
  case (3 x xs y ys)
  obtain n where n: "a = node_addr x" "item_at h x" "nodes h a = Some (node_of x n)" "chain h n xs 0" "a \<noteq> 0"
    using 3(3) by (auto simp: item_at_def)
  obtain m where m: "b = node_addr y" "item_at h y" "nodes h b = Some (node_of y m)" "chain h m ys 0" "b \<noteq> 0"
    using 3(4) by (auto simp: item_at_def)
  have data: "load_block h (data_addr x) = Some (item_bytes x)" "load_block h (data_addr y) = Some (item_bytes y)"
    using n(2) m(2) by (auto simp: item_at_def load_simps)
  note step = list_internal_sorted_merge.simps [of _ a b h]
  show ?case
  proof (cases "before x y")
    case True
    obtain r h1 where r: "list_internal_sorted_merge list_internal_default_node_cmp n b h = Some (r, h1)"
      "chain h1 r (merge_items xs (y # ys)) 0" "rewires (node_addr ` set (xs @ y # ys)) h h1"
      using 3(1) [OF True n(4) 3(4)] 3(5) by auto
    have ax: "a \<notin> node_addr ` set (xs @ y # ys)" using 3(5) n(1) by auto
    have nx: "nodes h1 a = Some (node_of x n)" using rewires_simps(5) [OF r(3) ax] n(3) by simp
    let ?h = "h1\<lparr>nodes := (nodes h1)(a \<mapsto> node_of x r)\<rparr>"
    have run: "list_internal_sorted_merge list_internal_default_node_cmp a b h = Some (a, ?h)"
      using n(3,5) m(3,5) data True r(1) nx by (subst step) (simp add: heap_simps default_cmp before_def)
    have "chain ?h r (merge_items xs (y # ys)) 0"
      by (rule chain_upd_other [OF r(2)]) (use ax in auto)
    then have "chain ?h a (merge_items (x # xs) (y # ys)) 0"
      using True n(1,2) r(3) by (auto simp: rewires_item)
    moreover have "rewires (node_addr ` set ((x # xs) @ y # ys)) h ?h"
      by (rule rewires_trans [OF r(3) rewires_store [OF nx, of "{a}"]]) (use n(1) in auto)
    ultimately show ?thesis using run by blast
  next
    case False
    obtain r h1 where r: "list_internal_sorted_merge list_internal_default_node_cmp a m h = Some (r, h1)"
      "chain h1 r (merge_items (x # xs) ys) 0" "rewires (node_addr ` set ((x # xs) @ ys)) h h1"
      using 3(2) [OF False 3(3) m(4)] 3(5) by auto
    have by': "b \<notin> node_addr ` set ((x # xs) @ ys)" using 3(5) m(1) by auto
    have ny: "nodes h1 b = Some (node_of y m)" using rewires_simps(5) [OF r(3) by'] m(3) by simp
    let ?h = "h1\<lparr>nodes := (nodes h1)(b \<mapsto> node_of y r)\<rparr>"
    have run: "list_internal_sorted_merge list_internal_default_node_cmp a b h = Some (b, ?h)"
      using n(3,5) m(3,5) data False r(1) ny by (subst step) (simp add: heap_simps default_cmp before_def)
    have "chain ?h r (merge_items (x # xs) ys) 0"
      by (rule chain_upd_other [OF r(2)]) (use by' in auto)
    then have "chain ?h b (merge_items (x # xs) (y # ys)) 0"
      using False m(1,2) r(3) by (auto simp: rewires_item)
    moreover have "rewires (node_addr ` set ((x # xs) @ y # ys)) h ?h"
      by (rule rewires_trans [OF r(3) rewires_store [OF ny, of "{b}"]]) (use m(1) in auto)
    ultimately show ?thesis using run by blast
  qed
qed

lemma split_walk_correct:
  assumes "chain h s xs 0" "chain h f ys 0" "length ys div 2 < length xs"
  shows "split_walk h s f = Some (node_addr (xs ! (length ys div 2)))"
  using assms
proof (induction ys arbitrary: s f xs rule: induct_list012)
  case 1
  then show ?case by (cases xs) (auto simp: split_walk.simps)
next
  case (2 y)
  have end_walk: "split_walk h s 0 = Some s" by (subst split_walk.simps) simp
  have "f \<noteq> 0" "nodes h f = Some (node_of y 0)" "s = node_addr (xs ! 0)"
    using 2 by (auto simp: item_at_def neq_Nil_conv)
  with end_walk show ?case by (subst split_walk.simps) (simp add: load_simps)
next
  case (3 y z ys)
  then obtain x ds where xs: "xs = x # ds" by (cases xs) auto
  then obtain n where n: "s = node_addr x" "item_at h x" "nodes h s = Some (node_of x n)" "chain h n ds 0" "s \<noteq> 0"
    using 3(3) by (auto simp: item_at_def)
  obtain m where m: "f \<noteq> 0" "node_addr z \<noteq> 0" "nodes h f = Some (node_of y (node_addr z))"
    "nodes h (node_addr z) = Some (node_of z m)" "chain h m ys 0"
    using 3(4) by (auto simp: item_at_def)
  from 3(1) [OF n(4) m(5)] 3(5) xs show ?case
    using n(3,5) m by (subst split_walk.simps) (simp add: load_simps)
qed

lemma split_correct:
  assumes c: "chain h p cs 0" and sep: "separate cs" and len: "2 \<le> length cs" and m: "m = (length cs + 1) div 2"
  shows "\<exists>b h'. list_internal_split p h = Some (p, b, h') \<and> chain h' p (take m cs) 0 \<and> chain h' b (drop m cs) 0 \<and>
     rewires (node_addr ` set cs) h h'"
proof -
  let ?k = "m - 1"
  have m1: "m = Suc ?k" "?k < length cs" "m < length cs" using len m by auto
  obtain x ds n where x: "cs = x # ds" "p = node_addr x" "p \<noteq> 0" "nodes h p = Some (node_of x n)" "chain h n ds 0"
    using c len by (cases cs) (auto simp: item_at_def)
  have k: "length ds div 2 = ?k" using x(1) m by simp
  let ?t = "cs ! ?k"
  have slow: "split_walk h p n = Some (node_addr ?t)"
    using split_walk_correct [OF c x(5)] m1(2) k by simp
  have cs: "cs = (take ?k cs @ [?t]) @ drop m cs" using id_take_nth_drop [OF m1(2)] m1(1) by simp
  have "chain h p ((take ?k cs @ [?t]) @ drop m cs) 0" by (subst cs [symmetric]) (rule c)
  then obtain b where b: "chain h p (take ?k cs @ [?t]) b" "chain h b (drop m cs) 0"
    unfolding chain_append [of h p "take ?k cs @ [?t]"] by blast
  have t: "nodes h (node_addr ?t) = Some (node_of ?t b)" "node_addr ?t \<noteq> 0"
    using b(1) by (auto simp: chain_append item_at_def)
  let ?h = "h\<lparr>nodes := (nodes h)(node_addr ?t \<mapsto> node_of ?t 0)\<rparr>"
  have run: "list_internal_split p h = Some (p, b, ?h)"
    using x(3,4) slow t by (simp add: list_internal_split_def heap_simps)
  have "separate ((take ?k cs @ [?t]) @ drop m cs)" by (subst cs [symmetric]) (rule sep)
  then have sep': "separate (take ?k cs @ [?t])" "node_addr ?t \<notin> node_addr ` set (drop m cs)"
    unfolding separate_simps(3) by simp_all
  have "chain ?h p (take m cs) 0"
    using chain_redirect [OF b(1) sep'(1), of 0] take_Suc_conv_app_nth [OF m1(2)] m1(1) by simp
  moreover have "chain ?h b (drop m cs) 0" by (rule chain_upd_other [OF b(2) sep'(2)])
  moreover have "rewires (node_addr ` set cs) h ?h" by (rule rewires_store [OF t(1)]) (use m1(2) in simp)
  ultimately show ?thesis using run by blast
qed

lemma merge_sort_correct:
  assumes "chain h p cs 0" "separate cs"
  shows "\<exists>r h'. list_internal_merge_sort_nodes list_internal_default_node_cmp p h = Some (r, h') \<and>
    chain h' r (sort_items cs) 0 \<and> rewires (node_addr ` set cs) h h'"
  using assms
proof (induction cs arbitrary: p h rule: sort_items.induct)
  case (1 cs)
  note step = list_internal_merge_sort_nodes.simps [of _ p h]
  show ?case
  proof (cases "length cs < 2")
    case True
    then have "cs = [] \<or> (\<exists>x. cs = [x])" by (cases cs) auto
    then show ?thesis using 1(3)
      by (elim disjE exE; subst step; subst sort_items.simps; auto simp: load_simps item_at_def rewires_refl)
  next
    case False
    let ?m = "(length cs + 1) div 2"
    obtain x y ds where cs: "cs = x # y # ds" using False by (cases cs; cases "tl cs") auto
    have p: "p \<noteq> 0" "nodes h p = Some (node_of x (node_addr y))" "node_addr y \<noteq> 0"
      using 1(3) cs by (auto simp: item_at_def)
    obtain b h1 where s: "list_internal_split p h = Some (p, b, h1)" "chain h1 p (take ?m cs) 0"
      "chain h1 b (drop ?m cs) 0" "rewires (node_addr ` set cs) h h1"
      using split_correct [OF 1(3,4) _ refl] False by auto
    have parts: "set cs = set (take ?m cs) \<union> set (drop ?m cs)" by (metis append_take_drop_id set_append)
    have sep: "separate (take ?m cs @ drop ?m cs)" using 1(4) by simp
    then have sep': "separate (take ?m cs)" "separate (drop ?m cs)"
      "node_addr ` set (take ?m cs) \<inter> node_addr ` set (drop ?m cs) = {}"
      by (simp_all only: separate_simps)
    obtain a' h2 where a: "list_internal_merge_sort_nodes list_internal_default_node_cmp p h1 = Some (a', h2)"
      "chain h2 a' (sort_items (take ?m cs)) 0" "rewires (node_addr ` set (take ?m cs)) h1 h2"
      using 1(1) [OF False refl s(2) sep'(1)] by blast
    have "chain h2 b (drop ?m cs) 0" by (rule rewires_chain [OF s(3) a(3)]) (use sep'(3) in blast)
    then obtain b' h3 where b: "list_internal_merge_sort_nodes list_internal_default_node_cmp b h2 = Some (b', h3)"
      "chain h3 b' (sort_items (drop ?m cs)) 0" "rewires (node_addr ` set (drop ?m cs)) h2 h3"
      using 1(2) [OF False refl _ sep'(2)] by blast
    have a3: "chain h3 a' (sort_items (take ?m cs)) 0"
      by (rule rewires_chain [OF a(2) b(3)]) (use sep'(3) in simp)
    have "separate (sort_items (take ?m cs) @ sort_items (drop ?m cs))"
      by (rule separate_mset [OF _ sep]) (simp only: mset_append mset_sort_items)
    from sorted_merge_correct [OF a3 b(2) this] obtain r h' where
      r: "list_internal_sorted_merge list_internal_default_node_cmp a' b' h3 = Some (r, h')"
      "chain h' r (merge_items (sort_items (take ?m cs)) (sort_items (drop ?m cs))) 0"
      "rewires (node_addr ` set cs) h3 h'"
      by (auto simp: parts)
    have "rewires (node_addr ` set cs) h h3"
      by (rule rewires_trans [OF rewires_trans [OF s(4) a(3), of "node_addr ` set cs"] b(3)])
        (simp_all add: image_mono set_take_subset set_drop_subset)
    then have "rewires (node_addr ` set cs) h h'" by (rule rewires_trans [OF _ r(3)]) auto
    moreover have "sort_items cs = merge_items (sort_items (take ?m cs)) (sort_items (drop ?m cs))"
      using False by (subst sort_items.simps) (simp add: Let_def)
    ultimately show ?thesis using p s(1) a(1) b(1) r(1,2) by (subst step) (simp add: load_simps)
  qed
qed

lemma last_node_correct: "chain h p (cs @ [t]) 0 \<Longrightarrow> last_node h p = Some (node_addr t)"
proof (induction cs arbitrary: p)
  case Nil
  then show ?case by (subst last_node.simps) (auto simp: load_simps item_at_def)
next
  case (Cons x cs)
  then obtain n where n: "p = node_addr x" "item_at h x" "nodes h p = Some (node_of x n)" "chain h n (cs @ [t]) 0"
    by auto
  have "n \<noteq> 0" using n(4) by (cases cs) (auto simp: item_at_def)
  with Cons.IH [OF n(4)] n show ?case by (subst last_node.simps) (auto simp: load_simps item_at_def)
qed

lemma list_sort_correct:
  assumes wf: "heap_wf h" and rep: "list_rep h l cs"
  shows "\<exists>h'. list_sort l h = Some (l, h') \<and> heap_wf h' \<and> list_rep h' l (sort_items cs) \<and>
     only_changes l h cs h' (sort_items cs) \<and> blocks h' = blocks h"
proof -
  obtain L where L: "lists h l = Some L" "l \<noteq> 0" "chain h (ls_head L) cs 0" "ls_count L = int (length cs)" "separate cs"
    using rep by (rule list_repE)
  show ?thesis
  proof (cases "length cs < 2")
    case True
    then have "sort_items cs = cs" by (subst sort_items.simps) simp
    then show ?thesis using True L wf rep
      by (simp add: list_sort_def load_simps only_changes_refl)
  next
    case False
    obtain r h1 where r: "list_internal_merge_sort_nodes list_internal_default_node_cmp (ls_head L) h = Some (r, h1)"
      "chain h1 r (sort_items cs) 0" "rewires (node_addr ` set cs) h h1"
      using merge_sort_correct [OF L(3,5)] by blast
    obtain ds t where ds: "sort_items cs = ds @ [t]" using False by (metis length_sort_items list.size(3) rev_exhaust zero_less_numeral)
    let ?L = "L\<lparr>ls_head := r, ls_tail := node_addr t\<rparr>"
    let ?h = "h1\<lparr>lists := (lists h1)(l \<mapsto> ?L)\<rparr>"
    have run: "list_sort l h = Some (l, ?h)"
      using L r(1) last_node_correct [of h1 r ds t] r(2) ds False rewires_simps(2) [OF r(3)]
      by (simp add: list_sort_def heap_simps)
    have len: "length (ds @ [t]) = length cs" using ds length_sort_items by metis
    have sep: "separate (ds @ [t])" using separate_mset [of "ds @ [t]" cs] mset_sort_items L(5) ds by metis
    have "list_rep ?h l (sort_items cs)"
      using L(2,4) r(2) sep len unfolding ds by (intro list_repI [where L = ?L]) auto
    moreover have "heap_wf ?h" using rewires_simps(6) [OF r(3)] wf L(1,2) rewires_simps(2) [OF r(3)]
      by (auto simp: heap_wf_def)
    moreover have "only_changes l h cs ?h (sort_items cs)"
      using rewires_simps [OF r(3)] by (simp add: only_changes_def)
    moreover have "blocks ?h = blocks h" using rewires_simps(1) [OF r(3)] by simp
    ultimately show ?thesis using run by blast
  qed
qed

section \<open>Insertions that fail\<close>

lemma list_insert_refused:
  assumes rep: "list_rep h l cs" and pos: "pos \<noteq> LONG_MAX" "pos < 0 \<or> int (length cs) < pos"
  shows "list_insert l data sz pos h = Some h"
proof -
  obtain L where "lists h l = Some L" "l \<noteq> 0" "ls_count L = int (length cs)" using rep by (rule list_repE)
  with pos show ?thesis by (auto simp: list_insert_def load_simps Let_def split: option.split)
qed

text \<open>When either \<open>calloc\<close> fails, the list is as before and nothing stays allocated.\<close>

lemma list_insert_no_memory:
  assumes wf: "heap_wf h" and rep: "list_rep h l cs" and oom: "oom h (fresh h) \<or> oom h (fresh h + 1)"
  shows "\<exists>h'. list_insert l data sz pos h = Some h' \<and> heap_wf h' \<and> nodes h' = nodes h \<and> lists h' = lists h \<and>
     blocks h' = blocks h"
proof -
  obtain L where L: "lists h l = Some L" "l \<noteq> 0" using rep by (rule list_repE)
  have f: "fresh h \<noteq> 0" "nodes h (fresh h) = None" using wf by (auto simp: heap_wf_def)
  have wf': "heap_wf (h\<lparr>fresh := n\<rparr>)" if "fresh h \<le> n" for n
    using wf that by (auto simp: heap_wf_def)
  show ?thesis
  proof (cases "oom h (fresh h)")
    case True
    then show ?thesis using L wf wf'
      by (auto simp: list_insert_def load_simps Let_def calloc_node_def split: option.split)
  next
    case False
    have "(nodes h)(fresh h := None) = nodes h" using f(2) by (simp add: fun_upd_idem_iff)
    with False oom show ?thesis using L wf wf' f
      by (auto simp: list_insert_def load_simps Let_def calloc_node_def calloc_bytes_def store_simps free_simps
          split: option.split)
  qed
qed

section \<open>Iteration\<close>

definition iterator_at :: "heap \<Rightarrow> addr \<Rightarrow> item list \<Rightarrow> nat \<Rightarrow> bool" where
  "iterator_at h l cs i = (i < length cs \<and> (\<exists>L. lists h l = Some L \<and> ls_iterator L = node_addr (cs ! i)))"

lemma iterate_to_correct:
  assumes rep: "list_rep h l cs" and L: "lists h l = Some L" and i: "i < length cs"
  shows "\<exists>h'. iterate_to l L (node_addr (cs ! i)) h =
      Some (data_addr (cs ! i), Some (length (item_bytes (cs ! i))), h') \<and>
     list_rep h' l cs \<and> iterator_at h' l cs i \<and>
     (\<exists>L'. h' = h\<lparr>lists := (lists h)(l \<mapsto> L')\<rparr>)"
proof -
  obtain L0 where L0: "lists h l = Some L0" "l \<noteq> 0" "chain h (ls_head L0) cs 0" "ls_count L0 = int (length cs)"
      "ls_tail L0 = (if cs = [] then 0 else node_addr (last cs))" "separate cs"
    using rep by (rule list_repE)
  let ?L = "L\<lparr>ls_iterator := node_addr (cs ! i)\<rparr>"
  let ?h = "h\<lparr>lists := (lists h)(l \<mapsto> ?L)\<rparr>"
  obtain n where n: "nodes h (node_addr (cs ! i)) = Some (node_of (cs ! i) n)" "node_addr (cs ! i) \<noteq> 0"
    using chain_owned [OF L0(3)] chain_nonzero [OF L0(3)] i by (metis item_at_def nth_mem)
  have "list_rep ?h l cs" using L0 L by (intro list_repI [where L = ?L]) auto
  moreover have "iterator_at ?h l cs i" using i by (simp add: iterator_at_def)
  ultimately show ?thesis using n L0(1,2) L by (auto simp: iterate_to_def heap_simps)
qed

lemma list_get_first_correct:
  assumes "list_rep h l cs" "cs \<noteq> []"
  shows "\<exists>h'. list_get_first l h = Some (data_addr (cs ! 0), Some (length (item_bytes (cs ! 0))), h') \<and>
     list_rep h' l cs \<and> iterator_at h' l cs 0 \<and> (\<exists>L'. h' = h\<lparr>lists := (lists h)(l \<mapsto> L')\<rparr>)"
proof -
  obtain L where L: "lists h l = Some L" "l \<noteq> 0" "chain h (ls_head L) cs 0" using assms(1) by (rule list_repE)
  then have "ls_head L = node_addr (cs ! 0)" "ls_head L \<noteq> 0"
    using assms(2) by (cases cs; auto simp: item_at_def)+
  with iterate_to_correct [OF assms(1) L(1), of 0] L assms(2) show ?thesis
    by (auto simp: list_get_first_def load_simps)
qed

lemma list_get_last_correct:
  assumes "list_rep h l cs" "cs \<noteq> []"
  shows "\<exists>h'. list_get_last l h = Some (data_addr (last cs), Some (length (item_bytes (last cs))), h') \<and>
     list_rep h' l cs \<and> iterator_at h' l cs (length cs - 1) \<and> (\<exists>L'. h' = h\<lparr>lists := (lists h)(l \<mapsto> L')\<rparr>)"
proof -
  obtain L where L: "lists h l = Some L" "l \<noteq> 0" "chain h (ls_head L) cs 0" "ls_tail L = node_addr (last cs)"
    using assms(1) by (rule list_repE) (use assms(2) in simp)
  have last: "last cs = cs ! (length cs - 1)" using assms(2) by (rule last_conv_nth)
  have "node_addr (last cs) \<noteq> 0" using chain_nonzero [OF L(3), of "last cs"] assms(2) by (simp add: item_at_def)
  with iterate_to_correct [OF assms(1) L(1), of "length cs - 1"] L assms(2) last show ?thesis
    by (auto simp: list_get_last_def load_simps)
qed

lemma list_get_empty:
  assumes "list_rep h l []"
  shows "list_get_first l h = Some (0, None, h)" "list_get_last l h = Some (0, None, h)"
proof -
  obtain L where L: "lists h l = Some L" "l \<noteq> 0" "chain h (ls_head L) [] 0" "ls_tail L = 0"
    using assms(1) by (rule list_repE) simp
  then show "list_get_first l h = Some (0, None, h)" "list_get_last l h = Some (0, None, h)"
    by (simp_all add: list_get_first_def list_get_last_def load_simps)
qed

lemma list_get_next_correct:
  assumes rep: "list_rep h l cs" and it: "iterator_at h l cs i"
  shows "if Suc i < length cs
    then \<exists>h'. list_get_next l h = Some (data_addr (cs ! Suc i), Some (length (item_bytes (cs ! Suc i))), h') \<and>
         list_rep h' l cs \<and> iterator_at h' l cs (Suc i) \<and> (\<exists>L'. h' = h\<lparr>lists := (lists h)(l \<mapsto> L')\<rparr>)
    else list_get_next l h = Some (0, None, h)"
proof -
  obtain L where L: "lists h l = Some L" "l \<noteq> 0" "chain h (ls_head L) cs 0" using rep by (rule list_repE)
  have i: "i < length cs" "ls_iterator L = node_addr (cs ! i)" using it L(1) by (auto simp: iterator_at_def)
  have "chain h (ls_head L) (take i cs @ cs ! i # drop (Suc i) cs) 0"
    using L(3) id_take_nth_drop [OF i(1)] by simp
  then obtain n where n: "nodes h (node_addr (cs ! i)) = Some (node_of (cs ! i) n)" "node_addr (cs ! i) \<noteq> 0"
    "chain h n (drop (Suc i) cs) 0"
    by (auto simp: chain_append item_at_def)
  show ?thesis
  proof (cases "Suc i < length cs")
    case False
    then have "n = 0" using n(3) by simp
    then show ?thesis using False L(1,2) i n(1,2) by (simp add: list_get_next_def load_simps)
  next
    case True
    have "drop (Suc i) cs = cs ! Suc i # drop (Suc (Suc i)) cs" using True by (simp add: Cons_nth_drop_Suc)
    then have "n = node_addr (cs ! Suc i)" "n \<noteq> 0" using n(3) by (auto simp: item_at_def)
    with iterate_to_correct [OF rep L(1) True] True L(1,2) i n(1,2) show ?thesis
      by (auto simp: list_get_next_def load_simps)
  qed
qed

section \<open>Joining and merging\<close>

lemma list_join_correct:
  assumes wf: "heap_wf h" and f: "list_rep h l cs" and s: "list_rep h k ds" and ne: "l \<noteq> k"
    and sep: "separate (cs @ ds)"
  shows "\<exists>r h'. list_join l k h = Some (r, h') \<and> heap_wf h' \<and> list_rep h' r (cs @ ds) \<and> blocks h' = blocks h \<and>
    (if cs = [] then r = k \<and> lists h' l = None else r = l \<and> (lists h' k = None \<longleftrightarrow> ds \<noteq> []))"
proof -
  obtain F where F: "lists h l = Some F" "l \<noteq> 0" "chain h (ls_head F) cs 0" "ls_count F = int (length cs)"
      "ls_tail F = (if cs = [] then 0 else node_addr (last cs))"
    using f by (rule list_repE)
  obtain S where S: "lists h k = Some S" "k \<noteq> 0" "chain h (ls_head S) ds 0" "ls_count S = int (length ds)"
      "ls_tail S = (if ds = [] then 0 else node_addr (last ds))"
    using s by (rule list_repE)
  consider "cs = []" | "cs \<noteq> []" "ds = []" | "cs \<noteq> []" "ds \<noteq> []" by blast
  then show ?thesis
  proof cases
    case 1
    let ?h = "h\<lparr>lists := (lists h)(l := None)\<rparr>"
    have "list_join l k h = Some (k, ?h)" using F S 1 by (simp add: list_join_def load_simps free_simps)
    moreover have "list_rep ?h k ds" using S sep ne by (intro list_repI [where L = S]) auto
    moreover have "heap_wf ?h" using wf by (auto simp: heap_wf_def)
    ultimately show ?thesis using 1 by auto
  next
    case 2
    then have "list_join l k h = Some (l, h)" using F S by (simp add: list_join_def load_simps)
    then show ?thesis using 2 wf f S(1) by auto
  next
    case 3
    then obtain as t where cs: "cs = as @ [t]" by (metis rev_exhaust)
    let ?F = "F\<lparr>ls_tail := ls_tail S, ls_count := ls_count F + ls_count S\<rparr>"
    let ?h1 = "h\<lparr>nodes := (nodes h)(node_addr t \<mapsto> node_of t (ls_head S))\<rparr>"
    let ?h = "?h1\<lparr>lists := (lists h)(l \<mapsto> ?F, k := None)\<rparr>"
    obtain n where t: "nodes h (node_addr t) = Some (node_of t n)" "node_addr t \<noteq> 0"
      using F(3) cs by (auto simp: chain_append item_at_def)
    have run: "list_join l k h = Some (l, ?h)"
      using F S 3 t cs ne by (simp add: list_join_def heap_simps)
    have "chain ?h1 (ls_head F) cs (ls_head S)"
      using chain_redirect [of h "ls_head F" as t 0 "ls_head S"] F(3) sep cs by simp
    moreover have "chain ?h1 (ls_head S) ds 0"
      by (rule chain_upd_other [OF S(3)]) (use sep cs in auto)
    ultimately have "chain ?h (ls_head F) (cs @ ds) 0" by (auto simp: chain_append [of _ _ cs])
    then have "list_rep ?h l (cs @ ds)"
      using F S sep 3 ne by (intro list_repI [where L = ?F]) auto
    moreover have "heap_wf ?h" using wf t F(1,2) by (auto simp: heap_wf_def)
    ultimately show ?thesis using run 3 by auto
  qed
qed

lemma list_add_to_tail_correct:
  assumes "heap_wf h" "list_rep h l cs" "0 < sz" "sz \<le> length src" "\<not> oom h (fresh h)" "\<not> oom h (fresh h + 1)"
  shows "\<exists>h'. list_add_to_tail l (Some src) sz h = Some h' \<and> heap_wf h' \<and>
     list_rep h' l (cs @ [new_item h (take sz src)]) \<and>
     only_changes l h cs h' (cs @ [new_item h (take sz src)])"
  using list_insert_correct [OF assms(1-4), of LONG_MAX "length cs"] assms(5,6)
  by (simp add: list_add_to_tail_def insert_at_def)

lemma list_add_to_head_correct:
  assumes "heap_wf h" "list_rep h l cs" "0 < sz" "sz \<le> length src" "\<not> oom h (fresh h)" "\<not> oom h (fresh h + 1)"
  shows "\<exists>h'. list_add_to_head l (Some src) sz h = Some h' \<and> heap_wf h' \<and>
     list_rep h' l (new_item h (take sz src) # cs) \<and>
     only_changes l h cs h' (new_item h (take sz src) # cs)"
  using list_insert_correct [OF assms(1-4), of 0 0] assms(5,6)
  by (simp add: list_add_to_head_def insert_at_def LONG_MAX_def)

lemma list_allocate_correct:
  assumes "heap_wf h" "\<not> oom h (fresh h)" "list_allocate p h = (l, h')"
  shows "heap_wf h' \<and> list_rep h' l [] \<and> l = fresh h \<and> only_changes l h [] h' []"
  using assms by (auto simp: list_allocate_def calloc_list_def heap_wf_def list_rep_def only_changes_def)

text \<open>Lists that are not changed keep their items when another one is.\<close>

lemma kept_chain:
  assumes "only_changes l h cs h' cs'" "chain h p ds 0" "heap_wf h"
    "node_addr ` set cs \<inter> node_addr ` set ds = {}" "data_addr ` set cs \<inter> data_addr ` set ds = {}"
  shows "chain h' p ds 0"
proof (rule chain_cong [OF assms(2)])
  fix a assume "a \<in> node_addr ` set ds"
  then have "\<not> fresh h \<le> a" "a \<notin> node_addr ` set cs" using fresh_not_in(1) [OF assms(2,3)] assms(4) by blast+
  then show "nodes h' a = nodes h a" using only_changesD(1,2) [OF assms(1)] by metis
next
  fix a assume "a \<in> data_addr ` set ds"
  then have "\<not> fresh h \<le> a" "a \<notin> data_addr ` set cs" using fresh_not_in(2) [OF assms(2,3)] assms(5) by blast+
  then show "blocks h' a = blocks h a" using only_changesD(3,4) [OF assms(1)] by metis
qed

text \<open>Only memory handed out after \<open>h\<close> and the structure \<open>l\<close> differ.\<close>

definition extends :: "addr \<Rightarrow> heap \<Rightarrow> heap \<Rightarrow> bool" where
  "extends l h h' = (fresh h \<le> fresh h' \<and> oom h' = oom h \<and>
     (\<forall>a. a < fresh h \<longrightarrow> nodes h' a = nodes h a \<and> blocks h' a = blocks h a \<and> (a \<noteq> l \<longrightarrow> lists h' a = lists h a)))"

definition all_since :: "addr \<Rightarrow> item list \<Rightarrow> bool" where
  "all_since a cs = (\<forall>x\<in>set cs. a \<le> node_addr x \<and> a \<le> data_addr x)"

lemma extends_old:
  assumes "extends l h h'" "heap_wf h" "chain h p ds q"
  shows "a \<in> node_addr ` set ds \<Longrightarrow> nodes h' a = nodes h a"
    "a \<in> data_addr ` set ds \<Longrightarrow> blocks h' a = blocks h a"
proof -
  have e: "\<And>a. \<not> fresh h \<le> a \<Longrightarrow> nodes h' a = nodes h a \<and> blocks h' a = blocks h a"
    using assms(1) by (simp add: extends_def)
  show "a \<in> node_addr ` set ds \<Longrightarrow> nodes h' a = nodes h a"
    using e [of a] fresh_not_in(1) [OF assms(3,2), of a] by blast
  show "a \<in> data_addr ` set ds \<Longrightarrow> blocks h' a = blocks h a"
    using e [of a] fresh_not_in(2) [OF assms(3,2), of a] by blast
qed

lemma list_below: "heap_wf h \<Longrightarrow> lists h k = Some L \<Longrightarrow> k < fresh h"
  by (metis heap_wf_def linorder_not_le option.distinct(1))

lemma extends_rep:
  assumes "extends l h h'" "heap_wf h" "list_rep h k ds" "k \<noteq> l"
  shows "list_rep h' k ds"
proof -
  obtain L where L: "lists h k = Some L" "k \<noteq> 0" "chain h (ls_head L) ds 0" using assms(3) by (rule list_repE)
  show ?thesis
    by (rule chain_list_rep_upd [OF assms(3) extends_old(1) [OF assms(1,2) L(3)] extends_old(2) [OF assms(1,2) L(3)]])
      (use list_below [OF assms(2) L(1)] assms(1,4) in \<open>simp_all add: extends_def\<close>)
qed

lemma extends_chain: "extends l h h' \<Longrightarrow> heap_wf h \<Longrightarrow> chain h p ds q \<Longrightarrow> chain h' p ds q"
  by (rule chain_cong [OF _ extends_old]) 

lemma changes_extends:
  assumes "only_changes l h cs h' cs'" "all_since a cs" "a \<le> fresh h" "heap_wf h"
  shows "fresh h \<le> fresh h'" "oom h' = oom h"
    "b < a \<Longrightarrow> nodes h' b = nodes h b \<and> blocks h' b = blocks h b \<and> (b \<noteq> l \<longrightarrow> lists h' b = lists h b)"
proof -
  show "fresh h \<le> fresh h'" "oom h' = oom h" using only_changesD(8,9) [OF assms(1)] .
  assume b: "b < a"
  have "b \<notin> node_addr ` set cs" "b \<notin> data_addr ` set cs" using b assms(2) by (auto simp: all_since_def)
  moreover have "\<not> fresh h \<le> b" using b assms(3) by simp
  ultimately show "nodes h' b = nodes h b \<and> blocks h' b = blocks h b \<and> (b \<noteq> l \<longrightarrow> lists h' b = lists h b)"
    using only_changesD(1-5) [OF assms(1)] by metis
qed

lemma copy_nodes_correct:
  assumes "heap_wf h" "list_rep h l cs" "chain h p ds 0" "\<forall>a. \<not> oom h a"
    "all_since a cs" "a \<le> fresh h" "\<forall>x\<in>set ds. node_addr x < a \<and> data_addr x < a"
  shows "\<exists>h' es. copy_nodes_loop l p h = Some h' \<and> heap_wf h' \<and> list_rep h' l (cs @ es) \<and>
    map item_bytes es = map item_bytes ds \<and> all_since a (cs @ es) \<and>
    (\<forall>b<a. nodes h' b = nodes h b \<and> blocks h' b = blocks h b \<and> (b \<noteq> l \<longrightarrow> lists h' b = lists h b)) \<and>
    fresh h \<le> fresh h' \<and> oom h' = oom h"
  using assms
proof (induction ds arbitrary: h p cs)
  case Nil
  then show ?case by (subst copy_nodes_loop.simps) (auto intro: exI [of _ "[]"])
next
  case (Cons x ds)
  obtain n where n: "p = node_addr x" "item_at h x" "nodes h p = Some (node_of x n)" "chain h n ds 0" "p \<noteq> 0"
    using Cons.prems(3) by (auto simp: item_at_def)
  let ?y = "new_item h (item_bytes x)"
  have ix: "data_addr x \<noteq> 0" "blocks h (data_addr x) = Some (item_bytes x)" "item_bytes x \<noteq> []"
    using n(2) by (auto simp: item_at_def)
  obtain h1 where h1: "list_add_to_tail l (Some (item_bytes x)) (length (item_bytes x)) h = Some h1" "heap_wf h1"
    "list_rep h1 l (cs @ [?y])" "only_changes l h cs h1 (cs @ [?y])"
    using list_add_to_tail_correct [OF Cons.prems(1,2), of "length (item_bytes x)" "item_bytes x"] ix Cons.prems(4)
    by auto
  note e = changes_extends [OF h1(4) Cons.prems(5,6,1)]
  have same: "nodes h1 b = nodes h b" "blocks h1 b = blocks h b" if "b < a" for b using e(3) [OF that] by simp_all
  have pa: "p < a" using Cons.prems(7) n(1) by simp
  have c1: "chain h1 n ds 0"
    by (rule chain_cong [OF n(4)]) (use Cons.prems(7) same in auto)
  have a1: "all_since a (cs @ [?y])" "a \<le> fresh h1"
    using Cons.prems(5,6) e(1) by (auto simp: all_since_def new_item_def)
  have ok1: "\<forall>a. \<not> oom h1 a" using Cons.prems(4) e(2) by simp
  have dom: "\<forall>x\<in>set ds. node_addr x < a \<and> data_addr x < a" using Cons.prems(7) by simp
  obtain h' es where h': "copy_nodes_loop l n h1 = Some h'" "heap_wf h'" "list_rep h' l ((cs @ [?y]) @ es)"
    "map item_bytes es = map item_bytes ds" "all_since a ((cs @ [?y]) @ es)"
    "\<forall>b<a. nodes h' b = nodes h1 b \<and> blocks h' b = blocks h1 b \<and> (b \<noteq> l \<longrightarrow> lists h' b = lists h1 b)"
    "fresh h1 \<le> fresh h'" "oom h' = oom h1"
    using Cons.IH [OF h1(2,3) c1 ok1 a1 dom] by blast
  have run: "copy_nodes_loop l p h = copy_nodes_loop l n h1"
    using n(3,5) ix h1(1) same(1) [OF pa] by (subst copy_nodes_loop.simps) (simp add: load_simps)
  have frame: "\<forall>b<a. nodes h' b = nodes h b \<and> blocks h' b = blocks h b \<and> (b \<noteq> l \<longrightarrow> lists h' b = lists h b)"
    using h'(6) e(3) by simp
  have bytes: "map item_bytes (?y # es) = map item_bytes (x # ds)" using h'(4) by (simp add: new_item_def)
  show ?case
    unfolding run using h'(1,2,3,5,7,8) frame bytes e(1,2) by (intro exI [of _ h'] exI [of _ "?y # es"]) simp
qed

lemma list_merge_correct:
  assumes wf: "heap_wf h" and f: "list_rep h l cs" and s: "list_rep h k ds" and ok: "\<forall>a. \<not> oom h a"
  shows "\<exists>r h' es. list_merge l k h = Some (r, h') \<and> heap_wf h' \<and> list_rep h' r es \<and>
    map item_bytes es = map item_bytes (cs @ ds) \<and> list_rep h' l cs \<and> list_rep h' k ds \<and> r \<noteq> l \<and> r \<noteq> k"
proof -
  obtain F where F: "lists h l = Some F" "l \<noteq> 0" "chain h (ls_head F) cs 0" using f by (rule list_repE)
  obtain S where S: "lists h k = Some S" "k \<noteq> 0" "chain h (ls_head S) ds 0" using s by (rule list_repE)
  obtain r h1 where alloc: "list_allocate 0 h = (r, h1)" by force
  have ok0: "\<not> oom h (fresh h)" using ok by simp
  note a = list_allocate_correct [OF wf ok0 alloc]
  let ?a = "fresh h"
  have small: "l < ?a" "k < ?a" using list_below [OF wf] F(1) S(1) by blast+
  have r: "r = ?a" "r \<noteq> 0" "r \<noteq> l" "r \<noteq> k" using a small by (auto simp: list_rep_def)
  have e1: "extends r h h1"
    using a unfolding extends_def only_changes_def by auto
  have dom: "\<forall>x\<in>set cs. node_addr x < ?a \<and> data_addr x < ?a" "\<forall>x\<in>set ds. node_addr x < ?a \<and> data_addr x < ?a"
    using chain_fresh [OF F(3) wf] chain_fresh [OF S(3) wf] by auto
  have ok1: "\<forall>a. \<not> oom h1 a" "?a \<le> fresh h1" using e1 ok by (simp_all add: extends_def)
  have l1: "lists h1 l = Some F" "lists h1 k = Some S" using e1 small F(1) S(1) r by (auto simp: extends_def)
  have "list_rep h1 r []" "heap_wf h1" using a by auto
  from copy_nodes_correct [OF this(2,1) extends_chain [OF e1 wf F(3)] ok1(1) _ ok1(2) dom(1)]
  obtain h2 es where h2: "copy_nodes_loop r (ls_head F) h1 = Some h2" "heap_wf h2" "list_rep h2 r es"
    "map item_bytes es = map item_bytes cs" "all_since ?a es"
    "\<forall>b<?a. nodes h2 b = nodes h1 b \<and> blocks h2 b = blocks h1 b \<and> (b \<noteq> r \<longrightarrow> lists h2 b = lists h1 b)"
    "fresh h1 \<le> fresh h2" "oom h2 = oom h1"
    by (auto simp: all_since_def)
  have e2: "extends r h h2" using e1 h2(6-8) unfolding extends_def by auto
  have l2: "lists h2 k = Some S" using e2 small S(1) r by (auto simp: extends_def)
  from copy_nodes_correct [OF h2(2,3) extends_chain [OF e2 wf S(3)] _ h2(5) _ dom(2)]
  obtain h3 gs where h3: "copy_nodes_loop r (ls_head S) h2 = Some h3" "heap_wf h3" "list_rep h3 r (es @ gs)"
    "map item_bytes gs = map item_bytes ds"
    "\<forall>b<?a. nodes h3 b = nodes h2 b \<and> blocks h3 b = blocks h2 b \<and> (b \<noteq> r \<longrightarrow> lists h3 b = lists h2 b)"
    "fresh h2 \<le> fresh h3" "oom h3 = oom h2"
    using e2 ok by (auto simp: extends_def)
  have e3: "extends r h h3" using e2 h3(5-7) unfolding extends_def by auto
  have run: "list_merge l k h = Some (r, h3)"
    using F(2) S(2) r alloc h2(1) h3(1) l1 l2
    by (simp add: list_merge_def list_internal_copy_nodes_to_list_def load_simps)
  have "list_rep h3 l cs" "list_rep h3 k ds" using extends_rep [OF e3 wf] f s r by auto
  with run h3(2,3,4) h2(4) r show ?thesis by (intro exI [of _ r] exI [of _ h3] exI [of _ "es @ gs"]) simp
qed

end
