(* ===== verification/ListSequence.thy ===== *)
theory ListSequence
  imports ListLaws
begin

text \<open>
  The properties of the singly linked list, over the laws of ListLaws: it refines a sequence of byte
  strings, leaves no trace in memory when released, sorts in place, iterates, searches, merges and
  joins; and the defect of its iterator.
\<close>

section \<open>Sequences of calls\<close>

text \<open>The default order sorts in one way only.\<close>

fun lex_insert :: "byte list \<Rightarrow> byte list list \<Rightarrow> byte list list" where
  "lex_insert x [] = [x]"
| "lex_insert x (y # ys) = (if lex_cmp x y \<le> 0 then x # y # ys else y # lex_insert x ys)"

definition lex_sort :: "byte list list \<Rightarrow> byte list list" where
  "lex_sort xs = foldr lex_insert xs []"

lemma mset_lex_insert [simp]: "mset (lex_insert x ys) = add_mset x (mset ys)"
  by (induction ys) auto

lemma mset_lex_sort [simp]: "mset (lex_sort xs) = mset xs"
  by (induction xs) (auto simp: lex_sort_def)

lemma sorted_lex_insert:
  "sorted_wrt (\<lambda>x y. lex_cmp x y \<le> 0) ys \<Longrightarrow> sorted_wrt (\<lambda>x y. lex_cmp x y \<le> 0) (lex_insert x ys)"
proof (induction ys)
  case (Cons y ys)
  have "set (lex_insert x ys) = insert x (set ys)"
    by (metis mset_lex_insert set_mset_add_mset_insert set_mset_mset)
  with Cons lex_cmp_total [of x y] show ?case by (auto intro: lex_cmp_trans)
qed simp

lemma sorted_lex_sort: "sorted_wrt (\<lambda>x y. lex_cmp x y \<le> 0) (lex_sort xs)"
  by (induction xs) (auto simp: lex_sort_def sorted_lex_insert)

lemma lex_cmp_antisym: "lex_cmp x y \<le> 0 \<Longrightarrow> lex_cmp y x \<le> 0 \<Longrightarrow> x = y"
  by (induction x y rule: lex_cmp.induct) (auto split: if_splits)

lemma sorted_unique:
  "sorted_wrt (\<lambda>x y. lex_cmp x y \<le> 0) xs \<Longrightarrow> sorted_wrt (\<lambda>x y. lex_cmp x y \<le> 0) ys \<Longrightarrow>
   mset xs = mset ys \<Longrightarrow> xs = ys"
proof (induction xs arbitrary: ys)
  case (Cons x xs)
  then obtain y zs where ys: "ys = y # zs" by (cases ys) auto
  have "x \<in> set ys" "y \<in> set (x # xs)"
    using Cons.prems(3) ys by (metis list.set_intros(1) set_mset_mset)+
  then have "x = y" using Cons.prems(1,2) ys by (auto intro: lex_cmp_antisym)
  with Cons ys show ?case by simp
qed simp

lemma sort_items_bytes: "map item_bytes (sort_items cs) = lex_sort (map item_bytes cs)"
proof (rule sorted_unique)
  show "sorted_wrt (\<lambda>x y. lex_cmp x y \<le> 0) (map item_bytes (sort_items cs))"
    using sorted_sort_items [of cs] by (simp add: sorted_wrt_map before_def [abs_def])
  show "sorted_wrt (\<lambda>x y. lex_cmp x y \<le> 0) (lex_sort (map item_bytes cs))" by (rule sorted_lex_sort)
  show "mset (map item_bytes (sort_items cs)) = mset (lex_sort (map item_bytes cs))" by simp
qed

datatype list_op =
    Insert "byte list option" nat int
  | AddHead "byte list option" nat
  | AddTail "byte list option" nat
  | RemoveAt int
  | RemoveHead
  | RemoveTail
  | RemoveValue "byte list option" nat
  | Sort
  | Clear

fun list_step :: "addr \<Rightarrow> list_op \<Rightarrow> heap \<Rightarrow> heap option" where
  "list_step l (Insert data sz pos) h = list_insert l data sz pos h"
| "list_step l (AddHead data sz) h = list_add_to_head l data sz h"
| "list_step l (AddTail data sz) h = list_add_to_tail l data sz h"
| "list_step l (RemoveAt pos) h = list_remove_at l pos h"
| "list_step l RemoveHead h = list_remove_from_head l h"
| "list_step l RemoveTail h = list_remove_from_tail l h"
| "list_step l (RemoveValue data sz) h = list_remove_value l data sz h"
| "list_step l Sort h = map_option snd (list_sort l h)"
| "list_step l Clear h = list_clear l h"

fun list_run :: "addr \<Rightarrow> list_op list \<Rightarrow> heap \<Rightarrow> heap option" where
  "list_run l [] h = Some h"
| "list_run l (a # as) h = do { h1 \<leftarrow> list_step l a h; list_run l as h1 }"

text \<open>What the calls do to the sequence of stored byte strings; refused arguments change nothing.\<close>

definition spec_insert :: "byte list option \<Rightarrow> nat \<Rightarrow> int \<Rightarrow> byte list list \<Rightarrow> byte list list" where
  "spec_insert data sz pos xs =
     (case data of
        None \<Rightarrow> xs
      | Some src \<Rightarrow>
        if sz = 0 then xs
        else if pos = LONG_MAX then xs @ [take sz src]
        else if 0 \<le> pos \<and> pos \<le> int (length xs) then insert_at (nat pos) (take sz src) xs
        else xs)"

definition spec_remove :: "int \<Rightarrow> byte list list \<Rightarrow> byte list list" where
  "spec_remove pos xs =
     (if pos = LONG_MAX then butlast xs
      else if 0 \<le> pos \<and> pos < int (length xs) then delete_at (nat pos) xs else xs)"

fun list_spec :: "list_op \<Rightarrow> byte list list \<Rightarrow> byte list list" where
  "list_spec (Insert data sz pos) xs = spec_insert data sz pos xs"
| "list_spec (AddHead data sz) xs = spec_insert data sz 0 xs"
| "list_spec (AddTail data sz) xs = spec_insert data sz LONG_MAX xs"
| "list_spec (RemoveAt pos) xs = spec_remove pos xs"
| "list_spec RemoveHead xs = spec_remove 0 xs"
| "list_spec RemoveTail xs = spec_remove LONG_MAX xs"
| "list_spec (RemoveValue data sz) xs =
     (case data of
        None \<Rightarrow> xs
      | Some src \<Rightarrow> (case position (\<lambda>x. x = take sz src) xs of None \<Rightarrow> xs | Some k \<Rightarrow> delete_at k xs))"
| "list_spec Sort xs = lex_sort xs"
| "list_spec Clear xs = []"

text \<open>The source of a call is at least as long as it says.\<close>

fun list_op_ok :: "list_op \<Rightarrow> bool" where
  "list_op_ok (Insert data sz pos) = (case data of None \<Rightarrow> True | Some src \<Rightarrow> sz \<le> length src)"
| "list_op_ok (AddHead data sz) = (case data of None \<Rightarrow> True | Some src \<Rightarrow> sz \<le> length src)"
| "list_op_ok (AddTail data sz) = (case data of None \<Rightarrow> True | Some src \<Rightarrow> sz \<le> length src)"
| "list_op_ok (RemoveValue data sz) = (case data of None \<Rightarrow> True | Some src \<Rightarrow> sz \<le> length src)"
| "list_op_ok _ = True"

lemma map_insert_at: "map f (insert_at k x xs) = insert_at k (f x) (map f xs)"
  by (simp add: insert_at_def take_map drop_map)

lemma map_delete_at: "map f (delete_at k xs) = delete_at k (map f xs)"
  by (simp add: delete_at_def take_map drop_map)

lemma position_map: "position P (map f xs) = position (\<lambda>x. P (f x)) xs"
  by (induction xs) auto

lemma delete_last: "Suc k = length xs \<Longrightarrow> delete_at k xs = butlast xs"
  by (cases xs rule: rev_cases) (simp_all add: delete_at_def)

definition step_result :: "addr \<Rightarrow> heap \<Rightarrow> item list \<Rightarrow> heap option \<Rightarrow> byte list list \<Rightarrow> bool" where
  "step_result l h cs r ys = (\<exists>h' cs'. r = Some h' \<and> heap_wf h' \<and> list_rep h' l cs' \<and> only_changes l h cs h' cs' \<and>
     map item_bytes cs' = ys)"

lemma step_resultI:
  "\<exists>h'. r = Some h' \<and> heap_wf h' \<and> list_rep h' l cs' \<and> only_changes l h cs h' cs' \<Longrightarrow>
   map item_bytes cs' = ys \<Longrightarrow> step_result l h cs r ys"
  unfolding step_result_def by blast

lemma step_nothing:
  "heap_wf h \<Longrightarrow> list_rep h l cs \<Longrightarrow> r = Some h \<Longrightarrow> ys = map item_bytes cs \<Longrightarrow> step_result l h cs r ys"
  unfolding step_result_def using only_changes_refl by blast

lemma insert_result:
  assumes wf: "heap_wf h" and rep: "list_rep h l cs" and ok: "\<forall>a. \<not> oom h a" and small: "int (length cs) < LONG_MAX"
    and src: "case data of None \<Rightarrow> True | Some src \<Rightarrow> sz \<le> length src"
  shows "step_result l h cs (list_insert l data sz pos h) (spec_insert data sz pos (map item_bytes cs))"
proof (cases "data = None \<or> sz = 0")
  case True
  then have "list_insert l data sz pos h = Some h" by (auto simp: list_insert_def split: option.split)
  with True show ?thesis by (intro step_nothing [OF wf rep]) (auto simp: spec_insert_def split: option.split)
next
  case False
  then obtain s where s: "data = Some s" "0 < sz" "sz \<le> length s" using src by auto
  show ?thesis
  proof (cases "pos = LONG_MAX \<or> 0 \<le> pos \<and> pos \<le> int (length cs)")
    case False
    then have "list_insert l data sz pos h = Some h" by (intro list_insert_refused [OF rep]) auto
    with False s show ?thesis by (intro step_nothing [OF wf rep]) (auto simp: spec_insert_def)
  next
    case True
    let ?k = "if pos = LONG_MAX then length cs else nat pos"
    have k: "pos = LONG_MAX \<and> ?k = length cs \<or> pos = int ?k \<and> ?k \<le> length cs \<and> pos < LONG_MAX"
      using True small by auto
    have "map item_bytes (insert_at ?k (new_item h (take sz s)) cs) = spec_insert data sz pos (map item_bytes cs)"
      using True s small by (auto simp: map_insert_at spec_insert_def new_item_def insert_at_def [of "length cs"])
    with list_insert_correct [OF wf rep s(2,3) k] ok s(1) show ?thesis by (intro step_resultI) auto
  qed
qed

lemma remove_result:
  assumes wf: "heap_wf h" and rep: "list_rep h l cs" and small: "int (length cs) < LONG_MAX"
  shows "step_result l h cs (list_remove_at l pos h) (spec_remove pos (map item_bytes cs))"
proof -
  obtain L where L: "lists h l = Some L" "l \<noteq> 0" "chain h (ls_head L) cs 0" "ls_count L = int (length cs)"
      "ls_tail L = (if cs = [] then 0 else node_addr (last cs))"
    using rep by (rule list_repE)
  consider "pos = LONG_MAX" "cs \<noteq> []" | "0 \<le> pos" "pos < int (length cs)" | "pos \<noteq> LONG_MAX" "\<not> (0 \<le> pos \<and> pos < int (length cs))"
    | "pos = LONG_MAX" "cs = []"
    by blast
  then show ?thesis
  proof cases
    case 1
    then obtain k where k: "Suc k = length cs" by (cases cs) auto
    have "map item_bytes (delete_at k cs) = spec_remove pos (map item_bytes cs)"
      using 1 k by (simp add: spec_remove_def delete_last map_butlast)
    with list_remove_at_correct [OF wf rep, of pos k] 1 k show ?thesis by (intro step_resultI) auto
  next
    case 2
    have "map item_bytes (delete_at (nat pos) cs) = spec_remove pos (map item_bytes cs)"
      using 2 small by (simp add: spec_remove_def map_delete_at)
    with list_remove_at_correct [OF wf rep, of pos "nat pos"] 2 small show ?thesis by (intro step_resultI) auto
  next
    case 3
    have "list_remove_at l pos h = Some h"
      using 3 L(1,2,4) by (auto simp: list_remove_at_def load_simps Let_def)
    with 3 show ?thesis by (intro step_nothing [OF wf rep]) (auto simp: spec_remove_def)
  next
    case 4
    have "list_internal_remove_from_tail l h = Some h"
      using L(1,2,3) 4 by (simp add: list_internal_remove_from_tail_def load_simps)
    then have "list_remove_at l pos h = Some h"
      using 4 L(1,2,4) by (simp add: list_remove_at_def load_simps LONG_MAX_def)
    with 4 show ?thesis by (intro step_nothing [OF wf rep]) (auto simp: spec_remove_def)
  qed
qed

lemma list_step_refines:
  assumes wf: "heap_wf h" and rep: "list_rep h l cs" and ok: "\<forall>a. \<not> oom h a" and small: "int (length cs) < LONG_MAX"
    and op: "list_op_ok a"
  shows "step_result l h cs (list_step l a h) (list_spec a (map item_bytes cs))"
proof (cases a)
  case (Insert data sz pos)
  with insert_result [OF wf rep ok small, where data = data and sz = sz and pos = pos] op show ?thesis by simp
next
  case (AddHead data sz)
  with insert_result [OF wf rep ok small, where data = data and sz = sz and pos = 0] op show ?thesis by (simp add: list_add_to_head_def)
next
  case (AddTail data sz)
  with insert_result [OF wf rep ok small, where data = data and sz = sz and pos = "LONG_MAX"] op show ?thesis by (simp add: list_add_to_tail_def)
next
  case (RemoveAt pos)
  with remove_result [OF wf rep small] show ?thesis by simp
next
  case RemoveHead
  with remove_result [OF wf rep small] show ?thesis by (simp add: list_remove_from_head_def)
next
  case RemoveTail
  with remove_result [OF wf rep small] show ?thesis by (simp add: list_remove_from_tail_def)
next
  case (RemoveValue data sz)
  show ?thesis
  proof (cases data)
    case None
    with RemoveValue show ?thesis by (intro step_nothing [OF wf rep]) (simp_all add: list_remove_value_def)
  next
    case (Some src)
    have r: "case position (\<lambda>x. item_bytes x = take sz src) cs of
      None \<Rightarrow> list_remove_value l (Some src) sz h = Some h
    | Some k \<Rightarrow> \<exists>h'. list_remove_value l (Some src) sz h = Some h' \<and> heap_wf h' \<and>
        list_rep h' l (delete_at k cs) \<and> only_changes l h cs h' (delete_at k cs)"
      by (rule list_remove_value_correct [OF wf rep]) (use op RemoveValue Some small in \<open>auto simp: LONG_MAX_def\<close>)
    show ?thesis
    proof (cases "position (\<lambda>x. item_bytes x = take sz src) cs")
      case None
      with r RemoveValue Some show ?thesis
        by (intro step_nothing [OF wf rep]) (simp_all add: position_map)
    next
      case (Some k)
      with r RemoveValue \<open>data = Some src\<close> show ?thesis
        by (intro step_resultI [where cs' = "delete_at k cs"]) (simp_all add: position_map map_delete_at)
    qed
  qed
next
  case Sort
  obtain h' where "list_sort l h = Some (l, h')" "heap_wf h'" "list_rep h' l (sort_items cs)"
     "only_changes l h cs h' (sort_items cs)"
    using list_sort_correct [OF wf rep] by blast
  with Sort show ?thesis
    by (intro step_resultI [where cs' = "sort_items cs"]) (simp_all add: sort_items_bytes)
next
  case Clear
  have "l \<noteq> 0" using rep by (simp add: list_rep_def)
  with Clear list_clear_loop_correct [OF wf rep] show ?thesis
    by (intro step_resultI [where cs' = "[]"]) (simp_all add: list_clear_def)
qed

lemma length_list_spec: "length (list_spec a xs) \<le> Suc (length xs)"
proof (cases a)
  case Sort
  then show ?thesis by (metis list_spec.simps(8) le_SucI mset_lex_sort order_refl size_mset)
qed (auto simp: spec_insert_def spec_remove_def insert_at_def delete_at_def split: option.split)

text \<open>
  Ownership over a whole run: whatever is not an item of the list is as it was in the heap \<open>h0\<close>, and
  the items are younger than \<open>h0\<close>.
\<close>

definition owns_all :: "addr \<Rightarrow> heap \<Rightarrow> heap \<Rightarrow> item list \<Rightarrow> bool" where
  "owns_all l h0 h cs =
     ((\<forall>a. a \<notin> node_addr ` set cs \<longrightarrow> nodes h a = nodes h0 a) \<and>
      (\<forall>a. a \<notin> data_addr ` set cs \<longrightarrow> blocks h a = blocks h0 a) \<and>
      (\<forall>p. p \<noteq> l \<longrightarrow> lists h p = lists h0 p) \<and> all_since (fresh h0) cs \<and> fresh h0 \<le> fresh h \<and> oom h = oom h0)"

lemma owns_all_step:
  assumes o: "owns_all l h0 h cs" and c: "only_changes l h cs h' cs'" and wf: "heap_wf h0"
  shows "owns_all l h0 h' cs'"
proof -
  note d = only_changesD [OF c]
  have o': "a \<notin> node_addr ` set cs \<Longrightarrow> nodes h a = nodes h0 a" "a \<notin> data_addr ` set cs \<Longrightarrow> blocks h a = blocks h0 a"
    "p \<noteq> l \<Longrightarrow> lists h p = lists h0 p" "fresh h0 \<le> fresh h" "oom h = oom h0" for a p
    using o by (simp_all add: owns_all_def)
  have old: "a \<in> node_addr ` set cs \<Longrightarrow> fresh h0 \<le> a" "a \<in> data_addr ` set cs \<Longrightarrow> fresh h0 \<le> a" for a
    using o by (auto simp: owns_all_def all_since_def)
  have none: "fresh h0 \<le> a \<Longrightarrow> nodes h0 a = None \<and> blocks h0 a = None" for a
    using wf by (auto simp: heap_wf_def)
  have n: "nodes h' a = nodes h0 a" if "a \<notin> node_addr ` set cs'" for a
    using that d(1,6) [of a] o'(1) [of a] old(1) [of a] none [of a] by (cases "a \<in> node_addr ` set cs") simp_all
  have b: "blocks h' a = blocks h0 a" if "a \<notin> data_addr ` set cs'" for a
    using that d(3,7) [of a] o'(2) [of a] old(2) [of a] none [of a] by (cases "a \<in> data_addr ` set cs") simp_all
  have "fresh h0 \<le> node_addr x" "fresh h0 \<le> data_addr x" if "x \<in> set cs'" for x
  proof -
    have x: "node_addr x \<in> node_addr ` set cs'" "data_addr x \<in> data_addr ` set cs'" using that by auto
    show "fresh h0 \<le> node_addr x"
      using d(2) [OF x(1)] old(1) [of "node_addr x"] o'(4) by (cases "node_addr x \<in> node_addr ` set cs") auto
    show "fresh h0 \<le> data_addr x"
      using d(4) [OF x(2)] old(2) [of "data_addr x"] o'(4) by (cases "data_addr x \<in> data_addr ` set cs") auto
  qed
  then show ?thesis
    unfolding owns_all_def all_since_def using n b d(5,8,9) o'(3-5) by (intro conjI allI impI ballI) simp_all
qed

lemma list_run_refines_aux:
  assumes "heap_wf h" "list_rep h l cs" "\<forall>a. \<not> oom h a" "int (length cs + length as) < LONG_MAX"
    "\<forall>a\<in>set as. list_op_ok a"
  shows "\<exists>h' cs'. list_run l as h = Some h' \<and> heap_wf h' \<and> list_rep h' l cs' \<and> oom h' = oom h \<and>
     map item_bytes cs' = fold list_spec as (map item_bytes cs) \<and>
     (\<forall>h0. heap_wf h0 \<longrightarrow> owns_all l h0 h cs \<longrightarrow> owns_all l h0 h' cs')"
  using assms
proof (induction as arbitrary: h cs)
  case (Cons a as)
  obtain h1 cs1 where s: "list_step l a h = Some h1" "heap_wf h1" "list_rep h1 l cs1" "only_changes l h cs h1 cs1"
    "map item_bytes cs1 = list_spec a (map item_bytes cs)"
    using list_step_refines [OF Cons.prems(1-3), of a] Cons.prems(4,5) by (auto simp: step_result_def)
  have ok: "\<forall>a. \<not> oom h1 a" "oom h1 = oom h" using Cons.prems(3) only_changesD(9) [OF s(4)] by simp_all
  have "length cs1 \<le> Suc (length cs)"
    using length_list_spec [of a "map item_bytes cs"] s(5) by (metis length_map)
  then have small: "int (length cs1 + length as) < LONG_MAX" using Cons.prems(4) by simp
  have ops: "\<forall>a\<in>set as. list_op_ok a" using Cons.prems(5) by simp
  obtain h' cs' where h': "list_run l as h1 = Some h'" "heap_wf h'" "list_rep h' l cs'" "oom h' = oom h1"
     "map item_bytes cs' = fold list_spec as (map item_bytes cs1)"
     "\<forall>h0. heap_wf h0 \<longrightarrow> owns_all l h0 h1 cs1 \<longrightarrow> owns_all l h0 h' cs'"
    using Cons.IH [OF s(2,3) ok(1) small ops] by blast
  have "\<forall>h0. heap_wf h0 \<longrightarrow> owns_all l h0 h cs \<longrightarrow> owns_all l h0 h' cs'"
    using h'(6) owns_all_step [OF _ s(4)] by blast
  with h'(1-5) s(1,5) ok(2) show ?case by (intro exI [of _ h'] exI [of _ cs']) simp
qed auto

definition all_memory :: "heap \<Rightarrow> bool" where
  "all_memory h = (heap_wf h \<and> (\<forall>a. \<not> oom h a))"

text \<open>The bytes stored in a list, in order.\<close>

definition list_holds :: "heap \<Rightarrow> addr \<Rightarrow> byte list list \<Rightarrow> bool" where
  "list_holds h l xs = (\<exists>cs. list_rep h l cs \<and> map item_bytes cs = xs)"

text \<open>
  C1: the linked list refines a sequence of byte strings.  Any sequence of insertions, removals, sorts and clears on
  a well-formed list, valid arguments or not, runs to its end without touching memory it does not
  own, and the list then holds the sequence that the same operations make of the plain list of byte
  strings.
\<close>

theorem list_run_refines:
  assumes "all_memory h" "list_holds h l xs" "int (length xs + length as) < LONG_MAX" "list_all list_op_ok as"
  shows "\<exists>h'. list_run l as h = Some h' \<and> all_memory h' \<and> list_holds h' l (fold list_spec as xs)"
proof -
  obtain cs where cs: "list_rep h l cs" "map item_bytes cs = xs" using assms(2) by (auto simp: list_holds_def)
  have pre: "heap_wf h" "\<forall>a. \<not> oom h a" "int (length cs + length as) < LONG_MAX" "\<forall>a\<in>set as. list_op_ok a"
    using assms cs(2) by (auto simp: all_memory_def list_all_iff)
  obtain h' cs' where "list_run l as h = Some h'" "heap_wf h'" "list_rep h' l cs'" "oom h' = oom h"
    "map item_bytes cs' = fold list_spec as xs"
    using list_run_refines_aux [OF pre(1) cs(1) pre(2-4)] cs(2) by blast
  with pre(2) show ?thesis by (auto simp: all_memory_def list_holds_def)
qed

definition empty_heap :: heap where
  "empty_heap = \<lparr>nodes = Map.empty, lists = Map.empty, blocks = Map.empty, fresh = 1, oom = \<lambda>_. False\<rparr>"

lemma empty_heap_list:
  "list_allocate 0 empty_heap = (1, snd (list_allocate 0 empty_heap))"
  "all_memory empty_heap" "all_memory (snd (list_allocate 0 empty_heap))"
  "list_holds (snd (list_allocate 0 empty_heap)) 1 []"
  by (auto simp: empty_heap_def list_allocate_def calloc_list_def all_memory_def heap_wf_def list_holds_def list_rep_def)

theorem list_run_refines_witness:
  "\<exists>h'. list_run 1 [AddTail (Some [3, 1]) 2, AddHead (Some [9]) 1, Insert (Some [5]) 1 1, Sort, RemoveAt 1]
        (snd (list_allocate 0 empty_heap)) = Some h' \<and> list_holds h' 1 [[3, 1], [9]]"
  using list_run_refines [OF empty_heap_list(3,4), of "[AddTail (Some [3, 1]) 2, AddHead (Some [9]) 1,
      Insert (Some [5]) 1 1, Sort, RemoveAt 1]"]
  by (auto simp: LONG_MAX_def spec_insert_def spec_remove_def insert_at_def delete_at_def lex_sort_def)

text \<open>
  C2: the list frees what it took.  When a list is allocated, used by any sequence of calls and released with
  \<open>list_free\<close>, every node, block and list structure of the heap is as it was before: nothing leaks,
  nothing is freed twice and no other memory is touched.
\<close>

theorem list_lifetime_leaves_no_trace:
  assumes "all_memory h" "int (length as) < LONG_MAX" "list_all list_op_ok as" "list_allocate 0 h = (l, h1)"
  shows "\<exists>h2 h3. list_run l as h1 = Some h2 \<and> list_free l h2 = Some h3 \<and>
     nodes h3 = nodes h \<and> blocks h3 = blocks h \<and> lists h3 = lists h"
proof -
  have a: "heap_wf h1" "list_rep h1 l []" "only_changes l h [] h1 []" "l = fresh h"
    using list_allocate_correct [OF _ _ assms(4)] assms(1) by (auto simp: all_memory_def)
  have wf: "heap_wf h" "\<forall>a. \<not> oom h1 a"
    using assms(1) only_changesD(9) [OF a(3)] by (auto simp: all_memory_def)
  have "owns_all l h h1 []" using a(3) by (simp add: owns_all_def only_changes_def all_since_def)
  then obtain h2 cs where h2: "list_run l as h1 = Some h2" "heap_wf h2" "list_rep h2 l cs" "owns_all l h h2 cs"
    using list_run_refines_aux [OF a(1,2) wf(2), of as] assms(2,3) wf(1) unfolding list_all_iff by auto
  obtain h3 where h3: "list_free l h2 = Some h3" "lists h3 = (lists h2)(l := None)"
     "nodes h3 = (\<lambda>a. if a \<in> node_addr ` set cs then None else nodes h2 a)"
     "blocks h3 = (\<lambda>a. if a \<in> data_addr ` set cs then None else blocks h2 a)"
    using list_free_correct [OF h2(2,3)] by blast
  have since: "a \<in> node_addr ` set cs \<Longrightarrow> fresh h \<le> a" "a \<in> data_addr ` set cs \<Longrightarrow> fresh h \<le> a" for a
    using h2(4) by (auto simp: owns_all_def all_since_def)
  have none: "fresh h \<le> a \<Longrightarrow> nodes h a = None \<and> blocks h a = None \<and> lists h a = None" for a
    using wf(1) by (auto simp: heap_wf_def)
  have "nodes h3 = nodes h" "blocks h3 = blocks h" "lists h3 = lists h"
    using h3(2-4) h2(4) since none a(4) by (auto simp: fun_eq_iff owns_all_def)
  with h2(1) h3(1) show ?thesis by blast
qed

theorem list_lifetime_leaves_no_trace_witness:
  "\<exists>h2 h3. list_run 1 [AddTail (Some [3, 1]) 2, AddTail (Some [9]) 1, RemoveHead] (snd (list_allocate 0 empty_heap)) = Some h2 \<and>
     list_free 1 h2 = Some h3 \<and> nodes h3 = Map.empty \<and> lists h3 = Map.empty"
  using list_lifetime_leaves_no_trace [OF empty_heap_list(2) _ _ empty_heap_list(1),
      of "[AddTail (Some [3, 1]) 2, AddTail (Some [9]) 1, RemoveHead]"]
  by (auto simp: LONG_MAX_def empty_heap_def)

text \<open>
  \<open>list_sort\<close> sorts in place.  The sorted list consists of the same nodes and data blocks relinked, ordered by the
  default comparison (bytewise, a prefix first), with no block moved or copied.
\<close>

theorem list_sort_sorts:
  assumes "heap_wf h" "list_rep h l cs"
  shows "\<exists>h' cs'. list_sort l h = Some (l, h') \<and> list_rep h' l cs' \<and> mset cs' = mset cs \<and>
     sorted_wrt (\<lambda>x y. \<exists>c. list_internal_default_node_cmp (item_bytes x) (length (item_bytes x))
        (item_bytes y) (length (item_bytes y)) = Some c \<and> c \<le> 0) cs' \<and> blocks h' = blocks h"
proof -
  obtain h' where "list_sort l h = Some (l, h')" "list_rep h' l (sort_items cs)" "blocks h' = blocks h"
    using list_sort_correct [OF assms] by blast
  then show ?thesis using sorted_sort_items [of cs]
    by (intro exI [of _ h'] exI [of _ "sort_items cs"]) (simp add: default_cmp before_def [abs_def])
qed

theorem list_sort_sorts_witness:
  "\<exists>h h' cs. list_run 1 [AddTail (Some [9]) 1, AddTail (Some [3, 1]) 2] (snd (list_allocate 0 empty_heap)) = Some h \<and>
     list_sort 1 h = Some (1, h') \<and> list_rep h' 1 cs \<and> length cs = 2"
proof -
  have h0: "heap_wf (snd (list_allocate 0 empty_heap))" "list_rep (snd (list_allocate 0 empty_heap)) 1 []"
    "\<forall>a. \<not> oom (snd (list_allocate 0 empty_heap)) a"
    using empty_heap_list(3,4) by (auto simp: all_memory_def list_holds_def)
  obtain h cs where h: "list_run 1 [AddTail (Some [9]) 1, AddTail (Some [3, 1]) 2] (snd (list_allocate 0 empty_heap)) = Some h"
    "heap_wf h" and cs: "list_rep h 1 cs"
      "map item_bytes cs = fold list_spec [AddTail (Some [9]) 1, AddTail (Some [3, 1]) 2] (map item_bytes [])"
  proof -
    have "int (length ([] :: item list) + length [AddTail (Some [9]) 1, AddTail (Some [3, 1]) 2]) < LONG_MAX"
      "\<forall>a\<in>set [AddTail (Some [9]) 1, AddTail (Some [3, 1]) 2]. list_op_ok a"
      by (simp_all add: LONG_MAX_def)
    from list_run_refines_aux [OF h0 this] show ?thesis by (elim exE conjE) (rule that)
  qed
  have "length (map item_bytes cs) = 2" unfolding cs(2) by (simp add: spec_insert_def)
  then have "length cs = 2" by simp
  with list_sort_sorts [OF h(2) cs(1)] h(1) show ?thesis by (metis size_mset)
qed

text \<open>
  The iterator visits every item in order.  \<open>list_get_first\<close> answers the first item; \<open>list_get_next\<close> the one
  behind the iterator and moves on, and NULL (leaving the iterator) behind the last; \<open>list_get_last\<close>
  answers the last.  None of them changes the list.
\<close>

theorem list_iteration:
  assumes "list_rep h l cs" "iterator_at h l cs i"
  shows "\<exists>h1 h2 h3.
     list_get_first l h = Some (data_addr (hd cs), Some (length (item_bytes (hd cs))), h1) \<and>
       list_rep h1 l cs \<and> iterator_at h1 l cs 0 \<and>
     list_get_last l h = Some (data_addr (last cs), Some (length (item_bytes (last cs))), h2) \<and>
       list_rep h2 l cs \<and> iterator_at h2 l cs (length cs - 1) \<and>
     (if Suc i < length cs
      then list_get_next l h = Some (data_addr (cs ! Suc i), Some (length (item_bytes (cs ! Suc i))), h3) \<and>
        list_rep h3 l cs \<and> iterator_at h3 l cs (Suc i)
      else list_get_next l h = Some (0, None, h3) \<and> h3 = h)"
proof -
  have ne: "cs \<noteq> []" using assms(2) by (auto simp: iterator_at_def)
  obtain h1 where h1: "list_get_first l h = Some (data_addr (hd cs), Some (length (item_bytes (hd cs))), h1)"
    "list_rep h1 l cs" "iterator_at h1 l cs 0"
    using list_get_first_correct [OF assms(1) ne] ne by (auto simp: hd_conv_nth)
  obtain h2 where h2: "list_get_last l h = Some (data_addr (last cs), Some (length (item_bytes (last cs))), h2)"
    "list_rep h2 l cs" "iterator_at h2 l cs (length cs - 1)"
    using list_get_last_correct [OF assms(1) ne] by auto
  obtain h3 where "if Suc i < length cs
      then list_get_next l h = Some (data_addr (cs ! Suc i), Some (length (item_bytes (cs ! Suc i))), h3) \<and>
        list_rep h3 l cs \<and> iterator_at h3 l cs (Suc i)
      else list_get_next l h = Some (0, None, h3) \<and> h3 = h"
    using list_get_next_correct [OF assms] by (cases "Suc i < length cs") auto
  with h1 h2 show ?thesis by (intro exI [of _ h1] exI [of _ h2] exI [of _ h3] conjI)
qed

theorem list_iteration_witness:
  "\<exists>h h1 cs. list_run 1 [AddTail (Some [9]) 1] (snd (list_allocate 0 empty_heap)) = Some h \<and>
     list_get_first 1 h = Some (data_addr (hd cs), Some (length (item_bytes (hd cs))), h1) \<and> length cs = 1"
proof -
  let ?h = "snd (list_allocate 0 empty_heap)"
  obtain h where h: "list_run 1 [AddTail (Some [9]) 1] ?h = Some h" "list_rep h 1 [(2, 3, [9])]" "iterator_at h 1 [(2, 3, [9])] 0"
  proof
    let ?g = "\<lparr>nodes = [2 \<mapsto> node_of (2, 3, [9]) 0], lists = [1 \<mapsto> \<lparr>ls_count = 1, ls_head = 2, ls_tail = 2, ls_iterator = 2\<rparr>],
       blocks = [3 \<mapsto> [9]], fresh = 4, oom = \<lambda>_. False\<rparr>"
    show "list_run 1 [AddTail (Some [9]) 1] ?h = Some ?g"
      by (simp add: empty_heap_def list_allocate_def calloc_list_def list_add_to_tail_def list_insert_def heap_simps
          calloc_node_def calloc_bytes_def Let_def write_block_def list_insert_link_def list_internal_add_to_head_def
          mem_copy_def node_of_def numeral_2_eq_2 numeral_3_eq_3)
    show "list_rep ?g 1 [(2, 3, [9])]" "iterator_at ?g 1 [(2, 3, [9])] 0"
      by (simp_all add: list_rep_def item_at_def iterator_at_def)
  qed
  from list_iteration [OF h(2,3)] obtain h1 where
    "list_get_first 1 h = Some (data_addr (hd [(2, 3, [9])]), Some (length (item_bytes (hd [(2, 3, [9])]))), h1)" by blast
  with h(1) show ?thesis by (intro exI [of _ h] exI [of _ h1] exI [of _ "[(2, 3, [9])]"]) simp
qed

section \<open>The iterator after a removal\<close>

lemma store_list_iterator:
  "store_list h l L = Some h' \<Longrightarrow> \<exists>L'. lists h' l = Some L' \<and> ls_iterator L' = ls_iterator L"
  by (auto simp: store_list_def load_list_def split: if_splits Option.bind_splits)

lemma free_keeps_lists:
  "free_bytes h p = Some h' \<Longrightarrow> lists h' = lists h" "free_node h p = Some h' \<Longrightarrow> lists h' = lists h"
  "store_node h p nd = Some h' \<Longrightarrow> lists h' = lists h"
  by (auto simp: free_bytes_def free_node_def store_node_def split: if_splits Option.bind_splits)

lemma iterator_kept_head:
  assumes "lists h l = Some L" "l \<noteq> 0" "list_internal_remove_from_head l h = Some h'"
  shows "\<exists>L'. lists h' l = Some L' \<and> ls_iterator L' = ls_iterator L"
  using assms by (auto simp: list_internal_remove_from_head_def load_simps Let_def
      split: if_splits Option.bind_splits dest!: store_list_iterator)

lemma iterator_kept_tail:
  assumes "lists h l = Some L" "l \<noteq> 0" "list_internal_remove_from_tail l h = Some h'"
  shows "\<exists>L'. lists h' l = Some L' \<and> ls_iterator L' = ls_iterator L"
  using assms by (auto simp: list_internal_remove_from_tail_def load_simps
      split: if_splits Option.bind_splits dest!: store_list_iterator)

lemma iterator_kept_inside:
  assumes "lists h l = Some L" "l \<noteq> 0" "unlink_node l p q h = Some h'"
  shows "\<exists>L'. lists h' l = Some L' \<and> ls_iterator L' = ls_iterator L"
  using assms by (auto simp: unlink_node_def load_simps free_keeps_lists
      split: if_splits Option.bind_splits dest!: store_list_iterator dest: free_keeps_lists)

lemmas iterator_kept = iterator_kept_head iterator_kept_tail iterator_kept_inside

lemma iterator_after_remove_at:
  assumes "lists h l = Some L" "l \<noteq> 0" "list_remove_at l pos h = Some h'"
  shows "\<exists>L'. lists h' l = Some L' \<and> ls_iterator L' = ls_iterator L"
  using assms(3) iterator_kept [OF assms(1,2)] assms(1,2)
  by (fastforce simp: list_remove_at_def load_simps Let_def split: if_splits Option.bind_splits)

text \<open>
  Removals leave the iterator dangling.  When the item the iterator stands on is removed, no removal function resets
  the iterator, and the next \<open>list_get_next\<close> reads the released node: it has no defined result.
\<close>

theorem list_get_next_after_removal:
  assumes "heap_wf h" "list_rep h l cs" "iterator_at h l cs i" "int i < LONG_MAX"
  shows "\<exists>h'. list_remove_at l (int i) h = Some h' \<and> list_rep h' l (delete_at i cs) \<and> list_get_next l h' = None"
proof -
  have i: "i < length cs" using assms(3) by (simp add: iterator_at_def)
  obtain h' where h': "list_remove_at l (int i) h = Some h'" "list_rep h' l (delete_at i cs)"
    "only_changes l h cs h' (delete_at i cs)"
    using list_remove_at_correct [OF assms(1,2), of "int i" i] assms(4) i by auto
  obtain L where L: "lists h l = Some L" "l \<noteq> 0" "chain h (ls_head L) cs 0" "separate cs"
    using assms(2) by (rule list_repE)
  have it: "ls_iterator L = node_addr (cs ! i)" using assms(3) L(1) by (simp add: iterator_at_def)
  obtain L' where L': "lists h' l = Some L'" "ls_iterator L' = node_addr (cs ! i)"
    using iterator_after_remove_at [OF L(1,2) h'(1)] it by auto
  have cs: "cs = take i cs @ cs ! i # drop (Suc i) cs" by (rule id_take_nth_drop [OF i])
  have "separate (take i cs @ cs ! i # drop (Suc i) cs)" using L(4) cs by simp
  then have "node_addr (cs ! i) \<notin> node_addr ` set (delete_at i cs)"
    unfolding delete_at_def separate_simps by auto
  then have "nodes h' (node_addr (cs ! i)) = None"
    using only_changesD(6) [OF h'(3)] i by simp
  moreover have "node_addr (cs ! i) \<noteq> 0" using chain_nonzero [OF L(3), of "cs ! i"] i by (simp add: item_at_def)
  ultimately have "list_get_next l h' = None" using L' L(2) by (simp add: list_get_next_def load_simps)
  with h'(1,2) show ?thesis by blast
qed

definition one_item_heap :: heap where
  "one_item_heap = \<lparr>nodes = [2 \<mapsto> \<lparr>nd_data = 3, nd_size = 1, nd_next = 0\<rparr>],
     lists = [1 \<mapsto> \<lparr>ls_count = 1, ls_head = 2, ls_tail = 2, ls_iterator = 2\<rparr>],
     blocks = [3 \<mapsto> [9]], fresh = 4, oom = \<lambda>_. False\<rparr>"

lemma one_item_list:
  "heap_wf one_item_heap" "list_rep one_item_heap 1 [(2, 3, [9])]" "iterator_at one_item_heap 1 [(2, 3, [9])] 0"
  by (auto simp: one_item_heap_def heap_wf_def list_rep_def item_at_def iterator_at_def node_of_def)

theorem list_get_next_after_removal_witness:
  "\<exists>h'. list_remove_at 1 0 one_item_heap = Some h' \<and> list_get_next 1 h' = None"
  using list_get_next_after_removal [OF one_item_list] by (auto simp: LONG_MAX_def)

section \<open>Lookups, merge and join on the contents\<close>

text \<open>
  Lookups.  \<open>list_get_at\<close> leads to the bytes stored at the index and is NULL outside the list;
  \<open>list_index_of_value\<close> is the index of the first equal item, or -1; \<open>list_item_count\<close> is the length.
\<close>

theorem list_lookups:
  assumes "list_rep h l cs" "0 < sz" "sz \<le> length src" "pos < 2 ^ 63"
  shows "(\<exists>d. list_get_at l pos h = Some d \<and>
        (if 0 \<le> pos \<and> pos < int (length cs) then load_block h d = Some (item_bytes (cs ! nat pos)) else d = 0))
    \<and> list_index_of_value l (Some src) sz h =
        Some (case position (\<lambda>x. x = take sz src) (map item_bytes cs) of None \<Rightarrow> -1 | Some k \<Rightarrow> int k)
    \<and> list_item_count l h = Some (int (length cs))"
proof (intro conjI)
  obtain L where L: "lists h l = Some L" "l \<noteq> 0" "chain h (ls_head L) cs 0" "ls_count L = int (length cs)"
    using assms(1) by (rule list_repE)
  show "\<exists>d. list_get_at l pos h = Some d \<and>
        (if 0 \<le> pos \<and> pos < int (length cs) then load_block h d = Some (item_bytes (cs ! nat pos)) else d = 0)"
    using list_get_at_correct [OF assms(1,4)] chain_nonzero [OF L(3), of "cs ! nat pos"]
    by (auto simp: item_at_def load_simps)
  show "list_index_of_value l (Some src) sz h =
        Some (case position (\<lambda>x. x = take sz src) (map item_bytes cs) of None \<Rightarrow> -1 | Some k \<Rightarrow> int k)"
    using L index_of_value_loop [OF L(3) assms(3), of 0] assms(2)
    by (simp add: list_index_of_value_def load_simps position_map split: option.split)
  show "list_item_count l h = Some (int (length cs))"
    using L by (simp add: list_item_count_def load_simps)
qed

theorem list_lookups_witness:
  "list_index_of_value 1 (Some [9]) 1 one_item_heap = Some 0 \<and> list_item_count 1 one_item_heap = Some 1"
  using list_lookups [OF one_item_list(2), of 1 "[9]" 0] by simp

text \<open>
  Merge and join.  \<open>list_merge\<close> builds a new list of copies, first list then second, and leaves both lists as they
  were; \<open>list_join\<close> relinks the nodes of the second list behind those of the first without copying.
\<close>

theorem list_merge_and_join:
  assumes "all_memory h" "list_rep h l cs" "list_rep h k ds" "l \<noteq> k" "separate (cs @ ds)"
  shows "(\<exists>r h'. list_merge l k h = Some (r, h') \<and> list_holds h' r (map item_bytes (cs @ ds)) \<and>
            list_rep h' l cs \<and> list_rep h' k ds \<and> r \<noteq> l \<and> r \<noteq> k)
       \<and> (\<exists>r h'. list_join l k h = Some (r, h') \<and> list_rep h' r (cs @ ds) \<and> blocks h' = blocks h)"
proof
  have wf: "heap_wf h" "\<forall>a. \<not> oom h a" using assms(1) by (simp_all add: all_memory_def)
  show "\<exists>r h'. list_merge l k h = Some (r, h') \<and> list_holds h' r (map item_bytes (cs @ ds)) \<and>
            list_rep h' l cs \<and> list_rep h' k ds \<and> r \<noteq> l \<and> r \<noteq> k"
    using list_merge_correct [OF wf(1) assms(2,3) wf(2)] unfolding list_holds_def by blast
  show "\<exists>r h'. list_join l k h = Some (r, h') \<and> list_rep h' r (cs @ ds) \<and> blocks h' = blocks h"
    using list_join_correct [OF wf(1) assms(2-5)] by blast
qed

definition two_list_heap :: heap where
  "two_list_heap = one_item_heap\<lparr>lists := (lists one_item_heap)(4 \<mapsto> \<lparr>ls_count = 1, ls_head = 5, ls_tail = 5, ls_iterator = 5\<rparr>),
     nodes := (nodes one_item_heap)(5 \<mapsto> \<lparr>nd_data = 6, nd_size = 2, nd_next = 0\<rparr>),
     blocks := (blocks one_item_heap)(6 \<mapsto> [7, 8]), fresh := 7\<rparr>"

theorem list_merge_and_join_witness:
  "\<exists>r h'. list_merge 1 4 two_list_heap = Some (r, h') \<and> list_holds h' r [[9], [7, 8]]"
proof -
  have "all_memory two_list_heap" "list_rep two_list_heap 1 [(2, 3, [9])]" "list_rep two_list_heap 4 [(5, 6, [7, 8])]"
    by (auto simp: two_list_heap_def one_item_heap_def all_memory_def heap_wf_def list_rep_def item_at_def node_of_def)
  from list_merge_and_join [OF this] show ?thesis by auto
qed

end
