(* ===== verification/QueueStack.thy ===== *)
theory QueueStack
  imports ListSequence
begin

text \<open>
  The queue of \<open>core/src/queue.c\<close> and the stack of \<open>core/src/stack.c\<close>, clients of the linked list.  Their
  structure holds one pointer, set at allocation and never changed, so a \<open>queue_t*\<close> is a
  \<open>queue_t option\<close>; the \<open>calloc\<close> of the structure is answered by an argument, everything else lives on
  the heap of LinkedList.  Both are shown to be channels: first in first out, last in first out.
\<close>

section \<open>Operations\<close>

record queue_t = q_list :: addr
record stack_t = s_list :: addr

definition queue_allocate :: "bool \<Rightarrow> heap \<Rightarrow> queue_t option \<times> heap" where
  "queue_allocate ok h =
     (if \<not> ok then (None, h)
      else let (l, h1) = list_allocate 0 h
           in if l = 0 then (None, h1) else (Some \<lparr>q_list = l\<rparr>, h1))"

definition queue_clear :: "queue_t option \<Rightarrow> heap \<Rightarrow> heap option" where
  "queue_clear qptr h =
     (case qptr of None \<Rightarrow> Some h | Some q \<Rightarrow> if q_list q = 0 then Some h else list_clear (q_list q) h)"

definition queue_free :: "queue_t option \<Rightarrow> heap \<Rightarrow> heap option" where
  "queue_free qptr h =
     (case qptr of None \<Rightarrow> Some h | Some q \<Rightarrow> if q_list q \<noteq> 0 then list_free (q_list q) h else Some h)"

definition queue_enqueue :: "queue_t option \<Rightarrow> byte list option \<Rightarrow> nat \<Rightarrow> heap \<Rightarrow> heap option" where
  "queue_enqueue qptr data sz h =
     (case qptr of None \<Rightarrow> Some h
      | Some q \<Rightarrow> if q_list q = 0 then Some h else list_add_to_head (q_list q) data sz h)"

text \<open>The returned pointer, the value of \<open>*out_size\<close>, and the heap.\<close>

definition queue_dequeue :: "queue_t option \<Rightarrow> heap \<Rightarrow> (addr \<times> nat \<times> heap) option" where
  "queue_dequeue qptr h =
     (case qptr of None \<Rightarrow> Some (0, 0, h)
      | Some q \<Rightarrow>
        if q_list q = 0 then Some (0, 0, h)
        else do {
          (ptr, sz, h1) \<leftarrow> list_get_last (q_list q) h;
          let size = (case sz of None \<Rightarrow> 0 | Some n \<Rightarrow> n);
          if ptr = 0 then Some (0, 0, h1)
          else
            let (out_ptr, h2) = calloc_bytes h1 size
            in if out_ptr = 0 then Some (0, 0, h2)
               else do {
                 src \<leftarrow> load_block h2 ptr;
                 h3 \<leftarrow> write_block h2 out_ptr src size;
                 h4 \<leftarrow> list_remove_from_tail (q_list q) h3;
                 Some (out_ptr, size, h4) } })"

definition queue_item_count :: "queue_t option \<Rightarrow> heap \<Rightarrow> int option" where
  "queue_item_count qptr h =
     (case qptr of Some q \<Rightarrow> if q_list q \<noteq> 0 then list_item_count (q_list q) h else Some (-1)
      | None \<Rightarrow> Some (-1))"

definition queue_peek :: "queue_t option \<Rightarrow> heap \<Rightarrow> (addr \<times> nat \<times> heap) option" where
  "queue_peek qptr h =
     (case qptr of None \<Rightarrow> Some (0, 0, h)
      | Some q \<Rightarrow>
        if q_list q = 0 then Some (0, 0, h)
        else do {
          (ptr, sz, h1) \<leftarrow> list_get_last (q_list q) h;
          let size = (case sz of None \<Rightarrow> 0 | Some n \<Rightarrow> n);
          if ptr = 0 then Some (0, 0, h1) else Some (ptr, size, h1) })"

definition stack_allocate :: "bool \<Rightarrow> heap \<Rightarrow> stack_t option \<times> heap" where
  "stack_allocate ok h =
     (if \<not> ok then (None, h)
      else let (l, h1) = list_allocate 0 h
           in if l = 0 then (None, h1) else (Some \<lparr>s_list = l\<rparr>, h1))"

definition stack_clear :: "stack_t option \<Rightarrow> heap \<Rightarrow> heap option" where
  "stack_clear sptr h =
     (case sptr of None \<Rightarrow> Some h | Some s \<Rightarrow> if s_list s = 0 then Some h else list_clear (s_list s) h)"

definition stack_free :: "stack_t option \<Rightarrow> heap \<Rightarrow> heap option" where
  "stack_free sptr h =
     (case sptr of None \<Rightarrow> Some h | Some s \<Rightarrow> if s_list s \<noteq> 0 then list_free (s_list s) h else Some h)"

definition stack_push :: "stack_t option \<Rightarrow> byte list option \<Rightarrow> nat \<Rightarrow> heap \<Rightarrow> heap option" where
  "stack_push sptr data sz h =
     (case sptr of None \<Rightarrow> Some h
      | Some s \<Rightarrow> if s_list s = 0 then Some h else list_add_to_tail (s_list s) data sz h)"

definition stack_pop :: "stack_t option \<Rightarrow> heap \<Rightarrow> (addr \<times> nat \<times> heap) option" where
  "stack_pop sptr h =
     (case sptr of None \<Rightarrow> Some (0, 0, h)
      | Some s \<Rightarrow>
        if s_list s = 0 then Some (0, 0, h)
        else do {
          (ptr, sz, h1) \<leftarrow> list_get_last (s_list s) h;
          let size = (case sz of None \<Rightarrow> 0 | Some n \<Rightarrow> n);
          if ptr = 0 then Some (0, 0, h1)
          else
            let (out_ptr, h2) = calloc_bytes h1 size
            in if out_ptr = 0 then Some (0, 0, h2)
               else do {
                 src \<leftarrow> load_block h2 ptr;
                 h3 \<leftarrow> write_block h2 out_ptr src size;
                 h4 \<leftarrow> list_remove_from_tail (s_list s) h3;
                 Some (out_ptr, size, h4) } })"

definition stack_item_count :: "stack_t option \<Rightarrow> heap \<Rightarrow> int option" where
  "stack_item_count sptr h =
     (case sptr of Some s \<Rightarrow> if s_list s \<noteq> 0 then list_item_count (s_list s) h else Some (-1)
      | None \<Rightarrow> Some (-1))"

definition stack_peek :: "stack_t option \<Rightarrow> heap \<Rightarrow> (addr \<times> nat \<times> heap) option" where
  "stack_peek sptr h =
     (case sptr of None \<Rightarrow> Some (0, 0, h)
      | Some s \<Rightarrow>
        if s_list s = 0 then Some (0, 0, h)
        else do {
          (ptr, sz, h1) \<leftarrow> list_get_last (s_list s) h;
          let size = (case sz of None \<Rightarrow> 0 | Some n \<Rightarrow> n);
          if ptr = 0 then Some (0, 0, h1) else Some (ptr, size, h1) })"

section \<open>Taking from the tail\<close>

text \<open>The two bodies are the same code.\<close>

lemma pop_dequeue: "stack_pop (Some \<lparr>s_list = l\<rparr>) h = queue_dequeue (Some \<lparr>q_list = l\<rparr>) h"
  by (simp only: stack_pop_def queue_dequeue_def option.case stack_t.simps queue_t.simps)

lemma peek_peek: "stack_peek (Some \<lparr>s_list = l\<rparr>) h = queue_peek (Some \<lparr>q_list = l\<rparr>) h"
  by (simp only: stack_peek_def queue_peek_def option.case stack_t.simps queue_t.simps)

text \<open>The items in the order in which they leave, the one at the tail first.\<close>

definition waiting :: "addr \<Rightarrow> heap \<Rightarrow> byte list list \<Rightarrow> bool" where
  "waiting l h xs = (all_memory h \<and> (\<exists>cs. list_rep h l cs \<and> rev (map item_bytes cs) = xs))"

lemma lists_update_wf:
  "heap_wf h \<Longrightarrow> lists h l = Some L0 \<Longrightarrow> l \<noteq> 0 \<Longrightarrow> heap_wf (h\<lparr>lists := (lists h)(l \<mapsto> L)\<rparr>)"
  by (auto simp: heap_wf_def)

lemma get_last_tail:
  assumes wf: "heap_wf h" and rep: "list_rep h l (cs @ [t])"
  shows "\<exists>h'. list_get_last l h = Some (data_addr t, Some (length (item_bytes t)), h') \<and> heap_wf h' \<and>
    list_rep h' l (cs @ [t]) \<and> nodes h' = nodes h \<and> blocks h' = blocks h \<and> fresh h' = fresh h \<and> oom h' = oom h"
proof -
  obtain L where L: "lists h l = Some L" "l \<noteq> 0" using rep by (rule list_repE)
  from list_get_last_correct [OF rep] lists_update_wf [OF wf L] show ?thesis by auto
qed

lemma copy_to_caller:
  assumes wf: "heap_wf h" and rep: "list_rep h l cs" and ok: "\<not> oom h (fresh h)" and src: "n \<le> length src"
  shows "\<exists>h'. Option.bind (Some (snd (calloc_bytes h n))) (\<lambda>h2. write_block h2 (fst (calloc_bytes h n)) src n) = Some h' \<and>
    fst (calloc_bytes h n) = fresh h \<and> heap_wf h' \<and> list_rep h' l cs \<and> oom h' = oom h \<and>
    blocks h' = (blocks h)(fresh h \<mapsto> take n src)"
proof -
  obtain L where L: "lists h l = Some L" "chain h (ls_head L) cs 0" using rep by (rule list_repE)
  have f: "fresh h \<noteq> 0" using wf by (simp add: heap_wf_def)
  let ?h = "h\<lparr>fresh := fresh h + 1, blocks := (blocks h)(fresh h \<mapsto> take n src)\<rparr>"
  have "list_rep ?h l cs"
  proof (rule chain_list_rep_upd [OF rep])
    fix a assume "a \<in> data_addr ` set cs"
    then have "a \<noteq> fresh h" using fresh_not_in(2) [OF L(2) wf] by blast
    then show "blocks ?h a = blocks h a" by simp
  qed simp_all
  moreover have "heap_wf ?h" using wf f by (auto simp: heap_wf_def)
  ultimately show ?thesis using ok src f
    by (simp add: calloc_bytes_def write_block_def load_simps mem_copy_Some)
qed

lemma dequeue_tail:
  assumes wf: "heap_wf h" and rep: "list_rep h l (cs @ [t])" and ok: "\<forall>a. \<not> oom h a"
  shows "\<exists>p h'. queue_dequeue (Some \<lparr>q_list = l\<rparr>) h = Some (p, length (item_bytes t), h') \<and> p \<noteq> 0 \<and>
    load_block h' p = Some (item_bytes t) \<and> heap_wf h' \<and> list_rep h' l cs \<and> (\<forall>a. \<not> oom h' a)"
proof -
  have l0: "l \<noteq> 0" using rep by (simp add: list_rep_def)
  obtain h1 where h1: "list_get_last l h = Some (data_addr t, Some (length (item_bytes t)), h1)" "heap_wf h1"
    "list_rep h1 l (cs @ [t])" "blocks h1 = blocks h" "fresh h1 = fresh h" "oom h1 = oom h"
    using get_last_tail [OF wf rep] by blast
  obtain L :: list_t where L: "chain h1 (ls_head L) (cs @ [t]) 0" using h1(3) by (rule list_repE)
  have t: "data_addr t \<noteq> 0" "blocks h1 (data_addr t) = Some (item_bytes t)"
    using chain_nonzero [OF L, of t] by (auto simp: item_at_def)
  let ?n = "length (item_bytes t)"
  obtain h2 where c: "calloc_bytes h1 ?n = (fresh h, h2)" using copy_to_caller [OF h1(2,3), of ?n "item_bytes t"] ok h1(5,6)
    by (metis order_refl prod.collapse)
  obtain h3 where h3: "write_block h2 (fresh h) (item_bytes t) ?n = Some h3" "heap_wf h3" "list_rep h3 l (cs @ [t])"
    "oom h3 = oom h" "blocks h3 = (blocks h)(fresh h \<mapsto> item_bytes t)"
    using copy_to_caller [OF h1(2,3), of ?n "item_bytes t"] ok h1(4-6) c by auto
  have f: "fresh h \<noteq> 0" "fresh h \<notin> data_addr ` set (cs @ [t])"
    using wf fresh_not_in(2) [OF L h1(2)] h1(5) by (auto simp: heap_wf_def)
  have b2: "load_block h2 (data_addr t) = Some (item_bytes t)"
    using c t f ok h1(5,6) by (auto simp: calloc_bytes_def load_simps)
  obtain h4 where h4: "list_remove_at l LONG_MAX h3 = Some h4" "heap_wf h4" "list_rep h4 l cs" "only_changes l h3 (cs @ [t]) h4 cs"
    using list_remove_at_correct [OF h3(2,3), of LONG_MAX "length cs"] by (auto simp: delete_at_cases)
  have "blocks h4 (fresh h) = Some (item_bytes t)"
    using only_changesD(3) [OF h4(4), of "fresh h"] f(2) h3(5) by simp
  moreover have "\<forall>a. \<not> oom h4 a" using ok h3(4) only_changesD(9) [OF h4(4)] by simp
  moreover have "queue_dequeue (Some \<lparr>q_list = l\<rparr>) h = Some (fresh h, ?n, h4)"
    using l0 h1(1) t(1) c f(1) b2 h3(1) h4(1) by (simp add: queue_dequeue_def list_remove_from_tail_def)
  ultimately show ?thesis using h4(2,3) f(1) by (auto simp: load_simps)
qed

lemma dequeue_empty:
  assumes "list_rep h l []"
  shows "queue_dequeue (Some \<lparr>q_list = l\<rparr>) h = Some (0, 0, h)"
  using list_get_empty [OF assms] assms by (simp add: queue_dequeue_def list_rep_def)

text \<open>What a caller reads behind the returned pointer, checked against \<open>*out_size\<close>.\<close>

definition taken :: "(addr \<times> nat \<times> heap) option \<Rightarrow> (byte list option \<times> heap) option" where
  "taken r = do {
     (p, n, h) \<leftarrow> r;
     if p = 0 then Some (None, h)
     else do { b \<leftarrow> load_block h p; if length b = n then Some (Some b, h) else None } }"

lemma taken_waiting:
  "waiting l h (x # xs) \<Longrightarrow> \<exists>h'. taken (queue_dequeue (Some \<lparr>q_list = l\<rparr>) h) = Some (Some x, h') \<and> waiting l h' xs"
proof -
  assume w: "waiting l h (x # xs)"
  then obtain cs where cs: "list_rep h l cs" "rev (map item_bytes cs) = x # xs" and m: "heap_wf h" "\<forall>a. \<not> oom h a"
    by (auto simp: waiting_def all_memory_def)
  then obtain ds t where ds: "cs = ds @ [t]" "item_bytes t = x" "rev (map item_bytes ds) = xs"
    by (cases cs rule: rev_cases) auto
  from dequeue_tail [OF m(1) cs(1) [unfolded ds(1)] m(2)] ds show ?thesis
    by (auto simp: taken_def waiting_def all_memory_def)
qed

lemma taken_nothing:
  "waiting l h [] \<Longrightarrow> \<exists>h'. taken (queue_dequeue (Some \<lparr>q_list = l\<rparr>) h) = Some (None, h') \<and> waiting l h' []"
  using dequeue_empty [of h l] by (auto simp: waiting_def taken_def)

section \<open>First in first out, last in first out\<close>

interpretation queue_channel: channel "waiting l" "\<lambda>x. x \<noteq> []"
  "\<lambda>x. queue_enqueue (Some \<lparr>q_list = l\<rparr>) (Some x) (length x)"
  "\<lambda>h. taken (queue_dequeue (Some \<lparr>q_list = l\<rparr>) h)" "\<lambda>x xs. xs @ [x]" for l
proof
  fix h xs and x :: "byte list" assume w: "waiting l h xs" and x: "x \<noteq> []"
  then obtain cs where cs: "list_rep h l cs" "rev (map item_bytes cs) = xs" and m: "heap_wf h" "\<forall>a. \<not> oom h a"
    by (auto simp: waiting_def all_memory_def)
  obtain h' where h': "list_add_to_head l (Some x) (length x) h = Some h'" "heap_wf h'"
     "list_rep h' l (new_item h x # cs)" "only_changes l h cs h' (new_item h x # cs)"
    using list_add_to_head_correct [OF m(1) cs(1), of "length x" x] m(2) x by auto
  have "waiting l h' (xs @ [x])"
    using h'(2,3) cs(2) m(2) only_changesD(9) [OF h'(4)]
    by (auto simp: waiting_def all_memory_def new_item_def intro!: exI [of _ "new_item h x # cs"])
  with h'(1) cs(1) show "\<exists>h'. queue_enqueue (Some \<lparr>q_list = l\<rparr>) (Some x) (length x) h = Some h' \<and> waiting l h' (xs @ [x])"
    by (simp add: queue_enqueue_def list_rep_def)
qed (fact taken_waiting | fact taken_nothing)+

interpretation stack_channel: channel "waiting l" "\<lambda>x. x \<noteq> []"
  "\<lambda>x. stack_push (Some \<lparr>s_list = l\<rparr>) (Some x) (length x)"
  "\<lambda>h. taken (stack_pop (Some \<lparr>s_list = l\<rparr>) h)" "(#)" for l
proof
  fix h xs and x :: "byte list" assume w: "waiting l h xs" and x: "x \<noteq> []"
  then obtain cs where cs: "list_rep h l cs" "rev (map item_bytes cs) = xs" and m: "heap_wf h" "\<forall>a. \<not> oom h a"
    by (auto simp: waiting_def all_memory_def)
  obtain h' where h': "list_add_to_tail l (Some x) (length x) h = Some h'" "heap_wf h'"
     "list_rep h' l (cs @ [new_item h x])" "only_changes l h cs h' (cs @ [new_item h x])"
    using list_add_to_tail_correct [OF m(1) cs(1), of "length x" x] m(2) x by auto
  have "waiting l h' (x # xs)"
    using h'(2,3) cs(2) m(2) only_changesD(9) [OF h'(4)]
    by (auto simp: waiting_def all_memory_def new_item_def intro!: exI [of _ "cs @ [new_item h x]"])
  with h'(1) cs(1) show "\<exists>h'. stack_push (Some \<lparr>s_list = l\<rparr>) (Some x) (length x) h = Some h' \<and> waiting l h' (x # xs)"
    by (simp add: stack_push_def list_rep_def)
qed (unfold pop_dequeue, (fact taken_waiting | fact taken_nothing)+)

lemma allocate_waiting:
  assumes "all_memory h"
  shows "\<exists>h'. queue_allocate True h = (Some \<lparr>q_list = fresh h\<rparr>, h') \<and> stack_allocate True h = (Some \<lparr>s_list = fresh h\<rparr>, h') \<and>
    waiting (fresh h) h' []"
proof -
  obtain l h' where a: "list_allocate 0 h = (l, h')" by force
  have "heap_wf h' \<and> list_rep h' l [] \<and> l = fresh h \<and> only_changes l h [] h' []"
    using list_allocate_correct [OF _ _ a] assms unfolding all_memory_def by blast
  then show ?thesis using a assms
    by (auto simp: queue_allocate_def stack_allocate_def waiting_def all_memory_def list_rep_def only_changes_def)
qed

text \<open>
  C6: the queue is first in first out.  On a freshly allocated queue every sequence of enqueue and dequeue calls runs to
  its end without a memory error, and each dequeue answers NULL when the queue is empty and otherwise a block of
  its own with the bytes of the item that has waited longest.
\<close>

theorem queue_first_in_first_out:
  assumes "all_memory h" "queue_allocate True h = (Some q, h1)" "list_all (channel_op_ok (\<lambda>x. x \<noteq> [])) as"
  shows "\<exists>h2. channel_run (\<lambda>x. queue_enqueue (Some q) (Some x) (length x)) (\<lambda>h. taken (queue_dequeue (Some q) h)) as h1 =
     Some (fst (channel_spec (\<lambda>x xs. xs @ [x]) as []), h2)"
  using queue_channel.channel_refines [of "fresh h" h1 "[]" as] allocate_waiting [OF assms(1)] assms(2,3) by auto

theorem queue_first_in_first_out_witness:
  "\<exists>q h1 h2. queue_allocate True empty_heap = (Some q, h1) \<and>
     channel_run (\<lambda>x. queue_enqueue (Some q) (Some x) (length x)) (\<lambda>h. taken (queue_dequeue (Some q) h))
       [Put [1], Put [2, 3], Take, Put [4], Take, Take, Take] h1 =
     Some ([Some [1], Some [2, 3], Some [4], None], h2)"
proof -
  obtain q h1 where "queue_allocate True empty_heap = (Some q, h1)"
    using allocate_waiting [OF empty_heap_list(2)] by blast
  with queue_first_in_first_out [OF empty_heap_list(2) this, of "[Put [1], Put [2, 3], Take, Put [4], Take, Take, Take]"]
  show ?thesis by simp
qed

text \<open>
  The stack is last in first out.  As for the queue, with each pop answering the bytes pushed last.
\<close>

theorem stack_last_in_first_out:
  assumes "all_memory h" "stack_allocate True h = (Some s, h1)" "list_all (channel_op_ok (\<lambda>x. x \<noteq> [])) as"
  shows "\<exists>h2. channel_run (\<lambda>x. stack_push (Some s) (Some x) (length x)) (\<lambda>h. taken (stack_pop (Some s) h)) as h1 =
     Some (fst (channel_spec (#) as []), h2)"
  using stack_channel.channel_refines [of "fresh h" h1 "[]" as] allocate_waiting [OF assms(1)] assms(2,3) by auto

theorem stack_last_in_first_out_witness:
  "\<exists>s h1 h2. stack_allocate True empty_heap = (Some s, h1) \<and>
     channel_run (\<lambda>x. stack_push (Some s) (Some x) (length x)) (\<lambda>h. taken (stack_pop (Some s) h))
       [Put [1], Put [2, 3], Take, Put [4], Take, Take, Take] h1 =
     Some ([Some [2, 3], Some [4], Some [1], None], h2)"
proof -
  obtain s h1 where "stack_allocate True empty_heap = (Some s, h1)"
    using allocate_waiting [OF empty_heap_list(2)] by blast
  with stack_last_in_first_out [OF empty_heap_list(2) this, of "[Put [1], Put [2, 3], Take, Put [4], Take, Take, Take]"]
  show ?thesis by simp
qed

end
