(* ===== verification/TcpClient.thy ===== *)
theory TcpClient
  imports Buffer
begin

text \<open>
  The TCP client of \<open>comm/src/tcpclient.c\<close>.  The socket behind the descriptor is part of the client's
  record: the bytes the peer has received, the bytes it has sent and that are not read yet, and for
  each direction the answers the system calls \<open>send\<close> and \<open>recv\<close> will give, one per call: a positive
  answer is the number of bytes the kernel is ready to move in that call, zero or a negative one is
  a closed connection or an error, and without a further answer the call fails.  All segmentations
  of a stream are covered by quantifying over these answers.

  The theory proves that sending and receiving do not depend on the segmentation, that the client is a
  \<open>byte_stream\<close>, and what the two string helpers of the file compute.
\<close>

section \<open>Sockets\<close>

record socket =
  sk_fd :: int
  sk_open :: bool
  sk_sent :: "byte list"
  sk_send_plan :: "int list"
  sk_incoming :: "byte list"
  sk_recv_plan :: "int list"

definition sys_send :: "byte list \<Rightarrow> socket \<Rightarrow> int \<times> socket" where
  "sys_send payload s =
     (case sk_send_plan s of
        [] \<Rightarrow> (-1, s)
      | a # as \<Rightarrow>
        if a \<le> 0 then (a, s\<lparr>sk_send_plan := as\<rparr>)
        else let n = min (nat a) (length payload)
             in (int n, s\<lparr>sk_send_plan := as, sk_sent := sk_sent s @ take n payload\<rparr>))"

text \<open>The answer of \<open>recv\<close> and the bytes it stores.\<close>

definition sys_recv :: "nat \<Rightarrow> socket \<Rightarrow> int \<times> byte list \<times> socket" where
  "sys_recv n s =
     (case sk_recv_plan s of
        [] \<Rightarrow> (-1, [], s)
      | a # as \<Rightarrow>
        if a \<le> 0 then (a, [], s\<lparr>sk_recv_plan := as\<rparr>)
        else let k = min (nat a) (min n (length (sk_incoming s)))
             in (int k, take k (sk_incoming s), s\<lparr>sk_recv_plan := as, sk_incoming := drop k (sk_incoming s)\<rparr>))"

text \<open>
  \<open>(int)\<close> of a \<open>size_t\<close>, used as the length argument of \<open>send\<close> and \<open>recv\<close>: the low 32 bits, read with
  sign; a negative value becomes a length beyond every block.
\<close>

definition int_length :: "nat \<Rightarrow> nat option" where
  "int_length n = (let i = sint (of_nat n :: 32 word) in if i < 0 then None else Some (nat i))"

section \<open>The client\<close>

record tcp_client_t =
  connected :: bool
  server_name :: "byte list"
  server_port :: int
  error_code :: int
  sock :: socket

definition tcp_client_allocate :: "bool \<Rightarrow> socket \<Rightarrow> tcp_client_t option" where
  "tcp_client_allocate ok net = 
     (if ok then Some \<lparr>connected = False, server_name = replicate 33 0, server_port = 0, error_code = 0, sock = net\<rparr> else None)"

text \<open>\<open>connect\<close> answers \<open>returncode\<close> and sets \<open>errno\<close>.\<close>

definition tcp_client_connect_socket :: "int \<Rightarrow> int \<Rightarrow> tcp_client_t option \<Rightarrow> bool \<times> tcp_client_t option" where
  "tcp_client_connect_socket returncode errno ptr =
     (case ptr of
        None \<Rightarrow> (False, None)
      | Some c \<Rightarrow>
        if connected c then (True, ptr)
        else if returncode = -1
        then (False, Some (c\<lparr>error_code := errno, sock := (sock c)\<lparr>sk_open := False\<rparr>, connected := False\<rparr>))
        else (True, Some (c\<lparr>connected := True\<rparr>)))"

definition tcp_client_close_socket :: "tcp_client_t option \<Rightarrow> bool \<times> tcp_client_t option" where
  "tcp_client_close_socket ptr =
     (case ptr of
        None \<Rightarrow> (False, None)
      | Some c \<Rightarrow> 
        if \<not> connected c then (True, ptr)
        else (True, Some (c\<lparr>sock := (sock c)\<lparr>sk_open := False\<rparr>, connected := False\<rparr>)))"

text \<open>Freeing a client leaves nothing but the socket it used, in the state it is left in.\<close>

definition tcp_client_free :: "tcp_client_t option \<Rightarrow> socket option" where
  "tcp_client_free ptr =
     (case ptr of
        None \<Rightarrow> None
      | Some c \<Rightarrow> if connected c then Some ((sock c)\<lparr>sk_open := False\<rparr>) else Some (sock c))"

definition tcp_client_switch_to_tls :: "tcp_client_t option \<Rightarrow> bool" where
  "tcp_client_switch_to_tls ptr = True"

definition tcp_client_is_connected :: "tcp_client_t option \<Rightarrow> bool" where
  "tcp_client_is_connected ptr = (case ptr of None \<Rightarrow> False | Some c \<Rightarrow> connected c)"

definition tcp_client_get_error_code :: "tcp_client_t option \<Rightarrow> int" where
  "tcp_client_get_error_code ptr = (case ptr of None \<Rightarrow> -1 | Some c \<Rightarrow> error_code c)"

text \<open>NULL is answered with \<open>false\<close>, which is the descriptor 0.\<close>

definition tcp_client_get_socket :: "tcp_client_t option \<Rightarrow> int" where
  "tcp_client_get_socket ptr =
     (case ptr of None \<Rightarrow> 0 | Some c \<Rightarrow> if connected c then sk_fd (sock c) else -1)"

text \<open>One call of \<open>send\<close> or \<open>recv\<close> on the client's socket.\<close>

definition tcp_send :: "byte list \<Rightarrow> tcp_client_t \<Rightarrow> int \<times> tcp_client_t" where
  "tcp_send payload c = (let (a, s) = sys_send payload (sock c) in (a, c\<lparr>sock := s\<rparr>))"

definition tcp_recv :: "nat \<Rightarrow> tcp_client_t \<Rightarrow> int \<times> byte list \<times> tcp_client_t" where
  "tcp_recv n c = (let (a, bs, s) = sys_recv n (sock c) in (a, bs, c\<lparr>sock := s\<rparr>))"

lemma tcp_send_plan:
  "tcp_send payload c = (a, c') \<Longrightarrow> 0 < a \<Longrightarrow> length (sk_send_plan (sock c')) < length (sk_send_plan (sock c))"
  by (auto simp: tcp_send_def sys_send_def Let_def split: list.splits if_splits prod.splits)

lemma tcp_recv_plan:
  "tcp_recv n c = (a, bs, c') \<Longrightarrow> 0 < a \<Longrightarrow> length (sk_recv_plan (sock c')) < length (sk_recv_plan (sock c))"
  by (auto simp: tcp_recv_def sys_recv_def Let_def split: list.splits if_splits prod.splits)

text \<open>The loop of \<open>tcp_client_send_buffer\<close>; \<open>errno\<close> is what a failing \<open>send\<close> leaves.\<close>

function tcp_send_loop :: "int \<Rightarrow> byte list \<Rightarrow> nat \<Rightarrow> nat \<Rightarrow> tcp_client_t \<Rightarrow> (bool \<times> tcp_client_t) option" where
  "tcp_send_loop errno payload len sent_total c =
     (if sent_total < len
      then do {
        n \<leftarrow> int_length (len - sent_total);
        if sent_total + n > length payload then None
        else case tcp_send (take n (drop sent_total payload)) c of
               (sent, c') \<Rightarrow>
                 if sent \<le> 0 then Some (False, c'\<lparr>error_code := errno, connected := False\<rparr>)
                 else tcp_send_loop errno payload len (sent_total + nat sent) c' }
      else Some (True, c))"
  by pat_completeness auto
termination
  by (relation "measure (\<lambda>(e, p, l, s, c). length (sk_send_plan (sock c)))") (auto dest: tcp_send_plan [OF sym])

declare tcp_send_loop.simps [simp del]

definition tcp_client_send_buffer ::
  "int \<Rightarrow> tcp_client_t option \<Rightarrow> buffer_t option \<Rightarrow> (bool \<times> tcp_client_t option) option" where
  "tcp_client_send_buffer errno ptr data =
     (case (ptr, data) of
        (Some c, Some b) \<Rightarrow> do {
          (ok, c') \<leftarrow> tcp_send_loop errno (case bf_data b of None \<Rightarrow> [] | Some d \<Rightarrow> d) (buffer_get_size data) 0 c;
          Some (ok, Some c') }
      | _ \<Rightarrow> Some (False, ptr))"

text \<open>The loop of \<open>tcp_client_receive_buffer_by_length\<close>; \<open>None\<close> inside means that \<open>recv\<close> failed.\<close>

function tcp_recv_loop ::
  "nat \<Rightarrow> byte list \<Rightarrow> nat \<Rightarrow> nat \<Rightarrow> tcp_client_t \<Rightarrow> (byte list option \<times> tcp_client_t) option" where
  "tcp_recv_loop len block bufferpos bytesleft c = do {
     n \<leftarrow> int_length bytesleft;
     case tcp_recv n c of
       (bytesread, bs, c') \<Rightarrow>
         if bytesread \<le> 0 then Some (None, c'\<lparr>error_code := -1, connected := False\<rparr>)
         else do {
           block' \<leftarrow> mem_copy block bufferpos bs 0 (nat bytesread);
           if bufferpos + nat bytesread \<ge> len then Some (Some block', c')
           else tcp_recv_loop len block' (bufferpos + nat bytesread) (size_sub bytesleft (nat bytesread)) c' } }"
  by pat_completeness auto
termination
  by (relation "measure (\<lambda>(l, b, p, k, c). length (sk_recv_plan (sock c)))") (auto dest: tcp_recv_plan [OF sym])

declare tcp_recv_loop.simps [simp del]

text \<open>
  \<open>ok\<close> answers the unchecked \<open>calloc\<close> of the receive block (\<open>recv\<close> into NULL fails), \<open>ps ok1 ok2\<close> are
  the page size and the answers for \<open>buffer_allocate\<close>.
\<close>

definition tcp_client_receive_buffer_by_length ::
  "int \<Rightarrow> bool \<Rightarrow> bool \<Rightarrow> bool \<Rightarrow> tcp_client_t option \<Rightarrow> nat \<Rightarrow> (buffer_t option \<times> tcp_client_t option) option" where
  "tcp_client_receive_buffer_by_length ps ok ok1 ok2 ptr len =
     (case ptr of
        None \<Rightarrow> Some (None, None)
      | Some c \<Rightarrow>
        if \<not> ok then Some (None, Some (c\<lparr>error_code := -1, connected := False\<rparr>))
        else do {
          (r, c') \<leftarrow> tcp_recv_loop len (replicate (len + 1) 0) 0 len c;
          case r of
            None \<Rightarrow> Some (None, Some c')
          | Some block \<Rightarrow> do {
              b \<leftarrow> buffer_allocate ps ok1 ok2 (Some block) len;
              Some (b, Some c') } })"

text \<open>
  The pointer \<open>buffer_append\<close> returns is ignored, so a buffer that could not be allocated stays NULL.
  \<open>tcp_client_receive_buffer_by_delimeter\<close>: chunks of at most 512 bytes are appended until the delimiter
  stands at the end of what was received.  \<open>Some None\<close> in the buffer position is NULL.
\<close>

definition MAX_TCP_CLIENT_BUFFER_SIZE :: nat where "MAX_TCP_CLIENT_BUFFER_SIZE = 512"

function tcp_delim_loop ::
  "int \<Rightarrow> bool \<Rightarrow> bool \<Rightarrow> byte list \<Rightarrow> nat \<Rightarrow> buffer_t option \<Rightarrow> nat \<Rightarrow> tcp_client_t \<Rightarrow> (buffer_t option \<times> tcp_client_t) option" where
  "tcp_delim_loop ps ok1 ok2 delim n iob totalbytes c =
     (case tcp_recv MAX_TCP_CLIENT_BUFFER_SIZE c of
        (bytesread, bs, c') \<Rightarrow>
          if bytesread \<le> 0 then Some (buffer_free iob, c'\<lparr>error_code := -1, connected := False\<rparr>)
          else do {
            (appended, _) \<leftarrow> buffer_append ps ok1 ok2 iob (Some bs) (nat bytesread);
            let iob' = (if iob = None then None else appended);
            if totalbytes + nat bytesread \<ge> n
            then do {
              d \<leftarrow> buffer_get_data iob';
              diff \<leftarrow> mem_cmp (drop (totalbytes + nat bytesread - n) d) delim n;
              if diff = 0 then do { b \<leftarrow> buffer_remove_end iob' n; Some (b, c') }
              else tcp_delim_loop ps ok1 ok2 delim n iob' (totalbytes + nat bytesread) c' }
            else tcp_delim_loop ps ok1 ok2 delim n iob' (totalbytes + nat bytesread) c' })"
  by pat_completeness auto
termination
  by (relation "measure (\<lambda>(p, o1, o2, d, n, b, t, c). length (sk_recv_plan (sock c)))")
    (auto dest: tcp_recv_plan [OF sym])

declare tcp_delim_loop.simps [simp del]

definition tcp_client_receive_buffer_by_delimeter ::
  "int \<Rightarrow> bool \<Rightarrow> bool \<Rightarrow> tcp_client_t option \<Rightarrow> byte list \<Rightarrow> nat \<Rightarrow> (buffer_t option \<times> tcp_client_t option) option" where
  "tcp_client_receive_buffer_by_delimeter ps ok1 ok2 ptr delim n =
     (case ptr of
        None \<Rightarrow> Some (None, None)
      | Some c \<Rightarrow> do {
          (b, c') \<leftarrow> tcp_delim_loop ps ok1 ok2 delim n (buffer_allocate_default ps ok1 ok2) 0 c;
          Some (b, Some c') })"

section \<open>Addresses and splitting\<close>

text \<open>
  \<open>tcp_client_internal_is_ip4_address\<close>: \<open>nibble\<close> is an array of four bytes, \<open>atoi\<close> reads its digits up
  to the terminator (reading past the array when there is none).
\<close>

definition digit_char :: "byte \<Rightarrow> bool" where
  "digit_char b = (48 \<le> b \<and> b \<le> 57)"

definition digits_value :: "byte list \<Rightarrow> int" where
  "digits_value ds = foldl (\<lambda>v d. 10 * v + (uint d - 48)) 0 ds"

definition nibble_atoi :: "byte list \<Rightarrow> int option" where
  "nibble_atoi nibble = map_option (\<lambda>s. digits_value (takeWhile digit_char s)) (c_string nibble)"

fun ip4_loop :: "byte list \<Rightarrow> byte list \<Rightarrow> nat \<Rightarrow> bool \<Rightarrow> bool option" where
  "ip4_loop [] nibble nbindex isdelimeter = Some True"
| "ip4_loop (ch # str) nibble nbindex isdelimeter =
     (if ch \<noteq> 46 \<and> \<not> digit_char ch then Some False
      else if ch = 46
      then (if isdelimeter then Some False
            else do {
              numval \<leftarrow> nibble_atoi nibble;
              if numval < 0 \<or> numval > 255 then Some False
              else ip4_loop str (replicate 4 0) 0 True })
      else do {
        nibble' \<leftarrow> mem_write nibble nbindex ch;
        ip4_loop str nibble' (nbindex + 1) False })"

definition tcp_client_internal_is_ip4_address :: "byte list \<Rightarrow> bool option" where
  "tcp_client_internal_is_ip4_address str = do {
     s \<leftarrow> c_string str;
     if length s < 7 \<or> length s > 15 then Some False
     else ip4_loop s (replicate 4 0) 0 False }"

text \<open>
  \<open>tcp_client_internal_split_buffer\<close>: the blocks \<open>*left\<close> and \<open>*right\<close> with their lengths; \<open>ok1\<close>, \<open>ok2\<close>
  answer the two allocations.
\<close>

definition copy_part :: "bool \<Rightarrow> byte list \<Rightarrow> nat \<Rightarrow> nat \<Rightarrow> (byte list option \<times> nat) option" where
  "copy_part ok src off n =
     (if \<not> ok then Some (None, 0)
      else do { b \<leftarrow> mem_copy (replicate (n + 1) 0) 0 src off n; Some (Some b, n) })"

function split_search :: "byte list \<Rightarrow> nat \<Rightarrow> byte list \<Rightarrow> nat \<Rightarrow> nat \<Rightarrow> nat option option" where
  "split_search orig orig_len delim n p =
     (if p \<le> orig_len - n
      then (case mem_cmp (drop p orig) delim n of
              None \<Rightarrow> None
            | Some diff \<Rightarrow> if diff = 0 then Some (Some p) else split_search orig orig_len delim n (p + 1))
      else Some None)"
  by pat_completeness auto
termination by (relation "measure (\<lambda>(o1, l, d, n, p). Suc (l - n) - p)") auto

declare split_search.simps [simp del]

definition tcp_client_internal_split_buffer ::
  "bool \<Rightarrow> bool \<Rightarrow> byte list \<Rightarrow> nat \<Rightarrow> byte list \<Rightarrow> nat \<Rightarrow> ((byte list option \<times> nat) \<times> (byte list option \<times> nat)) option" where
  "tcp_client_internal_split_buffer ok1 ok2 orig orig_len delim n =
     (if n = 0 \<or> orig_len = 0 \<or> n > orig_len
      then do { l \<leftarrow> copy_part ok1 orig 0 orig_len; Some (l, (None, 0)) }
      else do {
        r \<leftarrow> split_search orig orig_len delim n 0;
        case r of
          Some left_size \<Rightarrow> do {
            l \<leftarrow> copy_part ok1 orig 0 left_size;
            r' \<leftarrow> copy_part ok2 orig (left_size + n) (orig_len - (left_size + n));
            Some (l, r') }
        | None \<Rightarrow> do { l \<leftarrow> copy_part ok1 orig 0 orig_len; Some (l, (None, 0)) } })"

text \<open>
  \<open>tcp_client_create_socket\<close>: \<open>resolves\<close> answers \<open>gethostbyname\<close>, \<open>new\<close> is the socket that \<open>socket()\<close>
  opens, \<open>None\<close> when it fails.  The address structure is the system's.
\<close>

definition tcp_client_create_socket ::
  "(byte list \<Rightarrow> bool) \<Rightarrow> socket option \<Rightarrow> tcp_client_t option \<Rightarrow> byte list \<Rightarrow> int \<Rightarrow> (bool \<times> tcp_client_t option) option" where
  "tcp_client_create_socket resolves new ptr servername serverport =
     (case ptr of
        None \<Rightarrow> Some (False, None)
      | Some c \<Rightarrow> do {
          name \<leftarrow> str_ncpy (server_name c) servername 32;
          let c1 = c\<lparr>server_name := name, server_port := serverport\<rparr>;
          ipbuffer \<leftarrow> str_ncpy (replicate 32 0) servername 31;
          ip \<leftarrow> tcp_client_internal_is_ip4_address ipbuffer;
          if \<not> ip \<and> \<not> resolves name then Some (False, Some c1)
          else (case new of
                  None \<Rightarrow> Some (False, Some (c1\<lparr>sock := (sock c1)\<lparr>sk_fd := -1\<rparr>\<rparr>))
                | Some s \<Rightarrow> Some (True, Some (c1\<lparr>sock := s\<rparr>))) })"

section \<open>Sending and receiving\<close>

lemma int_length_small: "n < 2 ^ 31 \<Longrightarrow> int_length n = Some n"
  by (simp add: int_length_def Let_def signed_of_nat signed_take_bit_int_eq_self)

lemma tcp_send_cases:
  assumes "tcp_send payload c = (a, c')"
  shows "connected c' = connected c" "sk_incoming (sock c') = sk_incoming (sock c)"
    "sk_recv_plan (sock c') = sk_recv_plan (sock c)"
    "a \<le> 0 \<Longrightarrow> sk_sent (sock c') = sk_sent (sock c)"
    "0 < a \<Longrightarrow> nat a \<le> length payload \<and> sk_sent (sock c') = sk_sent (sock c) @ take (nat a) payload"
  using assms by (auto simp: tcp_send_def sys_send_def Let_def min_def split: list.splits if_splits prod.splits)

text \<open>Whatever the segmentation, what was sent is a prefix of the payload, all of it on success.\<close>

lemma send_loop_prefix:
  assumes "len < 2 ^ 31" "len \<le> length payload" "off \<le> len"
  shows "\<exists>r c' k. tcp_send_loop errno payload len off c = Some (r, c') \<and> k \<le> len - off \<and>
     sk_sent (sock c') = sk_sent (sock c) @ take k (drop off payload) \<and>
     sk_incoming (sock c') = sk_incoming (sock c) \<and> sk_recv_plan (sock c') = sk_recv_plan (sock c) \<and>
     (if r then k = len - off \<and> connected c' = connected c else \<not> connected c' \<and> error_code c' = errno)"
  using assms
proof (induction errno payload len off c rule: tcp_send_loop.induct)
  case (1 errno payload len st c)
  note step = tcp_send_loop.simps [of errno payload len st c]
  show ?case
  proof (cases "st < len")
    case False
    then show ?thesis by (subst step) (auto intro!: exI [of _ 0])
  next
    case True
    then have n: "int_length (len - st) = Some (len - st)" using "1.prems"(1) by (intro int_length_small) simp
    obtain a c1 where s: "tcp_send (take (len - st) (drop st payload)) c = (a, c1)" by force
    note sc = tcp_send_cases [OF s]
    have room: "\<not> st + (len - st) > length payload" using "1.prems"(2) True by simp
    show ?thesis
    proof (cases "a \<le> 0")
      case a: True
      show ?thesis
        using True n room s a sc(1-4) by (subst step) (auto intro!: exI [of _ 0])
    next
      case a: False
      have k: "nat a \<le> len - st" "sk_sent (sock c1) = sk_sent (sock c) @ take (nat a) (drop st payload)"
        using sc(5) a "1.prems"(2) by (auto simp: min_def split: if_splits)
      have add_le: "st + nat a \<le> len" using k(1) True by simp
      obtain r c2 k' where IH: "tcp_send_loop errno payload len (st + nat a) c1 = Some (r, c2)" "k' \<le> len - (st + nat a)"
        "sk_sent (sock c2) = sk_sent (sock c1) @ take k' (drop (st + nat a) payload)"
        "sk_incoming (sock c2) = sk_incoming (sock c1)" "sk_recv_plan (sock c2) = sk_recv_plan (sock c1)"
        "if r then k' = len - (st + nat a) \<and> connected c2 = connected c1 else \<not> connected c2 \<and> error_code c2 = errno"
        using "1.IH" [OF True n room s [symmetric] a "1.prems"(1,2)] add_le by blast
      have run: "tcp_send_loop errno payload len st c = Some (r, c2)"
        using True n room s a IH(1) by (subst step) simp
      have "sk_sent (sock c2) = sk_sent (sock c) @ take (nat a + k') (drop st payload)"
        using IH(3) k(2) by (simp add: take_add add.commute [of st])
      with run IH(2,4-6) sc(1-3) k(1) show ?thesis
        by (intro exI [of _ r] exI [of _ c2] exI [of _ "nat a + k'"]) (auto split: if_splits)
    qed
  qed
qed

lemma tcp_send_ready:
  assumes "tcp_send payload c = (a, c')" "payload \<noteq> []" "sk_send_plan (sock c) = p # ps" "0 < p"
  shows "0 < a" "sk_send_plan (sock c') = ps"
  using assms by (auto simp: tcp_send_def sys_send_def Let_def split: prod.splits)

text \<open>A connection that moves at least one byte per call gets everything through.\<close>

lemma send_loop_succeeds:
  assumes "len < 2 ^ 31" "len \<le> length payload" "off \<le> len"
    "\<forall>a\<in>set (sk_send_plan (sock c)). 0 < a" "len - off + n \<le> length (sk_send_plan (sock c))"
  shows "\<exists>c'. tcp_send_loop errno payload len off c = Some (True, c') \<and>
     (\<forall>a\<in>set (sk_send_plan (sock c')). 0 < a) \<and> n \<le> length (sk_send_plan (sock c'))"
  using assms
proof (induction errno payload len off c rule: tcp_send_loop.induct)
  case (1 errno payload len st c)
  note step = tcp_send_loop.simps [of errno payload len st c]
  show ?case
  proof (cases "st < len")
    case False
    then show ?thesis using "1.prems" by (subst step) simp
  next
    case True
    then have n: "int_length (len - st) = Some (len - st)" using "1.prems"(1) by (intro int_length_small) simp
    obtain a c1 where s: "tcp_send (take (len - st) (drop st payload)) c = (a, c1)" by force
    obtain p ps where p: "sk_send_plan (sock c) = p # ps" "0 < p"
      using "1.prems"(4,5) True by (cases "sk_send_plan (sock c)") auto
    have room: "\<not> st + (len - st) > length payload" using "1.prems"(2) True by simp
    have a: "0 < a" "sk_send_plan (sock c1) = ps"
      using tcp_send_ready [OF s _ p] True "1.prems"(2) by auto
    have k: "nat a \<le> len - st" "1 \<le> nat a"
      using tcp_send_cases(5) [OF s a(1)] a(1) by (auto simp: min_def split: if_splits)
    have "\<exists>c'. tcp_send_loop errno payload len (st + nat a) c1 = Some (True, c') \<and>
     (\<forall>a\<in>set (sk_send_plan (sock c')). 0 < a) \<and> n \<le> length (sk_send_plan (sock c'))"
      by (rule "1.IH" [OF True n _ s [symmetric]]) (use room a k "1.prems" p True in auto)
    then show ?thesis using True n room s a(1) by (subst step) simp
  qed
qed

lemma tcp_recv_cases:
  assumes "tcp_recv n c = (a, bs, c')"
  shows "connected c' = connected c" "sk_sent (sock c') = sk_sent (sock c)"
    "sk_send_plan (sock c') = sk_send_plan (sock c)"
    "0 < a \<Longrightarrow> nat a \<le> n \<and> nat a \<le> length (sk_incoming (sock c)) \<and> bs = take (nat a) (sk_incoming (sock c)) \<and>
       sk_incoming (sock c') = drop (nat a) (sk_incoming (sock c))"
  using assms by (auto simp: tcp_recv_def sys_recv_def Let_def min_def split: list.splits if_splits prod.splits)

lemma tcp_recv_ready:
  assumes "tcp_recv n c = (a, bs, c')" "0 < n" "sk_incoming (sock c) \<noteq> []" "sk_recv_plan (sock c) = p # ps" "0 < p"
  shows "0 < a" "sk_recv_plan (sock c') = ps"
  using assms by (auto simp: tcp_recv_def sys_recv_def Let_def split: prod.splits)

lemma recv_loop_exact:
  assumes "len < 2 ^ 31" "got < len" "length pre = got"
    "tcp_recv_loop len (pre @ replicate (len + 1 - got) 0) got (len - got) c = Some (r, c')"
  shows "case r of
      None \<Rightarrow> \<not> connected c'
    | Some block \<Rightarrow> len - got \<le> length (sk_incoming (sock c)) \<and>
        block = pre @ take (len - got) (sk_incoming (sock c)) @ [0] \<and>
        sk_incoming (sock c') = drop (len - got) (sk_incoming (sock c)) \<and> connected c' = connected c \<and>
        sk_sent (sock c') = sk_sent (sock c) \<and> sk_send_plan (sock c') = sk_send_plan (sock c)"
  using assms
proof (induction "length (sk_recv_plan (sock c))" arbitrary: c got pre rule: less_induct)
  case less
  have n: "int_length (len - got) = Some (len - got)" using less.prems(1) by (intro int_length_small) simp
  obtain a bs c1 where s: "tcp_recv (len - got) c = (a, bs, c1)" by (metis prod_cases3)
  note sc = tcp_recv_cases [OF s]
  show ?case
  proof (cases "a \<le> 0")
    case True
    then show ?thesis using less.prems(4) n s by (subst (asm) tcp_recv_loop.simps) auto
  next
    case False
    let ?k = "nat a"
    have k: "0 < ?k" "?k \<le> len - got" "?k \<le> length (sk_incoming (sock c))" "bs = take ?k (sk_incoming (sock c))"
      "sk_incoming (sock c1) = drop ?k (sk_incoming (sock c))"
      using sc(4) False by auto
    have copy: "mem_copy (pre @ replicate (len + 1 - got) 0) got bs 0 ?k =
        Some ((pre @ bs) @ replicate (len + 1 - (got + ?k)) 0)"
      using k less.prems(3) by (simp add: mem_copy_Some min_absorb2)
    show ?thesis
    proof (cases "got + ?k \<ge> len")
      case True
      then have e: "?k = len - got" using k(2) by simp
      have "r = Some ((pre @ bs) @ replicate (len + 1 - (got + ?k)) 0)" "c' = c1"
        using less.prems(4) n s False copy True by (subst (asm) tcp_recv_loop.simps; simp)+
      then show ?thesis using k e sc(1-3) less.prems(2) by simp
    next
      case more: False
      have len': "length (pre @ bs) = got + ?k" using k less.prems(3) by simp
      have "tcp_recv_loop len ((pre @ bs) @ replicate (len + 1 - (got + ?k)) 0) (got + ?k) (len - (got + ?k)) c1 = Some (r, c')"
        using less.prems(4) n s False copy more k(2)
        by (subst (asm) tcp_recv_loop.simps) (simp add: diff_diff_left)
      from less.hyps [OF tcp_recv_plan [OF s] less.prems(1) _ len' this] False more
      show ?thesis using k sc(1-3) less.prems(2)
        by (cases r) (auto simp flip: take_add)
    qed
  qed
qed

lemma recv_loop_returns:
  assumes "len < 2 ^ 31" "got < len" "length block = len + 1"
  shows "\<exists>r c'. tcp_recv_loop len block got (len - got) c = Some (r, c')"
  using assms
proof (induction "length (sk_recv_plan (sock c))" arbitrary: c got block rule: less_induct)
  case less
  have n: "int_length (len - got) = Some (len - got)" using less.prems(1) by (intro int_length_small) simp
  obtain a bs c1 where s: "tcp_recv (len - got) c = (a, bs, c1)" by (metis prod_cases3)
  show ?case
  proof (cases "a \<le> 0")
    case True
    then show ?thesis using n s by (subst tcp_recv_loop.simps) simp
  next
    case False
    then have k: "nat a \<le> len - got" "length bs = nat a" using tcp_recv_cases(4) [OF s] by auto
    obtain block' where copy: "mem_copy block got bs 0 (nat a) = Some block'" "length block' = len + 1"
      using k less.prems(2,3) by (simp add: mem_copy_Some)
    show ?thesis
    proof (cases "got + nat a \<ge> len")
      case True
      then show ?thesis using n s False copy(1) by (subst tcp_recv_loop.simps) simp
    next
      case more: False
      have "\<exists>r c'. tcp_recv_loop len block' (got + nat a) (len - (got + nat a)) c1 = Some (r, c')"
        using less.hyps [OF tcp_recv_plan [OF s] less.prems(1) _ copy(2)] False more by auto
      then show ?thesis using n s False copy(1) more k(1)
        by (subst tcp_recv_loop.simps) (simp add: diff_diff_left)
    qed
  qed
qed

lemma recv_loop_succeeds:
  assumes "len < 2 ^ 31" "got < len" "length block = len + 1"
    "\<forall>a\<in>set (sk_recv_plan (sock c)). 0 < a" "len - got + n \<le> length (sk_recv_plan (sock c))"
    "len - got \<le> length (sk_incoming (sock c))"
  shows "\<exists>block' c'. tcp_recv_loop len block got (len - got) c = Some (Some block', c') \<and>
     (\<forall>a\<in>set (sk_recv_plan (sock c')). 0 < a) \<and> n \<le> length (sk_recv_plan (sock c'))"
  using assms
proof (induction "length (sk_recv_plan (sock c))" arbitrary: c got block rule: less_induct)
  case less
  have n: "int_length (len - got) = Some (len - got)" using less.prems(1) by (intro int_length_small) simp
  obtain a bs c1 where s: "tcp_recv (len - got) c = (a, bs, c1)" by (metis prod_cases3)
  obtain p ps where p: "sk_recv_plan (sock c) = p # ps" "0 < p"
    using less.prems(2,4,5) by (cases "sk_recv_plan (sock c)") auto
  have a: "0 < a" "sk_recv_plan (sock c1) = ps"
    using tcp_recv_ready [OF s _ _ p] less.prems(2,6) by fastforce+
  let ?k = "nat a"
  have k: "0 < ?k" "?k \<le> len - got" "bs = take ?k (sk_incoming (sock c))" "length bs = ?k"
      "sk_incoming (sock c1) = drop ?k (sk_incoming (sock c))"
    using tcp_recv_cases(4) [OF s a(1)] a(1) by auto
  obtain block' where copy: "mem_copy block got bs 0 ?k = Some block'" "length block' = len + 1"
  proof (rule that)
    show "mem_copy block got bs 0 ?k = Some (take got block @ bs @ drop (got + ?k) block)"
      using k(2,4) less.prems(2,3) by (simp add: mem_copy_Some)
    show "length (take got block @ bs @ drop (got + ?k) block) = len + 1"
      using k(2,4) less.prems(2,3) by simp
  qed
  show ?case
  proof (cases "got + ?k \<ge> len")
    case True
    then show ?thesis using n s a p copy less.prems(2,4,5) by (subst tcp_recv_loop.simps) simp
  next
    case False
    have "\<exists>block'' c'. tcp_recv_loop len block' (got + ?k) (len - (got + ?k)) c1 = Some (Some block'', c') \<and>
     (\<forall>a\<in>set (sk_recv_plan (sock c')). 0 < a) \<and> n \<le> length (sk_recv_plan (sock c'))"
      by (rule less.hyps [OF tcp_recv_plan [OF s a(1)] less.prems(1) _ copy(2)])
        (use False a p k less.prems in auto)
    then show ?thesis using n s a(1) copy(1) False k(2)
      by (subst tcp_recv_loop.simps) (simp add: diff_diff_left)
  qed
qed

section \<open>The client as a byte stream\<close>

text \<open>The next \<open>n\<close> bytes can be moved in each direction, in whatever pieces.\<close>

definition tcp_healthy :: "nat \<Rightarrow> tcp_client_t \<Rightarrow> bool" where
  "tcp_healthy n c =
     ((\<forall>a\<in>set (sk_send_plan (sock c)). 0 < a) \<and> n \<le> length (sk_send_plan (sock c)) \<and>
      (\<forall>a\<in>set (sk_recv_plan (sock c)). 0 < a) \<and> n \<le> length (sk_recv_plan (sock c)))"

text \<open>Sending a block of bytes in a buffer, and receiving one, as their callers use them.\<close>

definition tcp_write :: "byte list \<Rightarrow> tcp_client_t \<Rightarrow> (bool \<times> tcp_client_t) option" where
  "tcp_write bs c = do {
     b \<leftarrow> buffer_allocate 4096 True True (Some bs) (length bs);
     (ok, p) \<leftarrow> tcp_client_send_buffer 0 (Some c) b;
     c' \<leftarrow> p;
     Some (ok, c') }"

definition tcp_read :: "nat \<Rightarrow> tcp_client_t \<Rightarrow> (byte list option \<times> tcp_client_t) option" where
  "tcp_read n c = do {
     (b, p) \<leftarrow> tcp_client_receive_buffer_by_length 4096 True True True (Some c) n;
     c' \<leftarrow> p;
     case b of
       None \<Rightarrow> Some (None, c')
     | Some _ \<Rightarrow> do { d \<leftarrow> buffer_get_data b; Some (Some (take (buffer_get_size b) d), c') } }"

lemma send_buffer_prefix:
  assumes "buffer_rep b xs" "length xs < 2 ^ 31"
  shows "\<exists>r c' k. tcp_client_send_buffer errno (Some c) b = Some (r, Some c') \<and>
     sk_sent (sock c') = sk_sent (sock c) @ take k xs \<and> sk_incoming (sock c') = sk_incoming (sock c) \<and>
     sk_recv_plan (sock c') = sk_recv_plan (sock c) \<and>
     (if r then k = length xs \<and> connected c' = connected c else \<not> connected c' \<and> error_code c' = errno)"
proof -
  obtain d n where b: "b = Some d" "bf_data d = Some (xs @ replicate n 0)" "bf_data_size d = length xs"
    using assms(1) by (rule buffer_repE)
  obtain r c' k where "tcp_send_loop errno (xs @ replicate n 0) (length xs) 0 c = Some (r, c')" "k \<le> length xs"
    "sk_sent (sock c') = sk_sent (sock c) @ take k (xs @ replicate n 0)"
    "sk_incoming (sock c') = sk_incoming (sock c)" "sk_recv_plan (sock c') = sk_recv_plan (sock c)"
    "if r then k = length xs \<and> connected c' = connected c else \<not> connected c' \<and> error_code c' = errno"
    using send_loop_prefix [of "length xs" "xs @ replicate n 0" 0 errno c] assms(2) by auto
  with b show ?thesis
    by (intro exI [of _ r] exI [of _ c'] exI [of _ k]) (simp add: tcp_client_send_buffer_def buffer_get_size_def)
qed

lemma send_buffer_succeeds:
  assumes "buffer_rep b xs" "length xs < 2 ^ 31" "tcp_healthy (length xs + n) c"
  shows "\<exists>c'. tcp_client_send_buffer errno (Some c) b = Some (True, Some c') \<and>
     sk_sent (sock c') = sk_sent (sock c) @ xs \<and> sk_incoming (sock c') = sk_incoming (sock c) \<and>
     connected c' = connected c \<and> tcp_healthy n c'"
proof -
  obtain d m where b: "b = Some d" "bf_data d = Some (xs @ replicate m 0)" "bf_data_size d = length xs"
    using assms(1) by (rule buffer_repE)
  obtain c' where c': "tcp_send_loop errno (xs @ replicate m 0) (length xs) 0 c = Some (True, c')"
    "\<forall>a\<in>set (sk_send_plan (sock c')). 0 < a" "n \<le> length (sk_send_plan (sock c'))"
    using send_loop_succeeds [of "length xs" "xs @ replicate m 0" 0 c n errno] assms(2,3)
    by (auto simp: tcp_healthy_def)
  then have run: "tcp_client_send_buffer errno (Some c) b = Some (True, Some c')"
    using b by (simp add: tcp_client_send_buffer_def buffer_get_size_def)
  from send_buffer_prefix [OF assms(1,2), of errno c] run c'(2,3) assms(3) show ?thesis
    by (auto simp: tcp_healthy_def)
qed

lemma receive_by_length:
  assumes "0 < len" "len < 2 ^ 31" "ps \<le> int SIZE_MAX"
    "tcp_client_receive_buffer_by_length ps ok True True (Some c) len = Some (r, Some c')"
  shows "if r = None then \<not> connected c'
    else buffer_rep r (take len (sk_incoming (sock c))) \<and> len \<le> length (sk_incoming (sock c)) \<and>
      sk_incoming (sock c') = drop len (sk_incoming (sock c)) \<and> sk_sent (sock c') = sk_sent (sock c) \<and>
      sk_send_plan (sock c') = sk_send_plan (sock c) \<and> connected c' = connected c"
proof (cases ok)
  case False
  then show ?thesis using assms(4) by (auto simp: tcp_client_receive_buffer_by_length_def)
next
  case True
  obtain q c1 where loop: "tcp_recv_loop len (replicate (len + 1) 0) 0 len c = Some (q, c1)"
    using assms(4) True
    by (cases "tcp_recv_loop len (replicate (len + 1) 0) 0 len c") (auto simp: tcp_client_receive_buffer_by_length_def)
  note exact = recv_loop_exact [of len 0 "[]" c q c1] 
  show ?thesis
  proof (cases q)
    case None
    then show ?thesis using exact loop assms True by (simp add: tcp_client_receive_buffer_by_length_def)
  next
    case (Some block)
    then have b: "block = take len (sk_incoming (sock c)) @ [0]" "len \<le> length (sk_incoming (sock c))"
      "sk_incoming (sock c1) = drop len (sk_incoming (sock c))" "connected c1 = connected c"
      "sk_sent (sock c1) = sk_sent (sock c)" "sk_send_plan (sock c1) = sk_send_plan (sock c)"
      using exact loop assms(1,2) by auto
    obtain d where d: "buffer_allocate ps True True (Some block) len = Some d" "buffer_rep d (take len block)"
      using buffer_allocate_rep [of len block ps] b(1,2) assms(2,3) by (auto simp: SIZE_MAX_def)
    then have "r = d" "c' = c1" using assms(4) loop Some True
      by (auto simp: tcp_client_receive_buffer_by_length_def)
    then show ?thesis using d(2) b by (auto simp: buffer_rep_def)
  qed
qed


lemma receive_returns:
  assumes "0 < len" "len < 2 ^ 31" "ps \<le> int SIZE_MAX"
  shows "\<exists>r c'. tcp_client_receive_buffer_by_length ps ok True True (Some c) len = Some (r, Some c')"
proof (cases ok)
  case True
  obtain q c1 where loop: "tcp_recv_loop len (replicate (len + 1) 0) 0 len c = Some (q, c1)"
    using recv_loop_returns [of len 0 "replicate (len + 1) 0" c] assms by auto
  show ?thesis
  proof (cases q)
    case None
    then show ?thesis using loop True by (simp add: tcp_client_receive_buffer_by_length_def)
  next
    case (Some block)
    then have "len \<le> length block" using recv_loop_exact [of len 0 "[]" c q c1] loop assms by auto
    then show ?thesis
      using buffer_allocate_rep [of len block ps] loop Some True assms
      by (auto simp: tcp_client_receive_buffer_by_length_def SIZE_MAX_def)
  qed
qed (simp add: tcp_client_receive_buffer_by_length_def)

lemma receive_succeeds:
  assumes "0 < len" "len < 2 ^ 31" "ps \<le> int SIZE_MAX" "tcp_healthy (len + n) c" "len \<le> length (sk_incoming (sock c))"
  shows "\<exists>r c'. tcp_client_receive_buffer_by_length ps True True True (Some c) len = Some (Some r, Some c') \<and>
     connected c' = connected c \<and> tcp_healthy n c'"
proof -
  obtain block c' where c': "tcp_recv_loop len (replicate (len + 1) 0) 0 len c = Some (Some block, c')"
    "\<forall>a\<in>set (sk_recv_plan (sock c')). 0 < a" "n \<le> length (sk_recv_plan (sock c'))"
    using recv_loop_succeeds [of len 0 "replicate (len + 1) 0" c n] assms by (auto simp: tcp_healthy_def)
  then have b: "block = take len (sk_incoming (sock c)) @ [0]" "connected c' = connected c"
      "sk_send_plan (sock c') = sk_send_plan (sock c)"
    using recv_loop_exact [of len 0 "[]" c "Some block" c'] assms(1,2) by auto
  obtain d where d: "buffer_allocate ps True True (Some block) len = Some d" "buffer_rep d (take len block)"
    using buffer_allocate_rep [of len block ps] b(1) assms(2,3,5) by (auto simp: SIZE_MAX_def)
  then show ?thesis using c' b assms(4)
    by (auto simp: tcp_client_receive_buffer_by_length_def tcp_healthy_def buffer_rep_def)
qed

interpretation tcp_stream: byte_stream "\<lambda>c. sk_sent (sock c)" "\<lambda>c. sk_incoming (sock c)" tcp_healthy
  tcp_write tcp_read "2 ^ 31"
proof
  fix bs :: "byte list" and n c assume h: "tcp_healthy (length bs + n) c" and l: "length bs < 2 ^ 31"
  obtain b where b: "buffer_allocate 4096 True True (Some bs) (length bs) = Some b" "buffer_rep b bs"
    using buffer_allocate_rep [of "length bs" bs 4096] l by (auto simp: SIZE_MAX_def)
  with send_buffer_succeeds [OF b(2) l h, of 0]
  show "\<exists>s'. tcp_write bs c = Some (True, s') \<and> sk_sent (sock s') = sk_sent (sock c) @ bs \<and>
      sk_incoming (sock s') = sk_incoming (sock c) \<and> tcp_healthy n s'"
    by (auto simp: tcp_write_def)
next
  fix k n c assume h: "tcp_healthy (k + n) c" and k: "0 < k" "k < 2 ^ 31" "k \<le> length (sk_incoming (sock c))"
  have ps: "4096 \<le> int SIZE_MAX" by (simp add: SIZE_MAX_def)
  obtain r c' where r: "tcp_client_receive_buffer_by_length 4096 True True True (Some c) k = Some (Some r, Some c')"
    "tcp_healthy n c'"
    using receive_succeeds [OF k(1,2) ps h k(3)] by blast
  from receive_by_length [OF k(1,2) ps r(1)]
  have e: "buffer_rep (Some r) (take k (sk_incoming (sock c)))" "sk_incoming (sock c') = drop k (sk_incoming (sock c))"
    "sk_sent (sock c') = sk_sent (sock c)" by auto
  have "tcp_read k c = Some (Some (take k (sk_incoming (sock c))), c')"
    using r(1) e(1) k(3) by (elim buffer_repE) (simp add: tcp_read_def buffer_get_data_def buffer_get_size_def min_absorb2)
  with r(2) e(2,3) show "\<exists>s'. tcp_read k c = Some (Some (take k (sk_incoming (sock c))), s') \<and>
      sk_sent (sock s') = sk_sent (sock c) \<and> sk_incoming (sock s') = drop k (sk_incoming (sock c)) \<and> tcp_healthy n s'"
    by blast
qed

text \<open>
  Sending.  \<open>tcp_client_send_buffer\<close> returns for every behaviour of \<open>send\<close>; when it answers true the peer has
  received exactly the bytes of the buffer, in order, behind what it had; when it answers false it has
  received a prefix of them, and the client is marked as not connected with the error of the system.
\<close>

theorem tcp_send_delivers:
  assumes "buffer_rep b xs" "length xs < 2 ^ 31"
  shows "\<exists>r c' k. tcp_client_send_buffer errno (Some c) b = Some (r, Some c') \<and>
     sk_sent (sock c') = sk_sent (sock c) @ take k xs \<and>
     (if r then k = length xs \<and> connected c' = connected c else \<not> connected c' \<and> error_code c' = errno)"
  using send_buffer_prefix [OF assms] by blast

definition test_client :: "int list \<Rightarrow> int list \<Rightarrow> byte list \<Rightarrow> tcp_client_t" where
  "test_client sends recvs bs = \<lparr>connected = True, server_name = replicate 33 0, server_port = 0, error_code = 0,
     sock = \<lparr>sk_fd = 3, sk_open = True, sk_sent = [], sk_send_plan = sends, sk_incoming = bs, sk_recv_plan = recvs\<rparr>\<rparr>"

lemma three_bytes: "buffer_rep (Some \<lparr>bf_data = Some [1, 2, 3], bf_data_size = 3, bf_memory_size = 3\<rparr>) [1, 2, 3]"
  by (rule buffer_repI [where n = 0]) (simp_all add: SIZE_MAX_def)

theorem tcp_send_delivers_witness:
  "\<exists>r c' k. tcp_client_send_buffer 104 (Some (test_client [2, 0] [] []))
       (Some \<lparr>bf_data = Some [1, 2, 3], bf_data_size = 3, bf_memory_size = 3\<rparr>) = Some (r, Some c') \<and>
     sk_sent (sock c') = take k [1, 2, 3]"
  using tcp_send_delivers [OF three_bytes, of 104 "test_client [2, 0] [] []"] by (auto simp: test_client_def)

lemma receive_allocation:
  assumes "length xs = len" "len < 2 ^ 31" "ps \<le> int SIZE_MAX"
  shows "\<exists>r. buffer_allocate ps ok1 ok2 (Some (xs @ [0])) len = Some r \<and>
    (if ok1 \<and> ok2 then buffer_rep r xs else if ok1 then \<exists>b. r = Some b \<and> bf_data b = None \<and> bf_data_size b = len else r = None)"
proof (cases "ok1 \<and> ok2")
  case True
  then show ?thesis using buffer_allocate_rep [of len "xs @ [0]" ps] assms by (auto simp: SIZE_MAX_def)
next
  case False
  then show ?thesis by (cases ok1) (auto simp: buffer_allocate_def calloc_block_def Let_def)
qed

text \<open>
  C12: receiving a known length, between 1 and \<open>2 ^ 31 - 1\<close>.  However the peer's bytes are cut into segments, and whichever
  allocation fails, \<open>tcp_client_receive_buffer_by_length\<close> returns, in one of two ways.  Either it answers NULL
  and the client is marked as not connected; on a connection that moves a byte or more per call and has the bytes, this
  happens only when the receive block cannot be allocated.  Or the next \<open>len\<close> bytes are taken from the stream, what follows them
  stays unread, and the client stays as connected as it was; the answer is then a buffer with exactly these
  bytes when both allocations of \<open>buffer_allocate\<close> succeed, but NULL when its structure cannot be allocated, and a buffer
  that claims the length and has no data when its block cannot: the bytes are lost on a connection that looks healthy.
\<close>

theorem tcp_receive_exact:
  assumes "0 < len" "len < 2 ^ 31" "ps \<le> int SIZE_MAX"
  shows "\<exists>r c'. tcp_client_receive_buffer_by_length ps ok ok1 ok2 (Some c) len = Some (r, Some c') \<and>
      (r = None \<and> \<not> connected c' \<and> \<not> (ok \<and> tcp_healthy len c \<and> len \<le> length (sk_incoming (sock c))) \<or>
       len \<le> length (sk_incoming (sock c)) \<and> sk_incoming (sock c') = drop len (sk_incoming (sock c)) \<and>
         sk_sent (sock c') = sk_sent (sock c) \<and> connected c' = connected c \<and>
         (if ok1 \<and> ok2 then buffer_rep r (take len (sk_incoming (sock c)))
          else if ok1 then \<exists>b. r = Some b \<and> bf_data b = None \<and> bf_data_size b = len else r = None))"
proof (cases ok)
  case True
  obtain q c1 where loop: "tcp_recv_loop len (replicate (len + 1) 0) 0 len c = Some (q, c1)"
    using recv_loop_returns [of len 0 "replicate (len + 1) 0" c] assms by auto
  have healthy: "q \<noteq> None" if "tcp_healthy len c" "len \<le> length (sk_incoming (sock c))"
    using recv_loop_succeeds [of len 0 "replicate (len + 1) 0" c 0] assms that loop by (auto simp: tcp_healthy_def)
  note exact = recv_loop_exact [of len 0 "[]" c q c1]
  show ?thesis
  proof (cases q)
    case None
    then have "tcp_client_receive_buffer_by_length ps ok ok1 ok2 (Some c) len = Some (None, Some c1)" "\<not> connected c1"
      using exact loop assms True by (simp_all add: tcp_client_receive_buffer_by_length_def)
    then show ?thesis using healthy None by blast
  next
    case (Some block)
    define xs where "xs = take len (sk_incoming (sock c))"
    have b: "block = xs @ [0]" "length xs = len" "len \<le> length (sk_incoming (sock c))"
      "sk_incoming (sock c1) = drop len (sk_incoming (sock c))" "connected c1 = connected c" "sk_sent (sock c1) = sk_sent (sock c)"
      using exact loop assms(1,2) Some by (auto simp: xs_def)
    obtain r where r: "buffer_allocate ps ok1 ok2 (Some block) len = Some r"
      "if ok1 \<and> ok2 then buffer_rep r xs else if ok1 then \<exists>b. r = Some b \<and> bf_data b = None \<and> bf_data_size b = len else r = None"
      using receive_allocation [OF b(2) assms(2,3)] b(1) by blast
    have "tcp_client_receive_buffer_by_length ps ok ok1 ok2 (Some c) len = Some (r, Some c1)"
      using loop Some True r(1) by (simp add: tcp_client_receive_buffer_by_length_def)
    then show ?thesis using b(3-6) r(2) unfolding xs_def by blast
  qed
qed (simp add: tcp_client_receive_buffer_by_length_def)

theorem tcp_receive_exact_witness:
  "\<exists>b c''. tcp_client_receive_buffer_by_length 4096 True True True (Some (test_client [1, 1, 1] [1, 1, 5] [7, 8, 9, 10])) 3 =
     Some (Some b, Some c'') \<and> buffer_rep (Some b) [7, 8, 9] \<and> sk_incoming (sock c'') = [10]"
  using tcp_receive_exact [of 3 4096 True True True "test_client [1, 1, 1] [1, 1, 5] [7, 8, 9, 10]"]
  by (auto simp: SIZE_MAX_def test_client_def tcp_healthy_def buffer_rep_def)

text \<open>
  Asking for nothing loses the connection.  A receive of length zero calls \<open>recv\<close> for zero bytes, takes its answer
  0 for a closed connection, returns NULL and marks the client as not connected, whatever the
  state of the connection.
\<close>

theorem tcp_receive_nothing_disconnects:
  "\<exists>c'. tcp_client_receive_buffer_by_length ps ok ok1 ok2 (Some c) 0 = Some (None, Some c') \<and> \<not> connected c'"
proof (cases ok)
  case True
  obtain a bs c1 where s: "tcp_recv 0 c = (a, bs, c1)" by (metis prod_cases3)
  have "a \<le> 0" using tcp_recv_cases(4) [OF s] by (cases "0 < a") auto
  moreover have "int_length 0 = Some 0" by (simp add: int_length_small)
  ultimately show ?thesis using True s
    by (simp add: tcp_client_receive_buffer_by_length_def tcp_recv_loop.simps [of 0 _ 0 0])
qed (simp add: tcp_client_receive_buffer_by_length_def)

lemma recv_loop_open:
  "tcp_recv_loop len block pos left c = Some (r, c') \<Longrightarrow> sk_open (sock c') = sk_open (sock c)"
proof (induction len block pos left c arbitrary: r c' rule: tcp_recv_loop.induct)
  case (1 len block pos left c)
  obtain n where n: "int_length left = Some n"
    using "1.prems" by (cases "int_length left") (auto simp: tcp_recv_loop.simps [of len block pos left c])
  obtain a bs c1 where s: "tcp_recv n c = (a, bs, c1)" by (metis prod_cases3)
  have o: "sk_open (sock c1) = sk_open (sock c)"
    using s by (auto simp: tcp_recv_def sys_recv_def Let_def split: prod.splits list.splits if_splits)
  note step = tcp_recv_loop.simps [of len block pos left c]
  show ?case
  proof (cases "a \<le> 0")
    case True
    then show ?thesis using "1.prems" n s o step by auto
  next
    case False
    then obtain block' where b: "mem_copy block pos bs 0 (nat a) = Some block'"
      using "1.prems" n s step by (cases "mem_copy block pos bs 0 (nat a)") auto
    show ?thesis
    proof (cases "pos + nat a \<ge> len")
      case True
      then show ?thesis using "1.prems" n s o step False b by auto
    next
      case more: False
      then have "tcp_recv_loop len block' (pos + nat a) (size_sub left (nat a)) c1 = Some (r, c')"
        using "1.prems" n s step False b by simp
      from "1.IH" [OF n s [symmetric] refl False b more this] o show ?thesis by simp
    qed
  qed
qed

text \<open>
  C13: a failed transfer leaks the socket.  When the peer has closed the connection before \<open>len\<close> bytes arrived,
  \<open>tcp_client_receive_buffer_by_length\<close> answers NULL and marks the client as not connected while its
  descriptor is still open, and neither \<open>tcp_client_close_socket\<close> nor \<open>tcp_client_free\<close> closes it
  any more.
\<close>

theorem tcp_failure_leaks_socket:
  assumes "0 < len" "len < 2 ^ 31" "ps \<le> int SIZE_MAX" "sk_open (sock c)" "length (sk_incoming (sock c)) < len"
  shows "\<exists>c'. tcp_client_receive_buffer_by_length ps True True True (Some c) len = Some (None, Some c') \<and>
    tcp_client_close_socket (Some c') = (True, Some c') \<and>
    (\<exists>s. tcp_client_free (Some c') = Some s \<and> sk_open s)"
proof -
  obtain r c' where run: "tcp_client_receive_buffer_by_length ps True True True (Some c) len = Some (r, Some c')"
    using receive_returns [OF assms(1-3)] by blast
  have r: "r = None" "\<not> connected c'"
    using receive_by_length [OF assms(1-3) run] assms(5) by (auto split: if_splits)
  obtain q where loop: "tcp_recv_loop len (replicate (len + 1) 0) 0 len c = Some (q, c')"
    using run by (cases "tcp_recv_loop len (replicate (len + 1) 0) 0 len c")
      (auto simp: tcp_client_receive_buffer_by_length_def bind_eq_Some_conv split: option.splits)
  from recv_loop_open [OF loop] assms(4) run r show ?thesis
    by (simp add: tcp_client_close_socket_def tcp_client_free_def)
qed

theorem tcp_failure_leaks_socket_witness:
  "\<exists>c'. tcp_client_receive_buffer_by_length 4096 True True True (Some (test_client [] [1, 0] [65])) 3 = Some (None, Some c')"
  using tcp_failure_leaks_socket [of 3 4096 "test_client [] [1, 0] [65]"] by (auto simp: SIZE_MAX_def test_client_def)

section \<open>Receiving up to a delimiter\<close>

lemma delim_loop:
  assumes "buffer_rep iob got" "length got = totalbytes" "length delim = n" "0 < n"
    "length got + length (sk_incoming (sock c)) \<le> SIZE_MAX div 2"
    "ps \<le> int SIZE_MAX" "0 < ps"
  shows "\<exists>b c'. tcp_delim_loop ps True True delim n iob totalbytes c = Some (b, c') \<and>
    (case b of
       None \<Rightarrow> \<not> connected c'
     | Some _ \<Rightarrow> \<exists>k xs. buffer_rep b xs \<and> xs @ delim = got @ take k (sk_incoming (sock c)) \<and>
         sk_incoming (sock c') = drop k (sk_incoming (sock c)) \<and> connected c' = connected c)"
  using assms
proof (induction "length (sk_recv_plan (sock c))" arbitrary: c iob got totalbytes rule: less_induct)
  case less
  obtain a bs c1 where s: "tcp_recv MAX_TCP_CLIENT_BUFFER_SIZE c = (a, bs, c1)" by (metis prod_cases3)
  note sc = tcp_recv_cases [OF s] and step = tcp_delim_loop.simps [of ps True True delim n iob totalbytes c]
  show ?case
  proof (cases "a \<le> 0")
    case True
    then show ?thesis using s by (subst step) (simp add: buffer_free_def)
  next
    case False
    let ?k = "nat a" and ?in = "sk_incoming (sock c)"
    have k: "0 < ?k" "?k \<le> length ?in" "bs = take ?k ?in" "sk_incoming (sock c1) = drop ?k ?in" "length bs = ?k"
      using sc(4) False by auto
    obtain iob' where ap: "buffer_append ps True True iob (Some bs) ?k = Some (iob', True)" "buffer_rep iob' (got @ bs)"
      using buffer_sink.append_bytes [OF less.prems(1), of ?k bs ps True] k less.prems(5) by auto
    obtain y where some: "iob = Some y" using less.prems(1) by (auto simp: buffer_rep_def)
    obtain q m where q: "iob' = Some q" "bf_data q = Some ((got @ bs) @ replicate m 0)" "bf_data_size q = length (got @ bs)"
      using ap(2) by (rule buffer_repE)
    have next_rec: "\<exists>b c'. tcp_delim_loop ps True True delim n iob' (totalbytes + ?k) c1 = Some (b, c') \<and>
      (case b of
         None \<Rightarrow> \<not> connected c'
       | Some _ \<Rightarrow> \<exists>j xs. buffer_rep b xs \<and> xs @ delim = (got @ bs) @ take j (drop ?k ?in) \<and>
           sk_incoming (sock c') = drop j (drop ?k ?in) \<and> connected c' = connected c)"
    proof -
      have pre: "0 < a" "length (got @ bs) = totalbytes + ?k"
        "length (got @ bs) + length (sk_incoming (sock c1)) \<le> SIZE_MAX div 2"
        using less.prems(2,5) False k by simp_all
      show ?thesis
        using less.hyps [OF tcp_recv_plan [OF s pre(1)] ap(2) pre(2) less.prems(3,4) pre(3) less.prems(6,7)]
        unfolding k(4) sc(1) .
    qed
    have lift: "\<exists>b c'. tcp_delim_loop ps True True delim n iob' (totalbytes + ?k) c1 = Some (b, c') \<and>
      (case b of
         None \<Rightarrow> \<not> connected c'
       | Some _ \<Rightarrow> \<exists>j xs. buffer_rep b xs \<and> xs @ delim = got @ take j ?in \<and>
           sk_incoming (sock c') = drop j ?in \<and> connected c' = connected c)"
    proof -
      obtain b c' where b: "tcp_delim_loop ps True True delim n iob' (totalbytes + ?k) c1 = Some (b, c')"
        "case b of None \<Rightarrow> \<not> connected c' | Some _ \<Rightarrow> \<exists>j xs. buffer_rep b xs \<and> xs @ delim = (got @ bs) @ take j (drop ?k ?in) \<and>
           sk_incoming (sock c') = drop j (drop ?k ?in) \<and> connected c' = connected c"
        using next_rec by blast
      show ?thesis
      proof (cases b)
        case None
        then show ?thesis using b by simp
      next
        case (Some b0)
        then obtain j xs where j: "buffer_rep b xs" "xs @ delim = (got @ bs) @ take j (drop ?k ?in)"
           "sk_incoming (sock c') = drop j (drop ?k ?in)" "connected c' = connected c" using b(2) by auto
        have "xs @ delim = got @ take (?k + j) ?in" "sk_incoming (sock c') = drop (?k + j) ?in"
          using j(2,3) k(3) by (simp_all only: take_add append_assoc drop_drop add.commute [of j])
        with b(1) j(1,4) Some show ?thesis by auto
      qed
    qed
    show ?thesis
    proof (cases "totalbytes + ?k \<ge> n")
      case enough: True
      let ?tail = "drop (totalbytes + ?k - n) ((got @ bs) @ replicate m 0)"
      have len: "length (got @ bs) = totalbytes + ?k" using less.prems(2) k(5) by simp
      have cmp: "mem_cmp ?tail delim n = Some (bytes_cmp (drop (totalbytes + ?k - n) (got @ bs)) delim)"
        using enough len less.prems(3) by simp
      have eq: "bytes_cmp (drop (totalbytes + ?k - n) (got @ bs)) delim = 0 \<longleftrightarrow> drop (totalbytes + ?k - n) (got @ bs) = delim"
        using enough len less.prems(3) by (intro bytes_cmp_eq_0) simp
      show ?thesis
      proof (cases "drop (totalbytes + ?k - n) (got @ bs) = delim")
        case True
        obtain b where b: "buffer_remove_end iob' n = Some b" "buffer_rep b (take (totalbytes + ?k - n) (got @ bs))"
          using buffer_remove_end_rep [OF ap(2), of n] enough len less.prems(4) by (auto simp del: take_append)
        have "take (totalbytes + ?k - n) (got @ bs) @ delim = got @ take ?k ?in"
          using True k(3) by (metis append_take_drop_id)
        moreover have "tcp_delim_loop ps True True delim n iob totalbytes c = Some (b, c1)"
          using s False ap(1) some enough q(1,2) cmp eq True b(1) by (subst step) (simp add: buffer_get_data_def)
        moreover obtain y where "b = Some y" using b(2) by (auto simp: buffer_rep_def)
        ultimately show ?thesis using b(2) k(4) sc(1)
          by (intro exI [of _ b] exI [of _ c1])
            (simp del: take_append, intro exI [of _ ?k] exI [of _ "take (totalbytes + ?k - n) (got @ bs)"], simp)
      next
        case no: False
        have "tcp_delim_loop ps True True delim n iob totalbytes c = tcp_delim_loop ps True True delim n iob' (totalbytes + ?k) c1"
          using s False ap(1) some enough q(1,2) cmp eq no by (subst step) (simp add: buffer_get_data_def)
        with lift show ?thesis by simp
      qed
    next
      case few: False
      have "tcp_delim_loop ps True True delim n iob totalbytes c = tcp_delim_loop ps True True delim n iob' (totalbytes + ?k) c1"
        using s False ap(1) some few by (subst step) simp
      with lift show ?thesis by simp
    qed
  qed
qed

text \<open>
  Receiving up to a delimiter.  With memory available, \<open>tcp_client_receive_buffer_by_delimeter\<close> returns for every
  segmentation: NULL with the client marked as not connected, or a buffer holding some bytes that the
  peer sent up to a delimiter, which is removed; what follows stays unread.
\<close>

theorem tcp_receive_by_delimiter:
  assumes "delim \<noteq> []" "length (sk_incoming (sock c)) \<le> SIZE_MAX div 2" "ps \<le> LONG_MAX" "0 < ps"
  shows "\<exists>b c'. tcp_client_receive_buffer_by_delimeter ps True True (Some c) delim (length delim) = Some (b, Some c') \<and>
    (case b of
       None \<Rightarrow> \<not> connected c'
     | Some _ \<Rightarrow> \<exists>k xs. buffer_rep b xs \<and> xs @ delim = take k (sk_incoming (sock c)) \<and>
         sk_incoming (sock c') = drop k (sk_incoming (sock c)) \<and> connected c' = connected c)"
proof -
  have ps: "ps \<le> int SIZE_MAX" using assms(3) by (simp add: SIZE_MAX_def LONG_MAX_def)
  obtain b c' where "tcp_delim_loop ps True True delim (length delim) (buffer_allocate_default ps True True) 0 c = Some (b, c')"
    "case b of None \<Rightarrow> \<not> connected c' | Some _ \<Rightarrow> \<exists>k xs. buffer_rep b xs \<and> xs @ delim = [] @ take k (sk_incoming (sock c)) \<and>
         sk_incoming (sock c') = drop k (sk_incoming (sock c)) \<and> connected c' = connected c"
    using delim_loop [OF buffer_allocate_default_rep [OF assms(3)], of 0 delim "length delim" c ps] assms ps by auto
  then show ?thesis
    unfolding tcp_client_receive_buffer_by_delimeter_def append_Nil by (cases b) auto
qed

theorem tcp_receive_by_delimiter_witness:
  "tcp_client_receive_buffer_by_delimeter 4096 True True (Some (test_client [] [2, 9] [65, 66, 13, 10])) [13, 10] (length [13::byte, 10]) \<noteq> None"
  using tcp_receive_by_delimiter [of "[13, 10]" "test_client [] [2, 9] [65, 66, 13, 10]" 4096]
  by (auto simp del: list.size simp: SIZE_MAX_def LONG_MAX_def) (auto simp: test_client_def)

section \<open>The string helpers\<close>

lemma split_search:
  assumes "n \<le> orig_len" "orig_len \<le> length orig" "length delim = n"
  shows "split_search orig orig_len delim n p =
    Some (if \<exists>q. p \<le> q \<and> q + n \<le> orig_len \<and> take n (drop q orig) = delim
          then Some (LEAST q. p \<le> q \<and> q + n \<le> orig_len \<and> take n (drop q orig) = delim) else None)"
  using assms
proof (induction orig orig_len delim n p rule: split_search.induct)
  case (1 orig orig_len delim n p)
  note step = split_search.simps [of orig orig_len delim n p]
  let ?P = "\<lambda>p q. p \<le> q \<and> q + n \<le> orig_len \<and> take n (drop q orig) = delim"
  show ?case
  proof (cases "p \<le> orig_len - n")
    case False
    then have "\<nexists>q. ?P p q" by auto
    then show ?thesis using False by (subst step) simp
  next
    case True
    then have c: "mem_cmp (drop p orig) delim n = Some (bytes_cmp (take n (drop p orig)) delim)"
      using "1.prems" by simp
    have e: "bytes_cmp (take n (drop p orig)) delim = 0 \<longleftrightarrow> take n (drop p orig) = delim"
      using "1.prems" True by (intro bytes_cmp_eq_0) simp
    show ?thesis
    proof (cases "take n (drop p orig) = delim")
      case hit: True
      have P: "?P p p" using hit True "1.prems"(1) by auto
      then have "(LEAST q. ?P p q) = p" by (intro Least_equality) auto
      then show ?thesis using True c e hit P by (subst step) auto
    next
      case miss: False
      have same: "(\<lambda>q. ?P p q) = (\<lambda>q. ?P (p + 1) q)"
      proof
        show "?P p q = ?P (p + 1) q" for q using miss by (cases "q = p") auto
      qed
      have "split_search orig orig_len delim n p = split_search orig orig_len delim n (p + 1)"
        using True c e miss by (subst step) simp
      also have "\<dots> = Some (if \<exists>q. ?P (p + 1) q then Some (LEAST q. ?P (p + 1) q) else None)"
        using "1.IH" [OF True c _ "1.prems"] miss e by simp
      finally show ?thesis unfolding same .
    qed
  qed
qed

text \<open>
  Splitting at a delimiter.  With memory available, \<open>tcp_client_internal_split_buffer\<close> cuts the buffer at the first
  occurrence of the delimiter: the left part contains it nowhere and left, delimiter and right make
  up the buffer again; without an occurrence (or with an empty delimiter) everything is left.  Both parts are
  zero terminated.
\<close>

theorem split_buffer_correct:
  fixes orig delim rest1 :: "byte list"
  shows "\<exists>l r. tcp_client_internal_split_buffer True True (orig @ rest1) (length orig) delim (length delim) =
      Some ((Some (l @ [0]), length l), r) \<and>
    (case r of
       (Some rb, rn) \<Rightarrow> \<exists>rp. rb = rp @ [0] \<and> rn = length rp \<and> orig = l @ delim @ rp \<and>
          (\<forall>q < length l. take (length delim) (drop q orig) \<noteq> delim)
     | (None, rn) \<Rightarrow> l = orig \<and> rn = 0 \<and>
          (delim = [] \<or> orig = [] \<or> (\<forall>q. q + length delim \<le> length orig \<longrightarrow> take (length delim) (drop q orig) \<noteq> delim)))"
proof -
  have part: "copy_part True (orig @ rest1) off n = Some (Some (take n (drop off orig) @ [0]), n)"
    if "off + n \<le> length orig" for off n
    using that by (simp add: copy_part_def mem_copy_Some del: replicate_Suc) simp
  show ?thesis
  proof (cases "delim = [] \<or> orig = [] \<or> length delim > length orig")
    case True
    then show ?thesis using part [of 0 "length orig"]
      by (intro exI [of _ orig] exI [of _ "(None, 0)"]) (auto simp: tcp_client_internal_split_buffer_def)
  next
    case False
    let ?P = "\<lambda>q. q + length delim \<le> length orig \<and> take (length delim) (drop q orig) = delim"
    have win: "take (length delim) (drop q (orig @ rest1)) = take (length delim) (drop q orig)"
      if "q + length delim \<le> length orig" for q using that by simp
    then have P: "(0 \<le> q \<and> q + length delim \<le> length orig \<and> take (length delim) (drop q (orig @ rest1)) = delim) = ?P q" for q
      by auto
    have s: "split_search (orig @ rest1) (length orig) delim (length delim) 0 =
        Some (if \<exists>q. ?P q then Some (LEAST q. ?P q) else None)"
      using False split_search [of "length delim" "length orig" "orig @ rest1" delim 0] unfolding P by simp
    show ?thesis
    proof (cases "\<exists>q. ?P q")
      case no: False
      then show ?thesis using part [of 0 "length orig"] s False
        by (intro exI [of _ orig] exI [of _ "(None, 0)"]) (auto simp: tcp_client_internal_split_buffer_def)
    next
      case yes: True
      define k where "k = (LEAST q. ?P q)"
      have k: "?P k" unfolding k_def by (rule LeastI_ex [OF yes])
      have first: "\<not> ?P q" if "q < k" for q using that unfolding k_def by (rule not_less_Least)
      let ?rp = "drop (k + length delim) orig"
      have whole: "orig = take k orig @ delim @ ?rp"
        using k by (metis append_take_drop_id drop_drop add.commute)
      have "length (take k orig) = k" "take (length orig - (k + length delim)) ?rp = ?rp" using k by auto
      then show ?thesis
        using part [of 0 k] part [of "k + length delim" "length orig - (k + length delim)"] s False yes k first whole
        by (intro exI [of _ "take k orig"] exI [of _ "(Some (?rp @ [0]), length ?rp)"])
          (auto simp: tcp_client_internal_split_buffer_def k_def [symmetric])
    qed
  qed
qed

theorem split_buffer_correct_witness:
  "\<exists>l r. tcp_client_internal_split_buffer True True ([65, 58, 66] @ [0]) (length [65, 58, 66 :: byte]) [58] (length [58 :: byte]) =
     Some ((Some (l @ [0]), length l), r)"
  using split_buffer_correct [of "[65, 58, 66]" "[0]" "[58]"] by blast

text \<open>
  Digits overrun the nibble.  \<open>tcp_client_internal_is_ip4_address\<close> has no defined result for any string of 7 to
  15 characters that begins with five digits: the fifth is written behind the array \<open>nibble[4]\<close>.
\<close>

theorem ip4_overruns_nibble:
  assumes "list_all digit_char ds" "length ds = 5" "0 \<notin> set str" "2 \<le> length str" "length str \<le> 10"
  shows "tcp_client_internal_is_ip4_address (ds @ str @ [0]) = None"
proof -
  obtain a b c d e where ds: "ds = [a, b, c, d, e]"
    using assms(2) by (auto simp: numeral_eq_Suc length_Suc_conv)
  have nz: "digit_char x \<Longrightarrow> x \<noteq> 0 \<and> x \<noteq> 46" for x
    by (auto simp: digit_char_def)
  have dig: "digit_char a" "digit_char b" "digit_char c" "digit_char d" "digit_char e"
    using assms(1) ds by auto
  have "0 \<notin> set (ds @ str)" using assms(3) dig nz ds by auto
  then have "c_string ((ds @ str) @ 0 # []) = Some (ds @ str)" by (rule c_string_exact)
  then have cs: "c_string (ds @ str @ [0]) = Some (ds @ str)" by simp
  have len: "\<not> (length (ds @ str) < 7 \<or> length (ds @ str) > 15)" using assms(2,4,5) by simp
  have "ip4_loop (ds @ str) (replicate 4 0) 0 False = None"
    using dig nz by (simp add: ds mem_write_def numeral_eq_Suc)
  with cs len show ?thesis by (simp add: tcp_client_internal_is_ip4_address_def)
qed

theorem ip4_overruns_nibble_witness:
  "tcp_client_internal_is_ip4_address [49, 50, 51, 52, 53, 46, 49, 0] = None"
  using ip4_overruns_nibble [of "[49, 50, 51, 52, 53]" "[46, 49]"] by (simp add: digit_char_def)

end
