(* ===== verification/Uart.thy ===== *)
theory Uart
  imports CPrelude
begin

text \<open>
  The UART driver (\<open>io/src/uart.c\<close>): the table of 64 devices, their settings, and what reaches the
  operating system.  The system keeps, for every open descriptor, a serial port: its terminal
  settings, the bytes written to it and the bytes that wait to be read.  What \<open>open\<close>, \<open>tcgetattr\<close>,
  \<open>tcsetattr\<close>, \<open>select\<close>, \<open>read\<close>, \<open>write\<close>, \<open>tcflush\<close> and \<open>tcdrain\<close> answer are arguments.

  Two calls need not have a defined result whatever the caller does: \<open>uart_open\<close> chooses the path from a
  structure it never writes, and \<open>uart_read\<close> puts its descriptor into an \<open>fd_set\<close>, which has room for
  \<open>FD_SETSIZE\<close> descriptors.
\<close>

section \<open>Serial ports\<close>

text \<open>The terminal flags the driver touches; \<open>CSIZE\<close> is kept as the number of data bits.\<close>

datatype tio_flag = PARENB | PARODD | CSTOPB | CRTSCTS
  | ICANON | ECHO | ECHOE | ISIG | IXON | IXOFF | IXANY | ICRNL | OPOST

record termios =
  tio_speed :: nat
  tio_size :: nat
  tio_flags :: "tio_flag set"
  tio_vmin :: byte
  tio_vtime :: byte

record serial_port =
  sp_tio :: termios
  sp_written :: "byte list"
  sp_pending :: "byte list"

section \<open>The driver's state\<close>

type_synonym hal_device_id_t = "16 word"

datatype uart_parity_t = HAL_PARITY_NONE | HAL_PARITY_ODD | HAL_PARITY_EVEN

datatype uart_flow_control_t = HAL_FLOW_CONTROL_NONE | HAL_FLOW_CONTROL_RTS_CTS | HAL_FLOW_CONTROL_XON_XOFF

record uart_internal_t =
  u_device_id :: hal_device_id_t
  u_fd :: int
  u_baudrate :: "32 word"
  u_parity :: uart_parity_t
  u_stopbits :: byte
  u_data_bits :: byte
  u_flow_control :: uart_flow_control_t
  u_timeout_ms :: "32 word"
  u_is_open :: bool

record uart_os =
  uart_table :: "uart_internal_t list"
  os_files :: "int \<Rightarrow> serial_port option"

definition MAX_UART_DEVICES :: nat where "MAX_UART_DEVICES = 64"

definition uart_zero :: "hal_device_id_t \<Rightarrow> uart_internal_t" where
  "uart_zero i = \<lparr>u_device_id = i, u_fd = 0, u_baudrate = 0, u_parity = HAL_PARITY_NONE, u_stopbits = 0,
     u_data_bits = 0, u_flow_control = HAL_FLOW_CONTROL_NONE, u_timeout_ms = 0, u_is_open = False\<rparr>"

definition uart_init :: "uart_os \<Rightarrow> bool \<times> uart_os" where
  "uart_init s = (True, s\<lparr>uart_table := map (\<lambda>i. uart_zero (of_nat i)) [0..<MAX_UART_DEVICES]\<rparr>)"

text \<open>\<open>list\<close> and \<open>count\<close> are given as whether they are non-NULL; the count that is stored comes back.\<close>

definition uart_enumerate :: "bool \<Rightarrow> bool \<Rightarrow> bool \<times> nat option" where
  "uart_enumerate list count = (if \<not> list \<or> \<not> count then (False, None) else (True, Some 0))"

text \<open>An entry of the table, and storing one.\<close>

definition uart_entry :: "hal_device_id_t \<Rightarrow> uart_os \<Rightarrow> uart_internal_t" where
  "uart_entry i s = uart_table s ! unat i"

definition uart_put :: "hal_device_id_t \<Rightarrow> uart_internal_t \<Rightarrow> uart_os \<Rightarrow> uart_os" where
  "uart_put i u s = s\<lparr>uart_table := (uart_table s)[unat i := u]\<rparr>"

definition os_put :: "int \<Rightarrow> serial_port option \<Rightarrow> uart_os \<Rightarrow> uart_os" where
  "os_put fd p s = s\<lparr>os_files := (os_files s)(fd := p)\<rparr>"

section \<open>Opening and closing\<close>

definition uart_speed :: "32 word \<Rightarrow> nat" where
  "uart_speed b = (if b = 9600 then 9600 else if b = 19200 then 19200 else if b = 38400 then 38400
     else if b = 115200 then 115200 else 9600)"

definition uart_size :: "byte \<Rightarrow> nat" where
  "uart_size b = (if b = 5 then 5 else if b = 6 then 6 else if b = 7 then 7 else 8)"

definition uart_parity_flags :: "uart_parity_t \<Rightarrow> tio_flag set \<Rightarrow> tio_flag set" where
  "uart_parity_flags p fs =
     (case p of
        HAL_PARITY_ODD \<Rightarrow> fs \<union> {PARENB, PARODD}
      | HAL_PARITY_EVEN \<Rightarrow> insert PARENB fs - {PARODD}
      | HAL_PARITY_NONE \<Rightarrow> fs - {PARENB})"

definition uart_configure :: "uart_internal_t \<Rightarrow> termios \<Rightarrow> termios" where
  "uart_configure u tty =
     (let fs = uart_parity_flags (u_parity u) (tio_flags tty);
          fs = (if u_stopbits u = 2 then insert CSTOPB fs else fs - {CSTOPB});
          fs = (if u_flow_control u = HAL_FLOW_CONTROL_RTS_CTS then insert CRTSCTS fs else fs - {CRTSCTS});
          fs = fs - {ICANON, ECHO, ECHOE, ISIG} - {IXON, IXOFF, IXANY, ICRNL} - {OPOST}
      in tty\<lparr>tio_speed := uart_speed (u_baudrate u), tio_size := uart_size (u_data_bits u), tio_flags := fs,
             tio_vmin := 0, tio_vtime := ucast (u_timeout_ms u div 100)\<rparr>)"

text \<open>
  What a call of \<open>uart_open\<close> meets: the cells of the automatic variable \<open>dev_info.path\<close>, which nothing has
  written (\<open>None\<close> is a cell whose value is indeterminate, \<open>Some b\<close> one that happens to hold \<open>b\<close>), what
  \<open>open\<close> answers for a path (a descriptor and the port behind it), and whether \<open>tcgetattr\<close> and \<open>tcsetattr\<close>
  succeed.
\<close>

record uart_world =
  uw_path :: "byte option list"
  uw_open :: "byte list \<Rightarrow> int \<times> serial_port"
  uw_get :: bool
  uw_set :: bool

text \<open>The string in an array whose cells may be indeterminate; reading such a cell, or past the array, is undefined.\<close>

fun known_string :: "byte option list \<Rightarrow> byte list option" where
  "known_string [] = None"
| "known_string (c # cs) = do { b \<leftarrow> c; if b = 0 then Some [] else do { bs \<leftarrow> known_string cs; Some (b # bs) } }"

text \<open>\<open>dev_info.path[0] ? dev_info.path : "/dev/ttyS0"\<close>, as the string that \<open>open\<close> reads.\<close>

definition uart_path :: "byte option list \<Rightarrow> byte list option" where
  "uart_path path = do {
     c \<leftarrow> mem_read path 0;
     b \<leftarrow> c;
     if b \<noteq> 0 then known_string path else Some (bytes_of ''/dev/ttyS0'') }"

definition uart_open :: "uart_world \<Rightarrow> hal_device_id_t \<Rightarrow> uart_os \<Rightarrow> (bool \<times> uart_os) option" where
  "uart_open w i s =
     (if unat i \<ge> MAX_UART_DEVICES then Some (False, s)
      else let u = uart_entry i s in
        if u_is_open u then Some (True, s)
        else do {
          path \<leftarrow> uart_path (uw_path w);
          let fd = fst (uw_open w path);
          let port = snd (uw_open w path);
          let u1 = u\<lparr>u_fd := fd\<rparr>;
          let s1 = uart_put i u1 s;
          if fd < 0 then Some (False, s1)
          else let s2 = os_put fd (Some port) s1 in
            if \<not> uw_get w then Some (False, os_put fd None s2)
            else let tty = uart_configure u1 (sp_tio port) in
              if \<not> uw_set w then Some (False, os_put fd None s2)
              else Some (True, uart_put i (u1\<lparr>u_is_open := True\<rparr>) (os_put fd (Some (port\<lparr>sp_tio := tty\<rparr>)) s2)) })"

definition uart_close :: "hal_device_id_t \<Rightarrow> uart_os \<Rightarrow> bool \<times> uart_os" where
  "uart_close i s =
     (if unat i \<ge> MAX_UART_DEVICES then (False, s)
      else let u = uart_entry i s in
        if \<not> u_is_open u then (False, s)
        else (True, uart_put i (u\<lparr>u_fd := -1, u_is_open := False\<rparr>) (os_put (u_fd u) None s)))"

section \<open>Reading and writing\<close>

text \<open>
  \<open>ready\<close> is the answer of \<open>select\<close>, \<open>n\<close> that of \<open>read\<close>, which stores so many of the waiting bytes at the
  beginning of the buffer; \<open>None\<close> when it would store more than the buffer holds.  \<open>FD_SET\<close> comes before:
  it writes a bit outside the set when the descriptor is not below \<open>FD_SETSIZE\<close> (1024 on Linux).
\<close>

definition FD_SETSIZE :: int where "FD_SETSIZE = 1024"

definition uart_read ::
  "bool \<Rightarrow> int \<Rightarrow> hal_device_id_t \<Rightarrow> byte list option \<Rightarrow> nat \<Rightarrow> uart_os \<Rightarrow> (bool \<times> byte list option \<times> uart_os) option" where
  "uart_read ready n i buffer len s =
     (if unat i \<ge> MAX_UART_DEVICES \<or> buffer = None \<or> len = 0 then Some (False, buffer, s)
      else let u = uart_entry i s in
        if \<not> u_is_open u then Some (False, buffer, s)
        else if u_fd u < 0 \<or> u_fd u \<ge> FD_SETSIZE then None
        else if \<not> ready then Some (False, buffer, s)
        else case (os_files s (u_fd u), buffer) of
            (Some p, Some block) \<Rightarrow>
              if n \<le> 0 then Some (False, buffer, s)
              else do {
                let k = min (nat n) (min len (length (sp_pending p)));
                block' \<leftarrow> mem_copy block 0 (sp_pending p) 0 k;
                Some (k > 0, Some block', os_put (u_fd u) (Some (p\<lparr>sp_pending := drop k (sp_pending p)\<rparr>)) s) }
          | _ \<Rightarrow> Some (False, buffer, s))"

text \<open>\<open>n\<close> is the answer of \<open>write\<close>: so many bytes are accepted.\<close>

definition uart_write ::
  "int \<Rightarrow> hal_device_id_t \<Rightarrow> byte list option \<Rightarrow> nat \<Rightarrow> uart_os \<Rightarrow> (bool \<times> uart_os) option" where
  "uart_write n i data len s =
     (if unat i \<ge> MAX_UART_DEVICES \<or> data = None \<or> len = 0 then Some (False, s)
      else let u = uart_entry i s in
        if \<not> u_is_open u then Some (False, s)
        else case (os_files s (u_fd u), data) of
            (Some p, Some block) \<Rightarrow>
              if len > length block then None
              else if n \<le> 0 then Some (False, s)
              else let k = min (nat n) len
                   in Some (k = len, os_put (u_fd u) (Some (p\<lparr>sp_written := sp_written p @ take k block\<rparr>)) s)
          | _ \<Rightarrow> Some (False, s))"

text \<open>\<open>tcflush\<close> throws away what waits to be read; \<open>tcdrain\<close> changes nothing here.\<close>

definition uart_flush :: "bool \<Rightarrow> hal_device_id_t \<Rightarrow> uart_os \<Rightarrow> bool \<times> uart_os" where
  "uart_flush answer i s =
     (if unat i \<ge> MAX_UART_DEVICES then (False, s)
      else let u = uart_entry i s in
        if \<not> u_is_open u then (False, s)
        else case os_files s (u_fd u) of
            Some p \<Rightarrow> if answer then (True, os_put (u_fd u) (Some (p\<lparr>sp_pending := []\<rparr>)) s) else (False, s)
          | None \<Rightarrow> (False, s))"

definition uart_drain :: "bool \<Rightarrow> hal_device_id_t \<Rightarrow> uart_os \<Rightarrow> bool \<times> uart_os" where
  "uart_drain answer i s =
     (if unat i \<ge> MAX_UART_DEVICES then (False, s)
      else let u = uart_entry i s in
        if \<not> u_is_open u then (False, s) else (answer, s))"

section \<open>Settings\<close>

text \<open>All but one setter end with \<open>uart_open\<close> when the device is open; they meet what such a call meets.\<close>

definition uart_reapply :: "uart_world \<Rightarrow> hal_device_id_t \<Rightarrow> uart_os \<Rightarrow> (bool \<times> uart_os) option" where
  "uart_reapply w i s = (if u_is_open (uart_entry i s) then uart_open w i s else Some (True, s))"

definition uart_set_baudrate ::
  "uart_world \<Rightarrow> hal_device_id_t \<Rightarrow> 32 word \<Rightarrow> uart_os \<Rightarrow> (bool \<times> uart_os) option" where
  "uart_set_baudrate w i baudrate s =
     (if unat i \<ge> MAX_UART_DEVICES then Some (False, s)
      else uart_reapply w i (uart_put i ((uart_entry i s)\<lparr>u_baudrate := baudrate\<rparr>) s))"

definition uart_set_parity ::
  "uart_world \<Rightarrow> hal_device_id_t \<Rightarrow> bool \<Rightarrow> uart_parity_t \<Rightarrow> uart_os \<Rightarrow> (bool \<times> uart_os) option" where
  "uart_set_parity w i enable parity s =
     (if unat i \<ge> MAX_UART_DEVICES then Some (False, s)
      else uart_reapply w i
        (uart_put i ((uart_entry i s)\<lparr>u_parity := if enable then parity else HAL_PARITY_NONE\<rparr>) s))"

definition uart_set_stopbits ::
  "uart_world \<Rightarrow> hal_device_id_t \<Rightarrow> byte \<Rightarrow> uart_os \<Rightarrow> (bool \<times> uart_os) option" where
  "uart_set_stopbits w i stopbits s =
     (if unat i \<ge> MAX_UART_DEVICES then Some (False, s)
      else uart_reapply w i (uart_put i ((uart_entry i s)\<lparr>u_stopbits := stopbits\<rparr>) s))"

definition uart_set_flow_control ::
  "uart_world \<Rightarrow> hal_device_id_t \<Rightarrow> bool \<Rightarrow> uart_flow_control_t \<Rightarrow> uart_os \<Rightarrow> (bool \<times> uart_os) option" where
  "uart_set_flow_control w i enable flow_control s =
     (if unat i \<ge> MAX_UART_DEVICES then Some (False, s)
      else uart_reapply w i
        (uart_put i ((uart_entry i s)\<lparr>u_flow_control := if enable then flow_control else HAL_FLOW_CONTROL_NONE\<rparr>) s))"

definition uart_set_data_bits ::
  "uart_world \<Rightarrow> hal_device_id_t \<Rightarrow> byte \<Rightarrow> uart_os \<Rightarrow> (bool \<times> uart_os) option" where
  "uart_set_data_bits w i data_bits s =
     (if unat i \<ge> MAX_UART_DEVICES then Some (False, s)
      else uart_reapply w i (uart_put i ((uart_entry i s)\<lparr>u_data_bits := data_bits\<rparr>) s))"

definition uart_set_timeout :: "hal_device_id_t \<Rightarrow> 32 word \<Rightarrow> uart_os \<Rightarrow> bool \<times> uart_os" where
  "uart_set_timeout i timeout_ms s =
     (if unat i \<ge> MAX_UART_DEVICES then (False, s)
      else (True, uart_put i ((uart_entry i s)\<lparr>u_timeout_ms := timeout_ms\<rparr>) s))"

section \<open>Descriptors\<close>

datatype uart_op =
    Open hal_device_id_t
  | Close hal_device_id_t
  | Read bool int hal_device_id_t "byte list option" nat
  | Write int hal_device_id_t "byte list option" nat
  | Flush bool hal_device_id_t
  | Drain bool hal_device_id_t
  | SetBaudrate hal_device_id_t "32 word"
  | SetParity hal_device_id_t bool uart_parity_t
  | SetStopbits hal_device_id_t byte
  | SetFlowControl hal_device_id_t bool uart_flow_control_t
  | SetDataBits hal_device_id_t byte
  | SetTimeout hal_device_id_t "32 word"

text \<open>
  One call of the driver.  \<open>Close\<close>, \<open>Flush\<close>, \<open>Drain\<close> and \<open>SetTimeout\<close> do nothing that could be undefined: they index
  the table after the check of the device number, and hand its descriptor to the system.
\<close>

fun uart_step :: "uart_world \<Rightarrow> uart_op \<Rightarrow> uart_os \<Rightarrow> uart_os option" where
  "uart_step w (Open i) s = map_option snd (uart_open w i s)"
| "uart_step w (Close i) s = Some (snd (uart_close i s))"
| "uart_step w (Read ready n i buffer len) s = map_option (snd \<circ> snd) (uart_read ready n i buffer len s)"
| "uart_step w (Write n i data len) s = map_option snd (uart_write n i data len s)"
| "uart_step w (Flush answer i) s = Some (snd (uart_flush answer i s))"
| "uart_step w (Drain answer i) s = Some (snd (uart_drain answer i s))"
| "uart_step w (SetBaudrate i b) s = map_option snd (uart_set_baudrate w i b s)"
| "uart_step w (SetParity i e p) s = map_option snd (uart_set_parity w i e p s)"
| "uart_step w (SetStopbits i b) s = map_option snd (uart_set_stopbits w i b s)"
| "uart_step w (SetFlowControl i e f) s = map_option snd (uart_set_flow_control w i e f s)"
| "uart_step w (SetDataBits i b) s = map_option snd (uart_set_data_bits w i b s)"
| "uart_step w (SetTimeout i b) s = Some (snd (uart_set_timeout i b s))"

text \<open>
  The caller's buffers are as long as it says, and the system answers \<open>open\<close> with a descriptor that is not
  in use.
\<close>

fun uart_op_ok :: "uart_world \<Rightarrow> uart_op \<Rightarrow> uart_os \<Rightarrow> bool" where
  "uart_op_ok w (Open i) s = (case uart_path (uw_path w) of None \<Rightarrow> True | Some path \<Rightarrow> os_files s (fst (uw_open w path)) = None)"
| "uart_op_ok w (Read ready n i (Some block) len) s = (len \<le> length block)"
| "uart_op_ok w (Write n i (Some block) len) s = (len \<le> length block)"
| "uart_op_ok w _ s = True"

text \<open>
  The calls without a defined result: opening a closed device when the path holds no string of
  determinate bytes, and reading from an open device whose descriptor does not fit into an \<open>fd_set\<close>.
\<close>

fun uart_undefined :: "uart_world \<Rightarrow> uart_op \<Rightarrow> uart_os \<Rightarrow> bool" where
  "uart_undefined w (Open i) s =
     (unat i < MAX_UART_DEVICES \<and> \<not> u_is_open (uart_entry i s) \<and>
      (\<nexists>path rest. uw_path w = map Some path @ Some 0 # rest))"
| "uart_undefined w (Read ready n i (Some block) len) s =
     (unat i < MAX_UART_DEVICES \<and> 0 < len \<and> u_is_open (uart_entry i s) \<and> FD_SETSIZE \<le> u_fd (uart_entry i s))"
| "uart_undefined w _ s = False"

inductive uart_reach :: "uart_os \<Rightarrow> bool" where
  init: "os_files s = Map.empty \<Longrightarrow> uart_reach (snd (uart_init s))"
| step: "uart_reach s \<Longrightarrow> uart_op_ok w op s \<Longrightarrow> uart_step w op s = Some s' \<Longrightarrow> uart_reach s'"

text \<open>The open entries and the open descriptors correspond one to one.\<close>

definition uart_inv :: "uart_os \<Rightarrow> bool" where
  "uart_inv s =
     (length (uart_table s) = MAX_UART_DEVICES \<and>
      (\<forall>i < MAX_UART_DEVICES. u_device_id (uart_table s ! i) = of_nat i) \<and>
      (\<forall>i < MAX_UART_DEVICES. u_is_open (uart_table s ! i) \<longrightarrow> 0 \<le> u_fd (uart_table s ! i)) \<and>
      (\<forall>i < MAX_UART_DEVICES. \<forall>j < MAX_UART_DEVICES. u_is_open (uart_table s ! i) \<longrightarrow> u_is_open (uart_table s ! j) \<longrightarrow>
         u_fd (uart_table s ! i) = u_fd (uart_table s ! j) \<longrightarrow> i = j) \<and>
      dom (os_files s) = {u_fd (uart_table s ! i) | i. i < MAX_UART_DEVICES \<and> u_is_open (uart_table s ! i)})"

lemma uart_put_simps [simp]:
  "os_files (uart_put i u s) = os_files s" "uart_table (os_put fd p s) = uart_table s"
  "os_files (os_put fd p s) = (os_files s)(fd := p)" "uart_table (uart_put i u s) = (uart_table s)[unat i := u]"
  by (simp_all add: uart_put_def os_put_def)

text \<open>Changing the settings of an entry, and changing a port that is open.\<close>

lemma uart_inv_settings:
  assumes "uart_inv s" "u_device_id u = u_device_id (uart_entry i s)" "u_is_open u = u_is_open (uart_entry i s)"
    "u_is_open u \<longrightarrow> u_fd u = u_fd (uart_entry i s)" "unat i < MAX_UART_DEVICES"
  shows "uart_inv (uart_put i u s)"
proof -
  have "length (uart_table s) = MAX_UART_DEVICES" using assms(1) by (simp add: uart_inv_def)
  then have e: "j < MAX_UART_DEVICES \<Longrightarrow> (uart_table s)[unat i := u] ! j = (if j = unat i then u else uart_table s ! j)" for j
    by (simp add: nth_list_update)
  have same: "j < MAX_UART_DEVICES \<Longrightarrow> u_device_id ((uart_table s)[unat i := u] ! j) = u_device_id (uart_table s ! j) \<and>
      u_is_open ((uart_table s)[unat i := u] ! j) = u_is_open (uart_table s ! j) \<and>
      (u_is_open (uart_table s ! j) \<longrightarrow> u_fd ((uart_table s)[unat i := u] ! j) = u_fd (uart_table s ! j))" for j
    using e assms(2-4) by (auto simp: uart_entry_def)
  have "{u_fd ((uart_table s)[unat i := u] ! j) | j. j < MAX_UART_DEVICES \<and> u_is_open ((uart_table s)[unat i := u] ! j)} =
      {u_fd (uart_table s ! j) | j. j < MAX_UART_DEVICES \<and> u_is_open (uart_table s ! j)}"
    using same by (intro Collect_cong) (metis (no_types, lifting))
  then show ?thesis using assms(1) same unfolding uart_inv_def by simp
qed

lemma uart_inv_port:
  assumes "uart_inv s" "os_files s fd \<noteq> None"
  shows "uart_inv (os_put fd (Some p) s)"
  using assms by (auto simp: uart_inv_def dom_def)

lemma uart_inv_opened:
  assumes "uart_inv s" "unat i < MAX_UART_DEVICES" "\<not> u_is_open (uart_entry i s)"
    "u_device_id u = u_device_id (uart_entry i s)" "u_is_open u" "0 \<le> u_fd u" "os_files s (u_fd u) = None"
  shows "uart_inv (uart_put i u (os_put (u_fd u) (Some p) s))"
proof -
  have len: "length (uart_table s) = MAX_UART_DEVICES" using assms(1) by (simp add: uart_inv_def)
  then have e: "j < MAX_UART_DEVICES \<Longrightarrow> (uart_table s)[unat i := u] ! j = (if j = unat i then u else uart_table s ! j)" for j
    by (simp add: nth_list_update)
  have dom: "dom (os_files s) = {u_fd (uart_table s ! j) | j. j < MAX_UART_DEVICES \<and> u_is_open (uart_table s ! j)}"
    using assms(1) by (simp add: uart_inv_def)
  have new: "u_fd (uart_table s ! j) \<noteq> u_fd u" if "j < MAX_UART_DEVICES" "u_is_open (uart_table s ! j)" for j
    using that dom assms(7) by (metis (mono_tags, lifting) domIff mem_Collect_eq)
  have closed: "\<not> u_is_open (uart_table s ! unat i)" using assms(3) by (simp add: uart_entry_def)
  have "{u_fd ((uart_table s)[unat i := u] ! j) | j. j < MAX_UART_DEVICES \<and> u_is_open ((uart_table s)[unat i := u] ! j)} =
      insert (u_fd u) {u_fd (uart_table s ! j) | j. j < MAX_UART_DEVICES \<and> u_is_open (uart_table s ! j)}"
    using e assms(2,5) closed by (auto; metis)
  then show ?thesis using assms(1,2,4-6) len new new [THEN not_sym] closed dom unfolding uart_inv_def
    by (auto simp: uart_entry_def e)
qed

lemma uart_inv_closed:
  assumes "uart_inv s" "unat i < MAX_UART_DEVICES" "u_is_open (uart_entry i s)"
    "u_device_id u = u_device_id (uart_entry i s)" "\<not> u_is_open u"
  shows "uart_inv (uart_put i u (os_put (u_fd (uart_entry i s)) None s))"
proof -
  have len: "length (uart_table s) = MAX_UART_DEVICES" using assms(1) by (simp add: uart_inv_def)
  then have e: "j < MAX_UART_DEVICES \<Longrightarrow> (uart_table s)[unat i := u] ! j = (if j = unat i then u else uart_table s ! j)" for j
    by (simp add: nth_list_update)
  have dom: "dom (os_files s) = {u_fd (uart_table s ! j) | j. j < MAX_UART_DEVICES \<and> u_is_open (uart_table s ! j)}"
    using assms(1) by (simp add: uart_inv_def)
  have uniq: "u_fd (uart_table s ! j) \<noteq> u_fd (uart_entry i s)"
    if "j < MAX_UART_DEVICES" "u_is_open (uart_table s ! j)" "j \<noteq> unat i" for j
    using that assms(1-3) unfolding uart_inv_def uart_entry_def by blast
  have "{u_fd ((uart_table s)[unat i := u] ! j) | j. j < MAX_UART_DEVICES \<and> u_is_open ((uart_table s)[unat i := u] ! j)} =
      {u_fd (uart_table s ! j) | j. j < MAX_UART_DEVICES \<and> u_is_open (uart_table s ! j)} - {u_fd (uart_entry i s)}"
    using e assms(5) uniq by (auto simp: uart_entry_def; metis)
  then show ?thesis using assms(1,4,5) len dom unfolding uart_inv_def by (auto simp: uart_entry_def e)
qed

lemma uart_put_put [simp]: "uart_put i u (uart_put i v s) = uart_put i u s"
  by (simp add: uart_put_def)

lemma uart_put_os_put: "uart_put i u (os_put fd p s) = os_put fd p (uart_put i u s)"
  by (simp add: uart_put_def os_put_def)

lemma os_put_put [simp]: "os_put fd p (os_put fd q s) = os_put fd p s"
  by (simp add: os_put_def)

lemma os_put_same: "os_files s fd = p \<Longrightarrow> os_put fd p s = s"
  by (simp add: os_put_def fun_upd_idem)

lemma uart_entry_put [simp]:
  "unat i < length (uart_table s) \<Longrightarrow> uart_entry i (uart_put i u s) = u"
  "uart_entry i (os_put fd p s) = uart_entry i s"
  by (simp_all add: uart_entry_def)

lemma uart_inv_length: "uart_inv s \<Longrightarrow> length (uart_table s) = MAX_UART_DEVICES"
  by (simp add: uart_inv_def)

lemma uart_inv_file:
  "uart_inv s \<Longrightarrow> unat i < MAX_UART_DEVICES \<Longrightarrow> u_is_open (uart_entry i s) \<Longrightarrow> \<exists>p. os_files s (u_fd (uart_entry i s)) = Some p"
  unfolding uart_inv_def uart_entry_def by (metis (mono_tags, lifting) domD mem_Collect_eq)

text \<open>The path is defined when the array holds a string.\<close>

lemma known_string_iff: "known_string cs = Some bs \<longleftrightarrow> 0 \<notin> set bs \<and> (\<exists>rest. cs = map Some bs @ Some 0 # rest)"
proof (induction cs arbitrary: bs)
  case (Cons c cs)
  show ?case using Cons.IH by (cases c; cases bs) (auto simp: bind_eq_Some_conv)
qed simp

lemma uart_path_iff: "uart_path path = None \<longleftrightarrow> (\<nexists>bs rest. path = map Some bs @ Some 0 # rest)"
proof (cases "\<exists>bs rest. path = map Some bs @ Some 0 # rest")
  case True
  then obtain bs rest where p: "path = map Some bs @ Some 0 # rest" by blast
  define ts where "ts = takeWhile (\<lambda>b. b \<noteq> 0) (bs @ [0])"
  obtain more where "bs @ [0] = ts @ 0 # more" "0 \<notin> set ts"
    using c_stringE [of "bs @ [0]" ts] by (auto simp: c_string_def ts_def)
  moreover have "path = map Some (bs @ [0]) @ rest" using p by simp
  ultimately have "known_string path = Some ts" by (simp add: known_string_iff)
  then have "uart_path path \<noteq> None" using p by (cases bs) (auto simp: uart_path_def)
  with True show ?thesis by simp
next
  case False
  have "uart_path path = None"
  proof (cases path)
    case (Cons c cs)
    have "c \<noteq> Some 0" using False Cons by (metis append_Nil list.simps(8))
    moreover have "known_string path = None" using False known_string_iff [of path] by (metis option.exhaust)
    ultimately show ?thesis using Cons by (cases c) (auto simp: uart_path_def)
  qed (simp add: uart_path_def mem_read_def)
  with False show ?thesis by simp
qed

text \<open>\<open>uart_open\<close> leaves an open device alone, and never keeps a descriptor it cannot use.\<close>

lemma uart_open_inv:
  assumes "uart_inv s" "uart_op_ok w (Open i) s" "uart_open w i s = Some (r, s')"
  shows "uart_inv s'"
proof (cases "unat i < MAX_UART_DEVICES \<and> \<not> u_is_open (uart_entry i s)")
  case False
  then show ?thesis using assms(1,3)
    by (cases "MAX_UART_DEVICES \<le> unat i"; cases "u_is_open (uart_entry i s)") (simp_all add: uart_open_def Let_def)
next
  case True
  then obtain path where path: "uart_path (uw_path w) = Some path"
    using assms(3) by (auto simp: uart_open_def Let_def dest!: bind_eq_SomeD)
  obtain fd port where a: "uw_open w path = (fd, port)" by (cases "uw_open w path")
  have free: "os_files s fd = None" using assms(2) path a by simp
  define u1 where "u1 = (uart_entry i s)\<lparr>u_fd := fd\<rparr>"
  have "uart_inv (uart_put i u1 s)"
    using assms(1) True by (intro uart_inv_settings) (simp_all add: u1_def)
  moreover have "uart_inv (uart_put i (u1\<lparr>u_is_open := True\<rparr>) (os_put fd (Some p) s))" if "0 \<le> fd" for p
    using uart_inv_opened [of s i "u1\<lparr>u_is_open := True\<rparr>" p] assms(1) free True that by (simp add: u1_def)
  ultimately show ?thesis
    using True assms(3) path a free
    by (auto simp: uart_open_def Let_def u1_def uart_put_os_put os_put_same not_less split: if_splits)
qed

lemma uart_open_defined:
  "uart_open w i s = None \<longleftrightarrow> uart_undefined w (Open i) s"
proof (cases "unat i < MAX_UART_DEVICES \<and> \<not> u_is_open (uart_entry i s)")
  case False
  then show ?thesis by (cases "MAX_UART_DEVICES \<le> unat i") (simp_all add: uart_open_def)
next
  case True
  have "uart_open w i s = None \<longleftrightarrow> uart_path (uw_path w) = None"
    using True by (cases "uart_path (uw_path w)") (simp_all add: uart_open_def Let_def del: not_None_eq)
  with True show ?thesis by (simp add: uart_path_iff)
qed

lemma uart_reapply_settings:
  assumes "uart_inv s" "unat i < MAX_UART_DEVICES" "u_device_id u = u_device_id (uart_entry i s)"
    "u_is_open u = u_is_open (uart_entry i s)" "u_fd u = u_fd (uart_entry i s)"
  shows "uart_reapply w i (uart_put i u s) = Some (True, uart_put i u s)" "uart_inv (uart_put i u s)"
  using uart_inv_settings [of s u i] uart_inv_length [OF assms(1)] assms
  by (auto simp: uart_reapply_def uart_open_def Let_def)

lemma uart_step_inv:
  assumes "uart_inv s" "uart_op_ok w op s" "uart_step w op s = Some s'"
  shows "uart_inv s'"
proof (cases op)
  case (Open i)
  then show ?thesis using assms uart_open_inv [of s w i] by auto
next
  case (Close i)
  then show ?thesis
    using assms uart_inv_closed [of s i] by (auto simp: uart_close_def Let_def split: if_splits)
next
  case (Read ready n i buffer len)
  then show ?thesis
    using assms uart_inv_port [OF assms(1)]
    by (auto simp: uart_read_def Let_def bind_eq_Some_conv split: if_splits option.splits)
next
  case (Write n i data len)
  then show ?thesis
    using assms uart_inv_port [OF assms(1)] by (auto simp: uart_write_def Let_def split: if_splits option.splits)
next
  case (Flush answer i)
  then show ?thesis
    using assms uart_inv_port [OF assms(1)] by (auto simp: uart_flush_def Let_def split: if_splits option.splits)
next
  case (Drain answer i)
  then show ?thesis using assms by (auto simp: uart_drain_def Let_def split: if_splits)
next
  case (SetTimeout i b)
  then show ?thesis
    using assms uart_inv_settings [of s "(uart_entry i s)\<lparr>u_timeout_ms := b\<rparr>"]
    by (auto simp: uart_set_timeout_def split: if_splits)
qed (use assms in \<open>auto simp: uart_reapply_settings uart_set_baudrate_def uart_set_parity_def uart_set_stopbits_def
    uart_set_flow_control_def uart_set_data_bits_def split: if_splits\<close>)

lemma uart_init_inv: "os_files s = Map.empty \<Longrightarrow> uart_inv (snd (uart_init s))"
  by (simp add: uart_init_def uart_inv_def uart_zero_def)

lemma uart_inv_fd:
  "uart_inv s \<Longrightarrow> unat i < MAX_UART_DEVICES \<Longrightarrow> u_is_open (uart_entry i s) \<Longrightarrow> 0 \<le> u_fd (uart_entry i s)"
  by (simp add: uart_inv_def uart_entry_def)

text \<open>Reading and writing, over the invariant.\<close>

lemma uart_read_defined:
  assumes "uart_inv s" "uart_op_ok w (Read ready n i buffer len) s"
  shows "uart_read ready n i buffer len s = None \<longleftrightarrow> uart_undefined w (Read ready n i buffer len) s"
proof (cases "unat i < MAX_UART_DEVICES \<and> buffer \<noteq> None \<and> 0 < len \<and> u_is_open (uart_entry i s)")
  case False
  then show ?thesis by (cases buffer) (auto simp: uart_read_def Let_def)
next
  case True
  then obtain block where b: "buffer = Some block" by auto
  obtain p where p: "os_files s (u_fd (uart_entry i s)) = Some p" using uart_inv_file assms(1) True by blast
  have "0 \<le> u_fd (uart_entry i s)" using uart_inv_fd assms(1) True by blast
  with True b p assms(2) show ?thesis by (auto simp: uart_read_def Let_def mem_copy_def)
qed

lemma uart_step_defined:
  assumes "uart_inv s" "uart_op_ok w op s"
  shows "uart_step w op s = None \<longleftrightarrow> uart_undefined w op s"
proof (cases op)
  case (Open i)
  then show ?thesis using uart_open_defined [of w i s] by simp
next
  case (Read ready n i buffer len)
  then show ?thesis using uart_read_defined [of s w ready n i buffer len] assms by simp
next
  case (Write n i data len)
  then show ?thesis using assms(2)
    by (cases data) (auto simp: uart_write_def Let_def split: option.splits)
qed (use assms(1) in \<open>auto simp: uart_reapply_settings uart_set_baudrate_def uart_set_parity_def uart_set_stopbits_def
    uart_set_flow_control_def uart_set_data_bits_def\<close>)

text \<open>
  C9: descriptors.  In every state the driver can reach from \<open>uart_init\<close>, whatever the system answers, the open
  descriptors are exactly those of the open entries and no two entries share one, and every call with
  buffers as long as announced that has a defined result keeps this so.  The calls without one are exactly two: \<open>uart_read\<close> from an
  open device whose descriptor is \<open>FD_SETSIZE\<close> or more, and \<open>uart_open\<close> of a closed device when the
  structure it reads the path from, which nothing fills in, holds no terminated string of determinate
  bytes; with the indeterminate structure that C leaves there, no device can be opened.
\<close>

theorem uart_reachable:
  assumes "uart_reach s"
  shows "uart_inv s \<and>
    (\<forall>op w. uart_op_ok w op s \<longrightarrow>
      (\<forall>s'. uart_step w op s = Some s' \<longrightarrow> uart_inv s') \<and> (uart_step w op s = None \<longleftrightarrow> uart_undefined w op s)) \<and>
    (\<forall>w i. uw_path w = replicate 256 None \<longrightarrow> unat i < MAX_UART_DEVICES \<longrightarrow> \<not> u_is_open (uart_entry i s) \<longrightarrow> uart_open w i s = None)"
proof -
  have inv: "uart_inv s" using assms by induction (simp_all add: uart_init_inv uart_step_inv)
  have "\<nexists>bs rest. replicate 256 None = map Some bs @ Some 0 # (rest :: byte option list)"
  proof
    assume "\<exists>bs rest. replicate 256 None = map Some bs @ Some 0 # (rest :: byte option list)"
    then have "Some 0 \<in> set (replicate 256 (None :: byte option))" by (metis in_set_conv_decomp)
    then show False by simp
  qed
  then have "uart_open w i s = None"
    if "uw_path w = replicate 256 None" "unat i < MAX_UART_DEVICES" "\<not> u_is_open (uart_entry i s)" for w i
    using that uart_open_defined [of w i s] by simp
  then show ?thesis using inv uart_step_inv uart_step_defined by blast
qed

theorem uart_reachable_witness:
  "uart_inv (snd (uart_init \<lparr>uart_table = [], os_files = Map.empty\<rparr>))"
  using uart_reachable [OF uart_reach.init [of "\<lparr>uart_table = [], os_files = Map.empty\<rparr>"]] by simp

section \<open>Settings and the port\<close>

text \<open>The six settings, given one after the other.\<close>

definition uart_settings ::
  "uart_world \<Rightarrow> hal_device_id_t \<Rightarrow> 32 word \<Rightarrow> bool \<Rightarrow> uart_parity_t \<Rightarrow> byte \<Rightarrow> byte \<Rightarrow>
   bool \<Rightarrow> uart_flow_control_t \<Rightarrow> 32 word \<Rightarrow> uart_os \<Rightarrow> (bool list \<times> uart_os) option" where
  "uart_settings w i baud en par stop data fen flow timeout s = do {
     (r1, s1) \<leftarrow> uart_set_baudrate w i baud s;
     (r2, s2) \<leftarrow> uart_set_parity w i en par s1;
     (r3, s3) \<leftarrow> uart_set_stopbits w i stop s2;
     (r4, s4) \<leftarrow> uart_set_data_bits w i data s3;
     (r5, s5) \<leftarrow> uart_set_flow_control w i fen flow s4;
     let r6 = uart_set_timeout i timeout s5;
     Some ([r1, r2, r3, r4, r5, fst r6], snd r6) }"

lemma uart_settings_run:
  assumes "uart_inv s" "unat i < MAX_UART_DEVICES"
  shows "uart_settings w i baud en par stop data fen flow timeout s =
     Some (replicate 6 True,
      uart_put i ((uart_entry i s)\<lparr>u_baudrate := baud, u_parity := if en then par else HAL_PARITY_NONE,
        u_stopbits := stop, u_data_bits := data,
        u_flow_control := if fen then flow else HAL_FLOW_CONTROL_NONE, u_timeout_ms := timeout\<rparr>) s)"
  using assms uart_inv_length [OF assms(1)]
  by (simp add: uart_settings_def Let_def uart_reapply_settings uart_set_baudrate_def uart_set_parity_def
    uart_set_stopbits_def uart_set_data_bits_def uart_set_flow_control_def uart_set_timeout_def numeral_eq_Suc)

lemma uart_configured:
  fixes u :: uart_internal_t and tty :: termios
  defines "c \<equiv> uart_configure u tty"
  shows "tio_speed c = (if u_baudrate u \<in> {9600, 19200, 38400, 115200} then unat (u_baudrate u) else 9600)"
    "tio_size c = (if u_data_bits u \<in> {5, 6, 7} then unat (u_data_bits u) else 8)"
    "PARENB \<in> tio_flags c \<longleftrightarrow> u_parity u \<noteq> HAL_PARITY_NONE"
    "u_parity u \<noteq> HAL_PARITY_NONE \<Longrightarrow> PARODD \<in> tio_flags c \<longleftrightarrow> u_parity u = HAL_PARITY_ODD"
    "CSTOPB \<in> tio_flags c \<longleftrightarrow> u_stopbits u = 2"
    "CRTSCTS \<in> tio_flags c \<longleftrightarrow> u_flow_control u = HAL_FLOW_CONTROL_RTS_CTS"
    "tio_flags c \<subseteq> {PARENB, PARODD, CSTOPB, CRTSCTS}"
    "tio_vmin c = 0" "unat (tio_vtime c) = unat (u_timeout_ms u) div 100 mod 256"
proof -
  have "unat (u_timeout_ms u div 100) = unat (u_timeout_ms u) div 100" by (simp add: unat_div)
  then show "unat (tio_vtime c) = unat (u_timeout_ms u) div 100 mod 256"
    by (simp add: c_def uart_configure_def Let_def unsigned_ucast_eq take_bit_eq_mod)
qed (auto simp: c_def uart_configure_def uart_speed_def uart_size_def uart_parity_flags_def Let_def
    split: uart_parity_t.splits if_splits intro: tio_flag.exhaust)

text \<open>
  Settings.  The six setters answer true and touch no port.  On a closed device they decide what
  the next successful \<open>uart_open\<close> gives the port: speed, data bits, parity, stop bits, flow control and a raw
  line, and a read timeout of the requested tenths of a second, modulo 256.  On an open device nothing reaches the port: \<open>uart_open\<close>,
  which is meant to apply them again, finds the device open and returns.
\<close>

theorem uart_settings_reach_port:
  assumes "uart_inv s" "unat i < MAX_UART_DEVICES" "uart_path (uw_path v) = Some path" "uw_open v path = (fd, port)"
    "uw_get v" "uw_set v"
  shows "\<exists>s'. uart_settings w i baud en par stop data fen flow timeout s = Some (replicate 6 True, s') \<and>
    os_files s' = os_files s \<and>
    (u_is_open (uart_entry i s) \<longrightarrow> uart_open v i s' = Some (True, s')) \<and>
    (\<not> u_is_open (uart_entry i s) \<and> 0 \<le> fd \<longrightarrow>
      (\<exists>s'' c. uart_open v i s' = Some (True, s'') \<and> os_files s'' fd = Some (port\<lparr>sp_tio := c\<rparr>) \<and>
         tio_speed c = (if baud \<in> {9600, 19200, 38400, 115200} then unat baud else 9600) \<and>
         tio_size c = (if data \<in> {5, 6, 7} then unat data else 8) \<and>
         (PARENB \<in> tio_flags c \<longleftrightarrow> en \<and> par \<noteq> HAL_PARITY_NONE) \<and>
         (en \<and> par \<noteq> HAL_PARITY_NONE \<longrightarrow> (PARODD \<in> tio_flags c \<longleftrightarrow> par = HAL_PARITY_ODD)) \<and>
         (CSTOPB \<in> tio_flags c \<longleftrightarrow> stop = 2) \<and>
         (CRTSCTS \<in> tio_flags c \<longleftrightarrow> fen \<and> flow = HAL_FLOW_CONTROL_RTS_CTS) \<and>
         tio_flags c \<subseteq> {PARENB, PARODD, CSTOPB, CRTSCTS} \<and>
         unat (tio_vtime c) = unat timeout div 100 mod 256))"
proof -
  define u where "u = (uart_entry i s)\<lparr>u_baudrate := baud, u_parity := if en then par else HAL_PARITY_NONE,
        u_stopbits := stop, u_data_bits := data,
        u_flow_control := if fen then flow else HAL_FLOW_CONTROL_NONE, u_timeout_ms := timeout\<rparr>"
  have entry: "uart_entry i (uart_put i u s) = u" using assms uart_inv_length by simp
  have run: "uart_settings w i baud en par stop data fen flow timeout s = Some (replicate 6 True, uart_put i u s)"
    unfolding u_def by (rule uart_settings_run [OF assms(1,2)])
  have op: "u_is_open u = u_is_open (uart_entry i s)" by (simp add: u_def)
  let ?c = "uart_configure (u\<lparr>u_fd := fd\<rparr>) (sp_tio port)"
  have opened: "\<exists>s''. uart_open v i (uart_put i u s) = Some (True, s'') \<and> os_files s'' fd = Some (port\<lparr>sp_tio := ?c\<rparr>)"
    if "\<not> u_is_open (uart_entry i s)" "0 \<le> fd"
    using that assms(2-6) op entry by (simp add: uart_open_def Let_def)
  have again: "uart_open v i (uart_put i u s) = Some (True, uart_put i u s)" if "u_is_open (uart_entry i s)"
    using that assms(2) op entry by (simp add: uart_open_def)
  note conf = uart_configured [of "u\<lparr>u_fd := fd\<rparr>" "sp_tio port"]
  have c: "tio_speed ?c = (if baud \<in> {9600, 19200, 38400, 115200} then unat baud else 9600)"
    "tio_size ?c = (if data \<in> {5, 6, 7} then unat data else 8)"
    "PARENB \<in> tio_flags ?c \<longleftrightarrow> en \<and> par \<noteq> HAL_PARITY_NONE"
    "en \<and> par \<noteq> HAL_PARITY_NONE \<Longrightarrow> PARODD \<in> tio_flags ?c \<longleftrightarrow> par = HAL_PARITY_ODD"
    "CSTOPB \<in> tio_flags ?c \<longleftrightarrow> stop = 2"
    "CRTSCTS \<in> tio_flags ?c \<longleftrightarrow> fen \<and> flow = HAL_FLOW_CONTROL_RTS_CTS"
    "tio_flags ?c \<subseteq> {PARENB, PARODD, CSTOPB, CRTSCTS}"
    "unat (tio_vtime ?c) = unat timeout div 100 mod 256"
    using conf by (simp_all add: u_def)
  show ?thesis
  proof (rule exI [of _ "uart_put i u s"], intro conjI impI)
    assume "\<not> u_is_open (uart_entry i s) \<and> 0 \<le> fd"
    then obtain s'' where "uart_open v i (uart_put i u s) = Some (True, s'')"
      "os_files s'' fd = Some (port\<lparr>sp_tio := ?c\<rparr>)" using opened by blast
    with c show "\<exists>s'' c. uart_open v i (uart_put i u s) = Some (True, s'') \<and>
         os_files s'' fd = Some (port\<lparr>sp_tio := c\<rparr>) \<and>
         tio_speed c = (if baud \<in> {9600, 19200, 38400, 115200} then unat baud else 9600) \<and>
         tio_size c = (if data \<in> {5, 6, 7} then unat data else 8) \<and>
         (PARENB \<in> tio_flags c \<longleftrightarrow> en \<and> par \<noteq> HAL_PARITY_NONE) \<and>
         (en \<and> par \<noteq> HAL_PARITY_NONE \<longrightarrow> (PARODD \<in> tio_flags c \<longleftrightarrow> par = HAL_PARITY_ODD)) \<and>
         (CSTOPB \<in> tio_flags c \<longleftrightarrow> stop = 2) \<and>
         (CRTSCTS \<in> tio_flags c \<longleftrightarrow> fen \<and> flow = HAL_FLOW_CONTROL_RTS_CTS) \<and>
         tio_flags c \<subseteq> {PARENB, PARODD, CSTOPB, CRTSCTS} \<and>
         unat (tio_vtime c) = unat timeout div 100 mod 256"
      by (intro exI [of _ s''] exI [of _ ?c] conjI) (assumption | blast)+
  qed (use run again in simp_all)
qed

definition test_port :: serial_port where
  "test_port = \<lparr>sp_tio = \<lparr>tio_speed = 9600, tio_size = 8, tio_flags = {ECHO}, tio_vmin = 1, tio_vtime = 0\<rparr>,
     sp_written = [], sp_pending = []\<rparr>"

definition test_world :: uart_world where
  "test_world = \<lparr>uw_path = [Some 0], uw_open = (\<lambda>_. (3, test_port)), uw_get = True, uw_set = True\<rparr>"

theorem uart_settings_reach_port_witness:
  "\<exists>s'. uart_settings test_world 0 115200 True HAL_PARITY_EVEN 1 8 False HAL_FLOW_CONTROL_NONE 25600
     (snd (uart_init \<lparr>uart_table = [], os_files = Map.empty\<rparr>)) = Some (replicate 6 True, s')"
proof -
  have inv: "uart_inv (snd (uart_init \<lparr>uart_table = [], os_files = Map.empty\<rparr>))" by (simp add: uart_init_inv)
  have zero: "unat (0 :: hal_device_id_t) < MAX_UART_DEVICES" by (simp add: MAX_UART_DEVICES_def)
  have w: "uart_path (uw_path test_world) = Some (bytes_of ''/dev/ttyS0'')" "uw_open test_world (bytes_of ''/dev/ttyS0'') = (3, test_port)"
    "uw_get test_world" "uw_set test_world"
    by (simp_all add: test_world_def uart_path_def)
  from uart_settings_reach_port [OF inv zero w, of test_world 115200 True HAL_PARITY_EVEN 1 8 False HAL_FLOW_CONTROL_NONE 25600]
  show ?thesis by (elim exE conjE) (rule exI)
qed

section \<open>Transfers\<close>

text \<open>A read that gets fewer bytes than asked for answers true, and leaves the rest of the buffer as it was.\<close>

lemma uart_short_read:
  assumes "uart_inv s" "unat i < MAX_UART_DEVICES" "u_is_open (uart_entry i s)" "os_files s (u_fd (uart_entry i s)) = Some p"
    "0 < k" "k \<le> len" "len \<le> length block" "k \<le> length (sp_pending p)" "u_fd (uart_entry i s) < FD_SETSIZE"
  shows "uart_read True (int k) i (Some block) len s =
    Some (True, Some (take k (sp_pending p) @ drop k block),
      os_put (u_fd (uart_entry i s)) (Some (p\<lparr>sp_pending := drop k (sp_pending p)\<rparr>)) s)"
  using assms uart_inv_fd [OF assms(1-3)] by (simp add: uart_read_def mem_copy_def min_absorb1)

lemma uart_write_all:
  assumes "unat i < MAX_UART_DEVICES" "u_is_open (uart_entry i s)" "os_files s (u_fd (uart_entry i s)) = Some p"
    "0 < length block" "int (length block) \<le> n"
  shows "uart_write n i (Some block) (length block) s =
    Some (True, os_put (u_fd (uart_entry i s)) (Some (p\<lparr>sp_written := sp_written p @ block\<rparr>)) s)"
proof -
  have "\<not> n \<le> 0" "block \<noteq> []" using assms(4,5) by (cases block; simp)+
  with assms show ?thesis by (simp add: uart_write_def Let_def min_absorb2)
qed

end
