(* ===== verification/Frames.thy ===== *)
theory Frames
  imports Buffer
begin

text \<open>
  What the packet builders of \<open>comm/src\<close> share: the two bytes of a 16-bit value in network order, and appending to
  a buffer whose returned pointer is ignored.
\<close>

section \<open>16-bit values in network order\<close>

text \<open>\<open>x >> 8\<close> and \<open>x & 0xFF\<close>, stored in bytes.\<close>

definition hi_byte :: "16 word \<Rightarrow> byte" where "hi_byte x = ucast (drop_bit 8 x)"
definition lo_byte :: "16 word \<Rightarrow> byte" where "lo_byte x = ucast (x AND 0xFF)"

text \<open>\<open>(hi << 8) | lo\<close>, stored in a \<open>uint16_t\<close>.\<close>

definition join_bytes :: "byte \<Rightarrow> byte \<Rightarrow> 16 word" where
  "join_bytes hi lo = push_bit 8 (ucast hi) OR ucast lo"

lemma lo_byte_bit: "bit (lo_byte x) k \<longleftrightarrow> k < 8 \<and> bit x k"
proof -
  have m: "(0xFF :: 16 word) = mask 8" by (simp add: mask_eq_exp_minus_1)
  show ?thesis unfolding lo_byte_def m by (auto simp only: bit_simps) (simp_all add: possible_bit_word)
qed

lemma hi_byte_bit: "bit (hi_byte x) k \<longleftrightarrow> k < 8 \<and> bit x (k + 8)"
  by (auto simp: hi_byte_def bit_simps add.commute)

lemma lo_byte_ucast: "lo_byte x = ucast x"
  by (rule bit_eqI) (simp add: lo_byte_bit bit_simps)

lemma join_hi_lo [simp]: "join_bytes (hi_byte x) (lo_byte x) = x"
  by (rule bit_word_eqI) (auto simp: join_bytes_def bit_simps hi_byte_bit lo_byte_bit)

lemma bytes_of_nat:
  assumes "n < 2 ^ 16"
  shows "(of_nat (n div 256) :: byte) = hi_byte (of_nat n)" "(of_nat (n mod 256) :: byte) = lo_byte (of_nat n)"
  using assms
  by (simp_all add: word_unat_eq_iff hi_byte_def lo_byte_ucast unsigned_ucast_eq unsigned_drop_bit_eq unat_of_nat
      drop_bit_eq_div take_bit_eq_mod unat_div)

section \<open>Appending without looking at the answer\<close>

text \<open>
  \<open>buffer_append(frame, d, n);\<close> as a statement: a frame that is NULL stays NULL (the buffer that is made for
  it is lost).
\<close>

definition put_bytes :: "int \<Rightarrow> bool \<Rightarrow> bool \<Rightarrow> byte list option \<Rightarrow> nat \<Rightarrow> buffer_t option \<Rightarrow> buffer_t option option" where
  "put_bytes ps ok1 ok2 d n frame = do {
     (b, _) \<leftarrow> buffer_append ps ok1 ok2 frame d n;
     Some (if frame = None then None else b) }"

lemma put_bytes_take:
  assumes "buffer_rep f xs" "n \<le> length d" "length xs + n \<le> SIZE_MAX div 2"
  shows "\<exists>g. put_bytes ps ok1 True (Some d) n f = Some g \<and> buffer_rep g (xs @ take n d)"
proof (cases "n = 0")
  case True
  then show ?thesis using buffer_sink.append_nothing [OF assms(1), of ps ok1 "Some d"] assms(1)
    by (auto simp: put_bytes_def buffer_rep_def)
next
  case False
  then obtain g where "buffer_append ps ok1 True f (Some d) n = Some (g, True)" "buffer_rep g (xs @ take n d)"
    using buffer_sink.append_bytes [OF assms(1), of n d ps ok1] assms(2,3) by auto
  moreover obtain y where "f = Some y" using assms(1) by (auto simp: buffer_rep_def)
  ultimately show ?thesis by (simp add: put_bytes_def)
qed

lemma put_bytes_rep:
  assumes "buffer_rep f xs" "length xs + length d \<le> SIZE_MAX div 2"
  shows "\<exists>g. put_bytes ps ok1 True (Some d) (length d) f = Some g \<and> buffer_rep g (xs @ d)"
  using put_bytes_take [OF assms(1), of "length d" d] assms(2) by simp

lemma put_nothing:
  assumes "buffer_rep f xs"
  shows "put_bytes ps ok1 True d 0 f = Some f"
  using buffer_sink.append_nothing [OF assms, of ps ok1 d] assms
  by (auto simp: put_bytes_def buffer_rep_def)

end
