(* ===== verification/Modbus.thy ===== *)
theory Modbus
  imports TcpClient Uart Frames
begin

text \<open>
  The Modbus client of \<open>comm/src/modbus.c\<close>, over the TCP client and the UART driver: the CRC of the
  serial frames, the frames of both transports, requests and responses.

  The header file does not declare \<open>uart_free\<close>, which the code calls: it is a parameter.
  \<open>modbus_client_connect_rtu\<close> is not modelled, because its calls do not fit the declarations of
  \<open>uart.h\<close>.
\<close>

section \<open>The checksum\<close>

definition crc_bit :: "16 word \<Rightarrow> 16 word" where
  "crc_bit crc = (if crc AND 0x0001 \<noteq> 0 then drop_bit 1 crc XOR 0xA001 else drop_bit 1 crc)"

definition crc_byte :: "16 word \<Rightarrow> byte \<Rightarrow> 16 word" where
  "crc_byte crc b = (crc_bit ^^ 8) (crc XOR ucast b)"

definition modbus_crc16 :: "byte list \<Rightarrow> nat \<Rightarrow> 16 word option" where
  "modbus_crc16 data len = (if len \<le> length data then Some (foldl crc_byte 0xFFFF (take len data)) else None)"

section \<open>The client\<close>

datatype modbus_transport_t = MODBUS_TRANSPORT_TCP | MODBUS_TRANSPORT_RTU

datatype modbus_data_type_t = MODBUS_DATA_COIL | MODBUS_DATA_DISCRETE_INPUT
  | MODBUS_DATA_HOLDING_REGISTER | MODBUS_DATA_INPUT_REGISTER

record modbus_client_t =
  mb_transport :: modbus_transport_t
  mb_tcp :: "tcp_client_t option"
  mb_rtu :: hal_device_id_t
  mb_unit_id :: byte
  mb_transaction_id :: "16 word"
  mb_read_buffer :: "buffer_t option"
  mb_write_buffer :: "buffer_t option"
  mb_connected :: bool

text \<open>
  What the system and the allocator answer during a call: the page size, whether \<open>malloc\<close> and the two
  allocations of a buffer and of the receive block succeed, \<open>errno\<close> after a failed \<open>send\<close>, what
  \<open>write\<close>, \<open>select\<close> and \<open>read\<close> answer on the serial line, and what the uninitialised array of the serial receive holds.
\<close>

record modbus_env =
  me_page :: int
  me_malloc :: bool
  me_ok1 :: bool
  me_ok2 :: bool
  me_recv :: bool
  me_errno :: int
  me_wrote :: int
  me_ready :: bool
  me_read :: int
  me_temp :: "byte list"

definition modbus_client_allocate :: "int \<Rightarrow> bool \<Rightarrow> bool \<Rightarrow> bool \<Rightarrow> modbus_client_t option" where
  "modbus_client_allocate ps ok ok1 ok2 =
     (if \<not> ok then None
      else Some \<lparr>mb_transport = MODBUS_TRANSPORT_TCP, mb_tcp = None, mb_rtu = 0, mb_unit_id = 1, mb_transaction_id = 0,
             mb_read_buffer = buffer_allocate_default ps ok1 ok2, mb_write_buffer = buffer_allocate_default ps ok1 ok2,
             mb_connected = False\<rparr>)"

text \<open>What is left of a client that is freed: the socket its TCP client used.\<close>

definition modbus_client_free :: "modbus_client_t option \<Rightarrow> socket option" where
  "modbus_client_free client =
     (case client of
        None \<Rightarrow> None
      | Some c \<Rightarrow>
        if mb_transport c = MODBUS_TRANSPORT_TCP \<and> mb_tcp c \<noteq> None
        then tcp_client_free (snd (tcp_client_close_socket (mb_tcp c)))
        else map_option sock (mb_tcp c))"

text \<open>\<open>ok\<close> and \<open>net\<close> answer \<open>tcp_client_allocate\<close>, \<open>resolves\<close> and \<open>new\<close> the creation, \<open>rc\<close> and \<open>errno\<close> \<open>connect\<close>.\<close>

definition modbus_client_connect_tcp ::
  "bool \<Rightarrow> socket \<Rightarrow> (byte list \<Rightarrow> bool) \<Rightarrow> socket option \<Rightarrow> int \<Rightarrow> int \<Rightarrow>
   modbus_client_t option \<Rightarrow> byte list option \<Rightarrow> int \<Rightarrow> (bool \<times> modbus_client_t option) option" where
  "modbus_client_connect_tcp ok net resolves new rc errno client hostname port =
     (case (client, hostname) of
        (Some c, Some host) \<Rightarrow>
          let tcp = tcp_client_allocate ok net;
              c1 = c\<lparr>mb_transport := MODBUS_TRANSPORT_TCP, mb_tcp := tcp\<rparr>
          in if tcp = None then Some (False, Some c1)
             else do {
               (created, tcp1) \<leftarrow> tcp_client_create_socket resolves new tcp host port;
               if \<not> created then Some (False, Some (c1\<lparr>mb_tcp := tcp1\<rparr>))
               else (case tcp_client_connect_socket rc errno tcp1 of
                       (done_it, tcp2) \<Rightarrow>
                         if \<not> done_it then Some (False, Some (c1\<lparr>mb_tcp := tcp2\<rparr>))
                         else Some (True, Some (c1\<lparr>mb_tcp := tcp2, mb_connected := True\<rparr>))) }
      | _ \<Rightarrow> Some (False, client))"

definition modbus_client_disconnect_rtu ::
  "(hal_device_id_t \<Rightarrow> uart_os \<Rightarrow> uart_os) \<Rightarrow> modbus_client_t option \<Rightarrow> uart_os \<Rightarrow> bool \<times> modbus_client_t option \<times> uart_os" where
  "modbus_client_disconnect_rtu uart_free client u =
     (case client of
        None \<Rightarrow> (False, client, u)
      | Some c \<Rightarrow>
        if mb_rtu c = 0 then (False, client, u)
        else (True, Some (c\<lparr>mb_rtu := 0, mb_connected := False\<rparr>), uart_free (mb_rtu c) (snd (uart_close (mb_rtu c) u))))"

text \<open>The second component of the result is the socket of the TCP client that is released.\<close>

definition modbus_client_disconnect ::
  "(hal_device_id_t \<Rightarrow> uart_os \<Rightarrow> uart_os) \<Rightarrow> modbus_client_t option \<Rightarrow> uart_os \<Rightarrow>
   bool \<times> socket option \<times> modbus_client_t option \<times> uart_os" where
  "modbus_client_disconnect uart_free client u =
     (case client of
        None \<Rightarrow> (False, None, None, u)
      | Some c \<Rightarrow>
        if mb_transport c = MODBUS_TRANSPORT_TCP \<and> mb_tcp c \<noteq> None
        then (True, tcp_client_free (snd (tcp_client_close_socket (mb_tcp c))),
              Some (c\<lparr>mb_tcp := None, mb_connected := False\<rparr>), u)
        else let (_, client', u') = modbus_client_disconnect_rtu uart_free client u
             in (True, None, map_option (\<lambda>c'. c'\<lparr>mb_connected := False\<rparr>) client', u'))"

section \<open>Frames\<close>

text \<open>\<open>buffer_append(frame, d, n)\<close> with its result ignored: a frame that is NULL stays NULL.\<close>

definition append_to :: "modbus_env \<Rightarrow> byte list option \<Rightarrow> nat \<Rightarrow> buffer_t option \<Rightarrow> buffer_t option option" where
  "append_to env d n frame = put_bytes (me_page env) (me_ok1 env) (me_ok2 env) d n frame"

definition modbus_build_tcp_frame ::
  "modbus_env \<Rightarrow> modbus_client_t \<Rightarrow> byte \<Rightarrow> byte list option \<Rightarrow> nat \<Rightarrow> (buffer_t option \<times> modbus_client_t) option" where
  "modbus_build_tcp_frame env client function_code data datalen =
     (let len = (of_nat (1 + datalen) :: 16 word);
          tid = mb_transaction_id client + 1;
          header = [hi_byte tid, lo_byte tid, 0, 0, hi_byte len, lo_byte len, mb_unit_id client];
          frame = buffer_allocate_length (me_ok1 env) (me_ok2 env) (7 + 1 + datalen)
      in do {
        frame \<leftarrow> append_to env (Some header) 7 frame;
        frame \<leftarrow> append_to env (Some [function_code]) 1 frame;
        frame \<leftarrow> (if data \<noteq> None \<and> datalen > 0 then append_to env data datalen frame else Some frame);
        Some (frame, client\<lparr>mb_transaction_id := tid\<rparr>) })"

definition modbus_build_rtu_frame ::
  "modbus_env \<Rightarrow> modbus_client_t \<Rightarrow> byte \<Rightarrow> byte list option \<Rightarrow> nat \<Rightarrow> buffer_t option option" where
  "modbus_build_rtu_frame env client function_code data datalen =
     (let frame = buffer_allocate_length (me_ok1 env) (me_ok2 env) (1 + 1 + datalen + 2)
      in do {
        frame \<leftarrow> append_to env (Some [mb_unit_id client]) 1 frame;
        frame \<leftarrow> append_to env (Some [function_code]) 1 frame;
        frame \<leftarrow> (if data \<noteq> None \<and> datalen > 0 then append_to env data datalen frame else Some frame);
        ptr \<leftarrow> buffer_get_data frame;
        crc \<leftarrow> modbus_crc16 ptr (2 + datalen);
        append_to env (Some [lo_byte crc, hi_byte crc]) 2 frame })"

section \<open>Requests and responses\<close>

definition modbus_client_send_request ::
  "modbus_env \<Rightarrow> modbus_client_t option \<Rightarrow> buffer_t option \<Rightarrow> uart_os \<Rightarrow> (bool \<times> modbus_client_t option \<times> uart_os) option" where
  "modbus_client_send_request env client request u =
     (case (client, request) of
        (Some c, Some _) \<Rightarrow>
          if \<not> mb_connected c then Some (False, client, u)
          else if mb_transport c = MODBUS_TRANSPORT_TCP \<and> mb_tcp c \<noteq> None
          then do {
            (ok, tcp) \<leftarrow> tcp_client_send_buffer (me_errno env) (mb_tcp c) request;
            Some (ok, Some (c\<lparr>mb_tcp := tcp\<rparr>), u) }
          else if mb_transport c = MODBUS_TRANSPORT_RTU
          then do {
            (ok, u') \<leftarrow> uart_write (me_wrote env) (mb_rtu c) (buffer_get_data request) (buffer_get_size request) u;
            Some (ok, client, u') }
          else Some (False, client, u)
      | _ \<Rightarrow> Some (False, client, u))"

text \<open>The length field of a header that was received.\<close>

definition modbus_header_length :: "byte list \<Rightarrow> 16 word option" where
  "modbus_header_length d = do {
     h \<leftarrow> mem_read d 4;
     l \<leftarrow> mem_read d 5;
     Some (join_bytes h l) }"

definition modbus_client_receive_response ::
  "modbus_env \<Rightarrow> modbus_client_t option \<Rightarrow> uart_os \<Rightarrow> (buffer_t option \<times> modbus_client_t option \<times> uart_os) option" where
  "modbus_client_receive_response env client u =
     (case client of
        None \<Rightarrow> Some (None, client, u)
      | Some c \<Rightarrow>
        if \<not> mb_connected c then Some (None, client, u)
        else let response = buffer_allocate_default (me_page env) (me_ok1 env) (me_ok2 env) in
          if mb_transport c = MODBUS_TRANSPORT_TCP \<and> mb_tcp c \<noteq> None
          then do {
            (header, tcp1) \<leftarrow> tcp_client_receive_buffer_by_length (me_page env) (me_recv env) (me_ok1 env) (me_ok2 env) (mb_tcp c) 7;
            if header = None then Some (None, Some (c\<lparr>mb_tcp := tcp1\<rparr>), u)
            else do {
              hd \<leftarrow> buffer_get_data header;
              len \<leftarrow> modbus_header_length hd;
              (pdu, tcp2) \<leftarrow> tcp_client_receive_buffer_by_length (me_page env) (me_recv env) (me_ok1 env) (me_ok2 env) tcp1 (unat len);
              if pdu = None then Some (None, Some (c\<lparr>mb_tcp := tcp2\<rparr>), u)
              else do {
                response \<leftarrow> append_to env (buffer_get_data pdu) (buffer_get_size pdu) response;
                Some (response, Some (c\<lparr>mb_tcp := tcp2\<rparr>), u) } } }
          else if mb_transport c = MODBUS_TRANSPORT_RTU
          then do {
            (ok, temp, u') \<leftarrow> uart_read (me_ready env) (me_read env) (mb_rtu c) (Some (me_temp env)) 256 u;
            if \<not> ok then Some (None, client, u')
            else do {
              temp \<leftarrow> temp;
              lo \<leftarrow> mem_read temp (256 - 2);
              hi \<leftarrow> mem_read temp (256 - 1);
              crc_calc \<leftarrow> modbus_crc16 temp (256 - 2);
              if (ucast lo OR push_bit 8 (ucast hi) :: 16 word) \<noteq> crc_calc then Some (None, client, u')
              else do {
                response \<leftarrow> append_to env (Some temp) (256 - 2) response;
                Some (response, client, u') } } }
          else Some (response, client, u))"

section \<open>Reading and writing\<close>

definition modbus_build_frame ::
  "modbus_env \<Rightarrow> modbus_client_t \<Rightarrow> byte \<Rightarrow> byte list option \<Rightarrow> nat \<Rightarrow> (buffer_t option \<times> modbus_client_t) option" where
  "modbus_build_frame env client function_code data datalen =
     (if mb_transport client = MODBUS_TRANSPORT_TCP then modbus_build_tcp_frame env client function_code data datalen
      else do { f \<leftarrow> modbus_build_rtu_frame env client function_code data datalen; Some (f, client) })"

text \<open>\<open>response\<close> says whether the caller's pointer is non-NULL; the buffer that is stored there comes back.\<close>

definition modbus_read ::
  "modbus_env \<Rightarrow> modbus_client_t option \<Rightarrow> modbus_data_type_t \<Rightarrow> 16 word \<Rightarrow> 16 word \<Rightarrow> bool \<Rightarrow> uart_os \<Rightarrow>
   (bool \<times> buffer_t option \<times> modbus_client_t option \<times> uart_os) option" where
  "modbus_read env client type address quantity response u =
     (case client of
        None \<Rightarrow> Some (False, None, client, u)
      | Some c \<Rightarrow>
        if \<not> response \<or> quantity = 0 then Some (False, None, client, u)
        else let data = [hi_byte address, lo_byte address, hi_byte quantity, lo_byte quantity];
                 function_code = (case type of MODBUS_DATA_COIL \<Rightarrow> 0x01 | MODBUS_DATA_DISCRETE_INPUT \<Rightarrow> 0x02
                   | MODBUS_DATA_HOLDING_REGISTER \<Rightarrow> 0x03 | MODBUS_DATA_INPUT_REGISTER \<Rightarrow> 0x04)
          in do {
            (frame, c1) \<leftarrow> modbus_build_frame env c function_code (Some data) 4;
            if frame = None then Some (False, None, Some c1, u)
            else do {
              (ok, client2, u2) \<leftarrow> modbus_client_send_request env (Some c1) frame u;
              if \<not> ok then Some (False, None, client2, u2)
              else do {
                (resp, client3, u3) \<leftarrow> modbus_client_receive_response env client2 u2;
                if resp = None then Some (False, None, client3, u3)
                else Some (True, resp, client3, u3) } } })"

text \<open>The loop that packs the coils; \<open>block\<close> is the data of the request, \<open>bits\<close> that of the values.\<close>

function coil_loop :: "byte list \<Rightarrow> nat \<Rightarrow> nat \<Rightarrow> byte list \<Rightarrow> byte list option" where
  "coil_loop bits bit_count i block =
     (if i < bit_count
      then (case mem_read bits i of
              None \<Rightarrow> None
            | Some b \<Rightarrow>
              if b \<noteq> 0
              then (case mem_read block (5 + i div 8) of
                      None \<Rightarrow> None
                    | Some old \<Rightarrow> coil_loop bits bit_count (i + 1) (block[5 + i div 8 := old OR push_bit (i mod 8) 1]))
              else coil_loop bits bit_count (i + 1) block)
      else Some block)"
  by pat_completeness auto
termination by (relation "measure (\<lambda>(b, n, i, d). n - i)") auto

declare coil_loop.simps [simp del]

text \<open>The data of a write request: address, quantity, byte count, values.\<close>

definition modbus_coil_data :: "16 word \<Rightarrow> buffer_t option \<Rightarrow> byte list option" where
  "modbus_coil_data address values =
     (let bit_count = buffer_get_size values;
          byte_count = (bit_count + 7) div 8;
          data = [hi_byte address, lo_byte address, of_nat (bit_count div 256), of_nat (bit_count mod 256), of_nat byte_count]
      in coil_loop (case buffer_get_data values of None \<Rightarrow> [] | Some bits \<Rightarrow> bits) bit_count 0 (data @ replicate byte_count 0))"

definition modbus_register_data :: "16 word \<Rightarrow> buffer_t option \<Rightarrow> byte list option" where
  "modbus_register_data address values =
     (let n = buffer_get_size values; qty = n div 2;
          data = [hi_byte address, lo_byte address, of_nat (qty div 256), of_nat (qty mod 256), of_nat (qty * 2)]
      in mem_copy (data @ replicate n 0) 5 (case buffer_get_data values of None \<Rightarrow> [] | Some d \<Rightarrow> d) 0 n)"

definition modbus_write ::
  "modbus_env \<Rightarrow> modbus_client_t option \<Rightarrow> modbus_data_type_t \<Rightarrow> 16 word \<Rightarrow> buffer_t option \<Rightarrow> uart_os \<Rightarrow>
   (bool \<times> modbus_client_t option \<times> uart_os) option" where
  "modbus_write env client type address values u =
     (case client of
        None \<Rightarrow> Some (False, client, u)
      | Some c \<Rightarrow>
        if values = None \<or> (type \<noteq> MODBUS_DATA_COIL \<and> type \<noteq> MODBUS_DATA_HOLDING_REGISTER)
        then Some (False, client, u)
        else if \<not> me_malloc env then Some (False, client, u)
        else do {
          data \<leftarrow> (if type = MODBUS_DATA_COIL then modbus_coil_data address values else modbus_register_data address values);
          (frame, c1) \<leftarrow> modbus_build_frame env c (if type = MODBUS_DATA_COIL then 0x0F else 0x10) (Some data) (length data);
          if frame = None then Some (False, Some c1, u)
          else do {
            (ok, client2, u2) \<leftarrow> modbus_client_send_request env (Some c1) frame u;
            if \<not> ok then Some (False, client2, u2)
            else do {
              (resp, client3, u3) \<leftarrow> modbus_client_receive_response env client2 u2;
              Some (resp \<noteq> None, client3, u3) } } })"

section \<open>Properties of the checksum\<close>

lemma crc_test: "(x :: 16 word) AND 0x0001 \<noteq> 0 \<longleftrightarrow> bit x 0"
  by (simp add: and_one_eq bit_0 odd_iff_mod_2_eq_one)

lemma crc_bit_even: "\<not> bit x 0 \<Longrightarrow> crc_bit x = drop_bit 1 x"
  using crc_test [of x] by (simp add: crc_bit_def)

lemma crc_bits_zero: "(\<And>k. k < n \<Longrightarrow> \<not> bit x k) \<Longrightarrow> (crc_bit ^^ n) x = drop_bit n x"
proof (induction n arbitrary: x)
  case (Suc n)
  have "(crc_bit ^^ Suc n) x = (crc_bit ^^ n) (drop_bit 1 x)"
    using Suc.prems [of 0] by (simp add: crc_bit_even funpow_swap1 del: funpow.simps(2)) (simp add: funpow_swap1 crc_bit_even)
  also have "\<dots> = drop_bit n (drop_bit 1 x)"
    using Suc.prems by (intro Suc.IH) (auto simp: bit_drop_bit_eq)
  finally show ?case by (simp add: add.commute)
qed simp

text \<open>Feeding the checksum its own two bytes, low byte first, clears it.\<close>

lemma crc_self: "crc_byte (crc_byte crc (lo_byte crc)) (hi_byte crc) = 0"
proof -
  have lo: "\<not> bit (crc XOR ucast (lo_byte crc) :: 16 word) k" if "k < 8" for k
    using that by (simp add: lo_byte_bit bit_simps)
  have step: "(crc_bit ^^ 8) (crc XOR ucast (lo_byte crc)) = drop_bit 8 (crc XOR ucast (lo_byte crc))"
    by (rule crc_bits_zero) (rule lo)
  have a: "crc_byte crc (lo_byte crc) = ucast (hi_byte crc)"
    unfolding crc_byte_def step
    by (rule bit_eqI) (auto simp: bit_simps lo_byte_bit hi_byte_bit add.commute dest: bit_imp_le_length)
  show ?thesis unfolding a by (simp add: crc_byte_def crc_bits_zero)
qed

text \<open>Each step is injective in the state, so a difference is never lost.\<close>

lemma xor_cancel: "(a :: 16 word) XOR c = b XOR c \<longleftrightarrow> a = b"
  by (metis xor.assoc xor_self_eq xor.right_neutral)

lemma crc_bit_inj: "crc_bit x = crc_bit y \<Longrightarrow> x = y"
proof -
  assume e: "crc_bit x = crc_bit y"
  have top: "bit (crc_bit z) 15 = bit z 0" for z
    unfolding crc_bit_def crc_test by (auto simp: bit_simps dest: bit_imp_le_length)
  have low: "bit x 0 = bit y 0" using e top [of x] top [of y] by simp
  have "drop_bit 1 x = drop_bit 1 y"
    using e low unfolding crc_bit_def crc_test by (auto simp: xor_cancel split: if_splits)
  then have "bit (drop_bit 1 x) n = bit (drop_bit 1 y) n" for n by simp
  then have "bit x (Suc n) = bit y (Suc n)" for n by (simp add: bit_drop_bit_eq)
  then show "x = y" using low by (intro bit_word_eqI) (metis not0_implies_Suc)
qed

lemma crc_byte_inj_state: "crc_byte x b = crc_byte y b \<longleftrightarrow> x = y"
proof -
  have "(crc_bit ^^ n) x' = (crc_bit ^^ n) y' \<Longrightarrow> x' = y'" for n x' y'
    by (induction n) (auto dest: crc_bit_inj)
  then show ?thesis unfolding crc_byte_def using xor_cancel by blast
qed

lemma crc_byte_inj_byte: "crc_byte x b = crc_byte x c \<longleftrightarrow> b = c"
proof -
  have "(crc_bit ^^ n) x' = (crc_bit ^^ n) y' \<Longrightarrow> x' = y'" for n x' y'
    by (induction n) (auto dest: crc_bit_inj)
  moreover have "b = c" if "ucast b = (ucast c :: 16 word)"
  proof -
    from that have "unat (ucast b :: 16 word) = unat (ucast c :: 16 word)" by simp
    then show ?thesis by (simp add: unat_ucast_up word_unat_eq_iff)
  qed
  ultimately show ?thesis unfolding crc_byte_def by (metis xor_cancel xor.commute)
qed

lemma crc_fold_inj: "foldl crc_byte x bs = foldl crc_byte y bs \<longleftrightarrow> x = y"
  by (induction bs arbitrary: x y) (simp_all add: crc_byte_inj_state)

text \<open>
  The serial checksum.  A message followed by its CRC, low byte first, has the CRC zero; and a message in
  which one byte was changed has another CRC, so the receiver's test rejects it.
\<close>

theorem modbus_crc_detects:
  "modbus_crc16 m (length m) = Some crc \<longrightarrow>
     modbus_crc16 (m @ [lo_byte crc, hi_byte crc]) (length m + 2) = Some 0 \<and>
     (\<forall>i < length m. \<forall>b. b \<noteq> m ! i \<longrightarrow> modbus_crc16 (m[i := b]) (length m) \<noteq> Some crc)"
proof (intro impI conjI allI)
  assume c: "modbus_crc16 m (length m) = Some crc"
  then show "modbus_crc16 (m @ [lo_byte crc, hi_byte crc]) (length m + 2) = Some 0"
    by (simp add: modbus_crc16_def crc_self)
  fix i b assume i: "i < length m" "b \<noteq> m ! i"
  have "foldl crc_byte 0xFFFF (m[i := b]) \<noteq> foldl crc_byte 0xFFFF m"
    using i by (subst (2) id_take_nth_drop [OF i(1)])
      (simp add: upd_conv_take_nth_drop crc_fold_inj crc_byte_inj_byte)
  with c show "modbus_crc16 (m[i := b]) (length m) \<noteq> Some crc" by (auto simp: modbus_crc16_def)
qed

theorem modbus_crc_detects_witness:
  "\<exists>crc. modbus_crc16 [1, 3] 2 = Some crc \<and> modbus_crc16 [1, 3, lo_byte crc, hi_byte crc] 4 = Some 0 \<and>
     modbus_crc16 [1, 2] 2 \<noteq> Some crc"
proof -
  obtain crc where c: "modbus_crc16 [1, 3] (length [1, 3 :: byte]) = Some crc" by (simp add: modbus_crc16_def)
  have "modbus_crc16 ([1, 3][1 := 2]) (length [1, 3 :: byte]) \<noteq> Some crc"
    using modbus_crc_detects [of "[1, 3]" crc] c by (auto simp del: list_update.simps dest: spec [of _ 1])
  with modbus_crc_detects [of "[1, 3]" crc] c show ?thesis
    by (intro exI [of _ crc]) (simp add: numeral_eq_Suc)
qed

section \<open>Properties of the frames\<close>

lemma append_to_take:
  assumes "buffer_rep f xs" "me_ok2 env" "n \<le> length d" "length xs + n \<le> SIZE_MAX div 2" "0 < n"
  shows "\<exists>g. append_to env (Some d) n f = Some g \<and> buffer_rep g (xs @ take n d)"
  using put_bytes_take [OF assms(1,3,4)] assms(2) by (simp add: append_to_def)

lemma append_to_rep:
  assumes "buffer_rep f xs" "me_ok2 env" "length xs + length d \<le> SIZE_MAX div 2" "0 < length d"
  shows "\<exists>g. append_to env (Some d) (length d) f = Some g \<and> buffer_rep g (xs @ d)"
  using append_to_take [OF assms(1,2), of "length d" d] assms(3,4) by simp

text \<open>Several appends, of which those of nothing are left out, as the frame builders call them.\<close>

lemma append_data_rep:
  assumes "buffer_rep f xs" "me_ok2 env" "length xs + length d \<le> SIZE_MAX div 2"
  shows "\<exists>g. (if Some d \<noteq> None \<and> length d > 0 then append_to env (Some d) (length d) f else Some f) = Some g \<and>
    buffer_rep g (xs @ d)"
  using append_to_rep [OF assms] assms(1) by (cases "d = []") auto

definition tcp_frame :: "16 word \<Rightarrow> byte \<Rightarrow> byte \<Rightarrow> byte list \<Rightarrow> byte list" where
  "tcp_frame tid uid function_code data =
     (let len = (of_nat (1 + length data) :: 16 word)
      in [hi_byte tid, lo_byte tid, 0, 0, hi_byte len, lo_byte len, uid, function_code] @ data)"

lemma build_tcp_frame_rep:
  assumes "me_ok1 env" "me_ok2 env" "8 + length data \<le> SIZE_MAX div 2"
  shows "\<exists>f. modbus_build_tcp_frame env c function_code (Some data) (length data) =
      Some (f, c\<lparr>mb_transaction_id := mb_transaction_id c + 1\<rparr>) \<and>
    buffer_rep f (tcp_frame (mb_transaction_id c + 1) (mb_unit_id c) function_code data)"
proof -
  define len where "len = (of_nat (1 + length data) :: 16 word)"
  define tid where "tid = mb_transaction_id c + 1"
  define h where "h = [hi_byte tid, lo_byte tid, 0, 0, hi_byte len, lo_byte len, mb_unit_id c]"
  have h7: "length h = 7" by (simp add: h_def)
  have "buffer_rep (buffer_allocate_length True True (7 + 1 + length data)) []"
    using assms(3) by (intro buffer_allocate_length_rep) (simp add: SIZE_MAX_def)
  then obtain f1 where f1: "append_to env (Some h) 7 (buffer_allocate_length True True (7 + 1 + length data)) = Some f1" "buffer_rep f1 h"
    using append_to_rep [of _ "[]" env h] assms(2,3) h7 by auto
  obtain f2 where f2: "append_to env (Some [function_code]) 1 f1 = Some f2" "buffer_rep f2 (h @ [function_code])"
    using append_to_rep [OF f1(2) assms(2), of "[function_code]"] assms(3) h7 by auto
  obtain f3 where f3: "(if Some data \<noteq> None \<and> length data > 0 then append_to env (Some data) (length data) f2 else Some f2) = Some f3"
     "buffer_rep f3 ((h @ [function_code]) @ data)"
    using append_data_rep [OF f2(2) assms(2), of data] assms(3) h7 by auto
  have "modbus_build_tcp_frame env c function_code (Some data) (length data) = Some (f3, c\<lparr>mb_transaction_id := tid\<rparr>)"
    using f1(1) f2(1) f3(1) assms(1,2)
    by (simp add: modbus_build_tcp_frame_def Let_def h_def len_def tid_def)
  moreover have "(h @ [function_code]) @ data = tcp_frame tid (mb_unit_id c) function_code data"
    by (simp add: tcp_frame_def h_def len_def Let_def)
  ultimately show ?thesis using f3(2) by (auto simp: tid_def)
qed

lemma build_rtu_frame_rep:
  assumes "me_ok1 env" "me_ok2 env" "8 + length data \<le> SIZE_MAX div 2"
  shows "\<exists>g crc. modbus_build_rtu_frame env c function_code (Some data) (length data) = Some g \<and>
    modbus_crc16 (mb_unit_id c # function_code # data) (2 + length data) = Some crc \<and>
    buffer_rep g (mb_unit_id c # function_code # data @ [lo_byte crc, hi_byte crc])"
proof -
  have "buffer_rep (buffer_allocate_length True True (1 + 1 + length data + 2)) []"
    using assms(3) by (intro buffer_allocate_length_rep) (simp add: SIZE_MAX_def)
  then obtain f1 where f1: "append_to env (Some [mb_unit_id c]) 1 (buffer_allocate_length True True (1 + 1 + length data + 2)) = Some f1"
     "buffer_rep f1 [mb_unit_id c]"
    using append_to_rep [of _ "[]" env "[mb_unit_id c]"] assms(2,3) by auto
  obtain f2 where f2: "append_to env (Some [function_code]) 1 f1 = Some f2" "buffer_rep f2 [mb_unit_id c, function_code]"
    using append_to_rep [OF f1(2) assms(2), of "[function_code]"] assms(3) by auto
  obtain f3 where f3: "(if Some data \<noteq> None \<and> length data > 0 then append_to env (Some data) (length data) f2 else Some f2) = Some f3"
     "buffer_rep f3 (mb_unit_id c # function_code # data)"
    using append_data_rep [OF f2(2) assms(2), of data] assms(3) by auto
  obtain m where d: "buffer_get_data f3 = Some ((mb_unit_id c # function_code # data) @ replicate m 0)"
    using f3(2) by (auto elim!: buffer_repE simp: buffer_get_data_def)
  define crc where "crc = foldl crc_byte 0xFFFF (mb_unit_id c # function_code # data)"
  have crc: "modbus_crc16 ((mb_unit_id c # function_code # data) @ replicate m 0) (2 + length data) = Some crc"
    by (simp add: modbus_crc16_def crc_def)
  obtain f4 where f4: "append_to env (Some [lo_byte crc, hi_byte crc]) 2 f3 = Some f4"
     "buffer_rep f4 (mb_unit_id c # function_code # data @ [lo_byte crc, hi_byte crc])"
    using append_to_rep [OF f3(2) assms(2), of "[lo_byte crc, hi_byte crc]"] assms(3) by (auto simp: numeral_2_eq_2)
  have "modbus_build_rtu_frame env c function_code (Some data) (length data) = Some f4"
    using f1(1) f2(1) f3(1) d crc f4(1) assms(1,2) by (simp add: modbus_build_rtu_frame_def Let_def)
  then show ?thesis using f4(2) by (auto simp: modbus_crc16_def crc_def)
qed

section \<open>Packing coils\<close>

lemma coil_loop_bits:
  assumes "n \<le> length bits" "length block = 5 + bc" "n \<le> 8 * bc"
  shows "\<exists>block'. coil_loop bits n i block = Some block' \<and> length block' = length block \<and> take 5 block' = take 5 block \<and>
    (\<forall>j < 8 * bc. bit (block' ! (5 + j div 8)) (j mod 8) \<longleftrightarrow>
       bit (block ! (5 + j div 8)) (j mod 8) \<or> (i \<le> j \<and> j < n \<and> bits ! j \<noteq> 0))"
  using assms
proof (induction bits n i block rule: coil_loop.induct)
  case (1 bits n i block)
  note step = coil_loop.simps [of bits n i block]
  show ?case
  proof (cases "i < n")
    case False
    then show ?thesis by (subst step) auto
  next
    case True
    have rd: "mem_read bits i = Some (bits ! i)" using True "1.prems" by simp
    show ?thesis
    proof (cases "bits ! i = 0")
      case zero: True
      have "coil_loop bits n i block = coil_loop bits n (i + 1) block" using True rd zero by (subst step) simp
      moreover have "(i \<le> j \<and> j < n \<and> bits ! j \<noteq> 0) = (i + 1 \<le> j \<and> j < n \<and> bits ! j \<noteq> 0)" for j
        using zero by (cases "j = i") auto
      ultimately show ?thesis using "1.IH"(2) [OF True rd] zero "1.prems" by simp
    next
      case one: False
      have at: "5 + i div 8 < length block" using True "1.prems" by simp
      let ?old = "block ! (5 + i div 8)"
      let ?new = "?old OR push_bit (i mod 8) 1"
      let ?b1 = "block[5 + i div 8 := ?new]"
      have ro: "mem_read block (5 + i div 8) = Some ?old" using at by simp
      obtain block' where b: "coil_loop bits n (i + 1) ?b1 = Some block'" "length block' = length block" "take 5 block' = take 5 block"
        "\<forall>j < 8 * bc. bit (block' ! (5 + j div 8)) (j mod 8) \<longleftrightarrow>
           bit (?b1 ! (5 + j div 8)) (j mod 8) \<or> (i + 1 \<le> j \<and> j < n \<and> bits ! j \<noteq> 0)"
        using "1.IH"(1) [OF True rd _ ro] one "1.prems" by auto
      have "bit (?b1 ! (5 + j div 8)) (j mod 8) \<longleftrightarrow> bit (block ! (5 + j div 8)) (j mod 8) \<or> j = i" if "j < 8 * bc" for j
      proof (cases "j div 8 = i div 8")
        case True
        then have "j mod 8 = i mod 8 \<longleftrightarrow> j = i" by (metis div_mult_mod_eq)
        then show ?thesis using True at by (auto simp: bit_simps)
      next
        case False
        then show ?thesis by auto
      qed
      then have "\<forall>j < 8 * bc. bit (block' ! (5 + j div 8)) (j mod 8) \<longleftrightarrow>
           bit (block ! (5 + j div 8)) (j mod 8) \<or> (i \<le> j \<and> j < n \<and> bits ! j \<noteq> 0)"
        using b(4) True one by (auto simp: le_less Suc_le_eq)
      moreover have "coil_loop bits n i block = Some block'" using True rd one ro b(1) by (subst step) simp
      ultimately show ?thesis using b(2,3) by blast
    qed
  qed
qed

text \<open>
  Coils.  The data of a write request for the coils in a buffer is the address, the number of coils, the
  number of bytes, and one bit per coil, least significant bit first: bit \<open>i mod 8\<close> of byte \<open>i div 8\<close> is set exactly
  if coil \<open>i\<close> is not zero, and the bits behind the last coil are clear.
\<close>

theorem modbus_coils_packed:
  assumes "buffer_rep values xs" "length xs < 2 ^ 16"
  shows "\<exists>packed. modbus_coil_data address values =
      Some ([hi_byte address, lo_byte address, hi_byte (of_nat (length xs)), lo_byte (of_nat (length xs)),
             of_nat ((length xs + 7) div 8)] @ packed) \<and>
    length packed = (length xs + 7) div 8 \<and>
    (\<forall>i < 8 * length packed. bit (packed ! (i div 8)) (i mod 8) \<longleftrightarrow> i < length xs \<and> xs ! i \<noteq> 0)"
proof -
  let ?n = "length xs"
  define bc where "bc = (?n + 7) div 8"
  obtain b m where b: "values = Some b" "bf_data b = Some (xs @ replicate m 0)" "bf_data_size b = ?n"
    using assms(1) by (rule buffer_repE)
  note lohi = bytes_of_nat [OF assms(2)]
  have le: "?n \<le> 8 * bc" unfolding bc_def by presburger
  define h :: "byte list" where
    "h = [hi_byte address, lo_byte address, hi_byte (of_nat ?n), lo_byte (of_nat ?n), of_nat bc]"
  have h5: "length h = 5" by (simp add: h_def)
  obtain block' where bl: "coil_loop (xs @ replicate m 0) ?n 0 (h @ replicate bc 0) = Some block'" "length block' = 5 + bc"
     "take 5 block' = h"
     "\<forall>j < 8 * bc. bit (block' ! (5 + j div 8)) (j mod 8) \<longleftrightarrow>
       bit ((h @ replicate bc 0) ! (5 + j div 8)) (j mod 8) \<or> (0 \<le> j \<and> j < ?n \<and> (xs @ replicate m 0) ! j \<noteq> 0)"
    using coil_loop_bits [of ?n "xs @ replicate m 0" "h @ replicate bc 0" bc 0] h5 le by auto
  define packed where "packed = drop 5 block'"
  have block: "block' = h @ packed" using bl(3) unfolding packed_def by (metis append_take_drop_id)
  have len: "length packed = bc" using bl(2) by (simp add: packed_def)
  have "bit (packed ! (i div 8)) (i mod 8) \<longleftrightarrow> i < ?n \<and> xs ! i \<noteq> 0" if "i < 8 * bc" for i
  proof -
    have "i div 8 < bc" using that by auto
    then have "(h @ replicate bc 0) ! (5 + i div 8) = 0" using h5 by (simp add: nth_append)
    with bl(4) that h5 show ?thesis by (auto simp: block nth_append)
  qed
  moreover have "modbus_coil_data address values = Some (h @ packed)"
    using b bl(1) block lohi
    by (simp add: modbus_coil_data_def buffer_get_size_def buffer_get_data_def Let_def h_def bc_def)
  ultimately show ?thesis using len by (intro exI [of _ packed]) (simp add: h_def bc_def)
qed

theorem modbus_coils_packed_witness:
  "modbus_coil_data 19 (Some \<lparr>bf_data = Some [1, 2, 0], bf_data_size = 3, bf_memory_size = 3\<rparr>) \<noteq> None"
proof -
  have "buffer_rep (Some \<lparr>bf_data = Some [1, 2, 0], bf_data_size = 3, bf_memory_size = 3\<rparr>) [1, 2, 0]"
    by (rule buffer_repI [where n = 0]) (simp_all add: SIZE_MAX_def)
  from modbus_coils_packed [OF this, of 19] show ?thesis by auto
qed

section \<open>Exchanges over TCP\<close>

text \<open>The calls of the client on its connection are those of the byte stream.\<close>

lemma send_loop_other_padding:
  "length xs < 2 ^ 31 \<Longrightarrow> tcp_send_loop e1 (xs @ ys) (length xs) off t = Some (True, t') \<Longrightarrow>
   tcp_send_loop e2 (xs @ zs) (length xs) off t = Some (True, t')"
proof (induction "length (sk_send_plan (sock t))" arbitrary: t off rule: less_induct)
  case less
  note step1 = tcp_send_loop.simps [of e1 "xs @ ys" "length xs" off t]
  note step2 = tcp_send_loop.simps [of e2 "xs @ zs" "length xs" off t]
  show ?case
  proof (cases "off < length xs")
    case False
    then show ?thesis using less.prems step1 step2 by simp
  next
    case True
    then have n: "int_length (length xs - off) = Some (length xs - off)" using less.prems(1) by (intro int_length_small) simp
    have same: "take (length xs - off) (drop off (xs @ ws)) = drop off xs" for ws :: "byte list" using True by simp
    obtain a t1 where s: "tcp_send (drop off xs) t = (a, t1)" by force
    show ?thesis
    proof (cases "a \<le> 0")
      case True
      then show ?thesis using less.prems(2) step1 n s same \<open>off < length xs\<close> by simp
    next
      case False
      have "tcp_send_loop e1 (xs @ ys) (length xs) (off + nat a) t1 = Some (True, t')"
        using less.prems(2) step1 n s same False \<open>off < length xs\<close> by simp
      from less.hyps [OF tcp_send_plan [OF s] less.prems(1) this] False step2 n s same \<open>off < length xs\<close>
      show ?thesis by simp
    qed
  qed
qed

lemma write_send:
  assumes "tcp_write xs t = Some (True, t')" "buffer_rep b xs" "length xs < 2 ^ 31"
  shows "tcp_client_send_buffer errno (Some t) b = Some (True, Some t')"
proof -
  obtain f where f: "buffer_allocate 4096 True True (Some xs) (length xs) = Some f" "tcp_client_send_buffer 0 (Some t) f = Some (True, Some t')"
    using assms(1) by (auto simp: tcp_write_def bind_eq_Some_conv)
  have "length xs \<le> SIZE_MAX" using assms(2) by (auto elim!: buffer_repE)
  then have "buffer_rep f xs" using buffer_allocate_rep [of "length xs" xs 4096] f(1) by (auto simp: SIZE_MAX_def)
  then obtain g n where g: "f = Some g" "bf_data g = Some (xs @ replicate n 0)" "bf_data_size g = length xs"
    by (rule buffer_repE)
  obtain d m where d: "b = Some d" "bf_data d = Some (xs @ replicate m 0)" "bf_data_size d = length xs"
    using assms(2) by (rule buffer_repE)
  have "tcp_send_loop 0 (xs @ replicate n 0) (length xs) 0 t = Some (True, t')"
    using f(2) g by (auto simp: tcp_client_send_buffer_def buffer_get_size_def bind_eq_Some_conv)
  from send_loop_other_padding [OF assms(3) this, of errno "replicate m 0"] d show ?thesis
    by (simp add: tcp_client_send_buffer_def buffer_get_size_def)
qed

lemma read_receive:
  assumes "tcp_read k t = Some (Some bs, t')" "0 < k" "k < 2 ^ 31"
  shows "\<exists>b. tcp_client_receive_buffer_by_length 4096 True True True (Some t) k = Some (b, Some t') \<and> buffer_rep b bs"
proof -
  obtain b where b: "tcp_client_receive_buffer_by_length 4096 True True True (Some t) k = Some (Some b, Some t')"
    "\<exists>d. bf_data b = Some d \<and> bs = take (bf_data_size b) d"
    using assms(1) by (auto simp: tcp_read_def bind_eq_Some_conv buffer_get_data_def buffer_get_size_def split: option.splits)
  from receive_by_length [OF assms(2,3) _ b(1)] have "\<exists>xs. buffer_rep (Some b) xs" by (auto simp: SIZE_MAX_def)
  then have "buffer_rep (Some b) bs" using b(2) by (auto simp: buffer_rep_def buffer_contents_def)
  with b(1) show ?thesis by blast
qed

definition function_code_of :: "modbus_data_type_t \<Rightarrow> byte" where
  "function_code_of type = (case type of MODBUS_DATA_COIL \<Rightarrow> 0x01 | MODBUS_DATA_DISCRETE_INPUT \<Rightarrow> 0x02
     | MODBUS_DATA_HOLDING_REGISTER \<Rightarrow> 0x03 | MODBUS_DATA_INPUT_REGISTER \<Rightarrow> 0x04)"

definition read_request :: "modbus_client_t \<Rightarrow> modbus_data_type_t \<Rightarrow> 16 word \<Rightarrow> 16 word \<Rightarrow> byte list" where
  "read_request c type address quantity =
     tcp_frame (mb_transaction_id c + 1) (mb_unit_id c) (function_code_of type)
       [hi_byte address, lo_byte address, hi_byte quantity, lo_byte quantity]"

lemma length_read_request: "length (read_request c type address quantity) = 12"
  by (simp add: read_request_def tcp_frame_def Let_def)

definition env_ok :: "modbus_env \<Rightarrow> bool" where
  "env_ok env = (me_page env = 4096 \<and> me_ok1 env \<and> me_ok2 env \<and> me_recv env)"

lemma read_over_tcp:
  assumes "env_ok env" "mb_transport c = MODBUS_TRANSPORT_TCP" "mb_connected c" "mb_tcp c = Some t" "quantity \<noteq> 0"
  shows "\<exists>f. buffer_rep f (read_request c type address quantity) \<and>
    modbus_read env (Some c) type address quantity True u = do {
      (ok, tcp) \<leftarrow> tcp_client_send_buffer (me_errno env) (Some t) f;
      let c2 = c\<lparr>mb_transaction_id := mb_transaction_id c + 1, mb_tcp := tcp\<rparr>;
      if \<not> ok then Some (False, None, Some c2, u)
      else do {
        (resp, client3, u3) \<leftarrow> modbus_client_receive_response env (Some c2) u;
        if resp = None then Some (False, None, client3, u3) else Some (True, resp, client3, u3) } }"
proof -
  let ?data = "[hi_byte address, lo_byte address, hi_byte quantity, lo_byte quantity]"
  have four: "length ?data = 4" by simp
  obtain f where f: "modbus_build_tcp_frame env c (function_code_of type) (Some ?data) 4 =
      Some (f, c\<lparr>mb_transaction_id := mb_transaction_id c + 1\<rparr>)"
    "buffer_rep f (read_request c type address quantity)"
    using build_tcp_frame_rep [of env ?data c "function_code_of type", unfolded four read_request_def [symmetric]] assms(1)
    unfolding env_ok_def by (elim conjE) (drule (1) meta_mp | simp add: SIZE_MAX_def | blast)+
  obtain b where "f = Some b" using f(2) by (auto simp: buffer_rep_def)
  with f assms show ?thesis
    by (intro exI [of _ f])
      (cases "tcp_client_send_buffer (me_errno env) (Some t) f";
       simp add: modbus_read_def modbus_build_frame_def function_code_of_def Let_def modbus_client_send_request_def case_prod_beta)
qed

lemma receive_over_tcp:
  assumes "env_ok env" "mb_transport c = MODBUS_TRANSPORT_TCP" "mb_connected c" "mb_tcp c = Some t"
    and hd: "tcp_read 7 t = Some (Some header, t1)" "modbus_header_length header = Some len"
    and bd: "tcp_read (unat len) t1 = Some (Some body, t2)" "0 < len" "length body = unat len"
  shows "\<exists>resp. modbus_client_receive_response env (Some c) u = Some (resp, Some (c\<lparr>mb_tcp := Some t2\<rparr>), u) \<and> buffer_rep resp body"
proof -
  obtain h where h: "tcp_client_receive_buffer_by_length 4096 True True True (Some t) 7 = Some (Some h, Some t1)" "buffer_rep (Some h) header"
    using read_receive [OF hd(1)] by (auto simp: buffer_rep_def)
  have len: "0 < unat len" "unat len < 2 ^ 31"
    using bd(2) unsigned_less [of len, where ?'a = nat] by (simp_all add: word_less_nat_alt)
  obtain b where b: "tcp_client_receive_buffer_by_length 4096 True True True (Some t1) (unat len) = Some (Some b, Some t2)" "buffer_rep (Some b) body"
    using read_receive [OF bd(1) len] by (auto simp: buffer_rep_def)
  obtain n where d: "bf_data h = Some (header @ replicate n 0)" using h(2) by (auto elim!: buffer_repE)
  have l: "modbus_header_length (header @ replicate n 0) = Some len"
    using hd(2) by (auto simp: modbus_header_length_def mem_read_def nth_append split: if_splits)
  obtain m where e: "bf_data b = Some (body @ replicate m 0)" "bf_data_size b = length body" using b(2) by (auto elim!: buffer_repE)
  have "0 < length body" "length body < 2 ^ 16"
    using len(1) bd(3) unsigned_less [of len, where ?'a = nat] by simp_all
  moreover have "buffer_rep (buffer_allocate_default 4096 True True) []"
    by (rule buffer_allocate_default_rep) (simp add: LONG_MAX_def)
  ultimately obtain resp where "append_to env (Some (body @ replicate m 0)) (length body) (buffer_allocate_default 4096 True True) = Some resp"
    "buffer_rep resp body"
    using append_to_take [of _ "[]" env "length body" "body @ replicate m 0"] assms(1)
    by (auto simp: env_ok_def SIZE_MAX_def)
  then show ?thesis
    using assms(1-4) h(1) b(1) d e l
    by (simp add: modbus_client_receive_response_def env_ok_def buffer_get_data_def buffer_get_size_def Let_def)
qed

definition announced :: "byte list \<Rightarrow> nat" where
  "announced header = (case modbus_header_length header of None \<Rightarrow> 0 | Some len \<Rightarrow> unat len)"

lemma framed_exchange_parts:
  assumes "framed_exchange wr rd req h ann s = Some (Some (header, body), s')"
  obtains s1 s2 where "wr req s = Some (True, s1)" "rd h s1 = Some (Some header, s2)" "rd (ann header) s2 = Some (Some body, s')"
proof -
  obtain ok s1 where w: "wr req s = Some (ok, s1)" using assms by (cases "wr req s") (auto simp: framed_exchange_def)
  have ok: "ok" using assms w by (cases ok) (auto simp: framed_exchange_def)
  obtain hd s2 where r: "rd h s1 = Some (hd, s2)" using assms w ok by (cases "rd h s1") (auto simp: framed_exchange_def)
  obtain h' where h': "hd = Some h'" using assms w ok r by (cases hd) (auto simp: framed_exchange_def)
  obtain bd s3 where b: "rd (ann h') s2 = Some (bd, s3)"
    using assms w ok r h' by (cases "rd (ann h') s2") (auto simp: framed_exchange_def)
  have "bd = Some body" "h' = header" "s3 = s'" using assms w ok r h' b by (auto simp: framed_exchange_def)
  then show ?thesis using that w ok r h' b by simp
qed

text \<open>
  C10: a read over TCP.  On a connection that carries enough bytes, \<open>modbus_read\<close> sends exactly one frame - the next
  transaction id, protocol 0, the length field, the unit, the function code of the data type, address and
  quantity - reads the seven bytes of the header and as many bytes as its length field says, and returns
  those; nothing behind them is consumed.
\<close>

theorem modbus_read_exchange:
  assumes "env_ok env" "mb_transport c = MODBUS_TRANSPORT_TCP" "mb_connected c" "mb_tcp c = Some t" "quantity \<noteq> 0"
    and "sk_incoming (sock t) = header @ body @ rest" "length header = 7" "0 < length body" "length body = announced header"
    and "tcp_healthy (12 + (7 + (announced header + n))) t"
  shows "\<exists>resp t'. modbus_read env (Some c) type address quantity True u =
      Some (True, resp, Some (c\<lparr>mb_transaction_id := mb_transaction_id c + 1, mb_tcp := Some t'\<rparr>), u) \<and>
    buffer_rep resp body \<and> sk_sent (sock t') = sk_sent (sock t) @ read_request c type address quantity \<and>
    sk_incoming (sock t') = rest \<and> tcp_healthy n t'"
proof -
  let ?req = "read_request c type address quantity"
  obtain len where len: "modbus_header_length header = Some len" "announced header = unat len" "0 < len"
    using assms(8,9) by (auto simp: announced_def word_gt_0 unat_gt_0 split: option.splits)
  have small: "announced header < 2 ^ 31" using len(2) unsigned_less [of len, where ?'a = nat] by simp
  obtain t' where t': "framed_exchange tcp_write tcp_read ?req 7 announced t = Some (Some (header, body), t')"
    "sk_sent (sock t') = sk_sent (sock t) @ ?req" "sk_incoming (sock t') = rest" "tcp_healthy n t'"
    using tcp_stream.exchange_law [of ?req 7 announced header n t body rest] assms(6-10) small
    by (auto simp: length_read_request)
  obtain t1 t2 where parts: "tcp_write ?req t = Some (True, t1)" "tcp_read 7 t1 = Some (Some header, t2)"
    "tcp_read (announced header) t2 = Some (Some body, t')"
    using t'(1) by (rule framed_exchange_parts)
  obtain f where f: "buffer_rep f ?req" "modbus_read env (Some c) type address quantity True u = do {
      (ok, tcp) \<leftarrow> tcp_client_send_buffer (me_errno env) (Some t) f;
      let c2 = c\<lparr>mb_transaction_id := mb_transaction_id c + 1, mb_tcp := tcp\<rparr>;
      if \<not> ok then Some (False, None, Some c2, u)
      else do {
        (resp, client3, u3) \<leftarrow> modbus_client_receive_response env (Some c2) u;
        if resp = None then Some (False, None, client3, u3) else Some (True, resp, client3, u3) } }"
    using read_over_tcp [OF assms(1-5)] by blast
  have send: "tcp_client_send_buffer (me_errno env) (Some t) f = Some (True, Some t1)"
    by (rule write_send [OF parts(1) f(1)]) (simp add: length_read_request)
  let ?c2 = "c\<lparr>mb_transaction_id := mb_transaction_id c + 1, mb_tcp := Some t1\<rparr>"
  obtain resp where "modbus_client_receive_response env (Some ?c2) u = Some (resp, Some (?c2\<lparr>mb_tcp := Some t'\<rparr>), u)" "buffer_rep resp body"
    using receive_over_tcp [of env ?c2 t1 header t2 len body t' u] assms(1-3,9) parts(2,3) len by auto
  then show ?thesis using f(2) send t'(2-4)
    by (intro exI [of _ resp] exI [of _ t']) (auto simp: buffer_rep_def)
qed

definition test_modbus :: "byte list \<Rightarrow> modbus_client_t" where
  "test_modbus incoming = \<lparr>mb_transport = MODBUS_TRANSPORT_TCP,
     mb_tcp = Some (test_client (replicate 30 1) (replicate 30 4) incoming), mb_rtu = 0, mb_unit_id = 1,
     mb_transaction_id = 0, mb_read_buffer = None, mb_write_buffer = None, mb_connected = True\<rparr>"

definition test_env :: modbus_env where
  "test_env = \<lparr>me_page = 4096, me_malloc = True, me_ok1 = True, me_ok2 = True, me_recv = True, me_errno = 0,
     me_wrote = 0, me_ready = False, me_read = 0, me_temp = []\<rparr>"

lemma test_env_ok: "env_ok test_env"
  by (simp add: env_ok_def test_env_def)

lemma test_modbus_simps:
  "mb_transport (test_modbus bs) = MODBUS_TRANSPORT_TCP" "mb_connected (test_modbus bs)"
  "mb_tcp (test_modbus bs) = Some (test_client (replicate 30 1) (replicate 30 4) bs)"
  by (simp_all add: test_modbus_def)

theorem modbus_read_exchange_witness:
  "\<exists>resp c'. modbus_read test_env (Some (test_modbus [0, 1, 0, 0, 0, 2, 1, 3, 131])) MODBUS_DATA_COIL 5 1 True
       \<lparr>uart_table = [], os_files = Map.empty\<rparr> = Some (True, resp, c', \<lparr>uart_table = [], os_files = Map.empty\<rparr>) \<and>
     buffer_rep resp [3, 131]"
proof -
  have a: "announced [0, 1, 0, 0, 0, 2, 1] = 2"
    by (simp add: announced_def modbus_header_length_def join_bytes_def)
  let ?t = "test_client (replicate 30 1) (replicate 30 4) [0, 1, 0, 0, 0, 2, 1, 3, 131]"
  have h: "tcp_healthy (12 + (7 + (announced [0, 1, 0, 0, 0, 2, 1] + 0))) ?t"
    by (simp add: a tcp_healthy_def test_client_def)
  have i: "sk_incoming (sock ?t) = [0, 1, 0, 0, 0, 2, 1] @ [3, 131] @ []" by (simp add: test_client_def)
  obtain resp t' where "modbus_read test_env (Some (test_modbus [0, 1, 0, 0, 0, 2, 1, 3, 131])) MODBUS_DATA_COIL 5 1 True
       \<lparr>uart_table = [], os_files = Map.empty\<rparr> = Some (True, resp, Some ((test_modbus [0, 1, 0, 0, 0, 2, 1, 3, 131])
         \<lparr>mb_transaction_id := mb_transaction_id (test_modbus [0, 1, 0, 0, 0, 2, 1, 3, 131]) + 1, mb_tcp := Some t'\<rparr>),
         \<lparr>uart_table = [], os_files = Map.empty\<rparr>)" "buffer_rep resp [3, 131]"
    using modbus_read_exchange [OF test_env_ok test_modbus_simps(1-3) _ i _ _ _ h, of 1 MODBUS_DATA_COIL 5 "\<lparr>uart_table = [], os_files = Map.empty\<rparr>"] a
    by auto
  then show ?thesis by blast
qed

text \<open>
  C11: the length field.  The field of a request counts one byte less than follows it (the unit identifier is
  left out), and of a response the code reads one byte more than a device sends that counts it: when a
  device answers with a header whose length is one more than the length of the rest, as the
  protocol has it, and nothing else, \<open>modbus_read\<close> fails.
\<close>

theorem modbus_read_rejects_standard_response:
  assumes "env_ok env" "mb_transport c = MODBUS_TRANSPORT_TCP" "mb_connected c" "mb_tcp c = Some t" "quantity \<noteq> 0"
    and "sk_incoming (sock t) = header @ pdu" "length header = 7" "announced header = length pdu + 1"
  shows "(\<exists>c'. modbus_read env (Some c) type address quantity True u = Some (False, None, Some c', u)) \<and>
    announced (take 7 (read_request c type address quantity)) + 1 = length (drop 6 (read_request c type address quantity))"
proof -
  let ?req = "read_request c type address quantity"
  obtain len where len: "modbus_header_length header = Some len" "unat len = length pdu + 1"
    using assms(8) by (auto simp: announced_def split: option.splits)
  have small: "0 < unat len" "unat len < 2 ^ 31" using len(2) unsigned_less [of len, where ?'a = nat] by simp_all
  obtain f where f: "buffer_rep f ?req" "modbus_read env (Some c) type address quantity True u = do {
      (ok, tcp) \<leftarrow> tcp_client_send_buffer (me_errno env) (Some t) f;
      let c2 = c\<lparr>mb_transaction_id := mb_transaction_id c + 1, mb_tcp := tcp\<rparr>;
      if \<not> ok then Some (False, None, Some c2, u)
      else do {
        (resp, client3, u3) \<leftarrow> modbus_client_receive_response env (Some c2) u;
        if resp = None then Some (False, None, client3, u3) else Some (True, resp, client3, u3) } }"
    using read_over_tcp [OF assms(1-5)] by blast
  obtain ok t1 where s: "tcp_client_send_buffer (me_errno env) (Some t) f = Some (ok, Some t1)"
    "sk_incoming (sock t1) = header @ pdu"
    using send_buffer_prefix [OF f(1), of "me_errno env" t] assms(6) by (auto simp: length_read_request)
  have ps: "4096 \<le> int SIZE_MAX" by (simp add: SIZE_MAX_def)
  obtain r t2 where r: "tcp_client_receive_buffer_by_length 4096 True True True (Some t1) 7 = Some (r, Some t2)"
    using receive_returns [OF _ _ ps, of 7 True t1] by auto
  have "\<exists>c'. modbus_client_receive_response env (Some (c\<lparr>mb_transaction_id := tid, mb_tcp := Some t1\<rparr>)) u = Some (None, Some c', u)" for tid
  proof (cases r)
    case None
    then show ?thesis using r assms(1-4) by (simp add: modbus_client_receive_response_def env_ok_def Let_def)
  next
    case (Some h)
    then have h: "buffer_rep (Some h) header" "sk_incoming (sock t2) = pdu"
      using receive_by_length [OF _ _ ps r] s(2) assms(7) by auto
    obtain n where d: "bf_data h = Some (header @ replicate n 0)" using h(1) by (auto elim!: buffer_repE)
    have l: "modbus_header_length (header @ replicate n 0) = Some len"
      using len(1) by (auto simp: modbus_header_length_def mem_read_def nth_append split: if_splits)
    obtain q t3 where q: "tcp_client_receive_buffer_by_length 4096 True True True (Some t2) (unat len) = Some (q, Some t3)"
      using receive_returns [OF small ps, of True t2] by auto
    have "q = None" using receive_by_length [OF small ps q] h(2) len(2) by (auto split: if_splits)
    then show ?thesis using r Some d l q assms(1-4)
      by (simp add: modbus_client_receive_response_def env_ok_def Let_def buffer_get_data_def)
  qed
  then obtain c' where "modbus_client_receive_response env
      (Some (c\<lparr>mb_transaction_id := mb_transaction_id c + 1, mb_tcp := Some t1\<rparr>)) u = Some (None, Some c', u)" by blast
  then have "\<exists>c'. modbus_read env (Some c) type address quantity True u = Some (False, None, Some c', u)"
    using f(2) s(1) by (cases ok) (auto simp: Let_def)
  moreover have "announced (take 7 ?req) = 5" "length (drop 6 ?req) = 6"
    by (simp_all add: length_read_request)
      (simp add: read_request_def tcp_frame_def announced_def modbus_header_length_def hi_byte_def lo_byte_def join_bytes_def)
  ultimately show ?thesis by simp
qed

theorem modbus_read_rejects_standard_response_witness:
  "\<exists>c'. modbus_read test_env (Some (test_modbus [0, 1, 0, 0, 0, 3, 1, 3, 131])) MODBUS_DATA_COIL 5 1 True
     \<lparr>uart_table = [], os_files = Map.empty\<rparr> = Some (False, None, Some c', \<lparr>uart_table = [], os_files = Map.empty\<rparr>)"
proof -
  have a: "announced [0, 1, 0, 0, 0, 3, 1] = length [3, 131 :: byte] + 1"
    by (simp add: announced_def modbus_header_length_def join_bytes_def)
  have i: "sk_incoming (sock (test_client (replicate 30 1) (replicate 30 4) [0, 1, 0, 0, 0, 3, 1, 3, 131])) =
      [0, 1, 0, 0, 0, 3, 1] @ [3, 131]" by (simp add: test_client_def)
  show ?thesis
    using modbus_read_rejects_standard_response [OF test_env_ok test_modbus_simps(1-3) _ i _ a, of 1] by simp
qed

text \<open>
  Frames.  With memory available the TCP frame is the transaction id (one more than the last, modulo
  \<open>2 ^ 16\<close>), protocol 0, the length field, the unit, the function code and the data; the serial frame is unit,
  function code, data and the checksum of these, low byte first, so that the checksum of the whole frame is zero.
\<close>

theorem modbus_frames:
  assumes "me_ok1 env" "me_ok2 env" "8 + length data \<le> SIZE_MAX div 2"
  shows "(\<exists>f. modbus_build_tcp_frame env c function_code (Some data) (length data) =
      Some (f, c\<lparr>mb_transaction_id := mb_transaction_id c + 1\<rparr>) \<and>
      buffer_rep f (tcp_frame (mb_transaction_id c + 1) (mb_unit_id c) function_code data)) \<and>
    (\<exists>g frame. modbus_build_rtu_frame env c function_code (Some data) (length data) = Some g \<and> buffer_rep g frame \<and>
      take (2 + length data) frame = mb_unit_id c # function_code # data \<and> length frame = 4 + length data \<and>
      modbus_crc16 frame (length frame) = Some 0)"
proof -
  obtain g crc where g: "modbus_build_rtu_frame env c function_code (Some data) (length data) = Some g"
    "modbus_crc16 (mb_unit_id c # function_code # data) (2 + length data) = Some crc"
    "buffer_rep g (mb_unit_id c # function_code # data @ [lo_byte crc, hi_byte crc])"
    using build_rtu_frame_rep [OF assms] by blast
  define fr where "fr = mb_unit_id c # function_code # data @ [lo_byte crc, hi_byte crc]"
  have "modbus_crc16 fr (length fr) = Some 0" using g(2) by (simp add: fr_def modbus_crc16_def crc_self)
  moreover have "take (2 + length data) fr = mb_unit_id c # function_code # data" "length fr = 4 + length data"
    by (simp_all add: fr_def)
  ultimately show ?thesis using g(1,3) build_tcp_frame_rep [OF assms, of c function_code] unfolding fr_def [symmetric] by blast
qed

theorem modbus_frames_witness:
  "\<exists>g. modbus_build_rtu_frame test_env (test_modbus []) 3 (Some [0, 7]) (length [0 :: byte, 7]) = Some g"
  using modbus_frames [of test_env "[0, 7]" "test_modbus []" 3] by (auto simp: test_env_def SIZE_MAX_def)

end
