(* ===== verification/StringEx.thy ===== *)
theory StringEx
  imports Interfaces
begin

text \<open>
  The dynamic strings of \<open>core/src/stringex.c\<close>, first part: storage, construction, comparison and
  appending.  A string is a block of whole pages with the characters at its beginning; \<open>ps\<close> is the page
  size that \<open>sysconf\<close> answers, \<open>ok\<close>, \<open>ok1\<close>, \<open>ok2\<close> whether the allocations of a call succeed.
  Characters are bytes; a C string argument is the block it points to.

  What the library's \<open>sprintf\<close> prints for a double, and the conversions between multibyte and wide
  characters, are parameters.
\<close>

section \<open>The structure and its storage\<close>

record string_t =
  st_data :: "byte list option"
  st_data_size :: nat
  st_memory_size :: nat

text \<open>\<open>calloc(n, 1)\<close>.\<close>

definition string_calloc :: "bool \<Rightarrow> nat \<Rightarrow> byte list option" where
  "string_calloc ok n = (if ok then Some (replicate n 0) else None)"

definition string_pages :: "nat \<Rightarrow> nat \<Rightarrow> nat" where
  "string_pages ps n = ps * (n div ps + (if n mod ps \<noteq> 0 then 1 else 0))"

text \<open>A loop that copies \<open>n\<close> bytes out of the data of a string; nothing is read when \<open>n\<close> is 0.\<close>

definition string_copy_out :: "byte list \<Rightarrow> string_t \<Rightarrow> nat \<Rightarrow> byte list option" where
  "string_copy_out p s n =
     (case st_data s of None \<Rightarrow> if n = 0 then Some p else None | Some d \<Rightarrow> mem_copy p 0 d 0 n)"

definition string_internal_adjust_storage :: "nat \<Rightarrow> bool \<Rightarrow> string_t option \<Rightarrow> nat \<Rightarrow> string_t option option" where
  "string_internal_adjust_storage ps ok string_ptr sz =
     (case string_ptr of
        None \<Rightarrow> Some None
      | Some s \<Rightarrow>
        let required_size = (st_data_size s + sz) mod 2 ^ 64;
            new_memory_size = string_pages ps required_size
        in if new_memory_size > st_memory_size s \<or> st_memory_size s > new_memory_size + 2 * ps
           then (case string_calloc ok new_memory_size of
                   None \<Rightarrow> Some (Some s)
                 | Some p \<Rightarrow> do {
                     p' \<leftarrow> string_copy_out p s (st_data_size s);
                     Some (Some (s\<lparr>st_data := Some p', st_memory_size := new_memory_size\<rparr>)) })
           else Some (Some s))"

definition string_allocate :: "nat \<Rightarrow> bool \<Rightarrow> bool \<Rightarrow> byte list option \<Rightarrow> string_t option option" where
  "string_allocate ps ok1 ok2 data =
     (case data of
        None \<Rightarrow> Some None
      | Some d \<Rightarrow>
        if \<not> ok1 then Some None
        else do {
          t \<leftarrow> c_string d;
          let mem = string_pages ps (length t);
          case string_calloc ok2 mem of
            None \<Rightarrow> Some (Some \<lparr>st_data = None, st_data_size = length t, st_memory_size = mem\<rparr>)
          | Some p \<Rightarrow> do {
              p' \<leftarrow> mem_copy p 0 d 0 (length t);
              Some (Some \<lparr>st_data = Some p', st_data_size = length t, st_memory_size = mem\<rparr>) } })"

definition string_allocate_default :: "nat \<Rightarrow> bool \<Rightarrow> bool \<Rightarrow> string_t option" where
  "string_allocate_default ps ok1 ok2 =
     (if ok1 then Some \<lparr>st_data = string_calloc ok2 ps, st_data_size = 0, st_memory_size = ps\<rparr> else None)"

definition string_allocate_length :: "nat \<Rightarrow> bool \<Rightarrow> bool \<Rightarrow> nat \<Rightarrow> string_t option" where
  "string_allocate_length ps ok1 ok2 slen =
     (if ok1
      then Some \<lparr>st_data = string_calloc ok2 (string_pages ps slen), st_data_size = 0, st_memory_size = string_pages ps slen\<rparr>
      else None)"

text \<open>\<open>formatted\<close> is the text that \<open>vsnprintf\<close> produces, or \<open>None\<close> when it answers a negative number.\<close>

definition string_allocate_formatted :: "nat \<Rightarrow> bool \<Rightarrow> bool \<Rightarrow> bool \<Rightarrow> byte list option \<Rightarrow> string_t option option" where
  "string_allocate_formatted ps ok1 ok2 format formatted =
     (if \<not> format then Some None
      else (case formatted of
        None \<Rightarrow> Some None
      | Some t \<Rightarrow>
        (case string_allocate_length ps ok1 ok2 (length t + 1) of
           None \<Rightarrow> Some None
         | Some s \<Rightarrow> do {
             d \<leftarrow> st_data s;
             d' \<leftarrow> mem_copy d 0 (t @ [0]) 0 (length t + 1);
             Some (Some (s\<lparr>st_data := Some d', st_data_size := length t\<rparr>)) })))"

text \<open>\<open>string_free(&p)\<close>: what \<open>p\<close> holds afterwards.\<close>

definition string_free :: "string_t option \<Rightarrow> string_t option" where
  "string_free str = None"

definition string_clear :: "string_t option \<Rightarrow> string_t option option" where
  "string_clear str =
     (case str of
        None \<Rightarrow> Some None
      | Some s \<Rightarrow>
        (case st_data s of
           None \<Rightarrow> Some (Some (s\<lparr>st_data_size := 0\<rparr>))
         | Some d \<Rightarrow> do {
             d' \<leftarrow> mem_fill d 0 0 (st_data_size s);
             Some (Some (s\<lparr>st_data := Some d', st_data_size := 0\<rparr>)) }))"

section \<open>Comparison and access\<close>

text \<open>The three comparisons share their guards; \<open>test\<close> is the test of \<open>memcmp\<close>'s answer.\<close>

definition string_compare_with :: "(int \<Rightarrow> bool) \<Rightarrow> string_t option \<Rightarrow> string_t option \<Rightarrow> bool option" where
  "string_compare_with test first second =
     (case (first, second) of
        (Some f, Some s) \<Rightarrow>
          (case (st_data f, st_data s) of
             (Some fd, Some sd) \<Rightarrow>
               if st_data_size f \<noteq> st_data_size s then Some False
               else map_option test (mem_cmp fd sd (st_data_size f))
           | _ \<Rightarrow> Some False)
      | _ \<Rightarrow> Some False)"

definition string_is_equal :: "string_t option \<Rightarrow> string_t option \<Rightarrow> bool option" where
  "string_is_equal = string_compare_with (\<lambda>c. c = 0)"

definition string_is_greater :: "string_t option \<Rightarrow> string_t option \<Rightarrow> bool option" where
  "string_is_greater = string_compare_with (\<lambda>c. c > 0)"

definition string_is_less :: "string_t option \<Rightarrow> string_t option \<Rightarrow> bool option" where
  "string_is_less = string_compare_with (\<lambda>c. c < 0)"

definition string_is_null :: "string_t option \<Rightarrow> bool" where
  "string_is_null ptr = (case ptr of None \<Rightarrow> True | Some s \<Rightarrow> st_data s = None)"

text \<open>Both read through the pointer without a test.\<close>

definition string_get_length :: "string_t option \<Rightarrow> nat option" where
  "string_get_length str = map_option st_data_size str"

definition string_c_str :: "string_t option \<Rightarrow> byte list option option" where
  "string_c_str str = map_option st_data str"

text \<open>
  \<open>mbs\<close> is \<open>mbstowcs\<close> on a C string, \<open>None\<close> when it fails; a wide string is the list of its
  characters before the terminator.
\<close>

definition string_c_to_wstr :: "(byte list \<Rightarrow> 32 word list option) \<Rightarrow> bool \<Rightarrow> byte list option \<Rightarrow> 32 word list option option" where
  "string_c_to_wstr mbs ok str =
     (case str of
        None \<Rightarrow> Some None
      | Some d \<Rightarrow> do { t \<leftarrow> c_string d; Some (case mbs t of None \<Rightarrow> None | Some w \<Rightarrow> if ok then Some (w @ [0]) else None) })"

definition string_to_wstr :: "(byte list \<Rightarrow> 32 word list option) \<Rightarrow> bool \<Rightarrow> string_t option \<Rightarrow> 32 word list option option" where
  "string_to_wstr mbs ok str = (case str of None \<Rightarrow> Some None | Some s \<Rightarrow> string_c_to_wstr mbs ok (st_data s))"

definition string_from_wstr :: "nat \<Rightarrow> bool \<Rightarrow> bool \<Rightarrow> bool \<Rightarrow> 32 word list option \<Rightarrow> string_t option option" where
  "string_from_wstr ps ok ok1 ok2 wstr =
     (case wstr of
        None \<Rightarrow> Some None
      | Some w \<Rightarrow>
        if 0 \<notin> set w then None
        else let str = map ucast (takeWhile (\<lambda>c. c \<noteq> 0) w) @ [0]
             in string_allocate ps ok1 ok2 (if ok then Some str else None))"

section \<open>Copying and appending\<close>

definition string_copy :: "nat \<Rightarrow> bool \<Rightarrow> string_t option \<Rightarrow> string_t option \<Rightarrow> (string_t option \<times> bool) option" where
  "string_copy ps ok dest orig =
     (case (dest, orig) of
        (Some d, Some q) \<Rightarrow>
          (case (st_data d, st_data q) of
             (Some _, Some od) \<Rightarrow> do {
               adjusted \<leftarrow> (if st_data_size q > st_data_size d then string_internal_adjust_storage ps ok dest (st_data_size q)
                 else Some dest);
               d1 \<leftarrow> adjusted;
               block \<leftarrow> st_data d1;
               cleared \<leftarrow> mem_fill block 0 0 (st_memory_size d1);
               copied \<leftarrow> mem_copy cleared 0 od 0 (st_data_size q);
               Some (Some (d1\<lparr>st_data := Some copied, st_data_size := st_data_size q\<rparr>), True) }
           | _ \<Rightarrow> Some (dest, False))
      | _ \<Rightarrow> Some (dest, False))"

text \<open>
  \<open>string_append(dest, data)\<close>.  The result is the string behind \<open>dest\<close> afterwards (the new one when \<open>dest\<close>
  was NULL) and whether the returned pointer differs from NULL.
\<close>

definition string_append :: "nat \<Rightarrow> bool \<Rightarrow> bool \<Rightarrow> string_t option \<Rightarrow> byte list option \<Rightarrow> (string_t option \<times> bool) option" where
  "string_append ps ok1 ok2 dest data =
     (case data of
        None \<Rightarrow> Some (dest, False)
      | Some src \<Rightarrow> do {
          t \<leftarrow> c_string src;
          if length t < 1 then Some (dest, False)
          else (case dest of
            None \<Rightarrow> do { nd \<leftarrow> string_allocate ps ok1 ok2 data; Some (nd, nd \<noteq> None) }
          | Some _ \<Rightarrow> do {
              adjusted \<leftarrow> string_internal_adjust_storage ps ok2 dest (length t);
              d \<leftarrow> adjusted;
              block \<leftarrow> st_data d;
              block' \<leftarrow> mem_copy block (st_data_size d) src 0 (length t);
              Some (Some (d\<lparr>st_data := Some block', st_data_size := st_data_size d + length t\<rparr>), True) }) })"

definition string_append_string ::
  "nat \<Rightarrow> bool \<Rightarrow> bool \<Rightarrow> string_t option \<Rightarrow> string_t option \<Rightarrow> (string_t option \<times> bool) option" where
  "string_append_string ps ok1 ok2 dest str = do { s \<leftarrow> str; string_append ps ok1 ok2 dest (st_data s) }"

text \<open>What \<open>%ld\<close> prints.\<close>

fun nat_digits :: "nat \<Rightarrow> byte list" where
  "nat_digits n = (if n < 10 then [of_nat (48 + n)] else nat_digits (n div 10) @ [of_nat (48 + n mod 10)])"

declare nat_digits.simps [simp del]

definition int_digits :: "int \<Rightarrow> byte list" where
  "int_digits i = (if i < 0 then 45 # nat_digits (nat (- i)) else nat_digits (nat i))"

text \<open>A text printed into an array of \<open>n\<close> zeroed bytes, with its terminator.\<close>

definition print_into :: "nat \<Rightarrow> byte list \<Rightarrow> byte list option" where
  "print_into n t = mem_copy (replicate n 0) 0 (t @ [0]) 0 (length t + 1)"

definition string_append_integer :: "nat \<Rightarrow> bool \<Rightarrow> bool \<Rightarrow> string_t option \<Rightarrow> int \<Rightarrow> (string_t option \<times> bool) option" where
  "string_append_integer ps ok1 ok2 dest data = do {
     buffer \<leftarrow> print_into 33 (int_digits data);
     string_append ps ok1 ok2 dest (Some buffer) }"

text \<open>\<open>shown\<close> is what \<open>%f\<close> or \<open>%.3e\<close> prints for the number; the array has 33 bytes.\<close>

definition string_append_real :: "nat \<Rightarrow> bool \<Rightarrow> bool \<Rightarrow> string_t option \<Rightarrow> byte list \<Rightarrow> (string_t option \<times> bool) option" where
  "string_append_real ps ok1 ok2 dest shown = do {
     buffer \<leftarrow> print_into 33 shown;
     string_append ps ok1 ok2 dest (Some buffer) }"

definition string_append_real_scientific ::
  "nat \<Rightarrow> bool \<Rightarrow> bool \<Rightarrow> string_t option \<Rightarrow> byte list \<Rightarrow> (string_t option \<times> bool) option" where
  "string_append_real_scientific ps ok1 ok2 dest shown = do {
     buffer \<leftarrow> print_into 33 shown;
     string_append ps ok1 ok2 dest (Some buffer) }"

definition string_append_char :: "nat \<Rightarrow> bool \<Rightarrow> bool \<Rightarrow> string_t option \<Rightarrow> byte \<Rightarrow> (string_t option \<times> bool) option" where
  "string_append_char ps ok1 ok2 dest data = string_append ps ok1 ok2 dest (Some [data, 0])"

definition string_append_boolean :: "nat \<Rightarrow> bool \<Rightarrow> bool \<Rightarrow> string_t option \<Rightarrow> bool \<Rightarrow> (string_t option \<times> bool) option" where
  "string_append_boolean ps ok1 ok2 dest data = do {
     buffer \<leftarrow> print_into 6 (bytes_of (if data then ''true'' else ''false''));
     string_append ps ok1 ok2 dest (Some buffer) }"

text \<open>\<open>%0kd\<close>: at least \<open>k\<close> characters, filled up with zeros behind the sign; \<open>tm\<close> is what \<open>localtime\<close> answers.\<close>

definition padded_digits :: "nat \<Rightarrow> int \<Rightarrow> byte list" where
  "padded_digits k i =
     (let d = nat_digits (nat \<bar>i\<bar>); sg = (if i < 0 then [45] else [])
      in sg @ replicate (k - length sg - length d) 48 @ d)"

definition string_append_curr_timestamp ::
  "nat \<Rightarrow> bool \<Rightarrow> bool \<Rightarrow> string_t option \<Rightarrow> int list \<Rightarrow> (string_t option \<times> bool) option" where
  "string_append_curr_timestamp ps ok1 ok2 dest tm =
     (if dest = None then Some (None, False)
      else (case tm of
        [ye, mo, md, ho, mi, se] \<Rightarrow> do {
          buffer \<leftarrow> print_into 129 (padded_digits 4 (ye + 1900) @ padded_digits 2 (mo + 1) @ padded_digits 2 md @
            padded_digits 2 ho @ padded_digits 2 mi @ padded_digits 2 se);
          string_append ps ok1 ok2 dest (Some buffer) }
      | _ \<Rightarrow> None))"

section \<open>The storage invariant\<close>

text \<open>
  \<open>string_rep ps p xs\<close>: the pointer \<open>p\<close> leads to a usable string of the characters \<open>xs\<close>: whole pages, zero
  behind the characters, no zero among them.  When the characters fill the pages there is no
  terminator.
\<close>

definition string_rep :: "nat \<Rightarrow> string_t option \<Rightarrow> byte list \<Rightarrow> bool" where
  "string_rep ps p xs \<longleftrightarrow>
     (\<exists>s n. p = Some s \<and> st_data s = Some (xs @ replicate n 0) \<and> st_data_size s = length xs \<and>
        st_memory_size s = length xs + n \<and> ps dvd st_memory_size s \<and> st_memory_size s \<le> SIZE_MAX \<and>
        0 < ps \<and> ps \<le> SIZE_MAX div 4 \<and> 0 \<notin> set xs)"

lemma string_repE:
  assumes "string_rep ps p xs"
  obtains s n where "p = Some s" "st_data s = Some (xs @ replicate n 0)" "st_data_size s = length xs"
    "st_memory_size s = length xs + n" "ps dvd length xs + n" "length xs + n \<le> SIZE_MAX" "0 < ps" "ps \<le> SIZE_MAX div 4" "0 \<notin> set xs"
  using assms unfolding string_rep_def by auto

lemma string_repI:
  "st_data s = Some (xs @ replicate n 0) \<Longrightarrow> st_data_size s = length xs \<Longrightarrow> st_memory_size s = length xs + n \<Longrightarrow>
   ps dvd length xs + n \<Longrightarrow> length xs + n \<le> SIZE_MAX \<Longrightarrow> 0 < ps \<Longrightarrow> ps \<le> SIZE_MAX div 4 \<Longrightarrow> 0 \<notin> set xs \<Longrightarrow> string_rep ps (Some s) xs"
  unfolding string_rep_def by auto

lemma string_pages_bounds:
  assumes "0 < ps"
  shows "n \<le> string_pages ps n" "string_pages ps n < n + ps" "ps dvd string_pages ps n"
proof -
  obtain q r where n: "n = q * ps + r" "r < ps" "n div ps = q" "n mod ps = r" using split_mod [OF assms] by metis
  show "n \<le> string_pages ps n" "string_pages ps n < n + ps" "ps dvd string_pages ps n"
    using n(2) unfolding string_pages_def n(3,4) by (auto simp: n(1) algebra_simps)
qed

lemma string_pages_mono:
  assumes "0 < ps" "ps dvd m" "n \<le> m"
  shows "string_pages ps n \<le> m"
proof -
  obtain k where m: "m = ps * k" using assms(2) by blast
  have "n div ps + (if n mod ps \<noteq> 0 then 1 else 0) \<le> k"
  proof (cases "n mod ps = 0")
    case True
    then show ?thesis using assms m by (simp add: div_le_mono div_less_iff_less_mult less_eq_div_iff_mult_less_eq) (metis assms(1) assms(3) div_le_mono nonzero_mult_div_cancel_left not_gr_zero)
  next
    case False
    then have "n < ps * k" using assms m by (metis le_neq_implies_less mod_mult_self1_is_0)
    then show ?thesis using False assms(1) by (simp add: Suc_le_eq div_less_iff_less_mult mult.commute)
  qed
  then show ?thesis using m unfolding string_pages_def by simp
qed

text \<open>Adjusting the storage keeps the characters, and makes room when memory is available.\<close>

lemma string_adjust_rep:
  assumes "string_rep ps p xs" "length xs + sz \<le> SIZE_MAX div 2"
  shows "\<exists>q. string_internal_adjust_storage ps ok p sz = Some q \<and> string_rep ps q xs \<and>
    (ok \<longrightarrow> length xs + sz \<le> st_memory_size (the q)) \<and>
    (st_memory_size (the p) \<ge> length xs + sz \<longrightarrow> length xs + sz \<le> st_memory_size (the q))"
proof -
  obtain s n where s: "p = Some s" "st_data s = Some (xs @ replicate n 0)" "st_data_size s = length xs"
    "st_memory_size s = length xs + n" "ps dvd length xs + n" "length xs + n \<le> SIZE_MAX" "0 < ps" "ps \<le> SIZE_MAX div 4" "0 \<notin> set xs"
    using assms(1) by (rule string_repE)
  let ?new = "string_pages ps (length xs + sz)"
  note b = string_pages_bounds [OF s(7), of "length xs + sz"]
  have new: "?new \<le> SIZE_MAX" using b(2) s(8) assms(2) by (simp add: SIZE_MAX_def)
  have req: "(st_data_size s + sz) mod 2 ^ 64 = length xs + sz" using s(3) assms(2) by (simp add: SIZE_MAX_def)
  show ?thesis
  proof (cases "?new > st_memory_size s \<or> st_memory_size s > ?new + 2 * ps")
    case False
    then show ?thesis using s b(1) assms(1) req by (auto simp: string_internal_adjust_storage_def Let_def)
  next
    case True
    have "mem_copy (replicate ?new 0) 0 (xs @ replicate n 0) 0 (length xs) = Some (xs @ replicate (?new - length xs) 0)"
      using b(1) by (simp add: mem_copy_def)
    moreover have "string_rep ps (Some (s\<lparr>st_data := Some (xs @ replicate (?new - length xs) 0), st_memory_size := ?new\<rparr>)) xs"
      by (rule string_repI [where n = "?new - length xs"]) (use s b new in simp_all)
    ultimately show ?thesis using True s b(1) assms(1) req
      by (cases ok) (auto simp: string_internal_adjust_storage_def Let_def string_calloc_def string_copy_out_def)
  qed
qed

section \<open>What each operation does\<close>

lemma string_allocate_rep:
  assumes "c_string d = Some t" "length t \<le> SIZE_MAX div 2" "0 < ps" "ps \<le> SIZE_MAX div 4"
  shows "\<exists>p. string_allocate ps True True (Some d) = Some p \<and> string_rep ps p t"
proof -
  obtain r where r: "d = t @ 0 # r" "0 \<notin> set t" using assms(1) by (rule c_stringE)
  note b = string_pages_bounds [OF assms(3), of "length t"]
  have "mem_copy (replicate (string_pages ps (length t)) 0) 0 d 0 (length t) =
      Some (t @ replicate (string_pages ps (length t) - length t) 0)"
    using r(1) b(1) by (simp add: mem_copy_def)
  then show ?thesis
    using assms r(2) b
    by (auto simp: string_allocate_def string_calloc_def SIZE_MAX_def Let_def intro!: string_repI [where n = "string_pages ps (length t) - length t"])
qed

lemma string_allocate_empty_rep:
  assumes "0 < ps" "ps \<le> SIZE_MAX div 4"
  shows "string_rep ps (string_allocate_default ps True True) []"
    "n \<le> SIZE_MAX div 2 \<Longrightarrow> string_rep ps (string_allocate_length ps True True n) []"
  using assms string_pages_bounds [OF assms(1), of n]
  by (auto simp: string_allocate_default_def string_allocate_length_def string_calloc_def SIZE_MAX_def
      intro: string_repI [where n = ps] string_repI [where n = "string_pages ps n"])

lemma string_append_rep:
  assumes "string_rep ps p xs" "c_string d = Some t" "t \<noteq> []" "length xs + length t \<le> SIZE_MAX div 2"
    "ok2 \<or> length xs + length t \<le> st_memory_size (the p)"
  shows "\<exists>q. string_append ps ok1 ok2 p (Some d) = Some (q, True) \<and> string_rep ps q (xs @ t)"
proof -
  obtain r where d: "d = t @ 0 # r" "0 \<notin> set t" using assms(2) by (rule c_stringE)
  obtain q where q: "string_internal_adjust_storage ps ok2 p (length t) = Some q" "string_rep ps q xs"
    "length xs + length t \<le> st_memory_size (the q)"
    using string_adjust_rep [OF assms(1,4), of ok2] assms(5) by blast
  obtain s n where s: "q = Some s" "st_data s = Some (xs @ replicate n 0)" "st_data_size s = length xs"
    "st_memory_size s = length xs + n" "ps dvd length xs + n" "length xs + n \<le> SIZE_MAX" "0 < ps" "ps \<le> SIZE_MAX div 4" "0 \<notin> set xs"
    using q(2) by (rule string_repE)
  have n: "length t \<le> n" using q(3) s(1,4) by simp
  obtain p0 where p0: "p = Some p0" using assms(1) by (auto simp: string_rep_def)
  have "mem_copy (xs @ replicate n 0) (length xs) d 0 (length t) = Some ((xs @ t) @ replicate (n - length t) 0)"
    using n d by (simp add: mem_copy_def)
  moreover have "string_rep ps (Some (s\<lparr>st_data := Some ((xs @ t) @ replicate (n - length t) 0), st_data_size := length xs + length t\<rparr>)) (xs @ t)"
    by (rule string_repI [where n = "n - length t"]) (use s n d in simp_all)
  ultimately show ?thesis using assms(2,3) p0 q(1) s(1-3) by (simp add: string_append_def Suc_le_eq)
qed

text \<open>The string is a text sink.\<close>

interpretation string_sink: text_sink "string_rep ps" "string_append ps ok1 True" "SIZE_MAX div 2"
  for ps ok1
proof
  fix s xs d t assume "string_rep ps s xs" "c_string d = Some t" "t \<noteq> []" "length xs + length t \<le> SIZE_MAX div 2"
  then show "\<exists>s'. string_append ps ok1 True s (Some d) = Some (s', True) \<and> string_rep ps s' (xs @ t)"
    using string_append_rep [of ps s xs d t True ok1] by simp
next
  fix s xs d assume "string_rep ps s xs" "c_string d = Some []"
  then show "string_append ps ok1 True s (Some d) = Some (s, False)" by (simp add: string_append_def)
qed

lemma string_clear_rep: "string_rep ps p xs \<Longrightarrow> \<exists>q. string_clear p = Some q \<and> string_rep ps q []"
  by (elim string_repE)
    (auto simp: string_clear_def mem_fill_def replicate_add [symmetric] intro: string_repI [where n = "length xs + n" for n])

lemma string_copy_rep:
  assumes "string_rep ps p xs" "string_rep ps q ys" "length xs + length ys \<le> SIZE_MAX div 2"
  shows "\<exists>r. string_copy ps True p q = Some (r, True) \<and> string_rep ps r ys"
proof -
  obtain s n where s: "p = Some s" "st_data s = Some (xs @ replicate n 0)" "st_data_size s = length xs"
    using assms(1) by (rule string_repE)
  obtain o1 m where o: "q = Some o1" "st_data o1 = Some (ys @ replicate m 0)" "st_data_size o1 = length ys" "0 \<notin> set ys"
    using assms(2) by (rule string_repE)
  obtain a where a: "(if st_data_size s < length ys then string_internal_adjust_storage ps True (Some s) (length ys)
      else Some (Some s)) = Some a" "string_rep ps a xs" "length ys \<le> st_memory_size (the a)"
    using string_adjust_rep [OF assms(1,3), of True] assms(1) s o(3)
    by (cases "st_data_size s < length ys") (fastforce elim: string_repE)+
  obtain d k where d: "a = Some d" "st_data d = Some (xs @ replicate k 0)" "st_data_size d = length xs"
    "st_memory_size d = length xs + k" "ps dvd length xs + k" "length xs + k \<le> SIZE_MAX" "0 < ps" "ps \<le> SIZE_MAX div 4"
    using a(2) by (rule string_repE)
  let ?n = "length xs + k"
  have "mem_fill (xs @ replicate k 0) 0 0 ?n = Some (replicate ?n 0)" by (simp add: mem_fill_def)
  moreover have "mem_copy (replicate ?n 0) 0 (ys @ replicate m 0) 0 (length ys) = Some (ys @ replicate (?n - length ys) 0)"
    using a(3) d(1,4) by (simp add: mem_copy_def)
  moreover have "string_rep ps (Some (d\<lparr>st_data := Some (ys @ replicate (?n - length ys) 0), st_data_size := length ys\<rparr>)) ys"
    by (rule string_repI [where n = "?n - length ys"]) (use a(3) d o(4) in simp_all)
  ultimately show ?thesis using s(1,2) o(1-3) a(1) d(1,2,4) 
    by (cases "st_data_size s < length ys") (simp_all add: string_copy_def)
qed

lemma string_get_rep: "string_rep ps p xs \<Longrightarrow> string_get_length p = Some (length xs)"
  by (auto elim!: string_repE simp: string_get_length_def)

lemma string_compare_rep:
  assumes "string_rep ps p xs" "string_rep ps q ys"
  shows "string_compare_with test p q = Some (length xs = length ys \<and> test (bytes_cmp xs ys))"
  using assms by (auto elim!: string_repE simp: string_compare_with_def)

section \<open>Printing numbers\<close>

lemma nat_digits_range: "c \<in> set (nat_digits n) \<Longrightarrow> \<exists>k < 10. c = of_nat (48 + k)"
proof (induction n rule: nat_digits.induct)
  case (1 n)
  then show ?case
    by (cases "n < 10") (auto simp: nat_digits.simps [of n] intro: exI [of _ n] exI [of _ "n mod 10"])
qed

lemma digit_byte: "k < 10 \<Longrightarrow> unat (of_nat (48 + k) :: byte) = 48 + k"
  unfolding unat_of_nat by simp

lemma nat_digits_no_zero: "0 \<notin> set (nat_digits n)"
proof
  assume "0 \<in> set (nat_digits n)"
  then obtain k where "k < 10" "(0 :: byte) = of_nat (48 + k)" using nat_digits_range by blast
  then show False using digit_byte [of k] by (metis add_is_0 unsigned_0 zero_neq_numeral)
qed

lemma length_nat_digits: "0 < k \<Longrightarrow> n < 10 ^ k \<Longrightarrow> length (nat_digits n) \<le> k"
proof (induction n arbitrary: k rule: nat_digits.induct)
  case (1 n)
  show ?case
  proof (cases "n < 10")
    case True
    then show ?thesis using "1.prems" by (simp add: nat_digits.simps [of n])
  next
    case False
    then obtain j where j: "k = Suc j" "0 < j" using "1.prems" by (cases k; cases "k - 1") auto
    then have "n div 10 < 10 ^ j" using "1.prems"(2) by (simp add: less_mult_imp_div_less mult.commute)
    then show ?thesis using "1.IH" [OF False j(2)] False j by (simp add: nat_digits.simps [of n])
  qed
qed

lemma nat_digits_nonempty: "nat_digits n \<noteq> []"
  by (subst nat_digits.simps) auto

definition is_long :: "int \<Rightarrow> bool" where
  "is_long i = (- (2 ^ 63) \<le> i \<and> i < 2 ^ 63)"

lemma int_digits_props: "0 \<notin> set (int_digits i)" "int_digits i \<noteq> []" "is_long i \<Longrightarrow> length (int_digits i) \<le> 20"
proof -
  show "0 \<notin> set (int_digits i)" "int_digits i \<noteq> []"
    by (simp_all add: int_digits_def nat_digits_no_zero nat_digits_nonempty)
  assume "is_long i"
  then have "nat \<bar>i\<bar> < 10 ^ 19" by (auto simp: is_long_def)
  then have "length (nat_digits (nat \<bar>i\<bar>)) \<le> 19" by (rule length_nat_digits [rotated]) simp
  then show "length (int_digits i) \<le> 20" by (auto simp: int_digits_def)
qed

lemma print_into_string: "0 \<notin> set t \<Longrightarrow> length t < n \<Longrightarrow> \<exists>d. print_into n t = Some d \<and> c_string d = Some t"
  by (auto simp: print_into_def mem_copy_def c_string_exact)

section \<open>Refinement of a character sequence\<close>

datatype string_op =
    Append_Text "byte list"
  | Append_Integer int
  | Append_Char byte
  | Append_Boolean bool
  | Clear_Text
  | Copy_Text "byte list"

text \<open>A text is handed over as a C string; \<open>string_copy\<close> gets a fresh string of it.\<close>

fun string_step :: "nat \<Rightarrow> string_op \<Rightarrow> string_t option \<Rightarrow> string_t option option" where
  "string_step ps (Append_Text t) p = map_option fst (string_append ps True True p (Some (t @ [0])))"
| "string_step ps (Append_Integer i) p = map_option fst (string_append_integer ps True True p i)"
| "string_step ps (Append_Char c) p = map_option fst (string_append_char ps True True p c)"
| "string_step ps (Append_Boolean b) p = map_option fst (string_append_boolean ps True True p b)"
| "string_step ps Clear_Text p = string_clear p"
| "string_step ps (Copy_Text t) p = do {
     q \<leftarrow> string_allocate ps True True (Some (t @ [0]));
     map_option fst (string_copy ps True p q) }"

fun string_run :: "nat \<Rightarrow> string_op list \<Rightarrow> string_t option \<Rightarrow> string_t option option" where
  "string_run ps [] p = Some p"
| "string_run ps (op # ops) p = do { q \<leftarrow> string_step ps op p; string_run ps ops q }"

text \<open>What each operation does to the characters, and how many characters it can add.\<close>

fun text_step :: "string_op \<Rightarrow> byte list \<Rightarrow> byte list" where
  "text_step (Append_Text t) xs = xs @ t"
| "text_step (Append_Integer i) xs = xs @ int_digits i"
| "text_step (Append_Char c) xs = (if c = 0 then xs else xs @ [c])"
| "text_step (Append_Boolean b) xs = xs @ bytes_of (if b then ''true'' else ''false'')"
| "text_step Clear_Text xs = []"
| "text_step (Copy_Text t) xs = t"

fun string_op_ok :: "string_op \<Rightarrow> bool" where
  "string_op_ok (Append_Text t) = (0 \<notin> set t)"
| "string_op_ok (Append_Integer i) = is_long i"
| "string_op_ok (Copy_Text t) = (0 \<notin> set t)"
| "string_op_ok _ = True"

fun string_op_size :: "string_op \<Rightarrow> nat" where
  "string_op_size (Append_Text t) = length t"
| "string_op_size (Copy_Text t) = length t"
| "string_op_size _ = 20"

lemma string_step_refines:
  assumes "string_rep ps p xs" "string_op_ok op" "length xs + string_op_size op \<le> SIZE_MAX div 2"
  shows "\<exists>q. string_step ps op p = Some q \<and> string_rep ps q (text_step op xs) \<and>
    length (text_step op xs) \<le> length xs + string_op_size op"
proof (cases op)
  case (Append_Text t)
  then show ?thesis
    using string_sink.app_any [OF assms(1), of "t @ [0]" t True] c_string_exact [of t "[]"] assms(2,3) by auto
next
  case (Append_Integer i)
  note di = int_digits_props [of i]
  obtain d where "print_into 33 (int_digits i) = Some d" "c_string d = Some (int_digits i)"
    using print_into_string [OF di(1), of 33] di(3) assms(2) Append_Integer by auto
  then show ?thesis
    using string_sink.app_any [OF assms(1), of d "int_digits i" True] di(3) assms(2,3) Append_Integer
    by (auto simp: string_append_integer_def)
next
  case (Append_Char c)
  have "c_string [c, 0] = Some (if c = 0 then [] else [c])" by (simp add: c_string_def)
  then show ?thesis
    using string_sink.app_any [OF assms(1), of "[c, 0]" "if c = 0 then [] else [c]" True] assms(3) Append_Char
    by (auto simp: string_append_char_def split: if_splits)
next
  case (Append_Boolean b)
  let ?t = "bytes_of (if b then ''true'' else ''false'')"
  have t: "0 \<notin> set ?t" "length ?t < 6" by (auto simp: bytes_of_def)
  obtain d where "print_into 6 ?t = Some d" "c_string d = Some ?t" using print_into_string [OF t] by blast
  then show ?thesis
    using string_sink.app_any [OF assms(1), of d ?t True] t(2) assms(3) Append_Boolean
    by (auto simp: string_append_boolean_def)
next
  case Clear_Text
  then show ?thesis using string_clear_rep [OF assms(1)] by auto
next
  case (Copy_Text t)
  have "0 < ps" "ps \<le> SIZE_MAX div 4" using assms(1) by (auto elim: string_repE)
  then obtain q where "string_allocate ps True True (Some (t @ [0])) = Some q" "string_rep ps q t"
    using string_allocate_rep [of "t @ [0]" t ps] c_string_exact [of t "[]"] assms(2,3) Copy_Text by auto
  then show ?thesis using string_copy_rep [OF assms(1), of q t] assms(3) Copy_Text by auto
qed

lemma string_run_refines_aux:
  "string_rep ps p xs \<Longrightarrow> list_all string_op_ok ops \<Longrightarrow> length xs + sum_list (map string_op_size ops) \<le> SIZE_MAX div 2 \<Longrightarrow>
   \<exists>q. string_run ps ops p = Some q \<and> string_rep ps q (foldl (\<lambda>xs op. text_step op xs) xs ops)"
proof (induction ops arbitrary: p xs)
  case (Cons op ops)
  then obtain q where q: "string_step ps op p = Some q" "string_rep ps q (text_step op xs)"
    "length (text_step op xs) \<le> length xs + string_op_size op"
    using string_step_refines [of ps p xs op] by auto
  then show ?case using Cons.IH [OF q(2)] Cons.prems(2,3) by simp
qed simp

text \<open>
  C14: strings refine character sequences.  With memory available, every sequence of appends (texts,
  integers, characters, booleans), clears and copies on a usable string ends without touching memory
  outside its block, and leaves a usable string that holds exactly the characters the same operations
  give on the sequence, as long as the total stays below half of the address space.
\<close>

theorem string_run_refines:
  assumes "string_rep ps p xs" "list_all string_op_ok ops" "length xs + sum_list (map string_op_size ops) \<le> SIZE_MAX div 2"
  shows "\<exists>q. string_run ps ops p = Some q \<and> string_rep ps q (foldl (\<lambda>xs op. text_step op xs) xs ops)"
  using assms by (rule string_run_refines_aux)

theorem string_run_refines_witness:
  "\<exists>q. string_run 4096 [Append_Text [65], Append_Char 66, Copy_Text [67]] (string_allocate_default 4096 True True) = Some q \<and>
     string_rep 4096 q [67]"
  using string_run_refines [OF string_allocate_empty_rep(1), of 4096 "[Append_Text [65], Append_Char 66, Copy_Text [67]]"]
  by (simp add: SIZE_MAX_def)

text \<open>
  A full page has no terminator.  A string whose length is a positive multiple of the page size ends exactly at the
  end of its block: \<open>string_allocate\<close> makes it so, and its data is no C string any more.
\<close>

theorem string_page_unterminated:
  assumes "0 \<notin> set t" "ps dvd length t" "0 < ps"
  shows "\<exists>s. string_allocate ps True True (Some (t @ [0])) = Some (Some s) \<and> st_data s = Some t \<and>
    st_memory_size s = length t \<and> c_string t = None"
proof -
  obtain k where k: "length t = ps * k" using assms(2) by blast
  then have "string_pages ps (length t) = length t" using assms(3) by (simp add: string_pages_def)
  moreover have "c_string (t @ [0]) = Some t" by (rule c_string_exact [OF assms(1)])
  moreover have "c_string t = None" using assms(1) by (simp add: c_string_def)
  ultimately show ?thesis by (simp add: string_allocate_def string_calloc_def mem_copy_def Let_def)
qed

theorem string_page_unterminated_witness:
  "\<exists>s. string_allocate 4 True True (Some ([65, 66, 67, 68] @ [0])) = Some (Some s) \<and> st_data s = Some [65, 66, 67, 68]"
proof -
  have e: "length [65, 66, 67, 68 :: byte] = 4" by simp
  have "4 dvd length [65, 66, 67, 68 :: byte]" unfolding e by (rule dvd_refl)
  from string_page_unterminated [OF _ this] show ?thesis by fastforce
qed

end
