(* ===== verification/StringOps.thy ===== *)
theory StringOps
  imports StringEx
begin

text \<open>
  The strings of \<open>core/src/stringex.c\<close>, second part: searching, changing case, trimming, removing and
  replacing.  These functions read the data as a C string; where the C code copies a string onto an
  overlapping place with \<open>strcpy\<close>, the model copies the bytes in ascending order, which the C standard
  does not promise.
\<close>

section \<open>C strings inside a block\<close>

text \<open>\<open>strlen(data)\<close>, \<open>strlen(data + i)\<close>.\<close>

definition str_len :: "byte list \<Rightarrow> nat option" where
  "str_len d = map_option length (c_string d)"

text \<open>\<open>strstr\<close>: the first place where the second string stands.\<close>

fun str_find :: "byte list \<Rightarrow> byte list \<Rightarrow> nat option" where
  "str_find sub [] = (if sub = [] then Some 0 else None)"
| "str_find sub (c # s) =
     (if take (length sub) (c # s) = sub then Some 0 else map_option Suc (str_find sub s))"

text \<open>\<open>strcpy(data + dst, data + src)\<close> inside one block, in ascending order.\<close>

definition str_move :: "byte list \<Rightarrow> nat \<Rightarrow> nat \<Rightarrow> byte list option" where
  "str_move d dst src =
     (if src > length d then None
      else do { t \<leftarrow> c_string (drop src d); mem_copy d dst (t @ [0]) 0 (length t + 1) })"

text \<open>The end of most functions: \<open>str->data_size = strlen(str->data)\<close>.\<close>

definition string_set_data :: "string_t \<Rightarrow> byte list \<Rightarrow> string_t option option" where
  "string_set_data s d = do { n \<leftarrow> str_len d; Some (Some (s\<lparr>st_data := Some d, st_data_size := n\<rparr>)) }"

section \<open>Searching\<close>

definition string_index_of_substr :: "string_t option \<Rightarrow> string_t option \<Rightarrow> int option" where
  "string_index_of_substr str substr =
     (case (str, substr) of
        (Some a, Some b) \<Rightarrow>
          (case (st_data a, st_data b) of
             (Some d, Some e) \<Rightarrow> do {
               s \<leftarrow> c_string d;
               t \<leftarrow> c_string e;
               Some (case str_find t s of None \<Rightarrow> -1 | Some k \<Rightarrow> int k) }
           | _ \<Rightarrow> Some (-1))
      | _ \<Rightarrow> Some (-1))"

fun char_loop :: "byte list \<Rightarrow> byte \<Rightarrow> nat \<Rightarrow> int option" where
  "char_loop [] ch ctr = None"
| "char_loop (c # d) ch ctr = (if c = 0 then Some (-1) else if c = ch then Some (int ctr) else char_loop d ch (ctr + 1))"

definition string_index_of_char :: "string_t option \<Rightarrow> byte \<Rightarrow> int option" where
  "string_index_of_char str ch = do { s \<leftarrow> str; d \<leftarrow> st_data s; char_loop d ch 0 }"

lemma str_find_bound: "str_find sub s = Some k \<Longrightarrow> k + length sub \<le> length s"
proof (induction s arbitrary: k)
  case (Cons c s)
  show ?case
  proof (cases "take (length sub) (c # s) = sub")
    case True
    have "length sub = length (take (length sub) (c # s))" using True by simp
    then have "length sub \<le> Suc (length s)" by simp
    then show ?thesis using Cons.prems True by simp
  next
    case False
    then show ?thesis using Cons by auto
  qed
qed (simp split: if_splits)

text \<open>The loop of \<open>string_count_substr\<close> on what is left behind \<open>pos\<close>.\<close>

function count_substr_loop :: "byte list \<Rightarrow> byte list \<Rightarrow> nat \<Rightarrow> nat" where
  "count_substr_loop sub s n =
     (if sub = [] then n
      else case str_find sub s of None \<Rightarrow> n | Some k \<Rightarrow> count_substr_loop sub (drop (k + length sub) s) (n + 1))"
  by pat_completeness auto

termination
  by (relation "measure (\<lambda>(sub, s, n). length s)") (auto dest!: str_find_bound simp flip: length_greater_0_conv)

declare count_substr_loop.simps [simp del]

definition string_count_substr :: "string_t option \<Rightarrow> string_t option \<Rightarrow> nat option" where
  "string_count_substr str substr =
     (case (str, substr) of
        (Some a, Some b) \<Rightarrow>
          (case (st_data a, st_data b) of
             (Some d, Some e) \<Rightarrow> do {
               sub \<leftarrow> c_string e;
               if sub = [] then Some 0 else do { s \<leftarrow> c_string d; Some (count_substr_loop sub s 0) } }
           | _ \<Rightarrow> Some 0)
      | _ \<Rightarrow> Some 0)"

fun count_char_loop :: "byte list \<Rightarrow> byte \<Rightarrow> nat \<Rightarrow> nat option" where
  "count_char_loop [] ch ctr = None"
| "count_char_loop (c # d) ch ctr =
     (if c = 0 then Some ctr else count_char_loop d ch (if c = ch then ctr + 1 else ctr))"

definition string_count_char :: "string_t option \<Rightarrow> byte \<Rightarrow> nat option" where
  "string_count_char str ch = do { s \<leftarrow> str; d \<leftarrow> st_data s; count_char_loop d ch 0 }"

section \<open>Reversing, case, trimming\<close>

text \<open>
  \<open>string_segment_reverse\<close> swaps from both ends; \<open>string_reverse\<close> starts it with
  \<open>data_size - 1\<close>, which wraps around for an empty string.
\<close>

function reverse_loop :: "byte list \<Rightarrow> nat \<Rightarrow> nat \<Rightarrow> byte list option" where
  "reverse_loop d start term =
     (if start < term
      then (case (mem_read d start, mem_read d term) of
              (Some a, Some b) \<Rightarrow> reverse_loop (d[start := b, term := a]) (start + 1) (term - 1)
            | _ \<Rightarrow> None)
      else Some d)"
  by pat_completeness auto
termination by (relation "measure (\<lambda>(d, start, term). term - start)") auto

declare reverse_loop.simps [simp del]

definition string_reverse :: "string_t option \<Rightarrow> string_t option option" where
  "string_reverse str = do {
     s \<leftarrow> str;
     let term = size_sub (st_data_size s) 1;
     d \<leftarrow> (case st_data s of None \<Rightarrow> if term = 0 then Some [] else None | Some d \<Rightarrow> reverse_loop d 0 term);
     Some (Some (if st_data s = None then s else s\<lparr>st_data := Some d\<rparr>)) }"

definition string_segment_reverse :: "string_t option \<Rightarrow> nat \<Rightarrow> nat \<Rightarrow> string_t option option" where
  "string_segment_reverse str start term =
     (if start < term
      then do { s \<leftarrow> str; d \<leftarrow> st_data s; d' \<leftarrow> reverse_loop d start term; Some (Some (s\<lparr>st_data := Some d'\<rparr>)) }
      else Some str)"

text \<open>A loop that changes every character before the terminator.\<close>

fun map_loop :: "(byte \<Rightarrow> byte) \<Rightarrow> byte list \<Rightarrow> byte list option" where
  "map_loop f [] = None"
| "map_loop f (c # d) = (if c = 0 then Some (c # d) else map_option ((#) (f c)) (map_loop f d))"

definition lower_char :: "byte \<Rightarrow> byte" where
  "lower_char c = (if 65 \<le> c \<and> c \<le> 90 then c + 32 else c)"

definition upper_char :: "byte \<Rightarrow> byte" where
  "upper_char c = (if 97 \<le> c \<and> c \<le> 122 then c - 32 else c)"

definition string_map :: "(byte \<Rightarrow> byte) \<Rightarrow> string_t option \<Rightarrow> string_t option option" where
  "string_map f str = do { s \<leftarrow> str; d \<leftarrow> st_data s; d' \<leftarrow> map_loop f d; Some (Some (s\<lparr>st_data := Some d'\<rparr>)) }"

definition string_to_lower :: "string_t option \<Rightarrow> string_t option option" where
  "string_to_lower = string_map lower_char"

definition string_to_upper :: "string_t option \<Rightarrow> string_t option option" where
  "string_to_upper = string_map upper_char"

text \<open>\<open>isspace\<close> of the C locale.\<close>

definition is_space :: "byte \<Rightarrow> bool" where
  "is_space c = (c = 32 \<or> (9 \<le> c \<and> c \<le> 13))"

text \<open>\<open>atoi\<close>: white space, a sign, digits.\<close>

definition dec_digit :: "byte \<Rightarrow> bool" where
  "dec_digit c = (48 \<le> c \<and> c \<le> 57)"

definition dec_value :: "byte list \<Rightarrow> int" where
  "dec_value ds = foldl (\<lambda>v d. 10 * v + (uint d - 48)) 0 (takeWhile dec_digit ds)"

definition atoi_text :: "byte list \<Rightarrow> int" where
  "atoi_text s =
     (case dropWhile is_space s of
        [] \<Rightarrow> 0
      | c # cs \<Rightarrow> if c = 45 then - dec_value cs else if c = 43 then dec_value cs else dec_value (c # cs))"

text \<open>The three loops of \<open>string_left_trim\<close>.\<close>

function skip_space :: "byte list \<Rightarrow> nat \<Rightarrow> nat option" where
  "skip_space d i = (case mem_read d i of None \<Rightarrow> None | Some c \<Rightarrow> if is_space c then skip_space d (i + 1) else Some i)"
  by pat_completeness auto
termination by (relation "measure (\<lambda>(d, i). length d - i)") (auto simp: mem_read_def split: if_splits)

function copy_down :: "byte list \<Rightarrow> nat \<Rightarrow> nat \<Rightarrow> (byte list \<times> nat) option" where
  "copy_down d ptr ctr =
     (case mem_read d ptr of
        None \<Rightarrow> None
      | Some c \<Rightarrow> if c \<noteq> 0 then copy_down (d[ctr := c]) (ptr + 1) (ctr + 1) else Some (d, ctr))"
  by pat_completeness auto
termination by (relation "measure (\<lambda>(d, ptr, ctr). length d - ptr)") (auto simp: mem_read_def split: if_splits)

function zero_until :: "byte list \<Rightarrow> nat \<Rightarrow> byte list option" where
  "zero_until d ctr =
     (case mem_read d ctr of None \<Rightarrow> None | Some c \<Rightarrow> if c \<noteq> 0 then zero_until (d[ctr := 0]) (ctr + 1) else Some d)"
  by pat_completeness auto
termination by (relation "measure (\<lambda>(d, ctr). length d - ctr)") (auto simp: mem_read_def split: if_splits)

declare skip_space.simps [simp del] copy_down.simps [simp del] zero_until.simps [simp del]

definition string_left_trim :: "string_t option \<Rightarrow> string_t option option" where
  "string_left_trim str = do {
     s \<leftarrow> str;
     d \<leftarrow> st_data s;
     ptr \<leftarrow> skip_space d 0;
     (d1, ctr) \<leftarrow> copy_down d ptr 0;
     d2 \<leftarrow> zero_until d1 ctr;
     string_set_data s d2 }"

text \<open>The loop of \<open>string_right_trim\<close>; \<open>n\<close> is \<open>ctr + 1\<close>.\<close>

fun right_trim_loop :: "byte list \<Rightarrow> nat \<Rightarrow> byte list option" where
  "right_trim_loop d 0 = Some d"
| "right_trim_loop d (Suc n) =
     (case mem_read d n of None \<Rightarrow> None | Some c \<Rightarrow> if is_space c then right_trim_loop (d[n := 0]) n else Some d)"

definition string_right_trim :: "string_t option \<Rightarrow> string_t option option" where
  "string_right_trim str = do {
     s \<leftarrow> str;
     d \<leftarrow> st_data s;
     d' \<leftarrow> right_trim_loop d (st_data_size s);
     string_set_data s d' }"

definition string_all_trim :: "string_t option \<Rightarrow> string_t option option" where
  "string_all_trim str = do { r \<leftarrow> string_right_trim str; string_left_trim r }"

section \<open>Removing\<close>

text \<open>One removal: shift the rest down, then clear the byte at \<open>data_size - offset\<close>.\<close>

definition remove_shift :: "byte list \<Rightarrow> nat \<Rightarrow> nat \<Rightarrow> nat \<Rightarrow> byte list option" where
  "remove_shift d data_size pos offset = do {
     d1 \<leftarrow> str_move d pos (pos + offset);
     mem_write d1 (size_sub data_size offset) 0 }"

definition string_remove_substr_first :: "string_t option \<Rightarrow> string_t option \<Rightarrow> string_t option option" where
  "string_remove_substr_first str substr = do {
     sub \<leftarrow> substr;
     pos \<leftarrow> string_index_of_substr str substr;
     s \<leftarrow> str;
     d \<leftarrow> st_data s;
     d' \<leftarrow> (if pos \<ge> 0 then remove_shift d (st_data_size s) (nat pos) (st_data_size sub) else Some d);
     string_set_data s d' }"

text \<open>\<open>data_size\<close> does not change during the loop of \<open>string_remove_substr_all\<close>.\<close>

partial_function (option) remove_substr_loop :: "string_t \<Rightarrow> string_t \<Rightarrow> byte list \<Rightarrow> byte list option" where
  "remove_substr_loop s sub d = do {
     pos \<leftarrow> string_index_of_substr (Some (s\<lparr>st_data := Some d\<rparr>)) (Some sub);
     if pos \<ge> 0
     then do { d' \<leftarrow> remove_shift d (st_data_size s) (nat pos) (st_data_size sub); remove_substr_loop s sub d' }
     else Some d }"

definition string_remove_substr_all :: "string_t option \<Rightarrow> string_t option \<Rightarrow> string_t option option" where
  "string_remove_substr_all str substr = do {
     sub \<leftarrow> substr;
     s \<leftarrow> str;
     d \<leftarrow> st_data s;
     d' \<leftarrow> remove_substr_loop s sub d;
     string_set_data s d' }"

definition string_remove_substr_at :: "string_t option \<Rightarrow> nat \<Rightarrow> nat \<Rightarrow> string_t option option" where
  "string_remove_substr_at str pos len = do {
     s \<leftarrow> str;
     d \<leftarrow> st_data s;
     d' \<leftarrow> (if pos \<le> size_sub (st_data_size s) 1 then remove_shift d (st_data_size s) pos len else Some d);
     string_set_data s d' }"

definition string_remove_end :: "string_t option \<Rightarrow> nat \<Rightarrow> string_t option option" where
  "string_remove_end str len =
     (case str of
        None \<Rightarrow> Some None
      | Some s \<Rightarrow>
        (case st_data s of
           None \<Rightarrow> Some str
         | Some d \<Rightarrow> do {
             cur_len \<leftarrow> str_len d;
             if len \<ge> cur_len then do { d' \<leftarrow> mem_fill d 0 0 (st_data_size s); Some (Some (s\<lparr>st_data := Some d'\<rparr>)) }
             else do {
               let new_len = cur_len - len;
               d1 \<leftarrow> mem_write d new_len 0;
               d2 \<leftarrow> (if st_data_size s > new_len + 1 then mem_fill d1 (new_len + 1) 0 (st_data_size s - (new_len + 1))
                      else Some d1);
               string_set_data s d2 } }))"

definition string_remove_start :: "string_t option \<Rightarrow> nat \<Rightarrow> string_t option option" where
  "string_remove_start str len =
     (case str of
        None \<Rightarrow> Some None
      | Some s \<Rightarrow>
        (case st_data s of
           None \<Rightarrow> Some str
         | Some d \<Rightarrow> do {
             cur_len \<leftarrow> str_len d;
             if len = 0 \<or> cur_len = 0 then Some str
             else if len \<ge> cur_len then do { d' \<leftarrow> mem_fill d 0 0 (st_data_size s); Some (Some (s\<lparr>st_data := Some d'\<rparr>)) }
             else do {
               d1 \<leftarrow> mem_copy d 0 d len (cur_len - len + 1);
               new_len \<leftarrow> str_len d1;
               d2 \<leftarrow> (if st_data_size s > new_len + 1 then mem_fill d1 (new_len + 1) 0 (st_data_size s - (new_len + 1))
                      else Some d1);
               string_set_data s d2 } }))"

text \<open>The loop of \<open>string_remove_char_first\<close>: the block and the index where it ends.\<close>

function remove_char_loop :: "byte \<Rightarrow> byte list \<Rightarrow> nat \<Rightarrow> bool \<Rightarrow> (byte list \<times> nat) option" where
  "remove_char_loop old d i found =
     (case mem_read d i of
        None \<Rightarrow> None
      | Some c \<Rightarrow>
        if c = 0 then Some (d, i)
        else if found \<or> c = old
        then (case mem_read d (i + 1) of None \<Rightarrow> None | Some c' \<Rightarrow> remove_char_loop old (d[i := c']) (i + 1) True)
        else remove_char_loop old d (i + 1) False)"
  by pat_completeness auto
termination by (relation "measure (\<lambda>(old, d, i, f). length d - i)") (auto simp: mem_read_def split: if_splits)

declare remove_char_loop.simps [simp del]

definition string_remove_char_first :: "string_t option \<Rightarrow> byte \<Rightarrow> string_t option option" where
  "string_remove_char_first str oldchar =
     (case str of
        None \<Rightarrow> Some None
      | Some s \<Rightarrow>
        (case st_data s of
           None \<Rightarrow> Some str
         | Some d \<Rightarrow> do {
             (d1, cur_len) \<leftarrow> remove_char_loop oldchar d 0 False;
             d2 \<leftarrow> (if cur_len + 1 < st_data_size s then mem_fill d1 (cur_len + 1) 0 (st_data_size s - (cur_len + 1)) else Some d1);
             string_set_data s d2 }))"

partial_function (option) remove_char_all_loop :: "string_t \<Rightarrow> byte \<Rightarrow> byte list \<Rightarrow> byte list option" where
  "remove_char_all_loop s ch d = do {
     pos \<leftarrow> char_loop d ch 0;
     if pos \<ge> 0
     then do { d' \<leftarrow> remove_shift d (st_data_size s) (nat pos) 1; remove_char_all_loop s ch d' }
     else Some d }"

definition string_remove_char_all :: "string_t option \<Rightarrow> byte \<Rightarrow> string_t option option" where
  "string_remove_char_all str oldchar = do {
     s \<leftarrow> str;
     d \<leftarrow> st_data s;
     d' \<leftarrow> remove_char_all_loop s oldchar d;
     string_set_data s d' }"

definition string_remove_char_at :: "string_t option \<Rightarrow> nat \<Rightarrow> string_t option option" where
  "string_remove_char_at str pos = do {
     s \<leftarrow> str;
     d \<leftarrow> st_data s;
     d' \<leftarrow> remove_shift d (st_data_size s) pos 1;
     string_set_data s d' }"

section \<open>Replacing\<close>

text \<open>
  The loops that move the part behind the match, its terminator included, and copy the new text in.
  Both directions are written so that no byte is overwritten before it is read.
\<close>

definition replace_at :: "byte list \<Rightarrow> nat \<Rightarrow> nat \<Rightarrow> nat \<Rightarrow> byte list \<Rightarrow> nat \<Rightarrow> byte list option" where
  "replace_at d slen pos oldslen newdata newslen = do {
     d1 \<leftarrow> (if newslen \<noteq> oldslen then mem_copy d (pos + newslen) d (pos + oldslen) (slen + 1 - (pos + oldslen)) else Some d);
     mem_copy d1 pos newdata 0 newslen }"

text \<open>The result is the string afterwards and whether the returned pointer differs from NULL.\<close>

definition string_replace_substr_first ::
  "nat \<Rightarrow> bool \<Rightarrow> string_t option \<Rightarrow> string_t option \<Rightarrow> string_t option \<Rightarrow> (string_t option \<times> bool) option" where
  "string_replace_substr_first ps ok str oldsubstr newsubstr =
     (case (str, oldsubstr, newsubstr) of
        (Some s, Some old, Some new) \<Rightarrow> do {
          pos \<leftarrow> string_index_of_substr str oldsubstr;
          if pos < 0 then Some (str, True)
          else if st_data_size old < 1 then Some (str, False)
          else do {
            let new_size = size_sub (st_data_size s + st_data_size new) (st_data_size old);
            adjusted \<leftarrow> (if new_size > st_memory_size s
              then string_internal_adjust_storage ps ok str (size_sub new_size (st_data_size s)) else Some str);
            s1 \<leftarrow> adjusted;
            d \<leftarrow> st_data s1;
            d' \<leftarrow> replace_at d (st_data_size s) (nat pos) (st_data_size old)
              (case st_data new of None \<Rightarrow> [] | Some nd \<Rightarrow> nd) (st_data_size new);
            r \<leftarrow> string_internal_adjust_storage ps ok (Some (s1\<lparr>st_data := Some d', st_data_size := new_size\<rparr>)) 0;
            Some (r, True) } }
      | _ \<Rightarrow> Some (str, False))"

partial_function (option) replace_substr_loop ::
  "nat \<Rightarrow> bool \<Rightarrow> string_t \<Rightarrow> string_t \<Rightarrow> string_t \<Rightarrow> string_t option" where
  "replace_substr_loop ps ok old new s = do {
     pos \<leftarrow> string_index_of_substr (Some s) (Some old);
     if pos \<ge> 0
     then do {
       let new_size = size_sub (st_data_size s + st_data_size new) (st_data_size old);
       adjusted \<leftarrow> string_internal_adjust_storage ps ok (Some s) (size_sub new_size (st_data_size s));
       s1 \<leftarrow> adjusted;
       d \<leftarrow> st_data s1;
       d1 \<leftarrow> replace_at d (st_data_size s1) (nat pos) (st_data_size old)
         (case st_data new of None \<Rightarrow> [] | Some nd \<Rightarrow> nd) (st_data_size new);
       d2 \<leftarrow> mem_write d1 new_size 0;
       replace_substr_loop ps ok old new (s1\<lparr>st_data := Some d2, st_data_size := new_size\<rparr>) }
     else Some s }"

definition string_replace_substr_all ::
  "nat \<Rightarrow> bool \<Rightarrow> string_t option \<Rightarrow> string_t option \<Rightarrow> string_t option \<Rightarrow> (string_t option \<times> bool) option" where
  "string_replace_substr_all ps ok str oldsubstr newsubstr =
     (case (str, oldsubstr, newsubstr) of
        (Some s, Some old, Some new) \<Rightarrow>
          if st_data_size old < 1 then Some (str, True)
          else do { r \<leftarrow> replace_substr_loop ps ok old new s; Some (Some r, True) }
      | _ \<Rightarrow> Some (str, False))"

fun replace_char_loop :: "byte \<Rightarrow> byte \<Rightarrow> byte list \<Rightarrow> byte list option" where
  "replace_char_loop old new [] = None"
| "replace_char_loop old new (c # d) =
     (if c = 0 then Some (c # d) else if c = old then Some (new # d) else map_option ((#) c) (replace_char_loop old new d))"

definition string_replace_char_first :: "string_t option \<Rightarrow> byte \<Rightarrow> byte \<Rightarrow> string_t option option" where
  "string_replace_char_first str oldchar newchar =
     (case str of
        None \<Rightarrow> Some None
      | Some s \<Rightarrow> do { d \<leftarrow> st_data s; d' \<leftarrow> replace_char_loop oldchar newchar d; Some (Some (s\<lparr>st_data := Some d'\<rparr>)) })"

definition string_replace_char_all :: "string_t option \<Rightarrow> byte \<Rightarrow> byte \<Rightarrow> string_t option option" where
  "string_replace_char_all str oldchar newchar =
     (case str of None \<Rightarrow> Some None | Some _ \<Rightarrow> string_map (\<lambda>c. if c = oldchar then newchar else c) str)"

definition string_replace_char_at :: "string_t option \<Rightarrow> byte \<Rightarrow> nat \<Rightarrow> (string_t option \<times> bool) option" where
  "string_replace_char_at str newchar pos =
     (case str of
        None \<Rightarrow> Some (str, False)
      | Some s \<Rightarrow>
        if pos < st_data_size s
        then do { d \<leftarrow> st_data s; d' \<leftarrow> mem_write d pos newchar; Some (Some (s\<lparr>st_data := Some d'\<rparr>), True) }
        else Some (str, False))"

section \<open>Terminated strings\<close>

text \<open>A usable string with room for its terminator.\<close>

definition string_term :: "nat \<Rightarrow> string_t option \<Rightarrow> byte list \<Rightarrow> bool" where
  "string_term ps p xs = (string_rep ps p xs \<and> length xs < st_memory_size (the p))"

lemma string_termE:
  assumes "string_term ps p xs"
  obtains s n where "p = Some s" "st_data s = Some (xs @ replicate (Suc n) 0)" "st_data_size s = length xs"
    "st_memory_size s = length xs + Suc n" "ps dvd length xs + Suc n" "length xs + Suc n \<le> SIZE_MAX"
    "0 < ps" "ps \<le> SIZE_MAX div 4" "0 \<notin> set xs"
proof -
  obtain s n where s: "p = Some s" "st_data s = Some (xs @ replicate n 0)" "st_data_size s = length xs"
    "st_memory_size s = length xs + n" "ps dvd length xs + n" "length xs + n \<le> SIZE_MAX" "0 < ps" "ps \<le> SIZE_MAX div 4" "0 \<notin> set xs"
    using assms unfolding string_term_def by (auto elim: string_repE)
  moreover obtain m where "n = Suc m" using assms s(1,4) by (cases n) (auto simp: string_term_def)
  ultimately show ?thesis using that by metis
qed

lemma string_termI:
  assumes "st_data s = Some (xs @ replicate n 0)" "st_data_size s = length xs" "st_memory_size s = length xs + n" "0 < n"
    "ps dvd length xs + n" "length xs + n \<le> SIZE_MAX" "0 < ps" "ps \<le> SIZE_MAX div 4" "0 \<notin> set xs"
  shows "string_term ps (Some s) xs"
  using string_repI [OF assms(1-3,5-9)] assms(3,4) by (simp add: string_term_def)

lemma page_strict: "ps dvd m \<Longrightarrow> n \<le> m \<Longrightarrow> n mod ps \<noteq> 0 \<Longrightarrow> n < (m :: nat)"
  by (cases "n = m") auto

lemma string_rep_term: "string_rep ps p xs \<Longrightarrow> length xs mod ps \<noteq> 0 \<Longrightarrow> string_term ps p xs"
  using page_strict [of ps "st_memory_size (the p)" "length xs"] by (auto simp: string_term_def elim!: string_repE)

lemma c_string_term [simp]: "0 \<notin> set xs \<Longrightarrow> c_string (xs @ replicate (Suc n) 0) = Some xs"
  using c_string_exact [of xs "replicate n 0"] by simp

text \<open>Giving a block of the same size with fewer characters back to the string.\<close>

lemma string_set_data_term:
  assumes "string_term ps (Some s) xs" "0 \<notin> set ys" "length ys + n = st_memory_size s" "0 < n"
  shows "\<exists>q. string_set_data s (ys @ replicate n 0) = Some q \<and> string_term ps q ys"
proof -
  obtain m where n: "n = Suc m" using assms(4) by (cases n) auto
  obtain k where s: "st_memory_size s = length xs + Suc k" "ps dvd length xs + Suc k" "length xs + Suc k \<le> SIZE_MAX"
    "0 < ps" "ps \<le> SIZE_MAX div 4"
    using assms(1) by (auto elim: string_termE)
  have "str_len (ys @ replicate n 0) = Some (length ys)"
    unfolding str_len_def n using assms(2) by (simp del: replicate_Suc)
  then show ?thesis using s assms(2-4)
    by (auto simp: string_set_data_def intro!: string_termI [where n = n])
qed

section \<open>Trimming\<close>

lemma drop_ConsD:
  assumes "drop i d = c # u"
  shows "i < length d" "d ! i = c" "drop (Suc i) d = u"
proof -
  show i: "i < length d" using assms by (rule contrapos_pp) simp
  from assms show "d ! i = c" "drop (Suc i) d = u" using Cons_nth_drop_Suc [OF i] by auto
qed

lemma skip_space_run:
  "drop i d = t @ 0 # r \<Longrightarrow> 0 \<notin> set t \<Longrightarrow> skip_space d i = Some (i + length (takeWhile is_space t))"
proof (induction t arbitrary: i)
  case Nil
  then show ?case using drop_ConsD [of i d 0 r] by (subst skip_space.simps) (simp add: is_space_def)
next
  case (Cons c t)
  then have i: "i < length d" "d ! i = c" "drop (Suc i) d = t @ 0 # r" using drop_ConsD [of i d c "t @ 0 # r"] by auto
  from Cons.IH [of "Suc i"] Cons.prems(2) i show ?case by (subst skip_space.simps) simp
qed

lemma copy_down_run:
  "drop ptr d = t @ 0 # r \<Longrightarrow> 0 \<notin> set t \<Longrightarrow> ctr \<le> ptr \<Longrightarrow>
   copy_down d ptr ctr = Some (take ctr d @ t @ drop (ctr + length t) d, ctr + length t)"
proof (induction t arbitrary: d ptr ctr)
  case Nil
  then show ?case using drop_ConsD [of ptr d 0 r] by (subst copy_down.simps) simp
next
  case (Cons c t)
  then have i: "ptr < length d" "d ! ptr = c" "drop (Suc ptr) d = t @ 0 # r" using drop_ConsD [of ptr d c "t @ 0 # r"] by auto
  let ?d = "d[ctr := c]"
  have "drop (Suc ptr) ?d = t @ 0 # r" using i(3) Cons.prems(3) by (simp add: drop_update_cancel)
  from Cons.IH [OF this, of "Suc ctr"] Cons.prems(2,3)
  have "copy_down ?d (Suc ptr) (Suc ctr) = Some (take (Suc ctr) ?d @ t @ drop (Suc ctr + length t) ?d, Suc ctr + length t)" by simp
  moreover have "take (Suc ctr) ?d = take ctr d @ [c]" using Cons.prems(3) i(1) by (simp add: take_Suc_conv_app_nth)
  moreover have "drop (Suc ctr + length t) ?d = drop (Suc ctr + length t) d" by (simp add: drop_update_cancel)
  ultimately show ?case using i(1,2) Cons.prems(2) by (subst copy_down.simps) simp
qed

lemma zero_until_run:
  "drop ctr d = t @ 0 # r \<Longrightarrow> 0 \<notin> set t \<Longrightarrow>
   zero_until d ctr = Some (take ctr d @ replicate (length t) 0 @ 0 # r)"
proof (induction t arbitrary: d ctr)
  case Nil
  then show ?case using drop_ConsD [of ctr d 0 r] append_take_drop_id [of ctr d] by (subst zero_until.simps) simp
next
  case (Cons c t)
  then have i: "ctr < length d" "d ! ctr = c" "drop (Suc ctr) d = t @ 0 # r" using drop_ConsD [of ctr d c "t @ 0 # r"] by auto
  have "drop (Suc ctr) (d[ctr := 0]) = t @ 0 # r" using i(3) by (simp add: drop_update_cancel)
  from Cons.IH [OF this] Cons.prems(2) i(1,2) show ?case
    by (subst zero_until.simps) (simp add: take_Suc_conv_app_nth)
qed

lemma right_trim_run:
  "right_trim_loop (xs @ zs) (length xs) =
     Some (rev (dropWhile is_space (rev xs)) @ replicate (length xs - length (dropWhile is_space (rev xs))) 0 @ zs)"
proof (induction xs arbitrary: zs rule: rev_induct)
  case (snoc x xs)
  show ?case
  proof (cases "is_space x")
    case True
    have "Suc (length xs) - length (dropWhile is_space (rev xs)) = Suc (length xs - length (dropWhile is_space (rev xs)))"
      using length_dropWhile_le [of is_space "rev xs"] by simp
    then show ?thesis using snoc.IH [of "0 # zs"] True
      by (simp add: nth_append list_update_append replicate_app_Cons_same)
  qed (simp add: nth_append)
qed simp

text \<open>The characters without the white space at both ends.\<close>

definition trim_left :: "byte list \<Rightarrow> byte list" where
  "trim_left xs = dropWhile is_space xs"

definition trim_right :: "byte list \<Rightarrow> byte list" where
  "trim_right xs = rev (dropWhile is_space (rev xs))"

lemma set_trim: "set (trim_left xs) \<subseteq> set xs" "set (trim_right xs) \<subseteq> set xs"
  using set_dropWhileD [of _ is_space "rev xs"] by (auto simp: trim_left_def trim_right_def dest: set_dropWhileD)

lemma length_trim: "length (trim_left xs) \<le> length xs" "length (trim_right xs) \<le> length xs"
  using length_dropWhile_le [of is_space "rev xs"] by (auto simp: trim_left_def trim_right_def length_dropWhile_le)

lemma string_right_trim_term:
  assumes "string_term ps p xs"
  shows "\<exists>q. string_right_trim p = Some q \<and> string_term ps q (trim_right xs)"
proof -
  obtain s n where s: "p = Some s" "st_data s = Some (xs @ replicate (Suc n) 0)" "st_data_size s = length xs"
    "st_memory_size s = length xs + Suc n" "0 \<notin> set xs"
    using assms by (rule string_termE)
  let ?k = "length xs - length (trim_right xs) + Suc n"
  have "right_trim_loop (xs @ replicate (Suc n) 0) (length xs) = Some (trim_right xs @ replicate ?k 0)"
    unfolding right_trim_run by (simp add: trim_right_def flip: replicate_add del: replicate_Suc)
  moreover obtain q where "string_set_data s (trim_right xs @ replicate ?k 0) = Some q" "string_term ps q (trim_right xs)"
    using string_set_data_term [of ps s xs "trim_right xs" ?k] assms s set_trim(2) [of xs] length_trim(2) [of xs] by auto
  ultimately show ?thesis using s(1-3) by (simp add: string_right_trim_def del: replicate_Suc)
qed

lemma string_left_trim_term:
  assumes "string_term ps p xs"
  shows "\<exists>q. string_left_trim p = Some q \<and> string_term ps q (trim_left xs)"
proof -
  obtain s n where s: "p = Some s" "st_data s = Some (xs @ replicate (Suc n) 0)" "st_data_size s = length xs"
    "st_memory_size s = length xs + Suc n" "0 \<notin> set xs"
    using assms by (rule string_termE)
  define d where "d = xs @ replicate (Suc n) 0"
  define k where "k = length (takeWhile is_space xs)"
  let ?ys = "trim_left xs"
  have ys: "drop k xs = ?ys" "length ?ys + k = length xs" "k \<le> length xs"
    unfolding k_def trim_left_def
    by (simp_all add: dropWhile_eq_drop [symmetric] length_takeWhile_le) (metis add.commute length_append takeWhile_dropWhile_id)
  have ptr: "skip_space d 0 = Some k"
    using skip_space_run [of 0 d xs "replicate n 0"] s(5) by (simp add: d_def k_def)
  have "drop k d = ?ys @ 0 # replicate n 0" using ys(1,3) by (simp add: d_def)
  moreover have nz: "0 \<notin> set ?ys" using set_trim(1) s(5) by blast
  ultimately have cd: "copy_down d k 0 = Some (?ys @ drop (length ?ys) d, length ?ys)"
    using copy_down_run [of k d ?ys "replicate n 0" 0] by simp
  have "drop (length ?ys) (?ys @ drop (length ?ys) d) = drop (length ?ys) xs @ 0 # replicate n 0"
    using ys(2) by (simp add: d_def)
  moreover have "0 \<notin> set (drop (length ?ys) xs)" using s(5) by (meson in_set_dropD)
  ultimately have zu: "zero_until (?ys @ drop (length ?ys) d) (length ?ys) = Some (?ys @ replicate (length xs - length ?ys + Suc n) 0)"
    using zero_until_run [of "length ?ys" "?ys @ drop (length ?ys) d" "drop (length ?ys) xs" "replicate n 0"]
    by (simp add: replicate_add replicate_app_Cons_same)
  obtain q where "string_set_data s (?ys @ replicate (length xs - length ?ys + Suc n) 0) = Some q" "string_term ps q ?ys"
    using string_set_data_term [of ps s xs ?ys "length xs - length ?ys + Suc n"] assms s(1,4) nz ys(2) by auto
  then show ?thesis using s(1,2) ptr cd zu unfolding d_def [symmetric] by (simp add: string_left_trim_def d_def [symmetric])
qed

text \<open>
  Trimming.  On a terminated string \<open>string_all_trim\<close> leaves exactly the characters between the white space at
  both ends, and a string that is usable, with its recorded length.
\<close>

theorem string_trims:
  assumes "string_term ps p xs"
  shows "\<exists>q. string_all_trim p = Some q \<and> string_term ps q (trim_left (trim_right xs))"
  using string_right_trim_term [OF assms] string_left_trim_term by (fastforce simp: string_all_trim_def)

definition test_string :: "byte list \<Rightarrow> nat \<Rightarrow> string_t option" where
  "test_string xs n = Some \<lparr>st_data = Some (xs @ replicate n 0), st_data_size = length xs, st_memory_size = length xs + n\<rparr>"

lemma test_string_term:
  "0 \<notin> set xs \<Longrightarrow> 0 < n \<Longrightarrow> length xs + n = ps \<Longrightarrow> ps \<le> SIZE_MAX div 4 \<Longrightarrow> string_term ps (test_string xs n) xs"
  unfolding test_string_def by (rule string_termI [where n = n]) (auto simp: SIZE_MAX_def)

theorem string_trims_witness:
  "\<exists>q. string_all_trim (test_string [32, 65, 66, 9] 4) = Some q \<and> string_term 8 q [65, 66]"
proof -
  have "string_term 8 (test_string [32, 65, 66, 9] 4) [32, 65, 66, 9]"
    by (rule test_string_term) (simp_all add: SIZE_MAX_def)
  from string_trims [OF this] show ?thesis by (simp add: trim_left_def trim_right_def is_space_def)
qed

section \<open>Searching: what the functions answer\<close>

definition occurs_at :: "byte list \<Rightarrow> byte list \<Rightarrow> nat \<Rightarrow> bool" where
  "occurs_at sub s k = (k + length sub \<le> length s \<and> take (length sub) (drop k s) = sub)"

lemma occurs_at_Cons: "occurs_at sub (c # s) (Suc k) = occurs_at sub s k"
  by (simp add: occurs_at_def)

lemma occurs_at_0: "occurs_at sub s 0 = (take (length sub) s = sub)"
proof -
  have "take (length sub) s = sub \<Longrightarrow> length sub \<le> length s" by (metis length_take min.cobounded1)
  then show ?thesis by (auto simp: occurs_at_def)
qed

lemma str_find_Some: "str_find sub s = Some k \<Longrightarrow> occurs_at sub s k \<and> (\<forall>j < k. \<not> occurs_at sub s j)"
proof (induction s arbitrary: k)
  case (Cons c s)
  show ?case
  proof (cases "take (length sub) (c # s) = sub")
    case True
    then show ?thesis using Cons.prems occurs_at_0 [of sub "c # s"] by simp
  next
    case False
    then obtain j where j: "str_find sub s = Some j" "k = Suc j" using Cons.prems by auto
    from Cons.IH [OF j(1)] False show ?thesis unfolding j(2)
      by (auto simp: occurs_at_Cons less_Suc_eq_0_disj occurs_at_0 simp del: take_Suc_Cons)
  qed
qed (simp add: occurs_at_def split: if_splits)

lemma str_find_None: "str_find sub s = None \<Longrightarrow> \<not> occurs_at sub s k"
proof (induction s arbitrary: k)
  case (Cons c s)
  then show ?case
    by (cases k) (auto simp: occurs_at_Cons occurs_at_0 simp del: take_Suc_Cons split: if_splits)
qed (simp add: occurs_at_def split: if_splits)

lemma char_loop_run: "0 \<notin> set xs \<Longrightarrow> c \<noteq> 0 \<Longrightarrow>
   char_loop (xs @ 0 # r) c i = Some (if c \<in> set xs then int (i + length (takeWhile (\<lambda>x. x \<noteq> c) xs)) else -1)"
  by (induction xs arbitrary: i) auto

lemma count_char_loop_run: "0 \<notin> set xs \<Longrightarrow> count_char_loop (xs @ 0 # r) c i = Some (i + count_list xs c)"
  by (induction xs arbitrary: i) auto

text \<open>
  Searching.  On terminated strings \<open>string_index_of_substr\<close> answers the first place where the text
  stands, and -1 exactly if there is none; \<open>string_index_of_char\<close> and \<open>string_count_char\<close> agree with the
  characters of the string.
\<close>

theorem string_searches:
  assumes "string_term ps p xs" "string_term ps q ys" "c \<noteq> 0"
  shows "(\<exists>r. string_index_of_substr p q = Some r \<and>
      (if r < 0 then r = -1 \<and> (\<forall>k. \<not> occurs_at ys xs k)
       else occurs_at ys xs (nat r) \<and> (\<forall>j < nat r. \<not> occurs_at ys xs j))) \<and>
    string_index_of_char p c = Some (if c \<in> set xs then int (length (takeWhile (\<lambda>x. x \<noteq> c) xs)) else -1) \<and>
    string_count_char p c = Some (count_list xs c)"
proof -
  obtain s n where s: "p = Some s" "st_data s = Some (xs @ replicate (Suc n) 0)" "0 \<notin> set xs"
    using assms(1) by (rule string_termE)
  obtain t m where t: "q = Some t" "st_data t = Some (ys @ replicate (Suc m) 0)" "0 \<notin> set ys"
    using assms(2) by (rule string_termE)
  have "string_index_of_substr p q = Some (case str_find ys xs of None \<Rightarrow> -1 | Some k \<Rightarrow> int k)"
    using s t by (simp add: string_index_of_substr_def c_string_term del: replicate_Suc)
  then have "\<exists>r. string_index_of_substr p q = Some r \<and>
      (if r < 0 then r = -1 \<and> (\<forall>k. \<not> occurs_at ys xs k)
       else occurs_at ys xs (nat r) \<and> (\<forall>j < nat r. \<not> occurs_at ys xs j))"
    using str_find_Some [of ys xs] str_find_None [of ys xs] by (auto split: option.splits)
  moreover have "string_index_of_char p c = Some (if c \<in> set xs then int (length (takeWhile (\<lambda>x. x \<noteq> c) xs)) else -1) \<and>
      string_count_char p c = Some (count_list xs c)"
    using s assms(3) by (simp add: string_index_of_char_def string_count_char_def char_loop_run count_char_loop_run)
  ultimately show ?thesis by blast
qed

theorem string_searches_witness:
  "\<exists>r. string_index_of_substr (test_string [65, 66, 66] 5) (test_string [66] 7) = Some r"
proof -
  have "string_term 8 (test_string [65, 66, 66] 5) [65, 66, 66]" "string_term 8 (test_string [66] 7) [66]"
    by (rule test_string_term; simp add: SIZE_MAX_def)+
  moreover have "(66 :: byte) \<noteq> 0" by simp
  ultimately show ?thesis using string_searches by blast
qed

section \<open>Replacing and removing\<close>

text \<open>
  The data after a replacement: the new text and its terminator, and behind it what was there before, which is
  not cleared.
\<close>

lemma replace_at_run:
  assumes "d = a @ old @ b @ 0 # z" "length a + length new + length b < length d" "length new \<noteq> length old"
  shows "replace_at d (length a + length old + length b) (length a) (length old) (new @ zs) (length new) =
     Some (a @ new @ b @ 0 # drop (length a + length new + length b + 1) d)"
proof -
  have n: "length a + length old + length b + 1 - (length a + length old) = length b + 1" by simp
  have "mem_copy d (length a + length new) d (length a + length old) (length b + 1) =
      Some (take (length a + length new) d @ (b @ [0]) @ drop (length a + length new + (length b + 1)) d)"
    using assms by (simp add: mem_copy_Some)
  moreover have "mem_copy (take (length a + length new) d @ (b @ [0]) @ drop (length a + length new + (length b + 1)) d)
      (length a) (new @ zs) 0 (length new) =
      Some (a @ new @ b @ 0 # drop (length a + length new + length b + 1) d)"
    using assms(1,2) by (simp add: mem_copy_Some min_absorb1 min_absorb2 add.assoc)
  ultimately show ?thesis unfolding replace_at_def n using assms(3) by simp
qed

lemma replace_at_same:
  assumes "d = a @ old @ b @ 0 # z" "length new = length old"
  shows "replace_at d (length a + length old + length b) (length a) (length old) (new @ zs) (length new) =
     Some (a @ new @ b @ 0 # z)"
  using assms by (simp add: replace_at_def mem_copy_Some)

text \<open>A string that reads as the characters \<open>xs\<close>, whatever is behind the terminator.\<close>

definition string_text :: "string_t option \<Rightarrow> byte list \<Rightarrow> bool" where
  "string_text p xs = (\<exists>s d. p = Some s \<and> st_data s = Some d \<and> length d = st_memory_size s \<and>
     c_string d = Some xs \<and> st_data_size s = length xs)"

lemma string_term_text: "string_term ps p xs \<Longrightarrow> string_text p xs"
  by (elim string_termE) (auto simp: string_text_def simp del: replicate_Suc)

text \<open>Making room for \<open>want\<close> characters, and giving back pages afterwards.\<close>

lemma adjust_expand:
  assumes "0 < ps" "st_data s = Some d" "length d = st_memory_size s" "st_data_size s \<le> length d"
    "want \<le> SIZE_MAX div 2" "st_data_size s \<le> SIZE_MAX div 2" "st_memory_size s < want"
  shows "string_internal_adjust_storage ps True (Some s) (size_sub want (st_data_size s)) =
     Some (Some (s\<lparr>st_data := Some (take (st_data_size s) d @ replicate (string_pages ps want - st_data_size s) 0),
       st_memory_size := string_pages ps want\<rparr>))"
proof -
  have "(st_data_size s + size_sub want (st_data_size s)) mod 2 ^ 64 = want"
    using assms(4-7) by (simp add: SIZE_MAX_def size_sub_def)
  moreover have "want \<le> string_pages ps want" by (rule string_pages_bounds(1) [OF assms(1)])
  ultimately show ?thesis using assms
    by (simp add: string_internal_adjust_storage_def Let_def string_calloc_def string_copy_out_def mem_copy_Some)
qed

lemma adjust_shrink:
  assumes "0 < ps" "st_data s = Some (xs @ 0 # z)" "Suc (length xs + length z) = st_memory_size s" "st_data_size s = length xs"
    "length xs \<le> SIZE_MAX div 2" "length xs mod ps \<noteq> 0" "0 \<notin> set xs"
  shows "\<exists>q. string_internal_adjust_storage ps True (Some s) 0 = Some q \<and> string_text q xs"
proof -
  let ?new = "string_pages ps (length xs)"
  have req: "(st_data_size s + 0) mod 2 ^ 64 = length xs" using assms(4,5) by (simp add: SIZE_MAX_def)
  have new: "length xs < ?new"
    using string_pages_bounds [OF assms(1), of "length xs"] assms(6) by (metis dvd_imp_mod_0 le_neq_implies_less)
  show ?thesis
  proof (cases "?new > st_memory_size s \<or> st_memory_size s > ?new + 2 * ps")
    case False
    then have "string_internal_adjust_storage ps True (Some s) 0 = Some (Some s)"
      using req by (simp add: string_internal_adjust_storage_def Let_def)
    moreover have "string_text (Some s) xs" using assms(2-4,7) by (simp add: string_text_def c_string_exact)
    ultimately show ?thesis by blast
  next
    case True
    obtain m where m: "?new - length xs = Suc m" using new by (cases "?new - length xs") auto
    have "mem_copy (replicate ?new 0) 0 (xs @ 0 # z) 0 (length xs) = Some (xs @ replicate (Suc m) 0)"
      using new m by (simp add: mem_copy_Some del: replicate_Suc)
    then have "string_internal_adjust_storage ps True (Some s) 0 =
        Some (Some (s\<lparr>st_data := Some (xs @ replicate (Suc m) 0), st_memory_size := ?new\<rparr>))"
      using True req assms(2,4) by (simp add: string_internal_adjust_storage_def Let_def string_calloc_def string_copy_out_def del: replicate_Suc)
    moreover have "string_text (Some (s\<lparr>st_data := Some (xs @ replicate (Suc m) 0), st_memory_size := ?new\<rparr>)) xs"
      using assms(4,7) m new by (auto simp: string_text_def simp del: replicate_Suc)
    ultimately show ?thesis by blast
  qed
qed

text \<open>The first occurrence, as the search finds it.\<close>

lemma first_occurrence:
  assumes "xs = a @ old @ b" "\<forall>j < length a. \<not> occurs_at old xs j"
  shows "str_find old xs = Some (length a)"
proof -
  have at: "occurs_at old xs (length a)" using assms(1) by (simp add: occurs_at_def)
  then obtain k where k: "str_find old xs = Some k" using str_find_None [of old xs] by (cases "str_find old xs") auto
  with str_find_Some [OF k] at assms(2) have "k = length a" by (metis linorder_neqE_nat)
  with k show ?thesis by simp
qed

lemma index_of_first:
  assumes "st_data s = Some d" "c_string d = Some xs" "string_term ps (Some old) os" "xs = a @ os @ b"
    "\<forall>j < length a. \<not> occurs_at os xs j"
  shows "string_index_of_substr (Some s) (Some old) = Some (int (length a))"
  using assms(1-3) first_occurrence [OF assms(4,5)]
  by (auto elim!: string_termE simp: string_index_of_substr_def simp del: replicate_Suc)

text \<open>The common part of both replacement theorems: everything up to the call of \<open>replace_at\<close>.\<close>

lemma replace_first_unfold:
  assumes "string_term ps p xs" "string_term ps q old" "string_term ps r new" "xs = a @ old @ b" "old \<noteq> []"
    "\<forall>j < length a. \<not> occurs_at old xs j" "length xs + length new \<le> SIZE_MAX div 2"
  obtains s1 d zs where "st_data s1 = Some (xs @ 0 # d)" "length xs + length d + 1 = st_memory_size s1"
    "st_memory_size s1 = max (st_memory_size (the p)) (if length a + length new + length b > st_memory_size (the p)
       then string_pages ps (length a + length new + length b) else 0)"
    "string_replace_substr_first ps True p q r = do {
       d' \<leftarrow> replace_at (xs @ 0 # d) (length xs) (length a) (length old) (new @ zs) (length new);
       w \<leftarrow> string_internal_adjust_storage ps True (Some (s1\<lparr>st_data := Some d', st_data_size := length a + length new + length b\<rparr>)) 0;
       Some (w, True) }"
proof -
  obtain s n where s: "p = Some s" "st_data s = Some (xs @ replicate (Suc n) 0)" "st_data_size s = length xs"
    "st_memory_size s = length xs + Suc n" "0 < ps" "0 \<notin> set xs"
    using assms(1) by (rule string_termE)
  obtain o1 where o: "q = Some o1" "st_data_size o1 = length old" using assms(2) by (rule string_termE)
  obtain w m where w: "r = Some w" "st_data w = Some (new @ replicate (Suc m) 0)" "st_data_size w = length new"
    using assms(3) by (rule string_termE)
  have idx: "string_index_of_substr p q = Some (int (length a))"
    unfolding s(1) o(1)
    by (rule index_of_first [OF s(2) c_string_term [OF s(6)] _ assms(4,6)]) (use assms(2) o(1) in simp)
  let ?new = "length a + length new + length b"
  have sz: "size_sub (st_data_size s + st_data_size w) (st_data_size o1) = ?new"
    using s(3) o(2) w(3) assms(4) by (simp add: size_sub_def)
  have old: "\<not> st_data_size o1 < 1" using o(2) assms(5) by (simp add: Suc_le_eq)
  show ?thesis
  proof (cases "?new > st_memory_size s")
    case False
    show ?thesis
      by (rule that [of s "replicate n 0" "replicate (Suc m) 0"])
        (use s o w idx sz old False in \<open>simp_all add: string_replace_substr_first_def Let_def\<close>)
  next
    case True
    let ?s1 = "s\<lparr>st_data := Some (take (st_data_size s) (xs @ replicate (Suc n) 0) @ replicate (string_pages ps ?new - st_data_size s) 0),
       st_memory_size := string_pages ps ?new\<rparr>"
    have lt: "length xs < string_pages ps ?new" using string_pages_bounds(1) [OF s(5), of ?new] True s(4) by simp
    then obtain k where k: "string_pages ps ?new - length xs = Suc k" by (cases "string_pages ps ?new - length xs") auto
    have adj: "string_internal_adjust_storage ps True (Some s) (size_sub ?new (st_data_size s)) = Some (Some ?s1)"
      by (rule adjust_expand) (use s True assms(4,7) in simp_all)
    have d: "st_data ?s1 = Some (xs @ 0 # replicate k 0)" using s(3) k by simp
    show ?thesis
      by (rule that [of ?s1 "replicate k 0" "replicate (Suc m) 0"])
        (use s o w idx sz old True adj d k lt string_pages_bounds(1) [OF s(5), of ?new] in \<open>simp_all add: string_replace_substr_first_def Let_def\<close>)
  qed
qed

text \<open>
  C15: replacing.  When the old text stands at a first place in the string and the new length does not fill whole
  pages, \<open>string_replace_substr_first\<close> gives a string that reads as the characters with that one occurrence replaced, with
  the right length, growing or shrinking the storage as needed.
\<close>

theorem string_replace_first_correct:
  assumes "string_term ps p (a @ old @ b)" "string_term ps q old" "string_term ps r new" "old \<noteq> []"
    "\<forall>j < length a. \<not> occurs_at old (a @ old @ b) j" "length (a @ old @ b) + length new \<le> SIZE_MAX div 2"
    "length (a @ new @ b) mod ps \<noteq> 0"
  shows "\<exists>w. string_replace_substr_first ps True p q r = Some (w, True) \<and> string_text w (a @ new @ b)"
proof -
  let ?xs = "a @ old @ b" and ?ys = "a @ new @ b"
  let ?n = "length a + length new + length b"
  obtain s1 d zs where u: "st_data s1 = Some (?xs @ 0 # d)" "length ?xs + length d + 1 = st_memory_size s1"
    "st_memory_size s1 = max (st_memory_size (the p)) (if ?n > st_memory_size (the p) then string_pages ps ?n else 0)"
    "string_replace_substr_first ps True p q r = do {
       d' \<leftarrow> replace_at (?xs @ 0 # d) (length ?xs) (length a) (length old) (new @ zs) (length new);
       w \<leftarrow> string_internal_adjust_storage ps True (Some (s1\<lparr>st_data := Some d', st_data_size := ?n\<rparr>)) 0;
       Some (w, True) }"
    using replace_first_unfold [OF assms(1-3) refl assms(4-6)] by blast
  have ps: "0 < ps" "ps dvd st_memory_size (the p)" "0 \<notin> set ?ys"
    using assms(1,3) by (auto elim!: string_termE)
  have m0: "?n mod ps \<noteq> 0" using assms(7) by (simp add: add.assoc)
  have lt: "?n < st_memory_size s1"
  proof (cases "?n > st_memory_size (the p)")
    case True
    then show ?thesis using u(3) page_strict [OF string_pages_bounds(3,1) [OF ps(1)], of ?n] m0 by simp
  next
    case False
    then show ?thesis using u(3) page_strict [OF ps(2), of ?n] m0 by simp
  qed
  have len: "length ?xs = length a + length old + length b" by simp
  obtain z where z: "replace_at (?xs @ 0 # d) (length ?xs) (length a) (length old) (new @ zs) (length new) = Some (?ys @ 0 # z)"
    "Suc (length ?ys + length z) = st_memory_size s1"
  proof (cases "length new = length old")
    case True
    have "replace_at (?xs @ 0 # d) (length ?xs) (length a) (length old) (new @ zs) (length new) = Some (?ys @ 0 # d)"
      using replace_at_same [of "?xs @ 0 # d" a old b d new zs] True unfolding len by simp
    moreover have "Suc (length ?ys + length d) = st_memory_size s1" using True u(2) by simp
    ultimately show ?thesis by (rule that)
  next
    case False
    let ?z = "drop (?n + 1) (?xs @ 0 # d)"
    have "replace_at (?xs @ 0 # d) (length ?xs) (length a) (length old) (new @ zs) (length new) = Some (?ys @ 0 # ?z)"
      using replace_at_run [of "?xs @ 0 # d" a old b d new zs] False lt u(2) unfolding len by simp
    moreover have "Suc (length ?ys + length ?z) = st_memory_size s1" using lt u(2) by simp
    ultimately show ?thesis by (rule that)
  qed
  define s2 where "s2 = s1\<lparr>st_data := Some (?ys @ 0 # z), st_data_size := ?n\<rparr>"
  have s2: "st_data s2 = Some (?ys @ 0 # z)" "Suc (length ?ys + length z) = st_memory_size s2" "st_data_size s2 = length ?ys"
    using z(2) by (simp_all add: s2_def)
  have "length ?ys \<le> SIZE_MAX div 2" using assms(6) by simp
  from adjust_shrink [OF ps(1) s2 this assms(7) ps(3)]
  obtain w where "string_internal_adjust_storage ps True (Some s2) 0 = Some w" "string_text w ?ys" by blast
  then show ?thesis using u(4) z(1) unfolding s2_def by simp
qed

text \<open>
  Replacing writes behind the block.  When the new length fills the pages exactly and is not below the size of
  the block, the terminator that is moved along lands one byte behind the block.
\<close>

theorem string_replace_first_overflows:
  assumes "string_term ps p (a @ old @ b)" "string_term ps q old" "string_term ps r new" "old \<noteq> []"
    "\<forall>j < length a. \<not> occurs_at old (a @ old @ b) j" "length (a @ old @ b) + length new \<le> SIZE_MAX div 2"
    "length (a @ new @ b) mod ps = 0" "st_memory_size (the p) \<le> length (a @ new @ b)"
  shows "string_replace_substr_first ps True p q r = None"
proof -
  let ?xs = "a @ old @ b"
  let ?n = "length a + length new + length b"
  obtain s1 d zs where u: "st_data s1 = Some (?xs @ 0 # d)" "length ?xs + length d + 1 = st_memory_size s1"
    "st_memory_size s1 = max (st_memory_size (the p)) (if ?n > st_memory_size (the p) then string_pages ps ?n else 0)"
    "string_replace_substr_first ps True p q r = do {
       d' \<leftarrow> replace_at (?xs @ 0 # d) (length ?xs) (length a) (length old) (new @ zs) (length new);
       w \<leftarrow> string_internal_adjust_storage ps True (Some (s1\<lparr>st_data := Some d', st_data_size := ?n\<rparr>)) 0;
       Some (w, True) }"
    using replace_first_unfold [OF assms(1-3) refl assms(4-6)] by blast
  have m0: "?n mod ps = 0" using assms(7) by (simp add: add.assoc)
  then have pages: "string_pages ps ?n = ?n" by (auto simp: string_pages_def)
  have mem: "st_memory_size s1 = ?n" using u(3) pages assms(8) by (auto simp: max_def)
  have ne: "length new \<noteq> length old" using assms(1,8) by (auto simp: string_term_def)
  have "mem_copy (?xs @ 0 # d) (length a + length new) (?xs @ 0 # d) (length a + length old) (length ?xs + 1 - (length a + length old)) = None"
    using u(2) mem by (simp add: mem_copy_def)
  then show ?thesis using u(4) ne by (simp add: replace_at_def)
qed

theorem string_replace_first_correct_witness:
  "\<exists>w. string_replace_substr_first 8 True (test_string [65, 66, 67] 5) (test_string [66] 7) (test_string [68, 69, 70] 5) = Some (w, True) \<and>
     string_text w [65, 68, 69, 70, 67]"
proof -
  have s: "string_term 8 (test_string [65, 66, 67] 5) ([65] @ [66] @ [67])" "string_term 8 (test_string [66] 7) [66]"
    "string_term 8 (test_string [68, 69, 70] 5) [68, 69, 70]"
    unfolding append.simps by (rule test_string_term; simp add: SIZE_MAX_def)+
  show ?thesis using string_replace_first_correct [OF s] by (simp add: occurs_at_def SIZE_MAX_def)
qed

theorem string_replace_first_overflows_witness:
  "string_replace_substr_first 4 True (test_string [65, 66] 2) (test_string [66] 3) (test_string [68, 69, 70] 1) = None"
proof -
  have s: "string_term 4 (test_string [65, 66] 2) ([65] @ [66] @ [])" "string_term 4 (test_string [66] 3) [66]"
    "string_term 4 (test_string [68, 69, 70] 1) [68, 69, 70]"
    unfolding append.simps by (rule test_string_term; simp add: SIZE_MAX_def)+
  show ?thesis using string_replace_first_overflows [OF s] by (simp add: occurs_at_def SIZE_MAX_def test_string_def)
qed

text \<open>Every outcome of the storage adjustment keeps the characters.\<close>

lemma adjust_keeps:
  assumes "string_text (Some s) xs" "string_internal_adjust_storage ps ok (Some s) sz = Some w"
  obtains s1 z where "w = Some s1" "st_data s1 = Some (xs @ z)" "st_data_size s1 = length xs" "length (xs @ z) = st_memory_size s1"
proof -
  obtain d where d: "st_data s = Some d" "length d = st_memory_size s" "c_string d = Some xs" "st_data_size s = length xs"
    using assms(1) by (auto simp: string_text_def)
  obtain e where e: "d = xs @ 0 # e" using d(3) by (rule c_stringE)
  let ?new = "string_pages ps ((st_data_size s + sz) mod 2 ^ 64)"
  show ?thesis
  proof (cases "w = Some s")
    case True
    then show ?thesis using that [of s "0 # e"] d e by simp
  next
    case False
    then obtain p' where "string_copy_out (replicate ?new 0) s (st_data_size s) = Some p'"
      "w = Some (s\<lparr>st_data := Some p', st_memory_size := ?new\<rparr>)"
      using assms(2) by (auto simp: string_internal_adjust_storage_def Let_def string_calloc_def bind_eq_Some_conv split: if_splits)
    moreover from this(1) have "length xs \<le> ?new" "p' = xs @ replicate (?new - length xs) 0"
      using d(1,4) e by (auto simp: string_copy_out_def mem_copy_def split: if_splits)
    ultimately show ?thesis using that [of "s\<lparr>st_data := Some p', st_memory_size := ?new\<rparr>" "replicate (?new - length xs) 0"] d(4)
      by simp
  qed
qed

lemma string_index_finds:
  assumes "string_text (Some s) xs" "string_term ps (Some old) os" "occurs_at os xs k"
  shows "\<exists>pos. string_index_of_substr (Some s) (Some old) = Some pos \<and> 0 \<le> pos"
proof -
  obtain d where s: "st_data s = Some d" "c_string d = Some xs" using assms(1) by (auto simp: string_text_def)
  obtain m where o: "st_data old = Some (os @ replicate (Suc m) 0)" "0 \<notin> set os"
    using assms(2) by (elim string_termE) (auto simp del: replicate_Suc)
  have "c_string (os @ replicate (Suc m) 0) = Some os" by (rule c_string_term [OF o(2)])
  moreover obtain j where "str_find os xs = Some j" using str_find_None [of os xs] assms(3) by (cases "str_find os xs") auto
  ultimately show ?thesis using s o by (simp add: string_index_of_substr_def del: replicate_Suc)
qed

lemma replace_at_keeps:
  assumes "replace_at (a @ old @ b @ z) (length a + length old + length b) (length a) (length old) (new @ zs) (length new) = Some d1"
    "mem_write d1 (length a + length new + length b) 0 = Some d2"
  shows "\<exists>y. d2 = a @ new @ b @ 0 # y \<and> length d2 = length (a @ old @ b @ z)"
proof (cases "length new = length old")
  case True
  then have d1: "d1 = a @ new @ b @ z" using assms(1) by (auto simp: replace_at_def mem_copy_def split: if_splits)
  then obtain c z' where "z = c # z'" using assms(2) by (cases z) (auto simp: mem_write_def split: if_splits)
  then show ?thesis using assms(2) d1 True by (auto simp: mem_write_def list_update_append split: if_splits)
next
  case False
  let ?d = "a @ old @ b @ z"
  have n: "length a + length old + length b + 1 - (length a + length old) = length b + 1" by simp
  obtain d0 where d0: "mem_copy ?d (length a + length new) ?d (length a + length old) (length b + 1) = Some d0"
    "mem_copy d0 (length a) (new @ zs) 0 (length new) = Some d1"
    using assms(1) False unfolding replace_at_def n by (auto simp: bind_eq_Some_conv)
  have le: "length a + length new + (length b + 1) \<le> length ?d" "length a + length old + (length b + 1) \<le> length ?d"
    using d0(1) by (auto simp: mem_copy_def split: if_splits)
  from le(2) obtain c z' where z: "z = c # z'" by (cases z) auto
  let ?y = "drop (length a + length new + (length b + 1)) ?d"
  have d0': "d0 = take (length a + length new) ?d @ (b @ [c]) @ ?y"
    using d0(1) le z by (simp add: mem_copy_Some)
  have "d1 = a @ new @ b @ c # ?y"
    using d0(2) le unfolding d0' by (simp add: mem_copy_Some min_absorb1 min_absorb2 add.assoc)
  then have "d2 = a @ new @ b @ 0 # ?y" using assms(2) by (auto simp: mem_write_def list_update_append split: if_splits)
  moreover have "length d2 = length ?d" using \<open>d2 = a @ new @ b @ 0 # ?y\<close> le(1) by simp
  ultimately show ?thesis by blast
qed

text \<open>One round of the loop finds the old text at its first place and leaves it in the string again.\<close>

lemma replace_round_keeps:
  assumes "string_term ps (Some old) os" "string_term ps (Some new) ns" "string_text (Some s) xs"
    "string_index_of_substr (Some s) (Some old) = Some pos" "0 \<le> pos"
    "string_internal_adjust_storage ps ok (Some s) sz = Some (Some s1)" "st_data s1 = Some d"
    "replace_at d (st_data_size s1) (nat pos) (st_data_size old) (case st_data new of None \<Rightarrow> [] | Some nd \<Rightarrow> nd) (st_data_size new) = Some d1"
    "mem_write d1 (size_sub (st_data_size s + st_data_size new) (st_data_size old)) 0 = Some d2"
  shows "\<exists>a b. xs = a @ os @ b \<and> string_text (Some (s1\<lparr>st_data := Some d2,
    st_data_size := size_sub (st_data_size s + st_data_size new) (st_data_size old)\<rparr>)) (a @ ns @ b)"
proof -
  obtain d' where s: "st_data s = Some d'" "c_string d' = Some xs" "st_data_size s = length xs"
    using assms(3) by (auto simp: string_text_def)
  obtain k where o: "st_data old = Some (os @ replicate (Suc k) 0)" "st_data_size old = length os" "0 \<notin> set os"
    using assms(1) by (elim string_termE) (auto simp del: replicate_Suc)
  obtain m where w: "st_data new = Some (ns @ replicate (Suc m) 0)" "st_data_size new = length ns" "0 \<notin> set ns"
    using assms(2) by (elim string_termE) (auto simp del: replicate_Suc)
  obtain j where j: "str_find os xs = Some j" "pos = int j"
    using assms(4,5) s o by (cases "str_find os xs") (auto simp: string_index_of_substr_def simp del: replicate_Suc)
  then obtain a b where ab: "xs = a @ os @ b" "length a = j"
    using str_find_Some [OF j(1)] unfolding occurs_at_def
    by (metis append_take_drop_id append.assoc length_take min_absorb2 add_leD1)
  obtain z where z: "st_data s1 = Some (xs @ z)" "st_data_size s1 = length xs" "length (xs @ z) = st_memory_size s1"
    using adjust_keeps [OF assms(3,6)] by (metis option.inject)
  have n: "size_sub (st_data_size s + st_data_size new) (st_data_size old) = length a + length ns + length b"
    using s(3) o(2) w(2) ab(1) by (simp add: size_sub_def)
  have d: "d = a @ os @ b @ z" using assms(7) z(1) ab(1) by simp
  have "replace_at (a @ os @ b @ z) (length a + length os + length b) (length a) (length os) (ns @ replicate (Suc m) 0) (length ns) = Some d1"
    using assms(8) d z(2) ab j(2) o(2) w(1,2) by (simp add: add.assoc)
  from replace_at_keeps [OF this, of d2] assms(9) n
  obtain y where y: "d2 = a @ ns @ b @ 0 # y" "length d2 = length (a @ os @ b @ z)" by auto
  have "0 \<notin> set xs" using s(2) by (auto elim: c_stringE)
  then have "c_string d2 = Some (a @ ns @ b)"
    using c_string_exact [of "a @ ns @ b" y] y(1) w(3) ab(1) by simp
  then show ?thesis using ab(1) n y z(3) by (auto simp: string_text_def)
qed

lemma replace_loop_hangs:
  assumes "string_term ps (Some old) os" "string_term ps (Some new) (u @ os @ v)"
    "replace_substr_loop ps ok old new s = Some w"
  shows "string_text (Some s) xs \<Longrightarrow> occurs_at os xs k \<Longrightarrow> False"
proof -
  have "\<forall>xs k. ps' = ps \<and> ok' = ok \<and> old' = old \<and> new' = new \<longrightarrow> string_text (Some s) xs \<longrightarrow> \<not> occurs_at os xs k"
    if "replace_substr_loop ps' ok' old' new' s = Some w" for ps' ok' old' new'
    using that
  proof (rule replace_substr_loop.raw_induct [where P = "\<lambda>ps' ok' old' new' s w.
      \<forall>xs k. ps' = ps \<and> ok' = ok \<and> old' = old \<and> new' = new \<longrightarrow> string_text (Some s) xs \<longrightarrow> \<not> occurs_at os xs k", rotated])
    fix f ps' ok' old' new' s w
    assume IH: "\<And>ps' ok' old' new' s w. f ps' ok' old' new' s = Some w \<Longrightarrow>
        \<forall>xs k. ps' = ps \<and> ok' = ok \<and> old' = old \<and> new' = new \<longrightarrow> string_text (Some s) xs \<longrightarrow> \<not> occurs_at os xs k"
      and run: "do {
        pos \<leftarrow> string_index_of_substr (Some s) (Some old');
        if 0 \<le> pos
        then do {
          let new_size = size_sub (st_data_size s + st_data_size new') (st_data_size old');
          adjusted \<leftarrow> string_internal_adjust_storage ps' ok' (Some s) (size_sub new_size (st_data_size s));
          s1 \<leftarrow> adjusted;
          d \<leftarrow> st_data s1;
          d1 \<leftarrow> replace_at d (st_data_size s1) (nat pos) (st_data_size old') (case st_data new' of None \<Rightarrow> [] | Some nd \<Rightarrow> nd)
            (st_data_size new');
          d2 \<leftarrow> mem_write d1 new_size 0;
          f ps' ok' old' new' (s1\<lparr>st_data := Some d2, st_data_size := new_size\<rparr>) }
        else Some s } = Some w"
    show "\<forall>xs k. ps' = ps \<and> ok' = ok \<and> old' = old \<and> new' = new \<longrightarrow> string_text (Some s) xs \<longrightarrow> \<not> occurs_at os xs k"
    proof (intro allI impI notI)
      fix xs k
      assume eq: "ps' = ps \<and> ok' = ok \<and> old' = old \<and> new' = new" and txt0: "string_text (Some s) xs" and occ: "occurs_at os xs k"
      obtain pos where pos: "string_index_of_substr (Some s) (Some old) = Some pos" "0 \<le> pos"
        using string_index_finds [OF txt0 assms(1) occ] by blast
      let ?n = "size_sub (st_data_size s + st_data_size new) (st_data_size old)"
      obtain s1 d d1 d2 where r: "string_internal_adjust_storage ps ok (Some s) (size_sub ?n (st_data_size s)) = Some (Some s1)"
        "st_data s1 = Some d"
        "replace_at d (st_data_size s1) (nat pos) (st_data_size old) (case st_data new of None \<Rightarrow> [] | Some nd \<Rightarrow> nd)
          (st_data_size new) = Some d1" "mem_write d1 ?n 0 = Some d2"
        "f ps ok old new (s1\<lparr>st_data := Some d2, st_data_size := ?n\<rparr>) = Some w"
        using run eq pos by (auto simp: Let_def bind_eq_Some_conv)
      from replace_round_keeps [OF assms(1,2) txt0 pos r(1-4)]
      obtain a b where "string_text (Some (s1\<lparr>st_data := Some d2, st_data_size := ?n\<rparr>)) (a @ (u @ os @ v) @ b)" by blast
      with IH [OF r(5)] have "\<not> occurs_at os (a @ (u @ os @ v) @ b) (length a + length u)" by blast
      then show False by (simp add: occurs_at_def)
    qed
  qed
  from this [OF assms(3)] show "string_text (Some s) xs \<Longrightarrow> occurs_at os xs k \<Longrightarrow> False" by blast
qed

text \<open>
  C16: replacing everywhere does not end.  When the old text stands in the string and also in the new text,
  \<open>string_replace_substr_all\<close> has no result: every round finds the old text again, until memory runs out.
\<close>

theorem string_replace_all_hangs:
  assumes "string_term ps q old" "string_term ps r (u @ old @ v)" "old \<noteq> []" "occurs_at old xs k"
    "string_term ps p xs"
  shows "string_replace_substr_all ps ok p q r = None"
proof -
  obtain s where s: "p = Some s" using assms(5) by (rule string_termE)
  obtain o1 where o: "q = Some o1" "st_data_size o1 = length old" using assms(1) by (rule string_termE)
  obtain w where w: "r = Some w" using assms(2) by (rule string_termE)
  have "replace_substr_loop ps ok o1 w s = None"
    using replace_loop_hangs [of ps o1 old w u v ok s _ xs k] assms(1,2,4) string_term_text [OF assms(5)] s o w
    by (cases "replace_substr_loop ps ok o1 w s") auto
  moreover have "\<not> st_data_size o1 < 1" using o(2) assms(3) by (simp add: Suc_le_eq)
  ultimately show ?thesis using s o w by (simp add: string_replace_substr_all_def)
qed

theorem string_replace_all_hangs_witness:
  "string_replace_substr_all 8 True (test_string [65, 66] 6) (test_string [66] 7) (test_string [66, 66] 6) = None"
proof -
  have s: "string_term 8 (test_string [66] 7) [66]" "string_term 8 (test_string [66, 66] 6) ([] @ [66] @ [66])"
    "string_term 8 (test_string [65, 66] 6) [65, 66]"
    unfolding append.simps by (rule test_string_term; simp add: SIZE_MAX_def)+
  show ?thesis using string_replace_all_hangs [OF s(1,2) _ _ s(3), of 1 True] by (simp add: occurs_at_def)
qed

end
