(* ===== verification/StringList.thy ===== *)
theory StringList
  imports StringOps "HOL-Library.Multiset"
begin

text \<open>
  The strings of \<open>core/src/stringex.c\<close>, third part: splitting into key and value, lists of strings,
  joining, and the number printer that nothing calls.  A \<open>string_list_t\<close> owns an array of string
  structures, here the list of its elements; an element of a list is named by its index.  An array of C
  strings is the list of its cells, \<open>None\<close> for the NULL pointer at its end.
\<close>

section \<open>Library functions\<close>

text \<open>\<open>strcpy(dst + doff, src + soff)\<close> between two blocks, and \<open>strcat(dst, src)\<close>.\<close>

definition str_copy :: "byte list \<Rightarrow> nat \<Rightarrow> byte list \<Rightarrow> nat \<Rightarrow> byte list option" where
  "str_copy dst doff src soff =
     (if soff > length src then None
      else do { t \<leftarrow> c_string (drop soff src); mem_copy dst doff (t @ [0]) 0 (length t + 1) })"

definition str_cat :: "byte list \<Rightarrow> byte list \<Rightarrow> byte list option" where
  "str_cat dst src = do { n \<leftarrow> str_len dst; str_copy dst n src 0 }"

text \<open>\<open>strcmp\<close>: the first difference decides, the terminators taking part.\<close>

definition str_cmp :: "byte list \<Rightarrow> byte list \<Rightarrow> int option" where
  "str_cmp a b = do { s \<leftarrow> c_string a; t \<leftarrow> c_string b; Some (bytes_cmp (s @ [0]) (t @ [0])) }"

text \<open>
  \<open>strtok\<close>: skip delimiters, then everything up to the next one; with the token the rest of the text,
  where the next call goes on.
\<close>

definition str_tok :: "byte list \<Rightarrow> byte list \<Rightarrow> byte list option \<times> byte list" where
  "str_tok delims s =
     (let s' = dropWhile (\<lambda>c. c \<in> set delims) s
      in if s' = [] then (None, [])
         else (Some (takeWhile (\<lambda>c. c \<notin> set delims) s'), drop 1 (dropWhile (\<lambda>c. c \<notin> set delims) s')))"

section \<open>Key and value\<close>

text \<open>A \<open>long\<close> that becomes a \<open>size_t\<close>.\<close>

definition size_of_long :: "int \<Rightarrow> nat" where
  "size_of_long i = nat (i mod 2 ^ 64)"

text \<open>
  The last part of both splits: \<open>n\<close> is the length of the delimiter.  \<open>string_split_key_value_by_char\<close>
  does not look whether the key was allocated (\<open>checked\<close>).  The results are what \<open>*key\<close> and
  \<open>*value\<close> hold afterwards.
\<close>

definition split_at ::
  "nat \<Rightarrow> bool \<Rightarrow> bool list \<Rightarrow> string_t \<Rightarrow> nat \<Rightarrow> nat \<Rightarrow> string_t option \<Rightarrow> (string_t option \<times> string_t option) option" where
  "split_at ps checked oks s pos n key = do {
     d \<leftarrow> st_data s;
     key' \<leftarrow> (if pos > 0
             then (case string_allocate_length ps (oks ! 0) (oks ! 1) (pos + 1) of
                     None \<Rightarrow> if checked then Some None else None
                   | Some k \<Rightarrow> do {
                       kd \<leftarrow> st_data k;
                       kd' \<leftarrow> mem_copy kd 0 d 0 pos;
                       Some (Some (k\<lparr>st_data := Some kd'\<rparr>)) })
             else Some key);
     v \<leftarrow> string_allocate_length ps (oks ! 2) (oks ! 3) (size_of_long (int (st_data_size s) - int (pos + n) + 1));
     vd \<leftarrow> st_data v;
     vd' \<leftarrow> str_copy vd 0 d (pos + n);
     Some (key', Some (v\<lparr>st_data := Some vd'\<rparr>)) }"

definition string_split_key_value_by_char ::
  "nat \<Rightarrow> bool list \<Rightarrow> string_t option \<Rightarrow> byte \<Rightarrow> string_t option \<Rightarrow> string_t option \<Rightarrow> (string_t option \<times> string_t option) option" where
  "string_split_key_value_by_char ps oks str delimiter key value =
     (case str of
        None \<Rightarrow> Some (key, value)
      | Some s \<Rightarrow>
        if delimiter = 0 then Some (key, value)
        else do {
          pos \<leftarrow> string_index_of_char str delimiter;
          if pos < 0 then Some (key, value) else split_at ps False oks s (nat pos) 1 key })"

definition string_split_key_value_by_substr ::
  "nat \<Rightarrow> bool \<Rightarrow> bool \<Rightarrow> bool list \<Rightarrow> string_t option \<Rightarrow> byte list option \<Rightarrow> string_t option \<Rightarrow> string_t option \<Rightarrow>
   (string_t option \<times> string_t option) option" where
  "string_split_key_value_by_substr ps ok1 ok2 oks str delimiter key value =
     (case (str, delimiter) of
        (Some s, Some _) \<Rightarrow> do {
          delimeter_data \<leftarrow> string_allocate ps ok1 ok2 delimiter;
          pos \<leftarrow> string_index_of_substr str delimeter_data;
          if pos < 0 then Some (key, value)
          else do { dl \<leftarrow> delimeter_data; split_at ps True oks s (nat pos) (st_data_size dl) key } }
      | _ \<Rightarrow> Some (key, value))"

section \<open>Lists of strings\<close>

record string_list_t =
  sl_strings :: "string_t list option"
  sl_num_of_strings :: nat
  sl_current_index :: nat

definition string_list_allocate_default :: "bool \<Rightarrow> string_list_t option" where
  "string_list_allocate_default ok = (if ok then Some \<lparr>sl_strings = None, sl_num_of_strings = 0, sl_current_index = 0\<rparr> else None)"

text \<open>The array with room for one element more; \<open>realloc\<close> keeps what fits, the new element is written next.\<close>

definition grow_strings :: "string_list_t \<Rightarrow> string_t list" where
  "grow_strings l =
     (let blank = \<lparr>st_data = None, st_data_size = 0, st_memory_size = 0\<rparr>
      in case sl_strings l of
           None \<Rightarrow> [blank]
         | Some a \<Rightarrow> take (sl_num_of_strings l + 1) a @ replicate (sl_num_of_strings l + 1 - length a) blank)"

definition string_append_to_list :: "nat \<Rightarrow> bool \<Rightarrow> bool \<Rightarrow> bool \<Rightarrow> string_list_t option \<Rightarrow> byte list option \<Rightarrow> string_list_t option option" where
  "string_append_to_list ps ok1 ok2 ok3 strlist str =
     (case strlist of
        None \<Rightarrow> Some None
      | Some l \<Rightarrow>
        if str = None then Some strlist
        else do {
          new_string \<leftarrow> string_allocate ps ok1 ok2 str;
          case new_string of
            None \<Rightarrow> Some strlist
          | Some s \<Rightarrow>
              if \<not> ok3 then Some strlist
              else do {
                a \<leftarrow> mem_write (grow_strings l) (sl_num_of_strings l) s;
                Some (Some (l\<lparr>sl_strings := Some a, sl_num_of_strings := sl_num_of_strings l + 1\<rparr>)) } })"

definition string_append_string_to_list ::
  "nat \<Rightarrow> bool \<Rightarrow> bool \<Rightarrow> bool \<Rightarrow> string_list_t option \<Rightarrow> string_t option \<Rightarrow> string_list_t option option" where
  "string_append_string_to_list ps ok1 ok2 ok3 strlist str =
     (case (strlist, str) of
        (Some _, Some s) \<Rightarrow> string_append_to_list ps ok1 ok2 ok3 strlist (st_data s)
      | _ \<Rightarrow> Some strlist)"

text \<open>The answer is the index of the element whose address is returned.\<close>

definition string_get_first_from_list :: "string_list_t option \<Rightarrow> nat option \<times> string_list_t option" where
  "string_get_first_from_list strlist =
     (case strlist of
        None \<Rightarrow> (None, None)
      | Some l \<Rightarrow> if sl_num_of_strings l > 0 then (Some 0, Some (l\<lparr>sl_current_index := 0\<rparr>)) else (None, strlist))"

definition string_get_next_from_list :: "string_list_t option \<Rightarrow> nat option \<times> string_list_t option" where
  "string_get_next_from_list strlist =
     (case strlist of
        None \<Rightarrow> (None, None)
      | Some l \<Rightarrow>
        let c = (sl_current_index l + 1) mod 2 ^ 64
        in (if sl_num_of_strings l > 1 \<and> c < sl_num_of_strings l then Some c else None, Some (l\<lparr>sl_current_index := c\<rparr>)))"

text \<open>Releasing reads every element; the counter is an \<open>int\<close>.  There is nothing left afterwards.\<close>

definition string_free_list :: "string_list_t option \<Rightarrow> unit option" where
  "string_free_list strlist =
     (case strlist of
        None \<Rightarrow> Some ()
      | Some l \<Rightarrow>
        if sl_num_of_strings l = 0 then Some ()
        else do {
          a \<leftarrow> sl_strings l;
          if sl_num_of_strings l \<le> length a \<and> sl_num_of_strings l < 2 ^ 31 then Some () else None })"

section \<open>Sorting a list\<close>

definition element_text :: "string_t \<Rightarrow> byte list" where
  "element_text s = (case st_data s of None \<Rightarrow> [0] | Some d \<Rightarrow> d)"

function sort_inner :: "string_t list \<Rightarrow> nat \<Rightarrow> nat \<Rightarrow> nat \<Rightarrow> string_t list option" where
  "sort_inner a n i j =
     (if j < n
      then do {
        x \<leftarrow> mem_read a i;
        y \<leftarrow> mem_read a j;
        c \<leftarrow> str_cmp (element_text x) (element_text y);
        sort_inner (if c > 0 then a[i := y, j := x] else a) n i (j + 1) }
      else Some a)"
  by pat_completeness auto
termination by (relation "measure (\<lambda>(a, n, i, j). n - j)") auto

function sort_outer :: "string_t list \<Rightarrow> nat \<Rightarrow> nat \<Rightarrow> string_t list option" where
  "sort_outer a n i =
     (if i < n - 1 then do { a' \<leftarrow> sort_inner a n i (i + 1); sort_outer a' n (i + 1) } else Some a)"
  by pat_completeness auto
termination by (relation "measure (\<lambda>(a, n, i). n - i)") auto

declare sort_inner.simps [simp del] sort_outer.simps [simp del]

definition string_sort_list :: "string_list_t option \<Rightarrow> string_list_t option option" where
  "string_sort_list strlist =
     (case strlist of
        None \<Rightarrow> Some None
      | Some l \<Rightarrow>
        (case sl_strings l of
           None \<Rightarrow> Some strlist
         | Some a \<Rightarrow>
           if sl_num_of_strings l < 2 then Some strlist
           else do { a' \<leftarrow> sort_outer a (sl_num_of_strings l) 0; Some (Some (l\<lparr>sl_strings := Some a'\<rparr>)) }))"

section \<open>Splitting\<close>

text \<open>
  The loop over the tokens; \<open>plan (3 * k + i)\<close> says whether the \<open>i\<close>-th allocation of the \<open>k\<close>-th
  append succeeds.  An empty token would make the C loop run forever.
\<close>

lemma str_tok_shorter:
  assumes "str_tok delims s = (Some t, r)"
  shows "length r < length s"
proof -
  define s' where "s' = dropWhile (\<lambda>c. c \<in> set delims) s"
  define u where "u = dropWhile (\<lambda>c. c \<notin> set delims) s'"
  have "s' \<noteq> []" "r = drop 1 u"
    using assms unfolding str_tok_def Let_def s'_def [symmetric] u_def [symmetric] by (simp_all split: if_splits)
  moreover have "length u \<le> length s'" "length s' \<le> length s"
    unfolding u_def s'_def by (rule length_dropWhile_le)+
  moreover from \<open>s' \<noteq> []\<close> have "0 < length s'" by simp
  ultimately show ?thesis by (simp only: length_drop)
qed

function split_loop :: "nat \<Rightarrow> (nat \<Rightarrow> bool) \<Rightarrow> byte list \<Rightarrow> nat \<Rightarrow> byte list \<Rightarrow> string_list_t option \<Rightarrow> string_list_t option option" where
  "split_loop ps plan delims k rest strlist =
     (case str_tok delims rest of
        (None, _) \<Rightarrow> Some strlist
      | (Some t, rest') \<Rightarrow>
          if t = [] then None
          else do {
            l \<leftarrow> string_append_to_list ps (plan (3 * k)) (plan (3 * k + 1)) (plan (3 * k + 2)) strlist (Some (t @ [0]));
            split_loop ps plan delims (k + 1) rest' l })"
  by pat_completeness auto
termination
  by (relation "measure (\<lambda>(ps, plan, delims, k, rest, l). length rest)") (auto dest: str_tok_shorter [OF sym])

declare split_loop.simps [simp del]

definition string_split_by_substr ::
  "nat \<Rightarrow> bool \<Rightarrow> bool \<Rightarrow> bool \<Rightarrow> bool \<Rightarrow> (nat \<Rightarrow> bool) \<Rightarrow> string_t option \<Rightarrow> byte list option \<Rightarrow> string_list_t option option" where
  "string_split_by_substr ps ok1 ok2 ok3 ok4 plan str delimiter =
     (case (str, delimiter) of
        (Some s, Some dl) \<Rightarrow> do {
          delimeter_data \<leftarrow> string_allocate ps ok1 ok2 delimiter;
          substr_count \<leftarrow> string_count_substr str delimeter_data;
          if substr_count < 1 then Some None
          else if \<not> ok3 then Some None
          else do {
            d \<leftarrow> st_data s;
            ptr \<leftarrow> mem_copy (replicate (st_data_size s + 1) 0) 0 d 0 (st_data_size s);
            rest \<leftarrow> c_string ptr;
            delims \<leftarrow> c_string dl;
            split_loop ps plan delims 0 rest (string_list_allocate_default ok4) } }
      | _ \<Rightarrow> Some None)"

definition string_split_by_char ::
  "nat \<Rightarrow> bool \<Rightarrow> bool \<Rightarrow> bool \<Rightarrow> bool \<Rightarrow> (nat \<Rightarrow> bool) \<Rightarrow> string_t option \<Rightarrow> byte \<Rightarrow> string_list_t option option" where
  "string_split_by_char ps ok1 ok2 ok3 ok4 plan str delimiter =
     string_split_by_substr ps ok1 ok2 ok3 ok4 plan str (Some [delimiter, 0])"

section \<open>Joining\<close>

text \<open>The first loop of all four functions: how many strings there are and how long they are together.\<close>

fun list_lengths :: "byte list option list \<Rightarrow> nat \<Rightarrow> nat \<Rightarrow> (nat \<times> nat) option" where
  "list_lengths [] cnt len = None"
| "list_lengths (None # cells) cnt len = Some (cnt, len)"
| "list_lengths (Some b # cells) cnt len = do { t \<leftarrow> c_string b; list_lengths cells (cnt + 1) (len + length t) }"

text \<open>\<open>add\<close> puts a C string behind what is in the result; \<open>i\<close> counts up to \<open>count\<close>.\<close>

function join_loop :: "(byte list \<Rightarrow> byte list \<Rightarrow> byte list option) \<Rightarrow> byte list option list \<Rightarrow> byte list \<Rightarrow> nat \<Rightarrow> nat \<Rightarrow> byte list \<Rightarrow> byte list option" where
  "join_loop add cells delimiter cnt i res =
     (if i < cnt
      then do {
        cell \<leftarrow> mem_read cells i;
        b \<leftarrow> cell;
        r1 \<leftarrow> add res b;
        r2 \<leftarrow> (if i < cnt - 1 then add r1 delimiter else Some r1);
        join_loop add cells delimiter cnt (i + 1) r2 }
      else Some res)"
  by pat_completeness auto
termination by (relation "measure (\<lambda>(add, cells, delimiter, cnt, i, res). cnt - i)") auto

declare join_loop.simps [simp del]

definition join_with ::
  "(byte list \<Rightarrow> byte list \<Rightarrow> byte list option) \<Rightarrow> bool \<Rightarrow> byte list option list option \<Rightarrow> byte list option \<Rightarrow> byte list option option" where
  "join_with add ok strlist delimiter =
     (case (strlist, delimiter) of
        (Some cells, Some dl) \<Rightarrow> do {
          delimiter_len \<leftarrow> str_len dl;
          (cnt, len) \<leftarrow> list_lengths cells 0 0;
          if cnt = 0 then Some None
          else if \<not> ok then Some None
          else do {
            res \<leftarrow> join_loop add cells dl cnt 0 (replicate ((len + delimiter_len * (cnt - 1) + 1) mod 2 ^ 64) 0);
            Some (Some res) } }
      | _ \<Rightarrow> Some None)"

definition string_join_list_with_substr :: "bool \<Rightarrow> byte list option list option \<Rightarrow> byte list option \<Rightarrow> byte list option option" where
  "string_join_list_with_substr = join_with str_cat"

definition string_join_list_with_char :: "bool \<Rightarrow> byte list option list option \<Rightarrow> byte \<Rightarrow> byte list option option" where
  "string_join_list_with_char ok strlist delimiter = string_join_list_with_substr ok strlist (Some [delimiter, 0])"

text \<open>\<open>memcpy(result + strlen(result), src, strlen(src))\<close>: no terminator is written.\<close>

definition mem_cat :: "byte list \<Rightarrow> byte list \<Rightarrow> byte list option" where
  "mem_cat dst src = do { n \<leftarrow> str_len dst; len \<leftarrow> str_len src; mem_copy dst n src 0 len }"

definition string_merge_list_with_substr :: "bool \<Rightarrow> byte list option list option \<Rightarrow> byte list option \<Rightarrow> byte list option option" where
  "string_merge_list_with_substr = join_with mem_cat"

function merge_char_loop :: "byte list option list \<Rightarrow> byte \<Rightarrow> nat \<Rightarrow> nat \<Rightarrow> nat \<Rightarrow> byte list \<Rightarrow> (byte list \<times> nat) option" where
  "merge_char_loop cells delimiter cnt i pos merged_str =
     (if i < cnt
      then do {
        cell \<leftarrow> mem_read cells i;
        b \<leftarrow> cell;
        len \<leftarrow> str_len b;
        m1 \<leftarrow> mem_copy merged_str pos b 0 len;
        if i < cnt - 1
        then do { m2 \<leftarrow> mem_write m1 (pos + len) delimiter; merge_char_loop cells delimiter cnt (i + 1) (pos + len + 1) m2 }
        else merge_char_loop cells delimiter cnt (i + 1) (pos + len) m1 }
      else Some (merged_str, pos))"
  by pat_completeness auto
termination by (relation "measure (\<lambda>(cells, delimiter, cnt, i, pos, m). cnt - i)") auto

declare merge_char_loop.simps [simp del]

definition string_merge_list_with_char :: "bool \<Rightarrow> byte list option list option \<Rightarrow> byte \<Rightarrow> byte list option option" where
  "string_merge_list_with_char ok strlist delimiter =
     (case strlist of
        None \<Rightarrow> Some None
      | Some cells \<Rightarrow> do {
          (cnt, len) \<leftarrow> list_lengths cells 0 0;
          if cnt = 0 then Some (if ok then Some [0] else None)
          else if \<not> ok then Some None
          else do {
            (m, pos) \<leftarrow> merge_char_loop cells delimiter cnt 0 0 (replicate ((len + (cnt - 1) + 1) mod 2 ^ 64) 0);
            m' \<leftarrow> mem_write m pos 0;
            Some (Some m') } })"

section \<open>The printer of integers\<close>

text \<open>\<open>ptr\<close> has 32 bytes; the digits come last one first.\<close>

function from_int_loop :: "int \<Rightarrow> nat \<Rightarrow> byte list \<Rightarrow> (byte list \<times> nat) option" where
  "from_int_loop dividend ctr ptr =
     (if dividend > 0 \<and> ctr < 32
      then do { p \<leftarrow> mem_write ptr ctr (word_of_int (dividend mod 10 + 48)); from_int_loop (dividend div 10) (ctr + 1) p }
      else Some (ptr, ctr))"
  by pat_completeness auto
termination by (relation "measure (\<lambda>(dividend, ctr, ptr). 32 - ctr)") auto

declare from_int_loop.simps [simp del]

definition string_internal_from_int :: "bool \<Rightarrow> int \<Rightarrow> byte list option option" where
  "string_internal_from_int ok num =
     (if \<not> ok then Some None
      else if num = - LONG_MAX - 1 then None
      else do {
        (ptr, ctr) \<leftarrow> from_int_loop \<bar>num\<bar> 0 (replicate 32 0);
        ptr' \<leftarrow> (if num < 1 then mem_write ptr ctr 45 else Some ptr);
        res \<leftarrow> reverse_loop ptr' 0 (if num < 1 then ctr else ctr - 1);
        Some (Some res) })"

section \<open>Joining: what comes out\<close>

fun joined :: "byte list \<Rightarrow> byte list list \<Rightarrow> byte list" where
  "joined ds [] = []"
| "joined ds [t] = t"
| "joined ds (t # u # ts) = t @ ds @ joined ds (u # ts)"

lemma joined_Cons: "joined ds (t # ts) = t @ (if ts = [] then [] else ds @ joined ds ts)"
  by (cases ts) auto

lemma length_joined: "length (joined ds ts) = sum_list (map length ts) + length ds * (length ts - 1)"
  by (induction ds ts rule: joined.induct) auto

lemma set_joined: "0 \<notin> set ds \<Longrightarrow> \<forall>t \<in> set ts. 0 \<notin> set t \<Longrightarrow> 0 \<notin> set (joined ds ts)"
  by (induction ds ts rule: joined.induct) auto

text \<open>An array of C strings that read as the given texts, with the NULL pointer at its end.\<close>

definition cells_hold :: "byte list option list \<Rightarrow> byte list list \<Rightarrow> bool" where
  "cells_hold cells ts = (\<exists>bs z. cells = map Some bs @ None # z \<and> list_all2 (\<lambda>b t. c_string b = Some t) bs ts)"

lemma cells_hold_at:
  assumes "cells_hold cells ts" "i < length ts"
  shows "\<exists>b. mem_read cells i = Some (Some b) \<and> c_string b = Some (ts ! i)"
  using assms by (auto simp: cells_hold_def mem_read_def nth_append list_all2_conv_all_nth)

lemma cells_hold_lengths:
  assumes "cells_hold cells ts"
  shows "list_lengths cells n k = Some (n + length ts, k + sum_list (map length ts))"
proof -
  obtain bs z where bs: "cells = map Some bs @ None # z" "list_all2 (\<lambda>b t. c_string b = Some t) bs ts"
    using assms by (auto simp: cells_hold_def)
  have "list_lengths (map Some bs @ None # z) n k = Some (n + length ts, k + sum_list (map length ts))"
    using bs(2) by (induction bs ts arbitrary: n k rule: list_all2_induct) simp_all
  with bs(1) show ?thesis by simp
qed

lemma cells_hold_no_zero:
  assumes "cells_hold cells ts" "t \<in> set ts"
  shows "0 \<notin> set t"
proof -
  obtain i where "i < length ts" "ts ! i = t" using assms(2) by (metis in_set_conv_nth)
  with cells_hold_at [OF assms(1)] show ?thesis by (metis c_stringE)
qed

text \<open>
  The interface of the two loops: a function that puts a C string behind the text in a zeroed block, provided
  a zero is left behind it.
\<close>

locale text_adder =
  fixes add :: "byte list \<Rightarrow> byte list \<Rightarrow> byte list option"
  assumes add_text: "0 \<notin> set acc \<Longrightarrow> c_string b = Some t \<Longrightarrow> length t < k \<Longrightarrow>
    add (acc @ replicate k 0) b = Some ((acc @ t) @ replicate (k - length t) 0)"
begin

lemma join_loop_text:
  assumes "cells_hold cells ts" "c_string dl = Some ds"
  shows "drop i ts = us \<Longrightarrow> i \<le> length ts \<Longrightarrow> 0 \<notin> set acc \<Longrightarrow> length (joined ds us) < k \<Longrightarrow>
    join_loop add cells dl (length ts) i (acc @ replicate k 0) =
      Some ((acc @ joined ds us) @ replicate (k - length (joined ds us)) 0)"
proof (induction us arbitrary: i acc k)
  case Nil
  then show ?case by (simp add: join_loop.simps)
next
  case (Cons t us)
  have i: "i < length ts" "ts ! i = t" "drop (Suc i) ts = us"
    using Cons.prems(1) by (metis drop_eq_Nil list.discI not_less, metis nth_via_drop, metis drop_Suc tl_drop list.sel(3))
  obtain b where b: "mem_read cells i = Some (Some b)" "c_string b = Some t"
    using cells_hold_at [OF assms(1) i(1)] i(2) by auto
  have nz: "0 \<notin> set t" "0 \<notin> set ds" using b(2) assms(2) by (auto elim: c_stringE)
  have a: "add (acc @ replicate k 0) b = Some ((acc @ t) @ replicate (k - length t) 0)"
    by (rule add_text) (use Cons.prems(3,4) b(2) in \<open>auto simp: joined_Cons split: if_splits\<close>)
  show ?case
  proof (cases "us = []")
    case True
    then have last: "length ts = Suc i" using i(1,3) by simp
    have "join_loop add cells dl (length ts) (Suc i) ((acc @ t) @ replicate (k - length t) 0) =
        Some ((acc @ t) @ replicate (k - length t) 0)"
      using last by (simp add: join_loop.simps)
    then show ?thesis
      using a b(1) i(1) last True by (simp add: join_loop.simps [of add cells dl _ i] del: append_assoc)
  next
    case False
    then have more: "i < length ts - 1" using i(1,3) by (metis Suc_lessI diff_Suc_1 drop_eq_Nil less_Suc_eq_le less_imp_Suc_add not_less)
    have len: "length t + (length ds + length (joined ds us)) < k" using Cons.prems(4) False by (simp add: joined_Cons)
    have d: "add ((acc @ t) @ replicate (k - length t) 0) dl = Some (((acc @ t) @ ds) @ replicate (k - length t - length ds) 0)"
      by (rule add_text) (use Cons.prems(3) nz assms(2) len in auto)
    have "join_loop add cells dl (length ts) (Suc i) (((acc @ t) @ ds) @ replicate (k - length t - length ds) 0) =
        Some ((((acc @ t) @ ds) @ joined ds us) @ replicate (k - length t - length ds - length (joined ds us)) 0)"
      by (rule Cons.IH) (use i Cons.prems(3) nz len in auto)
    then show ?thesis
      using a b(1) i(1) more d False
      by (simp add: join_loop.simps [of add cells dl _ i] joined_Cons del: append_assoc)
  qed
qed

lemma join_with_text:
  assumes "cells_hold cells ts" "c_string dl = Some ds" "ts \<noteq> []" "length (joined ds ts) < SIZE_MAX"
  shows "join_with add True (Some cells) (Some dl) = Some (Some (joined ds ts @ [0]))"
proof -
  have total: "(sum_list (map length ts) + length ds * (length ts - 1) + 1) mod 2 ^ 64 = length (joined ds ts) + 1"
    using assms(4) by (simp add: length_joined SIZE_MAX_def)
  show ?thesis
    using join_loop_text [OF assms(1,2), of 0 ts "[]" "length (joined ds ts) + 1"] assms(2,3) total
    by (simp add: join_with_def str_len_def cells_hold_lengths [OF assms(1)])
qed

end

lemma str_len_text: "0 \<notin> set xs \<Longrightarrow> 0 < k \<Longrightarrow> str_len (xs @ replicate k 0) = Some (length xs)"
  by (cases k) (simp_all add: str_len_def del: replicate_Suc)

interpretation cat: text_adder str_cat
proof
  fix acc b t :: "byte list" and k
  assume "0 \<notin> set acc" "c_string b = Some t" "length t < k"
  then show "str_cat (acc @ replicate k 0) b = Some ((acc @ t) @ replicate (k - length t) 0)"
    using str_len_text [of acc k] by (cases "k - length t") (auto simp: str_cat_def str_copy_def mem_copy_Some)
qed

interpretation mem: text_adder mem_cat
proof
  fix acc b t :: "byte list" and k
  assume *: "0 \<notin> set acc" "c_string b = Some t" "length t < k"
  from *(2) obtain r where "b = t @ 0 # r" by (rule c_stringE)
  moreover have "str_len b = Some (length t)" using *(2) by (simp add: str_len_def)
  ultimately show "mem_cat (acc @ replicate k 0) b = Some ((acc @ t) @ replicate (k - length t) 0)"
    using * str_len_text [of acc k] by (simp add: mem_cat_def mem_copy_Some)
qed

lemma merge_char_loop_text:
  assumes "cells_hold cells ts"
  shows "drop i ts = us \<Longrightarrow> i \<le> length ts \<Longrightarrow> length (joined [c] us) < k \<Longrightarrow>
    merge_char_loop cells c (length ts) i (length acc) (acc @ replicate k 0) =
      Some ((acc @ joined [c] us) @ replicate (k - length (joined [c] us)) 0, length acc + length (joined [c] us))"
proof (induction us arbitrary: i acc k)
  case Nil
  then show ?case by (simp add: merge_char_loop.simps)
next
  case (Cons t us)
  have i: "i < length ts" "ts ! i = t" "drop (Suc i) ts = us"
    using Cons.prems(1) by (metis drop_eq_Nil list.discI not_less, metis nth_via_drop, metis drop_Suc tl_drop list.sel(3))
  obtain b where b: "mem_read cells i = Some (Some b)" "c_string b = Some t"
    using cells_hold_at [OF assms(1) i(1)] i(2) by auto
  from b(2) obtain r where r: "b = t @ 0 # r" by (rule c_stringE)
  have lt: "length t < k" using Cons.prems(3) by (auto simp: joined_Cons split: if_splits)
  have len: "str_len b = Some (length t)" using b(2) by (simp add: str_len_def)
  have m1: "mem_copy (acc @ replicate k 0) (length acc) b 0 (length t) = Some ((acc @ t) @ replicate (k - length t) 0)"
    using lt r by (simp add: mem_copy_Some)
  show ?case
  proof (cases "us = []")
    case True
    then have last: "length ts = Suc i" using i(1,3) by simp
    have "merge_char_loop cells c (length ts) (Suc i) (length acc + length t) ((acc @ t) @ replicate (k - length t) 0) =
        Some ((acc @ t) @ replicate (k - length t) 0, length acc + length t)"
      using last by (simp add: merge_char_loop.simps)
    then show ?thesis
      using m1 b(1) len i(1) last True by (simp add: merge_char_loop.simps [of cells c _ i] del: append_assoc)
  next
    case False
    then have more: "i < length ts - 1" using i(1,3) by (metis Suc_lessI diff_Suc_1 drop_eq_Nil less_Suc_eq_le less_imp_Suc_add not_less)
    have lt2: "length t + (1 + length (joined [c] us)) < k" using Cons.prems(3) False by (simp add: joined_Cons)
    obtain k' where k': "k - length t = Suc k'" using lt by (cases "k - length t") auto
    have m2: "mem_write ((acc @ t) @ replicate (k - length t) 0) (length acc + length t) c = Some ((acc @ t @ [c]) @ replicate k' 0)"
      unfolding k' by (simp add: list_update_append)
    have "merge_char_loop cells c (length ts) (Suc i) (length (acc @ t @ [c])) ((acc @ t @ [c]) @ replicate k' 0) =
        Some (((acc @ t @ [c]) @ joined [c] us) @ replicate (k' - length (joined [c] us)) 0, length (acc @ t @ [c]) + length (joined [c] us))"
      by (rule Cons.IH) (use i lt2 k' in auto)
    then show ?thesis
      using m1 m2 b(1) len i(1) more False k' lt2
      by (simp add: merge_char_loop.simps [of cells c _ i] joined_Cons del: append_assoc)
  qed
qed

lemma merge_char_text:
  assumes "cells_hold cells ts" "ts \<noteq> []" "length (joined [c] ts) < SIZE_MAX"
  shows "string_merge_list_with_char True (Some cells) c = Some (Some (joined [c] ts @ [0]))"
proof -
  have total: "(sum_list (map length ts) + (length ts - 1) + 1) mod 2 ^ 64 = length (joined [c] ts) + 1"
    using assms(3) by (simp add: length_joined SIZE_MAX_def)
  have "mem_write (joined [c] ts @ [0]) (length (joined [c] ts)) 0 = Some (joined [c] ts @ [0])"
    by (simp add: list_update_append)
  then show ?thesis
    using merge_char_loop_text [OF assms(1), of 0 ts c "length (joined [c] ts) + 1" "[]"] assms(2) total
    by (simp add: string_merge_list_with_char_def cells_hold_lengths [OF assms(1)])
qed

text \<open>
  The joins agree.  For a nonempty array of texts and a delimiter other than NUL, with memory available,
  joining and merging, by a character or by a text of that character, give the same C string: the texts with the
  delimiter between them, in a block of exactly that length and its terminator.
\<close>

theorem string_joins_agree:
  assumes "cells_hold cells ts" "ts \<noteq> []" "c \<noteq> 0" "length (joined [c] ts) < SIZE_MAX"
  shows "string_join_list_with_char True (Some cells) c = Some (Some (joined [c] ts @ [0])) \<and>
    string_join_list_with_substr True (Some cells) (Some [c, 0]) = Some (Some (joined [c] ts @ [0])) \<and>
    string_merge_list_with_substr True (Some cells) (Some [c, 0]) = Some (Some (joined [c] ts @ [0])) \<and>
    string_merge_list_with_char True (Some cells) c = Some (Some (joined [c] ts @ [0]))"
proof -
  have "c_string [c, 0] = Some [c]" using c_string_exact [of "[c]" "[]"] assms(3) by simp
  from cat.join_with_text [OF assms(1) this assms(2,4)] mem.join_with_text [OF assms(1) this assms(2,4)]
    merge_char_text [OF assms(1,2,4)]
  show ?thesis
    by (simp add: string_join_list_with_char_def string_join_list_with_substr_def string_merge_list_with_substr_def)
qed

theorem string_joins_agree_witness:
  "string_merge_list_with_char True (Some [Some [65, 66, 0], Some [0], Some [67, 0, 9], None]) 44 =
     Some (Some [65, 66, 44, 44, 67, 0])"
proof -
  have "cells_hold [Some [65, 66, 0], Some [0], Some [67, 0, 9], None] [[65, 66], [], [67]]"
    unfolding cells_hold_def by (rule exI [of _ "[[65, 66, 0], [0], [67, 0, 9]]"]) (simp add: c_string_def)
  from string_joins_agree [OF this, of 44] show ?thesis by (simp add: SIZE_MAX_def)
qed

section \<open>Splitting: the fields of a text\<close>

text \<open>The parts of a text between the characters of \<open>ds\<close>, and those that are not empty.\<close>

fun fields :: "byte list \<Rightarrow> byte list \<Rightarrow> byte list list" where
  "fields ds [] = [[]]"
| "fields ds (c # xs) =
     (if c \<in> set ds then [] # fields ds xs
      else (case fields ds xs of [] \<Rightarrow> [[c]] | f # fs \<Rightarrow> (c # f) # fs))"

definition tokens :: "byte list \<Rightarrow> byte list \<Rightarrow> byte list list" where
  "tokens ds xs = filter (\<lambda>f. f \<noteq> []) (fields ds xs)"

lemma fields_free: "set t \<inter> set ds = {} \<Longrightarrow> fields ds t = [t]"
  by (induction t) auto

lemma fields_cut: "set t \<inter> set ds = {} \<Longrightarrow> c \<in> set ds \<Longrightarrow> fields ds (t @ c # r) = t # fields ds r"
  by (induction t) auto

lemma tokens_Nil [simp]: "tokens ds [] = []"
  by (simp add: tokens_def)

lemma tokens_skip: "tokens ds (dropWhile (\<lambda>c. c \<in> set ds) xs) = tokens ds xs"
  by (induction xs) (auto simp: tokens_def)

lemma str_tok_tokens:
  "str_tok ds xs = (None, r) \<Longrightarrow> tokens ds xs = []"
  "str_tok ds xs = (Some t, r) \<Longrightarrow> t \<noteq> [] \<and> tokens ds xs = t # tokens ds r \<and> set t \<subseteq> set xs \<and> set r \<subseteq> set xs"
proof -
  define s where "s = dropWhile (\<lambda>c. c \<in> set ds) xs"
  have tok: "str_tok ds xs = (if s = [] then (None, []) else (Some (takeWhile (\<lambda>c. c \<notin> set ds) s), drop 1 (dropWhile (\<lambda>c. c \<notin> set ds) s)))"
    by (simp add: str_tok_def Let_def s_def)
  show "str_tok ds xs = (None, r) \<Longrightarrow> tokens ds xs = []"
    using tokens_skip [of ds xs] unfolding tok s_def [symmetric] by (auto split: if_splits)
  assume *: "str_tok ds xs = (Some t, r)"
  then have t: "s \<noteq> []" "t = takeWhile (\<lambda>c. c \<notin> set ds) s" "r = drop 1 (dropWhile (\<lambda>c. c \<notin> set ds) s)"
    unfolding tok by (auto split: if_splits)
  have "hd s \<notin> set ds" using t(1) hd_dropWhile [of "\<lambda>c. c \<in> set ds" xs] unfolding s_def by auto
  then have ne: "t \<noteq> []" using t(1,2) by (cases s) auto
  have free: "set t \<inter> set ds = {}" unfolding t(2) using set_takeWhileD by fastforce
  have s_eq: "s = t @ dropWhile (\<lambda>c. c \<notin> set ds) s" unfolding t(2) by simp
  have "tokens ds s = t # tokens ds r"
  proof (cases "dropWhile (\<lambda>c. c \<notin> set ds) s")
    case Nil
    have "s = t" "r = []" using s_eq [unfolded Nil] t(3) [unfolded Nil] by simp_all
    then show ?thesis using fields_free [OF free] ne by (simp add: tokens_def)
  next
    case (Cons c u)
    have "c \<in> set ds" using hd_dropWhile [of "\<lambda>c. c \<notin> set ds" s] unfolding Cons by simp
    moreover have "s = t @ c # u" "r = u" using s_eq [unfolded Cons] t(3) [unfolded Cons] by simp_all
    ultimately show ?thesis using fields_cut [OF free] ne by (simp add: tokens_def)
  qed
  then have "tokens ds xs = t # tokens ds r" using tokens_skip [of ds xs] unfolding s_def by simp
  moreover have "set s \<subseteq> set xs" unfolding s_def by (auto dest: set_dropWhileD)
  then have "set t \<subseteq> set xs" "set r \<subseteq> set xs"
    unfolding t(2,3) by (auto dest!: set_takeWhileD set_dropWhileD in_set_dropD)
  ultimately show "t \<noteq> [] \<and> tokens ds xs = t # tokens ds r \<and> set t \<subseteq> set xs \<and> set r \<subseteq> set xs" using ne by simp
qed

text \<open>A list whose elements are usable strings with the given texts.\<close>

definition strings_held :: "nat \<Rightarrow> string_list_t option \<Rightarrow> byte list list \<Rightarrow> bool" where
  "strings_held ps p ts = (\<exists>l. p = Some l \<and> sl_num_of_strings l = length ts \<and>
     (case sl_strings l of None \<Rightarrow> ts = [] | Some a \<Rightarrow> list_all2 (\<lambda>s t. string_rep ps (Some s) t) a ts))"

lemma append_to_strings_held:
  assumes "strings_held ps p ts" "c_string d = Some t" "length t \<le> SIZE_MAX div 2" "0 < ps" "ps \<le> SIZE_MAX div 4"
  shows "\<exists>q. string_append_to_list ps True True True p (Some d) = Some q \<and> strings_held ps q (ts @ [t])"
proof -
  obtain l where l: "p = Some l" "sl_num_of_strings l = length ts"
    "case sl_strings l of None \<Rightarrow> ts = [] | Some a \<Rightarrow> list_all2 (\<lambda>s t. string_rep ps (Some s) t) a ts"
    using assms(1) by (auto simp: strings_held_def)
  obtain s where s: "string_allocate ps True True (Some d) = Some (Some s)" "string_rep ps (Some s) t"
    using string_allocate_rep [OF assms(2-5)] by (auto elim: string_repE)
  define a where "a = (case sl_strings l of None \<Rightarrow> [] | Some a \<Rightarrow> a)"
  have a: "list_all2 (\<lambda>s t. string_rep ps (Some s) t) a ts" using l(3) by (auto simp: a_def split: option.splits)
  have len: "length a = length ts" using a by (rule list_all2_lengthD)
  obtain b where "grow_strings l = a @ [b]"
    using len l(2,3) by (auto simp: grow_strings_def a_def Let_def split: option.splits)
  then have "mem_write (grow_strings l) (sl_num_of_strings l) s = Some (a @ [s])"
    using l(2) len by (simp add: list_update_append)
  then have "string_append_to_list ps True True True p (Some d) =
      Some (Some (l\<lparr>sl_strings := Some (a @ [s]), sl_num_of_strings := sl_num_of_strings l + 1\<rparr>))"
    using l(1) s(1) by (simp add: string_append_to_list_def)
  moreover have "list_all2 (\<lambda>s t. string_rep ps (Some s) t) (a @ [s]) (ts @ [t])"
    using a s(2) by (simp add: list_all2_appendI)
  ultimately show ?thesis using l(2) by (auto simp: strings_held_def)
qed

lemma split_loop_holds:
  assumes "0 < ps" "ps \<le> SIZE_MAX div 4"
  shows "strings_held ps p ts \<Longrightarrow> 0 \<notin> set rest \<Longrightarrow> length rest \<le> SIZE_MAX div 2 \<Longrightarrow>
    \<exists>q. split_loop ps (\<lambda>_. True) delims k rest p = Some q \<and> strings_held ps q (ts @ tokens delims rest)"
proof (induction "length rest" arbitrary: rest k p ts rule: less_induct)
  case less
  show ?case
  proof (cases "str_tok delims rest")
    case (Pair tok r)
    show ?thesis
    proof (cases tok)
      case None
      then show ?thesis
        using Pair less.prems(1) str_tok_tokens(1) [of delims rest r] by (simp add: split_loop.simps [of ps _ delims k rest p])
    next
      case (Some t)
      then have tok: "str_tok delims rest = (Some t, r)" using Pair by simp
      note t = str_tok_tokens(2) [OF tok] and shorter = str_tok_shorter [OF tok]
      have t0: "0 \<notin> set t" "length t \<le> length rest"
        using t less.prems(2) tok by (auto simp: str_tok_def Let_def split: if_splits)
          (meson dual_order.trans length_dropWhile_le length_takeWhile_le)
      have "c_string (t @ [0]) = Some t" using c_string_exact [OF t0(1), of "[]"] .
      then obtain q where q: "string_append_to_list ps True True True p (Some (t @ [0])) = Some q" "strings_held ps q (ts @ [t])"
        using append_to_strings_held [OF less.prems(1), of "t @ [0]" t] t0(2) less.prems(3) assms by auto
      have "\<exists>w. split_loop ps (\<lambda>_. True) delims (k + 1) r q = Some w \<and> strings_held ps w ((ts @ [t]) @ tokens delims r)"
        by (rule less.hyps [OF shorter q(2)]) (use t less.prems(2,3) shorter in auto)
      then show ?thesis using tok t q(1) by (simp add: split_loop.simps [of ps _ delims k rest p])
    qed
  qed
qed

lemma count_substr_mono: "n \<le> count_substr_loop sub s n"
proof (induction sub s n rule: count_substr_loop.induct)
  case (1 sub s n)
  then show ?case by (subst count_substr_loop.simps) (fastforce split: option.splits)
qed

lemma count_substr_found: "sub \<noteq> [] \<Longrightarrow> 1 \<le> count_substr_loop sub s 0 \<longleftrightarrow> (\<exists>k. occurs_at sub s k)"
  using count_substr_mono [of 1 sub] str_find_None [of sub s] str_find_Some [of sub s]
  by (subst count_substr_loop.simps) (auto split: option.splits)

text \<open>
  Splitting.  When the delimiter text occurs in a terminated string, \<open>string_split_by_substr\<close> gives a list of usable
  strings: the nonempty parts of the string between the single characters of the delimiter, in order; when it does not
  occur, NULL.
\<close>

theorem string_split_correct:
  assumes "string_term ps p xs" "c_string dl = Some ds" "length ds mod ps \<noteq> 0" "length ds \<le> SIZE_MAX div 2"
    "length xs \<le> SIZE_MAX div 2"
  shows "\<exists>q. string_split_by_substr ps True True True True (\<lambda>_. True) p (Some dl) = Some q \<and>
    (if \<exists>k. occurs_at ds xs k then strings_held ps q (tokens ds xs) else q = None)"
proof -
  obtain s n where s: "p = Some s" "st_data s = Some (xs @ replicate (Suc n) 0)" "st_data_size s = length xs" "0 < ps"
    "ps \<le> SIZE_MAX div 4" "0 \<notin> set xs"
    using assms(1) by (rule string_termE)
  have ds: "ds \<noteq> []" using assms(3) by auto
  obtain e where e: "string_allocate ps True True (Some dl) = Some e" "string_rep ps e ds"
    using string_allocate_rep [OF assms(2,4) s(4,5)] by blast
  obtain e1 m where e1: "e = Some e1" "st_data e1 = Some (ds @ replicate (Suc m) 0)" "0 \<notin> set ds"
    using string_rep_term [OF e(2) assms(3)] by (rule string_termE)
  have cnt: "string_count_substr p e = Some (count_substr_loop ds xs 0)"
    using s(1,2,6) e1 ds by (simp add: string_count_substr_def del: replicate_Suc)
  show ?thesis
  proof (cases "\<exists>k. occurs_at ds xs k")
    case False
    then have "count_substr_loop ds xs 0 < 1" using count_substr_found [OF ds, of xs] by (meson not_le)
    then show ?thesis using False s(1) e(1) cnt by (simp add: string_split_by_substr_def)
  next
    case True
    then have "\<not> count_substr_loop ds xs 0 < 1" using count_substr_found [OF ds, of xs] by (meson not_le)
    moreover have "mem_copy (replicate (length xs + 1) 0) 0 (xs @ replicate (Suc n) 0) 0 (length xs) = Some (xs @ [0])"
      using replicate_append_same [of "length xs" "0 :: byte"] by (simp add: mem_copy_Some flip: replicate_append_same)
    moreover have "c_string (xs @ [0]) = Some xs" using c_string_exact [OF s(6), of "[]"] .
    ultimately have "string_split_by_substr ps True True True True (\<lambda>_. True) p (Some dl) =
        split_loop ps (\<lambda>_. True) ds 0 xs (string_list_allocate_default True)"
      using s(1-3) e(1) cnt assms(2) by (simp add: string_split_by_substr_def del: replicate_Suc)
    moreover have "strings_held ps (string_list_allocate_default True) []"
      by (simp add: strings_held_def string_list_allocate_default_def)
    ultimately show ?thesis using split_loop_holds [OF s(4,5) _ s(6) assms(5), of "string_list_allocate_default True" "[]" ds 0] True
      by simp
  qed
qed

theorem string_split_correct_witness:
  "\<exists>q. string_split_by_substr 8 True True True True (\<lambda>_. True) (test_string [65, 44, 66, 32, 67, 44, 32] 1) (Some [44, 32, 0]) = Some q \<and>
     strings_held 8 q [[65], [66], [67]]"
proof -
  have s: "string_term 8 (test_string [65, 44, 66, 32, 67, 44, 32] 1) [65, 44, 66, 32, 67, 44, 32]"
    by (rule test_string_term) (simp_all add: SIZE_MAX_def)
  have "occurs_at [44, 32] [65, 44, 66, 32, 67, 44, 32] 5" by (simp add: occurs_at_def)
  moreover have "tokens [44, 32] [65, 44, 66, 32, 67, 44, 32] = [[65], [66], [67]]" by (simp add: tokens_def)
  ultimately show ?thesis using string_split_correct [OF s, of "[44, 32, 0]" "[44, 32]"]
    by (simp add: c_string_def SIZE_MAX_def) (metis (full_types))
qed

lemma fields_joined:
  assumes "ts \<noteq> []" "\<forall>t \<in> set ts. c \<notin> set t"
  shows "fields [c] (joined [c] ts) = ts"
  using assms
proof (induction ts)
  case (Cons t ts)
  then show ?case
    using fields_free [of t "[c]"] fields_cut [of t "[c]" c "joined [c] ts"] by (cases "ts = []") (auto simp: joined_Cons)
qed simp

lemma occurs_joined: "2 \<le> length ts \<Longrightarrow> occurs_at [c] (joined [c] ts) (length (hd ts))"
  by (cases ts) (auto simp: joined_Cons occurs_at_def)

text \<open>
  C17: splitting undoes joining.  Two or more nonempty texts without the delimiter, joined by
  \<open>string_join_list_with_char\<close> and made into a string whose length does not fill whole pages, are the elements of the list
  that \<open>string_split_by_char\<close> gives.
\<close>

theorem string_join_split_roundtrip:
  assumes "cells_hold cells ts" "2 \<le> length ts" "\<forall>t \<in> set ts. t \<noteq> [] \<and> c \<notin> set t" "c \<noteq> 0" "1 < ps" "ps \<le> SIZE_MAX div 4"
    "length (joined [c] ts) \<le> SIZE_MAX div 2" "length (joined [c] ts) mod ps \<noteq> 0"
  shows "\<exists>r p q. string_join_list_with_char True (Some cells) c = Some (Some r) \<and>
    string_allocate ps True True (Some r) = Some p \<and>
    string_split_by_char ps True True True True (\<lambda>_. True) p c = Some q \<and> strings_held ps q ts"
proof -
  let ?xs = "joined [c] ts"
  have del: "c_string [c, 0] = Some [c]" using c_string_exact [of "[c]" "[]"] assms(4) by simp
  have ne: "ts \<noteq> []" using assms(2) by auto
  have join: "string_join_list_with_char True (Some cells) c = Some (Some (?xs @ [0]))"
    using cat.join_with_text [OF assms(1) del ne] assms(7)
    by (simp add: string_join_list_with_char_def string_join_list_with_substr_def SIZE_MAX_def)
  have "0 \<notin> set ?xs" by (rule set_joined) (use assms(4) cells_hold_no_zero [OF assms(1)] in auto)
  then have cs: "c_string (?xs @ [0]) = Some ?xs" using c_string_exact [of ?xs "[]"] by simp
  obtain p where p: "string_allocate ps True True (Some (?xs @ [0])) = Some p" "string_rep ps p ?xs"
    using string_allocate_rep [OF cs assms(7) _ assms(6)] assms(5) by auto
  have "length [c] mod ps \<noteq> 0" "length [c] \<le> SIZE_MAX div 2" using assms(5) by (simp_all add: SIZE_MAX_def)
  from string_split_correct [OF string_rep_term [OF p(2) assms(8)] del this assms(7)]
  obtain q where "string_split_by_substr ps True True True True (\<lambda>_. True) p (Some [c, 0]) = Some q" "strings_held ps q (tokens [c] ?xs)"
    using occurs_joined [OF assms(2), of c] by (metis (full_types))
  moreover have "tokens [c] ?xs = ts"
    using fields_joined [OF ne] assms(3) by (simp add: tokens_def)
  ultimately show ?thesis using join p(1) by (auto simp: string_split_by_char_def)
qed

theorem string_join_split_roundtrip_witness:
  "\<exists>r p q. string_join_list_with_char True (Some [Some [65, 66, 0], Some [67, 0], None]) 44 = Some (Some r) \<and>
     string_allocate 8 True True (Some r) = Some p \<and>
     string_split_by_char 8 True True True True (\<lambda>_. True) p 44 = Some q \<and> strings_held 8 q [[65, 66], [67]]"
proof -
  have "cells_hold [Some [65, 66, 0], Some [67, 0], None] [[65, 66], [67]]"
    unfolding cells_hold_def by (rule exI [of _ "[[65, 66, 0], [67, 0]]"]) (simp add: c_string_def)
  from string_join_split_roundtrip [OF this, of 44 8] show ?thesis by (simp add: SIZE_MAX_def)
qed

section \<open>Sorting: what comes out\<close>

definition text_of :: "string_t \<Rightarrow> byte list" where
  "text_of s = the (c_string (element_text s))"

definition text_before :: "string_t \<Rightarrow> string_t \<Rightarrow> bool" where
  "text_before x y = lexordp_eq (text_of x) (text_of y)"

lemma bytes_cmp_lex:
  "0 \<notin> set s \<Longrightarrow> 0 \<notin> set t \<Longrightarrow> bytes_cmp (s @ [0]) (t @ [0]) > 0 \<longleftrightarrow> \<not> lexordp_eq s t"
proof (induction s arbitrary: t)
  case Nil
  then show ?case by (cases t) (auto simp: word_neq_0_conv)
next
  case (Cons c s)
  then show ?case by (cases t) (auto simp: word_neq_0_conv)
qed

lemma str_cmp_before:
  assumes "c_string (element_text x) \<noteq> None" "c_string (element_text y) \<noteq> None"
  shows "\<exists>c. str_cmp (element_text x) (element_text y) = Some c \<and> (c > 0 \<longleftrightarrow> \<not> text_before x y)"
proof -
  obtain s t where *: "c_string (element_text x) = Some s" "c_string (element_text y) = Some t" using assms by auto
  then have "0 \<notin> set s" "0 \<notin> set t" by (metis c_stringE)+
  with bytes_cmp_lex [OF this] * show ?thesis by (simp add: str_cmp_def text_before_def text_of_def)
qed

lemma text_before_linear: "\<not> text_before x y \<Longrightarrow> text_before y x"
  unfolding text_before_def using lexordp_eq_linear by blast

lemma text_before_trans: "text_before x y \<Longrightarrow> text_before y z \<Longrightarrow> text_before x z"
  unfolding text_before_def by (rule lexordp_eq_trans)

lemma sort_inner_min:
  "length a = n \<Longrightarrow> \<forall>s \<in> set a. c_string (element_text s) \<noteq> None \<Longrightarrow> i < j \<Longrightarrow> j \<le> n \<Longrightarrow>
   \<forall>k. i < k \<longrightarrow> k < j \<longrightarrow> text_before (a ! i) (a ! k) \<Longrightarrow>
   \<exists>a'. sort_inner a n i j = Some a' \<and> mset a' = mset a \<and> take i a' = take i a \<and>
     (\<forall>k. i < k \<longrightarrow> k < n \<longrightarrow> text_before (a' ! i) (a' ! k))"
proof (induction a n i j rule: sort_inner.induct)
  case (1 a n i j)
  show ?case
  proof (cases "j < n")
    case False
    then have "sort_inner a n i j = Some a" by (subst sort_inner.simps) simp
    moreover have "j = n" using False "1.prems"(4) by simp
    ultimately show ?thesis using "1.prems"(5) by auto
  next
    case True
    let ?b = "if text_before (a ! i) (a ! j) then a else a[i := a ! j, j := a ! i]"
    have ij: "i < length a" "j < length a" using True "1.prems"(1,3) by auto
    have reads: "mem_read a i = Some (a ! i)" "mem_read a j = Some (a ! j)" using ij by simp_all
    obtain c where c: "str_cmp (element_text (a ! i)) (element_text (a ! j)) = Some c" "c > 0 \<longleftrightarrow> \<not> text_before (a ! i) (a ! j)"
      using str_cmp_before [of "a ! i" "a ! j"] "1.prems"(2) ij by auto
    have step: "sort_inner a n i j = sort_inner ?b n i (j + 1)"
      using True reads c by (subst sort_inner.simps) simp
    have swap: "mset (a[i := a ! j, j := a ! i]) = mset a" using mset_swap [OF ij] list_update_swap [of i j a] "1.prems"(3) by simp
    have b: "mset ?b = mset a" "length ?b = n" "take i ?b = take i a"
      using swap "1.prems"(1,3) by auto
    have read: "\<forall>s \<in> set ?b. c_string (element_text s) \<noteq> None"
      using "1.prems"(2) mset_eq_setD [OF b(1)] by simp
    have "\<forall>k. i < k \<longrightarrow> k < j + 1 \<longrightarrow> text_before (?b ! i) (?b ! k)"
    proof (intro allI impI)
      fix k
      assume k: "i < k" "k < j + 1"
      show "text_before (?b ! i) (?b ! k)"
      proof (cases "text_before (a ! i) (a ! j)")
        case True
        then show ?thesis using k "1.prems"(5) by (cases "k = j") auto
      next
        case False
        then have ji: "text_before (a ! j) (a ! i)" by (rule text_before_linear)
        then show ?thesis using False k ij "1.prems"(3,5) text_before_trans [OF ji, of "a ! k"]
          by (cases "k = j") (auto simp: nth_list_update)
      qed
    qed
    then have "\<exists>a'. sort_inner ?b n i (j + 1) = Some a' \<and> mset a' = mset ?b \<and> take i a' = take i ?b \<and>
        (\<forall>k. i < k \<longrightarrow> k < n \<longrightarrow> text_before (a' ! i) (a' ! k))"
      using "1.IH" [OF True reads c(1)] c(2) b(2) read "1.prems"(3) True by (cases "text_before (a ! i) (a ! j)") simp_all
    then show ?thesis using step b by auto
  qed
qed

lemma sort_outer_sorts:
  "length a = n \<Longrightarrow> \<forall>s \<in> set a. c_string (element_text s) \<noteq> None \<Longrightarrow>
   \<forall>p k. p < i \<longrightarrow> p < k \<longrightarrow> k < n \<longrightarrow> text_before (a ! p) (a ! k) \<Longrightarrow>
   \<exists>a'. sort_outer a n i = Some a' \<and> mset a' = mset a \<and> sorted_wrt text_before a'"
proof (induction a n i rule: sort_outer.induct)
  case (1 a n i)
  show ?case
  proof (cases "i < n - 1")
    case False
    then have "sorted_wrt text_before a" using "1.prems"(1,3) by (auto simp: sorted_wrt_iff_nth_less)
    then show ?thesis using False by (subst sort_outer.simps) simp
  next
    case True
    obtain a' where a': "sort_inner a n i (i + 1) = Some a'" "mset a' = mset a" "take i a' = take i a"
      "\<forall>k. i < k \<longrightarrow> k < n \<longrightarrow> text_before (a' ! i) (a' ! k)"
      using sort_inner_min [OF "1.prems"(1,2), of i "i + 1"] less_diff_conv [THEN iffD1, OF True] by auto
    have len: "length a' = n" using mset_eq_length [OF a'(2)] "1.prems"(1) by simp
    have read: "\<forall>s \<in> set a'. c_string (element_text s) \<noteq> None"
      using "1.prems"(2) mset_eq_setD [OF a'(2)] by simp
    have "mset (take i a) + mset (drop i a') = mset (take i a) + mset (drop i a)"
      using a'(2,3) by (metis append_take_drop_id mset_append)
    then have drops: "set (drop i a') = set (drop i a)" by (metis add_left_cancel mset_eq_setD)
    have "text_before (a' ! p) (a' ! k)" if p: "p < i + 1" "p < k" "k < n" for p k
    proof (cases "p = i")
      case True
      then show ?thesis using p a'(4) by simp
    next
      case False
      then have pi: "p < i" "a' ! p = a ! p" using p a'(3) nth_take [of p i a] nth_take [of p i a'] by simp_all
      obtain m where "a' ! k = a ! m" "p < m" "m < n"
      proof (cases "k < i")
        case True
        then have "a' ! k = a ! k" using a'(3) nth_take [of k i a] nth_take [of k i a'] by simp
        then show ?thesis using that p by blast
      next
        case False
        then have "a' ! k \<in> set (drop i a')" using p(3) len nth_drop [of i a' "k - i"] nth_mem [of "k - i" "drop i a'"] by simp
        then obtain q where "q < n - i" "drop i a ! q = a' ! k" using drops "1.prems"(1) by (auto simp: in_set_conv_nth)
        then show ?thesis using that [of "i + q"] pi(1) "1.prems"(1) by simp
      qed
      then show ?thesis using "1.prems"(3) pi by auto
    qed
    then have "\<exists>b. sort_outer a' n (i + 1) = Some b \<and> mset b = mset a' \<and> sorted_wrt text_before b"
      using "1.IH" [OF True a'(1) len read] by blast
    then show ?thesis using True a'(1,2) by (subst sort_outer.simps) simp
  qed
qed

text \<open>
  Sorting a list.  When every element reads as a C string, \<open>string_sort_list\<close> returns and leaves the same elements
  in ascending order of their texts.
\<close>

theorem string_sort_list_sorts:
  assumes "sl_strings l = Some a" "length a = sl_num_of_strings l" "\<forall>s \<in> set a. c_string (element_text s) \<noteq> None"
  shows "\<exists>a'. string_sort_list (Some l) = Some (Some (l\<lparr>sl_strings := Some a'\<rparr>)) \<and> mset a' = mset a \<and>
    sorted_wrt (\<lambda>x y. lexordp_eq (text_of x) (text_of y)) a'"
proof (cases "sl_num_of_strings l < 2")
  case True
  then have "sorted_wrt text_before a" using assms(2) by (cases a rule: remdups_adj.cases) auto
  then show ?thesis using True assms(1) by (auto simp: string_sort_list_def text_before_def [abs_def] intro!: exI [of _ a])
next
  case False
  obtain a' where "sort_outer a (sl_num_of_strings l) 0 = Some a'" "mset a' = mset a" "sorted_wrt text_before a'"
    using sort_outer_sorts [OF assms(2,3), of 0] by auto
  then show ?thesis using False assms(1) by (auto simp: string_sort_list_def text_before_def [abs_def])
qed

definition test_list :: "byte list list \<Rightarrow> string_list_t" where
  "test_list ts = \<lparr>sl_strings = Some (map (\<lambda>t. the (test_string t 1)) ts), sl_num_of_strings = length ts, sl_current_index = 0\<rparr>"

theorem string_sort_list_sorts_witness:
  "\<exists>a'. string_sort_list (Some (test_list [[66], [65, 66], [65]])) =
       Some (Some (test_list [[66], [65, 66], [65]]\<lparr>sl_strings := Some a'\<rparr>)) \<and>
     mset a' = mset (map (\<lambda>t. the (test_string t 1)) [[66], [65, 66], [65]]) \<and>
     sorted_wrt (\<lambda>x y. lexordp_eq (text_of x) (text_of y)) a'"
  by (rule string_sort_list_sorts) (auto simp: test_list_def test_string_def element_text_def c_string_def)

section \<open>Key and value: what comes out\<close>

text \<open>A string block that reads as a text although the recorded length says that it is empty.\<close>

definition unsized_text :: "string_t option \<Rightarrow> byte list \<Rightarrow> bool" where
  "unsized_text p xs = (\<exists>s d. p = Some s \<and> st_data s = Some d \<and> c_string d = Some xs \<and> st_data_size s = 0)"

lemma char_loop_first:
  assumes "c \<noteq> 0" "c \<notin> set a" "0 \<notin> set a"
  shows "char_loop (a @ c # r) c k = Some (int (k + length a))"
  using assms by (induction a arbitrary: k) auto

text \<open>
  Key and value.  A terminated string with the delimiter at its first place behind a nonempty key is cut there:
  \<open>*key\<close> and \<open>*value\<close> are new strings that read as the text before and behind it, but both still
  record the length 0.
\<close>

theorem string_split_key_value_correct:
  assumes "string_term ps p (a @ c # b)" "c \<notin> set a" "a \<noteq> []" "length (a @ c # b) \<le> SIZE_MAX div 2"
  shows "\<exists>k v. string_split_key_value_by_char ps [True, True, True, True] p c k0 v0 = Some (k, v) \<and>
    unsized_text k a \<and> unsized_text v b"
proof -
  let ?xs = "a @ c # b"
  obtain s n where s: "p = Some s" "st_data s = Some (?xs @ replicate (Suc n) 0)" "st_data_size s = length ?xs"
    "0 < ps" "0 \<notin> set ?xs"
    using assms(1) by (rule string_termE)
  let ?d = "?xs @ replicate (Suc n) 0"
  have pos: "string_index_of_char p c = Some (int (length a))"
    using char_loop_first [of c a "b @ replicate (Suc n) 0" 0] s(1,2,5) assms(2)
    by (auto simp: string_index_of_char_def simp del: replicate_Suc)
  define m where "m = string_pages ps (length a + 1)"
  define w where "w = string_pages ps (length b + 1)"
  have m: "length a + 1 \<le> m" and w: "length b + 1 \<le> w"
    unfolding m_def w_def by (rule string_pages_bounds(1) [OF s(4)])+
  have size: "size_of_long (int (st_data_size s) - int (length a + 1) + 1) = length b + 1"
    using s(3) assms(4) by (simp add: size_of_long_def SIZE_MAX_def)
  have k: "mem_copy (replicate m 0) 0 ?d 0 (length a) = Some (a @ replicate (m - length a) 0)"
    using m by (simp add: mem_copy_Some del: replicate_Suc)
  have "c_string (drop (length a + 1) ?d) = Some b" using s(5) by (simp del: replicate_Suc)
  then have v: "str_copy (replicate w 0) 0 ?d (length a + 1) = Some ((b @ [0]) @ replicate (w - (length b + 1)) 0)"
    using w by (simp add: str_copy_def mem_copy_Some del: replicate_Suc)
  have ka: "c_string (a @ replicate (m - length a) 0) = Some a" "c_string ((b @ [0]) @ replicate (w - (length b + 1)) 0) = Some b"
    using m s(5) c_string_exact [of b "replicate (w - (length b + 1)) 0"] by (cases "m - length a"; auto simp del: replicate_Suc)+
  have alloc: "string_allocate_length ps True True (length a + 1) = Some \<lparr>st_data = Some (replicate m 0), st_data_size = 0, st_memory_size = m\<rparr>"
    "string_allocate_length ps True True (length b + 1) = Some \<lparr>st_data = Some (replicate w 0), st_data_size = 0, st_memory_size = w\<rparr>"
    by (simp_all add: string_allocate_length_def string_calloc_def m_def w_def)
  have "string_split_key_value_by_char ps [True, True, True, True] p c k0 v0 =
      Some (Some \<lparr>st_data = Some (a @ replicate (m - length a) 0), st_data_size = 0, st_memory_size = m\<rparr>,
        Some \<lparr>st_data = Some ((b @ [0]) @ replicate (w - (length b + 1)) 0), st_data_size = 0, st_memory_size = w\<rparr>)"
  proof -
    have c: "c \<noteq> 0" using s(5) by auto
    have "split_at ps False [True, True, True, True] s (length a) 1 k0 =
      Some (Some \<lparr>st_data = Some (a @ replicate (m - length a) 0), st_data_size = 0, st_memory_size = m\<rparr>,
        Some \<lparr>st_data = Some ((b @ [0]) @ replicate (w - (length b + 1)) 0), st_data_size = 0, st_memory_size = w\<rparr>)"
      unfolding split_at_def size using s(2) assms(3) alloc k v by simp
    with c pos s(1) show ?thesis by (simp add: string_split_key_value_by_char_def)
  qed
  with ka show ?thesis by (auto simp: unsized_text_def)
qed

theorem string_split_key_value_correct_witness:
  "\<exists>k v. string_split_key_value_by_char 8 [True, True, True, True] (test_string [107, 58, 118] 5) 58 None None = Some (k, v) \<and>
     unsized_text k [107] \<and> unsized_text v [118]"
proof -
  have "string_term 8 (test_string [107, 58, 118] 5) ([107] @ 58 # [118])"
    unfolding append.simps by (rule test_string_term) (simp_all add: SIZE_MAX_def)
  from string_split_key_value_correct [OF this] show ?thesis by (simp add: SIZE_MAX_def)
qed

text \<open>The printer of integers prints \<open>-\<close> for zero.\<close>

lemma string_internal_from_int_zero: "map_option (map_option c_string) (string_internal_from_int True 0) = Some (Some (Some [45]))"
  by code_simp

end
