(* ===== verification/TcpString.thy ===== *)
theory TcpString
  imports TcpClient StringOps
begin

text \<open>
  The functions of \<open>comm/src/tcpclient.c\<close> that move strings: sending a string, receiving one up to a
  delimiter in chunks or byte by byte.  They are clients of the socket model of \<open>TcpClient\<close> and of the
  strings of \<open>StringEx\<close>.
\<close>

section \<open>The functions\<close>

definition tcp_client_send_string ::
  "int \<Rightarrow> tcp_client_t option \<Rightarrow> string_t option \<Rightarrow> (bool \<times> tcp_client_t option) option" where
  "tcp_client_send_string errno ptr str =
     (case (ptr, str) of
        (Some c, Some s) \<Rightarrow> do {
          (ok, c') \<leftarrow> tcp_send_loop errno (case st_data s of None \<Rightarrow> [] | Some d \<Rightarrow> d) (st_data_size s) 0 c;
          Some (ok, Some c') }
      | _ \<Rightarrow> Some (False, ptr))"

text \<open>
  The end of a round: compare what stands before \<open>totalbytes\<close> in the data with the delimiter.  The answer is
  whether the loop ends, and the string.  A string that could not be allocated is NULL here.
\<close>

definition delimiter_reached :: "byte list \<Rightarrow> nat \<Rightarrow> nat \<Rightarrow> string_t option \<Rightarrow> (bool \<times> string_t option) option" where
  "delimiter_reached delim n totalbytes iostr =
     (if totalbytes \<ge> n
      then do {
        read_buffer \<leftarrow> string_c_str iostr;
        d \<leftarrow> read_buffer;
        diff \<leftarrow> mem_cmp (drop (totalbytes - n) d) delim n;
        if diff = 0 then do { s \<leftarrow> string_remove_end iostr n; Some (True, s) } else Some (False, iostr) }
      else Some (False, iostr))"

function tcp_chunk_loop ::
  "nat \<Rightarrow> bool \<Rightarrow> byte list \<Rightarrow> nat \<Rightarrow> string_t option \<Rightarrow> nat \<Rightarrow> tcp_client_t \<Rightarrow> (string_t option \<times> tcp_client_t) option" where
  "tcp_chunk_loop ps ok delim n iostr totalbytes c =
     (case tcp_recv MAX_TCP_CLIENT_BUFFER_SIZE c of
        (bytesread, bs, c') \<Rightarrow>
          if bytesread \<le> 0 then Some (string_free iostr, c'\<lparr>error_code := -1, connected := False\<rparr>)
          else do {
            (appended, _) \<leftarrow> string_append ps ok ok iostr (Some (bs @ replicate (MAX_TCP_CLIENT_BUFFER_SIZE + 1 - length bs) 0));
            let iostr' = (if iostr = None then None else appended);
            (finished, s) \<leftarrow> delimiter_reached delim n (totalbytes + nat bytesread) iostr';
            if finished then Some (s, c') else tcp_chunk_loop ps ok delim n s (totalbytes + nat bytesread) c' })"
  by pat_completeness auto
termination
  by (relation "measure (\<lambda>(p, ok, d, n, s, t, c). length (sk_recv_plan (sock c)))") (auto dest: tcp_recv_plan [OF sym])

function tcp_byte_loop ::
  "nat \<Rightarrow> bool \<Rightarrow> byte list \<Rightarrow> nat \<Rightarrow> string_t option \<Rightarrow> nat \<Rightarrow> tcp_client_t \<Rightarrow> (string_t option \<times> tcp_client_t) option" where
  "tcp_byte_loop ps ok delim n iostr totalbytes c =
     (case tcp_recv 1 c of
        (bytesread, bs, c') \<Rightarrow>
          if bytesread \<le> 0 then Some (string_free iostr, c'\<lparr>error_code := -1, connected := False\<rparr>)
          else do {
            (appended, _) \<leftarrow> string_append_char ps ok ok iostr (hd bs);
            let iostr' = (if iostr = None then None else appended);
            (finished, s) \<leftarrow> delimiter_reached delim n (totalbytes + nat bytesread) iostr';
            if finished then Some (s, c') else tcp_byte_loop ps ok delim n s (totalbytes + nat bytesread) c' })"
  by pat_completeness auto
termination
  by (relation "measure (\<lambda>(p, ok, d, n, s, t, c). length (sk_recv_plan (sock c)))") (auto dest: tcp_recv_plan [OF sym])

declare tcp_chunk_loop.simps [simp del] tcp_byte_loop.simps [simp del]

text \<open>\<open>ok1\<close>, \<open>ok2\<close> answer the allocations of the string, \<open>ok\<close> those of its growth.\<close>

definition tcp_client_receive_string_chunked ::
  "nat \<Rightarrow> bool \<Rightarrow> bool \<Rightarrow> bool \<Rightarrow> tcp_client_t option \<Rightarrow> byte list \<Rightarrow> (string_t option \<times> tcp_client_t option) option" where
  "tcp_client_receive_string_chunked ps ok1 ok2 ok ptr delim =
     (case ptr of
        None \<Rightarrow> Some (None, None)
      | Some c \<Rightarrow> do {
          n \<leftarrow> str_len delim;
          (s, c') \<leftarrow> tcp_chunk_loop ps ok delim n (string_allocate_default ps ok1 ok2) 0 c;
          Some (s, Some c') })"

definition tcp_client_receive_string_precise ::
  "nat \<Rightarrow> bool \<Rightarrow> bool \<Rightarrow> bool \<Rightarrow> tcp_client_t option \<Rightarrow> byte list \<Rightarrow> (string_t option \<times> tcp_client_t option) option" where
  "tcp_client_receive_string_precise ps ok1 ok2 ok ptr delim =
     (case ptr of
        None \<Rightarrow> Some (None, None)
      | Some c \<Rightarrow> do {
          n \<leftarrow> str_len delim;
          (s, c') \<leftarrow> tcp_byte_loop ps ok delim n (string_allocate_default ps ok1 ok2) 0 c;
          Some (s, Some c') })"

section \<open>Receiving a line byte by byte\<close>

text \<open>A string that reads as \<open>xs\<close> and records the length \<open>n\<close>.\<close>

definition reads_as :: "string_t option \<Rightarrow> byte list \<Rightarrow> nat \<Rightarrow> bool" where
  "reads_as p xs n = (\<exists>s d. p = Some s \<and> st_data s = Some d \<and> c_string d = Some xs \<and> st_data_size s = n)"

lemma recv_keeps_healthy:
  assumes "tcp_recv 1 c = (k, bs, c1)" "tcp_healthy (Suc n) c" "sk_incoming (sock c) = b # rest"
  shows "k = 1" "bs = [b]" "sk_incoming (sock c1) = rest" "connected c1 = connected c" "tcp_healthy n c1"
proof -
  obtain p ps where p: "sk_recv_plan (sock c) = p # ps" "0 < p"
    using assms(2) by (cases "sk_recv_plan (sock c)") (auto simp: tcp_healthy_def)
  note c = tcp_recv_cases [OF assms(1)] and r = tcp_recv_ready [OF assms(1) _ _ p]
  have k: "0 < k" "sk_recv_plan (sock c1) = ps" using r assms(3) by simp_all
  then have k1: "k = 1" using c(4) by linarith
  from k show "k = 1" "bs = [b]" "sk_incoming (sock c1) = rest" "connected c1 = connected c" "tcp_healthy n c1"
    using c assms(2,3) p(1) k1 by (auto simp: tcp_healthy_def)
qed

text \<open>Removing the delimiter from the end of a terminated string.\<close>

lemma remove_end_text:
  assumes "string_term ps p (a @ ds)" "ds \<noteq> []"
  shows "\<exists>q. string_remove_end p (length ds) = Some q \<and> reads_as q a (if a = [] then length ds else length a)"
proof -
  obtain s n where s: "p = Some s" "st_data s = Some ((a @ ds) @ replicate (Suc n) 0)" "st_data_size s = length (a @ ds)"
    "0 \<notin> set (a @ ds)"
    using assms(1) by (rule string_termE)
  let ?d = "(a @ ds) @ replicate (Suc n) 0"
  have len: "str_len ?d = Some (length (a @ ds))" using s(4) by (simp add: str_len_def del: replicate_Suc append_assoc)
  show ?thesis
  proof (cases "a = []")
    case True
    then have "mem_fill ?d 0 0 (length ds) = Some (replicate (length ds) 0 @ replicate (Suc n) 0)"
      by (simp add: mem_fill_Some del: replicate_Suc)
    moreover have "c_string (replicate (length ds) 0 @ replicate (Suc n) 0) = Some []"
      using assms(2) by (cases ds) (simp_all add: c_string_def)
    ultimately show ?thesis using True s(1-3) len
      by (auto simp: string_remove_end_def reads_as_def simp del: replicate_Suc)
  next
    case False
    obtain e es where ds: "ds = e # es" using assms(2) by (cases ds) auto
    have w: "mem_write ?d (length a) 0 = Some ((a @ [0]) @ es @ replicate (Suc n) 0)"
      by (simp add: ds list_update_append del: replicate_Suc)
    have f: "(if length (a @ ds) > length a + 1 then mem_fill ((a @ [0]) @ es @ replicate (Suc n) 0) (length a + 1) 0 (length (a @ ds) - (length a + 1))
        else Some ((a @ [0]) @ es @ replicate (Suc n) 0)) = Some (a @ 0 # replicate (length es) 0 @ replicate (Suc n) 0)"
      by (simp add: ds mem_fill_Some del: replicate_Suc)
    have c: "c_string (a @ 0 # replicate (length es) 0 @ replicate (Suc n) 0) = Some a"
      using c_string_exact [of a] s(4) by simp
    have m: "length (a @ ds) - length ds = length a" "\<not> length ds \<ge> length (a @ ds)" using False by simp_all
    have "string_remove_end p (length ds) =
        Some (Some (s\<lparr>st_data := Some (a @ 0 # replicate (length es) 0 @ replicate (Suc n) 0), st_data_size := length a\<rparr>))"
      unfolding string_remove_end_def s(1) option.case s(2) len bind_Some_iff Let_def s(3) m(1) w f
      using m(2) c by (simp add: string_set_data_def str_len_def)
    then show ?thesis using False c by (auto simp: reads_as_def)
  qed
qed

lemma bytes_cmp_0: "length xs = length ys \<Longrightarrow> (bytes_cmp xs ys = 0) = (xs = ys)"
  by (rule bytes_cmp_eq_0)

text \<open>What the test at the end of a round decides.\<close>

lemma delimiter_reached_cases:
  assumes "string_rep ps p xs" "c_string delim = Some ds"
  shows "\<not> (length ds \<le> length xs \<and> drop (length xs - length ds) xs = ds) \<Longrightarrow>
      delimiter_reached delim (length ds) (length xs) p = Some (False, p)"
    "length ds \<le> length xs \<Longrightarrow> drop (length xs - length ds) xs = ds \<Longrightarrow>
      delimiter_reached delim (length ds) (length xs) p = do { s \<leftarrow> string_remove_end p (length ds); Some (True, s) }"
proof -
  obtain s n where s: "p = Some s" "st_data s = Some (xs @ replicate n 0)" using assms(1) by (rule string_repE)
  obtain r where r: "delim = ds @ 0 # r" using assms(2) by (rule c_stringE)
  have cmp: "mem_cmp (drop (length xs - length ds) (xs @ replicate n 0)) delim (length ds) =
      Some (bytes_cmp (drop (length xs - length ds) xs) ds)" if "length ds \<le> length xs"
    using that r by simp
  show "\<not> (length ds \<le> length xs \<and> drop (length xs - length ds) xs = ds) \<Longrightarrow>
      delimiter_reached delim (length ds) (length xs) p = Some (False, p)"
    using s cmp bytes_cmp_eq_0 [of "drop (length xs - length ds) xs" ds]
    by (cases "length ds \<le> length xs") (simp_all add: delimiter_reached_def string_c_str_def del: drop_append)
  show "length ds \<le> length xs \<Longrightarrow> drop (length xs - length ds) xs = ds \<Longrightarrow>
      delimiter_reached delim (length ds) (length xs) p = do { s \<leftarrow> string_remove_end p (length ds); Some (True, s) }"
    using s cmp bytes_cmp_eq_0 [of "drop (length xs - length ds) xs" ds]
    by (simp add: delimiter_reached_def string_c_str_def del: drop_append)
qed

text \<open>A string built byte by byte has the pages it needs and no more; when it fills them it has no terminator.\<close>

definition just_fits :: "nat \<Rightarrow> string_t option \<Rightarrow> byte list \<Rightarrow> bool" where
  "just_fits ps p xs \<longleftrightarrow> string_rep ps p xs \<and> st_memory_size (the p) = string_pages ps (max 1 (length xs))"

lemma append_char_fits:
  assumes "just_fits ps p xs" "b \<noteq> 0" "length xs + 1 \<le> SIZE_MAX div 2"
  shows "\<exists>q. string_append_char ps True True p b = Some (q, True) \<and> just_fits ps q (xs @ [b])"
proof -
  have rep: "string_rep ps p xs" and mem: "st_memory_size (the p) = string_pages ps (max 1 (length xs))"
    using assms(1) by (simp_all add: just_fits_def)
  have cs: "c_string [b, 0] = Some [b]" using c_string_exact [of "[b]" "[]"] assms(2) by simp
  obtain q where q: "string_append_char ps True True p b = Some (q, True)" "string_rep ps q (xs @ [b])"
    using string_append_rep [OF rep cs, of True True] assms(3) by (auto simp: string_append_char_def)
  obtain s n where s: "p = Some s" "st_data_size s = length xs" "0 < ps" using rep by (rule string_repE)
  have size: "(length xs + 1) mod 2 ^ 64 = length xs + 1" using assms(3) by (intro mod_less) (simp add: SIZE_MAX_def)
  have le: "st_memory_size s \<le> string_pages ps (length xs + 1)"
    using mem s(1) string_pages_mono [OF s(3), of "string_pages ps (length xs + 1)" "max 1 (length xs)"]
      string_pages_bounds(1,3) [OF s(3), of "length xs + 1"] by simp
  have "st_memory_size (the q) = string_pages ps (length xs + 1)"
    using q(1) s(1,2) size le cs
    by (auto simp: string_append_char_def string_append_def string_internal_adjust_storage_def string_calloc_def Let_def
        dest!: bind_eq_SomeD split: if_splits)
  with q show ?thesis by (auto simp: just_fits_def)
qed

lemma just_fits_empty: "0 < ps \<Longrightarrow> ps \<le> SIZE_MAX div 4 \<Longrightarrow> just_fits ps (string_allocate_default ps True True) []"
  using string_allocate_empty_rep(1) [of ps] by (simp add: just_fits_def string_allocate_default_def string_pages_def)

lemma full_remove_end:
  assumes "just_fits ps p xs" "xs \<noteq> []" "length xs mod ps = 0"
  shows "string_remove_end p n = None"
proof -
  obtain s k where s: "p = Some s" "st_data s = Some (xs @ replicate k 0)" "st_memory_size s = length xs + k" "0 \<notin> set xs"
    using assms(1) unfolding just_fits_def by (elim conjE string_repE)
  have "max 1 (length xs) = length xs" using assms(2) by (cases xs) auto
  then have "string_pages ps (max 1 (length xs)) = length xs" using assms(3) by (auto simp: string_pages_def)
  then have "k = 0" using assms(1) s(1,3) by (simp add: just_fits_def)
  then show ?thesis using s by (simp add: string_remove_end_def str_len_def c_string_def)
qed

lemma byte_loop_line:
  assumes "c_string delim = Some ds" "ds \<noteq> []" "0 \<notin> set a" "\<forall>j < length a. \<not> occurs_at ds (a @ ds) j"
    "length (a @ ds) \<le> SIZE_MAX div 2"
  shows "got @ todo = a @ ds \<Longrightarrow> todo \<noteq> [] \<Longrightarrow> sk_incoming (sock c) = todo @ rest \<Longrightarrow> tcp_healthy (length todo) c \<Longrightarrow>
    just_fits ps p got \<Longrightarrow>
    if length (a @ ds) mod ps = 0 then tcp_byte_loop ps True delim (length ds) p (length got) c = None
    else \<exists>q c'. tcp_byte_loop ps True delim (length ds) p (length got) c = Some (q, c') \<and> sk_incoming (sock c') = rest \<and>
      connected c' = connected c \<and> reads_as q a (if a = [] then length ds else length a)"
proof (induction todo arbitrary: got c p)
  case (Cons b todo)
  have nz: "0 \<notin> set (a @ ds)" using assms(1,3) by (auto elim: c_stringE)
  obtain k bs c1 where s: "tcp_recv 1 c = (k, bs, c1)" by (metis prod_cases3)
  have h: "tcp_healthy (Suc (length todo)) c" using Cons.prems(4) by simp
  note r = recv_keeps_healthy [OF s h, of b "todo @ rest"]
  have r': "k = 1" "bs = [b]" "sk_incoming (sock c1) = todo @ rest" "connected c1 = connected c" "tcp_healthy (length todo) c1"
    using r Cons.prems(3) by simp_all
  have b0: "b \<noteq> 0" using nz Cons.prems(1) by (metis in_set_conv_decomp)
  have len: "length got + 1 \<le> SIZE_MAX div 2"
    using assms(5) arg_cong [OF Cons.prems(1), of length] by simp
  obtain q where q: "string_append_char ps True True p b = Some (q, True)" "just_fits ps q (got @ [b])"
    using append_char_fits [OF Cons.prems(5) b0 len] by blast
  have qr: "string_rep ps q (got @ [b])" using q(2) by (simp add: just_fits_def)
  obtain y where some: "p = Some y" using Cons.prems(5) unfolding just_fits_def by (elim conjE string_repE)
  have step: "tcp_byte_loop ps True delim (length ds) p (length got) c =
    (case delimiter_reached delim (length ds) (length (got @ [b])) q of
       None \<Rightarrow> None
     | Some (finished, s) \<Rightarrow> if finished then Some (s, c1) else tcp_byte_loop ps True delim (length ds) s (length (got @ [b])) c1)"
    using s r'(1,2) q(1) some
    by (subst tcp_byte_loop.simps) (simp add: Let_def split: option.split prod.split)
  show ?case
  proof (cases "todo = []")
    case True
    then have got: "got @ [b] = a @ ds" using Cons.prems(1) by simp
    have reached: "delimiter_reached delim (length ds) (length (got @ [b])) q = do { s \<leftarrow> string_remove_end q (length ds); Some (True, s) }"
      using delimiter_reached_cases(2) [OF qr assms(1)] unfolding got by simp
    show ?thesis
    proof (cases "length (a @ ds) mod ps = 0")
      case full: True
      have "a @ ds \<noteq> []" using assms(2) by simp
      from full_remove_end [OF q(2) [unfolded got] this full]
      have "delimiter_reached delim (length ds) (length (got @ [b])) q = None" using reached by simp
      with step full show ?thesis by simp
    next
      case False
      have "string_term ps q (a @ ds)" using string_rep_term [of ps q "a @ ds"] qr got False by simp
      from remove_end_text [OF this assms(2)]
      obtain w where w: "string_remove_end q (length ds) = Some w" "reads_as w a (if a = [] then length ds else length a)" by blast
      have "delimiter_reached delim (length ds) (length (got @ [b])) q = Some (True, w)" using reached w(1) by simp
      then show ?thesis using step r'(3,4) w(2) True False by simp
    qed
  next
    case False
    have "\<not> (length ds \<le> length (got @ [b]) \<and> drop (length (got @ [b]) - length ds) (got @ [b]) = ds)"
    proof
      assume e: "length ds \<le> length (got @ [b]) \<and> drop (length (got @ [b]) - length ds) (got @ [b]) = ds"
      let ?j = "length (got @ [b]) - length ds"
      have whole: "a @ ds = (got @ [b]) @ todo" using Cons.prems(1) by simp
      then have "length (a @ ds) = length (got @ [b]) + length todo" by (metis length_append)
      moreover have "0 < length todo" using False by simp
      ultimately have "?j < length a" "?j + length ds \<le> length (a @ ds)" using e unfolding length_append by linarith+
      moreover have "take (length ds) (drop ?j (a @ ds)) = ds"
        unfolding whole using e by (simp del: append_assoc add: take_append)
      ultimately show False using assms(4) by (auto simp: occurs_at_def)
    qed
    from delimiter_reached_cases(1) [OF qr assms(1) this]
    have next_round: "tcp_byte_loop ps True delim (length ds) p (length got) c =
        tcp_byte_loop ps True delim (length ds) q (length (got @ [b])) c1" using step by simp
    have "if length (a @ ds) mod ps = 0 then tcp_byte_loop ps True delim (length ds) q (length (got @ [b])) c1 = None
      else \<exists>w c'. tcp_byte_loop ps True delim (length ds) q (length (got @ [b])) c1 = Some (w, c') \<and>
        sk_incoming (sock c') = rest \<and> connected c' = connected c1 \<and> reads_as w a (if a = [] then length ds else length a)"
      by (rule Cons.IH) (use Cons.prems(1) False r' q(2) in auto)
    then show ?thesis unfolding next_round r'(4) .
  qed
qed simp

text \<open>
  C18: receiving a line.  The peer sends a text without NUL bytes, a delimiter that does not occur before, and more; each
  \<open>recv\<close> delivers, and memory does not run out.  When text and delimiter together do not fill a whole number of pages,
  \<open>tcp_client_receive_string_precise\<close> returns a string that reads as the text, and what comes behind
  the delimiter stays unread; the recorded length is that of the text, except that an empty line is left with the length
  of the delimiter.  When they do, the received string has no terminator, and removing the delimiter reads behind its
  block: the call has no defined result.
\<close>

theorem tcp_receive_line:
  assumes "c_string delim = Some ds" "ds \<noteq> []" "0 \<notin> set a" "\<forall>j < length a. \<not> occurs_at ds (a @ ds) j"
    "length (a @ ds) \<le> SIZE_MAX div 2" "0 < ps" "ps \<le> SIZE_MAX div 4"
    "sk_incoming (sock c) = a @ ds @ rest" "tcp_healthy (length (a @ ds)) c"
  shows "if length (a @ ds) mod ps = 0 then tcp_client_receive_string_precise ps True True True (Some c) delim = None
    else \<exists>q c'. tcp_client_receive_string_precise ps True True True (Some c) delim = Some (q, Some c') \<and>
      sk_incoming (sock c') = rest \<and> connected c' = connected c \<and> reads_as q a (if a = [] then length ds else length a)"
proof -
  have n: "str_len delim = Some (length ds)" using assms(1) by (simp add: str_len_def)
  let ?loop = "tcp_byte_loop ps True delim (length ds) (string_allocate_default ps True True) 0 c"
  have run: "tcp_client_receive_string_precise ps True True True (Some c) delim = do { (s, c') \<leftarrow> ?loop; Some (s, Some c') }"
    using n by (simp add: tcp_client_receive_string_precise_def)
  have "if length (a @ ds) mod ps = 0 then ?loop = None
    else \<exists>q c'. ?loop = Some (q, c') \<and> sk_incoming (sock c') = rest \<and> connected c' = connected c \<and>
      reads_as q a (if a = [] then length ds else length a)"
    by (rule byte_loop_line [OF assms(1-5), where got = "[]" and todo = "a @ ds", unfolded list.size(3)])
      (use assms(2,8,9) just_fits_empty [OF assms(6,7)] in simp_all)
  then show ?thesis unfolding run by (cases "length (a @ ds) mod ps = 0") auto
qed

theorem tcp_receive_line_witness:
  "\<exists>q c'. tcp_client_receive_string_precise 8 True True True (Some (test_client [1, 1, 1, 1] [1, 1, 5, 1] [72, 73, 13, 10, 65])) [13, 10, 0] =
     Some (q, Some c') \<and> sk_incoming (sock c') = [65] \<and> reads_as q [72, 73] (length [72 :: byte, 73])"
proof -
  have d: "c_string [13, 10, 0] = Some [13, 10]" by (simp add: c_string_def)
  have j: "\<forall>j < length [72, 73 :: byte]. \<not> occurs_at [13, 10] ([72, 73] @ [13, 10]) j"
    by (auto simp: occurs_at_def less_Suc_eq)
  show ?thesis
    using tcp_receive_line [OF d _ _ j, of 8 "test_client [1, 1, 1, 1] [1, 1, 5, 1] [72, 73, 13, 10, 65]" "[65]"]
    by (simp add: SIZE_MAX_def test_client_def tcp_healthy_def) blast
qed

end
