(* ===== verification/BufferString.thy ===== *)
theory BufferString
  imports Buffer StringEx
begin

text \<open>
  Where buffers and strings meet: \<open>buffer_convert_to_string\<close> of \<open>core/src/buffer.c\<close>, which needs the strings of
  \<open>StringEx\<close>.
\<close>

text \<open>\<open>ok\<close> answers the temporary block, \<open>ok1\<close>, \<open>ok2\<close> the allocations of the string.\<close>

definition buffer_convert_to_string :: "nat \<Rightarrow> bool \<Rightarrow> bool \<Rightarrow> bool \<Rightarrow> buffer_t option \<Rightarrow> string_t option option" where
  "buffer_convert_to_string ps ok ok1 ok2 ptr =
     (case ptr of
        None \<Rightarrow> Some None
      | Some b \<Rightarrow>
        if \<not> ok then Some None
        else do {
          temp \<leftarrow> (if bf_data_size b > 0
                  then do { d \<leftarrow> bf_data b; mem_copy (replicate (bf_data_size b + 1) 0) 0 d 0 (bf_data_size b) }
                  else Some (replicate (bf_data_size b + 1) 0));
          string_allocate ps ok1 ok2 (Some temp) })"

text \<open>The bytes up to the first NUL become the string.\<close>

lemma buffer_convert_to_string_rep:
  assumes "buffer_rep p xs" "length xs \<le> SIZE_MAX div 2" "0 < ps" "ps \<le> SIZE_MAX div 4"
  shows "\<exists>q. buffer_convert_to_string ps True True True p = Some q \<and> string_rep ps q (takeWhile (\<lambda>b. b \<noteq> 0) xs)"
proof -
  obtain b n where b: "p = Some b" "bf_data b = Some (xs @ replicate n 0)" "bf_data_size b = length xs"
    using assms(1) by (rule buffer_repE)
  let ?t = "takeWhile (\<lambda>b. b \<noteq> 0) xs"
  have c: "c_string (xs @ [0]) = Some ?t" using c_string_pad [of 1 xs] by simp
  have "length ?t \<le> SIZE_MAX div 2" using length_takeWhile_le [of "\<lambda>b. b \<noteq> 0" xs] assms(2) by linarith
  then obtain q where q: "string_allocate ps True True (Some (xs @ [0])) = Some q" "string_rep ps q ?t"
    using string_allocate_rep [OF c _ assms(3,4)] by blast
  have "(if bf_data_size b > 0
      then do { d \<leftarrow> bf_data b; mem_copy (replicate (bf_data_size b + 1) 0) 0 d 0 (bf_data_size b) }
      else Some (replicate (bf_data_size b + 1) 0)) = Some (xs @ [0])"
    using b(2,3) by (simp add: mem_copy_Some flip: replicate_append_same)
  then have "buffer_convert_to_string ps True True True p = string_allocate ps True True (Some (xs @ [0]))"
    unfolding buffer_convert_to_string_def b(1) by simp
  with q show ?thesis by simp
qed

end
