(* ===== verification/Calendar.thy ===== *)
theory Calendar
  imports StringOps
begin

text \<open>
  The calendar of the C library, as \<open>core/src/datetime.c\<close> uses it: \<open>struct tm\<close>, \<open>mktime\<close>, \<open>localtime\<close> and
  \<open>strftime\<close>, for a local time that is \<open>zone\<close> seconds ahead of UTC the whole year.  Dates are those of the
  proleptic Gregorian calendar; an \<open>int\<close> is an integer whose range is checked where C leaves the overflow open
  and wrapped where C converts.
\<close>

section \<open>Integers of the machine\<close>

definition c_int :: "int \<Rightarrow> int option" where
  "c_int i = (if - (2 ^ 31) \<le> i \<and> i < 2 ^ 31 then Some i else None)"

text \<open>The conversion of an unsigned long to an int.\<close>

definition to_int :: "int \<Rightarrow> int" where
  "to_int i = (i + 2 ^ 31) mod 2 ^ 32 - 2 ^ 31"

section \<open>Broken-down time\<close>

record tm =
  tm_sec :: int
  tm_min :: int
  tm_hour :: int
  tm_mday :: int
  tm_mon :: int
  tm_year :: int
  tm_wday :: int
  tm_yday :: int
  tm_isdst :: int

definition leap :: "int \<Rightarrow> bool" where
  "leap y = (4 dvd y \<and> (\<not> 100 dvd y \<or> 400 dvd y))"

text \<open>Days before the first of January of a year, counted from the first of January of the year 1.\<close>

definition days_before :: "int \<Rightarrow> int" where
  "days_before y = 365 * (y - 1) + (y - 1) div 4 - (y - 1) div 100 + (y - 1) div 400"

text \<open>Days before the first of a month (0 to 11) in its year.\<close>

definition month_start :: "bool \<Rightarrow> nat \<Rightarrow> int" where
  "month_start lp m = [0, 31, 59, 90, 120, 151, 181, 212, 243, 273, 304, 334] ! m + (if lp \<and> 2 \<le> m then 1 else 0)"

definition month_length :: "bool \<Rightarrow> nat \<Rightarrow> int" where
  "month_length lp m = (if m = 1 \<and> lp then 29 else [31, 28, 31, 30, 31, 30, 31, 31, 30, 31, 30, 31] ! m)"

text \<open>Seconds since the epoch of a broken-down time whose fields may be out of their ranges, read as UTC.\<close>

definition tm_days :: "tm \<Rightarrow> int" where
  "tm_days t =
     (let y = tm_year t + 1900 + tm_mon t div 12
      in days_before y - days_before 1970 + month_start (leap y) (nat (tm_mon t mod 12)) + tm_mday t - 1)"

definition tm_seconds :: "tm \<Rightarrow> int" where
  "tm_seconds t = ((tm_days t * 24 + tm_hour t) * 60 + tm_min t) * 60 + tm_sec t"

text \<open>The year of a day that is counted from the first of January of the year 1, and its month in the year.\<close>

definition year_of :: "int \<Rightarrow> int" where
  "year_of n = (let e = n * 400 div 146097 + 1 in if days_before (e + 1) \<le> n then e + 1 else e)"

definition month_of :: "bool \<Rightarrow> int \<Rightarrow> nat" where
  "month_of lp d = length (filter (\<lambda>m. month_start lp m \<le> d) [1, 2, 3, 4, 5, 6, 7, 8, 9, 10, 11])"

definition tm_of_seconds :: "int \<Rightarrow> tm" where
  "tm_of_seconds s =
     (let n = s div 86400 + days_before 1970;
          r = s mod 86400;
          y = year_of n;
          d = n - days_before y;
          m = month_of (leap y) d
      in \<lparr>tm_sec = r mod 60, tm_min = r div 60 mod 60, tm_hour = r div 60 div 60, tm_mday = d - month_start (leap y) m + 1,
          tm_mon = int m, tm_year = y - 1900, tm_wday = (n + 1) mod 7, tm_yday = d, tm_isdst = 0\<rparr>)"

text \<open>
  \<open>localtime\<close> answers NULL when the year does not fit its field.  \<open>mktime\<close> answers the time and the normalised
  structure; -1 and the structure unchanged when there is no result.
\<close>

definition localtime :: "int \<Rightarrow> int \<Rightarrow> tm option" where
  "localtime zone t =
     (let r = tm_of_seconds (t + zone) in if c_int (tm_year r) = None then None else Some r)"

definition mktime :: "int \<Rightarrow> tm \<Rightarrow> int \<times> tm" where
  "mktime zone t =
     (let s = tm_seconds t - zone
      in case localtime zone s of None \<Rightarrow> (-1, t) | Some n \<Rightarrow> (s, n))"

text \<open>A broken-down time with all fields in their ranges and the two derived fields right.\<close>

definition tm_normal :: "tm \<Rightarrow> bool" where
  "tm_normal t =
     (0 \<le> tm_sec t \<and> tm_sec t < 60 \<and> 0 \<le> tm_min t \<and> tm_min t < 60 \<and> 0 \<le> tm_hour t \<and> tm_hour t < 24 \<and>
      0 \<le> tm_mon t \<and> tm_mon t < 12 \<and> 1 \<le> tm_mday t \<and> tm_mday t \<le> month_length (leap (tm_year t + 1900)) (nat (tm_mon t)) \<and>
      tm_isdst t = 0 \<and> tm_wday t = (tm_days t + days_before 1970 + 1) mod 7 \<and>
      tm_yday t = month_start (leap (tm_year t + 1900)) (nat (tm_mon t)) + tm_mday t - 1)"

section \<open>Years and months\<close>

lemma div_step:
  assumes "0 < (k :: int)"
  shows "y div k = (y - 1) div k + (if k dvd y then 1 else 0)"
proof -
  define q r where "q = (y - 1) div k" and "r = (y - 1) mod k"
  have y: "y = k * q + (r + 1)" and r: "0 \<le> r" "r < k"
    using mult_div_mod_eq [of k "y - 1"] assms by (simp_all add: q_def r_def)
  show ?thesis
  proof (cases "r + 1 < k")
    case True
    then have "y div k = q" "y mod k = r + 1" using int_div_pos_eq [OF y] int_mod_pos_eq [OF y] r by simp_all
    then show ?thesis using r(1) by (simp add: q_def dvd_eq_mod_eq_0)
  next
    case False
    then have "r + 1 = k" using r(2) by simp
    then have e: "y = k * (q + 1)" using y by (simp add: algebra_simps)
    then have "y div k = q + 1" "k dvd y" using assms by (metis nonzero_mult_div_cancel_left less_irrefl, metis dvd_triv_left)
    then show ?thesis by (simp add: q_def)
  qed
qed

lemma leap_arith:
  "(q \<Longrightarrow> p) \<Longrightarrow> (r \<Longrightarrow> q) \<Longrightarrow>
   365 * y + (a + (if p then 1 else 0)) - (b + (if q then 1 else 0)) + (c + (if r then 1 else 0)) =
     365 * (y - 1) + a - b + c + (if p \<and> (\<not> q \<or> r) then 366 else 365 :: int)"
  by (cases p; cases q; cases r) simp_all

lemma days_before_step: "days_before (y + 1) = days_before y + (if leap y then 366 else 365)"
proof -
  have "days_before (y + 1) = 365 * y + y div 4 - y div 100 + y div 400" by (simp add: days_before_def)
  also have "\<dots> = 365 * y + ((y - 1) div 4 + (if 4 dvd y then 1 else 0)) - ((y - 1) div 100 + (if 100 dvd y then 1 else 0)) +
      ((y - 1) div 400 + (if 400 dvd y then 1 else 0))"
    by (simp only: div_step [of 4 y] div_step [of 100 y] div_step [of 400 y] zero_less_numeral)
  also have "\<dots> = 365 * (y - 1) + (y - 1) div 4 - (y - 1) div 100 + (y - 1) div 400 +
      (if 4 dvd y \<and> (\<not> 100 dvd y \<or> 400 dvd y) then 366 else 365)"
    by (rule leap_arith) (erule dvd_trans [rotated], simp)+
  finally show ?thesis by (simp only: days_before_def leap_def)
qed

lemma days_before_bounds:
  "400 * days_before y \<le> 146097 * y - 145698" "146097 * y - 146796 \<le> 400 * days_before y"
proof -
  have d: "k * ((y - 1) div k) \<le> y - 1" "y - 1 - (k - 1) \<le> k * ((y - 1) div k)" if "0 < k" for k :: int
    using mult_div_mod_eq [of k "y - 1"] pos_mod_bound [OF that, of "y - 1"] pos_mod_sign [OF that, of "y - 1"] by linarith+
  show "400 * days_before y \<le> 146097 * y - 145698" "146097 * y - 146796 \<le> 400 * days_before y"
    unfolding days_before_def using d [of 4] d [of 100] d [of 400] by (simp_all add: algebra_simps)
qed

lemma days_before_mono: "y \<le> z \<Longrightarrow> days_before y \<le> days_before z"
proof (induction z rule: int_ge_induct)
  case (step i)
  then show ?case using days_before_step [of i] by (simp split: if_splits)
qed simp

lemma year_of_bounds: "days_before (year_of n) \<le> n" "n < days_before (year_of n + 1)"
proof -
  define e where "e = n * 400 div 146097 + 1"
  have q: "146097 * (e - 1) \<le> n * 400" "n * 400 < 146097 * (e - 1) + 146097"
    unfolding e_def using mult_div_mod_eq [of 146097 "n * 400"] pos_mod_bound [of 146097 "n * 400"] pos_mod_sign [of 146097 "n * 400"]
    by simp_all
  have lo: "days_before e \<le> n" using days_before_bounds(1) [of e] q(1) by simp
  have "n < days_before (e + 2)" using days_before_bounds(2) [of "e + 2"] q(2) by simp
  then have hi: "n < days_before (e + 1 + 1)" by (simp add: add.assoc)
  have "year_of n = (if days_before (e + 1) \<le> n then e + 1 else e)" by (simp add: year_of_def Let_def e_def)
  then show "days_before (year_of n) \<le> n" "n < days_before (year_of n + 1)" using lo hi by auto
qed

lemma year_of_unique: "days_before y \<le> n \<Longrightarrow> n < days_before (y + 1) \<Longrightarrow> year_of n = y"
  using year_of_bounds [of n] days_before_mono [of "y + 1" "year_of n"] days_before_mono [of "year_of n + 1" y] by linarith

lemma all_months: "m < 12 \<Longrightarrow> m \<in> {0, 1, 2, 3, 4, 5, 6, 7, 8, 9, 10, 11 :: nat}"
  by simp presburger

lemma month_start_Suc:
  assumes "m < 12"
  shows "month_start lp m + month_length lp m = (if m = 11 then if lp then 366 else 365 else month_start lp (Suc m))"
  using all_months [OF assms] by (auto simp: month_start_def month_length_def)

lemma month_of_unique:
  assumes "m < 12" "month_start lp m \<le> d" "d < month_start lp m + month_length lp m"
  shows "month_of lp d = m"
  using all_months [OF assms(1)] assms(2,3)
  by (cases lp) (auto simp: month_of_def month_start_def month_length_def)

lemma month_exists:
  assumes "0 \<le> d" "d < (if lp then 366 else 365)"
  shows "\<exists>m < 12. month_start lp m \<le> d \<and> d < month_start lp m + month_length lp m"
proof -
  have "\<exists>m < n. month_start lp m \<le> d \<and> d < month_start lp m + month_length lp m"
    if "n \<le> 12" "d < (if n = 12 then if lp then 366 else 365 else month_start lp n)" for n
    using that
  proof (induction n)
    case 0
    then show ?case using assms(1) by (simp add: month_start_def)
  next
    case (Suc n)
    then have e: "month_start lp n + month_length lp n = (if Suc n = 12 then if lp then 366 else 365 else month_start lp (Suc n))"
      using month_start_Suc [of n lp] by (simp add: eval_nat_numeral)
    show ?case
    proof (cases "d < month_start lp n")
      case True
      then show ?thesis using Suc.IH Suc.prems(1) by (auto intro: less_SucI)
    next
      case False
      then show ?thesis using e Suc.prems(2) by (intro exI [of _ n]) simp
    qed
  qed
  from this [of 12] assms(2) show ?thesis by simp
qed

lemma month_length_bounds: "m < 12 \<Longrightarrow> 28 \<le> month_length lp m \<and> month_length lp m \<le> 31"
  using all_months [of m] by (auto simp: month_length_def)

lemma month_end: "m < 12 \<Longrightarrow> 0 \<le> month_start lp m \<and> month_start lp m + month_length lp m \<le> (if lp then 366 else 365)"
  using all_months [of m] by (auto simp: month_start_def month_length_def)

section \<open>Seconds and broken-down times correspond\<close>

lemma tm_of_seconds_normal: "tm_normal (tm_of_seconds s)" "tm_seconds (tm_of_seconds s) = s"
proof -
  define n where "n = s div 86400 + days_before 1970"
  define r where "r = s mod 86400"
  define y where "y = year_of n"
  define d where "d = n - days_before y"
  define m where "m = month_of (leap y) d"
  have tm: "tm_of_seconds s = \<lparr>tm_sec = r mod 60, tm_min = r div 60 mod 60, tm_hour = r div 60 div 60,
      tm_mday = d - month_start (leap y) m + 1, tm_mon = int m, tm_year = y - 1900, tm_wday = (n + 1) mod 7, tm_yday = d, tm_isdst = 0\<rparr>"
    by (simp add: tm_of_seconds_def Let_def n_def r_def y_def d_def m_def)
  have r: "0 \<le> r" "r < 86400" by (simp_all add: r_def)
  have d: "0 \<le> d" "d < (if leap y then 366 else 365)"
    using year_of_bounds [of n] days_before_step [of y] by (auto simp: d_def y_def)
  obtain k where k: "k < 12" "month_start (leap y) k \<le> d" "d < month_start (leap y) k + month_length (leap y) k"
    using month_exists [OF d] by blast
  then have m: "m < 12" "month_start (leap y) m \<le> d" "d < month_start (leap y) m + month_length (leap y) m"
    using month_of_unique [OF k] by (simp_all add: m_def)
  have days: "tm_days (tm_of_seconds s) = n - days_before 1970"
    using m(1) by (simp add: tm tm_days_def d_def)
  have hms: "(r div 60 div 60 * 60 + r div 60 mod 60) * 60 + r mod 60 = r" by simp
  have "tm_seconds (tm_of_seconds s) = (n - days_before 1970) * 86400 + ((r div 60 div 60 * 60 + r div 60 mod 60) * 60 + r mod 60)"
    unfolding tm_seconds_def days unfolding tm tm.select_convs by (simp only: distrib_right mult.assoc add.assoc)
  then show "tm_seconds (tm_of_seconds s) = s" unfolding hms by (simp add: n_def r_def)
  have "r div 60 < 1440" using r zdiv_mono2 by auto
  then have "r div 60 div 60 < 24" "0 \<le> r div 60 div 60" using r by auto
  then show "tm_normal (tm_of_seconds s)"
    unfolding tm_normal_def days using m r by (simp add: tm)
qed

lemma clock_parts:
  assumes "0 \<le> s" "s < 60" "0 \<le> m" "m < 60" "0 \<le> h" "h < (24 :: int)" "r = (h * 60 + m) * 60 + s"
  shows "0 \<le> r" "r < 86400" "r mod 60 = s" "r div 60 mod 60 = m" "r div 60 div 60 = h"
proof -
  have h1: "r = 60 * (h * 60 + m) + s" using assms(7) by simp
  have h2: "h * 60 + m = 60 * h + m" by simp
  have q: "r div 60 = h * 60 + m" "r mod 60 = s" using int_div_pos_eq [OF h1 assms(1,2)] int_mod_pos_eq [OF h1 assms(1,2)] by this+
  have "h \<le> 23" "m \<le> 59" "s \<le> 59" using assms(2,4,6) by simp_all
  then show "0 \<le> r" "r < 86400" using assms(1,3,5,7) by simp_all
  show "r mod 60 = s" "r div 60 mod 60 = m" "r div 60 div 60 = h"
    unfolding q using int_div_pos_eq [OF h2 assms(3,4)] int_mod_pos_eq [OF h2 assms(3,4)] by (simp_all only:)
qed

lemma tm_of_seconds_parts:
  assumes "0 \<le> r" "r < 86400" "year_of (days_before y + d) = y" "month_of (leap y) d = m"
  shows "tm_of_seconds (86400 * (days_before y + d - days_before 1970) + r) =
    \<lparr>tm_sec = r mod 60, tm_min = r div 60 mod 60, tm_hour = r div 60 div 60, tm_mday = d - month_start (leap y) m + 1,
      tm_mon = int m, tm_year = y - 1900, tm_wday = (days_before y + d + 1) mod 7, tm_yday = d, tm_isdst = 0\<rparr>"
proof -
  let ?k = "days_before y + d - days_before 1970"
  have q: "(86400 * ?k + r) div 86400 = ?k" "(86400 * ?k + r) mod 86400 = r"
    by (rule int_div_pos_eq [OF refl assms(1,2)], rule int_mod_pos_eq [OF refl assms(1,2)])
  have n: "?k + days_before 1970 = days_before y + d" by simp
  show ?thesis unfolding tm_of_seconds_def q n Let_def assms(3) add_diff_cancel_left' assms(4) ..
qed

lemma tm_of_seconds_inverse:
  assumes "tm_normal t"
  shows "tm_of_seconds (tm_seconds t) = t"
proof -
  define y where "y = tm_year t + 1900"
  define m where "m = nat (tm_mon t)"
  define d where "d = month_start (leap y) m + tm_mday t - 1"
  define r where "r = (tm_hour t * 60 + tm_min t) * 60 + tm_sec t"
  have m: "m < 12" "tm_mon t = int m" using assms by (auto simp: tm_normal_def m_def)
  have days: "tm_days t = days_before y + d - days_before 1970" using m by (simp add: tm_days_def d_def y_def Let_def)
  have f: "0 \<le> tm_sec t" "tm_sec t < 60" "0 \<le> tm_min t" "tm_min t < 60" "0 \<le> tm_hour t" "tm_hour t < 24"
    "1 \<le> tm_mday t" "tm_mday t \<le> month_length (leap y) m" "tm_isdst t = 0"
    "tm_wday t = (days_before y + d + 1) mod 7" "tm_yday t = d"
    using assms days unfolding tm_normal_def y_def [symmetric] m_def [symmetric] by (simp_all add: d_def)
  note c = clock_parts [OF f(1-6) r_def]
  have "((D * 24 + h) * 60 + n) * 60 + z = 86400 * D + ((h * 60 + n) * 60 + z)" for D h n z :: int by simp
  then have s: "tm_seconds t = 86400 * (days_before y + d - days_before 1970) + r"
    unfolding tm_seconds_def days r_def .
  have dy: "0 \<le> d" "d < (if leap y then 366 else 365)"
    using month_end [OF m(1), of "leap y"] f(7,8) unfolding d_def by simp_all
  have yr: "year_of (days_before y + d) = y" by (rule year_of_unique) (use dy days_before_step [of y] in simp_all)
  have mo: "month_of (leap y) d = m" by (rule month_of_unique [OF m(1)]) (use f(7,8) in \<open>simp_all add: d_def\<close>)
  have "tm_mday t = d - month_start (leap y) m + 1" "tm_year t = y - 1900" by (simp_all add: d_def y_def)
  then show ?thesis
    unfolding s tm_of_seconds_parts [OF c(1,2) yr mo] c(3-5) using m(2) f(9-11) by (cases t) simp
qed

lemma localtime_Some:
  assumes "localtime zone t = Some r"
  shows "tm_normal r" "tm_seconds r - zone = t" "mktime zone r = (t, r)"
proof -
  have r: "r = tm_of_seconds (t + zone)" "c_int (tm_year r) \<noteq> None"
    using assms by (auto simp: localtime_def Let_def split: if_splits)
  show "tm_normal r" "tm_seconds r - zone = t" using tm_of_seconds_normal [of "t + zone"] r(1) by simp_all
  then show "mktime zone r = (t, r)" using assms by (simp add: mktime_def Let_def)
qed

lemma mktime_Some:
  assumes "localtime zone (tm_seconds t - zone) = Some r"
  shows "mktime zone t = (tm_seconds t - zone, r)"
  using assms by (simp add: mktime_def Let_def)

lemma mktime_normal:
  assumes "tm_normal t" "c_int (tm_year t) = Some y"
  shows "mktime zone t = (tm_seconds t - zone, t)"
  using assms tm_of_seconds_inverse [OF assms(1)] by (simp add: mktime_def localtime_def Let_def)

end
