(* ===== verification/DateTime.thy ===== *)
theory DateTime
  imports Calendar StringList
begin

text \<open>
  Dates and times of \<open>core/src/datetime.c\<close>.  \<open>zone\<close> is the local time zone, \<open>now\<close> what \<open>time\<close> answers, \<open>ok\<close> whether
  the allocation of a call succeeds.  A \<open>date_time_t\<close> is its broken-down time; a string argument is the block it
  points to, a string result the block that was written.
\<close>

section \<open>Construction\<close>

record date_time_t =
  timeinfo :: tm

text \<open>What \<open>%04d%02d%02d%02d%02d%02d\<close> prints; the two sums must fit an int.\<close>

definition date_time_stamp :: "tm \<Rightarrow> byte list option" where
  "date_time_stamp t = do {
     ye \<leftarrow> c_int (tm_year t + 1900);
     mo \<leftarrow> c_int (tm_mon t + 1);
     Some (padded_digits 4 ye @ padded_digits 2 mo @ padded_digits 2 (tm_mday t) @
       padded_digits 2 (tm_hour t) @ padded_digits 2 (tm_min t) @ padded_digits 2 (tm_sec t)) }"

definition date_time_get_default_string :: "int \<Rightarrow> int \<Rightarrow> byte list option \<Rightarrow> byte list option option" where
  "date_time_get_default_string zone now ptr =
     (case ptr of
        None \<Rightarrow> Some None
      | Some block \<Rightarrow> do {
          tmp \<leftarrow> localtime zone now;
          t \<leftarrow> date_time_stamp tmp;
          let buffer = take 64 t @ [0];
          block' \<leftarrow> mem_copy block 0 buffer 0 (length buffer);
          Some (Some block') })"

definition date_time_release :: "date_time_t option \<Rightarrow> unit" where
  "date_time_release ptr = ()"

definition date_time_allocate_from_unix_epoch :: "int \<Rightarrow> bool \<Rightarrow> int \<Rightarrow> date_time_t option" where
  "date_time_allocate_from_unix_epoch zone ok unixtsval =
     (if \<not> ok then None else map_option (\<lambda>tmp. \<lparr>timeinfo = tmp\<rparr>) (localtime zone unixtsval))"

definition date_time_allocate_default :: "int \<Rightarrow> int \<Rightarrow> bool \<Rightarrow> date_time_t option" where
  "date_time_allocate_default zone now ok =
     (if \<not> ok then None else map_option (\<lambda>tmp. \<lparr>timeinfo = tmp\<rparr>) (localtime zone now))"

definition date_time_allocate_from_time :: "int \<Rightarrow> bool \<Rightarrow> int \<Rightarrow> date_time_t option" where
  "date_time_allocate_from_time zone ok tsval = date_time_allocate_from_unix_epoch zone ok tsval"

definition date_time_allocate_from_time_struct :: "bool \<Rightarrow> tm option \<Rightarrow> date_time_t option" where
  "date_time_allocate_from_time_struct ok tsval =
     (case tsval of None \<Rightarrow> None | Some t \<Rightarrow> if \<not> ok then None else Some \<lparr>timeinfo = t\<rparr>)"

definition extract_int_from_string :: "byte list option \<Rightarrow> nat \<Rightarrow> nat \<Rightarrow> int option" where
  "extract_int_from_string str pos len =
     (case str of
        None \<Rightarrow> Some 0
      | Some b \<Rightarrow> do {
          n \<leftarrow> str_len b;
          if pos + len > n then Some 0
          else do {
            temp \<leftarrow> str_ncpy (replicate 5 0) (drop pos b) len;
            s \<leftarrow> c_string temp;
            Some (atoi_text s) } })"

text \<open>One field: where its letters stand in the format, its digits in the text are read.\<close>

definition parse_field :: "byte list \<Rightarrow> byte list \<Rightarrow> string \<Rightarrow> nat \<Rightarrow> int \<Rightarrow> int \<Rightarrow> int option" where
  "parse_field strts format letters len offset base =
     (case str_find (bytes_of letters) format of
        None \<Rightarrow> Some base
      | Some idx \<Rightarrow> map_option (\<lambda>v. v + offset) (extract_int_from_string (Some strts) idx len))"

definition date_time_allocate_from_string ::
  "int \<Rightarrow> int \<Rightarrow> bool \<Rightarrow> byte list option \<Rightarrow> byte list option \<Rightarrow> date_time_t option option" where
  "date_time_allocate_from_string zone now ok strts strformat =
     (case (strts, strformat) of
        (Some st, Some fm) \<Rightarrow>
          if \<not> ok then Some None
          else do {
            tmp \<leftarrow> localtime zone now;
            n \<leftarrow> str_len st;
            if n \<noteq> 14 \<and> n \<noteq> 12 then Some None
            else do {
              f \<leftarrow> c_string fm;
              ye \<leftarrow> (if str_find (bytes_of ''yyyy'') f \<noteq> None then parse_field st f ''yyyy'' 4 (- 1900) (tm_year tmp)
                    else parse_field st f ''yy'' 2 100 (tm_year tmp));
              mo \<leftarrow> parse_field st f ''MM'' 2 (- 1) (tm_mon tmp);
              md \<leftarrow> parse_field st f ''dd'' 2 0 (tm_mday tmp);
              ho \<leftarrow> parse_field st f ''hh'' 2 0 (tm_hour tmp);
              mi \<leftarrow> parse_field st f ''mm'' 2 0 (tm_min tmp);
              se \<leftarrow> parse_field st f ''ss'' 2 0 (tm_sec tmp);
              Some (Some \<lparr>timeinfo = tmp\<lparr>tm_year := ye, tm_mon := mo, tm_mday := md, tm_hour := ho, tm_min := mi, tm_sec := se\<rparr>\<rparr>) } }
      | _ \<Rightarrow> Some None)"

section \<open>Printing\<close>

definition date_time_get_string :: "bool \<Rightarrow> date_time_t option \<Rightarrow> byte list option option" where
  "date_time_get_string ok ptr =
     (case ptr of
        None \<Rightarrow> Some None
      | Some p \<Rightarrow>
        if \<not> ok then Some None
        else do { t \<leftarrow> date_time_stamp (timeinfo p); b \<leftarrow> print_into 65 t; Some (Some b) })"

text \<open>\<open>pat\<close> (\<open>find\<close>) and \<open>repl\<close> are C string literals, given without their terminators.\<close>

definition str_replace_format :: "byte list \<Rightarrow> byte list \<Rightarrow> byte list \<Rightarrow> byte list \<Rightarrow> nat \<Rightarrow> byte list option" where
  "str_replace_format dest src pat repl dest_size = do {
     s \<leftarrow> c_string src;
     let whole = do { d \<leftarrow> str_ncpy dest src (dest_size - 1); mem_write d (dest_size - 1) 0 };
     case str_find pat s of
       None \<Rightarrow> whole
     | Some k \<Rightarrow>
         let suffix_len = length s - (k + length pat)
         in if k + length repl + suffix_len \<ge> dest_size then whole
            else do {
              d1 \<leftarrow> str_ncpy dest src k;
              d2 \<leftarrow> str_copy d1 k (repl @ [0]) 0;
              str_copy d2 (k + length repl) src (k + length pat) } }"

text \<open>
  One step of the conversion: when the letters stand in \<open>temp_format\<close>, it is rewritten through \<open>work_buf\<close>.  The
  answer is whether they do, and the two arrays.
\<close>

definition format_step :: "string \<Rightarrow> string \<Rightarrow> byte list \<times> byte list \<Rightarrow> (bool \<times> byte list \<times> byte list) option" where
  "format_step letters repl st =
     (case st of
        (temp_format, work_buf) \<Rightarrow> do {
          f \<leftarrow> c_string temp_format;
          if str_find (bytes_of letters) f = None then Some (False, st)
          else do {
            w \<leftarrow> str_replace_format work_buf temp_format (bytes_of letters) (bytes_of repl) 256;
            t \<leftarrow> str_copy temp_format 0 w 0;
            Some (True, (t, w)) } })"

text \<open>Two alternatives, the second only when the first does not occur.\<close>

definition format_either ::
  "string \<Rightarrow> string \<Rightarrow> string \<Rightarrow> string \<Rightarrow> byte list \<times> byte list \<Rightarrow> (bool \<times> byte list \<times> byte list) option" where
  "format_either l1 r1 l2 r2 st = do {
     (found, st1) \<leftarrow> format_step l1 r1 st;
     if found then Some (False, st1) else format_step l2 r2 st1 }"

text \<open>
  \<open>strftime\<close> in the C locale for the conversions that are inserted; \<open>other\<close> is what it prints for another
  conversion character, or for a percent sign at the end (the character 0 here).
\<close>

definition month_names :: "string list" where
  "month_names = [''January'', ''February'', ''March'', ''April'', ''May'', ''June'', ''July'', ''August'', ''September'',
     ''October'', ''November'', ''December'']"

definition conversion :: "(byte \<Rightarrow> tm \<Rightarrow> byte list) \<Rightarrow> byte \<Rightarrow> tm \<Rightarrow> byte list" where
  "conversion other c t =
     (if c = 83 then padded_digits 2 (tm_sec t)
      else if c = 77 then padded_digits 2 (tm_min t)
      else if c = 72 then padded_digits 2 (tm_hour t)
      else if c = 73 then padded_digits 2 (if tm_hour t mod 12 = 0 then 12 else tm_hour t mod 12)
      else if c = 100 then padded_digits 2 (tm_mday t)
      else if c = 66 then (if 0 \<le> tm_mon t \<and> tm_mon t < 12 then bytes_of (month_names ! nat (tm_mon t)) else [63])
      else if c = 109 then padded_digits 2 (tm_mon t + 1)
      else if c = 89 then int_digits (tm_year t + 1900)
      else if c = 121 then padded_digits 2 ((tm_year t + 1900) mod 100)
      else if c = 112 then bytes_of (if tm_hour t < 12 then ''AM'' else ''PM'')
      else other c t)"

fun strftime_text :: "(byte \<Rightarrow> tm \<Rightarrow> byte list) \<Rightarrow> byte list \<Rightarrow> tm \<Rightarrow> byte list" where
  "strftime_text other [] t = []"
| "strftime_text other [c] t = (if c = 37 then other 0 t else [c])"
| "strftime_text other (c # d # r) t =
     (if c = 37 then conversion other d t @ strftime_text other r t else c # strftime_text other (d # r) t)"

definition date_time_get_formatted_string ::
  "(byte \<Rightarrow> tm \<Rightarrow> byte list) \<Rightarrow> bool \<Rightarrow> date_time_t option \<Rightarrow> byte list option \<Rightarrow> byte list option option" where
  "date_time_get_formatted_string other ok ptr strformat =
     (case (ptr, strformat) of
        (Some p, Some fm) \<Rightarrow>
          if \<not> ok then Some None
          else do {
            temp_format \<leftarrow> str_ncpy (replicate 256 0) fm 255;
            (_, st) \<leftarrow> format_step ''ss'' ''%S'' (temp_format, replicate 256 0);
            (_, st) \<leftarrow> format_step ''mm'' ''%M'' st;
            (am_pm_needed, st) \<leftarrow> format_either ''hh'' ''%H'' ''h'' ''%I'' st;
            (_, st) \<leftarrow> format_step ''dd'' ''%d'' st;
            (_, st) \<leftarrow> format_either ''MMMM'' ''%B'' ''MM'' ''%m'' st;
            (_, st) \<leftarrow> format_either ''yyyy'' ''%Y'' ''yy'' ''%y'' st;
            f \<leftarrow> c_string (fst st);
            if am_pm_needed \<and> length f + 3 \<ge> 256 then Some None
            else do {
              let f' = (if am_pm_needed then f @ bytes_of '' %p'' else f);
              let t = (if tm_year (timeinfo p) < 100 then (timeinfo p)\<lparr>tm_year := tm_year (timeinfo p) + 100\<rparr> else timeinfo p);
              let out = strftime_text other f' t;
              if out = [] \<or> length out \<ge> 256 then Some None
              else Some (Some (out @ replicate (256 - length out) 0)) } }
      | _ \<Rightarrow> Some None)"

section \<open>Time values and arithmetic\<close>

definition date_time_get_unix_epoch :: "int \<Rightarrow> date_time_t option \<Rightarrow> int" where
  "date_time_get_unix_epoch zone ptr = (case ptr of None \<Rightarrow> 0 | Some p \<Rightarrow> fst (mktime zone (timeinfo p)))"

definition date_time_get_time :: "int \<Rightarrow> date_time_t option \<Rightarrow> int" where
  "date_time_get_time zone ptr = date_time_get_unix_epoch zone ptr"

text \<open>
  The four additions: \<open>unit\<close> seconds for each of \<open>val\<close>.  The product and the sum are unsigned long; the sum
  is stored into the int \<open>tm_sec\<close>, which keeps its low 32 bits.
\<close>

definition date_time_add :: "int \<Rightarrow> int \<Rightarrow> bool \<Rightarrow> date_time_t option \<Rightarrow> nat \<Rightarrow> date_time_t option" where
  "date_time_add unit zone ok ptr val =
     (case ptr of
        None \<Rightarrow> None
      | Some p \<Rightarrow>
        if \<not> ok then None
        else Some \<lparr>timeinfo = snd (mktime zone ((timeinfo p)\<lparr>tm_sec := to_int (tm_sec (timeinfo p) + int val * unit)\<rparr>))\<rparr>)"

definition date_time_add_days :: "int \<Rightarrow> bool \<Rightarrow> date_time_t option \<Rightarrow> nat \<Rightarrow> date_time_t option" where
  "date_time_add_days = date_time_add (24 * 60 * 60)"

definition date_time_add_hours :: "int \<Rightarrow> bool \<Rightarrow> date_time_t option \<Rightarrow> nat \<Rightarrow> date_time_t option" where
  "date_time_add_hours = date_time_add (60 * 60)"

definition date_time_add_minutes :: "int \<Rightarrow> bool \<Rightarrow> date_time_t option \<Rightarrow> nat \<Rightarrow> date_time_t option" where
  "date_time_add_minutes = date_time_add 60"

definition date_time_add_seconds :: "int \<Rightarrow> bool \<Rightarrow> date_time_t option \<Rightarrow> nat \<Rightarrow> date_time_t option" where
  "date_time_add_seconds = date_time_add 1"

section \<open>Fields\<close>

text \<open>An int that is returned as an unsigned long; NULL answers 0.\<close>

definition tm_field :: "(tm \<Rightarrow> int) \<Rightarrow> date_time_t option \<Rightarrow> nat" where
  "tm_field f ptr = (case ptr of None \<Rightarrow> 0 | Some p \<Rightarrow> size_of_long (f (timeinfo p)))"

definition date_time_get_hours :: "date_time_t option \<Rightarrow> nat" where
  "date_time_get_hours = tm_field tm_hour"

definition date_time_get_minutes :: "date_time_t option \<Rightarrow> nat" where
  "date_time_get_minutes = tm_field tm_min"

definition date_time_get_seconds :: "date_time_t option \<Rightarrow> nat" where
  "date_time_get_seconds = tm_field tm_sec"

definition date_time_get_miliseconds :: "date_time_t option \<Rightarrow> nat" where
  "date_time_get_miliseconds ptr = 0"

text \<open>A field with a number added, which must fit an int.\<close>

definition tm_field_plus :: "(tm \<Rightarrow> int) \<Rightarrow> int \<Rightarrow> date_time_t option \<Rightarrow> nat option" where
  "tm_field_plus f k ptr = (case ptr of None \<Rightarrow> Some 0 | Some p \<Rightarrow> map_option size_of_long (c_int (f (timeinfo p) + k)))"

definition date_time_get_year :: "date_time_t option \<Rightarrow> nat option" where
  "date_time_get_year = tm_field_plus tm_year 1900"

definition date_time_get_month :: "date_time_t option \<Rightarrow> nat option" where
  "date_time_get_month = tm_field_plus tm_mon 1"

definition date_time_get_days :: "date_time_t option \<Rightarrow> nat option" where
  "date_time_get_days = tm_field_plus tm_yday 1"

definition date_time_get_day_of_month :: "date_time_t option \<Rightarrow> nat" where
  "date_time_get_day_of_month = tm_field tm_mday"

definition date_time_get_day_of_week :: "date_time_t option \<Rightarrow> nat" where
  "date_time_get_day_of_week = tm_field tm_wday"

text \<open>The division of ints truncates towards zero.\<close>

definition date_time_get_week_of_year :: "int \<Rightarrow> date_time_t option \<Rightarrow> nat" where
  "date_time_get_week_of_year zone ptr =
     (case ptr of
        None \<Rightarrow> 0
      | Some p \<Rightarrow>
        let d = tm_yday (snd (mktime zone (timeinfo p)))
        in size_of_long ((if d < 0 then - (- d div 7) else d div 7) + 1))"

definition date_time_set_year :: "date_time_t option \<Rightarrow> nat \<Rightarrow> date_time_t option" where
  "date_time_set_year ptr val =
     (case ptr of None \<Rightarrow> None
      | Some p \<Rightarrow> if val < 1900 \<or> val > 3000 then ptr else Some \<lparr>timeinfo = (timeinfo p)\<lparr>tm_year := int val - 1900\<rparr>\<rparr>)"

definition date_time_set_month :: "date_time_t option \<Rightarrow> nat \<Rightarrow> date_time_t option" where
  "date_time_set_month ptr val =
     (case ptr of None \<Rightarrow> None
      | Some p \<Rightarrow> if val < 1 \<or> val > 12 then ptr else Some \<lparr>timeinfo = (timeinfo p)\<lparr>tm_mon := int val - 1\<rparr>\<rparr>)"

definition date_time_set_day :: "date_time_t option \<Rightarrow> nat \<Rightarrow> date_time_t option" where
  "date_time_set_day ptr val =
     (case ptr of None \<Rightarrow> None
      | Some p \<Rightarrow> if val < 1 \<or> val > 31 then ptr else Some \<lparr>timeinfo = (timeinfo p)\<lparr>tm_mday := int val\<rparr>\<rparr>)"

definition date_time_set_hour :: "date_time_t option \<Rightarrow> nat \<Rightarrow> date_time_t option" where
  "date_time_set_hour ptr val =
     (case ptr of None \<Rightarrow> None
      | Some p \<Rightarrow> if val > 23 then ptr else Some \<lparr>timeinfo = (timeinfo p)\<lparr>tm_hour := int val\<rparr>\<rparr>)"

definition date_time_set_minute :: "date_time_t option \<Rightarrow> nat \<Rightarrow> date_time_t option" where
  "date_time_set_minute ptr val =
     (case ptr of None \<Rightarrow> None
      | Some p \<Rightarrow> if val > 59 then ptr else Some \<lparr>timeinfo = (timeinfo p)\<lparr>tm_min := int val\<rparr>\<rparr>)"

definition date_time_set_second :: "date_time_t option \<Rightarrow> nat \<Rightarrow> date_time_t option" where
  "date_time_set_second ptr val =
     (case ptr of None \<Rightarrow> None
      | Some p \<Rightarrow> if val > 59 then ptr else Some \<lparr>timeinfo = (timeinfo p)\<lparr>tm_sec := int val\<rparr>\<rparr>)"

section \<open>Comparison and difference\<close>

definition date_time_compare :: "(int \<Rightarrow> int \<Rightarrow> bool) \<Rightarrow> int \<Rightarrow> date_time_t option \<Rightarrow> date_time_t option \<Rightarrow> bool" where
  "date_time_compare test zone first second =
     (case (first, second) of
        (Some p, Some q) \<Rightarrow> test (fst (mktime zone (timeinfo p))) (fst (mktime zone (timeinfo q)))
      | _ \<Rightarrow> False)"

definition date_time_are_equal :: "int \<Rightarrow> date_time_t option \<Rightarrow> date_time_t option \<Rightarrow> bool" where
  "date_time_are_equal = date_time_compare (=)"

definition date_time_is_first_greater :: "int \<Rightarrow> date_time_t option \<Rightarrow> date_time_t option \<Rightarrow> bool" where
  "date_time_is_first_greater = date_time_compare (>)"

definition date_time_is_first_lower :: "int \<Rightarrow> date_time_t option \<Rightarrow> date_time_t option \<Rightarrow> bool" where
  "date_time_is_first_lower = date_time_compare (<)"

text \<open>\<open>dbl\<close> rounds an integer to a double that holds one; the result must fit an unsigned long.\<close>

definition date_time_diff_miliseconds :: "(int \<Rightarrow> int) \<Rightarrow> int \<Rightarrow> date_time_t option \<Rightarrow> date_time_t option \<Rightarrow> nat option" where
  "date_time_diff_miliseconds dbl zone first second =
     (case (first, second) of
        (Some p, Some q) \<Rightarrow>
          let d = dbl (fst (mktime zone (timeinfo p)) - fst (mktime zone (timeinfo q)));
              ms = dbl (\<bar>d\<bar> * 1000)
          in if ms < 2 ^ 64 then Some (nat ms) else None
      | _ \<Rightarrow> Some 0)"

definition date_time_to_epoch_ll :: "int \<Rightarrow> date_time_t option \<Rightarrow> nat" where
  "date_time_to_epoch_ll zone ptr =
     (case ptr of None \<Rightarrow> 0 | Some _ \<Rightarrow> let t = date_time_get_unix_epoch zone ptr in if t < 0 then 0 else nat t)"

text \<open>\<open>time_t\<close> is a signed 64-bit integer: the test compares a value with itself converted forth and back.\<close>

definition date_time_from_epoch_ll :: "int \<Rightarrow> bool \<Rightarrow> nat \<Rightarrow> date_time_t option" where
  "date_time_from_epoch_ll zone ok epoch =
     (let t = (int epoch + 2 ^ 63) mod 2 ^ 64 - 2 ^ 63
      in if t mod 2 ^ 64 \<noteq> int epoch then None else date_time_allocate_from_unix_epoch zone ok t)"

section \<open>Time values: round trip and arithmetic\<close>

text \<open>
  The epoch.  Every time value whose year fits its field makes a date with all fields in their ranges, and that date
  gives the time value back; a value that is not negative also survives the unsigned pair of functions.
\<close>

theorem date_time_epoch_roundtrip:
  assumes "localtime zone t \<noteq> None"
  shows "\<exists>p. date_time_allocate_from_unix_epoch zone True t = Some p \<and> tm_normal (timeinfo p) \<and>
    date_time_get_unix_epoch zone (Some p) = t \<and>
    (0 \<le> t \<and> t < 2 ^ 63 \<longrightarrow> date_time_from_epoch_ll zone True (nat t) = Some p \<and> date_time_to_epoch_ll zone (Some p) = nat t)"
proof -
  obtain r where r: "localtime zone t = Some r" using assms by auto
  note l = localtime_Some [OF r]
  have p: "date_time_allocate_from_unix_epoch zone True t = Some \<lparr>timeinfo = r\<rparr>" using r by (simp add: date_time_allocate_from_unix_epoch_def)
  have e: "date_time_get_unix_epoch zone (Some \<lparr>timeinfo = r\<rparr>) = t" using l(3) by (simp add: date_time_get_unix_epoch_def)
  have "date_time_from_epoch_ll zone True (nat t) = Some \<lparr>timeinfo = r\<rparr> \<and> date_time_to_epoch_ll zone (Some \<lparr>timeinfo = r\<rparr>) = nat t"
    if "0 \<le> t" "t < 2 ^ 63"
  proof -
    have "(t + 2 ^ 63) mod 2 ^ 64 = t + 2 ^ 63" "t mod 2 ^ 64 = t" using that by (simp_all add: mod_pos_pos_trivial)
    then show ?thesis using that p e by (simp add: date_time_from_epoch_ll_def date_time_to_epoch_ll_def Let_def)
  qed
  with p e l(1) show ?thesis by auto
qed

theorem date_time_epoch_roundtrip_witness:
  "\<exists>p. date_time_allocate_from_unix_epoch 3600 True 1709164800 = Some p \<and> date_time_get_unix_epoch 3600 (Some p) = 1709164800"
proof -
  have "localtime 3600 1709164800 \<noteq> None" by code_simp
  from date_time_epoch_roundtrip [OF this] show ?thesis by blast
qed

lemma mktime_add_seconds:
  assumes "tm_normal t" "c_int (tm_year t) = Some y" "localtime zone (tm_seconds t + k - zone) = Some r"
  shows "mktime zone (t\<lparr>tm_sec := tm_sec t + k\<rparr>) = (tm_seconds t + k - zone, r)" "mktime zone r = (tm_seconds t + k - zone, r)"
proof -
  have "tm_seconds (t\<lparr>tm_sec := tm_sec t + k\<rparr>) = tm_seconds t + k" by (simp add: tm_seconds_def tm_days_def Let_def)
  then show "mktime zone (t\<lparr>tm_sec := tm_sec t + k\<rparr>) = (tm_seconds t + k - zone, r)"
    using mktime_Some [of zone "t\<lparr>tm_sec := tm_sec t + k\<rparr>" r] assms(3) by simp
  show "mktime zone r = (tm_seconds t + k - zone, r)" by (rule localtime_Some(3) [OF assms(3)])
qed

lemma to_int_small: "- (2 ^ 31) \<le> i \<Longrightarrow> i < 2 ^ 31 \<Longrightarrow> to_int i = i"
  by (simp add: to_int_def mod_pos_pos_trivial)

lemma to_int_wrapped:
  assumes "2 ^ 31 \<le> i" "i < 2 ^ 31 + 2 ^ 32"
  shows "to_int i = i - 2 ^ 32"
proof -
  have e: "i + 2 ^ 31 = 2 ^ 32 * 1 + (i - 2 ^ 31)" by simp
  have "(i + 2 ^ 31) mod 2 ^ 32 = i - 2 ^ 31" using int_mod_pos_eq [OF e] assms by simp
  then show ?thesis by (simp add: to_int_def)
qed

lemma date_time_add_epoch:
  assumes "tm_normal (timeinfo p)" "c_int (tm_year (timeinfo p)) = Some y"
    "to_int (tm_sec (timeinfo p) + int n * k) = tm_sec (timeinfo p) + d"
    "localtime zone (date_time_get_unix_epoch zone (Some p) + d) = Some r"
  shows "date_time_add k zone True (Some p) n = Some \<lparr>timeinfo = r\<rparr>" "tm_normal r"
    "date_time_get_unix_epoch zone (Some \<lparr>timeinfo = r\<rparr>) = date_time_get_unix_epoch zone (Some p) + d"
proof -
  have e: "date_time_get_unix_epoch zone (Some p) = tm_seconds (timeinfo p) - zone"
    using mktime_normal [OF assms(1,2)] by (simp add: date_time_get_unix_epoch_def)
  have l: "localtime zone (tm_seconds (timeinfo p) + d - zone) = Some r" using assms(4) unfolding e diff_add_eq .
  show "date_time_add k zone True (Some p) n = Some \<lparr>timeinfo = r\<rparr>"
    using mktime_add_seconds(1) [OF assms(1,2) l] assms(3) by (simp add: date_time_add_def)
  show "tm_normal r" by (rule localtime_Some(1) [OF l])
  show "date_time_get_unix_epoch zone (Some \<lparr>timeinfo = r\<rparr>) = date_time_get_unix_epoch zone (Some p) + d"
    using mktime_add_seconds(2) [OF assms(1,2) l] e by (simp add: date_time_get_unix_epoch_def)
qed

text \<open>
  C20: adding.  Adding days, hours, minutes or seconds to a regular date moves its time value by exactly that many
  seconds and gives a regular date again, as long as the seconds, together with those of the date, fit an int.
\<close>

theorem date_time_add_moves:
  assumes "tm_normal (timeinfo p)" "c_int (tm_year (timeinfo p)) = Some y"
    "(add, k) \<in> {(date_time_add_days, 86400), (date_time_add_hours, 3600), (date_time_add_minutes, 60), (date_time_add_seconds, 1)}"
    "tm_sec (timeinfo p) + int n * k < 2 ^ 31" "localtime zone (date_time_get_unix_epoch zone (Some p) + int n * k) \<noteq> None"
  shows "\<exists>q. add zone True (Some p) n = Some q \<and> tm_normal (timeinfo q) \<and>
    date_time_get_unix_epoch zone (Some q) = date_time_get_unix_epoch zone (Some p) + int n * k"
proof -
  obtain r where r: "localtime zone (date_time_get_unix_epoch zone (Some p) + int n * k) = Some r" using assms(5) by auto
  have add: "add = date_time_add k" "0 \<le> k"
    using assms(3) by (auto simp: date_time_add_days_def date_time_add_hours_def date_time_add_minutes_def date_time_add_seconds_def)
  have "0 \<le> tm_sec (timeinfo p) + int n * k" using assms(1) add(2) by (simp add: tm_normal_def)
  then have "to_int (tm_sec (timeinfo p) + int n * k) = tm_sec (timeinfo p) + int n * k"
    using to_int_small assms(4) by simp
  from date_time_add_epoch [OF assms(1,2) this r] show ?thesis unfolding add(1) by simp
qed

definition test_date :: date_time_t where
  "test_date = \<lparr>timeinfo = tm_of_seconds 1709164800\<rparr>"

lemma test_date_normal: "tm_normal (timeinfo test_date)" "c_int (tm_year (timeinfo test_date)) = Some 124"
  "date_time_get_unix_epoch 0 (Some test_date) = 1709164800" "tm_sec (timeinfo test_date) = 0"
  by (simp add: test_date_def tm_of_seconds_normal) code_simp+

theorem date_time_add_moves_witness:
  "\<exists>q. date_time_add_days 0 True (Some test_date) 2 = Some q \<and> date_time_get_unix_epoch 0 (Some q) = 1709337600"
proof -
  have l: "localtime 0 (1709164800 + int 2 * 86400) \<noteq> None" by code_simp
  show ?thesis
    using date_time_add_moves [OF test_date_normal(1,2), of date_time_add_days 86400 2 0] l
    by (simp add: test_date_normal(3,4)) blast
qed

text \<open>
  Adding too many days.  From 24856 days on (and for up to 49710 more) the seconds do not fit the int they are added
  to: the result lies 2 ^ 32 seconds, a hundred and thirty-six years, too early.
\<close>

theorem date_time_add_days_wraps:
  assumes "tm_normal (timeinfo p)" "c_int (tm_year (timeinfo p)) = Some y" "24856 \<le> n" "n \<le> 74565"
    "localtime zone (date_time_get_unix_epoch zone (Some p) + int n * 86400 - 2 ^ 32) \<noteq> None"
  shows "\<exists>q. date_time_add_days zone True (Some p) n = Some q \<and>
    date_time_get_unix_epoch zone (Some q) = date_time_get_unix_epoch zone (Some p) + int n * 86400 - 2 ^ 32"
proof -
  obtain r where r: "localtime zone (date_time_get_unix_epoch zone (Some p) + (int n * 86400 - 2 ^ 32)) = Some r"
    using assms(5) by (auto simp: algebra_simps)
  have "0 \<le> tm_sec (timeinfo p)" "tm_sec (timeinfo p) < 60" using assms(1) by (simp_all add: tm_normal_def)
  then have "to_int (tm_sec (timeinfo p) + int n * 86400) = tm_sec (timeinfo p) + (int n * 86400 - 2 ^ 32)"
    using to_int_wrapped [of "tm_sec (timeinfo p) + int n * 86400"] assms(3,4) by simp
  from date_time_add_epoch(1,3) [OF assms(1,2) this r] show ?thesis by (simp add: date_time_add_days_def algebra_simps)
qed

theorem date_time_add_days_wraps_witness:
  "\<exists>q. date_time_add_days 0 True (Some test_date) 36525 = Some q \<and>
     date_time_get_unix_epoch 0 (Some q) < date_time_get_unix_epoch 0 (Some test_date)"
proof -
  have l: "localtime 0 (date_time_get_unix_epoch 0 (Some test_date) + int 36525 * 86400 - 2 ^ 32) \<noteq> None"
  proof -
    have "localtime 0 569957504 \<noteq> None" by code_simp
    then show ?thesis unfolding test_date_normal(3) by simp
  qed
  from date_time_add_days_wraps [OF test_date_normal(1,2) _ _ l] show ?thesis by auto
qed

section \<open>Printing and reading\<close>

text \<open>A number printed with leading zeros, and read again.\<close>

lemma nat_digits_length: "0 < k \<Longrightarrow> n < 10 ^ k \<Longrightarrow> length (nat_digits n) \<le> k"
  by (rule length_nat_digits)

lemma dec_digit_nat_digits: "c \<in> set (nat_digits n) \<Longrightarrow> dec_digit c"
proof -
  assume "c \<in> set (nat_digits n)"
  then obtain k where k: "k < 10" "c = of_nat (48 + k)" using nat_digits_range by blast
  then have "unat c = 48 + k" using digit_byte [OF k(1)] by simp
  then show ?thesis using k(1) unfolding dec_digit_def word_le_nat_alt by simp
qed

lemma foldl_zeros: "foldl (\<lambda>v d. 10 * v + (uint (d :: byte) - 48)) 0 (replicate k 48 @ ds) = foldl (\<lambda>v d. 10 * v + (uint d - 48)) 0 ds"
  by (induction k) simp_all

lemma foldl_nat_digits: "foldl (\<lambda>v d. 10 * v + (uint (d :: byte) - 48)) 0 (nat_digits n) = int n"
proof (induction n rule: nat_digits.induct)
  case (1 n)
  have d: "uint (of_nat (48 + k) :: byte) = 48 + int k" if "k < 10" for k
    using digit_byte [OF that] by (simp add: uint_nat)
  show ?case
  proof (cases "n < 10")
    case True
    then show ?thesis using d [OF True] by (subst nat_digits.simps) simp
  next
    case False
    then show ?thesis using "1.IH" [OF False] d [of "n mod 10"] by (subst nat_digits.simps) (simp add: zdiv_int zmod_int)
  qed
qed

lemma padded_digits_props:
  assumes "0 \<le> i" "i < 10 ^ k" "0 < k"
  shows "length (padded_digits k i) = k" "c \<in> set (padded_digits k i) \<Longrightarrow> dec_digit c" "dec_value (padded_digits k i) = i"
    "padded_digits k i \<noteq> []"
proof -
  have "nat i < 10 ^ k" using assms(1,2) by (simp add: nat_less_iff)
  then have len: "length (nat_digits (nat i)) \<le> k" by (rule nat_digits_length [OF assms(3)])
  have p: "padded_digits k i = replicate (k - length (nat_digits (nat i))) 48 @ nat_digits (nat i)"
    using assms(1) by (simp add: padded_digits_def Let_def)
  show "length (padded_digits k i) = k" using len by (simp add: p)
  show dig: "c \<in> set (padded_digits k i) \<Longrightarrow> dec_digit c" for c
    using dec_digit_nat_digits by (auto simp: p dec_digit_def)
  have all: "takeWhile dec_digit (padded_digits k i) = padded_digits k i" using dig by simp
  show "dec_value (padded_digits k i) = i"
    unfolding dec_value_def all unfolding p foldl_zeros foldl_nat_digits using assms(1) by simp
  show "padded_digits k i \<noteq> []" using nat_digits_nonempty by (simp add: p)
qed

lemma atoi_padded:
  assumes "0 \<le> i" "i < 10 ^ k" "0 < k"
  shows "atoi_text (padded_digits k i) = i"
proof -
  obtain c cs where c: "padded_digits k i = c # cs" using padded_digits_props(4) [OF assms] by (cases "padded_digits k i") auto
  have d: "dec_digit c" using padded_digits_props(2) [OF assms, of c] c by simp
  then have "\<not> is_space c" "c \<noteq> 45" "c \<noteq> 43" unfolding dec_digit_def is_space_def word_le_nat_alt by auto
  then show ?thesis using padded_digits_props(3) [OF assms] c by (simp add: atoi_text_def)
qed

lemma extract_field:
  assumes "c_string b = Some (pre @ padded_digits k i @ post)" "0 \<le> i" "i < 10 ^ k" "0 < k" "k < 5"
  shows "extract_int_from_string (Some b) (length pre) k = Some i"
proof -
  note p = padded_digits_props [OF assms(2-4)]
  obtain r where b: "b = (pre @ padded_digits k i @ post) @ 0 # r" using assms(1) by (rule c_stringE)
  have nz: "0 \<notin> set (padded_digits k i)" using p(2) [of 0] by (auto simp: dec_digit_def)
  have "str_ncpy (replicate 5 0) (drop (length pre) b) k = Some (padded_digits k i @ drop k (replicate 5 0))"
    using b p(1) nz assms(5) by (simp add: str_ncpy_def)
  moreover have "drop k (replicate 5 0) = (0 :: byte) # replicate (4 - k) 0"
    using assms(5) by (simp add: Suc_diff_Suc [symmetric] flip: replicate_Suc)
  ultimately show ?thesis
    using assms(1) p(1) c_string_exact [OF nz] atoi_padded [OF assms(2-4)] by (simp add: extract_int_from_string_def str_len_def)
qed

text \<open>A date whose fields are printed with 4, 2, 2, 2, 2 and 2 digits.\<close>

definition printable :: "tm \<Rightarrow> bool" where
  "printable t =
     (0 \<le> tm_year t + 1900 \<and> tm_year t + 1900 < 10 ^ 4 \<and> 0 \<le> tm_mon t + 1 \<and> tm_mon t + 1 < 10 ^ 2 \<and> 0 \<le> tm_mday t \<and> tm_mday t < 10 ^ 2 \<and>
      0 \<le> tm_hour t \<and> tm_hour t < 10 ^ 2 \<and> 0 \<le> tm_min t \<and> tm_min t < 10 ^ 2 \<and> 0 \<le> tm_sec t \<and> tm_sec t < 10 ^ 2)"

definition stamp :: "tm \<Rightarrow> byte list" where
  "stamp t = padded_digits 4 (tm_year t + 1900) @ padded_digits 2 (tm_mon t + 1) @ padded_digits 2 (tm_mday t) @
     padded_digits 2 (tm_hour t) @ padded_digits 2 (tm_min t) @ padded_digits 2 (tm_sec t)"

lemma stamp_props:
  assumes "printable t"
  shows "date_time_stamp t = Some (stamp t)" "length (stamp t) = 14" "0 \<notin> set (stamp t)"
proof -
  note f = assms [unfolded printable_def]
  show "date_time_stamp t = Some (stamp t)" using f by (simp add: date_time_stamp_def c_int_def stamp_def)
  show "length (stamp t) = 14" using f by (simp add: stamp_def padded_digits_props)
  have "dec_digit c" if "c \<in> set (stamp t)" for c
    using that f padded_digits_props(2) [of _ 4 c] padded_digits_props(2) [of _ 2 c] by (auto simp: stamp_def)
  moreover have "\<not> dec_digit 0" by (simp add: dec_digit_def)
  ultimately show "0 \<notin> set (stamp t)" by blast
qed

definition stamp_format :: "byte list" where
  "stamp_format = bytes_of ''yyyyMMddhhmmss'' @ [0]"

lemma stamp_format_fields:
  "c_string stamp_format = Some (bytes_of ''yyyyMMddhhmmss'')"
  "str_find (bytes_of ''yyyy'') (bytes_of ''yyyyMMddhhmmss'') = Some 0"
  "str_find (bytes_of ''MM'') (bytes_of ''yyyyMMddhhmmss'') = Some 4"
  "str_find (bytes_of ''dd'') (bytes_of ''yyyyMMddhhmmss'') = Some 6"
  "str_find (bytes_of ''hh'') (bytes_of ''yyyyMMddhhmmss'') = Some 8"
  "str_find (bytes_of ''mm'') (bytes_of ''yyyyMMddhhmmss'') = Some 10"
  "str_find (bytes_of ''ss'') (bytes_of ''yyyyMMddhhmmss'') = Some 12"
  by code_simp+

lemma extract_stamp:
  assumes "printable t" "c_string b = Some (stamp t)"
  shows "extract_int_from_string (Some b) 0 4 = Some (tm_year t + 1900)" "extract_int_from_string (Some b) 4 2 = Some (tm_mon t + 1)"
    "extract_int_from_string (Some b) 6 2 = Some (tm_mday t)" "extract_int_from_string (Some b) 8 2 = Some (tm_hour t)"
    "extract_int_from_string (Some b) 10 2 = Some (tm_min t)" "extract_int_from_string (Some b) 12 2 = Some (tm_sec t)"
proof -
  note f = assms(1) [unfolded printable_def]
  let ?ye = "padded_digits 4 (tm_year t + 1900)" and ?mo = "padded_digits 2 (tm_mon t + 1)" and ?md = "padded_digits 2 (tm_mday t)"
    and ?ho = "padded_digits 2 (tm_hour t)" and ?mi = "padded_digits 2 (tm_min t)" and ?se = "padded_digits 2 (tm_sec t)"
  have l: "length ?ye = 4" "length ?mo = 2" "length ?md = 2" "length ?ho = 2" "length ?mi = 2"
    using f by (simp_all add: padded_digits_props)
  note e = extract_field [of b _ _ _ _]
  show "extract_int_from_string (Some b) 0 4 = Some (tm_year t + 1900)"
    using extract_field [of b "[]" 4 "tm_year t + 1900" "?mo @ ?md @ ?ho @ ?mi @ ?se"] assms(2) f by (simp add: stamp_def)
  show "extract_int_from_string (Some b) 4 2 = Some (tm_mon t + 1)"
    using extract_field [of b ?ye 2 "tm_mon t + 1" "?md @ ?ho @ ?mi @ ?se"] assms(2) f l by (simp add: stamp_def)
  show "extract_int_from_string (Some b) 6 2 = Some (tm_mday t)"
    using extract_field [of b "?ye @ ?mo" 2 "tm_mday t" "?ho @ ?mi @ ?se"] assms(2) f l by (simp add: stamp_def)
  show "extract_int_from_string (Some b) 8 2 = Some (tm_hour t)"
    using extract_field [of b "?ye @ ?mo @ ?md" 2 "tm_hour t" "?mi @ ?se"] assms(2) f l by (simp add: stamp_def)
  show "extract_int_from_string (Some b) 10 2 = Some (tm_min t)"
    using extract_field [of b "?ye @ ?mo @ ?md @ ?ho" 2 "tm_min t" ?se] assms(2) f l by (simp add: stamp_def)
  show "extract_int_from_string (Some b) 12 2 = Some (tm_sec t)"
    using extract_field [of b "?ye @ ?mo @ ?md @ ?ho @ ?mi" 2 "tm_sec t" "[]"] assms(2) f l by (simp add: stamp_def)
qed

text \<open>
  C19: printing and reading.  What \<open>date_time_get_string\<close> prints for a date with a year of at most four digits,
  \<open>date_time_allocate_from_string\<close> reads back with the format \<open>yyyyMMddhhmmss\<close>: a date with the same year, month, day, hour,
  minute and second, whatever the current time is.
\<close>

theorem date_time_string_roundtrip:
  assumes "printable (timeinfo p)" "localtime zone now \<noteq> None"
  shows "\<exists>b q. date_time_get_string True (Some p) = Some (Some b) \<and>
    date_time_allocate_from_string zone now True (Some b) (Some stamp_format) = Some (Some q) \<and>
    tm_year (timeinfo q) = tm_year (timeinfo p) \<and> tm_mon (timeinfo q) = tm_mon (timeinfo p) \<and> tm_mday (timeinfo q) = tm_mday (timeinfo p) \<and>
    tm_hour (timeinfo q) = tm_hour (timeinfo p) \<and> tm_min (timeinfo q) = tm_min (timeinfo p) \<and> tm_sec (timeinfo q) = tm_sec (timeinfo p)"
proof -
  let ?t = "timeinfo p"
  note s = stamp_props [OF assms(1)]
  obtain tmp where tmp: "localtime zone now = Some tmp" using assms(2) by auto
  obtain b where b: "print_into 65 (stamp ?t) = Some b" "c_string b = Some (stamp ?t)"
    using print_into_string [OF s(3), of 65] s(2) by auto
  have "date_time_get_string True (Some p) = Some (Some b)" using s(1) b(1) by (simp add: date_time_get_string_def)
  moreover have "str_len b = Some 14" using b(2) s(2) by (simp add: str_len_def)
  then have "date_time_allocate_from_string zone now True (Some b) (Some stamp_format) =
      Some (Some \<lparr>timeinfo = tmp\<lparr>tm_year := tm_year ?t, tm_mon := tm_mon ?t, tm_mday := tm_mday ?t, tm_hour := tm_hour ?t,
        tm_min := tm_min ?t, tm_sec := tm_sec ?t\<rparr>\<rparr>)"
    using tmp by (simp add: date_time_allocate_from_string_def parse_field_def stamp_format_fields extract_stamp [OF assms(1) b(2)])
  ultimately show ?thesis by simp
qed

lemma test_date_printable: "printable (timeinfo test_date)"
  by code_simp

theorem date_time_string_roundtrip_witness:
  "\<exists>b q. date_time_get_string True (Some test_date) = Some (Some b) \<and>
     date_time_allocate_from_string 0 0 True (Some b) (Some stamp_format) = Some (Some q) \<and> tm_year (timeinfo q) = 124"
proof -
  have "localtime 0 0 \<noteq> None" by code_simp
  moreover have "tm_year (timeinfo test_date) = 124" by code_simp
  ultimately show ?thesis using date_time_string_roundtrip [OF test_date_printable, of 0 0] by fastforce
qed

section \<open>Formats\<close>

text \<open>The two arrays of the conversion while the format reads as \<open>s\<close>.\<close>

definition format_rep :: "byte list \<times> byte list \<Rightarrow> byte list \<Rightarrow> bool" where
  "format_rep st s = (c_string (fst st) = Some s \<and> length (fst st) = 256 \<and> length (snd st) = 256)"

lemma str_copy_text:
  assumes "c_string (drop soff src) = Some u" "soff \<le> length src" "doff + length u < length dst"
  shows "str_copy dst doff src soff = Some (take doff dst @ u @ 0 # drop (doff + length u + 1) dst)"
  using assms by (simp add: str_copy_def mem_copy_Some)

lemma str_replace_format_text:
  assumes "c_string src = Some s" "length dest = 256" "str_find pat s = Some k" "0 \<notin> set repl"
    "length s - length pat + length repl < 256"
  shows "\<exists>d. str_replace_format dest src pat repl 256 = Some d \<and> length d = 256 \<and>
    c_string d = Some (take k s @ repl @ drop (k + length pat) s)"
proof -
  obtain r where r: "src = s @ 0 # r" "0 \<notin> set s" using assms(1) by (rule c_stringE)
  have k: "k + length pat \<le> length s" using str_find_bound [OF assms(3)] .
  let ?u = "drop (k + length pat) s"
  have u: "0 \<notin> set ?u" using r(2) by (meson in_set_dropD)
  have tk: "0 \<notin> set (take k s)" using r(2) by (meson in_set_takeD)
  have sz: "k + length repl + length ?u < 256" using assms(5) k by simp
  have d1: "str_ncpy dest src k = Some (take k s @ drop k dest)"
    using k r(1) tk assms(2) sz by (simp add: str_ncpy_def)
  let ?d1 = "take k s @ drop k dest"
  have cr: "c_string (repl @ [0]) = Some repl" using c_string_exact [OF assms(4), of "[]"] .
  have "str_copy ?d1 k (repl @ [0]) 0 = Some (take k ?d1 @ repl @ 0 # drop (k + length repl + 1) ?d1)"
    by (rule str_copy_text) (use cr sz k assms(2) in simp_all)
  moreover have "take k ?d1 = take k s" using k by simp
  ultimately obtain z where d2: "str_copy ?d1 k (repl @ [0]) 0 = Some (take k s @ repl @ 0 # z)" "length (take k s @ repl @ 0 # z) = 256"
    using k sz assms(2) by simp
  have cu: "c_string (drop (k + length pat) src) = Some ?u" using k r(1) c_string_exact [OF u, of r] by simp
  have "str_copy (take k s @ repl @ 0 # z) (k + length repl) src (k + length pat) =
      Some (take (k + length repl) (take k s @ repl @ 0 # z) @ ?u @ 0 # drop (k + length repl + length ?u + 1) (take k s @ repl @ 0 # z))"
    by (rule str_copy_text [OF cu]) (use k r(1) sz d2(2) in simp_all)
  moreover have "take (k + length repl) (take k s @ repl @ 0 # z) = take k s @ repl" using k by simp
  ultimately obtain y where d3: "str_copy (take k s @ repl @ 0 # z) (k + length repl) src (k + length pat) =
      Some (take k s @ repl @ ?u @ 0 # y)" "length (take k s @ repl @ ?u @ 0 # y) = 256"
    using sz d2(2) by simp
  have "0 \<notin> set (take k s @ repl @ ?u)" using tk u assms(4) by simp
  from c_string_exact [OF this, of y] have "c_string (take k s @ repl @ ?u @ 0 # y) = Some (take k s @ repl @ ?u)" by simp
  moreover have "\<not> k + length repl + (length s - (k + length pat)) \<ge> 256" using sz by simp
  ultimately show ?thesis
    using assms(1,3) d1 d2(1) d3 by (intro exI [of _ "take k s @ repl @ ?u @ 0 # y"]) (simp add: str_replace_format_def Let_def)
qed

lemma format_step_found:
  assumes "format_rep st s" "str_find (bytes_of letters) s = Some k" "0 \<notin> set (bytes_of repl)"
    "take k s @ bytes_of repl @ drop (k + length letters) s = s'" "length s - length letters + length repl < 256"
  shows "\<exists>st'. format_step letters repl st = Some (True, st') \<and> format_rep st' s'"
proof -
  obtain T W where st: "st = (T, W)" by (cases st)
  have T: "c_string T = Some s" "length T = 256" "length W = 256" using assms(1) by (simp_all add: format_rep_def st)
  obtain d where d: "str_replace_format W T (bytes_of letters) (bytes_of repl) 256 = Some d" "length d = 256" "c_string d = Some s'"
    using str_replace_format_text [OF T(1,3) assms(2,3)] assms(4,5) by auto
  obtain r where r: "d = s' @ 0 # r" "0 \<notin> set s'" using d(3) by (rule c_stringE)
  have "str_copy T 0 d 0 = Some (take 0 T @ s' @ 0 # drop (0 + length s' + 1) T)"
    by (rule str_copy_text) (use d(2,3) r T(2) in auto)
  then have "format_step letters repl st = Some (True, (s' @ 0 # drop (length s' + 1) T, d))"
    using T(1) assms(2) d(1) by (simp add: format_step_def st)
  moreover have "c_string (s' @ 0 # drop (length s' + 1) T) = Some s'" by (rule c_string_exact [OF r(2)])
  moreover have "length s' < 256" using d(2) r(1) by simp
  ultimately show ?thesis using T(2) d(2) by (auto simp: format_rep_def)
qed

lemma format_step_none:
  assumes "format_rep st s" "str_find (bytes_of letters) s = None"
  shows "format_step letters repl st = Some (False, st)"
  using assms by (cases st) (simp add: format_rep_def format_step_def)

lemma format_rep_start:
  assumes "c_string fm = Some s" "length s < 255"
  shows "\<exists>T. str_ncpy (replicate 256 0) fm 255 = Some T \<and> format_rep (T, replicate 256 0) s"
proof -
  obtain r where r: "fm = s @ 0 # r" "0 \<notin> set s" using assms(1) by (rule c_stringE)
  have z: "0 \<in> set (take 255 fm)" "takeWhile (\<lambda>b. b \<noteq> 0) fm = s"
    using r assms(2) by (auto simp: take_Cons' ) (metis (mono_tags, lifting) takeWhile_append2 takeWhile.simps(2) append_Nil2)
  obtain k where k: "255 - length s = Suc k" using assms(2) by (cases "255 - length s") auto
  have "str_ncpy (replicate 256 0) fm 255 = Some (s @ replicate (255 - length s) 0 @ drop 255 (replicate 256 0))"
    using z by (simp add: str_ncpy_def Let_def)
  moreover have "c_string (s @ 0 # replicate k 0 @ drop 255 (replicate 256 0)) = Some s" by (rule c_string_exact [OF r(2)])
  ultimately show ?thesis using k assms(2) by (auto simp: format_rep_def)
qed

text \<open>What \<open>strftime\<close> prints for the converted format.\<close>

lemma int_digits_padded:
  assumes "1000 \<le> i" "i < 10000"
  shows "int_digits i = padded_digits 4 i"
proof -
  have n: "1000 \<le> nat i" "nat i < 10 ^ 4" using assms by simp_all
  have "nat_digits (nat i) = nat_digits (nat i div 10 div 10 div 10) @
      [of_nat (48 + nat i div 10 div 10 mod 10)] @ [of_nat (48 + nat i div 10 mod 10)] @ [of_nat (48 + nat i mod 10)]"
  proof -
    have d: "\<not> nat i < 10" "\<not> nat i div 10 < 10" "\<not> nat i div 10 div 10 < 10"
      using div_le_mono [OF n(1), of 10] div_le_mono [OF n(1), of 100] n(1) by (simp_all add: div_mult2_eq [symmetric])
    have "nat_digits (nat i) = nat_digits (nat i div 10) @ [of_nat (48 + nat i mod 10)]"
      using d(1) by (subst nat_digits.simps) simp
    moreover have "nat_digits (nat i div 10) = nat_digits (nat i div 10 div 10) @ [of_nat (48 + nat i div 10 mod 10)]"
      using d(2) by (subst nat_digits.simps) simp
    moreover have "nat_digits (nat i div 10 div 10) = nat_digits (nat i div 10 div 10 div 10) @ [of_nat (48 + nat i div 10 div 10 mod 10)]"
      using d(3) by (subst nat_digits.simps) simp
    ultimately show ?thesis by simp
  qed
  moreover have "length (nat_digits k) \<ge> 1" for k using nat_digits_nonempty [of k] by (simp add: Suc_le_eq)
  ultimately have "4 \<le> length (nat_digits (nat i))" by simp
  moreover have "length (nat_digits (nat i)) \<le> 4" by (rule length_nat_digits) (use n in simp_all)
  ultimately have "length (nat_digits (nat i)) = 4" by simp
  then show ?thesis using assms by (simp add: padded_digits_def int_digits_def)
qed

text \<open>
  Formats.  With the format \<open>yyyyMMddhhmmss\<close>, \<open>date_time_get_formatted_string\<close> prints for a date of the years 2000 to 9899
  what \<open>date_time_get_string\<close> prints, but a date of the years 1900 to 1999 is printed a hundred years too late.
\<close>

theorem date_time_formats:
  assumes "printable (timeinfo p)" "0 \<le> tm_year (timeinfo p)" "tm_year (timeinfo p) < 8000"
  shows "\<exists>b. date_time_get_formatted_string other True (Some p) (Some stamp_format) = Some (Some b) \<and>
    c_string b = Some (stamp (if tm_year (timeinfo p) < 100 then (timeinfo p)\<lparr>tm_year := tm_year (timeinfo p) + 100\<rparr> else timeinfo p))"
proof -
  define t where "t = (if tm_year (timeinfo p) < 100 then (timeinfo p)\<lparr>tm_year := tm_year (timeinfo p) + 100\<rparr> else timeinfo p)"
  have pt: "printable t" "1000 \<le> tm_year t + 1900" "tm_year t + 1900 < 10000"
    using assms by (auto simp: t_def printable_def)
  obtain T where T: "str_ncpy (replicate 256 0) stamp_format 255 = Some T" "format_rep (T, replicate 256 0) (bytes_of ''yyyyMMddhhmmss'')"
    using format_rep_start [OF stamp_format_fields(1)] by auto
  have "\<exists>st. format_step ''ss'' ''%S'' (T, replicate 256 0) = Some (True, st) \<and> format_rep st (bytes_of ''yyyyMMddhhmm%S'')"
    by (rule format_step_found [OF T(2), of _ 12]) (code_simp | simp add: bytes_of_def)+
  then obtain s1 where s1: "format_step ''ss'' ''%S'' (T, replicate 256 0) = Some (True, s1)" "format_rep s1 (bytes_of ''yyyyMMddhhmm%S'')"
    by blast
  have "\<exists>st. format_step ''mm'' ''%M'' s1 = Some (True, st) \<and> format_rep st (bytes_of ''yyyyMMddhh%M%S'')"
    by (rule format_step_found [OF s1(2), of _ 10]) (code_simp | simp add: bytes_of_def)+
  then obtain s2 where s2: "format_step ''mm'' ''%M'' s1 = Some (True, s2)" "format_rep s2 (bytes_of ''yyyyMMddhh%M%S'')" by blast
  have "\<exists>st. format_step ''hh'' ''%H'' s2 = Some (True, st) \<and> format_rep st (bytes_of ''yyyyMMdd%H%M%S'')"
    by (rule format_step_found [OF s2(2), of _ 8]) (code_simp | simp add: bytes_of_def)+
  then obtain s3 where s3: "format_step ''hh'' ''%H'' s2 = Some (True, s3)" "format_rep s3 (bytes_of ''yyyyMMdd%H%M%S'')" by blast
  have "\<exists>st. format_step ''dd'' ''%d'' s3 = Some (True, st) \<and> format_rep st (bytes_of ''yyyyMM%d%H%M%S'')"
    by (rule format_step_found [OF s3(2), of _ 6]) (code_simp | simp add: bytes_of_def)+
  then obtain s4 where s4: "format_step ''dd'' ''%d'' s3 = Some (True, s4)" "format_rep s4 (bytes_of ''yyyyMM%d%H%M%S'')" by blast
  have s5: "format_step ''MMMM'' ''%B'' s4 = Some (False, s4)" by (rule format_step_none [OF s4(2)]) code_simp
  have "\<exists>st. format_step ''MM'' ''%m'' s4 = Some (True, st) \<and> format_rep st (bytes_of ''yyyy%m%d%H%M%S'')"
    by (rule format_step_found [OF s4(2), of _ 4]) (code_simp | simp add: bytes_of_def)+
  then obtain s6 where s6: "format_step ''MM'' ''%m'' s4 = Some (True, s6)" "format_rep s6 (bytes_of ''yyyy%m%d%H%M%S'')" by blast
  have "\<exists>st. format_step ''yyyy'' ''%Y'' s6 = Some (True, st) \<and> format_rep st (bytes_of ''%Y%m%d%H%M%S'')"
    by (rule format_step_found [OF s6(2), of _ 0]) (code_simp | simp add: bytes_of_def)+
  then obtain s7 where s7: "format_step ''yyyy'' ''%Y'' s6 = Some (True, s7)" "format_rep s7 (bytes_of ''%Y%m%d%H%M%S'')" by blast
  have out: "strftime_text other (bytes_of ''%Y%m%d%H%M%S'') t = stamp t"
    using int_digits_padded [OF pt(2,3)] by (simp add: bytes_of_def stamp_def conversion_def)
  note s = stamp_props [OF pt(1)]
  have "date_time_get_formatted_string other True (Some p) (Some stamp_format) = Some (Some (stamp t @ replicate (256 - length (stamp t)) 0))"
    using T(1) s1(1) s2(1) s3(1) s4(1) s5 s6(1) s7 s(2) out
    by (simp add: date_time_get_formatted_string_def format_either_def format_rep_def Let_def t_def [symmetric] del: replicate.simps)
      (auto simp: t_def)
  moreover have "c_string (stamp t @ replicate (256 - length (stamp t)) 0) = Some (stamp t)"
    using s(2,3) c_string_pad [of "256 - length (stamp t)" "stamp t"] takeWhile_eq_all_conv [of "\<lambda>b. b \<noteq> 0" "stamp t"] by auto
  ultimately show ?thesis by (simp add: t_def)
qed

theorem date_time_formats_witness:
  "\<exists>b. date_time_get_formatted_string (\<lambda>c t. []) True (Some \<lparr>timeinfo = tm_of_seconds 915148800\<rparr>) (Some stamp_format) = Some (Some b) \<and>
     c_string b = Some (bytes_of ''20990101000000'')"
proof -
  let ?p = "\<lparr>timeinfo = tm_of_seconds 915148800\<rparr>"
  have h: "printable (timeinfo ?p)" "0 \<le> tm_year (timeinfo ?p)" "tm_year (timeinfo ?p) < 8000" by code_simp+
  have "stamp (if tm_year (timeinfo ?p) < 100 then (timeinfo ?p)\<lparr>tm_year := tm_year (timeinfo ?p) + 100\<rparr> else timeinfo ?p) =
      bytes_of ''20990101000000''" by code_simp
  with date_time_formats [OF h, of "\<lambda>c t. []"] show ?thesis by simp
qed

end
