(* ===== verification/Mqtt.thy ===== *)
theory Mqtt
  imports Frames TcpClient StringEx
begin

text \<open>
  The MQTT client of \<open>comm/src/mqtt.c\<close>, over the TCP client, the byte buffer and the strings: the packets it
  builds, the connection, the credentials, publishing with the list of publications that wait for an
  acknowledgement, the subscriptions, and one turn of its event loop.

  The linked lists of subscriptions and of pending publications have one owner and are lists, head
  first.  A callback is a number; what it is called with is logged (what a callback does to the client is
  not modelled).  The two \<open>static uint16_t packet_id\<close> are arguments that come back changed.
\<close>

section \<open>State\<close>

record mqtt_pending_pub_t =
  pp_packet_id :: "16 word"
  pp_payload :: "buffer_t option"
  pp_topic :: "byte list option"
  pp_last_sent :: int

record mqtt_subscription_t =
  sb_topic :: "string_t option"
  sb_callback :: nat
  sb_userdata :: addr

record mqtt_client_t =
  mq_client_id :: "string_t option"
  mq_username :: "string_t option"
  mq_password :: "string_t option"
  mq_tcp :: "tcp_client_t option"
  mq_keepalive :: int
  mq_connected :: bool
  mq_subscriptions :: "mqtt_subscription_t list"
  mq_next_packet_id :: "16 word"
  mq_pending :: "mqtt_pending_pub_t list"

text \<open>
  What the system answers during a call: the page sizes buffers and strings use, whether the
  allocations succeed (of a node, of a packet's structure and block, of a receive block, of a string's
  structure and block, of a pending payload, of \<open>strdup\<close> and \<open>calloc\<close>), \<open>errno\<close> after a failed call,
  and \<open>time(NULL)\<close>.
\<close>

record mqtt_env =
  qe_page :: int
  qe_str_page :: nat
  qe_malloc :: bool
  qe_buf1 :: bool
  qe_buf2 :: bool
  qe_recv :: bool
  qe_str1 :: bool
  qe_str2 :: bool
  qe_pay1 :: bool
  qe_pay2 :: bool
  qe_strdup :: bool
  qe_calloc :: bool
  qe_errno :: int
  qe_now :: int

definition mqtt_put :: "mqtt_env \<Rightarrow> byte list option \<Rightarrow> nat \<Rightarrow> buffer_t option \<Rightarrow> buffer_t option option" where
  "mqtt_put env = put_bytes (qe_page env) (qe_buf1 env) (qe_buf2 env)"

section \<open>Packets\<close>

text \<open>\<open>buffer\<close> is the rest of the array behind its first byte: four cells.\<close>

function mqtt_encode_loop :: "byte list \<Rightarrow> nat \<Rightarrow> nat \<Rightarrow> (byte list \<times> nat) option" where
  "mqtt_encode_loop buffer idx len =
     (let b = of_nat (len mod 128);
          rest = len div 128
      in case mem_write buffer idx (if rest > 0 then b OR 0x80 else b) of
           None \<Rightarrow> None
         | Some buffer' \<Rightarrow>
             if rest > 0 then mqtt_encode_loop buffer' (idx + 1) rest else Some (buffer', idx + 1))"
  by pat_completeness auto
termination by (relation "measure (\<lambda>(b, i, n). n)") (auto intro: div_less_dividend)

declare mqtt_encode_loop.simps [simp del]

definition mqtt_encode_remaining_length :: "byte list \<Rightarrow> nat \<Rightarrow> (byte list \<times> nat) option" where
  "mqtt_encode_remaining_length buffer len = mqtt_encode_loop buffer 0 len"

text \<open>The fixed header in front of what was collected, as every builder ends.\<close>

definition mqtt_seal :: "mqtt_env \<Rightarrow> byte \<Rightarrow> buffer_t option \<Rightarrow> buffer_t option option" where
  "mqtt_seal env first buf = do {
     let remaining_len = buffer_get_size buf;
     (tail, fh_len) \<leftarrow> mqtt_encode_remaining_length (replicate 4 0) remaining_len;
     packet \<leftarrow> mqtt_put env (Some (first # tail)) (fh_len + 1) (buffer_allocate_length (qe_buf1 env) (qe_buf2 env) (fh_len + 1));
     mqtt_put env (buffer_get_data buf) remaining_len packet }"

text \<open>The length of a text, cut to 16 bits, and that many of its bytes.\<close>

definition mqtt_put_text :: "mqtt_env \<Rightarrow> byte list option \<Rightarrow> nat \<Rightarrow> buffer_t option \<Rightarrow> buffer_t option option" where
  "mqtt_put_text env d len buf = do {
     let l = (of_nat len :: 16 word);
     buf \<leftarrow> mqtt_put env (Some [hi_byte l, lo_byte l]) 2 buf;
     mqtt_put env d (unat l) buf }"

definition mqtt_put_string :: "mqtt_env \<Rightarrow> string_t option \<Rightarrow> buffer_t option \<Rightarrow> buffer_t option option" where
  "mqtt_put_string env str buf = do {
     len \<leftarrow> string_get_length str;
     d \<leftarrow> string_c_str str;
     mqtt_put_text env d len buf }"

definition mqtt_has_text :: "string_t option \<Rightarrow> bool" where
  "mqtt_has_text str = (case str of None \<Rightarrow> False | Some s \<Rightarrow> st_data_size s > 0)"

definition mqtt_connect_flags :: "string_t option \<Rightarrow> string_t option \<Rightarrow> byte" where
  "mqtt_connect_flags username password =
     0x02 OR (if mqtt_has_text username then 0x80 else 0) OR (if mqtt_has_text password then 0x40 else 0)"

definition mqtt_build_connect_packet ::
  "mqtt_env \<Rightarrow> string_t option \<Rightarrow> string_t option \<Rightarrow> string_t option \<Rightarrow> int \<Rightarrow> buffer_t option option" where
  "mqtt_build_connect_packet env client_id username password keepalive =
     (if client_id = None then Some None
      else let buf = buffer_allocate_default (qe_page env) (qe_buf1 env) (qe_buf2 env)
        in if buf = None then Some None
           else do {
             let ka = (of_int keepalive :: 16 word);
             buf \<leftarrow> mqtt_put env (Some [0, 4]) 2 buf;
             buf \<leftarrow> mqtt_put env (Some (bytes_of ''MQTT'')) 4 buf;
             buf \<leftarrow> mqtt_put env (Some [4]) 1 buf;
             buf \<leftarrow> mqtt_put env (Some [mqtt_connect_flags username password]) 1 buf;
             buf \<leftarrow> mqtt_put env (Some [hi_byte ka, lo_byte ka]) 2 buf;
             buf \<leftarrow> mqtt_put_string env client_id buf;
             buf \<leftarrow> (if mqtt_has_text username then mqtt_put_string env username buf else Some buf);
             buf \<leftarrow> (if mqtt_has_text password then mqtt_put_string env password buf else Some buf);
             mqtt_seal env 0x10 buf })"

definition mqtt_build_publish_packet_qos ::
  "mqtt_env \<Rightarrow> byte list option \<Rightarrow> buffer_t option \<Rightarrow> byte \<Rightarrow> 16 word \<Rightarrow> buffer_t option option" where
  "mqtt_build_publish_packet_qos env topic payload qos packet_id =
     (case (topic, payload) of
        (Some t, Some _) \<Rightarrow> do {
          s \<leftarrow> c_string t;
          buf \<leftarrow> mqtt_put_text env topic (length s) (buffer_allocate_default (qe_page env) (qe_buf1 env) (qe_buf2 env));
          buf \<leftarrow> (if qos = 1 then mqtt_put env (Some [hi_byte packet_id, lo_byte packet_id]) 2 buf else Some buf);
          buf \<leftarrow> mqtt_put env (buffer_get_data payload) (buffer_get_size payload) buf;
          mqtt_seal env (0x30 OR push_bit 1 qos) buf }
      | _ \<Rightarrow> Some None)"

definition mqtt_build_disconnect_packet :: "mqtt_env \<Rightarrow> buffer_t option option" where
  "mqtt_build_disconnect_packet env =
     mqtt_put env (Some [0xE0, 0x00]) 2 (buffer_allocate_length (qe_buf1 env) (qe_buf2 env) 2)"

definition mqtt_build_subscribe_packet :: "mqtt_env \<Rightarrow> 16 word \<Rightarrow> byte list \<Rightarrow> buffer_t option option" where
  "mqtt_build_subscribe_packet env packet_id topic = do {
     buf \<leftarrow> mqtt_put env (Some [hi_byte packet_id, lo_byte packet_id]) 2
       (buffer_allocate_default (qe_page env) (qe_buf1 env) (qe_buf2 env));
     s \<leftarrow> c_string topic;
     buf \<leftarrow> mqtt_put_text env (Some topic) (length s) buf;
     buf \<leftarrow> mqtt_put env (Some [0x00]) 1 buf;
     mqtt_seal env 0x82 buf }"

section \<open>Subscriptions\<close>

text \<open>The new node is the head of the client's list; whether the returned pointer differs from NULL.\<close>

definition mqtt_add_subscription ::
  "mqtt_env \<Rightarrow> mqtt_client_t option \<Rightarrow> byte list option \<Rightarrow> nat option \<Rightarrow> addr \<Rightarrow> (bool \<times> mqtt_client_t option) option" where
  "mqtt_add_subscription env client topic cb userdata =
     (case (client, topic, cb) of
        (Some c, Some _, Some f) \<Rightarrow>
          if \<not> qe_malloc env then Some (False, client)
          else do {
            s \<leftarrow> string_allocate (qe_str_page env) (qe_str1 env) (qe_str2 env) topic;
            if s = None then Some (False, client)
            else Some (True, Some (c\<lparr>mq_subscriptions :=
                   \<lparr>sb_topic = s, sb_callback = f, sb_userdata = userdata\<rparr> # mq_subscriptions c\<rparr>)) }
      | _ \<Rightarrow> Some (False, client))"

text \<open>\<open>strcmp(string_c_str(topic), name) == 0\<close>.\<close>

definition mqtt_same_topic :: "string_t option \<Rightarrow> byte list \<Rightarrow> bool option" where
  "mqtt_same_topic topic name = do { p \<leftarrow> string_c_str topic; d \<leftarrow> p; str_equal d name }"

fun mqtt_remove_loop :: "mqtt_subscription_t list \<Rightarrow> byte list \<Rightarrow> mqtt_subscription_t list option" where
  "mqtt_remove_loop [] topic = Some []"
| "mqtt_remove_loop (cur # rest) topic = do {
     same \<leftarrow> mqtt_same_topic (sb_topic cur) topic;
     if same then Some rest
     else do { rest' \<leftarrow> mqtt_remove_loop rest topic; Some (cur # rest') } }"

definition mqtt_remove_subscription :: "mqtt_client_t \<Rightarrow> byte list \<Rightarrow> mqtt_client_t option" where
  "mqtt_remove_subscription client topic = do {
     subs \<leftarrow> mqtt_remove_loop (mq_subscriptions client) topic;
     Some (client\<lparr>mq_subscriptions := subs\<rparr>) }"

section \<open>Lifecycle and connection\<close>

text \<open>\<open>ok\<close> and \<open>net\<close> answer \<open>tcp_client_allocate\<close>.\<close>

definition mqtt_client_allocate :: "mqtt_env \<Rightarrow> bool \<Rightarrow> socket \<Rightarrow> byte list option \<Rightarrow> mqtt_client_t option option" where
  "mqtt_client_allocate env ok net client_id =
     (if \<not> qe_malloc env then Some None
      else do {
        cid \<leftarrow> string_allocate (qe_str_page env) (qe_str1 env) (qe_str2 env) client_id;
        let tcp = tcp_client_allocate ok net;
        if cid = None \<or> tcp = None then Some None
        else Some (Some \<lparr>mq_client_id = cid, mq_username = None, mq_password = None, mq_tcp = tcp, mq_keepalive = 60,
               mq_connected = False, mq_subscriptions = [], mq_next_packet_id = 1, mq_pending = []\<rparr>) })"

text \<open>What is left of a client that is freed: the socket its TCP client used.\<close>

definition mqtt_client_free :: "mqtt_client_t option \<Rightarrow> socket option" where
  "mqtt_client_free client = (case client of None \<Rightarrow> None | Some c \<Rightarrow> tcp_client_free (mq_tcp c))"

definition mqtt_receive :: "mqtt_env \<Rightarrow> mqtt_client_t \<Rightarrow> nat \<Rightarrow> (buffer_t option \<times> mqtt_client_t) option" where
  "mqtt_receive env c len = do {
     (b, tcp) \<leftarrow> tcp_client_receive_buffer_by_length (qe_page env) (qe_recv env) (qe_buf1 env) (qe_buf2 env) (mq_tcp c) len;
     Some (b, c\<lparr>mq_tcp := tcp\<rparr>) }"

definition mqtt_send :: "mqtt_env \<Rightarrow> mqtt_client_t \<Rightarrow> buffer_t option \<Rightarrow> (bool \<times> mqtt_client_t) option" where
  "mqtt_send env c packet = do {
     (sent, tcp) \<leftarrow> tcp_client_send_buffer (qe_errno env) (mq_tcp c) packet;
     Some (sent, c\<lparr>mq_tcp := tcp\<rparr>) }"

text \<open>The CONNECT packet and its answer, over an open connection.\<close>

definition mqtt_handshake :: "mqtt_env \<Rightarrow> mqtt_client_t \<Rightarrow> (bool \<times> mqtt_client_t) option" where
  "mqtt_handshake env c = do {
     packet \<leftarrow> mqtt_build_connect_packet env (mq_client_id c) (mq_username c) (mq_password c) (mq_keepalive c);
     if packet = None then Some (False, c)
     else do {
       (sent, c) \<leftarrow> mqtt_send env c packet;
       if \<not> sent then Some (False, c)
       else do {
         (resp, c) \<leftarrow> mqtt_receive env c 4;
         if resp = None \<or> buffer_get_size resp < 4 then Some (False, c)
         else do {
           data \<leftarrow> buffer_get_data resp;
           b0 \<leftarrow> mem_read data 0;
           b1 \<leftarrow> mem_read data 1;
           b3 \<leftarrow> mem_read data 3;
           let success = (b0 = 0x20 \<and> b1 = 0x02 \<and> b3 = 0x00);
           Some (success, c\<lparr>mq_connected := success\<rparr>) } } } }"

text \<open>
  \<open>resolves\<close> and \<open>new\<close> answer the creation of the socket, \<open>rc\<close> the call of \<open>connect\<close>.
\<close>

definition mqtt_client_connect ::
  "mqtt_env \<Rightarrow> (byte list \<Rightarrow> bool) \<Rightarrow> socket option \<Rightarrow> int \<Rightarrow> mqtt_client_t option \<Rightarrow> byte list \<Rightarrow> int \<Rightarrow> bool \<Rightarrow> int \<Rightarrow>
   (bool \<times> mqtt_client_t option) option" where
  "mqtt_client_connect env resolves new rc client host port use_tls keepalive_seconds =
     (case client of
        None \<Rightarrow> Some (False, None)
      | Some c0 \<Rightarrow>
        let c = c0\<lparr>mq_keepalive := keepalive_seconds\<rparr> in do {
          (created, tcp) \<leftarrow> tcp_client_create_socket resolves new (mq_tcp c) host port;
          if \<not> created then Some (False, Some (c\<lparr>mq_tcp := tcp\<rparr>))
          else (case tcp_client_connect_socket rc (qe_errno env) tcp of
                  (joined, tcp) \<Rightarrow>
                    if \<not> joined then Some (False, Some (c\<lparr>mq_tcp := tcp\<rparr>))
                    else if use_tls \<and> \<not> tcp_client_switch_to_tls tcp then Some (False, Some (c\<lparr>mq_tcp := tcp\<rparr>))
                    else do {
                      (success, c) \<leftarrow> mqtt_handshake env (c\<lparr>mq_tcp := tcp\<rparr>);
                      Some (success, Some c) }) })"

definition mqtt_client_disconnect :: "mqtt_env \<Rightarrow> mqtt_client_t option \<Rightarrow> (bool \<times> mqtt_client_t option) option" where
  "mqtt_client_disconnect env client =
     (case client of
        None \<Rightarrow> Some (False, None)
      | Some c \<Rightarrow>
        if \<not> mq_connected c then Some (False, client)
        else do {
          packet \<leftarrow> mqtt_build_disconnect_packet env;
          (_, c) \<leftarrow> (if packet \<noteq> None then mqtt_send env c packet else Some (False, c));
          Some (True, Some (c\<lparr>mq_tcp := snd (tcp_client_close_socket (mq_tcp c)), mq_connected := False\<rparr>)) })"

definition mqtt_client_is_connected :: "mqtt_client_t option \<Rightarrow> bool" where
  "mqtt_client_is_connected client =
     (case client of None \<Rightarrow> False | Some c \<Rightarrow> mq_connected c \<and> tcp_client_is_connected (mq_tcp c))"

text \<open>
  The text a setter accepts: a string that is not empty, allocated anew.  \<open>Some None\<close> when there is none.
\<close>

definition mqtt_new_text :: "mqtt_env \<Rightarrow> byte list option \<Rightarrow> string_t option option" where
  "mqtt_new_text env text =
     (case text of
        None \<Rightarrow> Some None
      | Some t \<Rightarrow> do {
          b \<leftarrow> mem_read t 0;
          if b = 0 then Some None else string_allocate (qe_str_page env) (qe_str1 env) (qe_str2 env) text })"

definition mqtt_client_set_client_id ::
  "mqtt_env \<Rightarrow> mqtt_client_t option \<Rightarrow> byte list option \<Rightarrow> (bool \<times> mqtt_client_t option) option" where
  "mqtt_client_set_client_id env client client_id =
     (case client of
        None \<Rightarrow> Some (False, None)
      | Some c \<Rightarrow> do {
          next_id \<leftarrow> mqtt_new_text env client_id;
          if next_id = None then Some (False, client) else Some (True, Some (c\<lparr>mq_client_id := next_id\<rparr>)) })"

definition mqtt_client_set_username ::
  "mqtt_env \<Rightarrow> mqtt_client_t option \<Rightarrow> byte list option \<Rightarrow> (bool \<times> mqtt_client_t option) option" where
  "mqtt_client_set_username env client username =
     (case client of
        None \<Rightarrow> Some (False, None)
      | Some c \<Rightarrow> do {
          next_user \<leftarrow> mqtt_new_text env username;
          if next_user = None then Some (False, client) else Some (True, Some (c\<lparr>mq_username := next_user\<rparr>)) })"

definition mqtt_client_set_password ::
  "mqtt_env \<Rightarrow> mqtt_client_t option \<Rightarrow> byte list option \<Rightarrow> (bool \<times> mqtt_client_t option) option" where
  "mqtt_client_set_password env client password =
     (case client of
        None \<Rightarrow> Some (False, None)
      | Some c \<Rightarrow> do {
          next_password \<leftarrow> mqtt_new_text env password;
          if next_password = None then Some (False, client) else Some (True, Some (c\<lparr>mq_password := next_password\<rparr>)) })"

definition mqtt_client_clear_credentials :: "mqtt_client_t option \<Rightarrow> mqtt_client_t option" where
  "mqtt_client_clear_credentials client =
     (case client of None \<Rightarrow> None | Some c \<Rightarrow> Some (c\<lparr>mq_username := None, mq_password := None\<rparr>))"

section \<open>Publishing and subscribing\<close>

text \<open>The record of a publication that waits for its acknowledgement; \<open>None\<close> inside when memory is missing.\<close>

definition mqtt_make_pending ::
  "mqtt_env \<Rightarrow> 16 word \<Rightarrow> byte list \<Rightarrow> buffer_t option \<Rightarrow> mqtt_pending_pub_t option option" where
  "mqtt_make_pending env pid topic payload =
     (if \<not> qe_malloc env then Some None
      else let payload_size = buffer_get_size payload;
               copy = buffer_allocate_length (qe_pay1 env) (qe_pay2 env) payload_size
        in if copy = None then Some None
           else do {
             copy \<leftarrow> put_bytes (qe_page env) (qe_pay1 env) (qe_pay2 env) (buffer_get_data payload) payload_size copy;
             s \<leftarrow> c_string topic;
             if \<not> qe_strdup env then Some None
             else Some (Some \<lparr>pp_packet_id = pid, pp_payload = copy, pp_topic = Some (s @ [0]), pp_last_sent = qe_now env\<rparr>) })"

text \<open>The packet identifier of the next publication with QoS 1, and the client that has used it.\<close>

definition mqtt_take_id :: "mqtt_client_t \<Rightarrow> 16 word \<times> mqtt_client_t" where
  "mqtt_take_id c =
     (let next = mq_next_packet_id c + 1
      in (mq_next_packet_id c, c\<lparr>mq_next_packet_id := (if next = 0 then 1 else next)\<rparr>))"

definition mqtt_client_publish ::
  "mqtt_env \<Rightarrow> mqtt_client_t option \<Rightarrow> byte list option \<Rightarrow> buffer_t option \<Rightarrow> byte \<Rightarrow> bool \<Rightarrow> (bool \<times> mqtt_client_t option) option" where
  "mqtt_client_publish env client topic payload qos retain =
     (case (client, topic, payload) of
        (Some c, Some t, Some _) \<Rightarrow>
          if \<not> mq_connected c then Some (False, client)
          else let (pid, c) = (if qos = 1 then mqtt_take_id c else (0, c)) in do {
            packet \<leftarrow> mqtt_build_publish_packet_qos env topic payload qos pid;
            if packet = None then Some (False, Some c)
            else do {
              (sent, c) \<leftarrow> mqtt_send env c packet;
              if \<not> sent then Some (False, Some c)
              else if qos = 1
              then do {
                pub \<leftarrow> mqtt_make_pending env pid t payload;
                case pub of
                  None \<Rightarrow> Some (False, Some c)
                | Some p \<Rightarrow> Some (True, Some (c\<lparr>mq_pending := p # mq_pending c\<rparr>)) }
              else Some (True, Some c) } }
      | _ \<Rightarrow> Some (False, client))"

definition mqtt_client_subscribe ::
  "mqtt_env \<Rightarrow> 16 word \<Rightarrow> mqtt_client_t option \<Rightarrow> byte list option \<Rightarrow> nat option \<Rightarrow> addr \<Rightarrow>
   (bool \<times> 16 word \<times> mqtt_client_t option) option" where
  "mqtt_client_subscribe env packet_id client topic callback userdata =
     (case (client, topic, callback) of
        (Some c, Some t, Some _) \<Rightarrow>
          if \<not> mq_connected c then Some (False, packet_id, client)
          else do {
            (added, client') \<leftarrow> mqtt_add_subscription env client topic callback userdata;
            if \<not> added then Some (False, packet_id, client')
            else do {
              c \<leftarrow> client';
              packet \<leftarrow> mqtt_build_subscribe_packet env packet_id t;
              if packet = None then Some (False, packet_id + 1, Some c)
              else do {
                (sent, c) \<leftarrow> mqtt_send env c packet;
                Some (sent, packet_id + 1, Some c) } } }
      | _ \<Rightarrow> Some (False, packet_id, client))"

definition mqtt_client_unsubscribe ::
  "mqtt_env \<Rightarrow> 16 word \<Rightarrow> mqtt_client_t option \<Rightarrow> byte list option \<Rightarrow> (bool \<times> 16 word \<times> mqtt_client_t option) option" where
  "mqtt_client_unsubscribe env packet_id client topic =
     (case (client, topic) of
        (Some c, Some t) \<Rightarrow>
          if \<not> mq_connected c then Some (False, packet_id, client)
          else do {
            c \<leftarrow> mqtt_remove_subscription c t;
            let buf = buffer_allocate_default (qe_page env) (qe_buf1 env) (qe_buf2 env);
            if buf = None then Some (False, packet_id, Some c)
            else do {
              buf \<leftarrow> mqtt_put env (Some [hi_byte packet_id, lo_byte packet_id]) 2 buf;
              s \<leftarrow> c_string t;
              buf \<leftarrow> mqtt_put_text env topic (length s) buf;
              packet \<leftarrow> mqtt_seal env 0xA2 buf;
              (sent, c) \<leftarrow> mqtt_send env c packet;
              Some (sent, packet_id + 1, Some c) } }
      | _ \<Rightarrow> Some (False, packet_id, client))"

section \<open>The event loop\<close>

text \<open>
  A turn of the loop keeps a pointer, \<open>data\<close>, into the block of the buffer that it receives first.  What the pointer
  refers to is the contents of the block until \<open>buffer_free\<close> releases it, and nothing from then on: a
  read through it, or a second release, is undefined.  (A block that is allocated later is another
  one, also where the allocator reuses the address.)
\<close>

datatype mqtt_block = Held "byte list" | Released

fun block_read :: "mqtt_block \<Rightarrow> nat \<Rightarrow> byte option" where
  "block_read (Held d) i = mem_read d i"
| "block_read Released i = None"

fun block_free :: "mqtt_block \<Rightarrow> mqtt_block option" where
  "block_free (Held d) = Some Released"
| "block_free Released = None"

text \<open>
  The remaining length in the bytes received so far.  The multiplication cannot overflow with the two bytes
  the loop receives.
\<close>

function mqtt_decode_loop :: "mqtt_block \<Rightarrow> nat \<Rightarrow> nat \<Rightarrow> nat \<Rightarrow> nat \<Rightarrow> nat option" where
  "mqtt_decode_loop data n idx multiplier remaining_len =
     (case block_read data idx of
        None \<Rightarrow> None
      | Some encodedByte \<Rightarrow>
        let remaining = remaining_len + unat (encodedByte AND 127) * multiplier
        in if encodedByte AND 128 \<noteq> 0 \<and> idx + 1 < n
           then mqtt_decode_loop data n (idx + 1) (multiplier * 128) remaining
           else Some remaining)"
  by pat_completeness auto
termination by (relation "measure (\<lambda>(d, s, i, m, r). s - i)") auto

declare mqtt_decode_loop.simps [simp del]

text \<open>
  What a callback is called with: its number, the subscription's topic, the message and the user data.  The
  message of a subscription whose buffer cannot be allocated is dropped.
\<close>

type_synonym mqtt_delivery = "nat \<times> string_t option \<times> buffer_t option \<times> addr"

fun mqtt_deliver ::
  "mqtt_env \<Rightarrow> byte list \<Rightarrow> byte list \<Rightarrow> nat \<Rightarrow> mqtt_subscription_t list \<Rightarrow> mqtt_delivery list option" where
  "mqtt_deliver env topic_name message message_len [] = Some []"
| "mqtt_deliver env topic_name message message_len (sub # rest) = do {
     same \<leftarrow> mqtt_same_topic (sb_topic sub) topic_name;
     now \<leftarrow> (let msg_buf = buffer_allocate_length (qe_buf1 env) (qe_buf2 env) message_len
             in if same \<and> msg_buf \<noteq> None
                then do {
                  msg_buf \<leftarrow> mqtt_put env (Some message) message_len msg_buf;
                  Some [(sb_callback sub, sb_topic sub, msg_buf, sb_userdata sub)] }
                else Some []);
     later \<leftarrow> mqtt_deliver env topic_name message message_len rest;
     Some (now @ later) }"

text \<open>
  What follows the fixed header of a PUBLISH packet, of the announced length: its bytes, the length of the topic and the
  topic as a C string; \<open>None\<close> when the loop returns because the packet is incomplete or broken.
\<close>

definition mqtt_take_payload ::
  "mqtt_env \<Rightarrow> nat \<Rightarrow> mqtt_client_t \<Rightarrow> ((byte list \<times> nat \<times> byte list) option \<times> mqtt_client_t) option" where
  "mqtt_take_payload env remaining_len c = do {
     (payload_buf, c) \<leftarrow> mqtt_receive env c remaining_len;
     if payload_buf = None \<or> remaining_len < 2 then Some (None, c)
     else do {
       p_data \<leftarrow> buffer_get_data payload_buf;
       h \<leftarrow> mem_read p_data 0;
       l \<leftarrow> mem_read p_data 1;
       let topic_len = unat (join_bytes h l);
       if topic_len + 2 > remaining_len \<or> \<not> qe_calloc env then Some (None, c)
       else do {
         name \<leftarrow> mem_copy (replicate (topic_len + 1) 0) 0 p_data 2 topic_len;
         topic_name \<leftarrow> mem_write name topic_len 0;
         Some (Some (p_data, topic_len, topic_name), c) } } }"

text \<open>
  The acknowledgement and the delivery, once the flags of the packet are known.  The last component says that the loop returned
  from here, which skips the retries.  The code's last test of \<open>payload_offset\<close> repeats the earlier ones and cannot succeed.
\<close>

definition mqtt_dispatch ::
  "mqtt_env \<Rightarrow> byte \<Rightarrow> byte list \<Rightarrow> nat \<Rightarrow> byte list \<Rightarrow> nat \<Rightarrow> mqtt_client_t \<Rightarrow> (mqtt_delivery list \<times> mqtt_client_t \<times> bool) option" where
  "mqtt_dispatch env flags p_data topic_len topic_name remaining_len c =
     (if drop_bit 1 (flags AND 0x06) = 1
      then if 2 + topic_len + 2 > remaining_len then Some ([], c, True)
        else do {
          id1 \<leftarrow> mem_read p_data (2 + topic_len);
          id2 \<leftarrow> mem_read p_data (2 + topic_len + 1);
          ack_buf \<leftarrow> mqtt_put env (Some [0x40, 0x02, id1, id2]) 4 (buffer_allocate_length (qe_buf1 env) (qe_buf2 env) 4);
          (_, c) \<leftarrow> mqtt_send env c ack_buf;
          log \<leftarrow> mqtt_deliver env topic_name (drop (2 + topic_len + 2) p_data) (remaining_len - (2 + topic_len + 2)) (mq_subscriptions c);
          Some (log, c, False) }
      else do {
        log \<leftarrow> mqtt_deliver env topic_name (drop (2 + topic_len) p_data) (remaining_len - (2 + topic_len)) (mq_subscriptions c);
        Some (log, c, False) })"

text \<open>A PUBLISH packet; \<open>data\<close> is what the pointer to its first byte refers to by now.\<close>

definition mqtt_on_publish ::
  "mqtt_env \<Rightarrow> mqtt_block \<Rightarrow> nat \<Rightarrow> mqtt_client_t \<Rightarrow> (mqtt_delivery list \<times> mqtt_client_t \<times> bool) option" where
  "mqtt_on_publish env data remaining_len c = do {
     (payload, c) \<leftarrow> mqtt_take_payload env remaining_len c;
     case payload of
       None \<Rightarrow> Some ([], c, True)
     | Some (p_data, topic_len, topic_name) \<Rightarrow> do {
         flags \<leftarrow> block_read data 0;
         mqtt_dispatch env flags p_data topic_len topic_name remaining_len c } }"

fun mqtt_acknowledge :: "16 word \<Rightarrow> mqtt_pending_pub_t list \<Rightarrow> mqtt_pending_pub_t list" where
  "mqtt_acknowledge ack_id [] = []"
| "mqtt_acknowledge ack_id (cur # rest) =
     (if pp_packet_id cur = ack_id then rest else cur # mqtt_acknowledge ack_id rest)"

definition mqtt_on_packet ::
  "mqtt_env \<Rightarrow> buffer_t option \<Rightarrow> mqtt_client_t \<Rightarrow> (mqtt_delivery list \<times> mqtt_client_t \<times> bool) option" where
  "mqtt_on_packet env incoming c = do {
     contents \<leftarrow> buffer_get_data incoming;
     let data = Held contents;
     b0 \<leftarrow> block_read data 0;
     if drop_bit 4 b0 = 3
     then do {
       remaining_len \<leftarrow> mqtt_decode_loop data (buffer_get_size incoming) 1 1 0;
       data \<leftarrow> block_free data;
       mqtt_on_publish env data remaining_len c }
     else if drop_bit 4 b0 = 4
     then if buffer_get_size incoming < 4 then do { _ \<leftarrow> block_free data; Some ([], c, True) }
       else do {
         h \<leftarrow> block_read data 2;
         l \<leftarrow> block_read data 3;
         _ \<leftarrow> block_free data;
         Some ([], c\<lparr>mq_pending := mqtt_acknowledge (join_bytes h l) (mq_pending c)\<rparr>, False) }
     else do { _ \<leftarrow> block_free data; Some ([], c, False) } }"

text \<open>Publications whose last sending is at least five seconds ago are sent again.\<close>

fun mqtt_retry ::
  "mqtt_env \<Rightarrow> mqtt_client_t \<Rightarrow> mqtt_pending_pub_t list \<Rightarrow> (mqtt_pending_pub_t list \<times> mqtt_client_t) option" where
  "mqtt_retry env c [] = Some ([], c)"
| "mqtt_retry env c (cur # rest) = do {
     (cur, c) \<leftarrow> (if qe_now env - pp_last_sent cur \<ge> 5
       then do {
         packet \<leftarrow> mqtt_build_publish_packet_qos env (pp_topic cur) (pp_payload cur) 1 (pp_packet_id cur);
         if packet = None then Some (cur, c)
         else do {
           (_, c) \<leftarrow> mqtt_send env c packet;
           Some (cur\<lparr>pp_last_sent := qe_now env\<rparr>, c) } }
       else Some (cur, c));
     (rest, c) \<leftarrow> mqtt_retry env c rest;
     Some (cur # rest, c) }"

definition mqtt_client_loop ::
  "mqtt_env \<Rightarrow> mqtt_client_t option \<Rightarrow> int \<Rightarrow> (mqtt_delivery list \<times> mqtt_client_t option) option" where
  "mqtt_client_loop env client timeout_ms =
     (case client of
        None \<Rightarrow> Some ([], None)
      | Some c \<Rightarrow>
        if \<not> mq_connected c then Some ([], client)
        else do {
          (incoming, c) \<leftarrow> mqtt_receive env c 2;
          (log, c, returned) \<leftarrow> (if incoming \<noteq> None \<and> buffer_get_size incoming \<ge> 2 then mqtt_on_packet env incoming c
            else Some ([], c, False));
          if returned then Some (log, Some c)
          else do {
            (pending, c) \<leftarrow> mqtt_retry env c (mq_pending c);
            Some (log, Some (c\<lparr>mq_pending := pending\<rparr>)) } })"

section \<open>The remaining length\<close>

text \<open>The variable-length numbers of the protocol: seven bits a byte, the low ones first.\<close>

function remaining_bytes :: "nat \<Rightarrow> byte list" where
  "remaining_bytes n =
     (if n < 128 then [of_nat n] else (of_nat (n mod 128) OR 0x80) # remaining_bytes (n div 128))"
  by pat_completeness auto
termination by (relation "measure id") auto

declare remaining_bytes.simps [simp del]

lemma remaining_bytes_small: "n < 128 \<Longrightarrow> remaining_bytes n = [of_nat n]"
  by (simp add: remaining_bytes.simps)

lemma remaining_bytes_large: "128 \<le> n \<Longrightarrow> remaining_bytes n = (of_nat (n mod 128) OR 0x80) # remaining_bytes (n div 128)"
  by (simp add: remaining_bytes.simps [of n])

lemma remaining_bytes_nonempty: "1 \<le> length (remaining_bytes n)"
  by (cases "n < 128") (simp_all add: remaining_bytes_small remaining_bytes_large)

lemma remaining_bytes_length: "length (remaining_bytes n) \<le> Suc k \<longleftrightarrow> n < 128 ^ Suc k"
proof (induction k arbitrary: n)
  case 0
  have "remaining_bytes (n div 128) \<noteq> []" using remaining_bytes_nonempty [of "n div 128"] by auto
  then show ?case by (cases "n < 128") (simp_all add: remaining_bytes_small remaining_bytes_large)
next
  case (Suc k)
  show ?case
  proof (cases "n < 128")
    case True
    then have "n < 128 ^ Suc (Suc k)" by (rule less_le_trans) simp
    with True show ?thesis by (simp add: remaining_bytes_small)
  next
    case False
    then show ?thesis using Suc.IH [of "n div 128"]
      by (simp add: remaining_bytes_large div_less_iff_less_mult mult.commute)
  qed
qed

lemma low_seven: "unat (x AND 127) = unat x mod 128" for x :: byte
proof -
  have m: "(127 :: byte) = mask 7" by (simp add: mask_eq_exp_minus_1)
  show ?thesis unfolding m by (simp add: unsigned_take_bit_eq flip: take_bit_eq_mask) (simp add: take_bit_eq_mod)
qed

lemma length_byte:
  assumes "k < 128"
  shows "unat ((of_nat k :: byte) AND 127) = k" "(of_nat k :: byte) AND 128 = 0"
    "unat (((of_nat k :: byte) OR 0x80) AND 127) = k" "((of_nat k :: byte) OR 0x80) AND 128 \<noteq> 0"
proof -
  have u: "unat (of_nat k :: byte) = k" using assms by (simp add: unat_of_nat)
  show one: "unat ((of_nat k :: byte) AND 127) = k" using assms u by (simp add: low_seven)
  show "(of_nat k :: byte) AND 128 = 0"
  proof -
    have "\<not> bit (of_nat k :: byte) 7"
      using assms u bit_unsigned_iff [of "of_nat k :: byte" 7, where ?'a = nat] by (simp add: bit_iff_odd)
    then show ?thesis using and_exp_eq_0_iff_not_bit [of "of_nat k :: byte" 7] by simp
  qed
  have "((of_nat k :: byte) OR 0x80) AND 127 = of_nat k AND 127" by (simp add: bit.conj_disj_distrib2)
  then show "unat (((of_nat k :: byte) OR 0x80) AND 127) = k" using one by simp
  show "((of_nat k :: byte) OR 0x80) AND 128 \<noteq> 0" by (simp add: bit.conj_disj_distrib2 or_eq_0_iff)
qed

lemma encode_loop:
  assumes "idx + length (remaining_bytes n) \<le> length buf"
  shows "mqtt_encode_loop buf idx n =
     Some (take idx buf @ remaining_bytes n @ drop (idx + length (remaining_bytes n)) buf, idx + length (remaining_bytes n))"
  using assms
proof (induction buf idx n rule: mqtt_encode_loop.induct)
  case (1 buf idx n)
  have i: "idx < length buf" using "1.prems" remaining_bytes_nonempty [of n] by simp
  show ?case
  proof (cases "n < 128")
    case True
    then show ?thesis using i
      by (subst mqtt_encode_loop.simps) (simp add: remaining_bytes_small upd_conv_take_nth_drop)
  next
    case False
    let ?b = "of_nat (n mod 128) OR 0x80 :: byte"
    have r: "remaining_bytes n = ?b # remaining_bytes (n div 128)" using False by (simp add: remaining_bytes_large)
    have "mqtt_encode_loop (buf[idx := ?b]) (idx + 1) (n div 128) =
       Some (take (idx + 1) (buf[idx := ?b]) @ remaining_bytes (n div 128) @ drop (idx + 1 + length (remaining_bytes (n div 128))) (buf[idx := ?b]),
         idx + 1 + length (remaining_bytes (n div 128)))"
      using "1.IH" [of "of_nat (n mod 128)" "n div 128" "buf[idx := ?b]"] "1.prems" i False r by simp
    moreover have "take (idx + 1) (buf[idx := ?b]) = take idx buf @ [?b]"
      using i by (simp add: take_Suc_conv_app_nth)
    ultimately show ?thesis using i False r
      by (subst mqtt_encode_loop.simps) (simp add: Let_def div_greater_zero_iff)
  qed
qed

lemma encode_loop_overflow:
  assumes "length buf < idx + length (remaining_bytes n)" "idx \<le> length buf"
  shows "mqtt_encode_loop buf idx n = None"
  using assms
proof (induction buf idx n rule: mqtt_encode_loop.induct)
  case (1 buf idx n)
  show ?case
  proof (cases "idx < length buf")
    case True
    then have big: "128 \<le> n" using "1.prems" by (cases "n < 128") (simp_all add: remaining_bytes_small)
    let ?b = "of_nat (n mod 128) OR 0x80 :: byte"
    have "mqtt_encode_loop (buf[idx := ?b]) (idx + 1) (n div 128) = None"
      using "1.IH" [of "of_nat (n mod 128)" "n div 128" "buf[idx := ?b]"] "1.prems" True big
      by (simp add: remaining_bytes_large)
    then show ?thesis using True big by (subst mqtt_encode_loop.simps) (simp add: Let_def)
  qed (subst mqtt_encode_loop.simps, simp add: Let_def mem_write_def)
qed

lemma encode_length:
  assumes "n < 2 ^ 28"
  shows "mqtt_encode_remaining_length (replicate 4 0) n =
      Some (remaining_bytes n @ replicate (4 - length (remaining_bytes n)) 0, length (remaining_bytes n))"
    "length (remaining_bytes n) \<le> 4"
proof -
  show l: "length (remaining_bytes n) \<le> 4" using remaining_bytes_length [of n 3] assms by simp
  show "mqtt_encode_remaining_length (replicate 4 0) n =
      Some (remaining_bytes n @ replicate (4 - length (remaining_bytes n)) 0, length (remaining_bytes n))"
    using l by (simp add: mqtt_encode_remaining_length_def encode_loop)
qed

lemma decode_loop:
  assumes "data = Held (pre @ remaining_bytes n @ ys)" "idx = length pre" "idx + length (remaining_bytes n) \<le> size_of"
  shows "mqtt_decode_loop data size_of idx m r = Some (r + n * m)"
  using assms
proof (induction data size_of idx m r arbitrary: pre n rule: mqtt_decode_loop.induct)
  case (1 data size_of idx m r)
  show ?case
  proof (cases "n < 128")
    case True
    then show ?thesis using "1.prems" length_byte [OF True]
      by (subst mqtt_decode_loop.simps) (simp add: remaining_bytes_small)
  next
    case False
    let ?b = "of_nat (n mod 128) OR 0x80 :: byte"
    note f = length_byte [of "n mod 128"]
    have d: "data = Held (pre @ ?b # remaining_bytes (n div 128) @ ys)" using False "1.prems" by (simp add: remaining_bytes_large)
    have rd: "block_read data idx = Some ?b" using d "1.prems"(2) by simp
    have more: "idx + 1 < size_of" using "1.prems"(3) False remaining_bytes_nonempty [of "n div 128"]
      by (simp add: remaining_bytes_large)
    have "mqtt_decode_loop data size_of (idx + 1) (m * 128) (r + n mod 128 * m) = Some (r + n mod 128 * m + n div 128 * (m * 128))"
      using "1.IH" [OF rd refl, of "pre @ [?b]" "n div 128"] f more d "1.prems" False by (simp add: remaining_bytes_large)
    also have "r + n mod 128 * m + n div 128 * (m * 128) = r + (n div 128 * 128 + n mod 128) * m"
      by (simp only: algebra_simps)
    finally show ?thesis using f more rd unfolding div_mult_mod_eq by (subst mqtt_decode_loop.simps) simp
  qed
qed

text \<open>
  The remaining length of a packet.  Below 2^28, the limit of the protocol, it is written into the four
  cells behind the first byte, and the loop that reads it from a received packet gives it back; from 2^28
  on the encoder writes behind its array.
\<close>

theorem mqtt_remaining_length_roundtrip:
  "if n < 2 ^ 28
   then \<exists>tail k. mqtt_encode_remaining_length (replicate 4 0) n = Some (tail, k) \<and> k \<le> 4 \<and>
     mqtt_decode_loop (Held (first # take k tail @ rest)) (1 + k) 1 1 0 = Some n
   else mqtt_encode_remaining_length (replicate 4 0) n = None"
proof (cases "n < 2 ^ 28")
  case True
  note e = encode_length [OF True]
  have "mqtt_decode_loop (Held (first # remaining_bytes n @ rest)) (1 + length (remaining_bytes n)) 1 1 0 = Some (0 + n * 1)"
    by (rule decode_loop [where pre = "[first]" and ys = rest]) simp_all
  with True e show ?thesis by simp
next
  case False
  then have "4 < length (remaining_bytes n)" using remaining_bytes_length [of n 3] by simp
  then have "mqtt_encode_remaining_length (replicate 4 0) n = None"
    unfolding mqtt_encode_remaining_length_def by (intro encode_loop_overflow) simp_all
  with False show ?thesis by simp
qed

section \<open>The packets\<close>

text \<open>Memory is available, and the page sizes are those of a real system.\<close>

definition mqtt_env_ok :: "mqtt_env \<Rightarrow> bool" where
  "mqtt_env_ok env =
     (qe_malloc env \<and> qe_buf1 env \<and> qe_buf2 env \<and> qe_recv env \<and> qe_str1 env \<and> qe_str2 env \<and> qe_pay1 env \<and> qe_pay2 env \<and>
      qe_strdup env \<and> qe_calloc env \<and> qe_page env \<le> LONG_MAX \<and> 0 < qe_str_page env \<and> qe_str_page env \<le> SIZE_MAX div 4)"

text \<open>What the protocol puts on the wire: a text field, a packet, a publication, a subscription, a connection.\<close>

definition mqtt_field :: "byte list \<Rightarrow> byte list" where
  "mqtt_field s = (let l = of_nat (length s) in [hi_byte l, lo_byte l] @ s)"

definition mqtt_packet :: "byte \<Rightarrow> byte list \<Rightarrow> byte list" where
  "mqtt_packet kind body = kind # remaining_bytes (length body) @ body"

definition publish_packet :: "byte \<Rightarrow> 16 word \<Rightarrow> byte list \<Rightarrow> byte list \<Rightarrow> byte list" where
  "publish_packet qos pid topic payload =
     mqtt_packet (0x30 OR push_bit 1 qos) (mqtt_field topic @ (if qos = 1 then [hi_byte pid, lo_byte pid] else []) @ payload)"


definition connect_packet :: "int \<Rightarrow> byte list \<Rightarrow> byte list \<Rightarrow> byte list \<Rightarrow> byte list" where
  "connect_packet keepalive cid user pass =
     mqtt_packet 0x10 (mqtt_field (bytes_of ''MQTT'') @
       [4, 2 OR (if user \<noteq> [] then 0x80 else 0) OR (if pass \<noteq> [] then 0x40 else 0),
        hi_byte (of_int keepalive), lo_byte (of_int keepalive)] @
       mqtt_field cid @ (if user \<noteq> [] then mqtt_field user else []) @ (if pass \<noteq> [] then mqtt_field pass else []))"

lemma length_mqtt_field [simp]: "length (mqtt_field s) = length s + 2"
  by (simp add: mqtt_field_def Let_def)

lemma half_space: "n < 2 ^ 29 \<Longrightarrow> n \<le> SIZE_MAX div 2"
  by (simp add: SIZE_MAX_def)

lemma mqtt_put_rep:
  assumes "mqtt_env_ok env" "buffer_rep f xs" "n \<le> length d" "length xs + n < 2 ^ 29"
  shows "\<exists>g. mqtt_put env (Some d) n f = Some g \<and> buffer_rep g (xs @ take n d)"
  using put_bytes_take [OF assms(2,3) half_space [OF assms(4)]] assms(1) by (simp add: mqtt_put_def mqtt_env_ok_def)

lemma mqtt_put_buffer:
  assumes "mqtt_env_ok env" "buffer_rep f xs" "buffer_rep b ys" "length xs + length ys < 2 ^ 29"
  shows "\<exists>g. mqtt_put env (buffer_get_data b) (buffer_get_size b) f = Some g \<and> buffer_rep g (xs @ ys)"
proof -
  obtain n where "buffer_get_data b = Some (ys @ replicate n 0)" "buffer_get_size b = length ys"
    using buffer_get_rep [OF assms(3)] by auto
  with mqtt_put_rep [OF assms(1,2), of "length ys" "ys @ replicate n 0"] assms(4) show ?thesis by simp
qed

lemma mqtt_put_text_rep:
  assumes "mqtt_env_ok env" "buffer_rep f xs" "length s < 2 ^ 16" "length xs < 2 ^ 28"
  shows "\<exists>g. mqtt_put_text env (Some (s @ zs)) (length s) f = Some g \<and> buffer_rep g (xs @ mqtt_field s)"
proof -
  define l where "l = (of_nat (length s) :: 16 word)"
  have u: "unat l = length s" using assms(3) by (simp add: l_def unat_of_nat)
  obtain g1 where g1: "mqtt_put env (Some [hi_byte l, lo_byte l]) 2 f = Some g1" "buffer_rep g1 (xs @ [hi_byte l, lo_byte l])"
    using mqtt_put_rep [OF assms(1,2), of 2 "[hi_byte l, lo_byte l]"] assms(4) by auto
  obtain g2 where "mqtt_put env (Some (s @ zs)) (length s) g1 = Some g2" "buffer_rep g2 ((xs @ [hi_byte l, lo_byte l]) @ s)"
    using mqtt_put_rep [OF assms(1) g1(2), of "length s" "s @ zs"] assms(3,4) by auto
  then show ?thesis using g1(1) u by (simp add: mqtt_put_text_def mqtt_field_def Let_def flip: l_def)
qed

lemma mqtt_put_string_rep:
  assumes "mqtt_env_ok env" "buffer_rep f xs" "string_rep ps p s" "length s < 2 ^ 16" "length xs < 2 ^ 28"
  shows "\<exists>g. mqtt_put_string env p f = Some g \<and> buffer_rep g (xs @ mqtt_field s)"
  using assms(3)
proof (rule string_repE)
  fix t n assume "p = Some t" "st_data t = Some (s @ replicate n 0)" "st_data_size t = length s"
  with mqtt_put_text_rep [OF assms(1,2,4,5)] show ?thesis
    by (simp add: mqtt_put_string_def string_get_length_def string_c_str_def)
qed

lemma mqtt_seal_rep:
  assumes "mqtt_env_ok env" "buffer_rep f xs" "length xs < 2 ^ 28"
  shows "\<exists>g. mqtt_seal env kind f = Some g \<and> buffer_rep g (mqtt_packet kind xs)"
proof -
  let ?r = "remaining_bytes (length xs)"
  note e = encode_length [OF assms(3)]
  have "buffer_rep (buffer_allocate_length True True (length ?r + 1)) []"
    using e(2) by (intro buffer_allocate_length_rep) (simp add: SIZE_MAX_def)
  then obtain g1 where g1: "mqtt_put env (Some (kind # ?r @ replicate (4 - length ?r) 0)) (length ?r + 1)
      (buffer_allocate_length True True (length ?r + 1)) = Some g1" "buffer_rep g1 (kind # ?r)"
    using mqtt_put_rep [OF assms(1), of _ "[]" "length ?r + 1" "kind # ?r @ replicate (4 - length ?r) 0"] e(2) by auto
  obtain g2 where "mqtt_put env (buffer_get_data f) (buffer_get_size f) g1 = Some g2" "buffer_rep g2 ((kind # ?r) @ xs)"
    using mqtt_put_buffer [OF assms(1) g1(2) assms(2)] e(2) assms(3) by auto
  then show ?thesis using g1(1) e(1) buffer_get_size_rep [OF assms(2)] assms(1)
    by (simp add: mqtt_seal_def mqtt_packet_def mqtt_env_ok_def)
qed

lemma mqtt_fresh: "mqtt_env_ok env \<Longrightarrow> buffer_rep (buffer_allocate_default (qe_page env) (qe_buf1 env) (qe_buf2 env)) []"
  using buffer_allocate_default_rep [of "qe_page env"] by (simp add: mqtt_env_ok_def)

text \<open>An append that only some packets have.\<close>

lemma put_if_rep:
  assumes "buffer_rep f xs" "c \<Longrightarrow> \<exists>g. act f = Some g \<and> buffer_rep g (xs @ ys)"
  shows "\<exists>g. (if c then act f else Some f) = Some g \<and> buffer_rep g (xs @ (if c then ys else []))"
  using assms by (cases c) auto

lemma build_publish:
  assumes "mqtt_env_ok env" "c_string t = Some s" "length s < 2 ^ 16" "buffer_rep payload p" "length p < 2 ^ 27"
  shows "\<exists>f. mqtt_build_publish_packet_qos env (Some t) payload qos pid = Some f \<and> buffer_rep f (publish_packet qos pid s p)"
proof -
  note ok = assms(1)
  obtain r where t: "t = s @ 0 # r" using assms(2) by (rule c_stringE)
  obtain y where y: "payload = Some y" using assms(4) by (auto simp: buffer_rep_def)
  let ?b0 = "buffer_allocate_default (qe_page env) (qe_buf1 env) (qe_buf2 env)"
  obtain f1 where f1: "mqtt_put_text env (Some t) (length s) ?b0 = Some f1" "buffer_rep f1 (mqtt_field s)"
    using mqtt_put_text_rep [OF ok mqtt_fresh [OF ok] assms(3)] t by auto
  have "qos = 1 \<Longrightarrow> \<exists>g. mqtt_put env (Some [hi_byte pid, lo_byte pid]) 2 f1 = Some g \<and> buffer_rep g (mqtt_field s @ [hi_byte pid, lo_byte pid])"
    using mqtt_put_rep [OF ok f1(2), of 2 "[hi_byte pid, lo_byte pid]"] assms(3) by simp
  from put_if_rep [where act = "mqtt_put env (Some [hi_byte pid, lo_byte pid]) 2", OF f1(2) this]
  obtain f2 where f2: "(if qos = 1 then mqtt_put env (Some [hi_byte pid, lo_byte pid]) 2 f1 else Some f1) = Some f2"
    "buffer_rep f2 (mqtt_field s @ (if qos = 1 then [hi_byte pid, lo_byte pid] else []))" by auto
  have l: "length (mqtt_field s @ (if qos = 1 then [hi_byte pid, lo_byte pid] else [])) < 2 ^ 27" using assms(3) by simp
  obtain f3 where f3: "mqtt_put env (buffer_get_data payload) (buffer_get_size payload) f2 = Some f3"
    "buffer_rep f3 ((mqtt_field s @ (if qos = 1 then [hi_byte pid, lo_byte pid] else [])) @ p)"
    using mqtt_put_buffer [OF ok f2(2) assms(4)] l assms(5) by auto
  obtain f4 where "mqtt_seal env (0x30 OR push_bit 1 qos) f3 = Some f4"
    "buffer_rep f4 (mqtt_packet (0x30 OR push_bit 1 qos) ((mqtt_field s @ (if qos = 1 then [hi_byte pid, lo_byte pid] else [])) @ p))"
    using mqtt_seal_rep [OF ok f3(2)] l assms(5) by auto
  with f1(1) f2(1) f3(1) y assms(2) show ?thesis
    by (simp add: mqtt_build_publish_packet_qos_def publish_packet_def)
qed


text \<open>An optional string and its text, the empty one when there is none.\<close>

definition text_rep :: "nat \<Rightarrow> string_t option \<Rightarrow> byte list \<Rightarrow> bool" where
  "text_rep ps p s = (if s = [] then p = None else string_rep ps p s)"

lemma has_text_rep: "text_rep ps p s \<Longrightarrow> mqtt_has_text p = (s \<noteq> [])"
  by (auto simp: text_rep_def mqtt_has_text_def elim: string_repE split: if_splits)

lemma put_credential_rep:
  assumes "mqtt_env_ok env" "buffer_rep f xs" "text_rep ps p s" "length s < 2 ^ 16" "length xs < 2 ^ 28"
  shows "\<exists>g. (if mqtt_has_text p then mqtt_put_string env p f else Some f) = Some g \<and>
    buffer_rep g (xs @ (if s \<noteq> [] then mqtt_field s else []))"
proof -
  have "s \<noteq> [] \<Longrightarrow> \<exists>g. mqtt_put_string env p f = Some g \<and> buffer_rep g (xs @ mqtt_field s)"
    using mqtt_put_string_rep [OF assms(1,2) _ assms(4,5)] assms(3) by (simp add: text_rep_def)
  from put_if_rep [where act = "mqtt_put_string env p", OF assms(2) this]
  show ?thesis using has_text_rep [OF assms(3)] by auto
qed

lemma build_connect:
  assumes "mqtt_env_ok env" "string_rep ps cid i" "text_rep ps user u" "text_rep ps pass p"
    "length i < 2 ^ 16" "length u < 2 ^ 16" "length p < 2 ^ 16"
  shows "\<exists>f. mqtt_build_connect_packet env cid user pass keepalive = Some f \<and> buffer_rep f (connect_packet keepalive i u p)"
proof -
  note ok = assms(1)
  define flags where "flags = (2 OR (if u \<noteq> [] then 0x80 else 0) OR (if p \<noteq> [] then 0x40 else 0) :: byte)"
  have flags: "mqtt_connect_flags user pass = flags"
    using has_text_rep [OF assms(3)] has_text_rep [OF assms(4)] by (simp add: mqtt_connect_flags_def flags_def)
  define ka where "ka = (of_int keepalive :: 16 word)"
  obtain b where b: "buffer_allocate_default (qe_page env) (qe_buf1 env) (qe_buf2 env) = Some b" "buffer_rep (Some b) []"
    using mqtt_fresh [OF ok] by (auto simp: buffer_rep_def)
  obtain f1 where f1: "mqtt_put env (Some [0, 4]) 2 (Some b) = Some f1" "buffer_rep f1 [0, 4]"
    using mqtt_put_rep [OF ok b(2), of 2 "[0, 4]"] by auto
  obtain f2 where f2: "mqtt_put env (Some (bytes_of ''MQTT'')) 4 f1 = Some f2" "buffer_rep f2 ([0, 4] @ bytes_of ''MQTT'')"
    using mqtt_put_rep [OF ok f1(2), of 4 "bytes_of ''MQTT''"] by auto
  obtain f3 where f3: "mqtt_put env (Some [4]) 1 f2 = Some f3" "buffer_rep f3 (([0, 4] @ bytes_of ''MQTT'') @ [4])"
    using mqtt_put_rep [OF ok f2(2), of 1 "[4]"] by auto
  obtain f4 where f4: "mqtt_put env (Some [flags]) 1 f3 = Some f4" "buffer_rep f4 ([0, 4] @ bytes_of ''MQTT'' @ [4, flags])"
    using mqtt_put_rep [OF ok f3(2), of 1 "[flags]"] by auto
  define h where "h = [0, 4] @ bytes_of ''MQTT'' @ [4, flags, hi_byte ka, lo_byte ka]"
  have h: "length h = 10" by (simp add: h_def)
  obtain f5 where f5: "mqtt_put env (Some [hi_byte ka, lo_byte ka]) 2 f4 = Some f5" "buffer_rep f5 h"
    using mqtt_put_rep [OF ok f4(2), of 2 "[hi_byte ka, lo_byte ka]"] by (auto simp: h_def)
  obtain f6 where f6: "mqtt_put_string env cid f5 = Some f6" "buffer_rep f6 (h @ mqtt_field i)"
    using mqtt_put_string_rep [OF ok f5(2) assms(2,5)] h by auto
  let ?u = "if u \<noteq> [] then mqtt_field u else []" and ?p = "if p \<noteq> [] then mqtt_field p else []"
  have lu: "length ?u \<le> length u + 2" "length ?p \<le> length p + 2" by simp_all
  obtain f7 where f7: "(if mqtt_has_text user then mqtt_put_string env user f6 else Some f6) = Some f7"
    "buffer_rep f7 ((h @ mqtt_field i) @ ?u)"
    using put_credential_rep [OF ok f6(2) assms(3,6)] h assms(5) by auto
  obtain f8 where f8: "(if mqtt_has_text pass then mqtt_put_string env pass f7 else Some f7) = Some f8"
    "buffer_rep f8 (((h @ mqtt_field i) @ ?u) @ ?p)"
    using put_credential_rep [OF ok f7(2) assms(4,7)] h lu assms(5,6) by auto
  obtain f9 where "mqtt_seal env 0x10 f8 = Some f9" "buffer_rep f9 (mqtt_packet 0x10 (((h @ mqtt_field i) @ ?u) @ ?p))"
    using mqtt_seal_rep [OF ok f8(2), where kind = "0x10"] h lu assms(5-7) by fastforce
  moreover have "mqtt_packet 0x10 (((h @ mqtt_field i) @ ?u) @ ?p) = connect_packet keepalive i u p"
    by (simp add: connect_packet_def h_def flags_def ka_def mqtt_field_def Let_def bytes_of_def)
      (simp add: hi_byte_def lo_byte_def)
  moreover have "cid \<noteq> None" using assms(2) by (auto elim: string_repE)
  ultimately show ?thesis
    using b f1(1) f2(1) f3(1) f4(1) f5(1) f6(1) f7(1) f8(1) flags
    by (auto simp: mqtt_build_connect_packet_def Let_def simp flip: ka_def)
qed


section \<open>A well-formed client\<close>

text \<open>
  A topic can be compared when its string has a terminator, which one that fills its pages exactly lacks.
\<close>

definition topic_rep :: "nat \<Rightarrow> string_t option \<Rightarrow> byte list \<Rightarrow> bool" where
  "topic_rep ps p s = (string_rep ps p s \<and> length s mod ps \<noteq> 0)"

definition pending_rep :: "mqtt_pending_pub_t \<Rightarrow> byte list \<Rightarrow> byte list \<Rightarrow> bool" where
  "pending_rep p s m =
     (pp_topic p = Some (s @ [0]) \<and> 0 \<notin> set s \<and> length s < 2 ^ 16 \<and> buffer_rep (pp_payload p) m \<and> length m < 2 ^ 27 \<and>
      pp_packet_id p \<noteq> 0)"

definition mqtt_wf :: "nat \<Rightarrow> mqtt_client_t \<Rightarrow> bool" where
  "mqtt_wf ps c =
     (mq_tcp c \<noteq> None \<and> (\<exists>i. string_rep ps (mq_client_id c) i \<and> length i < 2 ^ 16) \<and>
      (\<exists>u. text_rep ps (mq_username c) u \<and> length u < 2 ^ 16) \<and> (\<exists>p. text_rep ps (mq_password c) p \<and> length p < 2 ^ 16) \<and>
      (\<forall>s \<in> set (mq_subscriptions c). \<exists>t. topic_rep ps (sb_topic s) t) \<and>
      (\<forall>p \<in> set (mq_pending c). \<exists>s m. pending_rep p s m) \<and> mq_next_packet_id c \<noteq> 0)"


section \<open>Sending and receiving\<close>

lemma mqtt_send_prefix:
  assumes "mq_tcp c = Some t" "buffer_rep b xs" "length xs < 2 ^ 31"
  shows "\<exists>r t' k. mqtt_send env c b = Some (r, c\<lparr>mq_tcp := Some t'\<rparr>) \<and>
    sk_sent (sock t') = sk_sent (sock t) @ take k xs \<and> sk_incoming (sock t') = sk_incoming (sock t) \<and> (r \<longrightarrow> k = length xs)"
proof -
  obtain r t' k where "tcp_client_send_buffer (qe_errno env) (Some t) b = Some (r, Some t')"
    "sk_sent (sock t') = sk_sent (sock t) @ take k xs" "sk_incoming (sock t') = sk_incoming (sock t)"
    "if r then k = length xs \<and> connected t' = connected t else \<not> connected t' \<and> error_code t' = qe_errno env"
    using send_buffer_prefix [OF assms(2,3), of "qe_errno env" t] by blast
  with assms(1) show ?thesis by (intro exI [of _ r] exI [of _ t'] exI [of _ k]) (auto simp: mqtt_send_def)
qed

lemma mqtt_send_all:
  assumes "mq_tcp c = Some t" "buffer_rep b xs" "length xs < 2 ^ 31" "tcp_healthy (length xs + n) t"
  shows "\<exists>t'. mqtt_send env c b = Some (True, c\<lparr>mq_tcp := Some t'\<rparr>) \<and>
    sk_sent (sock t') = sk_sent (sock t) @ xs \<and> sk_incoming (sock t') = sk_incoming (sock t) \<and> tcp_healthy n t'"
  using send_buffer_succeeds [OF assms(2-4), of "qe_errno env"] assms(1) by (auto simp: mqtt_send_def)

lemma recv_size:
  "tcp_client_receive_buffer_by_length ps ok ok1 ok2 p len = Some (Some b, q) \<Longrightarrow> bf_data_size b = len"
  by (auto simp: tcp_client_receive_buffer_by_length_def buffer_allocate_def Let_def
      dest!: bind_eq_SomeD split: option.splits if_splits)

lemma mqtt_receive_size: "mqtt_receive env c len = Some (Some b, c') \<Longrightarrow> buffer_get_size (Some b) = len"
  by (auto simp: mqtt_receive_def buffer_get_size_def dest!: bind_eq_SomeD recv_size)

lemma mqtt_receive_client: "mqtt_receive env c len = Some (b, c') \<Longrightarrow> \<exists>t. c' = c\<lparr>mq_tcp := t\<rparr>"
  by (auto simp: mqtt_receive_def dest!: bind_eq_SomeD)

lemma mqtt_send_client: "mqtt_send env c b = Some (r, c') \<Longrightarrow> \<exists>t. c' = c\<lparr>mq_tcp := t\<rparr>"
  by (auto simp: mqtt_send_def dest!: bind_eq_SomeD)



lemma mqtt_receive_all:
  assumes "mqtt_env_ok env" "mq_tcp c = Some t" "0 < length xs" "length xs < 2 ^ 31" "tcp_healthy (length xs + n) t"
    "sk_incoming (sock t) = xs @ rest"
  shows "\<exists>b t'. mqtt_receive env c (length xs) = Some (Some b, c\<lparr>mq_tcp := Some t'\<rparr>) \<and> buffer_rep (Some b) xs \<and>
    sk_incoming (sock t') = rest \<and> sk_sent (sock t') = sk_sent (sock t) \<and> tcp_healthy n t'"
proof -
  have p: "qe_page env \<le> int SIZE_MAX" using assms(1) by (simp add: mqtt_env_ok_def LONG_MAX_def SIZE_MAX_def)
  obtain b t' where r: "tcp_client_receive_buffer_by_length (qe_page env) True True True (Some t) (length xs) = Some (Some b, Some t')"
     "tcp_healthy n t'"
    using receive_succeeds [OF assms(3,4) p assms(5)] assms(6) by auto
  from receive_by_length [OF assms(3,4) p r(1)] r assms show ?thesis
    by (auto simp: mqtt_receive_def mqtt_env_ok_def)
qed

section \<open>Publishing\<close>

definition next_id :: "16 word \<Rightarrow> 16 word" where
  "next_id pid = (if pid + 1 = 0 then 1 else pid + 1)"


lemma make_pending:
  assumes "mqtt_env_ok env" "c_string topic = Some s" "buffer_rep payload m" "length m < 2 ^ 27"
  shows "\<exists>p. mqtt_make_pending env pid topic payload = Some (Some p) \<and> pp_packet_id p = pid \<and> pp_last_sent p = qe_now env \<and>
    pp_topic p = Some (s @ [0]) \<and> buffer_rep (pp_payload p) m"
proof -
  have z: "buffer_get_size payload = length m" using buffer_get_size_rep [OF assms(3)] .
  obtain n where d: "buffer_get_data payload = Some (m @ replicate n 0)" using buffer_get_data_rep [OF assms(3)] by blast
  have "buffer_rep (buffer_allocate_length True True (length m)) []"
    using assms(4) by (intro buffer_allocate_length_rep) (simp add: SIZE_MAX_def)
  then obtain b where b: "buffer_allocate_length True True (length m) = Some b" "buffer_rep (Some b) []"
    by (auto simp: buffer_rep_def)
  obtain g where "put_bytes (qe_page env) True True (Some (m @ replicate n 0)) (length m) (Some b) = Some g" "buffer_rep g m"
    using put_bytes_take [OF b(2), of "length m" "m @ replicate n 0" "qe_page env" True] assms(4) by (auto simp: SIZE_MAX_def)
  with b(1) z d assms(1,2) show ?thesis by (simp add: mqtt_make_pending_def mqtt_env_ok_def)
qed

lemma packet_length: "length body < 2 ^ 28 \<Longrightarrow> length (mqtt_packet kind body) < 2 ^ 31"
  using encode_length(2) [of "length body"] by (simp add: mqtt_packet_def)

lemma publish_packet_length: "length s < 2 ^ 16 \<Longrightarrow> length m < 2 ^ 27 \<Longrightarrow> length (publish_packet qos pid s m) < 2 ^ 31"
  unfolding publish_packet_def by (rule packet_length) simp

lemma publish_effect:
  assumes "mqtt_env_ok env" "mq_connected c" "mq_tcp c = Some t" "c_string topic = Some s" "length s < 2 ^ 16"
    "buffer_rep payload m" "length m < 2 ^ 27"
  shows "\<exists>r t' k p. mqtt_client_publish env (Some c) (Some topic) payload qos retain =
      Some (r, Some (c\<lparr>mq_tcp := Some t',
        mq_next_packet_id := (if qos = 1 then next_id (mq_next_packet_id c) else mq_next_packet_id c),
        mq_pending := (if r \<and> qos = 1 then p # mq_pending c else mq_pending c)\<rparr>)) \<and>
    sk_sent (sock t') = sk_sent (sock t) @ take k (publish_packet qos (if qos = 1 then mq_next_packet_id c else 0) s m) \<and>
    (r \<longrightarrow> k = length (publish_packet qos (if qos = 1 then mq_next_packet_id c else 0) s m)) \<and>
    sk_incoming (sock t') = sk_incoming (sock t) \<and>
    pp_packet_id p = mq_next_packet_id c \<and> pp_last_sent p = qe_now env \<and>
    pp_topic p = Some (s @ [0]) \<and> buffer_rep (pp_payload p) m"
proof -
  let ?pid = "if qos = 1 then mq_next_packet_id c else 0"
  define c1 where "c1 = c\<lparr>mq_next_packet_id := (if qos = 1 then next_id (mq_next_packet_id c) else mq_next_packet_id c)\<rparr>"
  have taken: "(if qos = 1 then mqtt_take_id c else (0, c)) = (?pid, c1)"
    by (auto simp: mqtt_take_id_def next_id_def c1_def Let_def)
  obtain y where y: "payload = Some y" using assms(6) by (auto simp: buffer_rep_def)
  obtain f where f: "mqtt_build_publish_packet_qos env (Some topic) payload qos ?pid = Some f" "buffer_rep f (publish_packet qos ?pid s m)"
    using build_publish [OF assms(1,4-7)] by blast
  then obtain g where g: "f = Some g" by (auto simp: buffer_rep_def)
  have t1: "mq_tcp c1 = Some t" using assms(3) by (simp add: c1_def)
  obtain r t' k where snd: "mqtt_send env c1 f = Some (r, c1\<lparr>mq_tcp := Some t'\<rparr>)"
    "sk_sent (sock t') = sk_sent (sock t) @ take k (publish_packet qos ?pid s m)" "sk_incoming (sock t') = sk_incoming (sock t)"
    "r \<longrightarrow> k = length (publish_packet qos ?pid s m)"
    using mqtt_send_prefix [OF t1 f(2) publish_packet_length [OF assms(5,7)]] by blast
  obtain p where p: "mqtt_make_pending env (mq_next_packet_id c) topic payload = Some (Some p)" "pp_packet_id p = mq_next_packet_id c"
    "pp_last_sent p = qe_now env" "pp_topic p = Some (s @ [0])" "buffer_rep (pp_payload p) m"
    using make_pending [OF assms(1,4,6,7)] by blast
  have "mqtt_client_publish env (Some c) (Some topic) payload qos retain =
      Some (r, Some (c1\<lparr>mq_tcp := Some t', mq_pending := (if r \<and> qos = 1 then p # mq_pending c else mq_pending c)\<rparr>))"
    using taken y f(1) g snd(1) p(1) assms(2) unfolding mqtt_client_publish_def
    by (auto simp: c1_def)
  then show ?thesis using snd(2-4) p(2-5)
    by (intro exI [of _ r] exI [of _ t'] exI [of _ k] exI [of _ p]) (simp add: c1_def)
qed

text \<open>
  C22: publishing, in every case of the network.  The bytes the server gets are those of the PUBLISH packet, all
  of them when the call answers true; a publication with QoS 1 uses up one packet identifier, never zero,
  and, when it was sent, its copy is put in front of those that wait for an acknowledgement; nothing
  else of the client changes.
\<close>

theorem mqtt_publish_sends:
  assumes "mqtt_env_ok env" "mq_connected c" "mq_tcp c = Some t" "c_string topic = Some s" "length s < 2 ^ 16"
    "buffer_rep payload m" "length m < 2 ^ 27"
  shows "\<exists>r t' k p. mqtt_client_publish env (Some c) (Some topic) payload qos retain =
      Some (r, Some (c\<lparr>mq_tcp := Some t',
        mq_next_packet_id := (if qos = 1 then next_id (mq_next_packet_id c) else mq_next_packet_id c),
        mq_pending := (if r \<and> qos = 1 then p # mq_pending c else mq_pending c)\<rparr>)) \<and>
    sk_sent (sock t') = sk_sent (sock t) @ take k (publish_packet qos (if qos = 1 then mq_next_packet_id c else 0) s m) \<and>
    (r \<longrightarrow> k = length (publish_packet qos (if qos = 1 then mq_next_packet_id c else 0) s m)) \<and>
    sk_incoming (sock t') = sk_incoming (sock t) \<and>
    pp_packet_id p = mq_next_packet_id c \<and> pp_last_sent p = qe_now env \<and>
    pp_topic p = Some (s @ [0]) \<and> buffer_rep (pp_payload p) m"
  by (rule publish_effect [OF assms])

section \<open>Retries\<close>

definition pub_due :: "int \<Rightarrow> mqtt_pending_pub_t \<Rightarrow> bool" where
  "pub_due now p = (now - pp_last_sent p \<ge> 5)"

definition pending_packet :: "mqtt_pending_pub_t \<Rightarrow> byte list" where
  "pending_packet p = publish_packet 1 (pp_packet_id p) (takeWhile (\<lambda>b. b \<noteq> 0) (the (pp_topic p))) (buffer_contents (the (pp_payload p)))"

lemma pending_packet_rep:
  assumes "pending_rep p s m"
  shows "pending_packet p = publish_packet 1 (pp_packet_id p) s m"
proof -
  have "takeWhile (\<lambda>b. b \<noteq> 0) (s @ [0]) = s" using assms by (auto simp: pending_rep_def takeWhile_append intro!: takeWhile_eq_all_conv [THEN iffD2])
  then show ?thesis using assms by (auto simp: pending_packet_def pending_rep_def buffer_rep_def)
qed

definition resent :: "int \<Rightarrow> mqtt_pending_pub_t \<Rightarrow> mqtt_pending_pub_t" where
  "resent now p = (if pub_due now p then p\<lparr>pp_last_sent := now\<rparr> else p)"

lemma build_pending:
  assumes "mqtt_env_ok env" "pending_rep p s m"
  shows "\<exists>f. mqtt_build_publish_packet_qos env (pp_topic p) (pp_payload p) 1 (pp_packet_id p) = Some f \<and>
    buffer_rep f (pending_packet p)" "length (pending_packet p) < 2 ^ 31"
proof -
  from assms(2) have p: "pp_topic p = Some (s @ [0])" "0 \<notin> set s" "length s < 2 ^ 16" "buffer_rep (pp_payload p) m" "length m < 2 ^ 27"
    by (auto simp: pending_rep_def)
  have "c_string (s @ [0]) = Some s" using c_string_exact [OF p(2), of "[]"] by simp
  from build_publish [OF assms(1) this p(3-5)] p(1)
  show "\<exists>f. mqtt_build_publish_packet_qos env (pp_topic p) (pp_payload p) 1 (pp_packet_id p) = Some f \<and> buffer_rep f (pending_packet p)"
    by (simp add: pending_packet_rep [OF assms(2)])
  show "length (pending_packet p) < 2 ^ 31"
    using publish_packet_length [OF p(3,5)] by (simp add: pending_packet_rep [OF assms(2)])
qed


lemma retry_returns:
  assumes "mqtt_env_ok env" "\<forall>p \<in> set ps. \<exists>s m. pending_rep p s m" "mq_tcp c = Some t"
  shows "\<exists>t'. mqtt_retry env c ps = Some (map (resent (qe_now env)) ps, c\<lparr>mq_tcp := Some t'\<rparr>)"
  using assms(2,3)
proof (induction ps arbitrary: c t)
  case Nil
  then show ?case by (auto intro!: exI [of _ t])
next
  case (Cons p ps)
  then obtain s m where p: "pending_rep p s m" by auto
  show ?case
  proof (cases "pub_due (qe_now env) p")
    case False
    then show ?thesis using Cons.IH [OF _ Cons.prems(2)] Cons.prems(1) by (auto simp: pub_due_def resent_def)
  next
    case True
    obtain f where f: "mqtt_build_publish_packet_qos env (pp_topic p) (pp_payload p) 1 (pp_packet_id p) = Some f" "buffer_rep f (pending_packet p)"
      using build_pending [OF assms(1) p] by blast
    then obtain g where g: "f = Some g" by (auto simp: buffer_rep_def)
    obtain r t1 where s1: "mqtt_send env c f = Some (r, c\<lparr>mq_tcp := Some t1\<rparr>)"
      using mqtt_send_prefix [OF Cons.prems(2) f(2) build_pending(2) [OF assms(1) p]] by blast
    obtain t2 where "mqtt_retry env (c\<lparr>mq_tcp := Some t1\<rparr>) ps = Some (map (resent (qe_now env)) ps, c\<lparr>mq_tcp := Some t2\<rparr>)"
      using Cons.IH [of "c\<lparr>mq_tcp := Some t1\<rparr>" t1] Cons.prems(1) by auto
    then show ?thesis using True f(1) g s1 by (auto simp: pub_due_def resent_def)
  qed
qed

lemma retry_sends:
  assumes "mqtt_env_ok env" "\<forall>p \<in> set ps. \<exists>s m. pending_rep p s m" "mq_tcp c = Some t"
    "tcp_healthy (length (concat (map pending_packet (filter (pub_due (qe_now env)) ps))) + n) t"
  shows "\<exists>t'. mqtt_retry env c ps = Some (map (resent (qe_now env)) ps, c\<lparr>mq_tcp := Some t'\<rparr>) \<and>
    sk_sent (sock t') = sk_sent (sock t) @ concat (map pending_packet (filter (pub_due (qe_now env)) ps)) \<and>
    sk_incoming (sock t') = sk_incoming (sock t) \<and> tcp_healthy n t'"
  using assms(2-4)
proof (induction ps arbitrary: c t)
  case Nil
  then show ?case by (auto intro!: exI [of _ t])
next
  case (Cons p ps)
  then obtain s m where p: "pending_rep p s m" by auto
  show ?case
  proof (cases "pub_due (qe_now env) p")
    case False
    then show ?thesis using Cons.IH [OF _ Cons.prems(2)] Cons.prems(1,3) by (auto simp: pub_due_def resent_def)
  next
    case True
    let ?rest = "concat (map pending_packet (filter (pub_due (qe_now env)) ps))"
    obtain f where f: "mqtt_build_publish_packet_qos env (pp_topic p) (pp_payload p) 1 (pp_packet_id p) = Some f" "buffer_rep f (pending_packet p)"
      using build_pending [OF assms(1) p] by blast
    then obtain g where g: "f = Some g" by (auto simp: buffer_rep_def)
    obtain t1 where s1: "mqtt_send env c f = Some (True, c\<lparr>mq_tcp := Some t1\<rparr>)" "sk_sent (sock t1) = sk_sent (sock t) @ pending_packet p"
      "sk_incoming (sock t1) = sk_incoming (sock t)" "tcp_healthy (length ?rest + n) t1"
      using mqtt_send_all [OF Cons.prems(2) f(2) build_pending(2) [OF assms(1) p], of "length ?rest + n"] Cons.prems(3) True
      by (auto simp: add.assoc)
    obtain t2 where "mqtt_retry env (c\<lparr>mq_tcp := Some t1\<rparr>) ps = Some (map (resent (qe_now env)) ps, c\<lparr>mq_tcp := Some t2\<rparr>)"
      "sk_sent (sock t2) = sk_sent (sock t1) @ ?rest" "sk_incoming (sock t2) = sk_incoming (sock t1)" "tcp_healthy n t2"
      using Cons.IH [of "c\<lparr>mq_tcp := Some t1\<rparr>" t1] Cons.prems(1) s1(4) by auto
    moreover have "5 \<le> qe_now env - pp_last_sent p" using True by (simp add: pub_due_def)
    ultimately show ?thesis using True f(1) g s1
      by (intro exI [of _ t2]) (simp add: resent_def)
  qed
qed

section \<open>Receiving\<close>








lemma take_payload:
  assumes "mqtt_env_ok env" "mq_tcp c = Some t" "length s < 2 ^ 16" "body = mqtt_field s @ x" "length body < 2 ^ 29"
    "sk_incoming (sock t) = body @ rest" "tcp_healthy (length body + n) t"
  shows "\<exists>z t1. mqtt_take_payload env (length body) c = Some (Some (body @ replicate z 0, length s, s @ [0]), c\<lparr>mq_tcp := Some t1\<rparr>) \<and>
    sk_incoming (sock t1) = rest \<and> sk_sent (sock t1) = sk_sent (sock t) \<and> tcp_healthy n t1"
proof -
  define hi lo where "hi = hi_byte (of_nat (length s))" and "lo = lo_byte (of_nat (length s))"
  have body: "body = hi # lo # s @ x" using assms(4) by (simp add: mqtt_field_def hi_def lo_def Let_def)
  have len: "unat (join_bytes hi lo) = length s" using assms(3) by (simp add: hi_def lo_def unat_of_nat)
  have pos: "0 < length body" "length body < 2 ^ 31" using body assms(5) by simp_all
  obtain buf t1 where r: "mqtt_receive env c (length body) = Some (Some buf, c\<lparr>mq_tcp := Some t1\<rparr>)" "buffer_rep (Some buf) body"
    "sk_incoming (sock t1) = rest" "sk_sent (sock t1) = sk_sent (sock t)" "tcp_healthy n t1"
    using mqtt_receive_all [OF assms(1,2) pos assms(7,6)] by blast
  obtain z where d: "buffer_get_data (Some buf) = Some (body @ replicate z 0)" using buffer_get_data_rep [OF r(2)] by blast
  define p where "p = body @ replicate z 0"
  have head: "mem_read p 0 = Some hi" "mem_read p 1 = Some lo" "mem_copy (replicate (length s + 1) 0) 0 p 2 (length s) = Some (s @ [0])"
    by (simp_all add: p_def body mem_copy_def drop_replicate del: replicate_Suc) simp
  have cal: "qe_calloc env" using assms(1) by (simp add: mqtt_env_ok_def)
  have wr: "mem_write (s @ [0]) (length s) (0 :: byte) = Some (s @ [0])" by simp
  have size: "length body = 2 + length s + length x" using body by simp
  have "mqtt_take_payload env (length body) c = Some (Some (p, length s, s @ [0]), c\<lparr>mq_tcp := Some t1\<rparr>)"
    using r(1) d [folded p_def] head len cal wr size by (simp add: mqtt_take_payload_def Let_def)
  then show ?thesis using r(3-5) unfolding p_def by blast
qed


section \<open>A turn of the event loop\<close>

lemma mqtt_wfD:
  assumes "mqtt_wf ps c"
  shows "\<exists>t. mq_tcp c = Some t" "\<forall>sub \<in> set (mq_subscriptions c). \<exists>t. topic_rep ps (sb_topic sub) t"
    "\<forall>p \<in> set (mq_pending c). \<exists>s m. pending_rep p s m" "mq_next_packet_id c \<noteq> 0"
  using assms by (auto simp: mqtt_wf_def)

lemma loop_receives:
  assumes "mqtt_env_ok env" "mq_connected c" "mq_tcp c = Some t" "sk_incoming (sock t) = b0 # b1 # rest" "tcp_healthy (2 + n) t"
  shows "\<exists>buf t1. mqtt_client_loop env (Some c) timeout = do {
      (log, c, returned) \<leftarrow> mqtt_on_packet env (Some buf) (c\<lparr>mq_tcp := Some t1\<rparr>);
      if returned then Some (log, Some c)
      else do { (pending, c) \<leftarrow> mqtt_retry env c (mq_pending c); Some (log, Some (c\<lparr>mq_pending := pending\<rparr>)) } } \<and>
    buffer_rep (Some buf) [b0, b1] \<and> mqtt_receive env c 2 = Some (Some buf, c\<lparr>mq_tcp := Some t1\<rparr>) \<and>
    sk_incoming (sock t1) = rest \<and> sk_sent (sock t1) = sk_sent (sock t) \<and> tcp_healthy n t1"
proof -
  have l2: "length [b0, b1] = 2" by simp
  have two: "tcp_healthy (length [b0, b1] + n) t" unfolding l2 by (rule assms(5))
  obtain buf t1 where r: "mqtt_receive env c 2 = Some (Some buf, c\<lparr>mq_tcp := Some t1\<rparr>)" "buffer_rep (Some buf) [b0, b1]"
    "sk_incoming (sock t1) = rest" "sk_sent (sock t1) = sk_sent (sock t)" "tcp_healthy n t1"
    using mqtt_receive_all [OF assms(1,3) _ _ two, of rest] assms(4) unfolding l2 by auto
  have "buffer_get_size (Some buf) = 2" using buffer_get_size_rep [OF r(2)] by simp
  then show ?thesis using r assms(2)
    by (intro exI [of _ buf] exI [of _ t1]) (simp add: mqtt_client_loop_def)
qed

lemma decode_two: "mqtt_decode_loop (Held (b0 # b1 # zs)) 2 1 1 0 = Some (unat (b1 AND 127))"
  by (subst mqtt_decode_loop.simps) simp


text \<open>What a turn does with the two bytes it received, by the type of the packet.\<close>

lemma on_packet_cases:
  assumes "buffer_rep (Some buf) [b0, b1]"
  shows "drop_bit 4 b0 = 3 \<Longrightarrow> mqtt_on_packet env (Some buf) c = mqtt_on_publish env Released (unat (b1 AND 127)) c"
    "drop_bit 4 b0 = 4 \<Longrightarrow> mqtt_on_packet env (Some buf) c = Some ([], c, True)"
    "drop_bit 4 b0 \<noteq> 3 \<Longrightarrow> drop_bit 4 b0 \<noteq> 4 \<Longrightarrow> mqtt_on_packet env (Some buf) c = Some ([], c, False)"
proof -
  obtain z where "buffer_get_data (Some buf) = Some ([b0, b1] @ replicate z 0)" using buffer_get_data_rep [OF assms] by blast
  then have d: "buffer_get_data (Some buf) = Some (b0 # b1 # replicate z 0)" by simp
  have n: "buffer_get_size (Some buf) = 2" using buffer_get_size_rep [OF assms] by simp
  show "drop_bit 4 b0 = 3 \<Longrightarrow> mqtt_on_packet env (Some buf) c = mqtt_on_publish env Released (unat (b1 AND 127)) c"
    "drop_bit 4 b0 = 4 \<Longrightarrow> mqtt_on_packet env (Some buf) c = Some ([], c, True)"
    "drop_bit 4 b0 \<noteq> 3 \<Longrightarrow> drop_bit 4 b0 \<noteq> 4 \<Longrightarrow> mqtt_on_packet env (Some buf) c = Some ([], c, False)"
    using d n decode_two by (simp_all add: mqtt_on_packet_def)
qed

text \<open>Behind a complete payload, the flags are read through a pointer into the released block.\<close>

lemma on_publish_released:
  "mqtt_on_publish env Released n c = do {
     (payload, c) \<leftarrow> mqtt_take_payload env n c;
     if payload = None then Some ([], c, True) else None }"
  by (cases "mqtt_take_payload env n c") (auto simp: mqtt_on_publish_def split: option.split prod.split)


text \<open>
  C26: the flags of a PUBLISH packet are read from a block that has been released.  Whatever PUBLISH packet arrives complete, on a connection
  that delivers and with memory available, with a body of less than 128 bytes that begins with its topic, the turn of the loop has no defined result: the block of the two
  bytes received first is released before the payload is received, and \<open>data[0]\<close> is read afterwards.  (Longer packets are not
  parsed as such: the loop has only one byte of their length.)
\<close>

theorem mqtt_publish_reads_released:
  assumes "mqtt_env_ok env" "mq_connected c" "mq_tcp c = Some t"
    "drop_bit 4 b0 = 3" "body = mqtt_field s @ x" "length body < 128"
    "sk_incoming (sock t) = b0 # of_nat (length body) # body @ rest" "tcp_healthy (2 + length body) t"
  shows "mqtt_client_loop env (Some c) timeout = None"
proof -
  obtain buf t1 where l: "mqtt_client_loop env (Some c) timeout = do {
      (log, c, returned) \<leftarrow> mqtt_on_packet env (Some buf) (c\<lparr>mq_tcp := Some t1\<rparr>);
      if returned then Some (log, Some c)
      else do { (pending, c) \<leftarrow> mqtt_retry env c (mq_pending c); Some (log, Some (c\<lparr>mq_pending := pending\<rparr>)) } }"
    "buffer_rep (Some buf) [b0, of_nat (length body)]" "sk_incoming (sock t1) = body @ rest" "tcp_healthy (length body + 0) t1"
    using loop_receives [OF assms(1-3,7,8)] unfolding add_0_right by blast
  have n: "unat ((of_nat (length body) :: byte) AND 127) = length body" by (rule length_byte(1) [OF assms(6)])
  have t1: "mq_tcp (c\<lparr>mq_tcp := Some t1\<rparr>) = Some t1" and small: "length s < 2 ^ 16" "length body < 2 ^ 29"
    using assms(5,6) by simp_all
  obtain z t2 where "mqtt_take_payload env (length body) (c\<lparr>mq_tcp := Some t1\<rparr>) =
      Some (Some (body @ replicate z 0, length s, s @ [0]), c\<lparr>mq_tcp := Some t2\<rparr>)"
    using take_payload [OF assms(1) t1 small(1) assms(5) small(2) l(3,4)] by auto
  then have "mqtt_on_publish env Released (length body) (c\<lparr>mq_tcp := Some t1\<rparr>) = None" by (simp add: on_publish_released)
  with l(1) on_packet_cases(1) [OF l(2) assms(4)] n show ?thesis by simp
qed

text \<open>
  C24: retries.  A turn of the loop of a well-formed client that receives the first two bytes of a packet other than PUBLISH, with memory available.  When the packet is a PUBACK,
  the turn ends before the retries: nothing is sent and no publication changes.  Otherwise the time of each publication
  whose last sending is five seconds ago or more is renewed, whether or not its packet can be sent, and none is dropped; on a connection that accepts
  the bytes, each of these publications is sent again, byte for byte, in the order of the list.
\<close>

theorem mqtt_loop_retries:
  assumes "mqtt_env_ok env" "mqtt_wf ps c" "mq_connected c" "mq_tcp c = Some t"
    "drop_bit 4 b0 \<noteq> 3" "sk_incoming (sock t) = b0 # b1 # rest" "tcp_healthy 2 t"
    "again = concat (map pending_packet (filter (pub_due (qe_now env)) (mq_pending c)))"
  shows "\<exists>t'. mqtt_client_loop env (Some c) timeout = Some ([], Some (c\<lparr>mq_tcp := Some t',
      mq_pending := (if drop_bit 4 b0 = 4 then mq_pending c else map (resent (qe_now env)) (mq_pending c))\<rparr>)) \<and>
    (drop_bit 4 b0 = 4 \<longrightarrow> sk_sent (sock t') = sk_sent (sock t) \<and> sk_incoming (sock t') = rest) \<and>
    (drop_bit 4 b0 \<noteq> 4 \<and> tcp_healthy (2 + (length again + n)) t \<longrightarrow>
      sk_sent (sock t') = sk_sent (sock t) @ again \<and> sk_incoming (sock t') = rest \<and> tcp_healthy n t')"
proof -
  note wf = mqtt_wfD [OF assms(2)]
  define h where "h = (if tcp_healthy (2 + (length again + n)) t then length again + n else 0)"
  have "tcp_healthy (2 + h) t" using assms(7) unfolding h_def
    by (cases "tcp_healthy (2 + (length again + n)) t") (simp_all only: if_True if_False add_0_right)
  then obtain buf t1 where l: "mqtt_client_loop env (Some c) timeout = do {
      (log, c, returned) \<leftarrow> mqtt_on_packet env (Some buf) (c\<lparr>mq_tcp := Some t1\<rparr>);
      if returned then Some (log, Some c)
      else do { (pending, c) \<leftarrow> mqtt_retry env c (mq_pending c); Some (log, Some (c\<lparr>mq_pending := pending\<rparr>)) } }"
    "buffer_rep (Some buf) [b0, b1]" "sk_incoming (sock t1) = rest" "sk_sent (sock t1) = sk_sent (sock t)" "tcp_healthy h t1"
    using loop_receives [OF assms(1,3,4,6)] by blast
  note p = on_packet_cases [OF l(2)]
  have t1: "mq_tcp (c\<lparr>mq_tcp := Some t1\<rparr>) = Some t1" by simp
  show ?thesis
  proof (cases "drop_bit 4 b0 = 4")
    case True
    then have "mqtt_client_loop env (Some c) timeout = Some ([], Some (c\<lparr>mq_tcp := Some t1, mq_pending := mq_pending c\<rparr>))"
      using l(1) p(2) by simp
    with True l(3,4) show ?thesis by (intro exI [of _ t1]) simp
  next
    case False
    note q = p(3) [OF assms(5) False]
    show ?thesis
    proof (cases "tcp_healthy (2 + (length again + n)) t")
      case True
      then obtain t2 where "mqtt_retry env (c\<lparr>mq_tcp := Some t1\<rparr>) (mq_pending c) =
          Some (map (resent (qe_now env)) (mq_pending c), c\<lparr>mq_tcp := Some t2\<rparr>)"
        "sk_sent (sock t2) = sk_sent (sock t1) @ again" "sk_incoming (sock t2) = rest" "tcp_healthy n t2"
        using retry_sends [where c = "c\<lparr>mq_tcp := Some t1\<rparr>", OF assms(1) wf(3) t1, of n] l(3,5) by (auto simp: assms(8) h_def)
      with l(1,4) q False show ?thesis by (intro exI [of _ t2]) simp
    next
      case unhealthy: False
      obtain t2 where "mqtt_retry env (c\<lparr>mq_tcp := Some t1\<rparr>) (mq_pending c) =
          Some (map (resent (qe_now env)) (mq_pending c), c\<lparr>mq_tcp := Some t2\<rparr>)"
        using retry_returns [OF assms(1) wf(3) t1] by auto
      with l(1) q False unhealthy show ?thesis by (intro exI [of _ t2]) simp
    qed
  qed
qed

section \<open>Sessions\<close>

text \<open>The calls a program makes on a client it has, with their arguments.\<close>

datatype mqtt_op =
    Set_Client_Id "byte list"
  | Set_Username "byte list"
  | Set_Password "byte list"
  | Clear_Credentials
  | Publish "byte list" buffer_t byte bool
  | Subscribe "16 word" "byte list" nat addr
  | Unsubscribe "16 word" "byte list"
  | Process int
  | Disconnect

fun mqtt_step :: "mqtt_env \<Rightarrow> mqtt_op \<Rightarrow> mqtt_client_t \<Rightarrow> mqtt_client_t option" where
  "mqtt_step env (Set_Client_Id t) c = Option.bind (mqtt_client_set_client_id env (Some c) (Some t)) snd"
| "mqtt_step env (Set_Username t) c = Option.bind (mqtt_client_set_username env (Some c) (Some t)) snd"
| "mqtt_step env (Set_Password t) c = Option.bind (mqtt_client_set_password env (Some c) (Some t)) snd"
| "mqtt_step env Clear_Credentials c = mqtt_client_clear_credentials (Some c)"
| "mqtt_step env (Publish t b qos retain) c = Option.bind (mqtt_client_publish env (Some c) (Some t) (Some b) qos retain) snd"
| "mqtt_step env (Subscribe pid t cb userdata) c =
     Option.bind (mqtt_client_subscribe env pid (Some c) (Some t) (Some cb) userdata) (\<lambda>(_, _, c'). c')"
| "mqtt_step env (Unsubscribe pid t) c = Option.bind (mqtt_client_unsubscribe env pid (Some c) (Some t)) (\<lambda>(_, _, c'). c')"
| "mqtt_step env (Process timeout) c = Option.bind (mqtt_client_loop env (Some c) timeout) snd"
| "mqtt_step env Disconnect c = Option.bind (mqtt_client_disconnect env (Some c)) snd"


























section \<open>Acknowledgements\<close>

text \<open>
  What a client can become, with any answers of the system, any calls and any number of connections.  A turn that
  reads released memory has no result; the last three rules let it go on with any flags all the same, as
  a machine may.
\<close>

inductive mqtt_reaches :: "mqtt_client_t \<Rightarrow> mqtt_client_t \<Rightarrow> bool" where
  start: "mqtt_reaches c c"
| call: "mqtt_reaches a b \<Longrightarrow> mqtt_step env op b = Some c \<Longrightarrow> mqtt_reaches a c"
| connect: "mqtt_reaches a b \<Longrightarrow> mqtt_client_connect env resolves new rc (Some b) host port tls keepalive = Some (r, Some c) \<Longrightarrow>
    mqtt_reaches a c"
| take_body: "mqtt_reaches a b \<Longrightarrow> mqtt_take_payload env n b = Some (payload, c) \<Longrightarrow> mqtt_reaches a c"
| dispatch: "mqtt_reaches a b \<Longrightarrow> mqtt_dispatch env flags p k topic_name n b = Some (log, c, returned) \<Longrightarrow> mqtt_reaches a c"
| retry: "mqtt_reaches a b \<Longrightarrow> mqtt_retry env b (mq_pending b) = Some (pending, c) \<Longrightarrow> mqtt_reaches a (c\<lparr>mq_pending := pending\<rparr>)"

abbreviation pending_ids :: "mqtt_client_t \<Rightarrow> 16 word list" where
  "pending_ids c \<equiv> map pp_packet_id (mq_pending c)"

lemma retry_ids: "mqtt_retry env c ps = Some (ps', c') \<Longrightarrow> map pp_packet_id ps' = map pp_packet_id ps"
proof (induction ps arbitrary: c ps' c')
  case (Cons p ps)
  then obtain q c1 qs where q: "mqtt_retry env c1 ps = Some (qs, c')" "ps' = q # qs" "pp_packet_id q = pp_packet_id p"
    by (auto dest!: bind_eq_SomeD split: if_splits)
  with Cons.IH [OF q(1)] show ?case by simp
qed simp

lemma take_payload_client: "mqtt_take_payload env n c = Some (r, c') \<Longrightarrow> mq_pending c' = mq_pending c"
  by (auto simp: mqtt_take_payload_def Let_def dest!: bind_eq_SomeD mqtt_receive_client split: if_splits)

lemma dispatch_client: "mqtt_dispatch env flags p k name n c = Some (log, c', returned) \<Longrightarrow> mq_pending c' = mq_pending c"
  by (auto simp: mqtt_dispatch_def dest!: bind_eq_SomeD mqtt_send_client split: if_splits)

lemma on_publish_client: "mqtt_on_publish env data n c = Some (log, c', returned) \<Longrightarrow> mq_pending c' = mq_pending c"
  by (auto simp: mqtt_on_publish_def dest!: bind_eq_SomeD take_payload_client dispatch_client split: option.splits)

text \<open>Two bytes are not enough for the branch that handles an acknowledgement.\<close>

lemma on_packet_client:
  "mqtt_on_packet env buf c = Some (log, c', returned) \<Longrightarrow> buffer_get_size buf = 2 \<Longrightarrow> mq_pending c' = mq_pending c"
  by (auto simp: mqtt_on_packet_def Let_def dest!: bind_eq_SomeD on_publish_client split: if_splits)

lemma loop_pending:
  assumes "mqtt_client_loop env (Some c) timeout = Some (log, Some c')"
  shows "pending_ids c' = pending_ids c"
proof (cases "mq_connected c")
  case False
  then show ?thesis using assms by (simp add: mqtt_client_loop_def)
next
  case True
  from assms True obtain b c1 log1 c2 returned where r: "mqtt_receive env c 2 = Some (b, c1)"
    "(if b \<noteq> None \<and> buffer_get_size b \<ge> 2 then mqtt_on_packet env b c1 else Some ([], c1, False)) = Some (log1, c2, returned)"
    "(if returned then Some (log1, Some c2) else do { (pending, c) \<leftarrow> mqtt_retry env c2 (mq_pending c2); Some (log1, Some (c\<lparr>mq_pending := pending\<rparr>)) }) = Some (log, Some c')"
    by (auto simp: mqtt_client_loop_def dest!: bind_eq_SomeD simp del: bind_eq_Some_conv)
  have "mq_pending c1 = mq_pending c" using mqtt_receive_client [OF r(1)] by auto
  moreover have "mq_pending c2 = mq_pending c1"
    using r(2) on_packet_client mqtt_receive_size r(1) by (cases b) (auto split: if_splits)
  moreover have "pending_ids c' = pending_ids c2"
    using r(3) by (auto dest!: bind_eq_SomeD retry_ids split: if_splits)
  ultimately show ?thesis by simp
qed

lemma handshake_pending: "mqtt_handshake env c = Some (r, c') \<Longrightarrow> mq_pending c' = mq_pending c"
  by (auto simp: mqtt_handshake_def Let_def dest!: bind_eq_SomeD mqtt_receive_client mqtt_send_client split: if_splits)

lemma connect_pending:
  "mqtt_client_connect env resolves new rc (Some c) host port tls keepalive = Some (r, Some c') \<Longrightarrow> mq_pending c' = mq_pending c"
  by (auto simp: mqtt_client_connect_def Let_def dest!: bind_eq_SomeD handshake_pending split: if_splits prod.splits)

lemma publish_pending:
  assumes "mqtt_client_publish env (Some c) (Some t) (Some b) qos retain = Some (r, Some c')"
  shows "\<exists>new. pending_ids c' = new @ pending_ids c"
  using assms
  by (auto simp: mqtt_client_publish_def mqtt_take_id_def Let_def dest!: bind_eq_SomeD mqtt_send_client
      split: if_splits option.splits)

lemma step_pending:
  assumes "mqtt_step env op c = Some c'"
  shows "\<exists>new. pending_ids c' = new @ pending_ids c"
proof (cases op)
  case (Publish t b qos retain)
  then show ?thesis using assms by (auto dest!: bind_eq_SomeD publish_pending)
next
  case (Process timeout)
  then show ?thesis using assms by (auto dest!: bind_eq_SomeD loop_pending)
next
  case (Subscribe pid t cb userdata)
  then show ?thesis using assms
    by (auto simp: mqtt_client_subscribe_def mqtt_add_subscription_def dest!: bind_eq_SomeD mqtt_send_client split: if_splits)
next
  case (Unsubscribe pid t)
  then show ?thesis using assms
    by (auto simp: mqtt_client_unsubscribe_def mqtt_remove_subscription_def Let_def dest!: bind_eq_SomeD mqtt_send_client split: if_splits)
next
  case Disconnect
  then show ?thesis using assms
    by (auto simp: mqtt_client_disconnect_def dest!: bind_eq_SomeD mqtt_send_client split: if_splits)
qed (use assms in \<open>auto simp: mqtt_client_set_client_id_def mqtt_client_set_username_def mqtt_client_set_password_def
    mqtt_client_clear_credentials_def dest!: bind_eq_SomeD split: if_splits\<close>)

text \<open>
  C25: no publication is ever acknowledged.  Whatever the server sends, PUBACK packets included, whatever is called, and whatever
  flags a read of released memory yields, the publications that wait for an acknowledgement are still there, in their order, behind newer ones.
\<close>

theorem mqtt_never_acknowledges:
  assumes "mqtt_reaches c c'"
  shows "\<exists>new. pending_ids c' = new @ pending_ids c"
  using assms
proof (induction rule: mqtt_reaches.induct)
  case (call a b env op c)
  with step_pending [OF call.hyps(2)] show ?case by auto
next
  case (connect a b env resolves new rc host port tls keepalive r c)
  with connect_pending [OF connect.hyps(2)] show ?case by auto
next
  case (take_body a b env n payload c)
  with take_payload_client [OF take_body.hyps(2)] show ?case by auto
next
  case (dispatch a b env flags p k topic_name n log c returned)
  with dispatch_client [OF dispatch.hyps(2)] show ?case by auto
next
  case (retry a b env pending c)
  with retry_ids [OF retry.hyps(2)] show ?case by auto
qed simp

section \<open>Connecting\<close>

lemma connect_packet_length:
  assumes "length i < 2 ^ 16" "length u < 2 ^ 16" "length p < 2 ^ 16"
  shows "length (connect_packet k i u p) < 2 ^ 31"
proof -
  have "length (if u \<noteq> [] then mqtt_field u else []) \<le> length u + 2" "length (if p \<noteq> [] then mqtt_field p else []) \<le> length p + 2"
    by simp_all
  then show ?thesis unfolding connect_packet_def using assms by (intro packet_length) (simp only: length_append length_mqtt_field length_bytes_of list.size, simp)
qed

lemma handshake:
  assumes "mqtt_env_ok env" "mq_tcp c = Some t" "string_rep ps (mq_client_id c) i" "text_rep ps (mq_username c) u"
    "text_rep ps (mq_password c) p" "length i < 2 ^ 16" "length u < 2 ^ 16" "length p < 2 ^ 16"
    "packet = connect_packet (mq_keepalive c) i u p" "tcp_healthy (length packet + (4 + n)) t"
    "sk_incoming (sock t) = a0 # a1 # a2 # a3 # rest" "success = (a0 = 0x20 \<and> a1 = 2 \<and> a3 = 0)"
  shows "\<exists>t'. mqtt_handshake env c = Some (success, c\<lparr>mq_tcp := Some t', mq_connected := success\<rparr>) \<and>
    sk_sent (sock t') = sk_sent (sock t) @ packet \<and> sk_incoming (sock t') = rest"
proof -
  obtain f where f: "mqtt_build_connect_packet env (mq_client_id c) (mq_username c) (mq_password c) (mq_keepalive c) = Some f"
    "buffer_rep f packet"
    using build_connect [OF assms(1,3-8)] assms(9) by blast
  have l: "length packet < 2 ^ 31" using connect_packet_length [OF assms(6-8)] assms(9) by simp
  obtain t1 where t1: "mqtt_send env c f = Some (True, c\<lparr>mq_tcp := Some t1\<rparr>)" "sk_sent (sock t1) = sk_sent (sock t) @ packet"
    "sk_incoming (sock t1) = sk_incoming (sock t)" "tcp_healthy (4 + n) t1"
    using mqtt_send_all [OF assms(2) f(2) l assms(10)] by blast
  have four: "length [a0, a1, a2, a3] = 4" by simp
  have h: "tcp_healthy (length [a0, a1, a2, a3] + n) t1" unfolding four by (rule t1(4))
  obtain b t2 where b: "mqtt_receive env (c\<lparr>mq_tcp := Some t1\<rparr>) 4 = Some (Some b, c\<lparr>mq_tcp := Some t2\<rparr>)"
    "buffer_rep (Some b) [a0, a1, a2, a3]" "sk_incoming (sock t2) = rest" "sk_sent (sock t2) = sk_sent (sock t1)"
    using mqtt_receive_all [where c = "c\<lparr>mq_tcp := Some t1\<rparr>" and t = t1, OF assms(1) _ _ _ h, of rest] t1(3) assms(11)
    unfolding four by auto
  obtain z where z: "buffer_get_data (Some b) = Some (a0 # a1 # a2 # a3 # replicate z 0)" using buffer_get_data_rep [OF b(2)] by auto
  have "buffer_get_size (Some b) = 4" using buffer_get_size_rep [OF b(2)] by simp
  then have "mqtt_handshake env c = Some (success, c\<lparr>mq_tcp := Some t2, mq_connected := success\<rparr>)"
    using f t1(1) b(1) z assms(12) by (auto simp: mqtt_handshake_def buffer_rep_def Let_def)
  then show ?thesis using b(3,4) t1(2) by (intro exI [of _ t2]) simp
qed

text \<open>
  Connecting.  Over an open TCP connection the client sends exactly the CONNECT packet of protocol 3.1.1 for its
  identifier, credentials and keep-alive time (cut to 16 bits), reads the four bytes of the answer and no more, and is connected
  iff they are a CONNACK that accepts.
\<close>

theorem mqtt_connect_handshakes:
  assumes "mqtt_env_ok env" "string_rep ps (mq_client_id c) i" "text_rep ps (mq_username c) u"
    "text_rep ps (mq_password c) p" "length i < 2 ^ 16" "length u < 2 ^ 16" "length p < 2 ^ 16"
    "tcp_client_create_socket resolves new (mq_tcp c) host port = Some (True, opened)"
    "tcp_client_connect_socket rc (qe_errno env) opened = (True, Some t)"
    "packet = connect_packet keepalive i u p" "tcp_healthy (length packet + (4 + n)) t"
    "sk_incoming (sock t) = a0 # a1 # a2 # a3 # rest"
  shows "\<exists>success t'. mqtt_client_connect env resolves new rc (Some c) host port tls keepalive =
      Some (success, Some (c\<lparr>mq_keepalive := keepalive, mq_tcp := Some t', mq_connected := success\<rparr>)) \<and>
    (success \<longleftrightarrow> a0 = 0x20 \<and> a1 = 2 \<and> a3 = 0) \<and> sk_sent (sock t') = sk_sent (sock t) @ packet \<and> sk_incoming (sock t') = rest"
proof -
  obtain t' where "mqtt_handshake env (c\<lparr>mq_keepalive := keepalive, mq_tcp := Some t\<rparr>) =
      Some (a0 = 0x20 \<and> a1 = 2 \<and> a3 = 0, c\<lparr>mq_keepalive := keepalive, mq_tcp := Some t', mq_connected := (a0 = 0x20 \<and> a1 = 2 \<and> a3 = 0)\<rparr>)"
    "sk_sent (sock t') = sk_sent (sock t) @ packet" "sk_incoming (sock t') = rest"
    using handshake [where c = "c\<lparr>mq_keepalive := keepalive, mq_tcp := Some t\<rparr>" and ps = ps and t = t and packet = packet and n = n,
        OF assms(1) _ _ _ _ assms(5-7) _ assms(11,12) refl] assms(2-4,10) by auto
  with assms(8,9) show ?thesis
    by (intro exI [of _ "a0 = 0x20 \<and> a1 = 2 \<and> a3 = 0"] exI [of _ t']) (simp add: mqtt_client_connect_def tcp_client_switch_to_tls_def)
qed

section \<open>Examples\<close>

definition test_mqtt_env :: mqtt_env where
  "test_mqtt_env = \<lparr>qe_page = 8, qe_str_page = 8, qe_malloc = True, qe_buf1 = True, qe_buf2 = True, qe_recv = True,
     qe_str1 = True, qe_str2 = True, qe_pay1 = True, qe_pay2 = True, qe_strdup = True, qe_calloc = True, qe_errno = 0, qe_now = 100\<rparr>"

definition test_string :: "byte list \<Rightarrow> string_t option" where
  "test_string s = Some \<lparr>st_data = Some (s @ replicate (8 - length s) 0), st_data_size = length s, st_memory_size = 8\<rparr>"

definition test_pending :: mqtt_pending_pub_t where
  "test_pending = \<lparr>pp_packet_id = 1, pp_payload = Some \<lparr>bf_data = Some [1, 2, 3], bf_data_size = 3, bf_memory_size = 3\<rparr>,
     pp_topic = Some ([97] @ [0]), pp_last_sent = 90\<rparr>"

definition test_mqtt :: "tcp_client_t \<Rightarrow> mqtt_client_t" where
  "test_mqtt t = \<lparr>mq_client_id = test_string [99, 49], mq_username = None, mq_password = None, mq_tcp = Some t, mq_keepalive = 60,
     mq_connected = True, mq_subscriptions = [\<lparr>sb_topic = test_string [97], sb_callback = 7, sb_userdata = 0\<rparr>],
     mq_next_packet_id = 2, mq_pending = [test_pending]\<rparr>"

lemma test_mqtt_env_ok: "mqtt_env_ok test_mqtt_env"
  by (simp add: mqtt_env_ok_def test_mqtt_env_def LONG_MAX_def SIZE_MAX_def)

lemma test_string_rep: "length s < 8 \<Longrightarrow> 0 \<notin> set s \<Longrightarrow> string_rep 8 (test_string s) s"
  unfolding test_string_def by (rule string_repI [where n = "8 - length s"]) (simp_all add: SIZE_MAX_def)

lemma test_pending_rep: "pending_rep test_pending [97] [1, 2, 3]"
  using three_bytes by (simp add: pending_rep_def test_pending_def)

lemma test_mqtt_wf: "mqtt_wf 8 (test_mqtt t)"
  using test_string_rep [of "[97]"] test_string_rep [of "[99, 49]"] test_pending_rep
  by (auto simp: mqtt_wf_def test_mqtt_def text_rep_def topic_rep_def intro: exI [of _ "[]"] exI [of _ "[97]"] exI [of _ "[99, 49]"])

definition ready :: "nat \<Rightarrow> byte list \<Rightarrow> tcp_client_t" where
  "ready n bs = test_client (replicate n 1) (replicate n 1) bs"

lemma ready_healthy: "n \<le> m \<Longrightarrow> tcp_healthy n (ready m bs)"
  by (simp add: tcp_healthy_def ready_def test_client_def)

lemma ready_incoming: "sk_incoming (sock (ready m bs)) = bs" "sk_sent (sock (ready m bs)) = []"
  by (simp_all add: ready_def test_client_def)

lemma puback_turn:
  assumes "mqtt_env_ok env" "mq_connected c" "mq_tcp c = Some t" "sk_incoming (sock t) = 0x40 # b1 # rest" "tcp_healthy (2 + n) t"
  shows "\<exists>t'. mqtt_client_loop env (Some c) timeout = Some ([], Some (c\<lparr>mq_tcp := Some t'\<rparr>)) \<and> sk_incoming (sock t') = rest"
proof -
  obtain buf t1 where l: "mqtt_client_loop env (Some c) timeout = do {
      (log, c, returned) \<leftarrow> mqtt_on_packet env (Some buf) (c\<lparr>mq_tcp := Some t1\<rparr>);
      if returned then Some (log, Some c)
      else do { (pending, c) \<leftarrow> mqtt_retry env c (mq_pending c); Some (log, Some (c\<lparr>mq_pending := pending\<rparr>)) } }"
    "buffer_rep (Some buf) [0x40, b1]" "sk_incoming (sock t1) = rest"
    using loop_receives [OF assms] by blast
  have "drop_bit 4 (0x40 :: byte) = 4" by simp
  from on_packet_cases(2) [OF l(2) this] l(1,3) show ?thesis by (intro exI [of _ t1]) simp
qed

definition test_message :: "buffer_t option" where
  "test_message = Some \<lparr>bf_data = Some [1, 2, 3], bf_data_size = 3, bf_memory_size = 3\<rparr>"

lemma test_mqtt_fields [simp]:
  "mq_connected (test_mqtt t)" "mq_tcp (test_mqtt t) = Some t" "mq_next_packet_id (test_mqtt t) = 2" "mq_pending (test_mqtt t) = [test_pending]"
  "mq_subscriptions (test_mqtt t) = [\<lparr>sb_topic = test_string [97], sb_callback = 7, sb_userdata = 0\<rparr>]"
  by (simp_all add: test_mqtt_def)

lemma topic_a: "c_string [97, 0] = Some [97]"
  using c_string_exact [of "[97]" "[]"] by simp

theorem mqtt_publish_sends_witness:
  "\<exists>r c'. mqtt_client_publish test_mqtt_env (Some (test_mqtt (ready 99 []))) (Some [97, 0]) test_message 1 False = Some (r, Some c') \<and>
     mq_next_packet_id c' = 3"
proof -
  have "buffer_rep test_message [1, 2, 3]" using three_bytes by (simp add: test_message_def)
  from mqtt_publish_sends [OF test_mqtt_env_ok _ _ topic_a _ this, of "test_mqtt (ready 99 [])" "ready 99 []" 1 False]
  show ?thesis by (auto simp: next_id_def)
qed

lemma test_pending_again:
  "pub_due (qe_now test_mqtt_env) test_pending" "pending_packet test_pending = publish_packet 1 1 [97] [1, 2, 3]"
  using pending_packet_rep [OF test_pending_rep] by (simp_all add: pub_due_def test_mqtt_env_def test_pending_def)

lemma test_packet: "length (publish_packet 1 1 [97] [1, 2, 3]) = 10"
  by (simp add: publish_packet_def mqtt_packet_def remaining_bytes_small)


theorem mqtt_publish_reads_released_witness:
  "mqtt_client_loop test_mqtt_env (Some (test_mqtt (ready 99 [0x30, 4, 0, 1, 97, 104]))) 0 = None"
proof -
  have body: "[0, 1, 97, 104] = mqtt_field [97] @ [104]" by (simp add: mqtt_field_def hi_byte_def lo_byte_def)
  show ?thesis
    by (rule mqtt_publish_reads_released [OF test_mqtt_env_ok _ _ _ body, where t = "ready 99 [0x30, 4, 0, 1, 97, 104]" and rest = "[]"])
      (simp_all add: ready_incoming ready_healthy)
qed

theorem mqtt_loop_retries_witness:
  "\<exists>c' t'. mqtt_client_loop test_mqtt_env (Some (test_mqtt (ready 99 [0xD0, 0]))) 0 = Some ([], Some c') \<and>
     mq_tcp c' = Some t' \<and> sk_sent (sock t') = publish_packet 1 1 [97] [1, 2, 3]"
proof -
  let ?t = "ready 99 [0xD0, 0]"
  have h: "tcp_healthy 2 ?t" by (rule ready_healthy) simp
  from mqtt_loop_retries [OF test_mqtt_env_ok test_mqtt_wf _ _ _ _ h refl, of ?t "0xD0" 0 "[]" 0 0]
  obtain t' where "mqtt_client_loop test_mqtt_env (Some (test_mqtt ?t)) 0 =
      Some ([], Some ((test_mqtt ?t)\<lparr>mq_tcp := Some t', mq_pending := map (resent (qe_now test_mqtt_env)) [test_pending]\<rparr>))"
    "sk_sent (sock t') = publish_packet 1 1 [97] [1, 2, 3]"
    by (auto simp: ready_incoming test_pending_again test_packet ready_healthy)
  then show ?thesis by auto
qed


theorem mqtt_never_acknowledges_witness:
  "\<exists>c' new. mqtt_step test_mqtt_env (Process 0) (test_mqtt (ready 9 [0x40, 2, 0, 1])) = Some c' \<and> pending_ids c' = new @ [1]"
proof -
  let ?t = "ready 9 [0x40, 2, 0, 1]"
  obtain t' where "mqtt_client_loop test_mqtt_env (Some (test_mqtt ?t)) 0 = Some ([], Some ((test_mqtt ?t)\<lparr>mq_tcp := Some t'\<rparr>))"
    using puback_turn [OF test_mqtt_env_ok, of "test_mqtt ?t" ?t 2 "[0, 1]" 0 0]
    by (auto simp: ready_incoming ready_healthy)
  then have s: "mqtt_step test_mqtt_env (Process 0) (test_mqtt ?t) = Some ((test_mqtt ?t)\<lparr>mq_tcp := Some t'\<rparr>)" by simp
  obtain new where "pending_ids ((test_mqtt ?t)\<lparr>mq_tcp := Some t'\<rparr>) = new @ pending_ids (test_mqtt ?t)"
    using mqtt_never_acknowledges [OF mqtt_reaches.call [OF mqtt_reaches.start s]] by blast
  with s show ?thesis by (intro exI [of _ "(test_mqtt ?t)\<lparr>mq_tcp := Some t'\<rparr>"]) (auto simp: test_pending_def)
qed

theorem mqtt_connect_handshakes_witness:
  "\<exists>success c'. mqtt_client_connect test_mqtt_env (\<lambda>_. True) (Some (sock (ready 99 [0x20, 2, 0, 5]))) 0
       (Some ((test_mqtt (ready 9 []))\<lparr>mq_tcp := Some ((ready 9 [])\<lparr>connected := False\<rparr>)\<rparr>)) [104, 0] 1883 False 30 = Some (success, Some c') \<and>
     \<not> success"
proof -
  let ?t0 = "(ready 9 [])\<lparr>connected := False\<rparr>" and ?s = "sock (ready 99 [0x20, 2, 0, 5])"
  let ?c = "(test_mqtt (ready 9 []))\<lparr>mq_tcp := Some ?t0\<rparr>"
  have "\<exists>t1. tcp_client_create_socket (\<lambda>_. True) (Some ?s) (Some ?t0) [104, 0] 1883 = Some (True, Some t1) \<and> sock t1 = ?s \<and> \<not> connected t1"
    by (simp add: tcp_client_create_socket_def str_ncpy_def tcp_client_internal_is_ip4_address_def c_string_def ready_def test_client_def)
  then obtain t1 where t1: "tcp_client_create_socket (\<lambda>_. True) (Some ?s) (mq_tcp ?c) [104, 0] 1883 = Some (True, Some t1)" "sock t1 = ?s" "\<not> connected t1"
    by auto
  then have t2: "tcp_client_connect_socket 0 (qe_errno test_mqtt_env) (Some t1) = (True, Some (t1\<lparr>connected := True\<rparr>))"
    by (simp add: tcp_client_connect_socket_def)
  have p: "length (connect_packet 30 [99, 49] [] []) = 16"
    by (simp add: connect_packet_def mqtt_packet_def remaining_bytes_small)
  have h: "tcp_healthy (length (connect_packet 30 [99, 49] [] []) + (4 + 0)) (t1\<lparr>connected := True\<rparr>)"
    unfolding p using ready_healthy [of 20 99 "[0x20, 2, 0, 5]"] by (simp add: tcp_healthy_def t1(2))
  have id: "string_rep 8 (mq_client_id ?c) [99, 49]" "text_rep 8 (mq_username ?c) []" "text_rep 8 (mq_password ?c) []"
    using test_string_rep [of "[99, 49]"] by (simp_all add: test_mqtt_def text_rep_def)
  from mqtt_connect_handshakes [OF test_mqtt_env_ok id _ _ _ t1(1) t2 refl h, of "0x20" 2 0 5 "[]" False]
  show ?thesis by (auto simp: t1(2) ready_incoming)
qed

end
