(* ===== verification/Json.thy ===== *)
theory Json
  imports CPrelude
begin

text \<open>
  The JSON parser of \<open>core/src/json.c\<close>: tokens, the recursive descent parser, the document tree and its
  navigation.  A pointer into the text is the rest of the block it points into, so that reading at the
  end of the block is undefined; a subtree, which has one owner, is a value of a datatype; a pointer to a node
  of a document is the path to it.

  Memory is a plan that answers each \<open>malloc\<close>, the number of calls made and the number of live blocks.  The
  five functions of the parser that call each other carry fuel, the nesting of their calls: a theorem says
  how much is enough.  The depth of the C stack is not limited.
\<close>

section \<open>Memory\<close>

record json_mem =
  jm_plan :: "nat \<Rightarrow> bool"
  jm_calls :: nat
  jm_live :: int

definition xmalloc :: "json_mem \<Rightarrow> bool \<times> json_mem" where
  "xmalloc m =
     (let ok = jm_plan m (jm_calls m)
      in (ok, m\<lparr>jm_calls := jm_calls m + 1, jm_live := jm_live m + (if ok then 1 else 0)\<rparr>))"

definition xfree_ptr :: "'a option \<Rightarrow> json_mem \<Rightarrow> json_mem" where
  "xfree_ptr p m = (if p = None then m else m\<lparr>jm_live := jm_live m - 1\<rparr>)"

text \<open>A text is the bytes that were written to its block, the terminator included.\<close>

definition xstrdup :: "byte list option \<Rightarrow> json_mem \<Rightarrow> (byte list option \<times> json_mem) option" where
  "xstrdup s m =
     (case s of
        None \<Rightarrow> Some (None, m)
      | Some d \<Rightarrow> do {
          t \<leftarrow> c_string d;
          case xmalloc m of (ok, m) \<Rightarrow> Some (if ok then Some (t @ [0]) else None, m) })"

section \<open>Nodes\<close>

datatype json_node_type_t = JSON_NODE_DOCUMENT | JSON_NODE_OBJECT | JSON_NODE_ARRAY | JSON_NODE_STRING
  | JSON_NODE_NUMBER | JSON_NODE_BOOLEAN | JSON_NODE_NULL

datatype json_node_t = Json_Node (jn_type: json_node_type_t) (jn_name: "byte list option") (jn_text: "byte list option")
  (jn_children: "json_node_t list")

fun set_name :: "byte list option \<Rightarrow> json_node_t \<Rightarrow> json_node_t" where
  "set_name name (Json_Node ty _ tx cs) = Json_Node ty name tx cs"

fun set_text :: "byte list option \<Rightarrow> json_node_t \<Rightarrow> json_node_t" where
  "set_text txt (Json_Node ty nm _ cs) = Json_Node ty nm txt cs"

definition node_new :: "json_node_type_t \<Rightarrow> json_mem \<Rightarrow> json_node_t option \<times> json_mem" where
  "node_new ty m = (case xmalloc m of (ok, m) \<Rightarrow> (if ok then Some (Json_Node ty None None []) else None, m))"

text \<open>The parent's tree afterwards; the pointers to the parent and to the next sibling are the place in it.\<close>

fun node_append_child :: "json_node_t \<Rightarrow> json_node_t \<Rightarrow> json_node_t" where
  "node_append_child (Json_Node ty nm tx cs) child = Json_Node ty nm tx (cs @ [child])"

fun node_free_recursive :: "json_node_t \<Rightarrow> json_mem \<Rightarrow> json_mem" where
  "node_free_recursive (Json_Node ty nm tx cs) m =
     xfree_ptr (Some ()) (xfree_ptr tx (xfree_ptr nm (foldl (\<lambda>m c. node_free_recursive c m) m cs)))"

section \<open>Tokens\<close>

definition deref :: "byte list \<Rightarrow> byte option" where
  "deref s = (case s of [] \<Rightarrow> None | c # _ \<Rightarrow> Some c)"

fun skip_ws :: "byte list \<Rightarrow> byte list option" where
  "skip_ws [] = None"
| "skip_ws (c # s) = (if c \<noteq> 0 \<and> c \<le> 32 then skip_ws s else Some (c # s))"

definition is_digit :: "byte \<Rightarrow> bool" where
  "is_digit c = (48 \<le> c \<and> c \<le> 57)"

definition hex_digit :: "byte \<Rightarrow> nat option" where
  "hex_digit ch =
     (if 48 \<le> ch \<and> ch \<le> 57 then Some (unat ch - 48)
      else if 97 \<le> ch \<and> ch \<le> 102 then Some (10 + (unat ch - 97))
      else if 65 \<le> ch \<and> ch \<le> 70 then Some (10 + (unat ch - 65))
      else None)"

text \<open>
  Four hexadecimal digits from position \<open>i\<close> on, read until one is wrong: \<open>Some None\<close>.  The digits occupy
  disjoint bits of \<open>code\<close>, so \<open>|=\<close> is an addition.
\<close>

fun hex_code :: "byte list \<Rightarrow> nat \<Rightarrow> nat \<Rightarrow> nat \<Rightarrow> nat option option" where
  "hex_code start i 0 code = Some (Some code)"
| "hex_code start i (Suc k) code = do {
     ch \<leftarrow> mem_read start i;
     case hex_digit ch of None \<Rightarrow> Some None | Some d \<Rightarrow> hex_code start (i + 1) k (code * 16 + d) }"

text \<open>The bytes of a code of at most 16 bits.\<close>

definition utf8_bytes :: "nat \<Rightarrow> byte list" where
  "utf8_bytes code =
     (let c = (of_nat code :: 32 word)
      in if code \<le> 0x7F then [ucast c]
         else if code \<le> 0x7FF then [ucast (0xC0 OR (drop_bit 6 c AND 0x1F)), ucast (0x80 OR (c AND 0x3F))]
         else [ucast (0xE0 OR (drop_bit 12 c AND 0x0F)), ucast (0x80 OR (drop_bit 6 c AND 0x3F)), ucast (0x80 OR (c AND 0x3F))])"

definition simple_escape :: "byte \<Rightarrow> byte" where
  "simple_escape e =
     (if e = 98 then 8 else if e = 102 then 12 else if e = 110 then 10 else if e = 114 then 13 else if e = 116 then 9 else e)"

text \<open>Writing behind what the block of \<open>cap\<close> bytes holds already.\<close>

definition put_out :: "nat \<Rightarrow> byte list \<Rightarrow> byte list \<Rightarrow> byte list option" where
  "put_out cap out bs = (if length out + length bs \<le> cap then Some (out @ bs) else None)"

function unescape_loop :: "byte list \<Rightarrow> nat \<Rightarrow> nat \<Rightarrow> byte list \<Rightarrow> byte list option" where
  "unescape_loop start len i out =
     (if i < len
      then (case mem_read start i of
              None \<Rightarrow> None
            | Some c \<Rightarrow>
              if c = 92 \<and> i + 1 < len
              then (case mem_read start (i + 1) of
                      None \<Rightarrow> None
                    | Some e \<Rightarrow>
                      if e = 117
                      then if i + 5 < len
                        then (case hex_code start (i + 2) 4 0 of
                                None \<Rightarrow> None
                              | Some None \<Rightarrow> unescape_loop start len (i + 1) out
                              | Some (Some code) \<Rightarrow>
                                  (case put_out (len + 1) out (utf8_bytes code) of
                                     None \<Rightarrow> None
                                   | Some out' \<Rightarrow> unescape_loop start len (i + 6) out'))
                        else unescape_loop start len (i + 1) out
                      else (case put_out (len + 1) out [simple_escape e] of
                              None \<Rightarrow> None
                            | Some out' \<Rightarrow> unescape_loop start len (i + 2) out'))
              else (case put_out (len + 1) out [c] of
                      None \<Rightarrow> None
                    | Some out' \<Rightarrow> unescape_loop start len (i + 1) out'))
      else put_out (len + 1) out [0])"
  by pat_completeness auto
termination by (relation "measure (\<lambda>(s, n, i, out). n - i)") auto

declare unescape_loop.simps [simp del]

definition unescape_json_string :: "byte list \<Rightarrow> nat \<Rightarrow> json_mem \<Rightarrow> (byte list option \<times> json_mem) option" where
  "unescape_json_string start len m =
     (case xmalloc m of (ok, m) \<Rightarrow>
        if \<not> ok then Some (None, m)
        else do { out \<leftarrow> unescape_loop start len 0 []; Some (Some out, m) })"

text \<open>The scan of a string literal stops at the closing quote or at the end of the text.\<close>

fun string_scan :: "byte list \<Rightarrow> byte list option" where
  "string_scan [] = None"
| "string_scan (c # s) =
     (if c = 0 \<or> c = 34 then Some (c # s)
      else if c = 92 then (case s of [] \<Rightarrow> None | d # s' \<Rightarrow> if d \<noteq> 0 then string_scan s' else string_scan s)
      else string_scan s)"

text \<open>The functions that consume input return the pointer they leave in \<open>*p\<close>.\<close>

definition parse_string_literal :: "byte list \<Rightarrow> json_mem \<Rightarrow> (byte list option \<times> byte list \<times> json_mem) option" where
  "parse_string_literal p m = do {
     c \<leftarrow> deref p;
     if c \<noteq> 34 then Some (None, p, m)
     else do {
       let start = tl p;
       s \<leftarrow> string_scan start;
       q \<leftarrow> deref s;
       if q \<noteq> 34 then Some (None, p, m)
       else do {
         (res, m) \<leftarrow> unescape_json_string start (length start - length s) m;
         Some (res, tl s, m) } } }"

fun skip_digits :: "byte list \<Rightarrow> byte list option" where
  "skip_digits [] = None"
| "skip_digits (c # s) = (if is_digit c then skip_digits s else Some (c # s))"

text \<open>One digit or more; \<open>Some None\<close> when there is none.\<close>

definition some_digits :: "byte list \<Rightarrow> byte list option option" where
  "some_digits s = do {
     c \<leftarrow> deref s;
     if is_digit c then do { s \<leftarrow> skip_digits s; Some (Some s) } else Some None }"

text \<open>The parts of a number, each leaving the pointer behind it; \<open>Some None\<close> when a digit is missing.\<close>

definition sign_end :: "byte list \<Rightarrow> byte list option" where
  "sign_end s = do { c \<leftarrow> deref s; Some (if c = 45 then tl s else s) }"

definition whole_end :: "byte list \<Rightarrow> byte list option option" where
  "whole_end s = do { c \<leftarrow> deref s; if c = 48 then Some (Some (tl s)) else some_digits s }"

definition fraction_end :: "byte list \<Rightarrow> byte list option option" where
  "fraction_end s = do { c \<leftarrow> deref s; if c = 46 then some_digits (tl s) else Some (Some s) }"

definition exponent_end :: "byte list \<Rightarrow> byte list option option" where
  "exponent_end s = do {
     c \<leftarrow> deref s;
     if c = 101 \<or> c = 69
     then do {
       g \<leftarrow> deref (tl s);
       some_digits (if g = 43 \<or> g = 45 then tl (tl s) else tl s) }
     else Some (Some s) }"

text \<open>The end of the number that begins at \<open>s\<close>; \<open>Some None\<close> when there is no number.\<close>

definition number_end :: "byte list \<Rightarrow> byte list option option" where
  "number_end s = do {
     s \<leftarrow> sign_end s;
     whole \<leftarrow> whole_end s;
     case whole of
       None \<Rightarrow> Some None
     | Some s \<Rightarrow> do {
         fraction \<leftarrow> fraction_end s;
         case fraction of None \<Rightarrow> Some None | Some s \<Rightarrow> exponent_end s } }"

definition parse_number_literal :: "byte list \<Rightarrow> json_mem \<Rightarrow> (byte list option \<times> byte list \<times> json_mem) option" where
  "parse_number_literal p m = do {
     e \<leftarrow> number_end p;
     case e of
       None \<Rightarrow> Some (None, p, m)
     | Some s \<Rightarrow>
         (case xmalloc m of (ok, m) \<Rightarrow>
            if \<not> ok then Some (None, p, m)
            else Some (Some (take (length p - length s) p @ [0]), s, m)) }"

text \<open>\<open>strncmp(s, lit, strlen(lit)) == 0\<close>.\<close>

fun starts_with :: "byte list \<Rightarrow> byte list \<Rightarrow> bool option" where
  "starts_with s [] = Some True"
| "starts_with [] (y # ys) = None"
| "starts_with (x # xs) (y # ys) = (if x \<noteq> y then Some False else starts_with xs ys)"

definition parse_literal_text :: "byte list \<Rightarrow> byte list \<Rightarrow> json_mem \<Rightarrow> (byte list option \<times> byte list \<times> json_mem) option" where
  "parse_literal_text p lit m = do {
     t \<leftarrow> c_string lit;
     yes \<leftarrow> starts_with p t;
     if yes then do { (d, m) \<leftarrow> xstrdup (Some lit) m; Some (d, drop (length t) p, m) }
     else Some (None, p, m) }"

section \<open>The parser\<close>

type_synonym json_result = "(json_node_t option \<times> byte list \<times> json_mem) option"

text \<open>A node for a text that was read; without memory the text is released.\<close>

definition scalar_node :: "json_node_type_t \<Rightarrow> byte list option \<Rightarrow> byte list \<Rightarrow> json_mem \<Rightarrow> json_result" where
  "scalar_node ty str p m =
     (case str of
        None \<Rightarrow> Some (None, p, m)
      | Some _ \<Rightarrow>
          (case node_new ty m of
             (None, m) \<Rightarrow> Some (None, p, xfree_ptr str m)
           | (Some n, m) \<Rightarrow> Some (Some (set_text str n), p, m)))"

text \<open>A node for \<open>true\<close>, \<open>false\<close> or \<open>null\<close>.\<close>

definition literal_node :: "json_node_type_t \<Rightarrow> byte list \<Rightarrow> byte list \<Rightarrow> json_mem \<Rightarrow> json_result" where
  "literal_node ty lit p m =
     (case node_new ty m of
        (None, m) \<Rightarrow> Some (None, p, m)
      | (Some n, m) \<Rightarrow> do {
          (t, m) \<leftarrow> xstrdup (Some (lit @ [0])) m;
          if t = None then Some (None, p, node_free_recursive n m) else Some (Some (set_text t n), p, m) })"

abbreviation "true_text \<equiv> bytes_of ''true''"
abbreviation "false_text \<equiv> bytes_of ''false''"
abbreviation "null_text \<equiv> bytes_of ''null''"

text \<open>
  \<open>pv\<close> is \<open>parse_value\<close> for what is nested, \<open>f\<close> bounds the rounds of the loop.  A failure leaves \<open>*p\<close> where it was.
\<close>

primrec array_loop ::
  "(byte list \<Rightarrow> json_mem \<Rightarrow> json_result) \<Rightarrow> nat \<Rightarrow> byte list \<Rightarrow> json_node_t \<Rightarrow> json_mem \<Rightarrow> json_result" where
  "array_loop pv 0 s arr m = None"
| "array_loop pv (Suc f) s arr m = do {
     s \<leftarrow> skip_ws s;
     (elem, s, m) \<leftarrow> pv s m;
     case elem of
       None \<Rightarrow> Some (None, s, node_free_recursive arr m)
     | Some e \<Rightarrow> do {
         let arr = node_append_child arr e;
         s \<leftarrow> skip_ws s;
         c \<leftarrow> deref s;
         if c = 44 then array_loop pv f (tl s) arr m
         else if c = 93 then Some (Some arr, tl s, m)
         else Some (None, s, node_free_recursive arr m) } }"

definition parse_array :: "(byte list \<Rightarrow> json_mem \<Rightarrow> json_result) \<Rightarrow> nat \<Rightarrow> byte list \<Rightarrow> json_mem \<Rightarrow> json_result" where
  "parse_array pv f p m = do {
     c \<leftarrow> deref p;
     if c \<noteq> 91 then Some (None, p, m)
     else do {
       s \<leftarrow> skip_ws (tl p);
       case node_new JSON_NODE_ARRAY m of
         (None, m) \<Rightarrow> Some (None, p, m)
       | (Some arr, m) \<Rightarrow> do {
           c \<leftarrow> deref s;
           if c = 93 then Some (Some arr, tl s, m)
           else do {
             (r, s, m) \<leftarrow> array_loop pv f s arr m;
             Some (r, if r = None then p else s, m) } } } }"

primrec object_loop ::
  "(byte list \<Rightarrow> json_mem \<Rightarrow> json_result) \<Rightarrow> nat \<Rightarrow> byte list \<Rightarrow> json_node_t \<Rightarrow> json_mem \<Rightarrow> json_result" where
  "object_loop pv 0 s obj m = None"
| "object_loop pv (Suc f) s obj m = do {
     s \<leftarrow> skip_ws s;
     c \<leftarrow> deref s;
     if c \<noteq> 34 then Some (None, s, node_free_recursive obj m)
     else do {
       (key, s, m) \<leftarrow> parse_string_literal s m;
       s \<leftarrow> skip_ws s;
       c \<leftarrow> deref s;
       if c \<noteq> 58 then Some (None, s, node_free_recursive obj (xfree_ptr key m))
       else do {
         s \<leftarrow> skip_ws (tl s);
         (val, s, m) \<leftarrow> pv s m;
         case val of
           None \<Rightarrow> Some (None, s, node_free_recursive obj (xfree_ptr key m))
         | Some v \<Rightarrow> do {
             let obj = node_append_child obj (set_name key v);
             s \<leftarrow> skip_ws s;
             c \<leftarrow> deref s;
             if c = 44 then object_loop pv f (tl s) obj m
             else if c = 125 then Some (Some obj, tl s, m)
             else Some (None, s, node_free_recursive obj m) } } } }"

definition parse_object :: "(byte list \<Rightarrow> json_mem \<Rightarrow> json_result) \<Rightarrow> nat \<Rightarrow> byte list \<Rightarrow> json_mem \<Rightarrow> json_result" where
  "parse_object pv f p m = do {
     c \<leftarrow> deref p;
     if c \<noteq> 123 then Some (None, p, m)
     else do {
       s \<leftarrow> skip_ws (tl p);
       case node_new JSON_NODE_OBJECT m of
         (None, m) \<Rightarrow> Some (None, p, m)
       | (Some obj, m) \<Rightarrow> do {
           c \<leftarrow> deref s;
           if c = 125 then Some (Some obj, tl s, m)
           else do {
             (r, s, m) \<leftarrow> object_loop pv f s obj m;
             Some (r, if r = None then p else s, m) } } } }"

primrec parse_value :: "nat \<Rightarrow> byte list \<Rightarrow> json_mem \<Rightarrow> json_result" where
  "parse_value 0 p m = None"
| "parse_value (Suc f) p m = do {
     s \<leftarrow> skip_ws p;
     c \<leftarrow> deref s;
     if c = 0 then Some (None, s, m)
     else if c = 123 then parse_object (parse_value f) f s m
     else if c = 91 then parse_array (parse_value f) f s m
     else if c = 34 then do {
       (str, s, m) \<leftarrow> parse_string_literal s m;
       scalar_node JSON_NODE_STRING str s m }
     else if c = 45 \<or> is_digit c then do {
       (num, s, m) \<leftarrow> parse_number_literal s m;
       scalar_node JSON_NODE_NUMBER num s m }
     else do {
       is_true \<leftarrow> starts_with s true_text;
       if is_true then literal_node JSON_NODE_BOOLEAN true_text (drop 4 s) m
       else do {
         is_false \<leftarrow> starts_with s false_text;
         if is_false then literal_node JSON_NODE_BOOLEAN false_text (drop 5 s) m
         else do {
           is_null \<leftarrow> starts_with s null_text;
           if is_null then literal_node JSON_NODE_NULL null_text (drop 4 s) m
           else Some (None, s, m) } } } }"

text \<open>Enough for any text that is left: a nested value or a further round for each byte.\<close>

definition json_fuel :: "byte list \<Rightarrow> nat" where
  "json_fuel s = length s + 1"

text \<open>A document is its root; \<open>json_parse_string\<close> returns the root's tree.\<close>

definition json_parse_string :: "json_mem \<Rightarrow> byte list option \<Rightarrow> (json_node_t option \<times> json_mem) option" where
  "json_parse_string m input =
     (case input of
        None \<Rightarrow> Some (None, m)
      | Some p \<Rightarrow> do {
          p \<leftarrow> skip_ws p;
          (rootval, p, m) \<leftarrow> parse_value (json_fuel p) p m;
          case rootval of
            None \<Rightarrow> Some (None, m)
          | Some v \<Rightarrow> do {
              p \<leftarrow> skip_ws p;
              c \<leftarrow> deref p;
              if c \<noteq> 0 then Some (None, node_free_recursive v m)
              else (case xmalloc m of (ok, m) \<Rightarrow>
                if \<not> ok then Some (None, node_free_recursive v m)
                else (case node_new JSON_NODE_DOCUMENT m of
                        (None, m) \<Rightarrow> Some (None, xfree_ptr (Some ()) (node_free_recursive v m))
                      | (Some docroot, m) \<Rightarrow> Some (Some (node_append_child docroot v), m))) } })"

definition json_free_document :: "json_node_t option \<Rightarrow> json_mem \<Rightarrow> json_mem" where
  "json_free_document doc m = (case doc of None \<Rightarrow> m | Some root \<Rightarrow> xfree_ptr (Some ()) (node_free_recursive root m))"

text \<open>
  \<open>file\<close> is what the file holds, or \<open>None\<close> when it cannot be opened; \<open>seeks\<close> and \<open>sz\<close> answer \<open>fseek\<close> and \<open>ftell\<close>.
\<close>

definition json_load_file :: "json_mem \<Rightarrow> byte list option \<Rightarrow> bool \<Rightarrow> int \<Rightarrow> bool \<Rightarrow> (json_node_t option \<times> json_mem) option" where
  "json_load_file m file seeks sz path =
     (if \<not> path then Some (None, m)
      else (case file of
        None \<Rightarrow> Some (None, m)
      | Some contents \<Rightarrow>
        if \<not> seeks \<or> sz < 0 \<or> sz > int SIZE_MAX - 1 then Some (None, m)
        else (case xmalloc m of (ok, m) \<Rightarrow>
          if \<not> ok then Some (None, m)
          else let buf = take (nat sz) contents
            in if length buf \<noteq> nat sz then Some (None, xfree_ptr (Some buf) m)
               else do {
                 (doc, m) \<leftarrow> json_parse_string m (Some (buf @ [0]));
                 Some (doc, xfree_ptr (Some buf) m) })))"

section \<open>Navigation\<close>

text \<open>A pointer to a node of a document: the positions on the way from the root.\<close>

type_synonym json_ptr = "nat list option"

fun node_at :: "json_node_t \<Rightarrow> nat list \<Rightarrow> json_node_t option" where
  "node_at n [] = Some n"
| "node_at n (i # p) = (if i < length (jn_children n) then node_at (jn_children n ! i) p else None)"

text \<open>The first of some siblings with a name, the first one at position \<open>i\<close>.\<close>

fun find_named :: "json_node_t list \<Rightarrow> byte list \<Rightarrow> nat \<Rightarrow> nat option option" where
  "find_named [] name i = Some None"
| "find_named (c # cs) name i =
     (case jn_name c of
        None \<Rightarrow> find_named cs name (i + 1)
      | Some k \<Rightarrow> do {
          same \<leftarrow> str_equal k name;
          if same then Some (Some i) else find_named cs name (i + 1) })"

definition json_node_first_child_element :: "json_node_t \<Rightarrow> json_ptr \<Rightarrow> byte list option \<Rightarrow> json_ptr option" where
  "json_node_first_child_element root node name =
     (case node of
        None \<Rightarrow> Some None
      | Some p \<Rightarrow> do {
          n \<leftarrow> node_at root p;
          case name of
            None \<Rightarrow> Some (if jn_children n = [] then None else Some (p @ [0]))
          | Some nm \<Rightarrow> do { r \<leftarrow> find_named (jn_children n) nm 0; Some (map_option (\<lambda>i. p @ [i]) r) } })"

definition json_node_parent :: "json_ptr \<Rightarrow> json_ptr" where
  "json_node_parent node = (case node of None \<Rightarrow> None | Some p \<Rightarrow> if p = [] then None else Some (butlast p))"

definition json_node_next_sibling_element :: "json_node_t \<Rightarrow> json_ptr \<Rightarrow> byte list option \<Rightarrow> json_ptr option" where
  "json_node_next_sibling_element root node name =
     (case node of
        None \<Rightarrow> Some None
      | Some p \<Rightarrow> do {
          _ \<leftarrow> node_at root p;
          if p = [] then Some None
          else do {
            up \<leftarrow> node_at root (butlast p);
            let i = last p + 1;
            case name of
              None \<Rightarrow> Some (if i < length (jn_children up) then Some (butlast p @ [i]) else None)
            | Some nm \<Rightarrow> do {
                r \<leftarrow> find_named (drop i (jn_children up)) nm i;
                Some (map_option (\<lambda>k. butlast p @ [k]) r) } } })"

text \<open>What follows reads one node; NULL is \<open>None\<close>.\<close>

definition json_node_type :: "json_node_t option \<Rightarrow> json_node_type_t" where
  "json_node_type node = (case node of None \<Rightarrow> JSON_NODE_NULL | Some n \<Rightarrow> jn_type n)"

definition json_node_name :: "json_node_t option \<Rightarrow> byte list option" where
  "json_node_name node = (case node of None \<Rightarrow> None | Some n \<Rightarrow> jn_name n)"

definition json_node_get_attr :: "json_node_t option \<Rightarrow> byte list option \<Rightarrow> byte list option option" where
  "json_node_get_attr node name =
     (case node of
        None \<Rightarrow> Some None
      | Some n \<Rightarrow>
        if jn_type n = JSON_NODE_OBJECT
        then (case name of
                None \<Rightarrow> Some None
              | Some nm \<Rightarrow> do {
                  r \<leftarrow> find_named (jn_children n) nm 0;
                  Some (case r of None \<Rightarrow> None | Some i \<Rightarrow> jn_text (jn_children n ! i)) })
        else Some (if name = None then jn_text n else None))"

definition json_node_get_text :: "json_node_t option \<Rightarrow> byte list option" where
  "json_node_get_text node =
     (case node of
        None \<Rightarrow> None
      | Some n \<Rightarrow>
        (case jn_type n of
           JSON_NODE_STRING \<Rightarrow> jn_text n
         | JSON_NODE_NUMBER \<Rightarrow> jn_text n
         | JSON_NODE_BOOLEAN \<Rightarrow> jn_text n
         | JSON_NODE_NULL \<Rightarrow> jn_text n
         | _ \<Rightarrow> None))"

section \<open>Printing\<close>

definition print_indent :: "int \<Rightarrow> byte list" where
  "print_indent n = replicate (nat n) 32"

text \<open>\<open>%s\<close> of a text, the empty one for NULL.\<close>

definition print_text :: "byte list option \<Rightarrow> byte list option" where
  "print_text t = (case t of None \<Rightarrow> Some [] | Some d \<Rightarrow> c_string d)"

text \<open>What is written to the standard output.\<close>

fun json_print_node :: "json_node_t \<Rightarrow> int \<Rightarrow> byte list option"
and print_nodes :: "json_node_t list \<Rightarrow> int \<Rightarrow> byte list option" where
  "json_print_node (Json_Node ty nm tx cs) indent = do {
     name \<leftarrow> print_text nm;
     txt \<leftarrow> print_text tx;
     rest \<leftarrow> (case ty of
         JSON_NODE_DOCUMENT \<Rightarrow>
           (case cs of
              [] \<Rightarrow> Some (bytes_of ''DOCUMENT'' @ [10])
            | c # _ \<Rightarrow> do { r \<leftarrow> json_print_node c (indent + 2); Some (bytes_of ''DOCUMENT'' @ [10] @ r) })
       | JSON_NODE_OBJECT \<Rightarrow> do { r \<leftarrow> print_nodes cs (indent + 2); Some (name @ bytes_of ''OBJECT'' @ [10] @ r) }
       | JSON_NODE_ARRAY \<Rightarrow> do { r \<leftarrow> print_nodes cs (indent + 2); Some (name @ bytes_of ''ARRAY'' @ [10] @ r) }
       | JSON_NODE_STRING \<Rightarrow> Some (name @ bytes_of ''STRING = '' @ [34] @ txt @ [34, 10])
       | JSON_NODE_NUMBER \<Rightarrow> Some (name @ bytes_of ''NUMBER = '' @ txt @ [10])
       | JSON_NODE_BOOLEAN \<Rightarrow> Some (name @ bytes_of ''BOOLEAN = '' @ txt @ [10])
       | JSON_NODE_NULL \<Rightarrow> Some (name @ bytes_of ''NULL'' @ [10]));
     Some (print_indent indent @ rest) }"
| "print_nodes [] indent = Some []"
| "print_nodes (c # cs) indent = do {
     a \<leftarrow> json_print_node c indent;
     b \<leftarrow> print_nodes cs indent;
     Some (a @ b) }"

section \<open>White space and tokens\<close>

text \<open>The code takes every byte up to the blank, other than the terminator, for white space.\<close>

definition ws :: "byte list \<Rightarrow> bool" where
  "ws w = list_all (\<lambda>c. c \<noteq> 0 \<and> c \<le> 32) w"

lemma skip_ws_stop: "ws w \<Longrightarrow> c = 0 \<or> \<not> c \<le> 32 \<Longrightarrow> skip_ws (w @ c # r) = Some (c # r)"
  by (induction w) (auto simp: ws_def)

lemma skip_ws_split: "skip_ws s = Some r \<Longrightarrow> \<exists>w. s = w @ r \<and> ws w"
proof (induction s)
  case (Cons c s)
  show ?case
  proof (cases "c \<noteq> 0 \<and> c \<le> 32")
    case True
    with Cons obtain w where "s = w @ r" "ws w" by auto
    then show ?thesis using True by (intro exI [of _ "c # w"]) (simp add: ws_def)
  next
    case False
    then show ?thesis using Cons.prems by (intro exI [of _ "[]"]) (auto simp: ws_def split: if_splits)
  qed
qed simp

text \<open>A pointer into a C string: there is a terminator behind it.\<close>

abbreviation in_string :: "byte list \<Rightarrow> bool" where
  "in_string s \<equiv> 0 \<in> set s"

lemma skip_ws_total: "in_string s \<Longrightarrow> \<exists>r. skip_ws s = Some r \<and> in_string r \<and> length r \<le> length s"
  by (induction s) auto

lemma deref_string: "in_string s \<Longrightarrow> \<exists>c r. s = c # r \<and> deref s = Some c \<and> (c \<noteq> 0 \<longrightarrow> in_string r)"
  by (cases s) (auto simp: deref_def)

section \<open>String literals\<close>

text \<open>The bytes between the quotes: a backslash hides the byte behind it.\<close>

fun string_body :: "byte list \<Rightarrow> bool" where
  "string_body [] = True"
| "string_body (c # s) =
     (c \<noteq> 0 \<and> c \<noteq> 34 \<and>
      (if c = 92 then (case s of [] \<Rightarrow> False | d # s' \<Rightarrow> d \<noteq> 0 \<and> string_body s') else string_body s))"

lemma string_scan_body: "string_body b \<Longrightarrow> string_scan (b @ 34 # r) = Some (34 # r)"
  by (induction b rule: string_body.induct) (auto split: list.splits)

lemma string_scan_total:
  "in_string s \<Longrightarrow> \<exists>b c r. s = b @ c # r \<and> string_scan s = Some (c # r) \<and> (c = 34 \<and> string_body b \<or> c = 0)"
proof (induction s rule: string_scan.induct)
  case (2 c s)
  show ?case
  proof (cases "c = 0 \<or> c = 34")
    case True
    then show ?thesis by (intro exI [of _ "[]"]) auto
  next
    case stop: False
    show ?thesis
    proof (cases "c = 92")
      case False
      then obtain b d r where "s = b @ d # r" "string_scan s = Some (d # r)" "d = 34 \<and> string_body b \<or> d = 0"
        using "2.IH"(3) "2.prems" stop by auto
      then show ?thesis using stop False by (intro exI [of _ "c # b"]) auto
    next
      case True
      then obtain d s' where s: "s = d # s'" using "2.prems" by (cases s) auto
      show ?thesis
      proof (cases "d = 0")
        case True
        then show ?thesis using s \<open>c = 92\<close> by (intro exI [of _ "[92]"]) auto
      next
        case False
        then obtain b e r where "s' = b @ e # r" "string_scan s' = Some (e # r)" "e = 34 \<and> string_body b \<or> e = 0"
          using "2.IH"(1) "2.prems" stop s \<open>c = 92\<close> by auto
        then show ?thesis using s False \<open>c = 92\<close> by (intro exI [of _ "c # d # b"]) auto
      qed
    qed
  qed
qed simp

text \<open>Four hexadecimal digits.\<close>

fun hex_value :: "byte list \<Rightarrow> nat \<Rightarrow> nat option" where
  "hex_value [] code = Some code"
| "hex_value (ch # s) code = (case hex_digit ch of None \<Rightarrow> None | Some d \<Rightarrow> hex_value s (code * 16 + d))"

lemma hex_code_value: "hex_code (pre @ hs @ post) (length pre) (length hs) code = Some (hex_value hs code)"
proof (induction hs arbitrary: pre code)
  case (Cons h hs)
  have "hex_code ((pre @ [h]) @ hs @ post) (length (pre @ [h])) (length hs) code' = Some (hex_value hs code')" for code'
    by (rule Cons.IH)
  then show ?case by (auto simp: mem_read_def split: option.splits)
qed simp

text \<open>The text a string literal stands for.\<close>

function unescaped :: "byte list \<Rightarrow> byte list" where
  "unescaped b =
     (case b of
        [] \<Rightarrow> []
      | c # s \<Rightarrow>
        if c = 92 \<and> s \<noteq> []
        then if hd s = 117
          then if 5 \<le> length s
            then (case hex_value (take 4 (tl s)) 0 of
                    None \<Rightarrow> unescaped s
                  | Some code \<Rightarrow> utf8_bytes code @ unescaped (drop 5 s))
            else unescaped s
          else simple_escape (hd s) # unescaped (tl s)
        else c # unescaped s)"
  by pat_completeness auto
termination by (relation "measure length") auto

declare unescaped.simps [simp del]

lemma utf8_length: "length (utf8_bytes code) \<le> 3"
  by (simp add: utf8_bytes_def Let_def)

lemma unescaped_length: "length (unescaped b) \<le> length b"
proof (induction b rule: unescaped.induct)
  case (1 b)
  show ?case
  proof (cases b)
    case Nil
    then show ?thesis by (subst unescaped.simps) simp
  next
    case (Cons c s)
    show ?thesis
    proof (cases "c = 92 \<and> s \<noteq> []")
      case False
      then show ?thesis using "1.IH"(5) [OF Cons] Cons by (subst unescaped.simps) auto
    next
      case True
      then obtain e s' where s: "s = e # s'" by (cases s) auto
      show ?thesis
      proof (cases "e = 117")
        case False
        then show ?thesis using "1.IH"(4) [OF Cons] Cons s True by (subst unescaped.simps) auto
      next
        case u: True
        show ?thesis
        proof (cases "5 \<le> length s")
          case False
          then show ?thesis using "1.IH"(3) [OF Cons] Cons s True u by (subst unescaped.simps) auto
        next
          case long: True
          show ?thesis
          proof (cases "hex_value (take 4 (tl s)) 0")
            case None
            then show ?thesis using "1.IH"(1) [OF Cons] Cons s True u long by (subst unescaped.simps) auto
          next
            case (Some code)
            have "length (unescaped (drop 5 s)) \<le> length (drop 5 s)" using "1.IH"(2) [OF Cons] True u long Some s by auto
            then show ?thesis using Cons s True u long Some utf8_length [of code] by (subst unescaped.simps) auto
          qed
        qed
      qed
    qed
  qed
qed

lemma unescape_loop_text:
  assumes "start = pre @ b @ post" "i = length pre" "len = i + length b" "length out \<le> i"
  shows "unescape_loop start len i out = Some (out @ unescaped b @ [0])"
  using assms
proof (induction b arbitrary: pre i out rule: unescaped.induct)
  case (1 b)
  note step = unescape_loop.simps [of start len i out] and spec = unescaped.simps [of b]
  show ?case
  proof (cases b)
    case Nil
    then show ?thesis using "1.prems" by (subst step, subst spec) (simp add: put_out_def)
  next
    case (Cons c s)
    have c: "mem_read start i = Some c" "i < len" using "1.prems" Cons by (auto simp: mem_read_def nth_append)
    show ?thesis
    proof (cases "c = 92 \<and> s \<noteq> []")
      case False
      then have "unescape_loop start len (i + 1) (out @ [c]) = Some ((out @ [c]) @ unescaped s @ [0])"
        by (intro "1.IH"(5) [OF Cons, of "pre @ [c]"]) (use "1.prems" Cons in auto)
      then show ?thesis using c False "1.prems" Cons
        by (subst step, subst spec) (auto simp: put_out_def)
    next
      case True
      then obtain e s' where s: "s = e # s'" by (cases s) auto
      have e: "mem_read start (i + 1) = Some e" "i + 1 < len" using "1.prems" Cons s by (auto simp: mem_read_def nth_append)
      show ?thesis
      proof (cases "e = 117")
        case False
        then have "unescape_loop start len (i + 2) (out @ [simple_escape e]) = Some ((out @ [simple_escape e]) @ unescaped (tl s) @ [0])"
          by (intro "1.IH"(4) [OF Cons True, of "pre @ [c, e]"]) (use "1.prems" Cons s in auto)
        then show ?thesis using c e True False "1.prems" Cons s
          by (subst step, subst spec) (auto simp: put_out_def)
      next
        case u: True
        have five: "i + 5 < len \<longleftrightarrow> 5 \<le> length s" using "1.prems" Cons s by auto
        show ?thesis
        proof (cases "5 \<le> length s")
          case False
          then have "unescape_loop start len (i + 1) out = Some (out @ unescaped s @ [0])"
            by (intro "1.IH"(3) [OF Cons True, of "pre @ [c]"]) (use "1.prems" Cons s u in auto)
          then show ?thesis using c e True u False five Cons s
            by (subst step, subst spec) auto
        next
          case long: True
          have join: "take 4 s' @ drop 4 s' @ post = s' @ post" by (simp flip: append_assoc)
          have "length (take 4 s') = 4" using long s by simp
          then have hex: "hex_code start (i + 2) 4 0 = Some (hex_value (take 4 s') 0)"
            using hex_code_value [of "pre @ [c, e]" "take 4 s'" "drop 4 s' @ post" 0] "1.prems" Cons s join by simp
          show ?thesis
          proof (cases "hex_value (take 4 s') 0")
            case None
            then have "unescape_loop start len (i + 1) out = Some (out @ unescaped s @ [0])"
              by (intro "1.IH"(1) [OF Cons True, of "pre @ [c]"]) (use "1.prems" Cons s u long in auto)
            then show ?thesis using c e True u long five hex None Cons s
              by (subst step, subst spec) auto
          next
            case (Some code)
            have fit: "length out + length (utf8_bytes code) \<le> i + 6" using utf8_length [of code] "1.prems" by simp
            have l: "length b = 6 + length (drop 5 s)" using Cons s long by simp
            have "unescape_loop start len (i + 6) (out @ utf8_bytes code) =
                Some ((out @ utf8_bytes code) @ unescaped (drop 5 s) @ [0])"
            proof (rule "1.IH"(2) [OF Cons True, of _ "pre @ take 6 b"])
              show "start = (pre @ take 6 b) @ drop 5 s @ post" using "1.prems" Cons s by simp
            qed (use "1.prems" Cons s u long Some fit l in auto)
            then show ?thesis using c e True u long five hex Some Cons s fit l "1.prems"
              by (subst step, subst spec) (auto simp: put_out_def)
          qed
        qed
      qed
    qed
  qed
qed

section \<open>Numbers\<close>

definition digits :: "byte list \<Rightarrow> bool" where
  "digits d = (d \<noteq> [] \<and> list_all is_digit d)"

text \<open>The numbers of JSON: sign, integer without leading zeros, fraction, exponent.\<close>

definition number_sign :: "byte list \<Rightarrow> bool" where "number_sign t = (t = [] \<or> t = [45])"
definition number_whole :: "byte list \<Rightarrow> bool" where "number_whole t = (t = [48] \<or> digits t \<and> hd t \<noteq> 48)"
definition number_fraction :: "byte list \<Rightarrow> bool" where
  "number_fraction t = (case t of [] \<Rightarrow> True | c # d \<Rightarrow> c = 46 \<and> digits d)"
definition number_exponent :: "byte list \<Rightarrow> bool" where
  "number_exponent t =
     (case t of [] \<Rightarrow> True
      | c # s \<Rightarrow> (c = 101 \<or> c = 69) \<and> (digits s \<or> (case s of [] \<Rightarrow> False | g # d \<Rightarrow> (g = 43 \<or> g = 45) \<and> digits d)))"

definition number_text :: "byte list \<Rightarrow> bool" where
  "number_text t = (\<exists>sg wh fr ex. t = sg @ wh @ fr @ ex \<and> number_sign sg \<and> number_whole wh \<and> number_fraction fr \<and> number_exponent ex)"

lemma not_digits [simp]: "\<not> is_digit 0" "\<not> is_digit 45" "\<not> is_digit 43" "\<not> is_digit 46" "\<not> is_digit 101" "\<not> is_digit 69"
  by (simp_all add: is_digit_def)

lemma is_digit_48 [simp]: "is_digit 48"
  by (simp add: is_digit_def)

lemma skip_digits_stop: "list_all is_digit d \<Longrightarrow> \<not> is_digit c \<Longrightarrow> skip_digits (d @ c # r) = Some (c # r)"
  by (induction d) auto

lemma skip_digits_split: "skip_digits s = Some r \<Longrightarrow> \<exists>d. s = d @ r \<and> list_all is_digit d"
proof (induction s)
  case (Cons c s)
  show ?case
  proof (cases "is_digit c")
    case True
    with Cons obtain d where "s = d @ r" "list_all is_digit d" by auto
    then show ?thesis using True by (intro exI [of _ "c # d"]) simp
  qed (use Cons.prems in \<open>intro exI [of _ "[]"], simp\<close>)
qed simp

lemma skip_digits_total: "in_string s \<Longrightarrow> \<exists>r. skip_digits s = Some r \<and> in_string r"
  by (induction s) (auto simp: is_digit_def)

lemma some_digits_stop:
  assumes "digits d" "\<not> is_digit c"
  shows "some_digits (d @ c # r) = Some (Some (c # r))"
  using assms skip_digits_stop [of d c r] by (cases d) (auto simp: some_digits_def digits_def deref_def)

lemma some_digits_split:
  assumes "some_digits s = Some (Some r)"
  shows "\<exists>d. s = d @ r \<and> digits d"
proof -
  obtain c s' where s: "s = c # s'" "is_digit c" "skip_digits s' = Some r"
    using assms by (cases s) (auto simp: some_digits_def deref_def split: if_splits dest!: bind_eq_SomeD)
  then obtain d where "s' = d @ r" "list_all is_digit d" using skip_digits_split by blast
  then show ?thesis using s by (intro exI [of _ "c # d"]) (simp add: digits_def)
qed

abbreviation ends_in_string :: "byte list option option \<Rightarrow> bool" where
  "ends_in_string e \<equiv> (case e of None \<Rightarrow> False | Some None \<Rightarrow> True | Some (Some r) \<Rightarrow> in_string r)"

lemma some_digits_total: "in_string s \<Longrightarrow> ends_in_string (some_digits s)"
  using skip_digits_total [of s] by (cases s) (auto simp: some_digits_def deref_def)

lemma sign_end_total: "in_string s \<Longrightarrow> \<exists>r. sign_end s = Some r \<and> in_string r"
  by (cases s) (auto simp: sign_end_def deref_def)

lemma whole_end_total: "in_string s \<Longrightarrow> ends_in_string (whole_end s)"
  using some_digits_total [of s] by (cases s) (auto simp: whole_end_def deref_def)

lemma fraction_end_total: "in_string s \<Longrightarrow> ends_in_string (fraction_end s)"
  using some_digits_total [of "tl s"] by (cases s) (auto simp: fraction_end_def deref_def)

lemma exponent_end_total: "in_string s \<Longrightarrow> ends_in_string (exponent_end s)"
  using some_digits_total [of "tl s"] some_digits_total [of "tl (tl s)"]
  by (cases s; cases "tl s") (auto simp: exponent_end_def deref_def)

lemma number_end_total:
  assumes "in_string s"
  shows "ends_in_string (number_end s)"
proof -
  obtain s1 where s1: "sign_end s = Some s1" "in_string s1" using sign_end_total [OF assms] by blast
  from whole_end_total [OF s1(2)] consider "whole_end s1 = Some None" | s2 where "whole_end s1 = Some (Some s2)" "in_string s2"
    by (auto split: option.splits)
  then show ?thesis
  proof cases
    case 1
    then show ?thesis using s1 by (simp add: number_end_def)
  next
    case (2 s2)
    from fraction_end_total [OF 2(2)] consider "fraction_end s2 = Some None" | s3 where "fraction_end s2 = Some (Some s3)" "in_string s3"
      by (auto split: option.splits)
    then show ?thesis using s1 2 exponent_end_total by cases (simp_all add: number_end_def)
  qed
qed

lemma sign_end_split: "sign_end p = Some s \<Longrightarrow> \<exists>t. p = t @ s \<and> number_sign t"
  by (cases p) (auto simp: sign_end_def number_sign_def deref_def split: if_splits)

lemma whole_end_split:
  assumes "whole_end p = Some (Some s)"
  shows "\<exists>t. p = t @ s \<and> number_whole t"
proof (cases "deref p = Some 48")
  case True
  then show ?thesis using assms by (cases p) (auto simp: whole_end_def number_whole_def deref_def)
next
  case False
  then have "some_digits p = Some (Some s)" using assms by (auto simp: whole_end_def dest!: bind_eq_SomeD split: if_splits)
  then obtain d where "p = d @ s" "digits d" using some_digits_split by blast
  then show ?thesis using False by (intro exI [of _ d]) (cases d; auto simp: number_whole_def digits_def deref_def)
qed

lemma fraction_end_split:
  assumes "fraction_end p = Some (Some s)"
  shows "\<exists>t. p = t @ s \<and> number_fraction t"
proof (cases "deref p = Some 46")
  case True
  then have "some_digits (tl p) = Some (Some s)" using assms by (simp add: fraction_end_def)
  then obtain d where "tl p = d @ s" "digits d" using some_digits_split by blast
  then show ?thesis using True by (intro exI [of _ "46 # d"]) (cases p; auto simp: number_fraction_def deref_def)
next
  case False
  then have "p = s" using assms by (auto simp: fraction_end_def dest!: bind_eq_SomeD split: if_splits)
  then show ?thesis by (intro exI [of _ "[]"]) (simp add: number_fraction_def)
qed

lemma exponent_end_split:
  assumes "exponent_end p = Some (Some s)"
  shows "\<exists>t. p = t @ s \<and> number_exponent t"
proof (cases "deref p = Some 101 \<or> deref p = Some 69")
  case True
  then obtain c r where p: "p = c # r" "c = 101 \<or> c = 69" by (cases p) (auto simp: deref_def)
  then obtain g where g: "deref r = Some g" "some_digits (if g = 43 \<or> g = 45 then tl r else r) = Some (Some s)"
    using assms by (cases "deref r") (auto simp: exponent_end_def deref_def [of "c # r"] cong: if_cong)
  then obtain d where d: "(if g = 43 \<or> g = 45 then tl r else r) = d @ s" "digits d" using some_digits_split by blast
  show ?thesis
  proof (cases "g = 43 \<or> g = 45")
    case False
    then show ?thesis using p d by (intro exI [of _ "c # d"]) (simp add: number_exponent_def)
  next
    case sg: True
    then have "r = g # d @ s" using g(1) d(1) by (cases r) (auto simp: deref_def)
    then show ?thesis using p sg d(2) by (intro exI [of _ "c # g # d"]) (simp add: number_exponent_def)
  qed
next
  case False
  then have "p = s" using assms by (auto simp: exponent_end_def dest!: bind_eq_SomeD split: if_splits)
  then show ?thesis by (intro exI [of _ "[]"]) (simp add: number_exponent_def)
qed

lemma number_end_split:
  assumes "number_end p = Some (Some s)"
  shows "\<exists>t. p = t @ s \<and> number_text t"
proof -
  obtain s1 s2 s3 where "sign_end p = Some s1" "whole_end s1 = Some (Some s2)" "fraction_end s2 = Some (Some s3)" "exponent_end s3 = Some (Some s)"
    using assms by (auto simp: number_end_def dest!: bind_eq_SomeD split: option.splits)
  then obtain t1 t2 t3 t4 where "p = t1 @ s1" "s1 = t2 @ s2" "s2 = t3 @ s3" "s3 = t4 @ s"
    "number_sign t1" "number_whole t2" "number_fraction t3" "number_exponent t4"
    using sign_end_split whole_end_split fraction_end_split exponent_end_split by metis
  then show ?thesis unfolding number_text_def
    by (intro exI [of _ "t1 @ t2 @ t3 @ t4"]) auto
qed

text \<open>A number is read to its end when no byte follows that could be part of it.\<close>

definition number_stops :: "byte \<Rightarrow> bool" where
  "number_stops c = (\<not> is_digit c \<and> c \<noteq> 46 \<and> c \<noteq> 101 \<and> c \<noteq> 69)"

lemma digits_cons: "digits (c # s) \<longleftrightarrow> is_digit c \<and> list_all is_digit s"
  by (simp add: digits_def)

lemma exponent_end_stop:
  assumes "number_exponent t" "number_stops c"
  shows "exponent_end (t @ c # r) = Some (Some (c # r))"
proof (cases t)
  case Nil
  then show ?thesis using assms(2) by (simp add: exponent_end_def deref_def number_stops_def)
next
  case (Cons e s)
  then have e: "e = 101 \<or> e = 69" using assms(1) by (simp add: number_exponent_def)
  have nd: "\<not> is_digit c" using assms(2) by (simp add: number_stops_def)
  show ?thesis
  proof (cases "digits s")
    case True
    then obtain g d where "s = g # d" "is_digit g" by (cases s) (auto simp: digits_def)
    moreover from this have "g \<noteq> 43" "g \<noteq> 45" by auto
    ultimately show ?thesis using Cons e some_digits_stop [OF True nd, of r] by (simp add: exponent_end_def deref_def)
  next
    case False
    then obtain g d where "s = g # d" "g = 43 \<or> g = 45" "digits d"
      using assms(1) Cons by (auto simp: number_exponent_def split: list.splits)
    then show ?thesis using Cons e some_digits_stop [OF _ nd, of d r] by (simp add: exponent_end_def deref_def)
  qed
qed

lemma number_end_stop:
  assumes "number_text t" "number_stops c"
  shows "number_end (t @ c # r) = Some (Some (c # r))"
proof -
  obtain sg wh fr ex where t: "t = sg @ wh @ fr @ ex" "number_sign sg" "number_whole wh" "number_fraction fr" "number_exponent ex"
    using assms(1) by (auto simp: number_text_def)
  define s3 where "s3 = ex @ c # r"
  obtain c3 r3 where s3: "s3 = c3 # r3" "\<not> is_digit c3" "c3 \<noteq> 46"
    using t(5) assms(2) by (cases ex) (auto simp: s3_def number_exponent_def number_stops_def)
  define s2 where "s2 = fr @ s3"
  obtain c2 r2 where s2: "s2 = c2 # r2" "\<not> is_digit c2"
    using t(4) s3 by (cases fr) (auto simp: s2_def number_fraction_def)
  have 4: "exponent_end s3 = Some (Some (c # r))" unfolding s3_def by (rule exponent_end_stop [OF t(5) assms(2)])
  have 3: "fraction_end s2 = Some (Some s3)"
    using t(4) s3 some_digits_stop [of "tl fr" c3 r3] by (cases fr) (auto simp: s2_def fraction_end_def deref_def number_fraction_def)
  have 2: "whole_end (wh @ s2) = Some (Some s2)"
    using t(3) s2 some_digits_stop [of wh c2 r2] by (cases wh) (auto simp: whole_end_def deref_def number_whole_def digits_def)
  have "hd (wh @ s2) \<noteq> 45" "wh \<noteq> []" using t(3) by (cases wh; auto simp: number_whole_def digits_def)+
  then have 1: "sign_end (sg @ wh @ s2) = Some (wh @ s2)"
    using t(2) by (cases wh) (auto simp: sign_end_def deref_def number_sign_def)
  have "t @ c # r = sg @ wh @ s2" by (simp add: t(1) s2_def s3_def)
  then show ?thesis using 1 2 3 4 by (simp add: number_end_def)
qed

lemma number_head: "number_text t \<Longrightarrow> \<exists>c r. t = c # r \<and> (c = 45 \<or> is_digit c)"
  unfolding number_text_def number_sign_def number_whole_def digits_def
  by (auto simp: neq_Nil_conv)

section \<open>Every text is parsed, without a leak\<close>

text \<open>The blocks a tree consists of: nodes, names and texts.\<close>

fun blocks :: "json_node_t \<Rightarrow> int" where
  "blocks (Json_Node ty nm tx cs) =
     1 + (if nm = None then 0 else 1) + (if tx = None then 0 else 1) + sum_list (map blocks cs)"

lemma free_children:
  "(\<And>c m. c \<in> set cs \<Longrightarrow> node_free_recursive c m = m\<lparr>jm_live := jm_live m - blocks c\<rparr>) \<Longrightarrow>
   foldl (\<lambda>m c. node_free_recursive c m) m cs = m\<lparr>jm_live := jm_live m - sum_list (map blocks cs)\<rparr>"
  by (induction cs arbitrary: m) (simp_all add: algebra_simps)

lemma node_free_blocks: "node_free_recursive n m = m\<lparr>jm_live := jm_live m - blocks n\<rparr>"
proof (induction n arbitrary: m)
  case (Json_Node ty nm tx cs)
  have "foldl (\<lambda>m c. node_free_recursive c m) m cs = m\<lparr>jm_live := jm_live m - sum_list (map blocks cs)\<rparr>"
    by (rule free_children) (rule Json_Node.IH)
  then show ?case by (simp add: xfree_ptr_def algebra_simps)
qed

lemma blocks_set_name: "jn_name n = None \<Longrightarrow> blocks (set_name k n) = blocks n + (if k = None then 0 else 1)"
  by (cases n) simp

lemma blocks_set_text: "jn_text n = None \<Longrightarrow> blocks (set_text t n) = blocks n + (if t = None then 0 else 1)"
  by (cases n) simp

lemma blocks_append_child: "blocks (node_append_child n c) = blocks n + blocks c"
  by (cases n) simp

lemma name_append_child [simp]: "jn_name (node_append_child n c) = jn_name n"
  by (cases n) simp

text \<open>
  A reader of a token or a value has a result, which leaves the pointer in the string, moved on when there is
  a result, keeps the plan of the allocator and holds as many more blocks as what it returns.
\<close>

definition read_ok :: "('a \<Rightarrow> int) \<Rightarrow> byte list \<Rightarrow> json_mem \<Rightarrow> ('a option \<times> byte list \<times> json_mem) option \<Rightarrow> bool" where
  "read_ok size_of p m r =
     (case r of
        None \<Rightarrow> False
      | Some (v, s, m') \<Rightarrow>
          jm_plan m' = jm_plan m \<and> jm_live m' = jm_live m + (case v of None \<Rightarrow> 0 | Some x \<Rightarrow> size_of x) \<and>
          in_string s \<and> length s \<le> length p \<and> (v \<noteq> None \<longrightarrow> length s < length p))"

lemma xmalloc_ok: "xmalloc m = (ok, m') \<Longrightarrow> jm_plan m' = jm_plan m \<and> jm_live m' = jm_live m + (if ok then 1 else 0)"
  by (auto simp: xmalloc_def Let_def)

lemma node_new_ok:
  "node_new ty m = (n, m') \<Longrightarrow> jm_plan m' = jm_plan m \<and> jm_live m' = jm_live m + (case n of None \<Rightarrow> 0 | Some x \<Rightarrow> blocks x) \<and>
     (n = None \<or> n = Some (Json_Node ty None None []))"
  by (auto simp: node_new_def split: prod.splits if_splits dest!: xmalloc_ok)

lemma body_no_zero: "string_body b \<Longrightarrow> 0 \<notin> set b"
  by (induction b rule: string_body.induct) (auto split: list.splits if_splits)

lemma parse_string_literal_ok:
  assumes "in_string p"
  shows "read_ok (\<lambda>_. 1) p m (parse_string_literal p m)"
proof -
  obtain c r where p: "p = c # r" "deref p = Some c" "c \<noteq> 0 \<longrightarrow> in_string r" using deref_string [OF assms] by blast
  show ?thesis
  proof (cases "c = 34")
    case False
    then show ?thesis using p assms by (simp add: parse_string_literal_def read_ok_def)
  next
    case True
    then obtain b d s where scan: "r = b @ d # s" "string_scan r = Some (d # s)" "d = 34 \<and> string_body b \<or> d = 0"
      using string_scan_total [of r] p(3) by auto
    have inr: "in_string r" using p(3) True by simp
    show ?thesis
    proof (cases "d = 34")
      case False
      then show ?thesis using p scan assms True by (simp add: parse_string_literal_def read_ok_def deref_def)
    next
      case d: True
      have "unescape_loop (b @ d # s) (length b) 0 [] = Some (unescaped b @ [0])"
        using unescape_loop_text [where pre = "[]" and b = b and post = "d # s" and out = "[]"] by simp
      moreover obtain ok m' where m': "xmalloc m = (ok, m')" by (cases "xmalloc m")
      moreover have "0 \<notin> set b" using scan(2,3) d by (auto simp: body_no_zero)
      then have "in_string s" using inr scan(1) d by auto
      ultimately show ?thesis using p scan d True xmalloc_ok [OF m']
        by (auto simp: parse_string_literal_def read_ok_def deref_def unescape_json_string_def)
    qed
  qed
qed

lemma parse_number_literal_ok:
  assumes "in_string p"
  shows "read_ok (\<lambda>_. 1) p m (parse_number_literal p m)"
proof -
  from number_end_total [OF assms] consider "number_end p = Some None" | s where "number_end p = Some (Some s)" "in_string s"
    by (auto split: option.splits)
  then show ?thesis
  proof cases
    case 1
    then show ?thesis using assms by (simp add: parse_number_literal_def read_ok_def)
  next
    case (2 s)
    obtain t where t: "p = t @ s" "number_text t" using number_end_split [OF 2(1)] by blast
    obtain ok m' where m': "xmalloc m = (ok, m')" by (cases "xmalloc m")
    show ?thesis using 2 t number_head [OF t(2)] m' xmalloc_ok [OF m'] assms
      by (auto simp: parse_number_literal_def read_ok_def)
  qed
qed

lemma starts_with_total: "in_string s \<Longrightarrow> 0 \<notin> set lit \<Longrightarrow> \<exists>b. starts_with s lit = Some b"
  by (induction s lit rule: starts_with.induct) auto

lemma starts_with_True: "starts_with s lit = Some True \<longleftrightarrow> (\<exists>r. s = lit @ r)"
  by (induction s lit rule: starts_with.induct) auto

lemma starts_with_cases:
  assumes "in_string s" "0 \<notin> set lit"
  obtains r where "s = lit @ r" "in_string r" "starts_with s lit = Some True" | "starts_with s lit = Some False"
proof -
  obtain b where b: "starts_with s lit = Some b" using starts_with_total [OF assms] by blast
  show ?thesis
  proof (cases b)
    case True
    then obtain r where r: "s = lit @ r" using b starts_with_True [THEN iffD1, of s lit] by auto
    moreover have "in_string r" using assms r by simp
    ultimately show ?thesis using b True by (intro that(1)) simp_all
  next
    case False
    then show ?thesis using b that(2) by simp
  qed
qed

text \<open>What a value is read to: a tree without a name.\<close>

definition value_ok :: "byte list \<Rightarrow> json_mem \<Rightarrow> json_result \<Rightarrow> bool" where
  "value_ok p m r = (read_ok blocks p m r \<and> (\<forall>v s m'. r = Some (Some v, s, m') \<longrightarrow> jn_name v = None))"

lemma scalar_node_ok:
  assumes "read_ok (\<lambda>_. 1) p m (Some (str, s, m'))"
  shows "value_ok p m (scalar_node ty str s m')"
proof (cases str)
  case None
  then show ?thesis using assms by (simp add: scalar_node_def value_ok_def read_ok_def)
next
  case (Some t)
  obtain n m'' where n: "node_new ty m' = (n, m'')" by (cases "node_new ty m'")
  show ?thesis using assms Some n node_new_ok [OF n]
    by (cases n) (auto simp: scalar_node_def value_ok_def read_ok_def xfree_ptr_def)
qed

lemma literal_node_ok:
  assumes "in_string s" "length s < length p" "0 \<notin> set lit"
  shows "value_ok p m (literal_node ty lit s m)"
proof -
  obtain n m' where n: "node_new ty m = (n, m')" by (cases "node_new ty m")
  obtain ok m'' where m'': "xmalloc m' = (ok, m'')" by (cases "xmalloc m'")
  have "c_string (lit @ [0]) = Some lit" using c_string_exact [OF assms(3), of "[]"] by simp
  then show ?thesis using assms n node_new_ok [OF n] m'' xmalloc_ok [OF m'']
    by (cases n) (auto simp: literal_node_def xstrdup_def value_ok_def read_ok_def node_free_blocks)
qed

lemma read_okD:
  assumes "read_ok g p m r"
  obtains v s m' where "r = Some (v, s, m')" "jm_plan m' = jm_plan m"
    "jm_live m' = jm_live m + (case v of None \<Rightarrow> 0 | Some x \<Rightarrow> g x)" "in_string s" "length s \<le> length p"
    "v \<noteq> None \<Longrightarrow> length s < length p"
  using assms by (auto simp: read_ok_def split: option.splits prod.splits)

text \<open>A loop consumes what it was given: on failure the tree that was built, on success it is in the result.\<close>

lemma array_loop_ok:
  assumes "\<And>q m. in_string q \<Longrightarrow> length q \<le> n \<Longrightarrow> value_ok q m (pv q m)"
    "in_string s" "length s \<le> n" "length s < f" "jn_name arr = None"
  shows "\<exists>v s' m'. array_loop pv f s arr m = Some (v, s', m') \<and> jm_plan m' = jm_plan m \<and>
    jm_live m' = jm_live m - blocks arr + (case v of None \<Rightarrow> 0 | Some x \<Rightarrow> blocks x) \<and> in_string s' \<and> length s' \<le> length s \<and>
    (\<forall>x. v = Some x \<longrightarrow> length s' < length s \<and> jn_name x = None)"
  using assms(2-5)
proof (induction f arbitrary: s arr m)
  case (Suc f)
  obtain s1 where s1: "skip_ws s = Some s1" "in_string s1" "length s1 \<le> length s" using skip_ws_total [OF Suc.prems(1)] by blast
  have "length s1 \<le> n" using s1(3) Suc.prems(2) by simp
  from assms(1) [OF s1(2) this, of m] obtain v s2 m2 where v: "pv s1 m = Some (v, s2, m2)" "jm_plan m2 = jm_plan m"
    "jm_live m2 = jm_live m + (case v of None \<Rightarrow> 0 | Some x \<Rightarrow> blocks x)" "in_string s2" "length s2 \<le> length s1"
    "v \<noteq> None \<Longrightarrow> length s2 < length s1" "\<And>x. v = Some x \<Longrightarrow> jn_name x = None"
    by (fastforce simp: value_ok_def elim: read_okD)
  show ?case
  proof (cases v)
    case None
    then show ?thesis using s1 v by (simp add: node_free_blocks)
  next
    case (Some e)
    define arr' where "arr' = node_append_child arr e"
    have arr': "blocks arr' = blocks arr + blocks e" "jn_name arr' = None"
      using Suc.prems(4) by (simp_all add: arr'_def blocks_append_child)
    obtain s3 where s3: "skip_ws s2 = Some s3" "in_string s3" "length s3 \<le> length s2" using skip_ws_total [OF v(4)] by blast
    obtain c r where c: "s3 = c # r" "deref s3 = Some c" "c \<noteq> 0 \<longrightarrow> in_string r" using deref_string [OF s3(2)] by blast
    have len: "length r < length s" "length r < f" "length s3 < length s" using c(1) s3(3) v(6) Some s1(3) Suc.prems(3) by auto
    consider "c = 44" | "c = 93" | "c \<noteq> 44" "c \<noteq> 93" by blast
    then show ?thesis
    proof cases
      case 1
      have r: "in_string r" "length r \<le> n" using c(3) 1 len(1) Suc.prems(2) by auto
      from Suc.IH [OF r len(2) arr'(2), of m2] obtain v' s' m' where "array_loop pv f r arr' m2 = Some (v', s', m')"
        "jm_plan m' = jm_plan m2" "jm_live m' = jm_live m2 - blocks arr' + (case v' of None \<Rightarrow> 0 | Some x \<Rightarrow> blocks x)"
        "in_string s'" "length s' \<le> length r" "\<forall>x. v' = Some x \<longrightarrow> length s' < length r \<and> jn_name x = None" by blast
      then show ?thesis using s1(1) v(1-3) Some s3(1) c 1 len arr'(1)
        by (intro exI [of _ v'] exI [of _ s'] exI [of _ m']) (auto simp: Let_def simp flip: arr'_def)
    next
      case 2
      then show ?thesis using s1(1) v(1-3) Some s3(1) c len arr'
        by (auto simp: Let_def simp flip: arr'_def)
    next
      case 3
      then show ?thesis using s1(1) v(1-3) Some s3 c(1,2) len arr'
        by (auto simp: Let_def node_free_blocks simp flip: arr'_def)
    qed
  qed
qed simp

lemma object_loop_ok:
  assumes "\<And>q m. in_string q \<Longrightarrow> length q \<le> n \<Longrightarrow> value_ok q m (pv q m)"
    "in_string s" "length s \<le> n" "length s < f" "jn_name obj = None"
  shows "\<exists>v s' m'. object_loop pv f s obj m = Some (v, s', m') \<and> jm_plan m' = jm_plan m \<and>
    jm_live m' = jm_live m - blocks obj + (case v of None \<Rightarrow> 0 | Some x \<Rightarrow> blocks x) \<and> in_string s' \<and> length s' \<le> length s \<and>
    (\<forall>x. v = Some x \<longrightarrow> length s' < length s \<and> jn_name x = None)"
  using assms(2-5)
proof (induction f arbitrary: s obj m)
  case (Suc f)
  obtain s1 where s1: "skip_ws s = Some s1" "in_string s1" "length s1 \<le> length s" using skip_ws_total [OF Suc.prems(1)] by blast
  obtain c r where c: "s1 = c # r" "deref s1 = Some c" "c \<noteq> 0 \<longrightarrow> in_string r" using deref_string [OF s1(2)] by blast
  show ?case
  proof (cases "c = 34")
    case False
    then show ?thesis using s1 c by (simp add: node_free_blocks)
  next
    case quote: True
    obtain key s2 m2 where k: "parse_string_literal s1 m = Some (key, s2, m2)" "jm_plan m2 = jm_plan m"
      "jm_live m2 = jm_live m + (case key of None \<Rightarrow> 0 | Some x \<Rightarrow> 1)" "in_string s2" "length s2 \<le> length s1"
      using parse_string_literal_ok [OF s1(2), of m] by (elim read_okD)
    have kl: "jm_live m2 = jm_live m + (if key = None then 0 else 1)" using k(3) by (cases key) simp_all
    obtain s3 where s3: "skip_ws s2 = Some s3" "in_string s3" "length s3 \<le> length s2" using skip_ws_total [OF k(4)] by blast
    obtain d t where d: "s3 = d # t" "deref s3 = Some d" "d \<noteq> 0 \<longrightarrow> in_string t" using deref_string [OF s3(2)] by blast
    show ?thesis
    proof (cases "d = 58")
      case False
      then show ?thesis using s1 c quote k(1,2) kl k(5) s3 d by (auto simp: node_free_blocks xfree_ptr_def)
    next
      case colon: True
      obtain s4 where s4: "skip_ws t = Some s4" "in_string s4" "length s4 \<le> length t" using skip_ws_total [of t] d(3) colon by auto
      have l4: "length s4 < length s" using s4(3) d(1) s3(3) k(5) s1(3) by simp
      have "length s4 \<le> n" using l4 Suc.prems(2) by simp
      from assms(1) [OF s4(2) this, of m2] obtain v s5 m5 where v: "pv s4 m2 = Some (v, s5, m5)" "jm_plan m5 = jm_plan m2"
        "jm_live m5 = jm_live m2 + (case v of None \<Rightarrow> 0 | Some x \<Rightarrow> blocks x)" "in_string s5" "length s5 \<le> length s4"
        "v \<noteq> None \<Longrightarrow> length s5 < length s4" "\<And>x. v = Some x \<Longrightarrow> jn_name x = None"
        by (fastforce simp: value_ok_def elim: read_okD)
      note start = s1(1) c(2) quote k(1,2) s3(1) d(1,2) colon s4(1) v(1,2)
      show ?thesis
      proof (cases v)
        case None
        then show ?thesis using start kl v(3-5) l4 by (auto simp: node_free_blocks xfree_ptr_def)
      next
        case (Some e)
        define obj' where "obj' = node_append_child obj (set_name key e)"
        have obj': "blocks obj' = blocks obj + blocks e + (if key = None then 0 else 1)" "jn_name obj' = None"
          using Suc.prems(4) v(7) [OF Some] by (simp_all add: obj'_def blocks_append_child blocks_set_name)
        obtain s6 where s6: "skip_ws s5 = Some s6" "in_string s6" "length s6 \<le> length s5" using skip_ws_total [OF v(4)] by blast
        obtain b u where b: "s6 = b # u" "deref s6 = Some b" "b \<noteq> 0 \<longrightarrow> in_string u" using deref_string [OF s6(2)] by blast
        have len: "length u < length s" "length u < f" "length s6 < length s"
          using b(1) s6(3) v(6) Some l4 Suc.prems(3) by auto
        consider "b = 44" | "b = 125" | "b \<noteq> 44" "b \<noteq> 125" by blast
        then show ?thesis
        proof cases
          case 1
          have u: "in_string u" "length u \<le> n" using b(3) 1 len(1) Suc.prems(2) by auto
          from Suc.IH [OF u len(2) obj'(2), of m5] obtain v' s' m' where "object_loop pv f u obj' m5 = Some (v', s', m')"
            "jm_plan m' = jm_plan m5" "jm_live m' = jm_live m5 - blocks obj' + (case v' of None \<Rightarrow> 0 | Some x \<Rightarrow> blocks x)"
            "in_string s'" "length s' \<le> length u" "\<forall>x. v' = Some x \<longrightarrow> length s' < length u \<and> jn_name x = None" by blast
          then show ?thesis using start kl v(3) Some s6(1) b 1 len obj'(1)
            by (intro exI [of _ v'] exI [of _ s'] exI [of _ m']) (auto simp: Let_def simp flip: obj'_def)
        next
          case 2
          then show ?thesis using start kl v(3) Some s6(1) b len obj' by (auto simp: Let_def simp flip: obj'_def)
        next
          case 3
          then show ?thesis using start kl v(3) Some s6 b(1,2) len obj'
            by (auto simp: Let_def node_free_blocks simp flip: obj'_def)
        qed
      qed
    qed
  qed
qed simp

text \<open>What an array and an object share: the bracket, the node, and the loop for what is inside.\<close>

lemma parse_array_ok:
  assumes "\<And>q m. in_string q \<Longrightarrow> length q \<le> n \<Longrightarrow> value_ok q m (pv q m)" "in_string p" "length p \<le> n + 1" "length p \<le> f"
  shows "value_ok p m (parse_array pv f p m)"
proof -
  obtain c r where c: "p = c # r" "deref p = Some c" "c \<noteq> 0 \<longrightarrow> in_string r" using deref_string [OF assms(2)] by blast
  show ?thesis
  proof (cases "c = 91")
    case False
    then show ?thesis using c assms(2) by (simp add: parse_array_def value_ok_def read_ok_def)
  next
    case True
    obtain s where s: "skip_ws r = Some s" "in_string s" "length s \<le> length r" using skip_ws_total [of r] c(3) True by auto
    obtain a m1 where a: "node_new JSON_NODE_ARRAY m = (a, m1)" by (cases "node_new JSON_NODE_ARRAY m")
    show ?thesis
    proof (cases a)
      case None
      then show ?thesis using c s a True assms(2) node_new_ok [OF a] by (simp add: parse_array_def value_ok_def read_ok_def)
    next
      case (Some arr)
      have arr: "arr = Json_Node JSON_NODE_ARRAY None None []" "jm_plan m1 = jm_plan m" "jm_live m1 = jm_live m + blocks arr"
        using node_new_ok [OF a] Some by auto
      obtain d t where d: "s = d # t" "deref s = Some d" "d \<noteq> 0 \<longrightarrow> in_string t" using deref_string [OF s(2)] by blast
      show ?thesis
      proof (cases "d = 93")
        case True
        then show ?thesis using c s a \<open>c = 91\<close> Some d arr by (auto simp: parse_array_def value_ok_def read_ok_def)
      next
        case False
        have l: "length s \<le> n" "length s < f" "jn_name arr = None" using s(3) c(1) assms(3,4) arr(1) by auto
        obtain v s' m' where v: "array_loop pv f s arr m1 = Some (v, s', m')" "jm_plan m' = jm_plan m1"
          "jm_live m' = jm_live m1 - blocks arr + (case v of None \<Rightarrow> 0 | Some x \<Rightarrow> blocks x)" "in_string s'" "length s' \<le> length s"
          "\<forall>x. v = Some x \<longrightarrow> length s' < length s \<and> jn_name x = None"
          using array_loop_ok [where pv = pv and f = f, OF assms(1) s(2) l(1,2,3), of m1] by blast
        then show ?thesis using c s a \<open>c = 91\<close> Some d False arr assms(2)
          by (cases v) (auto simp: parse_array_def value_ok_def read_ok_def)
      qed
    qed
  qed
qed

lemma parse_object_ok:
  assumes "\<And>q m. in_string q \<Longrightarrow> length q \<le> n \<Longrightarrow> value_ok q m (pv q m)" "in_string p" "length p \<le> n + 1" "length p \<le> f"
  shows "value_ok p m (parse_object pv f p m)"
proof -
  obtain c r where c: "p = c # r" "deref p = Some c" "c \<noteq> 0 \<longrightarrow> in_string r" using deref_string [OF assms(2)] by blast
  show ?thesis
  proof (cases "c = 123")
    case False
    then show ?thesis using c assms(2) by (simp add: parse_object_def value_ok_def read_ok_def)
  next
    case True
    obtain s where s: "skip_ws r = Some s" "in_string s" "length s \<le> length r" using skip_ws_total [of r] c(3) True by auto
    obtain a m1 where a: "node_new JSON_NODE_OBJECT m = (a, m1)" by (cases "node_new JSON_NODE_OBJECT m")
    show ?thesis
    proof (cases a)
      case None
      then show ?thesis using c s a True assms(2) node_new_ok [OF a] by (simp add: parse_object_def value_ok_def read_ok_def)
    next
      case (Some obj)
      have obj: "obj = Json_Node JSON_NODE_OBJECT None None []" "jm_plan m1 = jm_plan m" "jm_live m1 = jm_live m + blocks obj"
        using node_new_ok [OF a] Some by auto
      obtain d t where d: "s = d # t" "deref s = Some d" "d \<noteq> 0 \<longrightarrow> in_string t" using deref_string [OF s(2)] by blast
      show ?thesis
      proof (cases "d = 125")
        case True
        then show ?thesis using c s a \<open>c = 123\<close> Some d obj by (auto simp: parse_object_def value_ok_def read_ok_def)
      next
        case False
        have l: "length s \<le> n" "length s < f" "jn_name obj = None" using s(3) c(1) assms(3,4) obj(1) by auto
        obtain v s' m' where v: "object_loop pv f s obj m1 = Some (v, s', m')" "jm_plan m' = jm_plan m1"
          "jm_live m' = jm_live m1 - blocks obj + (case v of None \<Rightarrow> 0 | Some x \<Rightarrow> blocks x)" "in_string s'" "length s' \<le> length s"
          "\<forall>x. v = Some x \<longrightarrow> length s' < length s \<and> jn_name x = None"
          using object_loop_ok [where pv = pv and f = f, OF assms(1) s(2) l(1,2,3), of m1] by blast
        then show ?thesis using c s a \<open>c = 123\<close> Some d False obj assms(2)
          by (cases v) (auto simp: parse_object_def value_ok_def read_ok_def)
      qed
    qed
  qed
qed

lemma literal_texts:
  "0 \<notin> set true_text" "0 \<notin> set false_text" "0 \<notin> set null_text" "true_text \<noteq> []" "false_text \<noteq> []" "null_text \<noteq> []"
  by (simp_all add: bytes_of_def)

text \<open>A value read behind white space was read from the whole.\<close>

lemma value_ok_longer: "value_ok s m r \<Longrightarrow> length s \<le> length p \<Longrightarrow> value_ok p m r"
  by (auto simp: value_ok_def read_ok_def split: option.splits prod.splits)

lemma parse_value_ok: "in_string p \<Longrightarrow> length p < f \<Longrightarrow> value_ok p m (parse_value f p m)"
proof (induction f arbitrary: p m)
  case (Suc f)
  obtain s where s: "skip_ws p = Some s" "in_string s" "length s \<le> length p" using skip_ws_total [OF Suc.prems(1)] by blast
  obtain c r where c: "s = c # r" "deref s = Some c" "c \<noteq> 0 \<longrightarrow> in_string r" using deref_string [OF s(2)] by blast
  have pv: "value_ok q m (parse_value f q m)" if "in_string q" "length q \<le> f - 1" for q m
    using Suc.IH [OF that(1)] that(2) Suc.prems s(3) c(1) by auto
  have n: "length s \<le> f - 1 + 1" "length s \<le> f" using s(3) c(1) Suc.prems(2) by auto
  have "value_ok s m (parse_value (Suc f) p m)"
  proof -
    consider "c = 0" | "c = 123" | "c = 91" | "c = 34" | "c = 45 \<or> is_digit c"
      | "c \<noteq> 0" "c \<noteq> 123" "c \<noteq> 91" "c \<noteq> 34" "c \<noteq> 45" "\<not> is_digit c" by blast
    then show ?thesis
    proof cases
      case 1
      then show ?thesis using s c by (simp add: value_ok_def read_ok_def)
    next
      case 2
      then show ?thesis using s c parse_object_ok [OF pv s(2) n] by simp
    next
      case 3
      then show ?thesis using s c parse_array_ok [OF pv s(2) n] by simp
    next
      case 4
      obtain str s' m' where r: "parse_string_literal s m = Some (str, s', m')"
        using parse_string_literal_ok [OF s(2), of m] by (elim read_okD)
      have "read_ok (\<lambda>_. 1) s m (Some (str, s', m'))" using parse_string_literal_ok [OF s(2), of m] r by simp
      from scalar_node_ok [OF this, of JSON_NODE_STRING] show ?thesis using s c 4 r by simp
    next
      case 5
      obtain str s' m' where r: "parse_number_literal s m = Some (str, s', m')"
        using parse_number_literal_ok [OF s(2), of m] by (elim read_okD)
      have "read_ok (\<lambda>_. 1) s m (Some (str, s', m'))" using parse_number_literal_ok [OF s(2), of m] r by simp
      from scalar_node_ok [OF this, of JSON_NODE_NUMBER] show ?thesis using s c 5 r by (auto simp: is_digit_def)
    next
      case 6
      note lits = starts_with_cases [OF s(2) literal_texts(1)] starts_with_cases [OF s(2) literal_texts(2)]
        starts_with_cases [OF s(2) literal_texts(3)]
      have drop: "s = lit @ r \<Longrightarrow> in_string r \<Longrightarrow> lit \<noteq> [] \<Longrightarrow> 0 \<notin> set lit \<Longrightarrow> value_ok s m (literal_node ty lit (drop (length lit) s) m)"
        for lit r ty using literal_node_ok [of "drop (length lit) s" s lit m ty] by simp
      show ?thesis
      proof (rule lits(1))
        fix r assume "s = true_text @ r" "in_string r" "starts_with s true_text = Some True"
        then show ?thesis using s(1) c(2) 6 drop [of true_text r JSON_NODE_BOOLEAN] by (simp add: literal_texts)
      next
        assume t: "starts_with s true_text = Some False"
        show ?thesis
        proof (rule lits(2))
          fix r assume "s = false_text @ r" "in_string r" "starts_with s false_text = Some True"
          then show ?thesis using s(1) c(2) 6 t drop [of false_text r JSON_NODE_BOOLEAN] by (simp add: literal_texts)
        next
          assume f: "starts_with s false_text = Some False"
          show ?thesis
          proof (rule lits(3))
            fix r assume "s = null_text @ r" "in_string r" "starts_with s null_text = Some True"
            then show ?thesis using s(1) c(2) 6 t f drop [of null_text r JSON_NODE_NULL] by (simp add: literal_texts)
          next
            assume "starts_with s null_text = Some False"
            then show ?thesis using s(1,2) c(2) 6 t f by (simp add: value_ok_def read_ok_def)
          qed
        qed
      qed
    qed
  qed
  then show ?case using s(3) by (rule value_ok_longer)
qed simp

text \<open>
  C29: every text is parsed, without a leak.  For each C string and each pattern of failing allocations the parser returns, never
  reading outside the string; a call that returns NULL has released everything it allocated, and freeing a document
  releases exactly what its call had allocated.
\<close>

theorem json_parse_no_leak:
  assumes "c_string d = Some t"
  shows "\<exists>doc m'. json_parse_string m (Some d) = Some (doc, m') \<and> jm_live (json_free_document doc m') = jm_live m \<and>
    (doc = None \<longrightarrow> jm_live m' = jm_live m)"
proof -
  have d: "in_string d" using assms by (auto elim!: c_stringE)
  obtain p where p: "skip_ws d = Some p" "in_string p" using skip_ws_total [OF d] by blast
  have "value_ok p m (parse_value (json_fuel p) p m)" by (rule parse_value_ok) (simp_all add: p json_fuel_def)
  then obtain v s m1 where v: "parse_value (json_fuel p) p m = Some (v, s, m1)"
    "jm_live m1 = jm_live m + (case v of None \<Rightarrow> 0 | Some x \<Rightarrow> blocks x)" "in_string s"
    by (auto simp: value_ok_def elim: read_okD)
  show ?thesis
  proof (cases v)
    case None
    then show ?thesis using p v by (simp add: json_parse_string_def json_free_document_def)
  next
    case (Some x)
    obtain q where q: "skip_ws s = Some q" "in_string q" using skip_ws_total [OF v(3)] by blast
    obtain c where c: "deref q = Some c" using deref_string [OF q(2)] by blast
    note start = p(1) v(1) Some q(1) c
    show ?thesis
    proof (cases "c = 0")
      case False
      then show ?thesis using start v(2) by (simp add: json_parse_string_def json_free_document_def node_free_blocks)
    next
      case True
      obtain ok m2 where m2: "xmalloc m1 = (ok, m2)" by (cases "xmalloc m1")
      obtain root m3 where m3: "node_new JSON_NODE_DOCUMENT m2 = (root, m3)" by (cases "node_new JSON_NODE_DOCUMENT m2")
      show ?thesis using start True v(2) m2 xmalloc_ok [OF m2] m3 node_new_ok [OF m3]
        by (cases ok; cases root)
          (auto simp: json_parse_string_def json_free_document_def node_free_blocks xfree_ptr_def)
    qed
  qed
qed

section \<open>The accepted language\<close>

text \<open>
  The grammar of the texts the parser accepts, with the tree of each.  It is the grammar of JSON, except that every control
  character is white space and may stand in a string, and that a backslash may precede every byte.
\<close>

inductive json_text :: "byte list \<Rightarrow> json_node_t \<Rightarrow> bool"
and json_elements :: "byte list \<Rightarrow> json_node_t list \<Rightarrow> bool"
and json_members :: "byte list \<Rightarrow> json_node_t list \<Rightarrow> bool" where
  String: "string_body b \<Longrightarrow> json_text (34 # b @ [34]) (Json_Node JSON_NODE_STRING None (Some (unescaped b @ [0])) [])"
| Number: "number_text t \<Longrightarrow> json_text t (Json_Node JSON_NODE_NUMBER None (Some (t @ [0])) [])"
| True_Text: "json_text true_text (Json_Node JSON_NODE_BOOLEAN None (Some (true_text @ [0])) [])"
| False_Text: "json_text false_text (Json_Node JSON_NODE_BOOLEAN None (Some (false_text @ [0])) [])"
| Null_Text: "json_text null_text (Json_Node JSON_NODE_NULL None (Some (null_text @ [0])) [])"
| Empty_Array: "ws w \<Longrightarrow> json_text (91 # w @ [93]) (Json_Node JSON_NODE_ARRAY None None [])"
| Array: "json_elements t cs \<Longrightarrow> json_text (91 # t @ [93]) (Json_Node JSON_NODE_ARRAY None None cs)"
| Empty_Object: "ws w \<Longrightarrow> json_text (123 # w @ [125]) (Json_Node JSON_NODE_OBJECT None None [])"
| Object: "json_members t cs \<Longrightarrow> json_text (123 # t @ [125]) (Json_Node JSON_NODE_OBJECT None None cs)"
| One: "ws w1 \<Longrightarrow> json_text t v \<Longrightarrow> ws w2 \<Longrightarrow> json_elements (w1 @ t @ w2) [v]"
| More: "ws w1 \<Longrightarrow> json_text t v \<Longrightarrow> ws w2 \<Longrightarrow> json_elements ts cs \<Longrightarrow> json_elements (w1 @ t @ w2 @ 44 # ts) (v # cs)"
| One_Member: "ws w1 \<Longrightarrow> string_body b \<Longrightarrow> ws w2 \<Longrightarrow> ws w3 \<Longrightarrow> json_text t v \<Longrightarrow> ws w4 \<Longrightarrow>
    json_members (w1 @ 34 # b @ 34 # w2 @ 58 # w3 @ t @ w4) [set_name (Some (unescaped b @ [0])) v]"
| More_Members: "ws w1 \<Longrightarrow> string_body b \<Longrightarrow> ws w2 \<Longrightarrow> ws w3 \<Longrightarrow> json_text t v \<Longrightarrow> ws w4 \<Longrightarrow> json_members ts cs \<Longrightarrow>
    json_members (w1 @ 34 # b @ 34 # w2 @ 58 # w3 @ t @ w4 @ 44 # ts) (set_name (Some (unescaped b @ [0])) v # cs)"

lemma ws_no_zero: "ws w \<Longrightarrow> 0 \<notin> set w"
  by (auto simp: ws_def list_all_iff)

lemma digits_no_zero: "digits d \<Longrightarrow> 0 \<notin> set d"
  by (auto simp: digits_def list_all_iff is_digit_def)

lemma number_no_zero:
  assumes "number_text t"
  shows "0 \<notin> set t"
proof -
  have "number_sign x \<Longrightarrow> 0 \<notin> set x" "number_whole x \<Longrightarrow> 0 \<notin> set x" for x
    by (auto simp: number_sign_def number_whole_def dest: digits_no_zero)
  moreover have "number_fraction x \<Longrightarrow> 0 \<notin> set x" for x
    by (cases x) (auto simp: number_fraction_def dest: digits_no_zero)
  moreover have "number_exponent x \<Longrightarrow> 0 \<notin> set x" for x
    by (cases x; cases "tl x") (auto simp: number_exponent_def digits_def list_all_iff)
  ultimately show ?thesis using assms by (auto simp: number_text_def)
qed

lemma text_no_zero:
  "json_text t v \<Longrightarrow> 0 \<notin> set t"
  "json_elements ts cs \<Longrightarrow> 0 \<notin> set ts"
  "json_members ts cs \<Longrightarrow> 0 \<notin> set ts"
  by (induction rule: json_text_json_elements_json_members.inducts)
    (auto dest: ws_no_zero body_no_zero number_no_zero simp: literal_texts)

text \<open>When the allocator always answers.\<close>

definition mem_ok :: "json_mem \<Rightarrow> bool" where
  "mem_ok m = (\<forall>k. jm_plan m k)"

lemma mem_ok_xmalloc: "mem_ok m \<Longrightarrow> \<exists>m'. xmalloc m = (True, m') \<and> mem_ok m'"
  by (auto simp: mem_ok_def xmalloc_def Let_def)

lemma mem_ok_node: "mem_ok m \<Longrightarrow> \<exists>m'. node_new ty m = (Some (Json_Node ty None None []), m') \<and> mem_ok m'"
  using mem_ok_xmalloc [of m] by (auto simp: node_new_def)

lemma parse_string_accepts:
  assumes "string_body b" "mem_ok m"
  shows "\<exists>m'. parse_string_literal (34 # b @ 34 # r) m = Some (Some (unescaped b @ [0]), r, m') \<and> mem_ok m'"
proof -
  obtain m' where m': "xmalloc m = (True, m')" "mem_ok m'" using mem_ok_xmalloc [OF assms(2)] by blast
  have "unescape_loop (b @ 34 # r) (length b) 0 [] = Some (unescaped b @ [0])"
    using unescape_loop_text [where pre = "[]" and b = b and post = "34 # r" and out = "[]"] by simp
  then show ?thesis using m' string_scan_body [OF assms(1), of r]
    by (simp add: parse_string_literal_def unescape_json_string_def deref_def)
qed

lemma scalar_node_makes:
  "mem_ok m \<Longrightarrow> \<exists>m'. scalar_node ty (Some d) p m = Some (Some (Json_Node ty None (Some d) []), p, m') \<and> mem_ok m'"
  using mem_ok_node [of m ty] by (auto simp: scalar_node_def)

lemma literal_node_makes:
  assumes "0 \<notin> set lit" "mem_ok m"
  shows "\<exists>m'. literal_node ty lit p m = Some (Some (Json_Node ty None (Some (lit @ [0])) []), p, m') \<and> mem_ok m'"
proof -
  obtain m1 where m1: "node_new ty m = (Some (Json_Node ty None None []), m1)" "mem_ok m1" using mem_ok_node [OF assms(2)] by blast
  obtain m2 where m2: "xmalloc m1 = (True, m2)" "mem_ok m2" using mem_ok_xmalloc [OF m1(2)] by blast
  show ?thesis using m1 m2 c_string_exact [OF assms(1), of "[]"] by (simp add: literal_node_def xstrdup_def)
qed

lemma parse_number_accepts:
  assumes "number_text t" "number_stops c" "mem_ok m"
  shows "\<exists>m'. parse_number_literal (t @ c # r) m = Some (Some (t @ [0]), c # r, m') \<and> mem_ok m'"
  using number_end_stop [OF assms(1,2), of r] mem_ok_xmalloc [OF assms(3)] by (auto simp: parse_number_literal_def)

text \<open>What follows a value: white space, a comma, a bracket or the end.\<close>

lemma follows:
  assumes "ws w" "number_stops d"
  shows "\<exists>c r. w @ d # s = c # r \<and> number_stops c"
proof (cases w)
  case (Cons c w')
  then have "c \<le> 32" using assms(1) by (simp add: ws_def)
  then have "number_stops c" by (auto simp: number_stops_def is_digit_def word_le_nat_alt)
  then show ?thesis using Cons by simp
qed (use assms(2) in simp)

lemma number_stops [simp]: "number_stops 44" "number_stops 93" "number_stops 125" "number_stops 0"
  by (simp_all add: number_stops_def is_digit_def)

fun add_children :: "json_node_t \<Rightarrow> json_node_t list \<Rightarrow> json_node_t" where
  "add_children (Json_Node ty nm tx ds) cs = Json_Node ty nm tx (ds @ cs)"

lemma add_child: "node_append_child n c = add_children n [c]"
  by (cases n) simp

lemma add_children_add [simp]: "add_children (add_children n cs) ds = add_children n (cs @ ds)"
  by (cases n) simp

section \<open>Every text of the grammar is parsed to its tree\<close>

text \<open>The white space in front does not matter to a reader that skips it.\<close>

lemma skip_ws_idem: "skip_ws p = Some s \<Longrightarrow> skip_ws s = Some s"
  by (induction p) (auto split: if_splits)

lemma array_loop_ws: "skip_ws p = Some s \<Longrightarrow> array_loop pv f s arr m = array_loop pv f p arr m"
  by (cases f) (simp_all add: skip_ws_idem)

lemma object_loop_ws: "skip_ws p = Some s \<Longrightarrow> object_loop pv f s obj m = object_loop pv f p obj m"
  by (cases f) (simp_all add: skip_ws_idem)

lemma parse_value_ws: "skip_ws p = Some s \<Longrightarrow> parse_value f s m = parse_value f p m"
  by (cases f) (simp_all add: skip_ws_idem)

text \<open>How the first byte of a value decides what is read.\<close>

lemma value_head: "json_text t v \<Longrightarrow> \<exists>c r. t = c # r \<and> c \<noteq> 0 \<and> \<not> c \<le> 32 \<and> c \<noteq> 93 \<and> c \<noteq> 125 \<and> c \<noteq> 44 \<and> c \<noteq> 58"
  by (induction rule: json_text_json_elements_json_members.inducts(1) [where ?P2.0 = "\<lambda>_ _. True" and ?P3.0 = "\<lambda>_ _. True"])
    (auto simp: bytes_of_def is_digit_def word_le_nat_alt dest!: number_head)

lemma elements_head:
  assumes "json_elements ts cs"
  shows "\<exists>w c r. ts = w @ c # r \<and> ws w \<and> c \<noteq> 0 \<and> \<not> c \<le> 32 \<and> c \<noteq> 93"
proof -
  obtain w t v x where "ts = w @ t @ x" "ws w" "json_text t v"
    using assms by (cases rule: json_elements.cases) auto
  then show ?thesis using value_head by fastforce
qed

lemma members_head: "json_members ts cs \<Longrightarrow> \<exists>w r. ts = w @ 34 # r \<and> ws w"
  by (erule json_members.cases) auto

lemma value_string:
  assumes "string_body b" "ws w" "mem_ok m"
  shows "\<exists>m'. parse_value (Suc f) (w @ 34 # b @ 34 # r) m =
    Some (Some (Json_Node JSON_NODE_STRING None (Some (unescaped b @ [0])) []), r, m') \<and> mem_ok m'"
proof -
  obtain m1 where m1: "parse_string_literal (34 # b @ 34 # r) m = Some (Some (unescaped b @ [0]), r, m1)" "mem_ok m1"
    using parse_string_accepts [OF assms(1,3), of r] by blast
  have "skip_ws (w @ 34 # b @ 34 # r) = Some (34 # b @ 34 # r)" using assms(2) by (intro skip_ws_stop) simp_all
  then show ?thesis using m1 scalar_node_makes [OF m1(2), of JSON_NODE_STRING "unescaped b @ [0]" r] by (simp add: deref_def)
qed

lemma value_number:
  assumes "number_text t" "ws w" "number_stops c" "mem_ok m"
  shows "\<exists>m'. parse_value (Suc f) (w @ t @ c # r) m =
    Some (Some (Json_Node JSON_NODE_NUMBER None (Some (t @ [0])) []), c # r, m') \<and> mem_ok m'"
proof -
  obtain m1 where m1: "parse_number_literal (t @ c # r) m = Some (Some (t @ [0]), c # r, m1)" "mem_ok m1"
    using parse_number_accepts [OF assms(1,3,4), of r] by blast
  obtain d s where t: "t = d # s" "d = 45 \<or> is_digit d" using number_head [OF assms(1)] by blast
  then have d: "d \<noteq> 0" "d \<noteq> 123" "d \<noteq> 91" "d \<noteq> 34" "\<not> d \<le> 32" by (auto simp: is_digit_def word_le_nat_alt)
  then have "skip_ws (w @ t @ c # r) = Some (t @ c # r)" using skip_ws_stop [OF assms(2), of d "s @ c # r"] t(1) by simp
  then show ?thesis using m1 t d scalar_node_makes [OF m1(2), of JSON_NODE_NUMBER "t @ [0]" "c # r"]
    by (auto simp: deref_def)
qed

lemma value_literal:
  assumes "ws w" "mem_ok m"
  shows "\<exists>m'. parse_value (Suc f) (w @ true_text @ r) m =
      Some (Some (Json_Node JSON_NODE_BOOLEAN None (Some (true_text @ [0])) []), r, m') \<and> mem_ok m'" (is ?t)
    "\<exists>m'. parse_value (Suc f) (w @ false_text @ r) m =
      Some (Some (Json_Node JSON_NODE_BOOLEAN None (Some (false_text @ [0])) []), r, m') \<and> mem_ok m'" (is ?f)
    "\<exists>m'. parse_value (Suc f) (w @ null_text @ r) m =
      Some (Some (Json_Node JSON_NODE_NULL None (Some (null_text @ [0])) []), r, m') \<and> mem_ok m'" (is ?n)
proof -
  have ws: "c = 0 \<or> \<not> c \<le> 32 \<Longrightarrow> skip_ws (w @ c # s) = Some (c # s)" for c s using assms(1) by (rule skip_ws_stop)
  show ?t ?f ?n
    using literal_node_makes [OF literal_texts(1) assms(2), of JSON_NODE_BOOLEAN r]
      literal_node_makes [OF literal_texts(2) assms(2), of JSON_NODE_BOOLEAN r]
      literal_node_makes [OF literal_texts(3) assms(2), of JSON_NODE_NULL r]
    by (auto simp: bytes_of_def ws deref_def is_digit_def)
qed

lemma value_array:
  assumes "ws w" "mem_ok m"
    "\<And>arr m. mem_ok m \<Longrightarrow> \<exists>m'. array_loop (parse_value f) f (ts @ 93 # r) arr m = Some (Some (add_children arr cs), r, m') \<and> mem_ok m'"
    "ts = w' @ d # ts'" "ws w'" "d \<noteq> 0" "\<not> d \<le> 32" "d \<noteq> 93"
  shows "\<exists>m'. parse_value (Suc f) (w @ 91 # ts @ 93 # r) m = Some (Some (Json_Node JSON_NODE_ARRAY None None cs), r, m') \<and> mem_ok m'"
proof -
  obtain m1 where m1: "node_new JSON_NODE_ARRAY m = (Some (Json_Node JSON_NODE_ARRAY None None []), m1)" "mem_ok m1"
    using mem_ok_node [OF assms(2)] by blast
  obtain m2 where m2: "array_loop (parse_value f) f (ts @ 93 # r) (Json_Node JSON_NODE_ARRAY None None []) m1 =
      Some (Some (Json_Node JSON_NODE_ARRAY None None cs), r, m2)" "mem_ok m2"
    using assms(3) [OF m1(2), of "Json_Node JSON_NODE_ARRAY None None []"] by auto
  have s: "skip_ws (ts @ 93 # r) = Some (d # ts' @ 93 # r)" using skip_ws_stop [OF assms(5), of d "ts' @ 93 # r"] assms(4,7) by simp
  have "skip_ws (w @ 91 # ts @ 93 # r) = Some (91 # ts @ 93 # r)" using assms(1) by (intro skip_ws_stop) simp_all
  then show ?thesis using m1 m2 s assms(8) array_loop_ws [OF s]
    by (simp add: parse_array_def deref_def)
qed

lemma value_object:
  assumes "ws w" "mem_ok m"
    "\<And>obj m. mem_ok m \<Longrightarrow> \<exists>m'. object_loop (parse_value f) f (ts @ 125 # r) obj m = Some (Some (add_children obj cs), r, m') \<and> mem_ok m'"
    "ts = w' @ d # ts'" "ws w'" "d \<noteq> 0" "\<not> d \<le> 32" "d \<noteq> 125"
  shows "\<exists>m'. parse_value (Suc f) (w @ 123 # ts @ 125 # r) m = Some (Some (Json_Node JSON_NODE_OBJECT None None cs), r, m') \<and> mem_ok m'"
proof -
  obtain m1 where m1: "node_new JSON_NODE_OBJECT m = (Some (Json_Node JSON_NODE_OBJECT None None []), m1)" "mem_ok m1"
    using mem_ok_node [OF assms(2)] by blast
  obtain m2 where m2: "object_loop (parse_value f) f (ts @ 125 # r) (Json_Node JSON_NODE_OBJECT None None []) m1 =
      Some (Some (Json_Node JSON_NODE_OBJECT None None cs), r, m2)" "mem_ok m2"
    using assms(3) [OF m1(2), of "Json_Node JSON_NODE_OBJECT None None []"] by auto
  have s: "skip_ws (ts @ 125 # r) = Some (d # ts' @ 125 # r)" using skip_ws_stop [OF assms(5), of d "ts' @ 125 # r"] assms(4,7) by simp
  have "skip_ws (w @ 123 # ts @ 125 # r) = Some (123 # ts @ 125 # r)" using assms(1) by (intro skip_ws_stop) simp_all
  then show ?thesis using m1 m2 s assms(8) object_loop_ws [OF s]
    by (simp add: parse_object_def deref_def)
qed

lemma value_empty:
  assumes "ws w" "ws x" "mem_ok m"
  shows "\<exists>m'. parse_value (Suc f) (w @ 91 # x @ 93 # r) m = Some (Some (Json_Node JSON_NODE_ARRAY None None []), r, m') \<and> mem_ok m'"
    "\<exists>m'. parse_value (Suc f) (w @ 123 # x @ 125 # r) m = Some (Some (Json_Node JSON_NODE_OBJECT None None []), r, m') \<and> mem_ok m'"
proof -
  have ws: "\<not> c \<le> 32 \<Longrightarrow> skip_ws (w @ c # s) = Some (c # s)" "\<not> c \<le> 32 \<Longrightarrow> skip_ws (x @ c # s) = Some (c # s)" for c s
    using assms(1,2) by (simp_all add: skip_ws_stop)
  obtain m1 m2 where "node_new JSON_NODE_ARRAY m = (Some (Json_Node JSON_NODE_ARRAY None None []), m1)" "mem_ok m1"
    "node_new JSON_NODE_OBJECT m = (Some (Json_Node JSON_NODE_OBJECT None None []), m2)" "mem_ok m2"
    using mem_ok_node [OF assms(3)] by meson
  then show "\<exists>m'. parse_value (Suc f) (w @ 91 # x @ 93 # r) m = Some (Some (Json_Node JSON_NODE_ARRAY None None []), r, m') \<and> mem_ok m'"
    "\<exists>m'. parse_value (Suc f) (w @ 123 # x @ 125 # r) m = Some (Some (Json_Node JSON_NODE_OBJECT None None []), r, m') \<and> mem_ok m'"
    by (auto simp: ws deref_def parse_array_def parse_object_def)
qed

text \<open>A round of a loop whose value is read, and how it goes on.\<close>

lemma array_loop_round:
  assumes "pv (w1 @ t @ w2 @ d # s) m = Some (Some v, w2 @ d # s, m1)" "ws w1" "ws w2" "json_text t v" "\<not> d \<le> 32"
    "\<And>p. skip_ws (w1 @ t @ w2 @ d # s) = Some p \<Longrightarrow> pv p m = pv (w1 @ t @ w2 @ d # s) m"
  shows "array_loop pv (Suc f) (w1 @ t @ w2 @ d # s) arr m =
    (if d = 44 then array_loop pv f s (add_children arr [v]) m1
     else if d = 93 then Some (Some (add_children arr [v]), s, m1)
     else Some (None, d # s, node_free_recursive (add_children arr [v]) m1))"
proof -
  obtain c r where t: "t = c # r" "c \<noteq> 0" "\<not> c \<le> 32" using value_head [OF assms(4)] by blast
  then obtain p where p: "skip_ws (w1 @ t @ w2 @ d # s) = Some p"
    using skip_ws_stop [OF assms(2), of c "r @ w2 @ d # s"] by simp
  show ?thesis using p assms(6) [OF p] assms(1) skip_ws_stop [OF assms(3), of d s] assms(5)
    by (simp add: deref_def add_child del: parse_value.simps)
qed

lemma object_loop_round:
  assumes "parse_string_literal (34 # b @ 34 # w2 @ 58 # w3 @ t @ w4 @ d # s) m =
      Some (Some k, w2 @ 58 # w3 @ t @ w4 @ d # s, m1)"
    "pv (w3 @ t @ w4 @ d # s) m1 = Some (Some v, w4 @ d # s, m2)"
    "ws w1" "ws w2" "ws w3" "ws w4" "json_text t v" "\<not> d \<le> 32"
    "\<And>p. skip_ws (w3 @ t @ w4 @ d # s) = Some p \<Longrightarrow> pv p m1 = pv (w3 @ t @ w4 @ d # s) m1"
  shows "object_loop pv (Suc f) (w1 @ 34 # b @ 34 # w2 @ 58 # w3 @ t @ w4 @ d # s) obj m =
    (if d = 44 then object_loop pv f s (add_children obj [set_name (Some k) v]) m2
     else if d = 125 then Some (Some (add_children obj [set_name (Some k) v]), s, m2)
     else Some (None, d # s, node_free_recursive (add_children obj [set_name (Some k) v]) m2))"
proof -
  obtain c r where t: "t = c # r" "c \<noteq> 0" "\<not> c \<le> 32" using value_head [OF assms(7)] by blast
  then obtain p where p: "skip_ws (w3 @ t @ w4 @ d # s) = Some p"
    using skip_ws_stop [OF assms(5), of c "r @ w4 @ d # s"] by simp
  have "skip_ws (w1 @ 34 # b @ 34 # w2 @ 58 # w3 @ t @ w4 @ d # s) = Some (34 # b @ 34 # w2 @ 58 # w3 @ t @ w4 @ d # s)"
    "skip_ws (w2 @ 58 # w3 @ t @ w4 @ d # s) = Some (58 # w3 @ t @ w4 @ d # s)"
    using assms(3,4) by (simp_all add: skip_ws_stop)
  then show ?thesis using p assms(9) [OF p] assms(1,2) skip_ws_stop [OF assms(6), of d s] assms(8)
    by (simp add: deref_def add_child del: parse_value.simps)
qed

lemma grammar_is_parsed:
  "json_text t v \<Longrightarrow> \<forall>f w c r m. ws w \<longrightarrow> number_stops c \<longrightarrow> mem_ok m \<longrightarrow> length t \<le> f \<longrightarrow>
    (\<exists>m'. parse_value f (w @ t @ c # r) m = Some (Some v, c # r, m') \<and> mem_ok m')"
  "json_elements ts cs \<Longrightarrow> \<forall>f g r arr m. mem_ok m \<longrightarrow> length ts < f \<longrightarrow> length ts \<le> g \<longrightarrow>
    (\<exists>m'. array_loop (parse_value g) f (ts @ 93 # r) arr m = Some (Some (add_children arr cs), r, m') \<and> mem_ok m')"
  "json_members ms ds \<Longrightarrow> \<forall>f g r obj m. mem_ok m \<longrightarrow> length ms < f \<longrightarrow> length ms \<le> g \<longrightarrow>
    (\<exists>m'. object_loop (parse_value g) f (ms @ 125 # r) obj m = Some (Some (add_children obj ds), r, m') \<and> mem_ok m')"
proof (induction rule: json_text_json_elements_json_members.inducts)
  case (String b)
  show ?case
  proof (intro allI impI)
    fix f w c r m assume a: "ws w" "number_stops c" "mem_ok m" "length (34 # b @ [34]) \<le> f"
    then obtain g where "f = Suc g" by (cases f) auto
    then show "\<exists>m'. parse_value f (w @ (34 # b @ [34]) @ c # r) m =
        Some (Some (Json_Node JSON_NODE_STRING None (Some (unescaped b @ [0])) []), c # r, m') \<and> mem_ok m'"
      using value_string [OF String a(1,3), of g "c # r"] by (simp del: parse_value.simps)
  qed
next
  case (Number t)
  show ?case
  proof (intro allI impI)
    fix f w c r m assume a: "ws w" "number_stops c" "mem_ok m" "length t \<le> f"
    then obtain g where "f = Suc g" using number_head [OF Number] by (cases f) auto
    then show "\<exists>m'. parse_value f (w @ t @ c # r) m =
        Some (Some (Json_Node JSON_NODE_NUMBER None (Some (t @ [0])) []), c # r, m') \<and> mem_ok m'"
      using value_number [OF Number a(1-3)] by simp
  qed
next
  case True_Text
  show ?case
  proof (intro allI impI)
    fix f w and c :: byte and r m assume a: "ws w" "number_stops c" "mem_ok m" "length true_text \<le> f"
    then obtain g where "f = Suc g" by (cases f) (auto simp: bytes_of_def)
    then show "\<exists>m'. parse_value f (w @ true_text @ c # r) m =
        Some (Some (Json_Node JSON_NODE_BOOLEAN None (Some (true_text @ [0])) []), c # r, m') \<and> mem_ok m'"
      using value_literal(1) [OF a(1,3)] by simp
  qed
next
  case False_Text
  show ?case
  proof (intro allI impI)
    fix f w and c :: byte and r m assume a: "ws w" "number_stops c" "mem_ok m" "length false_text \<le> f"
    then obtain g where "f = Suc g" by (cases f) (auto simp: bytes_of_def)
    then show "\<exists>m'. parse_value f (w @ false_text @ c # r) m =
        Some (Some (Json_Node JSON_NODE_BOOLEAN None (Some (false_text @ [0])) []), c # r, m') \<and> mem_ok m'"
      using value_literal(2) [OF a(1,3)] by simp
  qed
next
  case Null_Text
  show ?case
  proof (intro allI impI)
    fix f w and c :: byte and r m assume a: "ws w" "number_stops c" "mem_ok m" "length null_text \<le> f"
    then obtain g where "f = Suc g" by (cases f) (auto simp: bytes_of_def)
    then show "\<exists>m'. parse_value f (w @ null_text @ c # r) m =
        Some (Some (Json_Node JSON_NODE_NULL None (Some (null_text @ [0])) []), c # r, m') \<and> mem_ok m'"
      using value_literal(3) [OF a(1,3)] by simp
  qed
next
  case (Empty_Array x)
  show ?case
  proof (intro allI impI)
    fix f w and c :: byte and r m assume a: "ws w" "number_stops c" "mem_ok m" "length (91 # x @ [93]) \<le> f"
    then obtain g where "f = Suc g" by (cases f) auto
    then show "\<exists>m'. parse_value f (w @ (91 # x @ [93]) @ c # r) m =
        Some (Some (Json_Node JSON_NODE_ARRAY None None []), c # r, m') \<and> mem_ok m'"
      using value_empty(1) [OF a(1) Empty_Array a(3), of g "c # r"] by (simp del: parse_value.simps)
  qed
next
  case (Array ts cs)
  show ?case
  proof (intro allI impI)
    fix f w and c :: byte and r m assume a: "ws w" "number_stops c" "mem_ok m" "length (91 # ts @ [93]) \<le> f"
    then obtain g where g: "f = Suc g" "length ts < g" by (cases f) auto
    obtain w' d ts' where ts: "ts = w' @ d # ts'" "ws w'" "d \<noteq> 0" "\<not> d \<le> 32" "d \<noteq> 93" using elements_head [OF Array(1)] by blast
    have "\<exists>m'. array_loop (parse_value g) g (ts @ 93 # c # r) arr m = Some (Some (add_children arr cs), c # r, m') \<and> mem_ok m'"
      if "mem_ok m" for arr m using Array(2) that g(2) by simp
    from value_array [OF a(1,3) this ts]
    show "\<exists>m'. parse_value f (w @ (91 # ts @ [93]) @ c # r) m =
        Some (Some (Json_Node JSON_NODE_ARRAY None None cs), c # r, m') \<and> mem_ok m'"
      using g(1) by (simp del: parse_value.simps)
  qed
next
  case (Empty_Object x)
  show ?case
  proof (intro allI impI)
    fix f w and c :: byte and r m assume a: "ws w" "number_stops c" "mem_ok m" "length (123 # x @ [125]) \<le> f"
    then obtain g where "f = Suc g" by (cases f) auto
    then show "\<exists>m'. parse_value f (w @ (123 # x @ [125]) @ c # r) m =
        Some (Some (Json_Node JSON_NODE_OBJECT None None []), c # r, m') \<and> mem_ok m'"
      using value_empty(2) [OF a(1) Empty_Object a(3), of g "c # r"] by (simp del: parse_value.simps)
  qed
next
  case (Object ts cs)
  show ?case
  proof (intro allI impI)
    fix f w and c :: byte and r m assume a: "ws w" "number_stops c" "mem_ok m" "length (123 # ts @ [125]) \<le> f"
    then obtain g where g: "f = Suc g" "length ts < g" by (cases f) auto
    obtain w' ts' where ts: "ts = w' @ 34 # ts'" "ws w'" using members_head [OF Object(1)] by blast
    have "\<exists>m'. object_loop (parse_value g) g (ts @ 125 # c # r) obj m = Some (Some (add_children obj cs), c # r, m') \<and> mem_ok m'"
      if "mem_ok m" for obj m using Object(2) that g(2) by simp
    from value_object [OF a(1,3) this ts]
    show "\<exists>m'. parse_value f (w @ (123 # ts @ [125]) @ c # r) m =
        Some (Some (Json_Node JSON_NODE_OBJECT None None cs), c # r, m') \<and> mem_ok m'"
      using g(1) by (simp del: parse_value.simps)
  qed
next
  case (One w1 t v w2)
  show ?case
  proof (intro allI impI)
    fix f g r arr m assume a: "mem_ok m" "length (w1 @ t @ w2) < f" "length (w1 @ t @ w2) \<le> g"
    obtain h where f: "f = Suc h" using a(2) by (cases f) auto
    obtain c s where c: "w2 @ 93 # r = c # s" "number_stops c" using follows [OF One(3), of 93 r] by auto
    obtain m1 where "parse_value g (w1 @ t @ w2 @ 93 # r) m = Some (Some v, w2 @ 93 # r, m1)" "mem_ok m1"
      using One(4) [rule_format, OF One(1) c(2) a(1), of g s] a(3) c(1) by auto
    then show "\<exists>m'. array_loop (parse_value g) f ((w1 @ t @ w2) @ 93 # r) arr m = Some (Some (add_children arr [v]), r, m') \<and> mem_ok m'"
      using array_loop_round [of "parse_value g" w1 t w2 93 r m v m1 h arr, OF _ One(1,3,2) _ parse_value_ws] f
      by (simp del: array_loop.simps)
  qed
next
  case (More w1 t v w2 ts cs)
  show ?case
  proof (intro allI impI)
    fix f g r arr m assume a: "mem_ok m" "length (w1 @ t @ w2 @ 44 # ts) < f" "length (w1 @ t @ w2 @ 44 # ts) \<le> g"
    obtain h where f: "f = Suc h" "length ts < h" "length ts \<le> g" using a(2,3) by (cases f) auto
    obtain c s where c: "w2 @ 44 # ts @ 93 # r = c # s" "number_stops c" using follows [OF More(3), of 44 "ts @ 93 # r"] by auto
    obtain m1 where v: "parse_value g (w1 @ t @ w2 @ 44 # ts @ 93 # r) m = Some (Some v, w2 @ 44 # ts @ 93 # r, m1)" "mem_ok m1"
      using More(5) [rule_format, OF More(1) c(2) a(1), of g s] a(3) c(1) by auto
    obtain m' where "array_loop (parse_value g) h (ts @ 93 # r) (add_children arr [v]) m1 =
        Some (Some (add_children (add_children arr [v]) cs), r, m')" "mem_ok m'"
      using More(6) v(2) f by blast
    then show "\<exists>m'. array_loop (parse_value g) f ((w1 @ t @ w2 @ 44 # ts) @ 93 # r) arr m =
        Some (Some (add_children arr (v # cs)), r, m') \<and> mem_ok m'"
      using array_loop_round [of "parse_value g" w1 t w2 44 "ts @ 93 # r" m v m1 h arr, OF v(1) More(1,3,2) _ parse_value_ws] f
      by (simp del: array_loop.simps)
  qed
next
  case (One_Member w1 b w2 w3 t v w4)
  show ?case
  proof (intro allI impI)
    fix f g r obj m assume a: "mem_ok m" "length (w1 @ 34 # b @ 34 # w2 @ 58 # w3 @ t @ w4) < f"
      "length (w1 @ 34 # b @ 34 # w2 @ 58 # w3 @ t @ w4) \<le> g"
    obtain h where f: "f = Suc h" using a(2) by (cases f) auto
    obtain m1 where k: "parse_string_literal (34 # b @ 34 # w2 @ 58 # w3 @ t @ w4 @ 125 # r) m =
        Some (Some (unescaped b @ [0]), w2 @ 58 # w3 @ t @ w4 @ 125 # r, m1)" "mem_ok m1"
      using parse_string_accepts [OF One_Member(2) a(1)] by blast
    obtain c s where c: "w4 @ 125 # r = c # s" "number_stops c" using follows [OF One_Member(6), of 125 r] by auto
    obtain m2 where v: "parse_value g (w3 @ t @ w4 @ 125 # r) m1 = Some (Some v, w4 @ 125 # r, m2)" "mem_ok m2"
      using One_Member(7) [rule_format, OF One_Member(4) c(2) k(2), of g s] a(3) c(1) by auto
    show "\<exists>m'. object_loop (parse_value g) f ((w1 @ 34 # b @ 34 # w2 @ 58 # w3 @ t @ w4) @ 125 # r) obj m =
        Some (Some (add_children obj [set_name (Some (unescaped b @ [0])) v]), r, m') \<and> mem_ok m'"
      using object_loop_round [of b w2 w3 t w4 125 r m _ m1 "parse_value g" v m2 w1 h obj,
          OF k(1) v(1) One_Member(1,3,4,6,5) _ parse_value_ws] v(2) f
      by (simp del: object_loop.simps)
  qed
next
  case (More_Members w1 b w2 w3 t v w4 ts cs)
  show ?case
  proof (intro allI impI)
    fix f g r obj m assume a: "mem_ok m" "length (w1 @ 34 # b @ 34 # w2 @ 58 # w3 @ t @ w4 @ 44 # ts) < f"
      "length (w1 @ 34 # b @ 34 # w2 @ 58 # w3 @ t @ w4 @ 44 # ts) \<le> g"
    obtain h where f: "f = Suc h" "length ts < h" "length ts \<le> g" using a(2,3) by (cases f) auto
    obtain m1 where k: "parse_string_literal (34 # b @ 34 # w2 @ 58 # w3 @ t @ w4 @ 44 # ts @ 125 # r) m =
        Some (Some (unescaped b @ [0]), w2 @ 58 # w3 @ t @ w4 @ 44 # ts @ 125 # r, m1)" "mem_ok m1"
      using parse_string_accepts [OF More_Members(2) a(1)] by blast
    obtain c s where c: "w4 @ 44 # ts @ 125 # r = c # s" "number_stops c" using follows [OF More_Members(6), of 44 "ts @ 125 # r"] by auto
    obtain m2 where v: "parse_value g (w3 @ t @ w4 @ 44 # ts @ 125 # r) m1 = Some (Some v, w4 @ 44 # ts @ 125 # r, m2)" "mem_ok m2"
      using More_Members(8) [rule_format, OF More_Members(4) c(2) k(2), of g s] a(3) c(1) by auto
    obtain m' where "object_loop (parse_value g) h (ts @ 125 # r) (add_children obj [set_name (Some (unescaped b @ [0])) v]) m2 =
        Some (Some (add_children (add_children obj [set_name (Some (unescaped b @ [0])) v]) cs), r, m')" "mem_ok m'"
      using More_Members(9) v(2) f by blast
    then show "\<exists>m'. object_loop (parse_value g) f ((w1 @ 34 # b @ 34 # w2 @ 58 # w3 @ t @ w4 @ 44 # ts) @ 125 # r) obj m =
        Some (Some (add_children obj (set_name (Some (unescaped b @ [0])) v # cs)), r, m') \<and> mem_ok m'"
      using object_loop_round [of b w2 w3 t w4 44 "ts @ 125 # r" m _ m1 "parse_value g" v m2 w1 h obj,
          OF k(1) v(1) More_Members(1,3,4,6,5) _ parse_value_ws] f
      by (simp del: object_loop.simps)
  qed
qed

section \<open>What is parsed is in the grammar\<close>

lemma string_scan_split: "string_scan s = Some (34 # r) \<Longrightarrow> \<exists>b. s = b @ 34 # r \<and> string_body b"
proof (induction s rule: string_scan.induct)
  case (2 c s)
  show ?case
  proof (cases "c = 0 \<or> c = 34")
    case True
    then show ?thesis using "2.prems" by (intro exI [of _ "[]"]) auto
  next
    case stop: False
    show ?thesis
    proof (cases "c = 92")
      case False
      then obtain b where "s = b @ 34 # r" "string_body b" using "2.IH"(3) "2.prems" stop by auto
      then show ?thesis using stop False by (intro exI [of _ "c # b"]) auto
    next
      case True
      then obtain d s' where s: "s = d # s'" using "2.prems" by (cases s) auto
      have "d \<noteq> 0" using "2.prems" s True by auto
      then obtain b where "s' = b @ 34 # r" "string_body b" using "2.IH"(1) "2.prems" stop s True by auto
      then show ?thesis using s True \<open>d \<noteq> 0\<close> by (intro exI [of _ "c # d # b"]) auto
    qed
  qed
qed simp

lemma mem_ok_step: "mem_ok m \<Longrightarrow> xmalloc m = (ok, m') \<Longrightarrow> ok \<and> mem_ok m'"
  using mem_ok_xmalloc by fastforce

lemma mem_ok_node_step: "mem_ok m \<Longrightarrow> node_new ty m = (n, m') \<Longrightarrow> n = Some (Json_Node ty None None []) \<and> mem_ok m'"
  using mem_ok_node [of m ty] by auto

lemma parse_string_splits:
  assumes "parse_string_literal p m = Some (k, s, m')" "mem_ok m"
  shows "mem_ok m'"
    "k = None \<Longrightarrow> s = p"
    "k = Some d \<Longrightarrow> \<exists>b. p = 34 # b @ 34 # s \<and> string_body b \<and> d = unescaped b @ [0]"
proof -
  obtain c r where p: "p = c # r" using assms(1) by (cases p) (auto simp: parse_string_literal_def deref_def)
  have "mem_ok m' \<and> (k = None \<longrightarrow> s = p) \<and> (k = Some d \<longrightarrow> (\<exists>b. p = 34 # b @ 34 # s \<and> string_body b \<and> d = unescaped b @ [0]))"
  proof (cases "c = 34")
    case False
    then show ?thesis using assms p by (auto simp: parse_string_literal_def deref_def)
  next
    case True
    then obtain q u where q: "string_scan r = Some (q # u)" using assms(1) p
      by (auto simp: parse_string_literal_def deref_def dest!: bind_eq_SomeD split: list.splits)
    show ?thesis
    proof (cases "q = 34")
      case False
      then show ?thesis using assms p True q by (auto simp: parse_string_literal_def deref_def)
    next
      case quote: True
      then obtain b where b: "r = b @ 34 # u" "string_body b" using string_scan_split q by blast
      show ?thesis using parse_string_accepts [OF b(2) assms(2), of u] assms(1) p True b by auto
    qed
  qed
  then show "mem_ok m'" "k = None \<Longrightarrow> s = p" "k = Some d \<Longrightarrow> \<exists>b. p = 34 # b @ 34 # s \<and> string_body b \<and> d = unescaped b @ [0]"
    by auto
qed

lemma parse_number_splits:
  assumes "parse_number_literal p m = Some (Some d, s, m')" "mem_ok m"
  shows "mem_ok m' \<and> (\<exists>t. p = t @ s \<and> number_text t \<and> d = t @ [0])"
proof -
  obtain s' where s': "number_end p = Some (Some s')" using assms(1)
    by (auto simp: parse_number_literal_def dest!: bind_eq_SomeD split: option.splits)
  then obtain t where "p = t @ s'" "number_text t" using number_end_split by blast
  then show ?thesis using assms s' by (auto simp: parse_number_literal_def dest: mem_ok_step split: prod.splits if_splits)
qed

lemma scalar_node_splits:
  assumes "scalar_node ty str p m = Some (Some v, s, m')" "mem_ok m"
  shows "\<exists>d. str = Some d \<and> s = p \<and> mem_ok m' \<and> v = Json_Node ty None (Some d) []"
proof (cases str)
  case (Some d)
  then show ?thesis using assms scalar_node_makes [OF assms(2), of ty d p] by auto
qed (use assms in \<open>simp add: scalar_node_def\<close>)

text \<open>What is asked of the reader of the nested values.\<close>

definition reads_text :: "(byte list \<Rightarrow> json_mem \<Rightarrow> json_result) \<Rightarrow> bool" where
  "reads_text pv = (\<forall>p m v s m'. mem_ok m \<longrightarrow> pv p m = Some (Some v, s, m') \<longrightarrow>
     mem_ok m' \<and> (\<exists>w t. p = w @ t @ s \<and> ws w \<and> json_text t v))"

lemma reads_textD:
  assumes "reads_text pv" "pv p m = Some (Some v, s, m')" "mem_ok m"
  obtains w t where "mem_ok m'" "p = w @ t @ s" "ws w" "json_text t v"
  using assms(1) [unfolded reads_text_def, rule_format, OF assms(3,2)] that by blast

lemma skip_ws_before: "skip_ws p = Some (w @ s) \<Longrightarrow> ws w \<Longrightarrow> \<exists>w'. p = w' @ s \<and> ws w'"
  using skip_ws_split [of p "w @ s"] by (auto simp: ws_def)

lemma array_loop_reads:
  assumes pv: "reads_text pv"
  shows "array_loop pv f p arr m = Some (Some v, s, m') \<Longrightarrow> mem_ok m \<Longrightarrow>
    mem_ok m' \<and> (\<exists>ts cs. p = ts @ 93 # s \<and> json_elements ts cs \<and> v = add_children arr cs)"
proof (induction f arbitrary: p arr m)
  case (Suc f)
  obtain p1 where p1: "skip_ws p = Some p1" using Suc.prems(1) by (auto dest!: bind_eq_SomeD)
  obtain e s1 m1 where e: "pv p1 m = Some (Some e, s1, m1)" using Suc.prems(1) p1
    by (auto dest!: bind_eq_SomeD split: option.splits)
  obtain w t where t: "mem_ok m1" "p1 = w @ t @ s1" "ws w" "json_text t e" using reads_textD [OF pv e Suc.prems(2)] by blast
  obtain w1 where w1: "p = w1 @ t @ s1" "ws w1" using skip_ws_before [of p w "t @ s1"] p1 t by auto
  obtain s2 where s2: "skip_ws s1 = Some s2" using Suc.prems(1) p1 e by (auto simp: Let_def dest!: bind_eq_SomeD)
  then obtain w2 where w2: "s1 = w2 @ s2" "ws w2" using skip_ws_split by blast
  obtain c r where c: "s2 = c # r" using Suc.prems(1) p1 e s2 by (cases s2) (auto simp: deref_def)
  consider "c = 44" | "c = 93" using Suc.prems(1) p1 e s2 c by (auto simp: deref_def Let_def split: if_splits)
  then show ?case
  proof cases
    case 1
    then have "array_loop pv f r (add_children arr [e]) m1 = Some (Some v, s, m')"
      using Suc.prems(1) p1 e s2 c by (simp add: deref_def add_child)
    from Suc.IH [OF this t(1)] obtain ts cs where ts: "mem_ok m'" "r = ts @ 93 # s" "json_elements ts cs" "v = add_children arr (e # cs)"
      by auto
    then have "p = (w1 @ t @ w2 @ 44 # ts) @ 93 # s" using w1(1) w2(1) c 1 by simp
    then show ?thesis using ts More [OF w1(2) t(4) w2(2) ts(3)] by blast
  next
    case 2
    then have "p = (w1 @ t @ w2) @ 93 # s" "v = add_children arr [e]" "m' = m1"
      using Suc.prems(1) p1 e s2 c w1(1) w2(1) by (simp_all add: deref_def add_child)
    then show ?thesis using t(1) One [OF w1(2) t(4) w2(2)] by blast
  qed
qed simp

lemma object_loop_reads:
  assumes pv: "reads_text pv"
  shows "object_loop pv f p obj m = Some (Some v, s, m') \<Longrightarrow> mem_ok m \<Longrightarrow>
    mem_ok m' \<and> (\<exists>ts cs. p = ts @ 125 # s \<and> json_members ts cs \<and> v = add_children obj cs)"
proof (induction f arbitrary: p obj m)
  case (Suc f)
  obtain p1 where p1: "skip_ws p = Some p1" using Suc.prems(1) by (auto dest!: bind_eq_SomeD)
  obtain r1 where r1: "p1 = 34 # r1" using Suc.prems(1) p1 by (cases p1) (auto simp: deref_def split: if_splits)
  obtain k s1 m1 where k: "parse_string_literal p1 m = Some (k, s1, m1)" using Suc.prems(1) p1 r1
    by (auto simp: deref_def dest!: bind_eq_SomeD)
  note m1 = parse_string_splits(1) [OF k Suc.prems(2)]
  obtain s2 where s2: "skip_ws s1 = Some s2" using Suc.prems(1) p1 r1 k by (auto simp: deref_def dest!: bind_eq_SomeD)
  obtain r2 where r2: "s2 = 58 # r2" using Suc.prems(1) p1 r1 k s2 by (cases s2) (auto simp: deref_def split: if_splits)
  obtain d where d: "k = Some d"
  proof (cases k)
    case None
    then have "s1 = 34 # r1" using parse_string_splits(2) [OF k Suc.prems(2)] r1 by simp
    then show ?thesis using s2 r2 by simp
  qed
  obtain b where b: "p1 = 34 # b @ 34 # s1" "string_body b" "d = unescaped b @ [0]"
    using parse_string_splits(3) [OF k Suc.prems(2) d] by blast
  obtain s3 where s3: "skip_ws r2 = Some s3" using Suc.prems(1) p1 r1 k s2 r2 by (auto simp: deref_def dest!: bind_eq_SomeD)
  obtain e s4 m4 where e: "pv s3 m1 = Some (Some e, s4, m4)" using Suc.prems(1) p1 r1 k s2 r2 s3
    by (auto simp: deref_def dest!: bind_eq_SomeD split: option.splits)
  obtain w t where t: "mem_ok m4" "s3 = w @ t @ s4" "ws w" "json_text t e" using reads_textD [OF pv e m1] by blast
  obtain w1 where w1: "p = w1 @ p1" "ws w1" using skip_ws_split [OF p1] by blast
  obtain w2 where w2: "s1 = w2 @ s2" "ws w2" using skip_ws_split [OF s2] by blast
  obtain w3 where w3: "r2 = w3 @ t @ s4" "ws w3" using skip_ws_before [of r2 w "t @ s4"] s3 t by auto
  obtain s5 where s5: "skip_ws s4 = Some s5" using Suc.prems(1) p1 r1 k s2 r2 s3 e by (auto simp: deref_def Let_def dest!: bind_eq_SomeD)
  then obtain w4 where w4: "s4 = w4 @ s5" "ws w4" using skip_ws_split by blast
  note run = p1 r1 k s2 r2 s3 e s5
  obtain c r where c: "s5 = c # r" using Suc.prems(1) run by (cases s5) (auto simp: deref_def)
  define e' where "e' = set_name (Some (unescaped b @ [0])) e"
  consider "c = 44" | "c = 125" using Suc.prems(1) run c by (auto simp: deref_def Let_def split: if_splits)
  then show ?case
  proof cases
    case 1
    then have "object_loop pv f r (add_children obj [e']) m4 = Some (Some v, s, m')"
      using Suc.prems(1) run c d b(3) by (simp add: deref_def add_child e'_def)
    from Suc.IH [OF this t(1)] obtain ts cs where ts: "mem_ok m'" "r = ts @ 125 # s" "json_members ts cs" "v = add_children obj (e' # cs)"
      by auto
    then have "p = (w1 @ 34 # b @ 34 # w2 @ 58 # w3 @ t @ w4 @ 44 # ts) @ 125 # s" using w1(1) b(1) w2(1) r2 w3(1) w4(1) c 1 by simp
    then show ?thesis using ts More_Members [OF w1(2) b(2) w2(2) w3(2) t(4) w4(2) ts(3)] unfolding e'_def by blast
  next
    case 2
    then have "v = add_children obj [e']" "s = r" "m' = m4"
      using Suc.prems(1) run c d b(3) by (simp_all add: deref_def add_child e'_def)
    moreover have "p = (w1 @ 34 # b @ 34 # w2 @ 58 # w3 @ t @ w4) @ 125 # r" using w1(1) b(1) w2(1) r2 w3(1) w4(1) c 2 by simp
    ultimately show ?thesis using t(1) One_Member [OF w1(2) b(2) w2(2) w3(2) t(4) w4(2)] unfolding e'_def by blast
  qed
qed simp

lemma parse_array_reads:
  assumes pv: "reads_text pv" and "parse_array pv f p m = Some (Some v, s, m')" "mem_ok m"
  shows "mem_ok m' \<and> (\<exists>t. p = t @ s \<and> json_text t v)"
proof -
  obtain r where p: "p = 91 # r" using assms(2) by (cases p) (auto simp: parse_array_def deref_def split: if_splits)
  obtain p1 where p1: "skip_ws r = Some p1" using assms(2) p by (auto simp: parse_array_def deref_def dest!: bind_eq_SomeD)
  then obtain w where w: "r = w @ p1" "ws w" using skip_ws_split by blast
  obtain c q where c: "p1 = c # q" using p1 by (cases p1) (auto dest: skip_ws_idem)
  define arr where "arr = Json_Node JSON_NODE_ARRAY None None []"
  obtain m1 where m1: "node_new JSON_NODE_ARRAY m = (Some arr, m1)" "mem_ok m1" using mem_ok_node [OF assms(3)] arr_def by blast
  show ?thesis
  proof (cases "c = 93")
    case True
    then have "v = arr" "s = q" "m' = m1" using assms(2) p p1 c m1 by (auto simp: parse_array_def deref_def)
    moreover have "p = (91 # w @ [93]) @ q" using p w c True by simp
    ultimately show ?thesis using m1(2) Empty_Array [OF w(2)] arr_def by blast
  next
    case False
    then have "array_loop pv f p1 arr m1 = Some (Some v, s, m')" using assms(2) p p1 c m1
      by (auto simp: parse_array_def deref_def dest!: bind_eq_SomeD split: if_splits)
    then have "array_loop pv f r arr m1 = Some (Some v, s, m')" using array_loop_ws [OF p1] by simp
    from array_loop_reads [OF pv this m1(2)] obtain ts cs where ts: "mem_ok m'" "r = ts @ 93 # s" "json_elements ts cs"
      "v = Json_Node JSON_NODE_ARRAY None None cs"
      by (auto simp: arr_def)
    then have "p = (91 # ts @ [93]) @ s" using p by simp
    then show ?thesis using ts Array [OF ts(3)] by blast
  qed
qed

lemma parse_object_reads:
  assumes pv: "reads_text pv" and "parse_object pv f p m = Some (Some v, s, m')" "mem_ok m"
  shows "mem_ok m' \<and> (\<exists>t. p = t @ s \<and> json_text t v)"
proof -
  obtain r where p: "p = 123 # r" using assms(2) by (cases p) (auto simp: parse_object_def deref_def split: if_splits)
  obtain p1 where p1: "skip_ws r = Some p1" using assms(2) p by (auto simp: parse_object_def deref_def dest!: bind_eq_SomeD)
  then obtain w where w: "r = w @ p1" "ws w" using skip_ws_split by blast
  obtain c q where c: "p1 = c # q" using p1 by (cases p1) (auto dest: skip_ws_idem)
  define obj where "obj = Json_Node JSON_NODE_OBJECT None None []"
  obtain m1 where m1: "node_new JSON_NODE_OBJECT m = (Some obj, m1)" "mem_ok m1" using mem_ok_node [OF assms(3)] obj_def by blast
  show ?thesis
  proof (cases "c = 125")
    case True
    then have "v = obj" "s = q" "m' = m1" using assms(2) p p1 c m1 by (auto simp: parse_object_def deref_def)
    moreover have "p = (123 # w @ [125]) @ q" using p w c True by simp
    ultimately show ?thesis using m1(2) Empty_Object [OF w(2)] obj_def by blast
  next
    case False
    then have "object_loop pv f p1 obj m1 = Some (Some v, s, m')" using assms(2) p p1 c m1
      by (auto simp: parse_object_def deref_def dest!: bind_eq_SomeD split: if_splits)
    then have "object_loop pv f r obj m1 = Some (Some v, s, m')" using object_loop_ws [OF p1] by simp
    from object_loop_reads [OF pv this m1(2)] obtain ts cs where ts: "mem_ok m'" "r = ts @ 125 # s" "json_members ts cs"
      "v = Json_Node JSON_NODE_OBJECT None None cs"
      by (auto simp: obj_def)
    then have "p = (123 # ts @ [125]) @ s" using p by simp
    then show ?thesis using ts Object [OF ts(3)] by blast
  qed
qed

lemma parse_value_reads: "reads_text (parse_value f)"
proof (induction f)
  case (Suc f)
  show ?case unfolding reads_text_def
  proof (intro allI impI)
    fix p m v s m' assume mem: "mem_ok m" and pv: "parse_value (Suc f) p m = Some (Some v, s, m')"
    obtain p1 where p1: "skip_ws p = Some p1" using pv by (auto dest!: bind_eq_SomeD)
    then obtain w where w: "p = w @ p1" "ws w" using skip_ws_split by blast
    obtain c r where c: "p1 = c # r" using pv p1 by (cases p1) (auto simp: deref_def)
    have "mem_ok m' \<and> (\<exists>t. p1 = t @ s \<and> json_text t v)"
    proof -
      consider "c = 0" | "c = 123" | "c = 91" | "c = 34" | "c = 45 \<or> is_digit c"
        | "c \<noteq> 0" "c \<noteq> 123" "c \<noteq> 91" "c \<noteq> 34" "c \<noteq> 45" "\<not> is_digit c" by blast
      then show ?thesis
      proof cases
        case 1
        then show ?thesis using pv p1 c by (simp add: deref_def)
      next
        case 2
        then show ?thesis using pv p1 c parse_object_reads [OF Suc.IH _ mem, of f p1] by (simp add: deref_def)
      next
        case 3
        then show ?thesis using pv p1 c parse_array_reads [OF Suc.IH _ mem, of f p1] by (simp add: deref_def)
      next
        case 4
        then obtain k q m1 where k: "parse_string_literal p1 m = Some (k, q, m1)" "scalar_node JSON_NODE_STRING k q m1 = Some (Some v, s, m')"
          using pv p1 c by (auto simp: deref_def dest!: bind_eq_SomeD)
        obtain d where d: "k = Some d" "s = q" "mem_ok m'" "v = Json_Node JSON_NODE_STRING None (Some d) []"
          using scalar_node_splits [OF k(2) parse_string_splits(1) [OF k(1) mem]] by blast
        obtain b where b: "p1 = 34 # b @ 34 # s" "string_body b" "d = unescaped b @ [0]"
          using parse_string_splits(3) [OF k(1) mem d(1)] d(2) by blast
        then have "p1 = (34 # b @ [34]) @ s" by simp
        then show ?thesis using d b String [OF b(2)] by blast
      next
        case 5
        then have "c \<noteq> 0" "c \<noteq> 123" "c \<noteq> 91" "c \<noteq> 34" by (auto simp: is_digit_def)
        then obtain k q m1 where k: "parse_number_literal p1 m = Some (k, q, m1)" "scalar_node JSON_NODE_NUMBER k q m1 = Some (Some v, s, m')"
          using pv p1 c 5 by (auto simp: deref_def dest!: bind_eq_SomeD)
        obtain d where d: "k = Some d" using k(2) by (cases k) (simp_all add: scalar_node_def)
        then have t: "mem_ok m1" "\<exists>t. p1 = t @ q \<and> number_text t \<and> d = t @ [0]" using parse_number_splits [of p1 m d q m1] k(1) mem by simp_all
        have "s = q" "mem_ok m'" "v = Json_Node JSON_NODE_NUMBER None (Some d) []"
          using scalar_node_splits [OF k(2) t(1)] d by auto
        then show ?thesis using t(2) Number by blast
      next
        case 6
        have lit: "lit = true_text \<and> ty = JSON_NODE_BOOLEAN \<or> lit = false_text \<and> ty = JSON_NODE_BOOLEAN \<or> lit = null_text \<and> ty = JSON_NODE_NULL \<Longrightarrow>
            starts_with p1 lit = Some True \<Longrightarrow> literal_node ty lit (drop (length lit) p1) m = Some (Some v, s, m') \<Longrightarrow> ?thesis" for lit ty
          using literal_node_makes [OF _ mem, of lit ty "drop (length lit) p1"] literal_texts(1-3)
            True_Text False_Text Null_Text starts_with_True [of p1 lit] by (elim disjE) fastforce+
        have len: "length true_text = 4" "length false_text = 5" "length null_text = 4" by (simp_all add: bytes_of_def)
        have "deref p1 = Some c" using c by (simp add: deref_def)
        then show ?thesis using pv p1 6 lit [of true_text JSON_NODE_BOOLEAN, unfolded len] lit [of false_text JSON_NODE_BOOLEAN, unfolded len]
            lit [of null_text JSON_NODE_NULL, unfolded len]
          by (auto dest!: bind_eq_SomeD split: if_splits)
      qed
    qed
    then show "mem_ok m' \<and> (\<exists>w t. p = w @ t @ s \<and> ws w \<and> json_text t v)" using w by blast
  qed
qed (simp add: reads_text_def)

lemma string_of_text: "json_text u v \<Longrightarrow> ws w1 \<Longrightarrow> ws w2 \<Longrightarrow> skip_ws (w1 @ u @ w2 @ 0 # zs) = Some (u @ w2 @ 0 # zs)"
  using value_head [of u v] skip_ws_stop [of w1 _ "_ @ w2 @ 0 # zs"] by fastforce

lemma json_parse_accepts:
  assumes "json_text u v" "ws w1" "ws w2" "mem_ok m"
  shows "\<exists>m'. json_parse_string m (Some (w1 @ u @ w2 @ 0 # zs)) = Some (Some (Json_Node JSON_NODE_DOCUMENT None None [v]), m')"
proof -
  define p where "p = u @ w2 @ 0 # zs"
  have p: "skip_ws (w1 @ u @ w2 @ 0 # zs) = Some p" using string_of_text [OF assms(1-3)] by (simp add: p_def)
  obtain c r where c: "w2 @ 0 # zs = c # r" "number_stops c" using follows [OF assms(3), of 0 zs] by auto
  have "length u \<le> json_fuel p" by (simp add: p_def json_fuel_def)
  then obtain m1 where v: "parse_value (json_fuel p) p m = Some (Some v, w2 @ 0 # zs, m1)" "mem_ok m1"
    using grammar_is_parsed(1) [OF assms(1), rule_format, of "[]" c m "json_fuel p" r] assms(4) c by (auto simp: p_def ws_def)
  obtain m2 where m2: "xmalloc m1 = (True, m2)" "mem_ok m2" using mem_ok_xmalloc [OF v(2)] by blast
  obtain m3 where m3: "node_new JSON_NODE_DOCUMENT m2 = (Some (Json_Node JSON_NODE_DOCUMENT None None []), m3)"
    using mem_ok_node [OF m2(2)] by blast
  have "skip_ws (w2 @ 0 # zs) = Some (0 # zs)" using assms(3) by (simp add: skip_ws_stop)
  then show ?thesis using p v m2 m3 by (simp add: json_parse_string_def deref_def)
qed

lemma json_parse_reads:
  assumes "json_parse_string m (Some s) = Some (Some doc, m')" "mem_ok m"
  shows "\<exists>w1 u w2 v zs. s = w1 @ u @ w2 @ 0 # zs \<and> ws w1 \<and> ws w2 \<and> json_text u v \<and> doc = Json_Node JSON_NODE_DOCUMENT None None [v]"
proof -
  obtain p where p: "skip_ws s = Some p" using assms(1) by (auto simp: json_parse_string_def dest!: bind_eq_SomeD)
  obtain w where w: "s = w @ p" "ws w" using skip_ws_split [OF p] by blast
  obtain v q m1 where v: "parse_value (json_fuel p) p m = Some (Some v, q, m1)" using assms(1) p
    by (auto simp: json_parse_string_def dest!: bind_eq_SomeD split: option.splits)
  obtain w' u where u: "mem_ok m1" "p = w' @ u @ q" "ws w'" "json_text u v" using reads_textD [OF parse_value_reads v assms(2)] by blast
  obtain q1 where q1: "skip_ws q = Some q1" using assms(1) p v by (auto simp: json_parse_string_def dest!: bind_eq_SomeD)
  obtain w2 where w2: "q = w2 @ q1" "ws w2" using skip_ws_split [OF q1] by blast
  obtain zs where zs: "q1 = 0 # zs" using assms(1) p v q1
    by (cases q1) (auto simp: json_parse_string_def deref_def split: if_splits)
  obtain m2 where m2: "xmalloc m1 = (True, m2)" "mem_ok m2" using mem_ok_xmalloc [OF u(1)] by blast
  obtain m3 where m3: "node_new JSON_NODE_DOCUMENT m2 = (Some (Json_Node JSON_NODE_DOCUMENT None None []), m3)"
    using mem_ok_node [OF m2(2)] by blast
  have "doc = Json_Node JSON_NODE_DOCUMENT None None [v]" using assms(1) p v q1 zs m2 m3
    by (simp add: json_parse_string_def deref_def)
  moreover have "s = (w @ w') @ u @ w2 @ 0 # zs" "ws (w @ w')" using w u(2,3) w2(1) zs by (simp_all add: ws_def)
  ultimately show ?thesis using u(4) w2(2) by blast
qed

text \<open>
  C27: the parser accepts exactly the texts of the grammar.  When no allocation fails, a C string is parsed to a document
  exactly when its text is a value of the grammar with white space around it, and the document holds the tree of that value;
  every other text is refused.
\<close>

theorem json_parse_grammar:
  assumes "c_string d = Some t" "mem_ok m"
  shows "(\<exists>m'. json_parse_string m (Some d) = Some (Some doc, m')) \<longleftrightarrow>
    (\<exists>w1 u w2 v. t = w1 @ u @ w2 \<and> ws w1 \<and> ws w2 \<and> json_text u v \<and> doc = Json_Node JSON_NODE_DOCUMENT None None [v])"
    (is "_ \<longleftrightarrow> ?tree")
proof -
  obtain zs where d: "d = t @ 0 # zs" "0 \<notin> set t" using assms(1) by (elim c_stringE)
  show ?thesis
  proof
    assume "\<exists>m'. json_parse_string m (Some d) = Some (Some doc, m')"
    then obtain m' where run: "json_parse_string m (Some d) = Some (Some doc, m')" by (elim exE)
    from json_parse_reads [OF run assms(2)] obtain w1 u w2 v ys where u: "d = w1 @ u @ w2 @ 0 # ys" "ws w1" "ws w2" "json_text u v"
      "doc = Json_Node JSON_NODE_DOCUMENT None None [v]"
      by (elim exE conjE)
    then have "0 \<notin> set (w1 @ u @ w2)" using ws_no_zero text_no_zero(1) by auto
    then have "t = w1 @ u @ w2" using u(1) assms(1) c_string_exact [of "w1 @ u @ w2" ys] by simp
    then show ?tree using u(2-5) by (intro exI conjI)
  next
    assume ?tree
    then obtain w1 u w2 v where u: "t = w1 @ u @ w2" "ws w1" "ws w2" "json_text u v" "doc = Json_Node JSON_NODE_DOCUMENT None None [v]"
      by (elim exE conjE)
    then show "\<exists>m'. json_parse_string m (Some d) = Some (Some doc, m')"
      using json_parse_accepts [OF u(4,2,3) assms(2), of zs] d(1) by simp
  qed
qed

section \<open>Printing and parsing\<close>

text \<open>A printer that escapes as the standard asks, and the trees that can be printed.\<close>

definition escape_byte :: "byte \<Rightarrow> byte list" where
  "escape_byte c =
     (if c = 34 then [92, 34] else if c = 92 then [92, 92] else if c = 8 then [92, 98] else if c = 12 then [92, 102]
      else if c = 10 then [92, 110] else if c = 13 then [92, 114] else if c = 9 then [92, 116] else [c])"

definition escape :: "byte list \<Rightarrow> byte list" where
  "escape s = concat (map escape_byte s)"

fun commas :: "byte list list \<Rightarrow> byte list" where
  "commas [] = []"
| "commas [x] = x"
| "commas (x # xs) = x @ 44 # commas xs"

fun render :: "json_node_t \<Rightarrow> byte list" where
  "render (Json_Node ty nm tx cs) =
     (case ty of
        JSON_NODE_STRING \<Rightarrow> 34 # escape (butlast (the tx)) @ [34]
      | JSON_NODE_ARRAY \<Rightarrow> 91 # commas (map render cs) @ [93]
      | JSON_NODE_OBJECT \<Rightarrow> 123 # commas (map (\<lambda>c. 34 # escape (butlast (the (jn_name c))) @ 34 # 58 # render c) cs) @ [125]
      | JSON_NODE_DOCUMENT \<Rightarrow> []
      | _ \<Rightarrow> butlast (the tx))"

definition exact :: "byte list option \<Rightarrow> bool" where
  "exact tx = (case tx of None \<Rightarrow> False | Some d \<Rightarrow> d \<noteq> [] \<and> last d = 0 \<and> 0 \<notin> set (butlast d))"

fun printable :: "json_node_t \<Rightarrow> bool" where
  "printable (Json_Node ty nm tx cs) =
     (case ty of
        JSON_NODE_STRING \<Rightarrow> exact tx \<and> cs = []
      | JSON_NODE_NUMBER \<Rightarrow> exact tx \<and> number_text (butlast (the tx)) \<and> cs = []
      | JSON_NODE_BOOLEAN \<Rightarrow> (tx = Some (true_text @ [0]) \<or> tx = Some (false_text @ [0])) \<and> cs = []
      | JSON_NODE_NULL \<Rightarrow> tx = Some (null_text @ [0]) \<and> cs = []
      | JSON_NODE_ARRAY \<Rightarrow> tx = None \<and> (\<forall>c \<in> set cs. jn_name c = None \<and> printable c)
      | JSON_NODE_OBJECT \<Rightarrow> tx = None \<and> (\<forall>c \<in> set cs. exact (jn_name c) \<and> printable c)
      | JSON_NODE_DOCUMENT \<Rightarrow> False)"

lemma unescaped_escape_byte: "c \<noteq> 0 \<Longrightarrow> unescaped (escape_byte c @ r) = c # unescaped r"
  by (subst unescaped.simps) (auto simp: escape_byte_def simple_escape_def)

lemma unescaped_escape: "0 \<notin> set s \<Longrightarrow> unescaped (escape s) = s"
proof (induction s)
  case Nil
  then show ?case by (subst unescaped.simps) (simp add: escape_def)
next
  case (Cons c s)
  then show ?case using unescaped_escape_byte [of c "escape s"] by (simp add: escape_def)
qed

lemma string_body_escape: "0 \<notin> set s \<Longrightarrow> string_body (escape s)"
  by (induction s) (auto simp: escape_def escape_byte_def)

lemma exact_text: "exact tx \<Longrightarrow> tx = Some (butlast (the tx) @ [0]) \<and> 0 \<notin> set (butlast (the tx))"
  by (cases tx) (auto simp: exact_def, metis append_butlast_last_id)

lemma ws_empty [simp]: "ws []"
  by (simp add: ws_def)

lemma elements_commas:
  "cs \<noteq> [] \<Longrightarrow> \<forall>c \<in> set cs. json_text (render c) c \<Longrightarrow> json_elements (commas (map render cs)) cs"
proof (induction cs rule: induct_list012)
  case (2 c)
  then show ?case using One [of "[]" "render c" c "[]"] by simp
next
  case (3 c d cs)
  then show ?case using More [of "[]" "render c" c "[]"] by simp
qed simp

lemma members_commas:
  "cs \<noteq> [] \<Longrightarrow> \<forall>c \<in> set cs. exact (jn_name c) \<and> json_text (render c) (set_name None c) \<Longrightarrow>
    json_members (commas (map (\<lambda>c. 34 # escape (butlast (the (jn_name c))) @ 34 # 58 # render c) cs)) cs"
proof (induction cs rule: induct_list012)
  case (2 c)
  define k where "k = butlast (the (jn_name c))"
  have k: "jn_name c = Some (k @ [0])" "0 \<notin> set k" using 2 exact_text [of "jn_name c"] by (simp_all add: k_def)
  then have "set_name (Some (unescaped (escape k) @ [0])) (set_name None c) = c" by (cases c) (simp add: unescaped_escape)
  then show ?case using One_Member [of "[]" "escape k" "[]" "[]" "render c" "set_name None c" "[]"] 2 string_body_escape [OF k(2)]
    by (simp flip: k_def)
next
  case (3 c d cs)
  define k where "k = butlast (the (jn_name c))"
  have k: "jn_name c = Some (k @ [0])" "0 \<notin> set k" using 3 exact_text [of "jn_name c"] by (simp_all add: k_def)
  then have "set_name (Some (unescaped (escape k) @ [0])) (set_name None c) = c" by (cases c) (simp add: unescaped_escape)
  then show ?case using More_Members [of "[]" "escape k" "[]" "[]" "render c" "set_name None c" "[]"] 3 string_body_escape [OF k(2)]
    by (simp flip: k_def)
qed simp

lemma render_text: "printable v \<Longrightarrow> json_text (render v) (set_name None v)"
proof (induction v)
  case (Json_Node ty nm tx cs)
  show ?case
  proof (cases ty)
    case JSON_NODE_DOCUMENT
    then show ?thesis using Json_Node.prems by simp
  next
    case JSON_NODE_OBJECT
    then show ?thesis using Json_Node members_commas [of cs] Empty_Object [of "[]"]
      by (cases "cs = []") (auto intro: Object)
  next
    case JSON_NODE_ARRAY
    have "set_name None c = c" if "jn_name c = None" for c using that by (cases c) simp
    then have "\<forall>c \<in> set cs. json_text (render c) c" using Json_Node JSON_NODE_ARRAY by fastforce
    then show ?thesis using Json_Node.prems JSON_NODE_ARRAY elements_commas [of cs] Empty_Array [of "[]"]
      by (cases "cs = []") (auto intro: Array)
  next
    case JSON_NODE_STRING
    then have "tx = Some (butlast (the tx) @ [0])" "0 \<notin> set (butlast (the tx))" "cs = []"
      using Json_Node.prems exact_text [of tx] by simp_all
    then show ?thesis using JSON_NODE_STRING String [OF string_body_escape, of "butlast (the tx)"] by (simp add: unescaped_escape)
  next
    case JSON_NODE_NUMBER
    then have "tx = Some (butlast (the tx) @ [0])" "number_text (butlast (the tx))" "cs = []"
      using Json_Node.prems exact_text [of tx] by simp_all
    then show ?thesis using JSON_NODE_NUMBER Number [of "butlast (the tx)"] by simp
  next
    case JSON_NODE_BOOLEAN
    then show ?thesis using Json_Node.prems True_Text False_Text by auto
  next
    case JSON_NODE_NULL
    then show ?thesis using Json_Node.prems Null_Text by auto
  qed
qed

text \<open>
  C28: what is printed is read back.  Every tree of named members, elements and scalars, whatever bytes its strings and names
  hold, comes back unchanged from parsing what the printer writes for it.
\<close>

theorem json_round_trip:
  assumes "printable v" "jn_name v = None" "mem_ok m"
  shows "\<exists>m'. json_parse_string m (Some (render v @ [0])) = Some (Some (Json_Node JSON_NODE_DOCUMENT None None [v]), m')"
proof -
  have "set_name None v = v" using assms(2) by (cases v) simp
  then show ?thesis using json_parse_accepts [of "render v" v "[]" "[]" m "[]"] render_text [OF assms(1)] assms(3) by simp
qed

section \<open>Walking over the children\<close>

text \<open>Every member of a parsed object has a name.\<close>

definition named :: "json_node_t \<Rightarrow> bool" where
  "named n = (\<forall>c \<in> set (jn_children n). \<exists>k. jn_name c = Some (k @ [0]) \<and> 0 \<notin> set k)"

definition has_name :: "byte list \<Rightarrow> json_node_t \<Rightarrow> bool" where
  "has_name k c = (jn_name c = Some (k @ [0]))"

text \<open>The positions, from \<open>i\<close> on, of the children with a name.\<close>

fun named_positions :: "byte list \<Rightarrow> json_node_t list \<Rightarrow> nat \<Rightarrow> nat list" where
  "named_positions k [] i = []"
| "named_positions k (c # cs) i = (if has_name k c then [i] else []) @ named_positions k cs (i + 1)"

lemma named_positions_nth: "named_positions k cs i = map (\<lambda>j. i + j) (filter (\<lambda>j. has_name k (cs ! j)) [0..<length cs])"
proof (induction cs arbitrary: i)
  case (Cons c cs)
  have "[0..<length (c # cs)] = 0 # map Suc [0..<length cs]" by (simp add: map_Suc_upt upt_conv_Cons del: upt_Suc)
  then show ?case using Cons by (simp add: filter_map comp_def del: upt_Suc)
qed simp

lemma find_named_first:
  assumes "c_string nm = Some k"
  shows "\<forall>c \<in> set cs. \<exists>j. jn_name c = Some (j @ [0]) \<and> 0 \<notin> set j \<Longrightarrow>
    find_named cs nm i = Some (case named_positions k cs i of [] \<Rightarrow> None | j # _ \<Rightarrow> Some j)"
proof (induction cs arbitrary: i)
  case (Cons c cs)
  obtain j where j: "jn_name c = Some (j @ [0])" "0 \<notin> set j" using Cons.prems by auto
  have "c_string (j @ [0]) = Some j" using c_string_exact [OF j(2), of "[]"] by simp
  then have "str_equal (j @ [0]) nm = Some (j = k)" using assms by (rule str_equal_strings)
  then show ?case using Cons j by (auto simp: has_name_def)
qed simp

text \<open>A client that visits the children with a name, from one on.\<close>

primrec visit :: "nat \<Rightarrow> json_node_t \<Rightarrow> json_ptr \<Rightarrow> byte list option \<Rightarrow> nat list list option" where
  "visit 0 root node name = None"
| "visit (Suc f) root node name =
     (case node of
        None \<Rightarrow> Some []
      | Some p \<Rightarrow> do {
          nxt \<leftarrow> json_node_next_sibling_element root node name;
          ps \<leftarrow> visit f root nxt name;
          Some (p # ps) })"

lemma node_at_child: "node_at root p = Some n \<Longrightarrow> i < length (jn_children n) \<Longrightarrow> node_at root (p @ [i]) = Some (jn_children n ! i)"
  by (induction root p rule: node_at.induct) (auto split: if_splits)

lemma named_positions_above: "j \<in> set (named_positions k cs i) \<Longrightarrow> i \<le> j \<and> j < i + length cs"
  by (auto simp: named_positions_nth)

lemma named_positions_next:
  "named_positions k cs i = j # js \<Longrightarrow> js = named_positions k (drop (j + 1 - i) cs) (j + 1)"
proof (induction cs arbitrary: i)
  case (Cons c cs)
  show ?case
  proof (cases "has_name k c")
    case True
    then show ?thesis using Cons.prems by auto
  next
    case False
    then have "named_positions k cs (i + 1) = j # js" using Cons.prems by simp
    moreover from this have "i + 1 \<le> j" using named_positions_above [of j k cs "i + 1"] by simp
    ultimately show ?thesis using Cons.IH [of "i + 1"] by (simp add: Suc_diff_le)
  qed
qed simp

lemma visit_named:
  assumes "node_at root p = Some n" "named n" "c_string nm = Some k"
  shows "length (jn_children n) < f + i \<Longrightarrow> i \<le> length (jn_children n) \<Longrightarrow>
    visit f root (case named_positions k (drop i (jn_children n)) i of [] \<Rightarrow> None | j # _ \<Rightarrow> Some (p @ [j])) (Some nm) =
    Some (map (\<lambda>j. p @ [j]) (named_positions k (drop i (jn_children n)) i))"
proof (induction f arbitrary: i)
  case (Suc f)
  show ?case
  proof (cases "named_positions k (drop i (jn_children n)) i")
    case (Cons j js)
    have j: "i \<le> j" "j < length (jn_children n)" using named_positions_above [of j k "drop i (jn_children n)" i] Cons Suc.prems by auto
    have js: "js = named_positions k (drop (j + 1) (jn_children n)) (j + 1)" using named_positions_next [OF Cons] j(1) by simp
    have "\<forall>c \<in> set (drop (j + 1) (jn_children n)). \<exists>j. jn_name c = Some (j @ [0]) \<and> 0 \<notin> set j"
      using assms(2) set_drop_subset unfolding named_def by fastforce
    from find_named_first [OF assms(3) this, of "j + 1"]
    have "json_node_next_sibling_element root (Some (p @ [j])) (Some nm) =
        Some (case js of [] \<Rightarrow> None | l # _ \<Rightarrow> Some (p @ [l]))"
      using node_at_child [OF assms(1) j(2)] assms(1) js
      by (auto simp: json_node_next_sibling_element_def Let_def split: list.splits)
    moreover have "visit f root (case js of [] \<Rightarrow> None | l # _ \<Rightarrow> Some (p @ [l])) (Some nm) = Some (map (\<lambda>j. p @ [j]) js)"
      using Suc.IH [of "j + 1"] Suc.prems j unfolding js by simp
    ultimately show ?thesis using Cons by simp
  qed simp
qed simp

text \<open>
  C30: children are found by name.  For an object of a document: the attribute with a name is the text of the first member
  that has it; asking for the first child with the name and then for the next sibling with it, until there is none, visits
  exactly the members with that name, in their order.
\<close>

theorem json_children_by_name:
  assumes "node_at root p = Some n" "named n" "jn_type n = JSON_NODE_OBJECT" "c_string nm = Some k"
  shows "json_node_get_attr (Some n) (Some nm) =
      Some (case filter (has_name k) (jn_children n) of [] \<Rightarrow> None | c # _ \<Rightarrow> jn_text c) \<and>
    (\<exists>fst_child. json_node_first_child_element root (Some p) (Some nm) = Some fst_child \<and>
      visit (length (jn_children n) + 1) root fst_child (Some nm) =
        Some (map (\<lambda>i. p @ [i]) (filter (\<lambda>i. has_name k (jn_children n ! i)) [0..<length (jn_children n)])))"
proof -
  note found = find_named_first [OF assms(4), of "jn_children n" 0, OF assms(2) [unfolded named_def]]
  have first: "named_positions k cs i = j # js \<Longrightarrow> i \<le> j \<and> (\<exists>ds. filter (has_name k) cs = cs ! (j - i) # ds)" for cs i j js
  proof (induction cs arbitrary: i)
    case (Cons c cs)
    then show ?case by (cases "has_name k c") (auto simp: Suc_le_eq dest!: Cons.IH)
  qed simp
  have none: "named_positions k cs i = [] \<Longrightarrow> filter (has_name k) cs = []" for cs i
    by (induction cs arbitrary: i) (auto split: if_splits)
  have "json_node_get_attr (Some n) (Some nm) =
      Some (case filter (has_name k) (jn_children n) of [] \<Rightarrow> None | c # _ \<Rightarrow> jn_text c)"
  proof (cases "named_positions k (jn_children n) 0")
    case Nil
    then show ?thesis using found assms(3) none [OF Nil] by (simp add: json_node_get_attr_def)
  next
    case (Cons j js)
    then show ?thesis using found assms(3) first [OF Cons] by (auto simp: json_node_get_attr_def)
  qed
  moreover have "json_node_first_child_element root (Some p) (Some nm) =
      Some (case named_positions k (jn_children n) 0 of [] \<Rightarrow> None | j # _ \<Rightarrow> Some (p @ [j]))"
    using found assms(1) by (auto simp: json_node_first_child_element_def split: list.splits)
  moreover have "visit (length (jn_children n) + 1) root
      (case named_positions k (jn_children n) 0 of [] \<Rightarrow> None | j # _ \<Rightarrow> Some (p @ [j])) (Some nm) =
      Some (map (\<lambda>i. p @ [i]) (filter (\<lambda>i. has_name k (jn_children n ! i)) [0..<length (jn_children n)]))"
    using visit_named [OF assms(1,2,4), of "length (jn_children n) + 1" 0] by (simp add: named_positions_nth)
  ultimately show ?thesis by blast
qed

abbreviation "mem_all \<equiv> \<lparr>jm_plan = (\<lambda>_. True), jm_calls = 0, jm_live = 0\<rparr>"

theorem json_parse_no_leak_witness:
  "c_string (bytes_of ''[1,2]'' @ [0]) = Some (bytes_of ''[1,2]'') \<and>
   (\<exists>doc m'. json_parse_string \<lparr>jm_plan = (\<lambda>k. k \<noteq> 3), jm_calls = 0, jm_live = 0\<rparr> (Some (bytes_of ''[1,2]'' @ [0])) = Some (doc, m') \<and>
     jm_live (json_free_document doc m') = 0 \<and> (doc = None \<longrightarrow> jm_live m' = 0))"
proof -
  have s: "c_string (bytes_of ''[1,2]'' @ [0]) = Some (bytes_of ''[1,2]'')" by (rule c_string_exact) (simp add: bytes_of_def)
  show ?thesis using s json_parse_no_leak [OF s, of "\<lparr>jm_plan = (\<lambda>k. k \<noteq> 3), jm_calls = 0, jm_live = 0\<rparr>"] by simp
qed

theorem json_parse_grammar_witness:
  "\<exists>m'. json_parse_string mem_all (Some (bytes_of ''[7] '' @ [0])) =
    Some (Some (Json_Node JSON_NODE_DOCUMENT None None
      [Json_Node JSON_NODE_ARRAY None None [Json_Node JSON_NODE_NUMBER None (Some [55, 0]) []]]), m')"
proof -
  have s: "c_string (bytes_of ''[7] '' @ [0]) = Some (bytes_of ''[7] '')" by (rule c_string_exact) (simp add: bytes_of_def)
  have "number_text [55]"
    unfolding number_text_def
    by (intro exI [of _ "[]"] exI [of _ "[55]"])
      (simp add: number_sign_def number_whole_def number_fraction_def number_exponent_def digits_def is_digit_def)
  then have "json_text (91 # ([] @ [55] @ []) @ [93]) (Json_Node JSON_NODE_ARRAY None None [Json_Node JSON_NODE_NUMBER None (Some ([55] @ [0])) []])"
    by (intro Array One Number) (simp_all add: ws_def)
  then have "\<exists>w1 u w2 v. bytes_of ''[7] '' = w1 @ u @ w2 \<and> ws w1 \<and> ws w2 \<and> json_text u v \<and>
      Json_Node JSON_NODE_DOCUMENT None None [Json_Node JSON_NODE_ARRAY None None [Json_Node JSON_NODE_NUMBER None (Some [55, 0]) []]] =
      Json_Node JSON_NODE_DOCUMENT None None [v]"
    by (intro exI [of _ "[]"] exI [of _ "[91, 55, 93]"] exI [of _ "[32]"]) (auto simp: bytes_of_def ws_def)
  then show ?thesis using json_parse_grammar [OF s, of mem_all] by (simp add: mem_ok_def)
qed

theorem json_round_trip_witness:
  "\<exists>m'. json_parse_string mem_all (Some ([123, 34, 97, 34, 58, 91, 116, 114, 117, 101, 44, 34, 120, 92, 34, 121, 34, 93, 125, 0])) =
    Some (Some (Json_Node JSON_NODE_DOCUMENT None None
      [Json_Node JSON_NODE_OBJECT None None
        [Json_Node JSON_NODE_ARRAY (Some [97, 0]) None
          [Json_Node JSON_NODE_BOOLEAN None (Some (true_text @ [0])) [], Json_Node JSON_NODE_STRING None (Some [120, 34, 121, 0]) []]]]), m')"
  using json_round_trip [of "Json_Node JSON_NODE_OBJECT None None
        [Json_Node JSON_NODE_ARRAY (Some [97, 0]) None
          [Json_Node JSON_NODE_BOOLEAN None (Some (true_text @ [0])) [], Json_Node JSON_NODE_STRING None (Some [120, 34, 121, 0]) []]]" mem_all]
  by (simp add: exact_def mem_ok_def escape_def escape_byte_def bytes_of_def)

theorem json_children_by_name_witness:
  "let num = (\<lambda>k x. Json_Node JSON_NODE_NUMBER (Some [k, 0]) (Some [x, 0]) []);
       n = Json_Node JSON_NODE_OBJECT None None [num 97 49, num 98 50, num 97 51]
   in json_node_get_attr (Some n) (Some [97, 0]) = Some (Some [49, 0]) \<and>
     (\<exists>c. json_node_first_child_element (Json_Node JSON_NODE_DOCUMENT None None [n]) (Some [0]) (Some [97, 0]) = Some c \<and>
       visit 4 (Json_Node JSON_NODE_DOCUMENT None None [n]) c (Some [97, 0]) = Some [[0, 0], [0, 2]])"
proof -
  define num where "num = (\<lambda>k x. Json_Node JSON_NODE_NUMBER (Some [k, 0]) (Some [x :: byte, 0]) [])"
  define n where "n = Json_Node JSON_NODE_OBJECT None None [num 97 49, num 98 50, num 97 51]"
  have n: "node_at (Json_Node JSON_NODE_DOCUMENT None None [n]) [0] = Some n" "named n" "jn_type n = JSON_NODE_OBJECT"
    by (auto simp: n_def num_def named_def)
  have "c_string [97, 0 :: byte] = Some [97]" using c_string_exact [of "[97]" "[]"] by simp
  from json_children_by_name [OF n this] show ?thesis
    unfolding Let_def num_def [symmetric] n_def [symmetric]
    by (auto simp: n_def num_def has_name_def upt_rec numeral_eq_Suc)
qed

end
