(* ===== verification/Configuration.thy ===== *)
theory Configuration
  imports StringList
begin

text \<open>
  \<open>core/src/configuration.c\<close>: a configuration file is read into sections of keys with values.  The chains of
  sections and of keys have one owner each and are lists; the texts are blocks with a terminator.  The lines pass
  through the library's strings, whose behaviour on them decides what is stored.
\<close>

section \<open>The structures\<close>

record conf_key_value_t =
  ckv_key :: "byte list"
  ckv_value :: "byte list"

record section_t =
  sec_section_name :: "byte list"
  sec_key_value_count :: int
  sec_key_value_list :: "conf_key_value_t list"

record configuration_t =
  conf_section_count :: int
  conf_section_list :: "section_t list"

section \<open>Building\<close>

text \<open>\<open>calloc(1, strlen(text) + 1)\<close> and \<open>strcpy\<close>.\<close>

definition conf_copy_text :: "byte list \<Rightarrow> byte list option" where
  "conf_copy_text src = do { n \<leftarrow> str_len src; str_copy (replicate (n + 1) 0) 0 src 0 }"

definition configuration_internal_add_section :: "bool list \<Rightarrow> configuration_t option \<Rightarrow> byte list \<Rightarrow> configuration_t option option" where
  "configuration_internal_add_section oks conf_ptr section_name =
     (case conf_ptr of
        None \<Rightarrow> Some None
      | Some c \<Rightarrow>
        if \<not> oks ! 0 \<or> \<not> oks ! 1 then Some conf_ptr
        else do {
          name \<leftarrow> conf_copy_text section_name;
          let new_section = \<lparr>sec_section_name = name, sec_key_value_count = 0, sec_key_value_list = []\<rparr>;
          Some (Some (c\<lparr>conf_section_list := conf_section_list c @ [new_section], conf_section_count := conf_section_count c + 1\<rparr>)) })"

text \<open>
  The loop of \<open>configuration_internal_add_key_value\<close>: the first section with the name gets the pair.  When the value cannot be
  allocated the code releases \<open>new_kv\<close> and then reads \<open>new_kv->key\<close>.
\<close>

fun add_key_value_loop :: "bool list \<Rightarrow> section_t list \<Rightarrow> byte list \<Rightarrow> byte list \<Rightarrow> byte list \<Rightarrow> section_t list option" where
  "add_key_value_loop oks [] section_name key val = Some []"
| "add_key_value_loop oks (s # ss) section_name key val = do {
     same \<leftarrow> str_equal (sec_section_name s) section_name;
     if same
     then if \<not> oks ! 0 \<or> \<not> oks ! 1 then Some (s # ss)
       else do {
         k \<leftarrow> conf_copy_text key;
         if \<not> oks ! 2 then None
         else do {
           v \<leftarrow> conf_copy_text val;
           Some (s\<lparr>sec_key_value_list := sec_key_value_list s @ [\<lparr>ckv_key = k, ckv_value = v\<rparr>],
             sec_key_value_count := sec_key_value_count s + 1\<rparr> # ss) } }
     else do { ss' \<leftarrow> add_key_value_loop oks ss section_name key val; Some (s # ss') } }"

definition configuration_internal_add_key_value ::
  "bool list \<Rightarrow> configuration_t option \<Rightarrow> byte list \<Rightarrow> byte list \<Rightarrow> byte list \<Rightarrow> configuration_t option option" where
  "configuration_internal_add_key_value oks conf_ptr section_name key val =
     (case conf_ptr of
        None \<Rightarrow> Some None
      | Some c \<Rightarrow> do {
          ss \<leftarrow> add_key_value_loop oks (conf_section_list c) section_name key val;
          Some (Some (c\<lparr>conf_section_list := ss\<rparr>)) })"

section \<open>Reading a file\<close>

text \<open>\<open>fgets(buffer, n + 1, fp)\<close>: the line that is read and what is left of the file.\<close>

fun fgets :: "nat \<Rightarrow> byte list \<Rightarrow> byte list \<times> byte list" where
  "fgets 0 s = ([], s)"
| "fgets (Suc n) [] = ([], [])"
| "fgets (Suc n) (c # s) = (if c = 10 then ([c], s) else (case fgets n s of (l, r) \<Rightarrow> (c # l, r)))"

text \<open>What \<open>string_c_str\<close> points to.\<close>

definition text_block :: "string_t option \<Rightarrow> byte list option" where
  "text_block str = do { p \<leftarrow> string_c_str str; p }"

text \<open>
  A line is in \<open>buffer\<close>, a block of 1025 bytes; \<open>current_section\<close> has 65.  \<open>ok\<close> answers the allocations of the
  line.
\<close>

definition section_line :: "(nat \<Rightarrow> bool) \<Rightarrow> string_t option \<Rightarrow> configuration_t option \<times> byte list \<Rightarrow> (configuration_t option \<times> byte list) option" where
  "section_line ok buffer_str st = do {
     b1 \<leftarrow> string_remove_char_first buffer_str 91;
     b2 \<leftarrow> string_remove_char_first b1 93;
     name \<leftarrow> text_block b2;
     c \<leftarrow> configuration_internal_add_section [ok 4, ok 5] (fst st) name;
     current \<leftarrow> str_copy (replicate 65 0) 0 name 0;
     Some (c, current) }"

definition key_value_line ::
  "nat \<Rightarrow> (nat \<Rightarrow> bool) \<Rightarrow> string_t option \<Rightarrow> configuration_t option \<times> byte list \<Rightarrow> (configuration_t option \<times> byte list) option" where
  "key_value_line ps ok buffer_str st = do {
     (key, val) \<leftarrow> string_split_key_value_by_char ps [ok 4, ok 5, ok 6, ok 7] buffer_str 61 None None;
     if key = None \<or> val = None then Some st
     else do {
       key \<leftarrow> string_all_trim key;
       val \<leftarrow> string_all_trim val;
       k \<leftarrow> text_block key;
       v \<leftarrow> text_block val;
       c \<leftarrow> configuration_internal_add_key_value [ok 8, ok 9, ok 10] (fst st) (snd st) k v;
       Some (c, snd st) } }"

definition configuration_line ::
  "nat \<Rightarrow> (nat \<Rightarrow> bool) \<Rightarrow> byte list \<Rightarrow> configuration_t option \<times> byte list \<Rightarrow> (configuration_t option \<times> byte list) option" where
  "configuration_line ps ok buffer st = do {
     buffer_str \<leftarrow> string_allocate ps (ok 0) (ok 1) (Some buffer);
     temp_buffer \<leftarrow> string_allocate ps (ok 2) (ok 3) (Some buffer);
     if buffer_str = None \<or> temp_buffer = None then Some st
     else do {
       temp_buffer \<leftarrow> string_all_trim temp_buffer;
       t \<leftarrow> text_block temp_buffer;
       buffer \<leftarrow> str_copy (replicate 1025 0) 0 t 0;
       first_char \<leftarrow> mem_read buffer 0;
       if first_char = 0 \<or> first_char = 59 \<or> first_char = 35 then Some st
       else if first_char = 91 then section_line ok buffer_str st
       else key_value_line ps ok buffer_str st } }"

lemma fgets_shorter: "length (snd (fgets n s)) \<le> length s"
  by (induction n s rule: fgets.induct) (auto split: prod.splits)

lemma fgets_progress: "s \<noteq> [] \<Longrightarrow> 0 < n \<Longrightarrow> length (snd (fgets n s)) < length s"
  using fgets_shorter by (cases n; cases s) (auto split: prod.splits simp: less_Suc_eq_le, metis snd_conv)

text \<open>The loop over the lines, the file at \<open>s\<close>; \<open>oks i\<close> answers the allocations of line \<open>i\<close>.\<close>

function configuration_lines ::
  "nat \<Rightarrow> (nat \<Rightarrow> nat \<Rightarrow> bool) \<Rightarrow> nat \<Rightarrow> byte list \<Rightarrow> configuration_t option \<times> byte list \<Rightarrow> (configuration_t option \<times> byte list) option" where
  "configuration_lines ps oks i s st =
     (if s = [] then Some st
      else (case fgets 1023 s of
              (l, r) \<Rightarrow>
                (case configuration_line ps (oks i) (l @ replicate (1025 - length l) 0) st of
                   None \<Rightarrow> None
                 | Some st' \<Rightarrow> configuration_lines ps oks (i + 1) r st')))"
  by pat_completeness auto

termination by (relation "measure (\<lambda>(ps, oks, i, s, st). length s)") (simp_all, metis fgets_progress snd_conv zero_less_numeral)

declare configuration_lines.simps [simp del]

text \<open>\<open>file\<close> is what \<open>fopen\<close> answers for \<open>filename\<close>: the bytes of the file; \<open>ok\<close> answers the allocation of the configuration.\<close>

definition configuration_allocate ::
  "nat \<Rightarrow> bool \<Rightarrow> (nat \<Rightarrow> nat \<Rightarrow> bool) \<Rightarrow> (byte list \<Rightarrow> byte list option) \<Rightarrow> byte list option \<Rightarrow> configuration_t option option" where
  "configuration_allocate ps ok oks file filename =
     (case filename of
        None \<Rightarrow> Some None
      | Some f \<Rightarrow>
        (case file f of
           None \<Rightarrow> Some None
         | Some contents \<Rightarrow>
           if \<not> ok then Some None
           else do {
             (c, _) \<leftarrow> configuration_lines ps oks 0 contents (Some \<lparr>conf_section_count = 0, conf_section_list = []\<rparr>, replicate 65 0);
             Some c }))"

text \<open>
  The file of the process: \<open>user\<close> and \<open>home\<close> are the environment's answers, \<open>proces_name\<close> that of
  \<open>env_get_current_process_name\<close>; the name is put together in a block of 1024 bytes.
\<close>

definition configuration_allocate_default ::
  "nat \<Rightarrow> bool \<Rightarrow> bool \<Rightarrow> (nat \<Rightarrow> nat \<Rightarrow> bool) \<Rightarrow> (byte list \<Rightarrow> byte list option) \<Rightarrow> byte list option \<Rightarrow> byte list option \<Rightarrow> string_t option \<Rightarrow>
   configuration_t option option" where
  "configuration_allocate_default ps ok1 ok2 oks file user home proces_name =
     (if \<not> ok1 then Some None
      else do {
        root \<leftarrow> (case user of None \<Rightarrow> Some False | Some u \<Rightarrow> str_equal u (bytes_of ''root'' @ [0]));
        dir \<leftarrow> (if root then do { f \<leftarrow> str_cat (replicate 1024 0) (bytes_of ''/etc/'' @ [0]); Some (Some f) }
               else (case home of
                       None \<Rightarrow> Some None
                     | Some h \<Rightarrow> do {
                         f \<leftarrow> str_cat (replicate 1024 0) h;
                         f \<leftarrow> str_cat f (bytes_of ''/.config/'' @ [0]);
                         Some (Some f) }));
        case dir of
          None \<Rightarrow> Some None
        | Some f \<Rightarrow>
          if proces_name = None then Some None
          else do {
            n \<leftarrow> text_block proces_name;
            f \<leftarrow> str_cat f n;
            f \<leftarrow> str_cat f (bytes_of ''.conf'' @ [0]);
            configuration_allocate ps ok2 oks file (Some f) } })"

text \<open>Releasing: how many blocks are given back.\<close>

fun release_key_values :: "conf_key_value_t list \<Rightarrow> nat" where
  "release_key_values [] = 0"
| "release_key_values (kv # kvs) = 3 + release_key_values kvs"

fun release_sections :: "section_t list \<Rightarrow> nat" where
  "release_sections [] = 0"
| "release_sections (s # ss) = release_key_values (sec_key_value_list s) + 2 + release_sections ss"

definition configuration_release :: "configuration_t option \<Rightarrow> nat" where
  "configuration_release config = (case config of None \<Rightarrow> 0 | Some c \<Rightarrow> release_sections (conf_section_list c) + 1)"

section \<open>Looking up\<close>

fun section_loop :: "section_t list \<Rightarrow> byte list \<Rightarrow> section_t option option" where
  "section_loop [] section_name = Some None"
| "section_loop (s # ss) section_name = do {
     same \<leftarrow> str_equal (sec_section_name s) section_name;
     if same then Some (Some s) else section_loop ss section_name }"

definition configuration_internal_get_section :: "configuration_t option \<Rightarrow> byte list \<Rightarrow> section_t option option" where
  "configuration_internal_get_section conf_ptr section_name =
     (case conf_ptr of None \<Rightarrow> Some None | Some c \<Rightarrow> section_loop (conf_section_list c) section_name)"

fun value_loop :: "conf_key_value_t list \<Rightarrow> byte list \<Rightarrow> byte list option option" where
  "value_loop [] key = Some None"
| "value_loop (kv # kvs) key = do {
     same \<leftarrow> str_equal (ckv_key kv) key;
     if same then Some (Some (ckv_value kv)) else value_loop kvs key }"

definition configuration_internal_get_value ::
  "configuration_t option \<Rightarrow> section_t option \<Rightarrow> byte list option \<Rightarrow> byte list option option" where
  "configuration_internal_get_value conf_ptr sec key =
     (case (conf_ptr, sec, key) of
        (Some _, Some s, Some k) \<Rightarrow> value_loop (sec_key_value_list s) k
      | _ \<Rightarrow> Some None)"

definition configuration_has_section :: "configuration_t option \<Rightarrow> byte list option \<Rightarrow> bool option" where
  "configuration_has_section config sec =
     (case (config, sec) of
        (Some _, Some name) \<Rightarrow> do { s \<leftarrow> configuration_internal_get_section config name; Some (s \<noteq> None) }
      | _ \<Rightarrow> Some False)"

text \<open>What the getters share: the guards and the two searches; \<open>None\<close> inside is the answer for a missing value.\<close>

definition configuration_find :: "configuration_t option \<Rightarrow> byte list option \<Rightarrow> byte list option \<Rightarrow> byte list option option" where
  "configuration_find config sec key =
     (case (config, sec, key) of
        (Some _, Some name, Some _) \<Rightarrow> do {
          s \<leftarrow> configuration_internal_get_section config name;
          if s = None then Some None else configuration_internal_get_value config s key }
      | _ \<Rightarrow> Some None)"

definition configuration_has_key :: "configuration_t option \<Rightarrow> byte list option \<Rightarrow> byte list option \<Rightarrow> bool option" where
  "configuration_has_key config sec key = do { v \<leftarrow> configuration_find config sec key; Some (v \<noteq> None) }"

text \<open>\<open>atol\<close>: white space, a sign, digits; a number that is no \<open>long\<close> is undefined.\<close>

definition digits_number :: "byte list \<Rightarrow> int" where
  "digits_number ds = foldl (\<lambda>n d. n * 10 + (int (unat d) - 48)) 0 ds"

definition atol :: "byte list \<Rightarrow> int option" where
  "atol text = do {
     t \<leftarrow> c_string text;
     let s = dropWhile is_space t;
     let negative = (s \<noteq> [] \<and> hd s = 45);
     let ds = (if s \<noteq> [] \<and> (hd s = 45 \<or> hd s = 43) then tl s else s);
     let n = digits_number (takeWhile (\<lambda>c. 48 \<le> c \<and> c \<le> 57) ds);
     let i = (if negative then - n else n);
     if - LONG_MAX - 1 \<le> i \<and> i \<le> LONG_MAX then Some i else None }"

definition configuration_get_value_as_integer :: "configuration_t option \<Rightarrow> byte list option \<Rightarrow> byte list option \<Rightarrow> int option" where
  "configuration_get_value_as_integer config sec key = do {
     v \<leftarrow> configuration_find config sec key;
     case v of None \<Rightarrow> Some LONG_MAX | Some text \<Rightarrow> atol text }"

definition configuration_get_value_as_boolean :: "configuration_t option \<Rightarrow> byte list option \<Rightarrow> byte list option \<Rightarrow> bool option" where
  "configuration_get_value_as_boolean config sec key = do {
     v \<leftarrow> configuration_find config sec key;
     case v of
       None \<Rightarrow> Some False
     | Some text \<Rightarrow> do {
         yes \<leftarrow> str_equal text (bytes_of ''true'' @ [0]);
         if yes then Some True else str_equal text (bytes_of ''1'' @ [0]) } }"

text \<open>\<open>atof\<close> and \<open>DBL_MAX\<close> are parameters.\<close>

definition configuration_get_value_as_real ::
  "(byte list \<Rightarrow> 'd) \<Rightarrow> 'd \<Rightarrow> configuration_t option \<Rightarrow> byte list option \<Rightarrow> byte list option \<Rightarrow> 'd option" where
  "configuration_get_value_as_real atof dbl_max config sec key = do {
     v \<leftarrow> configuration_find config sec key;
     case v of None \<Rightarrow> Some dbl_max | Some text \<Rightarrow> map_option atof (c_string text) }"

definition configuration_get_value_as_string :: "configuration_t option \<Rightarrow> byte list option \<Rightarrow> byte list option \<Rightarrow> byte list option option" where
  "configuration_get_value_as_string config sec key = configuration_find config sec key"

definition configuration_get_value_as_char :: "configuration_t option \<Rightarrow> byte list option \<Rightarrow> byte list option \<Rightarrow> byte option" where
  "configuration_get_value_as_char config sec key = do {
     v \<leftarrow> configuration_find config sec key;
     case v of None \<Rightarrow> Some 0 | Some text \<Rightarrow> mem_read text 0 }"

section \<open>Listing\<close>

text \<open>\<open>oks i\<close> answers the allocations of the \<open>i\<close>-th text that is listed.\<close>

fun section_names_loop :: "nat \<Rightarrow> (nat \<Rightarrow> nat \<Rightarrow> bool) \<Rightarrow> section_t list \<Rightarrow> nat \<Rightarrow> string_list_t option \<Rightarrow> string_list_t option option" where
  "section_names_loop ps oks [] i strs = Some strs"
| "section_names_loop ps oks (s # ss) i strs = do {
     n \<leftarrow> str_len (sec_section_name s);
     if n < 1 then section_names_loop ps oks ss (i + 1) strs
     else do {
       strs \<leftarrow> string_append_to_list ps (oks i 0) (oks i 1) (oks i 2) strs (Some (sec_section_name s));
       section_names_loop ps oks ss (i + 1) strs } }"

definition configuration_get_all_sections ::
  "nat \<Rightarrow> bool \<Rightarrow> (nat \<Rightarrow> nat \<Rightarrow> bool) \<Rightarrow> configuration_t option \<Rightarrow> string_list_t option option" where
  "configuration_get_all_sections ps ok oks config =
     (case config of
        None \<Rightarrow> Some None
      | Some c \<Rightarrow>
        (case string_list_allocate_default ok of
           None \<Rightarrow> Some None
         | Some b \<Rightarrow> section_names_loop ps oks (conf_section_list c) 0 (Some b)))"

text \<open>The test is of the length of the value.\<close>

fun keys_loop :: "nat \<Rightarrow> (nat \<Rightarrow> nat \<Rightarrow> bool) \<Rightarrow> conf_key_value_t list \<Rightarrow> nat \<Rightarrow> string_list_t option \<Rightarrow> string_list_t option option" where
  "keys_loop ps oks [] i strs = Some strs"
| "keys_loop ps oks (kv # kvs) i strs = do {
     n \<leftarrow> str_len (ckv_value kv);
     if n < 1 then keys_loop ps oks kvs (i + 1) strs
     else do {
       strs \<leftarrow> string_append_to_list ps (oks i 0) (oks i 1) (oks i 2) strs (Some (ckv_key kv));
       keys_loop ps oks kvs (i + 1) strs } }"

definition configuration_get_all_keys ::
  "nat \<Rightarrow> bool \<Rightarrow> (nat \<Rightarrow> nat \<Rightarrow> bool) \<Rightarrow> configuration_t option \<Rightarrow> byte list option \<Rightarrow> string_list_t option option" where
  "configuration_get_all_keys ps ok oks config sec =
     (case (config, sec) of
        (Some _, Some name) \<Rightarrow> do {
          s \<leftarrow> configuration_internal_get_section config name;
          case s of
            None \<Rightarrow> Some None
          | Some s \<Rightarrow>
            (case string_list_allocate_default ok of
               None \<Rightarrow> Some None
             | Some b \<Rightarrow> keys_loop ps oks (sec_key_value_list s) 0 (Some b)) }
      | _ \<Rightarrow> Some None)"

section \<open>What the string functions do to a line\<close>

lemma remove_char_found:
  "0 \<notin> set xs \<Longrightarrow> remove_char_loop c (pre @ xs @ 0 # r) (length pre) True =
     Some (pre @ tl xs @ (if xs = [] then [] else [0]) @ 0 # r, length pre + length xs)"
proof (induction xs arbitrary: pre)
  case Nil
  then show ?case by (subst remove_char_loop.simps) (simp add: mem_read_def nth_append)
next
  case (Cons x xs)
  define y where "y = (xs @ 0 # r) ! 0"
  have "remove_char_loop c ((pre @ [y]) @ xs @ 0 # r) (length (pre @ [y])) True =
      Some ((pre @ [y]) @ tl xs @ (if xs = [] then [] else [0]) @ 0 # r, length (pre @ [y]) + length xs)"
    by (rule Cons.IH) (use Cons.prems in simp)
  moreover have "[y] @ tl xs @ (if xs = [] then [] else [0]) @ 0 # r = xs @ [0] @ 0 # r" by (cases xs) (simp_all add: y_def)
  ultimately show ?case using Cons.prems
    by (subst remove_char_loop.simps) (simp add: mem_read_def nth_append list_update_append y_def)
qed

lemma remove_char_first_run:
  "0 \<notin> set xs \<Longrightarrow> c \<noteq> 0 \<Longrightarrow> remove_char_loop c (pre @ xs @ 0 # r) (length pre) False =
     Some (pre @ remove1 c xs @ (if c \<in> set xs then [0] else []) @ 0 # r, length pre + length xs)"
proof (induction xs arbitrary: pre)
  case Nil
  then show ?case by (subst remove_char_loop.simps) (simp add: mem_read_def nth_append)
next
  case (Cons x xs)
  show ?case
  proof (cases "x = c")
    case True
    have "remove_char_loop c (pre @ (x # xs) @ 0 # r) (length pre) False = remove_char_loop c (pre @ (x # xs) @ 0 # r) (length pre) True"
      using True Cons.prems by (subst (1 2) remove_char_loop.simps) (simp add: mem_read_def nth_append)
    then show ?thesis using remove_char_found [of "x # xs" c pre r] Cons.prems True by simp
  next
    case False
    then show ?thesis using Cons.IH [of "pre @ [x]"] Cons.prems
      by (subst remove_char_loop.simps) (simp add: mem_read_def nth_append)
  qed
qed

lemma string_remove_char_first_term:
  assumes "string_term ps p xs" "c \<noteq> 0"
  shows "\<exists>q. string_remove_char_first p c = Some q \<and> string_term ps q (remove1 c xs)"
proof -
  obtain s n where s: "p = Some s" "st_data s = Some (xs @ replicate (Suc n) 0)" "st_data_size s = length xs"
    "st_memory_size s = length xs + Suc n" "0 \<notin> set xs"
    using assms(1) by (rule string_termE)
  define k where "k = (if c \<in> set xs then Suc n + 1 else Suc n)"
  have d: "remove_char_loop c (xs @ replicate (Suc n) 0) 0 False = Some (remove1 c xs @ replicate k 0, length xs)"
    using remove_char_first_run [OF s(5) assms(2), of "[]" "replicate n 0"] by (simp add: k_def)
  have len: "length (remove1 c xs) + k = st_memory_size s"
    using s(4) length_pos_if_in_set [of c xs] by (auto simp: k_def length_remove1)
  have nz: "0 \<notin> set (remove1 c xs)" "0 < k" using s(5) set_remove1_subset [of c xs] by (auto simp: k_def)
  obtain q where "string_set_data s (remove1 c xs @ replicate k 0) = Some q" "string_term ps q (remove1 c xs)"
    using string_set_data_term [of ps s xs "remove1 c xs" k] assms(1) s(1) nz len by blast
  then show ?thesis using s(1-3) d by (simp add: string_remove_char_first_def del: replicate_Suc)
qed

lemma text_block_term: "string_term ps p xs \<Longrightarrow> \<exists>d. text_block p = Some d \<and> c_string d = Some xs"
  by (elim string_termE) (auto simp: text_block_def string_c_str_def simp del: replicate_Suc)

text \<open>A text without a recorded length is only trimmed on its left.\<close>

lemma unsized_trim:
  assumes "unsized_text p xs"
  shows "\<exists>q d. string_all_trim p = Some q \<and> text_block q = Some d \<and> c_string d = Some (trim_left xs)"
proof -
  obtain s d where s: "p = Some s" "st_data s = Some d" "c_string d = Some xs" "st_data_size s = 0"
    using assms by (auto simp: unsized_text_def)
  obtain r where d: "d = xs @ 0 # r" "0 \<notin> set xs" using s(3) by (rule c_stringE)
  define s1 where "s1 = s\<lparr>st_data := Some d, st_data_size := length xs\<rparr>"
  have "string_right_trim p = Some (Some s1)" using s by (simp add: string_right_trim_def string_set_data_def str_len_def s1_def)
  moreover have "\<exists>q e. string_left_trim (Some s1) = Some q \<and> text_block q = Some e \<and> c_string e = Some (trim_left xs)"
  proof -
    let ?ys = "trim_left xs" and ?k = "length (takeWhile is_space xs)"
    have k: "drop ?k xs = ?ys" "length ?ys + ?k = length xs"
      by (simp_all add: trim_left_def dropWhile_eq_drop [symmetric]) (metis add.commute length_append takeWhile_dropWhile_id)
    have ptr: "skip_space d 0 = Some ?k" using skip_space_run [of 0 d xs r] d by simp
    have nz: "0 \<notin> set ?ys" using set_trim(1) d(2) by blast
    have "drop ?k d = ?ys @ 0 # r" using k d(1) by (simp add: length_takeWhile_le)
    then have cd: "copy_down d ?k 0 = Some (?ys @ drop (length ?ys) d, length ?ys)"
      using copy_down_run [of ?k d ?ys r 0] nz by simp
    have tail: "drop (length ?ys) (?ys @ drop (length ?ys) d) = drop (length ?ys) xs @ 0 # r" using k(2) d(1) by simp
    moreover have "0 \<notin> set (drop (length ?ys) xs)" using d(2) by (meson in_set_dropD)
    ultimately have zu: "zero_until (?ys @ drop (length ?ys) d) (length ?ys) =
        Some (?ys @ replicate (length xs - length ?ys) 0 @ 0 # r)"
      using zero_until_run [of "length ?ys" "?ys @ drop (length ?ys) d" "drop (length ?ys) xs" r] by simp
    have "c_string (?ys @ replicate (length xs - length ?ys) 0 @ 0 # r) = Some ?ys"
      using c_string_exact [OF nz, of "replicate (length xs - length ?ys) 0 @ r"] by (simp add: replicate_app_Cons_same)
    then show ?thesis using ptr cd zu
      by (simp add: string_left_trim_def s1_def string_set_data_def str_len_def text_block_def string_c_str_def)
  qed
  ultimately show ?thesis by (auto simp: string_all_trim_def)
qed

lemma conf_copy_text_ok: "c_string d = Some t \<Longrightarrow> conf_copy_text d = Some (t @ [0])"
  by (auto simp: conf_copy_text_def str_len_def str_copy_def mem_copy_def)

lemma copy_text_fits: "c_string d = Some t \<Longrightarrow> length t < n \<Longrightarrow>
    \<exists>e. str_copy (replicate n 0) 0 d 0 = Some e \<and> c_string e = Some t \<and> length e = n"
  by (auto simp: str_copy_def mem_copy_Some elim!: c_stringE simp flip: append.assoc intro: c_string_exact)

lemma copy_text_overflows: "c_string d = Some t \<Longrightarrow> n \<le> length t \<Longrightarrow> str_copy (replicate n 0) 0 d 0 = None"
  by (auto simp: str_copy_def mem_copy_def)

section \<open>Lines of a file\<close>

lemma fgets_split: "fgets n s = (l, r) \<Longrightarrow> s = l @ r \<and> length l \<le> n \<and> (s \<noteq> [] \<longrightarrow> 0 < n \<longrightarrow> l \<noteq> [])"
proof (induction n s arbitrary: l rule: fgets.induct)
  case (3 n c s)
  then show ?case by (cases "fgets n s") (auto split: if_splits)
qed auto

function file_lines :: "byte list \<Rightarrow> byte list list" where
  "file_lines s = (if s = [] then [] else fst (fgets 1023 s) # file_lines (snd (fgets 1023 s)))"
  by pat_completeness auto
termination by (relation "measure length") (simp_all add: fgets_progress)

declare file_lines.simps [simp del]

section \<open>What a configuration holds\<close>

text \<open>Sections in their order, each with its pairs of key and value in their order.\<close>

type_synonym conf_sections = "(byte list \<times> (byte list \<times> byte list) list) list"

definition pair_holds :: "conf_key_value_t \<Rightarrow> byte list \<times> byte list \<Rightarrow> bool" where
  "pair_holds kv p = (c_string (ckv_key kv) = Some (fst p) \<and> c_string (ckv_value kv) = Some (snd p))"

definition section_holds :: "section_t \<Rightarrow> byte list \<times> (byte list \<times> byte list) list \<Rightarrow> bool" where
  "section_holds s p =
     (c_string (sec_section_name s) = Some (fst p) \<and> sec_key_value_count s = int (length (snd p)) \<and>
      list_all2 pair_holds (sec_key_value_list s) (snd p))"

definition conf_holds :: "configuration_t option \<Rightarrow> conf_sections \<Rightarrow> bool" where
  "conf_holds config ss =
     (\<exists>c. config = Some c \<and> conf_section_count c = int (length ss) \<and> list_all2 section_holds (conf_section_list c) ss)"

fun add_pair :: "conf_sections \<Rightarrow> byte list \<Rightarrow> byte list \<times> byte list \<Rightarrow> conf_sections" where
  "add_pair [] name kv = []"
| "add_pair ((n, kvs) # ss) name kv = (if n = name then (n, kvs @ [kv]) # ss else (n, kvs) # add_pair ss name kv)"

text \<open>What a line stands for: nothing, a section, or a pair for the section of the last section line.\<close>

definition section_of :: "byte list \<Rightarrow> byte list option" where
  "section_of l =
     (let t = trim_left (trim_right l)
      in if t \<noteq> [] \<and> hd t = 91 then Some (remove1 93 (remove1 91 l)) else None)"

definition pair_of :: "byte list \<Rightarrow> (byte list \<times> byte list) option" where
  "pair_of l =
     (let t = trim_left (trim_right l)
      in if t = [] \<or> hd t \<in> {59, 35, 91} \<or> 61 \<notin> set l \<or> hd l = 61 then None
         else Some (trim_left (takeWhile (\<lambda>c. c \<noteq> 61) l), trim_left (tl (dropWhile (\<lambda>c. c \<noteq> 61) l))))"

definition read_line :: "byte list \<Rightarrow> conf_sections \<times> byte list \<Rightarrow> conf_sections \<times> byte list" where
  "read_line l st =
     (case section_of l of
        Some name \<Rightarrow> (fst st @ [(name, [])], name)
      | None \<Rightarrow> (case pair_of l of None \<Rightarrow> st | Some kv \<Rightarrow> (add_pair (fst st) (snd st) kv, snd st)))"

lemma add_section_holds:
  assumes "conf_holds c ss" "c_string d = Some name"
  shows "\<exists>c'. configuration_internal_add_section [True, True] c d = Some c' \<and> conf_holds c' (ss @ [(name, [])])"
proof -
  obtain r where c: "c = Some r" "conf_section_count r = int (length ss)" "list_all2 section_holds (conf_section_list r) ss"
    using assms(1) by (auto simp: conf_holds_def)
  have "0 \<notin> set name" using assms(2) by (rule c_stringE)
  then have "section_holds \<lparr>sec_section_name = name @ [0], sec_key_value_count = 0, sec_key_value_list = []\<rparr> (name, [])"
    using c_string_exact [of name "[]"] by (simp add: section_holds_def)
  then show ?thesis using c assms(2)
    by (simp add: configuration_internal_add_section_def conf_copy_text_ok Let_def conf_holds_def list_all2_appendI)
qed

lemma add_pair_loop:
  assumes "c_string n = Some name" "c_string kd = Some k" "c_string vd = Some v"
  shows "list_all2 section_holds sl ss \<Longrightarrow>
    \<exists>sl'. add_key_value_loop [True, True, True] sl n kd vd = Some sl' \<and> list_all2 section_holds sl' (add_pair ss name (k, v))"
proof (induction sl arbitrary: ss)
  case (Cons s sl)
  then obtain m kvs ss' where ss: "ss = (m, kvs) # ss'" "section_holds s (m, kvs)" "list_all2 section_holds sl ss'"
    by (cases ss) (auto simp: list_all2_Cons1)
  have same: "str_equal (sec_section_name s) n = Some (m = name)"
    using str_equal_strings [OF _ assms(1), of "sec_section_name s" m] ss(2) by (simp add: section_holds_def)
  have "0 \<notin> set k" "0 \<notin> set v" using assms(2,3) by (auto elim!: c_stringE)
  then have "pair_holds \<lparr>ckv_key = k @ [0], ckv_value = v @ [0]\<rparr> (k, v)"
    using c_string_exact [of k "[]"] c_string_exact [of v "[]"] by (simp add: pair_holds_def)
  then have "section_holds (s\<lparr>sec_key_value_list := sec_key_value_list s @ [\<lparr>ckv_key = k @ [0], ckv_value = v @ [0]\<rparr>],
      sec_key_value_count := sec_key_value_count s + 1\<rparr>) (m, kvs @ [(k, v)])"
    using ss(2) by (simp add: section_holds_def list_all2_appendI)
  then show ?case using ss same Cons.IH [OF ss(3)] assms(2,3) by (auto simp: conf_copy_text_ok)
qed simp

lemma length_add_pair: "length (add_pair ss name kv) = length ss"
  by (induction ss name kv rule: add_pair.induct) auto

lemma add_key_value_holds:
  assumes "conf_holds c ss" "c_string n = Some name" "c_string kd = Some k" "c_string vd = Some v"
  shows "\<exists>c'. configuration_internal_add_key_value [True, True, True] c n kd vd = Some c' \<and> conf_holds c' (add_pair ss name (k, v))"
  using assms(1) add_pair_loop [OF assms(2-4)]
  by (fastforce simp: conf_holds_def configuration_internal_add_key_value_def length_add_pair)

section \<open>Reading a line\<close>

text \<open>The name of a section is read into a block of 65 bytes.\<close>

definition line_fits :: "byte list \<Rightarrow> bool" where
  "line_fits l = (case section_of l of None \<Rightarrow> True | Some name \<Rightarrow> length name \<le> 64)"

definition state_holds :: "configuration_t option \<times> byte list \<Rightarrow> conf_sections \<times> byte list \<Rightarrow> bool" where
  "state_holds st sp = (conf_holds (fst st) (fst sp) \<and> c_string (snd st) = Some (snd sp))"

lemma section_line_holds:
  assumes "string_term ps b l" "state_holds st sp"
  shows "if length (remove1 93 (remove1 91 l)) \<le> 64
    then \<exists>st'. section_line (\<lambda>_. True) b st = Some st' \<and>
      state_holds st' (fst sp @ [(remove1 93 (remove1 91 l), [])], remove1 93 (remove1 91 l))
    else section_line (\<lambda>_. True) b st = None"
proof -
  let ?name = "remove1 93 (remove1 91 l)"
  obtain b1 where b1: "string_remove_char_first b 91 = Some b1" "string_term ps b1 (remove1 91 l)"
    using string_remove_char_first_term [OF assms(1), of 91] by auto
  obtain b2 where b2: "string_remove_char_first b1 93 = Some b2" "string_term ps b2 ?name"
    using string_remove_char_first_term [OF b1(2), of 93] by auto
  obtain d where d: "text_block b2 = Some d" "c_string d = Some ?name" using text_block_term [OF b2(2)] by blast
  obtain c' where c': "configuration_internal_add_section [True, True] (fst st) d = Some c'" "conf_holds c' (fst sp @ [(?name, [])])"
    using add_section_holds [of "fst st" "fst sp" d ?name] assms(2) d(2) by (auto simp: state_holds_def)
  show ?thesis
  proof (cases "length ?name \<le> 64")
    case True
    then obtain e where "str_copy (replicate 65 0) 0 d 0 = Some e" "c_string e = Some ?name"
      using copy_text_fits [OF d(2), of 65] by auto
    then show ?thesis using True b1(1) b2(1) d(1) c' by (simp add: section_line_def state_holds_def)
  next
    case False
    then have "str_copy (replicate 65 0) 0 d 0 = None" using copy_text_overflows [OF d(2), of 65] by simp
    then show ?thesis using False b1(1) b2(1) d(1) c' by (simp add: section_line_def)
  qed
qed

lemma key_value_line_holds:
  assumes "string_term ps b l" "state_holds st sp" "length l \<le> SIZE_MAX div 2" "l \<noteq> []"
  shows "\<exists>st'. key_value_line ps (\<lambda>_. True) b st = Some st' \<and>
    state_holds st' (if 61 \<notin> set l \<or> hd l = 61 then sp
      else (add_pair (fst sp) (snd sp) (trim_left (takeWhile (\<lambda>c. c \<noteq> 61) l), trim_left (tl (dropWhile (\<lambda>c. c \<noteq> 61) l))), snd sp))"
proof -
  obtain s n where s: "b = Some s" "st_data s = Some (l @ replicate (Suc n) 0)" "st_data_size s = length l" "0 < ps" "0 \<notin> set l"
    using assms(1) by (rule string_termE)
  consider "61 \<notin> set l" | "61 \<in> set l" "hd l = 61" | "61 \<in> set l" "hd l \<noteq> 61" by blast
  then show ?thesis
  proof cases
    case 1
    then have "string_index_of_char b 61 = Some (-1)"
      using s char_loop_run [of l 61 "replicate n 0" 0] by (simp add: string_index_of_char_def)
    then have "string_split_key_value_by_char ps [True, True, True, True] b 61 None None = Some (None, None)"
      using s(1) by (simp add: string_split_key_value_by_char_def)
    then show ?thesis using 1 assms(2) by (simp add: key_value_line_def)
  next
    case 2
    then obtain t where t: "l = 61 # t" using assms(4) by (cases l) auto
    have pos: "string_index_of_char b 61 = Some 0"
      using s char_loop_run [of l 61 "replicate n 0" 0] t by (simp add: string_index_of_char_def)
    define w where "w = string_pages ps (Suc (length t))"
    have w: "length t + 1 \<le> w" unfolding w_def using string_pages_bounds(1) [OF s(4), of "Suc (length t)"] by simp
    have "c_string (drop 1 (l @ replicate (Suc n) 0)) = Some t" using s(5) t by (simp del: replicate_Suc)
    then have v: "str_copy (replicate w 0) 0 (l @ replicate (Suc n) 0) 1 = Some ((t @ [0]) @ replicate (w - (length t + 1)) 0)"
      using w by (simp add: str_copy_def mem_copy_Some del: replicate_Suc)
    have "size_of_long (int (st_data_size s) - 1 + 1) = length t + 1"
      using s(3) t assms(3) by (simp add: size_of_long_def SIZE_MAX_def)
    then have "\<exists>v. string_split_key_value_by_char ps [True, True, True, True] b 61 None None = Some (None, v)"
      using s(1,2) pos v unfolding string_split_key_value_by_char_def
      by (simp add: split_at_def string_allocate_length_def string_calloc_def flip: w_def del: replicate_Suc)
    then show ?thesis using 2 assms(2) by (cases st) (auto simp: key_value_line_def)
  next
    case 3
    define a where "a = takeWhile (\<lambda>c. c \<noteq> 61) l"
    define v where "v = tl (dropWhile (\<lambda>c. c \<noteq> 61) l)"
    have drop: "dropWhile (\<lambda>c. c \<noteq> 61) l = 61 # v" using 3(1) hd_dropWhile [of "\<lambda>c. c \<noteq> 61" l]
      by (cases "dropWhile (\<lambda>c. c \<noteq> 61) l") (auto simp: v_def dropWhile_eq_Nil_conv)
    have l: "l = a @ 61 # v" using takeWhile_dropWhile_id [of "\<lambda>c. c \<noteq> 61" l] drop by (simp add: a_def)
    have a: "61 \<notin> set a" "a \<noteq> []" using 3(2) assms(4) by (auto simp: a_def dest: set_takeWhileD) (cases l; simp)
    obtain kp vp where kv: "string_split_key_value_by_char ps [True, True, True, True] b 61 None None = Some (kp, vp)"
      "unsized_text kp a" "unsized_text vp v"
      using string_split_key_value_correct [of ps b a 61 v None None] assms(1,3) a l by auto
    obtain kq kd where k: "string_all_trim kp = Some kq" "text_block kq = Some kd" "c_string kd = Some (trim_left a)"
      using unsized_trim [OF kv(2)] by blast
    obtain vq vd where w: "string_all_trim vp = Some vq" "text_block vq = Some vd" "c_string vd = Some (trim_left v)"
      using unsized_trim [OF kv(3)] by blast
    obtain c' where "configuration_internal_add_key_value [True, True, True] (fst st) (snd st) kd vd = Some c'"
      "conf_holds c' (add_pair (fst sp) (snd sp) (trim_left a, trim_left v))"
      using add_key_value_holds [of "fst st" "fst sp" "snd st" "snd sp" kd "trim_left a" vd "trim_left v"] assms(2) k(3) w(3)
      by (auto simp: state_holds_def)
    moreover have "kp \<noteq> None" "vp \<noteq> None" using kv(2,3) by (auto simp: unsized_text_def)
    ultimately show ?thesis using kv(1) k(1,2) w(1,2) 3 assms(2)
      by (auto simp: key_value_line_def state_holds_def simp flip: a_def v_def)
  qed
qed

lemma configuration_line_reads:
  assumes "l \<noteq> []" "0 \<notin> set l" "length l \<le> 1023" "1024 \<le> ps" "ps \<le> SIZE_MAX div 4" "state_holds st sp"
  shows "if line_fits l
    then \<exists>st'. configuration_line ps (\<lambda>_. True) (l @ replicate (1025 - length l) 0) st = Some st' \<and> state_holds st' (read_line l sp)
    else configuration_line ps (\<lambda>_. True) (l @ replicate (1025 - length l) 0) st = None"
proof -
  define buf where "buf = l @ replicate (1025 - length l) 0"
  obtain n where n: "1025 - length l = Suc n" using assms(3) by (cases "1025 - length l") auto
  have buf: "c_string buf = Some l" unfolding buf_def n using assms(2) by (rule c_string_term)
  have big: "length l \<le> SIZE_MAX div 2" using assms(3) by (simp add: SIZE_MAX_def)
  obtain b where b: "string_allocate ps True True (Some buf) = Some b" "string_rep ps b l"
    using string_allocate_rep [OF buf big _ assms(5)] assms(4) by auto
  have "length l mod ps \<noteq> 0" using assms(1,3,4) by simp
  then have bt: "string_term ps b l" using string_rep_term [OF b(2)] by simp
  have nn: "b \<noteq> None" using b(2) by (auto simp: string_rep_def)
  define t where "t = trim_left (trim_right l)"
  obtain q where q: "string_all_trim b = Some q" "string_term ps q t" using string_trims [OF bt] t_def by blast
  obtain d where d: "text_block q = Some d" "c_string d = Some t" using text_block_term [OF q(2)] by blast
  have "length t \<le> length l" using length_trim(1) [of "trim_right l"] length_trim(2) [of l] by (simp add: t_def)
  then obtain e where e: "str_copy (replicate 1025 0) 0 d 0 = Some e" "c_string e = Some t" "length e = 1025"
    using copy_text_fits [OF d(2), of 1025] assms(3) by auto
  define h where "h = (if t = [] then 0 else hd t)"
  have "0 \<notin> set t" using d(2) by (rule c_stringE)
  then have h: "mem_read e 0 = Some h" "h = 0 \<longleftrightarrow> t = []" using e(2,3) by (cases t; auto elim!: c_stringE simp: h_def)+
  have line: "configuration_line ps (\<lambda>_. True) buf st =
      (if h = 0 \<or> h = 59 \<or> h = 35 then Some st
       else if h = 91 then section_line (\<lambda>_. True) b st
       else key_value_line ps (\<lambda>_. True) b st)"
    using b(1) nn q(1) d(1) e(1) h(1) by (cases b) (simp_all add: configuration_line_def)
  show ?thesis
  proof (cases "t = [] \<or> hd t = 59 \<or> hd t = 35")
    case True
    then have "section_of l = None" "pair_of l = None" by (auto simp: section_of_def pair_of_def Let_def simp flip: t_def)
    then show ?thesis using True line h(2) assms(6) by (cases st) (auto simp: line_fits_def read_line_def h_def simp flip: buf_def)
  next
    case False
    show ?thesis
    proof (cases "hd t = 91")
      case True
      then have "section_of l = Some (remove1 93 (remove1 91 l))" using False by (simp add: section_of_def Let_def flip: t_def)
      then show ?thesis using True False line section_line_holds [OF bt assms(6)]
        by (auto simp: line_fits_def read_line_def h_def simp flip: buf_def)
    next
      case kv: False
      then have "section_of l = None"
        "pair_of l = (if 61 \<notin> set l \<or> hd l = 61 then None
          else Some (trim_left (takeWhile (\<lambda>c. c \<noteq> 61) l), trim_left (tl (dropWhile (\<lambda>c. c \<noteq> 61) l))))"
        using False by (auto simp: section_of_def pair_of_def Let_def simp flip: t_def)
      moreover have "configuration_line ps (\<lambda>_. True) buf st = key_value_line ps (\<lambda>_. True) b st"
        using line h(2) False kv by (simp add: h_def)
      ultimately show ?thesis using key_value_line_holds [OF bt assms(6) big assms(1)]
        by (auto simp: line_fits_def read_line_def simp flip: buf_def split: if_splits)
    qed
  qed
qed

lemma configuration_lines_read:
  assumes "1024 \<le> ps" "ps \<le> SIZE_MAX div 4"
  shows "0 \<notin> set s \<Longrightarrow> state_holds st sp \<Longrightarrow>
    if list_all line_fits (file_lines s)
    then \<exists>st'. configuration_lines ps (\<lambda>_ _. True) i s st = Some st' \<and> state_holds st' (fold read_line (file_lines s) sp)
    else configuration_lines ps (\<lambda>_ _. True) i s st = None"
proof (induction s arbitrary: i st sp rule: file_lines.induct)
  case (1 s)
  show ?case
  proof (cases "s = []")
    case True
    then show ?thesis using 1 by (subst (1 2) file_lines.simps, subst (1 2) configuration_lines.simps) simp
  next
    case False
    obtain l r where lr: "fgets 1023 s = (l, r)" by (cases "fgets 1023 s")
    then have s: "s = l @ r" "length l \<le> 1023" "l \<noteq> []" using fgets_split [OF lr] False by auto
    have fl: "file_lines s = l # file_lines r" using False lr by (subst file_lines.simps) simp
    have step: "configuration_lines ps (\<lambda>_ _. True) i s st =
        (case configuration_line ps (\<lambda>_. True) (l @ replicate (1025 - length l) 0) st of
           None \<Rightarrow> None | Some st' \<Rightarrow> configuration_lines ps (\<lambda>_ _. True) (i + 1) r st')"
      using False lr by (subst configuration_lines.simps) simp
    have l: "0 \<notin> set l" "0 \<notin> set r" using 1(2) s(1) by auto
    note line = configuration_line_reads [OF s(3) l(1) s(2) assms 1(3)]
    show ?thesis
    proof (cases "line_fits l")
      case False
      then show ?thesis using line fl step by simp
    next
      case True
      then obtain st' where st': "configuration_line ps (\<lambda>_. True) (l @ replicate (1025 - length l) 0) st = Some st'"
        "state_holds st' (read_line l sp)" using line by auto
      then show ?thesis using "1.IH" [OF False _ st'(2), of "i + 1"] lr l(2) fl step True by auto
    qed
  qed
qed

lemma configuration_file_held:
  assumes "file f = Some contents" "0 \<notin> set contents" "1024 \<le> ps" "ps \<le> SIZE_MAX div 4"
  shows "if list_all line_fits (file_lines contents)
    then \<exists>c. configuration_allocate ps True (\<lambda>_ _. True) file (Some f) = Some c \<and>
      conf_holds c (fst (fold read_line (file_lines contents) ([], [])))
    else configuration_allocate ps True (\<lambda>_ _. True) file (Some f) = None"
proof -
  have "state_holds (Some \<lparr>conf_section_count = 0, conf_section_list = []\<rparr>, replicate 65 0) ([], [])"
    using c_string_pad [of 65 "[]"] by (simp add: state_holds_def conf_holds_def)
  from configuration_lines_read [OF assms(3,4,2) this, of 0] show ?thesis
    using assms(1) by (auto simp: configuration_allocate_def state_holds_def split: if_splits)
qed

text \<open>
  C31: what is read from a file.  For a file without NUL bytes, when memory is available, the result holds exactly the sections
  and pairs of its lines, in their order, or the call runs out of its 65 bytes for a section's name, which happens exactly
  when a name is longer than 64 bytes.  A name is the whole line without the brackets, the line feed included; a key is
  trimmed on its left only, and so is a value, which keeps its line feed.
\<close>

theorem configuration_reads_file:
  assumes "file f = Some contents" "0 \<notin> set contents" "1024 \<le> ps" "ps \<le> SIZE_MAX div 4"
  shows "if list_all line_fits (file_lines contents)
    then \<exists>c. configuration_allocate ps True (\<lambda>_ _. True) file (Some f) = Some c \<and>
      conf_holds c (fst (fold read_line (file_lines contents) ([], [])))
    else configuration_allocate ps True (\<lambda>_ _. True) file (Some f) = None"
  using assms by (rule configuration_file_held)

section \<open>Lookups\<close>

definition looked_up :: "conf_sections \<Rightarrow> byte list \<Rightarrow> byte list \<Rightarrow> byte list option" where
  "looked_up ss name k = (case map_of ss name of None \<Rightarrow> None | Some kvs \<Rightarrow> map_of kvs k)"

lemma section_loop_finds:
  assumes "c_string n = Some name"
  shows "list_all2 section_holds sl ss \<Longrightarrow>
    \<exists>r. section_loop sl n = Some r \<and> (case map_of ss name of None \<Rightarrow> r = None | Some kvs \<Rightarrow> \<exists>s. r = Some s \<and> section_holds s (name, kvs))"
proof (induction sl arbitrary: ss)
  case (Cons s sl)
  then obtain m kvs ss' where ss: "ss = (m, kvs) # ss'" "section_holds s (m, kvs)" "list_all2 section_holds sl ss'"
    by (cases ss) (auto simp: list_all2_Cons1)
  have "str_equal (sec_section_name s) n = Some (m = name)"
    using str_equal_strings [OF _ assms, of "sec_section_name s" m] ss(2) by (simp add: section_holds_def)
  then show ?case using ss Cons.IH [OF ss(3)] by auto
qed simp

lemma value_loop_finds:
  assumes "c_string kd = Some k"
  shows "list_all2 pair_holds kl kvs \<Longrightarrow>
    \<exists>r. value_loop kl kd = Some r \<and> (case map_of kvs k of None \<Rightarrow> r = None | Some v \<Rightarrow> \<exists>d. r = Some d \<and> c_string d = Some v)"
proof (induction kl arbitrary: kvs)
  case (Cons kv kl)
  then obtain m v kvs' where kvs: "kvs = (m, v) # kvs'" "pair_holds kv (m, v)" "list_all2 pair_holds kl kvs'"
    by (cases kvs) (auto simp: list_all2_Cons1)
  have "str_equal (ckv_key kv) kd = Some (m = k)"
    using str_equal_strings [OF _ assms, of "ckv_key kv" m] kvs(2) by (simp add: pair_holds_def)
  then show ?case using kvs Cons.IH [OF kvs(3)] by (auto simp: pair_holds_def)
qed simp

lemma configuration_find_finds:
  assumes "conf_holds c ss" "c_string n = Some name" "c_string kd = Some k"
  obtains r where "configuration_find c (Some n) (Some kd) = Some r"
    "case looked_up ss name k of None \<Rightarrow> r = None | Some v \<Rightarrow> \<exists>d. r = Some d \<and> c_string d = Some v"
proof -
  obtain conf where c: "c = Some conf" "list_all2 section_holds (conf_section_list conf) ss" using assms(1) by (auto simp: conf_holds_def)
  obtain s where s: "section_loop (conf_section_list conf) n = Some s"
    "case map_of ss name of None \<Rightarrow> s = None | Some kvs \<Rightarrow> \<exists>t. s = Some t \<and> section_holds t (name, kvs)"
    using section_loop_finds [OF assms(2) c(2)] by blast
  show thesis
  proof (cases "map_of ss name")
    case None
    then show ?thesis using s c(1) that [of None]
      by (simp add: configuration_find_def configuration_internal_get_section_def looked_up_def)
  next
    case (Some kvs)
    then obtain t where t: "s = Some t" "section_holds t (name, kvs)" using s(2) by auto
    then obtain r where "value_loop (sec_key_value_list t) kd = Some r"
      "case map_of kvs k of None \<Rightarrow> r = None | Some v \<Rightarrow> \<exists>d. r = Some d \<and> c_string d = Some v"
      using value_loop_finds [OF assms(3), of "sec_key_value_list t" kvs] by (auto simp: section_holds_def)
    then show ?thesis using s(1) c(1) t(1) Some that [of r]
      by (simp add: configuration_find_def configuration_internal_get_section_def configuration_internal_get_value_def looked_up_def)
  qed
qed

lemma configuration_getters:
  assumes "conf_holds c ss" "c_string n = Some name" "c_string kd = Some k"
  shows "configuration_has_section c (Some n) = Some (map_of ss name \<noteq> None) \<and>
    configuration_has_key c (Some n) (Some kd) = Some (looked_up ss name k \<noteq> None) \<and>
    (\<exists>r. configuration_get_value_as_string c (Some n) (Some kd) = Some r \<and> map_option c_string r = map_option Some (looked_up ss name k)) \<and>
    configuration_get_value_as_boolean c (Some n) (Some kd) =
      Some (looked_up ss name k \<in> {Some (bytes_of ''true''), Some (bytes_of ''1'')}) \<and>
    configuration_get_value_as_integer c (Some n) (Some kd) =
      (case looked_up ss name k of None \<Rightarrow> Some LONG_MAX | Some v \<Rightarrow> atol (v @ [0]))"
proof -
  obtain r where r: "configuration_find c (Some n) (Some kd) = Some r"
    "case looked_up ss name k of None \<Rightarrow> r = None | Some v \<Rightarrow> \<exists>d. r = Some d \<and> c_string d = Some v"
    using configuration_find_finds [OF assms] by blast
  obtain conf where c: "c = Some conf" "list_all2 section_holds (conf_section_list conf) ss" using assms(1) by (auto simp: conf_holds_def)
  have sec: "configuration_has_section c (Some n) = Some (map_of ss name \<noteq> None)"
    using section_loop_finds [OF assms(2) c(2)] c(1)
    by (auto simp: configuration_has_section_def configuration_internal_get_section_def split: option.splits)
  show ?thesis
  proof (cases "looked_up ss name k")
    case None
    then show ?thesis using sec r
      by (simp add: configuration_has_key_def configuration_get_value_as_string_def
          configuration_get_value_as_boolean_def configuration_get_value_as_integer_def)
  next
    case (Some v)
    then obtain d where d: "r = Some d" "c_string d = Some v" using r(2) by auto
    have nz: "0 \<notin> set v" using d(2) by (rule c_stringE)
    have lit: "0 \<notin> set t \<Longrightarrow> str_equal d (t @ [0]) = Some (v = t)" for t
      using str_equal_strings [OF d(2), of "t @ [0]" t] c_string_exact [of t "[]"] by simp
    have "str_equal d (bytes_of ''true'' @ [0]) = Some (v = bytes_of ''true'')" "str_equal d (bytes_of ''1'' @ [0]) = Some (v = bytes_of ''1'')"
      by (rule lit; simp add: bytes_of_def)+
    moreover have "atol d = atol (v @ [0])" using d(2) c_string_exact [OF nz, of "[]"] by (simp add: atol_def)
    ultimately show ?thesis using sec r d Some
      by (simp add: configuration_has_key_def configuration_get_value_as_string_def
          configuration_get_value_as_boolean_def configuration_get_value_as_integer_def)
  qed
qed

text \<open>
  The getters answer from the first section with the name and the first pair in it with the key: its value as a
  string, whether there is one, whether it reads \<open>true\<close> or \<open>1\<close>, and what \<open>atol\<close> reads from it; without one the
  defaults NULL, false and \<open>LONG_MAX\<close>.
\<close>

theorem configuration_lookups:
  assumes "conf_holds c ss" "c_string n = Some name" "c_string kd = Some k"
  shows "configuration_has_section c (Some n) = Some (map_of ss name \<noteq> None) \<and>
    configuration_has_key c (Some n) (Some kd) = Some (looked_up ss name k \<noteq> None) \<and>
    (\<exists>r. configuration_get_value_as_string c (Some n) (Some kd) = Some r \<and> map_option c_string r = map_option Some (looked_up ss name k)) \<and>
    configuration_get_value_as_boolean c (Some n) (Some kd) =
      Some (looked_up ss name k \<in> {Some (bytes_of ''true''), Some (bytes_of ''1'')}) \<and>
    configuration_get_value_as_integer c (Some n) (Some kd) =
      (case looked_up ss name k of None \<Rightarrow> Some LONG_MAX | Some v \<Rightarrow> atol (v @ [0]))"
  using assms by (rule configuration_getters)

section \<open>Files whose lines end\<close>

text \<open>Names with a line feed, and values that are empty or have one.\<close>

definition feeds_left :: "conf_sections \<Rightarrow> bool" where
  "feeds_left ss = (\<forall>p \<in> set ss. 10 \<in> set (fst p) \<and> (\<forall>kv \<in> set (snd p). snd kv = [] \<or> 10 \<in> set (snd kv)))"

lemma feeds_left_add: "feeds_left ss \<Longrightarrow> v = [] \<or> 10 \<in> set v \<Longrightarrow> feeds_left (add_pair ss name (k, v))"
  by (induction ss name "(k, v)" rule: add_pair.induct) (auto simp: feeds_left_def)

lemma last_left: "dropWhile P v \<noteq> [] \<Longrightarrow> last (dropWhile P v) = last v"
  by (metis last_appendR takeWhile_dropWhile_id)

lemma trim_left_feed: "last v = 10 \<Longrightarrow> trim_left v = [] \<or> 10 \<in> set (trim_left v)"
  unfolding trim_left_def using last_left last_in_set by metis

lemma feeds_left_read_line: "feeds_left (fst sp) \<Longrightarrow> l \<noteq> [] \<Longrightarrow> last l = 10 \<Longrightarrow> feeds_left (fst (read_line l sp))"
proof -
  assume a: "feeds_left (fst sp)" "l \<noteq> []" "last l = 10"
  have "10 \<in> set (remove1 93 (remove1 91 l))" using a(2,3) last_in_set [OF a(2)] by simp
  then have name: "section_of l = Some name \<Longrightarrow> 10 \<in> set name" for name by (auto simp only: section_of_def Let_def option.inject option.distinct split: if_splits)
  have val: "pair_of l = Some (k, v) \<Longrightarrow> v = [] \<or> 10 \<in> set v" for k v
  proof -
    assume "pair_of l = Some (k, v)"
    then have v: "v = trim_left (tl (dropWhile (\<lambda>c. c \<noteq> 61) l))" "61 \<in> set l" by (auto simp only: pair_of_def Let_def option.inject option.distinct prod.inject split: if_splits)
    let ?r = "dropWhile (\<lambda>c. c \<noteq> 61) l"
    have "?r \<noteq> []" using v(2) by (simp add: dropWhile_eq_Nil_conv)
    moreover have "last ?r = 10" using last_left [OF \<open>?r \<noteq> []\<close>] a(3) by simp
    moreover have "hd ?r = 61" using hd_dropWhile [OF \<open>?r \<noteq> []\<close>] by simp
    ultimately have "tl ?r \<noteq> []" "last (tl ?r) = 10" by (cases ?r; auto split: if_splits)+
    then show ?thesis using trim_left_feed v(1) by simp
  qed
  show ?thesis
  proof (cases "section_of l")
    case (Some name)
    then show ?thesis using a(1) name by (auto simp: read_line_def feeds_left_def)
  next
    case None
    show ?thesis
    proof (cases "pair_of l")
      case (Some kv)
      then show ?thesis using None val [of "fst kv" "snd kv"] feeds_left_add [OF a(1), of "snd kv" "snd sp" "fst kv"] by (simp add: read_line_def)
    qed (use None a(1) in \<open>simp add: read_line_def\<close>)
  qed
qed

lemma feeds_left_read: "list_all (\<lambda>l. l \<noteq> [] \<and> last l = 10) ls \<Longrightarrow> feeds_left (fst sp) \<Longrightarrow> feeds_left (fst (fold read_line ls sp))"
  by (induction ls arbitrary: sp) (simp_all add: feeds_left_read_line)

lemma file_lines_nonempty: "l \<in> set (file_lines s) \<Longrightarrow> l \<noteq> []"
proof (induction s rule: file_lines.induct)
  case (1 s)
  then have "s \<noteq> []" by (subst (asm) (2) file_lines.simps) auto
  obtain l' r where "fgets 1023 s = (l', r)" by (cases "fgets 1023 s")
  moreover from this have "l' \<noteq> []" using fgets_split \<open>s \<noteq> []\<close> by fastforce
  ultimately show ?case using 1 \<open>s \<noteq> []\<close> by (subst (asm) (2) file_lines.simps) auto
qed

text \<open>
  C32: in a file whose lines all end with a line feed, no section can be found by its name, and no value is true: \<open>configuration_has_section\<close>
  answers false for every name without a line feed, and \<open>configuration_get_value_as_boolean\<close> answers false whatever it is asked for.
\<close>

theorem configuration_keeps_line_feeds:
  assumes "file f = Some contents" "0 \<notin> set contents" "1024 \<le> ps" "ps \<le> SIZE_MAX div 4"
    and "configuration_allocate ps True (\<lambda>_ _. True) file (Some f) = Some c"
    and "list_all (\<lambda>l. last l = 10) (file_lines contents)" "c_string n = Some name" "c_string kd = Some k"
  shows "(10 \<notin> set name \<longrightarrow> configuration_has_section c (Some n) = Some False) \<and>
    configuration_get_value_as_boolean c (Some n) (Some kd) = Some False"
proof -
  define ss where "ss = fst (fold read_line (file_lines contents) ([], []))"
  have "if list_all line_fits (file_lines contents)
    then \<exists>c. configuration_allocate ps True (\<lambda>_ _. True) file (Some f) = Some c \<and> conf_holds c ss
    else configuration_allocate ps True (\<lambda>_ _. True) file (Some f) = None"
    unfolding ss_def using assms(1-4) by (rule configuration_file_held)
  then have "conf_holds c ss" using assms(5) by (auto split: if_splits)
  note look = configuration_getters [OF this assms(7,8)]
  have fl: "feeds_left ss" unfolding ss_def
    by (rule feeds_left_read) (use assms(6) file_lines_nonempty in \<open>auto simp: list_all_iff feeds_left_def\<close>)
  have "map_of ss name = None" if "10 \<notin> set name"
  proof (rule ccontr)
    assume "map_of ss name \<noteq> None"
    then obtain kvs where "(name, kvs) \<in> set ss" using map_of_SomeD by fast
    then show False using fl that unfolding feeds_left_def by force
  qed
  moreover have val: "v = [] \<or> 10 \<in> set v" if lk: "looked_up ss name k = Some v" for v
  proof -
    obtain kvs where "map_of ss name = Some kvs" "map_of kvs k = Some v"
      using lk by (auto simp: looked_up_def split: option.splits)
    then have "(name, kvs) \<in> set ss" "(k, v) \<in> set kvs" using map_of_SomeD by fast+
    then show ?thesis using fl unfolding feeds_left_def by force
  qed
  moreover have "looked_up ss name k \<noteq> Some (bytes_of ''true'')" "looked_up ss name k \<noteq> Some (bytes_of ''1'')"
    using val by (force simp: bytes_of_def)+
  ultimately show ?thesis using look by simp
qed

section \<open>Witnesses\<close>

lemma fgets_line: "10 \<notin> set l \<Longrightarrow> length l < n \<Longrightarrow> fgets n (l @ 10 # r) = (l @ [10], r)"
  by (induction n l rule: fgets.induct) auto

lemma fgets_last: "10 \<notin> set l \<Longrightarrow> length l \<le> n \<Longrightarrow> fgets n l = (l, [])"
  by (induction n l rule: fgets.induct) auto

lemma file_lines_line: "10 \<notin> set l \<Longrightarrow> length l < 1023 \<Longrightarrow> file_lines (l @ 10 # r) = (l @ [10]) # file_lines r"
  by (subst file_lines.simps) (simp add: fgets_line)

lemma file_lines_last: "10 \<notin> set l \<Longrightarrow> length l \<le> 1023 \<Longrightarrow> l \<noteq> [] \<Longrightarrow> file_lines l = [l]"
  by (subst file_lines.simps) (simp add: fgets_last file_lines.simps [of "[]"])

lemma file_lines_Nil: "file_lines [] = []"
  by (simp add: file_lines.simps)

lemmas conf_eval = read_line_def section_of_def pair_of_def line_fits_def trim_left_def trim_right_def is_space_def Let_def

text \<open>The lines \<open>[s]\<close> and \<open>k = v\<close>, the last one without a line feed.\<close>

theorem configuration_reads_file_witness:
  "\<exists>c. configuration_allocate 4096 True (\<lambda>_ _. True) (\<lambda>_. Some [91, 115, 93, 10, 107, 32, 61, 32, 118]) (Some [0]) = Some c \<and>
     conf_holds c [([115, 10], [([107, 32], [118])])]"
proof -
  let ?f = "[91, 115, 93, 10, 107, 32, 61, 32, 118] :: byte list"
  have lines: "file_lines ?f = [[91, 115, 93, 10], [107, 32, 61, 32, 118]]"
    using file_lines_line [of "[91, 115, 93]" "[107, 32, 61, 32, 118]"] file_lines_last [of "[107, 32, 61, 32, 118]"] by simp
  have "fst (fold read_line (file_lines ?f) ([], [])) = [([115, 10], [([107, 32], [118])])]"
    unfolding lines by (simp add: conf_eval)
  moreover have "list_all line_fits (file_lines ?f)" unfolding lines by (simp add: conf_eval)
  ultimately show ?thesis using configuration_reads_file [of "\<lambda>_. Some ?f" "[0]" ?f 4096] by (simp add: SIZE_MAX_def)
qed

theorem configuration_keeps_line_feeds_witness:
  "\<exists>c. configuration_allocate 4096 True (\<lambda>_ _. True) (\<lambda>_. Some [91, 115, 93, 10, 98, 61, 49, 10]) (Some [0]) = Some c \<and>
     configuration_has_section c (Some [115, 0]) = Some False \<and>
     configuration_get_value_as_boolean c (Some [115, 10, 0]) (Some [98, 0]) = Some False"
proof -
  let ?f = "[91, 115, 93, 10, 98, 61, 49, 10] :: byte list"
  have lines: "file_lines ?f = [[91, 115, 93, 10], [98, 61, 49, 10]]"
    using file_lines_line [of "[91, 115, 93]" "[98, 61, 49, 10]"] file_lines_line [of "[98, 61, 49]" "[]"] by (simp add: file_lines_Nil)
  have fits: "list_all line_fits (file_lines ?f)" "list_all (\<lambda>l. last l = 10) (file_lines ?f)" unfolding lines by (simp_all add: conf_eval)
  obtain c where c: "configuration_allocate 4096 True (\<lambda>_ _. True) (\<lambda>_. Some ?f) (Some [0]) = Some c"
    using configuration_file_held [of "\<lambda>_. Some ?f" "[0]" ?f 4096] fits(1) by (auto simp: SIZE_MAX_def)
  have txts: "c_string [115, 0 :: byte] = Some [115]" "c_string [115, 10, 0 :: byte] = Some [115, 10]" "c_string [98, 0 :: byte] = Some [98]"
    by (simp_all add: c_string_def)
  have "configuration_has_section c (Some [115, 0]) = Some False"
    using configuration_keeps_line_feeds [of "\<lambda>_. Some ?f" "[0]" ?f 4096 c "[115, 0]" "[115]" "[98, 0]" "[98]"] fits(2) c txts
    by (simp add: SIZE_MAX_def)
  moreover have "configuration_get_value_as_boolean c (Some [115, 10, 0]) (Some [98, 0]) = Some False"
    using configuration_keeps_line_feeds [of "\<lambda>_. Some ?f" "[0]" ?f 4096 c "[115, 10, 0]" "[115, 10]" "[98, 0]" "[98]"] fits(2) c txts
    by (simp add: SIZE_MAX_def)
  ultimately show ?thesis using c by simp
qed

theorem configuration_lookups_witness:
  "let c = Some \<lparr>conf_section_count = 1, conf_section_list =
      [\<lparr>sec_section_name = [115, 0], sec_key_value_count = 1, sec_key_value_list = [\<lparr>ckv_key = [107, 0], ckv_value = [49, 0]\<rparr>]\<rparr>]\<rparr>
   in configuration_has_section c (Some [115, 0]) = Some True \<and>
      configuration_get_value_as_boolean c (Some [115, 0]) (Some [107, 0]) = Some True \<and>
      configuration_get_value_as_integer c (Some [115, 0]) (Some [107, 0]) = Some 1"
proof -
  define c where "c = Some \<lparr>conf_section_count = 1, conf_section_list =
      [\<lparr>sec_section_name = [115, 0], sec_key_value_count = 1, sec_key_value_list = [\<lparr>ckv_key = [107, 0], ckv_value = [49, 0]\<rparr>]\<rparr>]\<rparr>"
  have "conf_holds c [([115], [([107], [49])])]" "c_string [115, 0 :: byte] = Some [115]" "c_string [107, 0 :: byte] = Some [107]"
    by (simp_all add: c_def conf_holds_def section_holds_def pair_holds_def c_string_def)
  moreover have "atol ([49] @ [0]) = Some 1" by (simp add: atol_def c_string_def is_space_def digits_number_def LONG_MAX_def)
  ultimately show ?thesis using configuration_lookups [of c "[([115], [([107], [49])])]" "[115, 0]" "[115]" "[107, 0]" "[107]"]
    unfolding Let_def c_def [symmetric] by (simp add: looked_up_def bytes_of_def)
qed

section \<open>Listings\<close>

lemma section_names_listed:
  assumes "0 < ps" "ps \<le> SIZE_MAX div 4"
  shows "list_all2 section_holds sl ss \<Longrightarrow> \<forall>p \<in> set ss. length (fst p) \<le> SIZE_MAX div 2 \<Longrightarrow> strings_held ps b ts \<Longrightarrow>
    \<exists>q. section_names_loop ps (\<lambda>_ _. True) sl i b = Some q \<and> strings_held ps q (ts @ filter (\<lambda>n. n \<noteq> []) (map fst ss))"
proof (induction sl arbitrary: ss i b ts)
  case (Cons s sl)
  then obtain n kvs ss' where ss: "ss = (n, kvs) # ss'" "section_holds s (n, kvs)" "list_all2 section_holds sl ss'"
    by (cases ss) (auto simp: list_all2_Cons1)
  have len: "str_len (sec_section_name s) = Some (length n)" using ss(2) by (simp add: str_len_def section_holds_def)
  show ?case
  proof (cases "n = []")
    case True
    then show ?thesis using Cons.IH [OF ss(3) _ Cons.prems(3)] Cons.prems(2) ss(1) len by simp
  next
    case False
    obtain q where q: "string_append_to_list ps True True True b (Some (sec_section_name s)) = Some q" "strings_held ps q (ts @ [n])"
      using append_to_strings_held [OF Cons.prems(3) _ _ assms, of "sec_section_name s" n] ss(1,2) Cons.prems(2)
      by (auto simp: section_holds_def)
    then show ?thesis using Cons.IH [OF ss(3) _ q(2), of "i + 1"] Cons.prems(2) ss(1) len False by simp
  qed
qed simp

lemma keys_listed:
  assumes "0 < ps" "ps \<le> SIZE_MAX div 4"
  shows "list_all2 pair_holds kl kvs \<Longrightarrow> \<forall>p \<in> set kvs. length (fst p) \<le> SIZE_MAX div 2 \<Longrightarrow> strings_held ps b ts \<Longrightarrow>
    \<exists>q. keys_loop ps (\<lambda>_ _. True) kl i b = Some q \<and> strings_held ps q (ts @ map fst (filter (\<lambda>p. snd p \<noteq> []) kvs))"
proof (induction kl arbitrary: kvs i b ts)
  case (Cons kv kl)
  then obtain k v kvs' where kvs: "kvs = (k, v) # kvs'" "pair_holds kv (k, v)" "list_all2 pair_holds kl kvs'"
    by (cases kvs) (auto simp: list_all2_Cons1)
  have len: "str_len (ckv_value kv) = Some (length v)" using kvs(2) by (simp add: str_len_def pair_holds_def)
  show ?case
  proof (cases "v = []")
    case True
    then show ?thesis using Cons.IH [OF kvs(3) _ Cons.prems(3)] Cons.prems(2) kvs(1) len by simp
  next
    case False
    obtain q where q: "string_append_to_list ps True True True b (Some (ckv_key kv)) = Some q" "strings_held ps q (ts @ [k])"
      using append_to_strings_held [OF Cons.prems(3) _ _ assms, of "ckv_key kv" k] kvs(1,2) Cons.prems(2)
      by (auto simp: pair_holds_def)
    then show ?thesis using Cons.IH [OF kvs(3) _ q(2), of "i + 1"] Cons.prems(2) kvs(1) len False by simp
  qed
qed simp

text \<open>
  Listing.  The sections are listed in their order without the empty names, the keys of the first section with the name
  without those whose value is empty, when memory is available.
\<close>

lemma configuration_lists:
  assumes "conf_holds c ss" "0 < ps" "ps \<le> SIZE_MAX div 4"
    and "\<forall>p \<in> set ss. length (fst p) \<le> SIZE_MAX div 2 \<and> (\<forall>kv \<in> set (snd p). length (fst kv) \<le> SIZE_MAX div 2)"
    and "c_string n = Some name"
  shows "\<exists>q. configuration_get_all_sections ps True (\<lambda>_ _. True) c = Some q \<and> strings_held ps q (filter (\<lambda>n. n \<noteq> []) (map fst ss))"
    "\<exists>q. configuration_get_all_keys ps True (\<lambda>_ _. True) c (Some n) = Some q \<and>
      (case map_of ss name of None \<Rightarrow> q = None | Some kvs \<Rightarrow> strings_held ps q (map fst (filter (\<lambda>p. snd p \<noteq> []) kvs)))"
proof -
  obtain conf where c: "c = Some conf" "list_all2 section_holds (conf_section_list conf) ss" using assms(1) by (auto simp: conf_holds_def)
  have empty: "strings_held ps (Some \<lparr>sl_strings = None, sl_num_of_strings = 0, sl_current_index = 0\<rparr>) []"
    by (simp add: strings_held_def)
  show "\<exists>q. configuration_get_all_sections ps True (\<lambda>_ _. True) c = Some q \<and> strings_held ps q (filter (\<lambda>n. n \<noteq> []) (map fst ss))"
    using section_names_listed [OF assms(2,3) c(2) _ empty, of 0] assms(4) c(1)
    by (auto simp: configuration_get_all_sections_def string_list_allocate_default_def)
  obtain s where s: "section_loop (conf_section_list conf) n = Some s"
    "case map_of ss name of None \<Rightarrow> s = None | Some kvs \<Rightarrow> \<exists>t. s = Some t \<and> section_holds t (name, kvs)"
    using section_loop_finds [OF assms(5) c(2)] by blast
  show "\<exists>q. configuration_get_all_keys ps True (\<lambda>_ _. True) c (Some n) = Some q \<and>
      (case map_of ss name of None \<Rightarrow> q = None | Some kvs \<Rightarrow> strings_held ps q (map fst (filter (\<lambda>p. snd p \<noteq> []) kvs)))"
  proof (cases "map_of ss name")
    case None
    then show ?thesis using s c(1) by (simp add: configuration_get_all_keys_def configuration_internal_get_section_def)
  next
    case (Some kvs)
    then obtain t where t: "s = Some t" "section_holds t (name, kvs)" using s(2) by auto
    have "\<forall>p \<in> set kvs. length (fst p) \<le> SIZE_MAX div 2" using assms(4) map_of_SomeD [OF Some] by fastforce
    then show ?thesis using keys_listed [OF assms(2,3) _ _ empty, of "sec_key_value_list t" kvs 0] s(1) c(1) t Some
      by (simp add: configuration_get_all_keys_def configuration_internal_get_section_def string_list_allocate_default_def section_holds_def)
  qed
qed

end
