(* ===== verification/DoubleList.thy ===== *)
theory DoubleList
  imports CPrelude "HOL-Library.Multiset"
begin

text \<open>
  The doubly linked list of \<open>core/src/listdoublelinked.c\<close>.  Nodes live at abstract addresses, 0 is NULL, and no address is
  handed out twice, so that every access to a released node and every leak is visible.  The data block of a node has
  the node for its only owner and is a value inside it; where the code hands out or compares the address of a data
  block, the model has the address of the node.  The list structure has one owner, the client, and is a value
  too.  \<open>dl_oom a\<close> tells that the allocation that would have got the address \<open>a\<close> fails.
\<close>

section \<open>Nodes\<close>

record node_double_linked_t =
  dn_data :: "byte list"
  dn_size :: nat
  dn_next :: addr
  dn_previous :: addr

record list_double_linked_t =
  dl_count :: int
  dl_head :: addr
  dl_tail :: addr
  dl_iterator :: addr

record dl_heap =
  dl_nodes :: "addr \<rightharpoonup> node_double_linked_t"
  dl_fresh :: addr
  dl_oom :: "addr \<Rightarrow> bool"

definition load_dn :: "dl_heap \<Rightarrow> addr \<Rightarrow> node_double_linked_t option" where
  "load_dn h p = (if p = 0 then None else dl_nodes h p)"

definition store_dn :: "dl_heap \<Rightarrow> addr \<Rightarrow> node_double_linked_t \<Rightarrow> dl_heap option" where
  "store_dn h p nd = do { load_dn h p; Some (h\<lparr>dl_nodes := (dl_nodes h)(p \<mapsto> nd)\<rparr>) }"

definition set_next :: "addr \<Rightarrow> addr \<Rightarrow> dl_heap \<Rightarrow> dl_heap option" where
  "set_next p q h = do { nd \<leftarrow> load_dn h p; store_dn h p (nd\<lparr>dn_next := q\<rparr>) }"

definition set_previous :: "addr \<Rightarrow> addr \<Rightarrow> dl_heap \<Rightarrow> dl_heap option" where
  "set_previous p q h = do { nd \<leftarrow> load_dn h p; store_dn h p (nd\<lparr>dn_previous := q\<rparr>) }"

text \<open>\<open>free(p->data); free(p)\<close>.\<close>

definition free_dn :: "addr \<Rightarrow> dl_heap \<Rightarrow> dl_heap option" where
  "free_dn p h = do { load_dn h p; Some (h\<lparr>dl_nodes := (dl_nodes h)(p := None)\<rparr>) }"

text \<open>An allocation: whether it succeeds, and the next address.\<close>

definition dl_calloc :: "dl_heap \<Rightarrow> bool \<times> dl_heap" where
  "dl_calloc h = (\<not> dl_oom h (dl_fresh h), h\<lparr>dl_fresh := dl_fresh h + 1\<rparr>)"

type_synonym dl_result = "(list_double_linked_t \<times> dl_heap) option"

section \<open>Linking and unlinking\<close>

definition list_double_linked_allocate :: "dl_heap \<Rightarrow> list_double_linked_t option \<times> dl_heap" where
  "list_double_linked_allocate h =
     (case dl_calloc h of
        (ok, h) \<Rightarrow> (if ok then Some \<lparr>dl_count = 0, dl_head = 0, dl_tail = 0, dl_iterator = 0\<rparr> else None, h))"

definition list_double_linked_internal_add_to_head :: "list_double_linked_t \<Rightarrow> addr \<Rightarrow> dl_heap \<Rightarrow> dl_result" where
  "list_double_linked_internal_add_to_head l ptr h = do {
     h \<leftarrow> set_previous ptr 0 h;
     h \<leftarrow> set_next ptr (dl_head l) h;
     h \<leftarrow> (if dl_head l \<noteq> 0 then set_previous (dl_head l) ptr h else Some h);
     Some (l\<lparr>dl_head := ptr, dl_tail := (if dl_tail l = 0 then ptr else dl_tail l), dl_count := dl_count l + 1\<rparr>, h) }"

definition list_double_linked_internal_add_to_tail :: "list_double_linked_t \<Rightarrow> addr \<Rightarrow> dl_heap \<Rightarrow> dl_result" where
  "list_double_linked_internal_add_to_tail l ptr h = do {
     h \<leftarrow> set_next ptr 0 h;
     h \<leftarrow> set_previous ptr (dl_tail l) h;
     h \<leftarrow> (if dl_tail l \<noteq> 0 then set_next (dl_tail l) ptr h else Some h);
     Some (l\<lparr>dl_tail := ptr, dl_head := (if dl_head l = 0 then ptr else dl_head l), dl_count := dl_count l + 1\<rparr>, h) }"

definition list_double_linked_internal_remove_from_head :: "list_double_linked_t \<Rightarrow> dl_heap \<Rightarrow> dl_result" where
  "list_double_linked_internal_remove_from_head l h =
     (if dl_head l = 0 then Some (l, h)
      else do {
        let oldhead = dl_head l;
        nd \<leftarrow> load_dn h oldhead;
        let l = l\<lparr>dl_head := dn_next nd\<rparr>;
        (l, h) \<leftarrow> (if dl_head l \<noteq> 0 then do { h \<leftarrow> set_previous (dl_head l) 0 h; Some (l, h) }
                  else Some (l\<lparr>dl_tail := 0\<rparr>, h));
        h \<leftarrow> free_dn oldhead h;
        Some (l\<lparr>dl_count := dl_count l - 1\<rparr>, h) })"

definition list_double_linked_internal_remove_from_tail :: "list_double_linked_t \<Rightarrow> dl_heap \<Rightarrow> dl_result" where
  "list_double_linked_internal_remove_from_tail l h =
     (if dl_tail l = 0 then Some (l, h)
      else do {
        let oldtail = dl_tail l;
        nd \<leftarrow> load_dn h oldtail;
        let l = l\<lparr>dl_tail := dn_previous nd\<rparr>;
        (l, h) \<leftarrow> (if dl_tail l \<noteq> 0 then do { h \<leftarrow> set_next (dl_tail l) 0 h; Some (l, h) }
                  else Some (l\<lparr>dl_head := 0\<rparr>, h));
        h \<leftarrow> free_dn oldtail h;
        Some (l\<lparr>dl_count := dl_count l - 1\<rparr>, h) })"

text \<open>The end of both removals from the middle.\<close>

definition unlink_dn :: "list_double_linked_t \<Rightarrow> addr \<Rightarrow> dl_heap \<Rightarrow> dl_result" where
  "unlink_dn l ptr h = do {
     nd \<leftarrow> load_dn h ptr;
     h \<leftarrow> set_next (dn_previous nd) (dn_next nd) h;
     nd \<leftarrow> load_dn h ptr;
     h \<leftarrow> set_previous (dn_next nd) (dn_previous nd) h;
     h \<leftarrow> free_dn ptr h;
     Some (l\<lparr>dl_count := dl_count l - 1\<rparr>, h) }"

section \<open>Insertion and removal\<close>

text \<open>\<open>for (i = 0; i < k; i++) ptr = ptr->next\<close>.\<close>

fun walk_dn :: "dl_heap \<Rightarrow> nat \<Rightarrow> addr \<Rightarrow> addr option" where
  "walk_dn h 0 ptr = Some ptr"
| "walk_dn h (Suc k) ptr = do { nd \<leftarrow> load_dn h ptr; walk_dn h k (dn_next nd) }"

definition link_dn :: "list_double_linked_t \<Rightarrow> addr \<Rightarrow> int \<Rightarrow> dl_heap \<Rightarrow> dl_result" where
  "link_dn l ptr pos h =
     (if pos \<le> 0 then list_double_linked_internal_add_to_head l ptr h
      else if pos \<ge> dl_count l then list_double_linked_internal_add_to_tail l ptr h
      else do {
        current \<leftarrow> walk_dn h (nat (pos - 1)) (dl_head l);
        nd \<leftarrow> load_dn h current;
        h \<leftarrow> set_next ptr (dn_next nd) h;
        h \<leftarrow> set_previous ptr current h;
        h \<leftarrow> (if dn_next nd \<noteq> 0 then set_previous (dn_next nd) ptr h else Some h);
        h \<leftarrow> set_next current ptr h;
        Some (l\<lparr>dl_count := dl_count l + 1\<rparr>, h) })"

definition list_double_linked_insert ::
  "list_double_linked_t option \<Rightarrow> byte list option \<Rightarrow> nat \<Rightarrow> int \<Rightarrow> dl_heap \<Rightarrow> (list_double_linked_t option \<times> dl_heap) option" where
  "list_double_linked_insert lptr data sz pos h =
     (case (lptr, data) of
        (Some l, Some src) \<Rightarrow>
          if sz = 0 then Some (lptr, h)
          else
            let ptr = dl_fresh h
            in (case dl_calloc h of (ok1, h) \<Rightarrow>
                  if \<not> ok1 then Some (lptr, h)
                  else (case dl_calloc h of (ok2, h) \<Rightarrow>
                    if \<not> ok2 then Some (lptr, h)
                    else do {
                      block \<leftarrow> mem_copy (replicate sz 0) 0 src 0 sz;
                      let h = h\<lparr>dl_nodes := (dl_nodes h)(ptr \<mapsto> \<lparr>dn_data = block, dn_size = sz, dn_next = 0, dn_previous = 0\<rparr>)\<rparr>;
                      (l, h) \<leftarrow> link_dn l ptr pos h;
                      Some (Some l, h) }))
      | _ \<Rightarrow> Some (lptr, h))"

definition list_double_linked_add_to_head ::
  "list_double_linked_t option \<Rightarrow> byte list option \<Rightarrow> nat \<Rightarrow> dl_heap \<Rightarrow> (list_double_linked_t option \<times> dl_heap) option" where
  "list_double_linked_add_to_head lptr data sz = list_double_linked_insert lptr data sz 0"

definition list_double_linked_add_to_tail ::
  "list_double_linked_t option \<Rightarrow> byte list option \<Rightarrow> nat \<Rightarrow> dl_heap \<Rightarrow> (list_double_linked_t option \<times> dl_heap) option" where
  "list_double_linked_add_to_tail lptr data sz = list_double_linked_insert lptr data sz LONG_MAX"

definition list_double_linked_remove_at ::
  "list_double_linked_t option \<Rightarrow> int \<Rightarrow> dl_heap \<Rightarrow> (list_double_linked_t option \<times> dl_heap) option" where
  "list_double_linked_remove_at lptr pos0 h =
     (case lptr of
        None \<Rightarrow> Some (None, h)
      | Some l \<Rightarrow>
        let pos = (if pos0 = LONG_MAX then dl_count l - 1 else pos0)
        in if pos < 0 \<or> pos \<ge> dl_count l then Some (lptr, h)
           else do {
             (l, h) \<leftarrow> (if pos = 0 then list_double_linked_internal_remove_from_head l h
                       else if pos = dl_count l - 1 then list_double_linked_internal_remove_from_tail l h
                       else do { curptr \<leftarrow> walk_dn h (nat pos) (dl_head l); unlink_dn l curptr h });
             Some (Some l, h) })"

definition list_double_linked_remove_from_head ::
  "list_double_linked_t option \<Rightarrow> dl_heap \<Rightarrow> (list_double_linked_t option \<times> dl_heap) option" where
  "list_double_linked_remove_from_head lptr = list_double_linked_remove_at lptr 0"

definition list_double_linked_remove_from_tail ::
  "list_double_linked_t option \<Rightarrow> dl_heap \<Rightarrow> (list_double_linked_t option \<times> dl_heap) option" where
  "list_double_linked_remove_from_tail lptr = list_double_linked_remove_at lptr LONG_MAX"

text \<open>\<open>ptr->size == sz && memcmp(ptr->data, data, sz) == 0\<close>.\<close>

definition dn_holds :: "node_double_linked_t \<Rightarrow> byte list \<Rightarrow> nat \<Rightarrow> bool option" where
  "dn_holds nd src sz = (if dn_size nd = sz then do { c \<leftarrow> mem_cmp (dn_data nd) src sz; Some (c = 0) } else Some False)"

text \<open>The first node that holds the value: its address and index; 0 when the loop runs out.\<close>

partial_function (option) find_value_dn :: "dl_heap \<Rightarrow> byte list \<Rightarrow> nat \<Rightarrow> addr \<Rightarrow> nat \<Rightarrow> (addr \<times> nat) option" where
  "find_value_dn h src sz ptr idx =
     (if ptr = 0 then Some (0, idx)
      else do {
        nd \<leftarrow> load_dn h ptr;
        found \<leftarrow> dn_holds nd src sz;
        if found then Some (ptr, idx) else find_value_dn h src sz (dn_next nd) (idx + 1) })"

definition list_double_linked_remove_value ::
  "list_double_linked_t option \<Rightarrow> byte list option \<Rightarrow> nat \<Rightarrow> dl_heap \<Rightarrow> (list_double_linked_t option \<times> dl_heap) option" where
  "list_double_linked_remove_value lptr data sz h =
     (case (lptr, data) of
        (Some l, Some src) \<Rightarrow>
          if sz = 0 then Some (lptr, h)
          else do {
            (ptr, _) \<leftarrow> find_value_dn h src sz (dl_head l) 0;
            if ptr = 0 then Some (lptr, h)
            else do {
              (l, h) \<leftarrow> (if ptr = dl_head l then list_double_linked_internal_remove_from_head l h
                        else if ptr = dl_tail l then list_double_linked_internal_remove_from_tail l h
                        else unlink_dn l ptr h);
              Some (Some l, h) } }
      | _ \<Rightarrow> Some (lptr, h))"

partial_function (option) clear_dn :: "list_double_linked_t \<Rightarrow> dl_heap \<Rightarrow> dl_result" where
  "clear_dn l h =
     (if dl_count l > 0 then do { (l, h) \<leftarrow> list_double_linked_internal_remove_from_tail l h; clear_dn l h }
      else Some (l, h))"

definition list_double_linked_clear :: "list_double_linked_t option \<Rightarrow> dl_heap \<Rightarrow> (list_double_linked_t option \<times> dl_heap) option" where
  "list_double_linked_clear lptr h =
     (case lptr of None \<Rightarrow> Some (None, h) | Some l \<Rightarrow> do { (l, h) \<leftarrow> clear_dn l h; Some (Some l, h) })"

text \<open>
  The structure itself is gone afterwards: it is a value of the client, and its release leaves nothing behind in the heap.  Likewise the
  release of a data block, which the code does just before that of its node, is the release of the node here;
  that each is done is not visible in this model, only that no node stays behind.
\<close>

definition list_double_linked_free :: "list_double_linked_t option \<Rightarrow> dl_heap \<Rightarrow> dl_heap option" where
  "list_double_linked_free lptr h =
     (case lptr of None \<Rightarrow> Some h | Some l \<Rightarrow> do { (l, h) \<leftarrow> clear_dn l h; Some h })"

section \<open>Queries and iteration\<close>

definition list_double_linked_item_count :: "list_double_linked_t option \<Rightarrow> int" where
  "list_double_linked_item_count lptr = (case lptr of None \<Rightarrow> 0 | Some l \<Rightarrow> dl_count l)"

partial_function (option) find_data_dn :: "dl_heap \<Rightarrow> addr \<Rightarrow> addr \<Rightarrow> nat \<Rightarrow> int option" where
  "find_data_dn h node ptr idx =
     (if ptr = 0 then Some (-1)
      else do {
        nd \<leftarrow> load_dn h ptr;
        if ptr = node then Some (int idx) else find_data_dn h node (dn_next nd) (idx + 1) })"

definition list_double_linked_index_of :: "list_double_linked_t option \<Rightarrow> addr \<Rightarrow> dl_heap \<Rightarrow> int option" where
  "list_double_linked_index_of lptr node h =
     (case lptr of None \<Rightarrow> Some (-1) | Some l \<Rightarrow> find_data_dn h node (dl_head l) 0)"

definition list_double_linked_index_of_value ::
  "list_double_linked_t option \<Rightarrow> byte list option \<Rightarrow> nat \<Rightarrow> dl_heap \<Rightarrow> int option" where
  "list_double_linked_index_of_value lptr data sz h =
     (case (lptr, data) of
        (Some l, Some src) \<Rightarrow>
          if sz = 0 then Some (-1)
          else do { (ptr, idx) \<leftarrow> find_value_dn h src sz (dl_head l) 0; Some (if ptr = 0 then -1 else int idx) }
      | _ \<Rightarrow> Some (-1))"

text \<open>The counter of the loop is an \<open>int\<close>, which must not overflow.\<close>

definition list_double_linked_get_at :: "list_double_linked_t option \<Rightarrow> int \<Rightarrow> dl_heap \<Rightarrow> addr option" where
  "list_double_linked_get_at lptr atpos h =
     (case lptr of
        None \<Rightarrow> Some 0
      | Some l \<Rightarrow>
        if atpos > dl_count l - 1 \<or> atpos < 0 then Some 0
        else do {
          ptr \<leftarrow> (if atpos \<ge> 2 ^ 31 then None else walk_dn h (nat atpos) (dl_head l));
          _ \<leftarrow> load_dn h ptr;
          Some ptr })"

text \<open>The iterator functions answer the data (0 for NULL) and the list.\<close>

definition iterate_dn :: "list_double_linked_t \<Rightarrow> addr \<Rightarrow> dl_heap \<Rightarrow> (addr \<times> list_double_linked_t option) option" where
  "iterate_dn l p h = do { _ \<leftarrow> load_dn h p; Some (p, Some (l\<lparr>dl_iterator := p\<rparr>)) }"

definition list_double_linked_get_first ::
  "list_double_linked_t option \<Rightarrow> dl_heap \<Rightarrow> (addr \<times> list_double_linked_t option) option" where
  "list_double_linked_get_first lptr h =
     (case lptr of None \<Rightarrow> Some (0, None) | Some l \<Rightarrow> if dl_head l = 0 then Some (0, lptr) else iterate_dn l (dl_head l) h)"

definition list_double_linked_get_last ::
  "list_double_linked_t option \<Rightarrow> dl_heap \<Rightarrow> (addr \<times> list_double_linked_t option) option" where
  "list_double_linked_get_last lptr h =
     (case lptr of None \<Rightarrow> Some (0, None) | Some l \<Rightarrow> if dl_tail l = 0 then Some (0, lptr) else iterate_dn l (dl_tail l) h)"

definition list_double_linked_get_next ::
  "list_double_linked_t option \<Rightarrow> dl_heap \<Rightarrow> (addr \<times> list_double_linked_t option) option" where
  "list_double_linked_get_next lptr h =
     (case lptr of
        None \<Rightarrow> Some (0, None)
      | Some l \<Rightarrow>
        if dl_iterator l = 0 then Some (0, lptr)
        else do {
          nd \<leftarrow> load_dn h (dl_iterator l);
          if dn_next nd = 0 then Some (0, lptr) else iterate_dn l (dn_next nd) h })"

definition list_double_linked_get_previous ::
  "list_double_linked_t option \<Rightarrow> dl_heap \<Rightarrow> (addr \<times> list_double_linked_t option) option" where
  "list_double_linked_get_previous lptr h =
     (case lptr of
        None \<Rightarrow> Some (0, None)
      | Some l \<Rightarrow>
        if dl_iterator l = 0 then Some (0, lptr)
        else do {
          nd \<leftarrow> load_dn h (dl_iterator l);
          if dn_previous nd = 0 then Some (0, lptr) else iterate_dn l (dn_previous nd) h })"

section \<open>Sorting\<close>

text \<open>\<open>*(const int*)a\<close> of a block of four bytes, the low byte first.\<close>

definition le_int :: "byte list \<Rightarrow> int" where
  "le_int b =
     (let u = int (unat (b ! 0) + 256 * (unat (b ! 1) + 256 * (unat (b ! 2) + 256 * unat (b ! 3))))
      in if u < 2 ^ 31 then u else u - 2 ^ 32)"

definition list_double_linked_internal_default_compare :: "byte list \<Rightarrow> nat \<Rightarrow> byte list \<Rightarrow> nat \<Rightarrow> int option" where
  "list_double_linked_internal_default_compare a a_sz b b_sz =
     (if a_sz \<noteq> 4 \<or> b_sz \<noteq> 4 then Some 0
      else if length a < 4 \<or> length b < 4 then None
      else Some (if le_int a < le_int b then -1 else if le_int a > le_int b then 1 else 0))"

partial_function (option) split_dn :: "dl_heap \<Rightarrow> addr \<Rightarrow> addr \<Rightarrow> addr option" where
  "split_dn h slow fast =
     (if fast \<noteq> 0
      then do {
        f \<leftarrow> load_dn h fast;
        if dn_next f \<noteq> 0
        then do {
          s \<leftarrow> load_dn h slow;
          f' \<leftarrow> load_dn h (dn_next f);
          split_dn h (dn_next s) (dn_next f') }
        else Some slow }
      else Some slow)"

definition list_double_linked_internal_split :: "addr \<Rightarrow> dl_heap \<Rightarrow> (addr \<times> addr \<times> dl_heap) option" where
  "list_double_linked_internal_split source h = do {
     s \<leftarrow> load_dn h source;
     slow \<leftarrow> split_dn h source (dn_next s);
     nd \<leftarrow> load_dn h slow;
     let back = dn_next nd;
     h \<leftarrow> set_next slow 0 h;
     h \<leftarrow> (if back \<noteq> 0 then set_previous back 0 h else Some h);
     Some (source, back, h) }"

type_synonym list_double_linked_compare_fn = "byte list \<Rightarrow> nat \<Rightarrow> byte list \<Rightarrow> nat \<Rightarrow> int option"

text \<open>The node \<open>r\<close> is put before what was merged behind it.\<close>

definition put_before :: "addr \<Rightarrow> addr \<Rightarrow> dl_heap \<Rightarrow> (addr \<times> dl_heap) option" where
  "put_before result rest h = do {
     h \<leftarrow> set_next result rest h;
     h \<leftarrow> (if rest \<noteq> 0 then set_previous rest result h else Some h);
     h \<leftarrow> set_previous result 0 h;
     Some (result, h) }"

partial_function (option) list_double_linked_internal_merge_sorted ::
  "list_double_linked_compare_fn \<Rightarrow> addr \<Rightarrow> addr \<Rightarrow> dl_heap \<Rightarrow> (addr \<times> dl_heap) option" where
  "list_double_linked_internal_merge_sorted cmp left right h =
     (if left = 0 then Some (right, h)
      else if right = 0 then Some (left, h)
      else do {
        a \<leftarrow> load_dn h left;
        b \<leftarrow> load_dn h right;
        c \<leftarrow> cmp (dn_data a) (dn_size a) (dn_data b) (dn_size b);
        if c \<le> 0
        then do {
          (r, h) \<leftarrow> list_double_linked_internal_merge_sorted cmp (dn_next a) right h;
          put_before left r h }
        else do {
          (r, h) \<leftarrow> list_double_linked_internal_merge_sorted cmp left (dn_next b) h;
          put_before right r h } })"

partial_function (option) list_double_linked_internal_merge_sort_recursive ::
  "list_double_linked_compare_fn \<Rightarrow> addr \<Rightarrow> dl_heap \<Rightarrow> (addr \<times> dl_heap) option" where
  "list_double_linked_internal_merge_sort_recursive cmp head h =
     (if head = 0 then Some (head, h)
      else do {
        nd \<leftarrow> load_dn h head;
        if dn_next nd = 0 then Some (head, h)
        else do {
          (left, right, h) \<leftarrow> list_double_linked_internal_split head h;
          (left, h) \<leftarrow> list_double_linked_internal_merge_sort_recursive cmp left h;
          (right, h) \<leftarrow> list_double_linked_internal_merge_sort_recursive cmp right h;
          list_double_linked_internal_merge_sorted cmp left right h } })"

text \<open>The loop that repairs the back links and finds the tail.\<close>

partial_function (option) repair_dn :: "addr \<Rightarrow> addr \<Rightarrow> dl_heap \<Rightarrow> (addr \<times> dl_heap) option" where
  "repair_dn current tail h =
     (if current = 0 then Some (tail, h)
      else do {
        nd \<leftarrow> load_dn h current;
        if dn_next nd = 0 then repair_dn 0 current h
        else do { h \<leftarrow> set_previous (dn_next nd) current h; repair_dn (dn_next nd) tail h } })"

definition list_double_linked_internal_sort ::
  "list_double_linked_t option \<Rightarrow> list_double_linked_compare_fn option \<Rightarrow> dl_heap \<Rightarrow> (list_double_linked_t option \<times> dl_heap) option" where
  "list_double_linked_internal_sort lptr cmp h =
     (case (lptr, cmp) of
        (Some l, Some f) \<Rightarrow>
          if dl_count l \<le> 1 then Some (lptr, h)
          else do {
            (p, h) \<leftarrow> list_double_linked_internal_merge_sort_recursive f (dl_head l) h;
            (t, h) \<leftarrow> repair_dn p 0 h;
            Some (Some (l\<lparr>dl_head := p, dl_tail := t, dl_iterator := 0\<rparr>), h) }
      | _ \<Rightarrow> Some (lptr, h))"

definition list_double_linked_sort ::
  "list_double_linked_t option \<Rightarrow> dl_heap \<Rightarrow> (list_double_linked_t option \<times> dl_heap) option" where
  "list_double_linked_sort lptr h =
     (if lptr = None then Some (None, h)
      else list_double_linked_internal_sort lptr (Some list_double_linked_internal_default_compare) h)"

section \<open>Joining\<close>

partial_function (option) append_dn :: "list_double_linked_t option \<Rightarrow> addr \<Rightarrow> dl_heap \<Rightarrow> (list_double_linked_t option \<times> dl_heap) option" where
  "append_dn dest ptr h =
     (if ptr = 0 then Some (dest, h)
      else do {
        nd \<leftarrow> load_dn h ptr;
        (dest, h) \<leftarrow> list_double_linked_add_to_tail dest (Some (dn_data nd)) (dn_size nd) h;
        nd \<leftarrow> load_dn h ptr;
        append_dn dest (dn_next nd) h })"

definition list_double_linked_internal_append_all ::
  "list_double_linked_t option \<Rightarrow> list_double_linked_t \<Rightarrow> dl_heap \<Rightarrow> (list_double_linked_t option \<times> dl_heap) option" where
  "list_double_linked_internal_append_all dest src h = append_dn dest (dl_head src) h"

definition list_double_linked_join ::
  "list_double_linked_t option \<Rightarrow> list_double_linked_t option \<Rightarrow> dl_heap \<Rightarrow> (list_double_linked_t option \<times> dl_heap) option" where
  "list_double_linked_join lptrFirst lptrSecond h =
     (if lptrFirst = None \<and> lptrSecond = None then Some (None, h)
      else (case list_double_linked_allocate h of
              (None, h) \<Rightarrow> Some (None, h)
            | (lptrNew, h) \<Rightarrow> do {
                (lptrNew, h) \<leftarrow> (case lptrFirst of None \<Rightarrow> Some (lptrNew, h)
                                 | Some f \<Rightarrow> list_double_linked_internal_append_all lptrNew f h);
                (case lptrSecond of None \<Rightarrow> Some (lptrNew, h)
                 | Some s \<Rightarrow> list_double_linked_internal_append_all lptrNew s h) }))"

definition list_double_linked_merge ::
  "list_double_linked_t option \<Rightarrow> list_double_linked_t option \<Rightarrow> dl_heap \<Rightarrow> (list_double_linked_t option \<times> dl_heap) option" where
  "list_double_linked_merge lptrFirst lptrSecond h =
     (if lptrFirst = None \<and> lptrSecond = None then Some (None, h)
      else do {
        (lptrNew, h) \<leftarrow> list_double_linked_join lptrFirst lptrSecond h;
        if lptrNew = None then Some (None, h) else list_double_linked_sort lptrNew h })"

section \<open>Chains\<close>

text \<open>An item is the address of a node and the bytes it holds.\<close>

type_synonym dl_item = "addr \<times> byte list"

definition first_addr :: "dl_item list \<Rightarrow> addr \<Rightarrow> addr" where
  "first_addr ns q = (case ns of [] \<Rightarrow> q | n # _ \<Rightarrow> fst n)"

definition last_addr :: "addr \<Rightarrow> dl_item list \<Rightarrow> addr" where
  "last_addr p ns = (if ns = [] then p else fst (last ns))"

lemma first_addr_simps [simp]: "first_addr [] q = q" "first_addr (n # ns) q = fst n"
  "first_addr (ns @ ms) q = first_addr ns (first_addr ms q)"
  by (simp_all add: first_addr_def split: list.splits)

lemma last_addr_simps [simp]: "last_addr p [] = p" "last_addr p (n # ns) = last_addr (fst n) ns"
  "last_addr p (ns @ ms) = last_addr (last_addr p ns) ms"
  by (simp_all add: last_addr_def)

definition dn_of :: "byte list \<Rightarrow> addr \<Rightarrow> addr \<Rightarrow> node_double_linked_t" where
  "dn_of x nx pv = \<lparr>dn_data = x, dn_size = length x, dn_next = nx, dn_previous = pv\<rparr>"

lemma dn_of_simps [simp]: "dn_data (dn_of x nx pv) = x" "dn_size (dn_of x nx pv) = length x"
  "dn_next (dn_of x nx pv) = nx" "dn_previous (dn_of x nx pv) = pv"
  "(dn_of x nx pv)\<lparr>dn_next := q\<rparr> = dn_of x q pv" "(dn_of x nx pv)\<lparr>dn_previous := q\<rparr> = dn_of x nx q"
  by (simp_all add: dn_of_def)

text \<open>The nodes from one end to the other, linked in both directions: \<open>pv\<close> before them, \<open>nx\<close> behind.\<close>

fun dchain :: "(addr \<rightharpoonup> node_double_linked_t) \<Rightarrow> addr \<Rightarrow> dl_item list \<Rightarrow> addr \<Rightarrow> bool" where
  "dchain N pv [] nx = True"
| "dchain N pv ((p, x) # ns) nx = (p \<noteq> 0 \<and> N p = Some (dn_of x (first_addr ns nx) pv) \<and> dchain N p ns nx)"

abbreviation addrs :: "dl_item list \<Rightarrow> addr set" where
  "addrs ns \<equiv> fst ` set ns"

lemma dchain_append:
  "dchain N pv (ns @ ms) nx \<longleftrightarrow> dchain N pv ns (first_addr ms nx) \<and> dchain N (last_addr pv ns) ms nx"
  by (induction N pv ns nx rule: dchain.induct) auto

lemma dchain_cong: "(\<And>a. a \<in> addrs ns \<Longrightarrow> N' a = N a) \<Longrightarrow> dchain N' pv ns nx = dchain N pv ns nx"
  by (induction N pv ns nx rule: dchain.induct) auto

lemma dchain_other [simp]: "p \<notin> addrs ns \<Longrightarrow> dchain (N(p := v)) pv ns nx = dchain N pv ns nx"
  by (rule dchain_cong) auto

lemma dchain_zero: "dchain N pv ns nx \<Longrightarrow> 0 \<notin> addrs ns"
  by (induction N pv ns nx rule: dchain.induct) auto

lemma dchain_at: "dchain N pv (as @ (p, x) # bs) nx \<Longrightarrow> p \<noteq> 0 \<and> N p = Some (dn_of x (first_addr bs nx) (last_addr pv as))"
  by (simp add: dchain_append)

lemma dchain_set_last:
  "dchain N pv (ns @ [(p, x)]) nx \<Longrightarrow> p \<notin> addrs ns \<Longrightarrow>
   dchain (N(p \<mapsto> dn_of x q (last_addr pv ns))) pv (ns @ [(p, x)]) q"
  by (simp add: dchain_append)

lemma dchain_set_first:
  "dchain N pv ((p, x) # ns) nx \<Longrightarrow> p \<notin> addrs ns \<Longrightarrow>
   dchain (N(p \<mapsto> dn_of x (first_addr ns nx) q)) q ((p, x) # ns) nx"
  by simp

lemma first_zero: "0 \<notin> addrs ns \<Longrightarrow> first_addr ns 0 = 0 \<longleftrightarrow> ns = []"
  by (cases ns) force+

lemma last_zero: "0 \<notin> addrs ns \<Longrightarrow> last_addr 0 ns = 0 \<longleftrightarrow> ns = []"
  by (cases ns rule: rev_cases) force+

lemma last_nonzero: "0 \<notin> addrs ns \<Longrightarrow> pv \<noteq> 0 \<Longrightarrow> last_addr pv ns \<noteq> 0"
  by (cases ns rule: rev_cases) force+

text \<open>Loads and stores.\<close>

lemma dn_load: "h = h0 \<Longrightarrow> p \<noteq> 0 \<Longrightarrow> dl_nodes h p = Some nd \<Longrightarrow> load_dn h p = Some nd"
  by (simp add: load_dn_def)

lemma dn_links:
  assumes "p \<noteq> 0" "dl_nodes h p = Some nd"
  shows "load_dn h p = Some nd"
    "set_next p q h = Some (h\<lparr>dl_nodes := (dl_nodes h)(p \<mapsto> nd\<lparr>dn_next := q\<rparr>)\<rparr>)"
    "set_previous p q h = Some (h\<lparr>dl_nodes := (dl_nodes h)(p \<mapsto> nd\<lparr>dn_previous := q\<rparr>)\<rparr>)"
    "free_dn p h = Some (h\<lparr>dl_nodes := (dl_nodes h)(p := None)\<rparr>)"
  using assms by (simp_all add: load_dn_def set_next_def set_previous_def store_dn_def free_dn_def)

section \<open>The list\<close>

text \<open>
  \<open>dl_rep h l ns\<close>: the list \<open>l\<close> consists of the items \<open>ns\<close>.  What lies outside of them is untouched by every
  operation: \<open>dl_frame\<close>.
\<close>

definition dl_rep :: "dl_heap \<Rightarrow> list_double_linked_t \<Rightarrow> dl_item list \<Rightarrow> bool" where
  "dl_rep h l ns =
     (dchain (dl_nodes h) 0 ns 0 \<and> distinct (map fst ns) \<and> dl_count l = int (length ns) \<and>
      dl_head l = first_addr ns 0 \<and> dl_tail l = last_addr 0 ns \<and>
      0 < dl_fresh h \<and> (\<forall>a \<ge> dl_fresh h. dl_nodes h a = None))"

definition dl_frame :: "dl_heap \<Rightarrow> dl_item list \<Rightarrow> dl_heap \<Rightarrow> dl_item list \<Rightarrow> bool" where
  "dl_frame h ns h' ns' =
     (dl_fresh h \<le> dl_fresh h' \<and> dl_oom h' = dl_oom h \<and> addrs ns' \<subseteq> addrs ns \<union> {dl_fresh h..<dl_fresh h'} \<and>
      (\<forall>a. a \<notin> addrs ns \<longrightarrow> a \<notin> addrs ns' \<longrightarrow> dl_nodes h' a = dl_nodes h a) \<and>
      (\<forall>a \<in> addrs ns - addrs ns'. dl_nodes h' a = None))"

lemma dl_frame_refl [simp]: "dl_frame h ns h ns"
  by (simp add: dl_frame_def)

lemma dl_frame_trans:
  assumes f: "dl_frame h ns h1 ns1" and g: "dl_frame h1 ns1 h2 ns2" and old: "\<forall>a \<ge> dl_fresh h. dl_nodes h a = None"
  shows "dl_frame h ns h2 ns2"
proof -
  have fr: "dl_fresh h \<le> dl_fresh h1" "dl_fresh h1 \<le> dl_fresh h2" using f g by (auto simp: dl_frame_def)
  have sub: "addrs ns1 \<subseteq> addrs ns \<union> {dl_fresh h..<dl_fresh h1}" "addrs ns2 \<subseteq> addrs ns1 \<union> {dl_fresh h1..<dl_fresh h2}"
    using f g by (auto simp: dl_frame_def)
  have "addrs ns2 \<subseteq> addrs ns \<union> {dl_fresh h..<dl_fresh h2}"
  proof
    fix a assume "a \<in> addrs ns2"
    then show "a \<in> addrs ns \<union> {dl_fresh h..<dl_fresh h2}" using sub fr by (auto dest!: subsetD)
  qed
  moreover have "dl_nodes h2 a = dl_nodes h a" if "a \<notin> addrs ns" "a \<notin> addrs ns2" for a
  proof (cases "a \<in> addrs ns1")
    case True
    then have "dl_fresh h \<le> a" using sub(1) that(1) by auto
    then show ?thesis using old g True that(2) by (auto simp: dl_frame_def)
  next
    case False
    then show ?thesis using f g that by (simp add: dl_frame_def)
  qed
  moreover have "dl_nodes h2 a = None" if "a \<in> addrs ns - addrs ns2" for a
  proof (cases "a \<in> addrs ns1")
    case True
    then show ?thesis using g that by (simp add: dl_frame_def)
  next
    case False
    then show ?thesis using f g that by (simp add: dl_frame_def)
  qed
  ultimately show ?thesis using fr f g by (auto simp: dl_frame_def)
qed

lemma dl_repE:
  assumes "dl_rep h l ns"
  obtains "dchain (dl_nodes h) 0 ns 0" "distinct (map fst ns)" "dl_count l = int (length ns)"
    "dl_head l = first_addr ns 0" "dl_tail l = last_addr 0 ns" "0 < dl_fresh h" "\<forall>a \<ge> dl_fresh h. dl_nodes h a = None" "0 \<notin> addrs ns"
  using assms that dchain_zero [of "dl_nodes h" 0 ns 0] unfolding dl_rep_def by blast

lemma dl_rep_below: "dl_rep h l ns \<Longrightarrow> addrs ns \<subseteq> {..<dl_fresh h}"
proof
  fix a assume r: "dl_rep h l ns" "a \<in> addrs ns"
  then obtain x where "(a, x) \<in> set ns" by auto
  then obtain as bs where "ns = as @ (a, x) # bs" by (meson split_list)
  then have "dl_nodes h a \<noteq> None" using r(1) dchain_at [of "dl_nodes h" 0 as a x bs 0] by (auto simp: dl_rep_def)
  then show "a \<in> {..<dl_fresh h}" using r(1) by (metis dl_repE lessThan_iff not_less)
qed

section \<open>Linking a node in\<close>

text \<open>What linking in the node \<open>ptr\<close> with the bytes \<open>x\<close> does.\<close>

definition linked :: "dl_heap \<Rightarrow> dl_item list \<Rightarrow> addr \<Rightarrow> list_double_linked_t \<Rightarrow> dl_item list \<Rightarrow> dl_result \<Rightarrow> bool" where
  "linked h ns ptr l ns' r =
     (\<exists>l' h'. r = Some (l', h') \<and> dl_rep h' l' ns' \<and> dl_iterator l' = dl_iterator l \<and> dl_fresh h' = dl_fresh h \<and> dl_oom h' = dl_oom h \<and>
        (\<forall>a. a \<notin> addrs ns \<longrightarrow> a \<noteq> ptr \<longrightarrow> dl_nodes h' a = dl_nodes h a))"

lemma add_to_head_links:
  assumes "dl_rep h l ns" "dl_nodes h ptr = Some (dn_of x n0 p0)" "ptr \<noteq> 0" "ptr \<notin> addrs ns" "ptr < dl_fresh h"
  shows "linked h ns ptr l ((ptr, x) # ns) (list_double_linked_internal_add_to_head l ptr h)"
proof -
  note r = dl_repE [OF assms(1)]
  define N where "N = (dl_nodes h)(ptr \<mapsto> dn_of x (first_addr ns 0) 0)"
  have start: "set_previous ptr 0 h = Some (h\<lparr>dl_nodes := (dl_nodes h)(ptr \<mapsto> dn_of x n0 0)\<rparr>)"
    "set_next ptr q (h\<lparr>dl_nodes := (dl_nodes h)(ptr \<mapsto> dn_of x n0 0)\<rparr>) = Some (h\<lparr>dl_nodes := (dl_nodes h)(ptr \<mapsto> dn_of x q 0)\<rparr>)" for q
    using dn_links [OF assms(3), of h] dn_links [OF assms(3), of "h\<lparr>dl_nodes := (dl_nodes h)(ptr \<mapsto> dn_of x n0 0)\<rparr>"] assms(2)
    by simp_all
  show ?thesis
  proof (cases ns)
    case Nil
    then show ?thesis using r assms start unfolding linked_def list_double_linked_internal_add_to_head_def
      by (auto simp: dl_rep_def)
  next
    case (Cons n ms)
    obtain q y where n: "n = (q, y)" by (cases n)
    have q: "q \<noteq> 0" "dl_nodes h q = Some (dn_of y (first_addr ms 0) 0)" "q \<noteq> ptr" "q \<notin> addrs ms" "dchain (dl_nodes h) q ms 0"
      using r assms(4) Cons n by (auto elim: dl_repE)
    have "set_previous q ptr (h\<lparr>dl_nodes := N\<rparr>) = Some (h\<lparr>dl_nodes := N(q \<mapsto> dn_of y (first_addr ms 0) ptr)\<rparr>)"
      using dn_links(3) [OF q(1), of "h\<lparr>dl_nodes := N\<rparr>"] q(2,3) by (simp add: N_def)
    moreover have "last_addr q ms \<noteq> 0" using last_nonzero [OF _ q(1), of ms] dchain_zero [OF q(5)] by simp
    ultimately show ?thesis using r assms start q Cons n unfolding linked_def list_double_linked_internal_add_to_head_def
      by (auto simp: dl_rep_def N_def)
  qed
qed

lemma add_to_tail_links:
  assumes "dl_rep h l ns" "dl_nodes h ptr = Some (dn_of x n0 p0)" "ptr \<noteq> 0" "ptr \<notin> addrs ns" "ptr < dl_fresh h"
  shows "linked h ns ptr l (ns @ [(ptr, x)]) (list_double_linked_internal_add_to_tail l ptr h)"
proof -
  note r = dl_repE [OF assms(1)]
  define N where "N = (dl_nodes h)(ptr \<mapsto> dn_of x 0 (last_addr 0 ns))"
  have start: "set_next ptr 0 h = Some (h\<lparr>dl_nodes := (dl_nodes h)(ptr \<mapsto> dn_of x 0 p0)\<rparr>)"
    "set_previous ptr q (h\<lparr>dl_nodes := (dl_nodes h)(ptr \<mapsto> dn_of x 0 p0)\<rparr>) = Some (h\<lparr>dl_nodes := (dl_nodes h)(ptr \<mapsto> dn_of x 0 q)\<rparr>)" for q
    using dn_links [OF assms(3), of h] dn_links [OF assms(3), of "h\<lparr>dl_nodes := (dl_nodes h)(ptr \<mapsto> dn_of x 0 p0)\<rparr>"] assms(2)
    by simp_all
  show ?thesis
  proof (cases ns rule: rev_cases)
    case Nil
    then show ?thesis using r assms start unfolding linked_def list_double_linked_internal_add_to_tail_def
      by (auto simp: dl_rep_def)
  next
    case (snoc ms n)
    obtain q y where n: "n = (q, y)" by (cases n)
    have q: "q \<noteq> 0" "dl_nodes h q = Some (dn_of y 0 (last_addr 0 ms))" "q \<noteq> ptr" "q \<notin> addrs ms" "dchain (dl_nodes h) 0 ms q"
      using r assms(4) snoc n by (auto elim!: dl_repE simp: dchain_append)
    have "set_next q ptr (h\<lparr>dl_nodes := N\<rparr>) = Some (h\<lparr>dl_nodes := N(q \<mapsto> dn_of y ptr (last_addr 0 ms))\<rparr>)"
      using dn_links(2) [OF q(1), of "h\<lparr>dl_nodes := N\<rparr>"] q(2,3) by (simp add: N_def)
    moreover have "first_addr ms q \<noteq> 0" using dchain_zero [OF q(5)] q(1) by (cases ms) auto
    ultimately show ?thesis using r assms start q snoc n unfolding linked_def list_double_linked_internal_add_to_tail_def
      by (auto simp: dl_rep_def N_def dchain_append)
  qed
qed

lemma walk_dn_reaches: "dchain (dl_nodes h) pv ns nx \<Longrightarrow> k < length ns \<Longrightarrow> walk_dn h k (first_addr ns nx) = Some (fst (ns ! k))"
proof (induction k arbitrary: pv ns)
  case 0
  then show ?case by (cases ns) auto
next
  case (Suc k)
  obtain p x ms where "ns = (p, x) # ms" using Suc.prems(2) by (cases ns) auto
  then show ?case using Suc.IH [of p ms] Suc.prems by (auto simp: load_dn_def)
qed

lemma split_at_index: "k < length ns \<Longrightarrow> \<exists>as p x bs. ns = as @ (p, x) # bs \<and> length as = k \<and> ns ! k = (p, x)"
  using id_take_nth_drop [of k ns] by (intro exI [of _ "take k ns"] exI [of _ "fst (ns ! k)"] exI [of _ "snd (ns ! k)"] exI [of _ "drop (Suc k) ns"]) simp

definition insert_item :: "int \<Rightarrow> 'a \<Rightarrow> 'a list \<Rightarrow> 'a list" where
  "insert_item pos n ns =
     (let k = (if pos \<le> 0 then 0 else if pos \<ge> int (length ns) then length ns else nat pos) in take k ns @ n # drop k ns)"

lemma link_dn_links:
  assumes "dl_rep h l ns" "dl_nodes h ptr = Some (dn_of x n0 p0)" "ptr \<noteq> 0" "ptr \<notin> addrs ns" "ptr < dl_fresh h"
  shows "linked h ns ptr l (insert_item pos (ptr, x) ns) (link_dn l ptr pos h)"
proof -
  have rep: "dchain (dl_nodes h) 0 ns 0" "distinct (map fst ns)" "dl_head l = first_addr ns 0" "dl_tail l = last_addr 0 ns"
    "\<forall>a \<ge> dl_fresh h. dl_nodes h a = None" "0 < dl_fresh h" and count: "dl_count l = int (length ns)"
    using assms(1) by (simp_all add: dl_rep_def)
  consider "pos \<le> 0" | "pos > 0" "pos \<ge> int (length ns)" | "pos > 0" "pos < int (length ns)" by linarith
  then show ?thesis
  proof cases
    case 1
    then show ?thesis using add_to_head_links [OF assms] by (simp add: link_dn_def insert_item_def)
  next
    case 2
    then show ?thesis using add_to_tail_links [OF assms] count by (simp add: link_dn_def insert_item_def)
  next
    case 3
    define k where "k = nat (pos - 1)"
    have k: "Suc k < length ns" "nat pos = Suc k" using 3 by (auto simp: k_def)
    obtain as c y bs where s: "ns = as @ (c, y) # bs" "length as = k" "ns ! k = (c, y)"
      using split_at_index [of k ns] k(1) by auto
    obtain d z cs where bs: "bs = (d, z) # cs" using k(1) s(1,2) by (cases bs) auto
    have ins: "insert_item pos (ptr, x) ns = as @ (c, y) # (ptr, x) # bs"
      using 3 k s(1,2) by (simp add: insert_item_def Let_def)
    have w: "walk_dn h (nat (pos - 1)) (dl_head l) = Some c"
      using walk_dn_reaches [OF rep(1), of k] rep(3) k(1) s(3) by (simp add: k_def)
    have ch: "dchain (dl_nodes h) 0 as c" "dl_nodes h c = Some (dn_of y d (last_addr 0 as))" "dl_nodes h d = Some (dn_of z (first_addr cs 0) c)"
      "dchain (dl_nodes h) d cs 0" "c \<noteq> 0" "d \<noteq> 0"
      using rep(1) unfolding s(1) bs by (simp_all add: dchain_append)
    have ne: "c \<noteq> ptr" "d \<noteq> ptr" "c \<noteq> d" "c \<notin> addrs as" "d \<notin> addrs as" "c \<notin> addrs cs" "d \<notin> addrs cs" "ptr \<notin> addrs as" "ptr \<notin> addrs cs"
      using rep(2) assms(4) unfolding s(1) bs by auto
    define N where "N = (dl_nodes h)(ptr \<mapsto> dn_of x d c)"
    have "set_next ptr d h = Some (h\<lparr>dl_nodes := (dl_nodes h)(ptr \<mapsto> dn_of x d p0)\<rparr>)"
      "set_previous ptr c (h\<lparr>dl_nodes := (dl_nodes h)(ptr \<mapsto> dn_of x d p0)\<rparr>) = Some (h\<lparr>dl_nodes := N\<rparr>)"
      "set_previous d ptr (h\<lparr>dl_nodes := N\<rparr>) = Some (h\<lparr>dl_nodes := N(d \<mapsto> dn_of z (first_addr cs 0) ptr)\<rparr>)"
      "set_next c ptr (h\<lparr>dl_nodes := N(d \<mapsto> dn_of z (first_addr cs 0) ptr)\<rparr>) =
        Some (h\<lparr>dl_nodes := N(d \<mapsto> dn_of z (first_addr cs 0) ptr, c \<mapsto> dn_of y ptr (last_addr 0 as))\<rparr>)"
      using dn_links(2) [OF assms(3), of h] dn_links(3) [OF assms(3), of "h\<lparr>dl_nodes := (dl_nodes h)(ptr \<mapsto> dn_of x d p0)\<rparr>"]
        dn_links(3) [OF ch(6), of "h\<lparr>dl_nodes := N\<rparr>"] dn_links(2) [OF ch(5), of "h\<lparr>dl_nodes := N(d \<mapsto> dn_of z (first_addr cs 0) ptr)\<rparr>"]
        assms(2) ch(2,3) ne by (simp_all add: N_def)
    moreover have "load_dn h c = Some (dn_of y d (last_addr 0 as))" using ch(2,5) by (simp add: load_dn_def)
    ultimately have run: "link_dn l ptr pos h =
        Some (l\<lparr>dl_count := dl_count l + 1\<rparr>, h\<lparr>dl_nodes := N(d \<mapsto> dn_of z (first_addr cs 0) ptr, c \<mapsto> dn_of y ptr (last_addr 0 as))\<rparr>)"
      using 3 count w ch(6) by (simp add: link_dn_def)
    have "dchain (N(d \<mapsto> dn_of z (first_addr cs 0) ptr, c \<mapsto> dn_of y ptr (last_addr 0 as))) 0 (as @ (c, y) # (ptr, x) # bs) 0"
      using ch ne assms(3) by (simp add: dchain_append N_def bs)
    moreover have "distinct (map fst (as @ (c, y) # (ptr, x) # bs))" using rep(2) assms(4) unfolding s(1) by auto
    moreover have "first_addr (as @ (c, y) # (ptr, x) # bs) 0 = first_addr ns 0" "last_addr 0 (as @ (c, y) # (ptr, x) # bs) = last_addr 0 ns"
      by (simp_all add: s(1) bs)
    moreover have "N a = None" if "a \<ge> dl_fresh h" for a using rep(5) that assms(5) by (simp add: N_def)
    moreover have "c < dl_fresh h" "d < dl_fresh h" using rep(5) ch(2,3) by (metis not_less option.distinct(1))+
    moreover have "c \<in> addrs ns" "d \<in> addrs ns" by (auto simp: s(1) bs)
    ultimately show ?thesis unfolding run ins linked_def using rep(3,4,6) count s(1)
      by (auto simp: dl_rep_def N_def)
  qed
qed

lemma insert_item_set: "set (insert_item pos n ns) = insert n (set ns)"
proof -
  have "set (take k ns) \<union> set (drop k ns) = set ns" for k by (metis append_take_drop_id set_append)
  then show ?thesis by (auto simp: insert_item_def Let_def)
qed

text \<open>Insertion: with memory the new item stands at the position, cut to what there is; otherwise nothing changes.\<close>

lemma insert_correct:
  assumes "dl_rep h l ns" "0 < sz" "sz \<le> length src" "\<not> dl_oom h (dl_fresh h)" "\<not> dl_oom h (dl_fresh h + 1)"
  shows "\<exists>l' h'. list_double_linked_insert (Some l) (Some src) sz pos h = Some (Some l', h') \<and>
    dl_rep h' l' (insert_item pos (dl_fresh h, take sz src) ns) \<and> dl_frame h ns h' (insert_item pos (dl_fresh h, take sz src) ns) \<and>
    dl_iterator l' = dl_iterator l"
proof -
  let ?p = "dl_fresh h"
  define h1 where "h1 = h\<lparr>dl_fresh := ?p + 2, dl_nodes := (dl_nodes h)(?p \<mapsto> dn_of (take sz src) 0 0)\<rparr>"
  have p: "?p \<notin> addrs ns" "0 < ?p" using dl_rep_below [OF assms(1)] assms(1) by (auto simp: dl_rep_def)
  have "dl_rep h1 l ns" using assms(1) p(1) by (simp add: dl_rep_def h1_def)
  then have "linked h1 ns ?p l (insert_item pos (?p, take sz src) ns) (link_dn l ?p pos h1)"
    by (rule link_dn_links) (use p in \<open>simp_all add: h1_def\<close>)
  then obtain l' h' where l': "link_dn l ?p pos h1 = Some (l', h')" "dl_rep h' l' (insert_item pos (?p, take sz src) ns)"
    "dl_iterator l' = dl_iterator l" "dl_fresh h' = ?p + 2" "dl_oom h' = dl_oom h" "\<forall>a. a \<notin> addrs ns \<longrightarrow> a \<noteq> ?p \<longrightarrow> dl_nodes h' a = dl_nodes h a"
    unfolding linked_def by (auto simp: h1_def)
  have "mem_copy (replicate sz 0) 0 src 0 sz = Some (take sz src)" using assms(3) by (simp add: mem_copy_def)
  then have "list_double_linked_insert (Some l) (Some src) sz pos h = Some (Some l', h')"
    using assms(2-5) l'(1) by (simp add: list_double_linked_insert_def dl_calloc_def Let_def h1_def dn_of_def)
  moreover have "dl_frame h ns h' (insert_item pos (?p, take sz src) ns)"
    using l'(4-6) by (auto simp: dl_frame_def insert_item_set)
  ultimately show ?thesis using l'(2,3) by blast
qed

section \<open>Taking a node out\<close>

definition unlinked :: "dl_heap \<Rightarrow> dl_item list \<Rightarrow> list_double_linked_t \<Rightarrow> dl_item list \<Rightarrow> dl_result \<Rightarrow> bool" where
  "unlinked h ns l ns' r =
     (\<exists>l' h'. r = Some (l', h') \<and> dl_rep h' l' ns' \<and> dl_frame h ns h' ns' \<and> dl_iterator l' = dl_iterator l)"

lemma remove_from_head_unlinks:
  assumes "dl_rep h l ((p, x) # ms)"
  shows "unlinked h ((p, x) # ms) l ms (list_double_linked_internal_remove_from_head l h)"
proof -
  have rep: "p \<noteq> 0" "dl_nodes h p = Some (dn_of x (first_addr ms 0) 0)" "dchain (dl_nodes h) p ms 0" "p \<notin> addrs ms" "distinct (map fst ms)"
    "dl_head l = p" "dl_tail l = last_addr p ms" "\<forall>a \<ge> dl_fresh h. dl_nodes h a = None" "0 < dl_fresh h"
    "dl_count l = int (length ms) + 1"
    using assms by (auto simp: dl_rep_def)
  show ?thesis
  proof (cases ms)
    case Nil
    then show ?thesis using rep dn_links [OF rep(1,2)] unfolding list_double_linked_internal_remove_from_head_def unlinked_def
      by (simp add: Let_def dl_rep_def dl_frame_def)
  next
    case (Cons n ns)
    obtain q y where n: "n = (q, y)" by (cases n)
    have q: "q \<noteq> 0" "dl_nodes h q = Some (dn_of y (first_addr ns 0) p)" "dchain (dl_nodes h) q ns 0" "q \<notin> addrs ns" "p \<noteq> q" "p \<notin> addrs ns"
      using rep Cons n by auto
    define N where "N = (dl_nodes h)(q \<mapsto> dn_of y (first_addr ns 0) 0)"
    have "set_previous q 0 h = Some (h\<lparr>dl_nodes := N\<rparr>)" using dn_links(3) [OF q(1,2)] by (simp add: N_def)
    moreover have "free_dn p (h\<lparr>dl_nodes := N\<rparr>) = Some (h\<lparr>dl_nodes := N(p := None)\<rparr>)"
      using dn_links(4) [OF rep(1), of "h\<lparr>dl_nodes := N\<rparr>"] rep(2) q(5) by (simp add: N_def)
    ultimately have "list_double_linked_internal_remove_from_head l h =
        Some (l\<lparr>dl_head := q, dl_count := dl_count l - 1\<rparr>, h\<lparr>dl_nodes := N(p := None)\<rparr>)"
      using rep(1,6) dn_links(1) [OF rep(1,2)] Cons n q(1)
      by (simp add: list_double_linked_internal_remove_from_head_def Let_def)
    moreover have "dl_rep (h\<lparr>dl_nodes := N(p := None)\<rparr>) (l\<lparr>dl_head := q, dl_count := dl_count l - 1\<rparr>) ms"
      using rep q Cons n by (auto simp: dl_rep_def N_def)
    moreover have "dl_frame h ((p, x) # ms) (h\<lparr>dl_nodes := N(p := None)\<rparr>) ms" using q Cons n by (auto simp: dl_frame_def N_def)
    ultimately show ?thesis unfolding unlinked_def by simp
  qed
qed

lemma remove_from_tail_unlinks:
  assumes "dl_rep h l (ms @ [(p, x)])"
  shows "unlinked h (ms @ [(p, x)]) l ms (list_double_linked_internal_remove_from_tail l h)"
proof -
  have rep: "p \<noteq> 0" "dl_nodes h p = Some (dn_of x 0 (last_addr 0 ms))" "dchain (dl_nodes h) 0 ms p" "p \<notin> addrs ms" "distinct (map fst ms)"
    "dl_head l = first_addr ms p" "dl_tail l = p" "\<forall>a \<ge> dl_fresh h. dl_nodes h a = None" "0 < dl_fresh h"
    "dl_count l = int (length ms) + 1"
    using assms by (auto simp: dl_rep_def dchain_append)
  show ?thesis
  proof (cases ms rule: rev_cases)
    case Nil
    then show ?thesis using rep dn_links [OF rep(1,2)] unfolding list_double_linked_internal_remove_from_tail_def unlinked_def
      by (simp add: Let_def dl_rep_def dl_frame_def)
  next
    case (snoc ns n)
    obtain q y where n: "n = (q, y)" by (cases n)
    have q: "q \<noteq> 0" "dl_nodes h q = Some (dn_of y p (last_addr 0 ns))" "dchain (dl_nodes h) 0 ns q" "q \<notin> addrs ns" "p \<noteq> q" "p \<notin> addrs ns"
      using rep snoc n by (auto simp: dchain_append)
    define N where "N = (dl_nodes h)(q \<mapsto> dn_of y 0 (last_addr 0 ns))"
    have "set_next q 0 h = Some (h\<lparr>dl_nodes := N\<rparr>)" using dn_links(2) [OF q(1,2)] by (simp add: N_def)
    moreover have "free_dn p (h\<lparr>dl_nodes := N\<rparr>) = Some (h\<lparr>dl_nodes := N(p := None)\<rparr>)"
      using dn_links(4) [OF rep(1), of "h\<lparr>dl_nodes := N\<rparr>"] rep(2) q(5) by (simp add: N_def)
    ultimately have "list_double_linked_internal_remove_from_tail l h =
        Some (l\<lparr>dl_tail := q, dl_count := dl_count l - 1\<rparr>, h\<lparr>dl_nodes := N(p := None)\<rparr>)"
      using rep(1,7) dn_links(1) [OF rep(1,2)] snoc n q(1)
      by (simp add: list_double_linked_internal_remove_from_tail_def Let_def)
    moreover have "dl_rep (h\<lparr>dl_nodes := N(p := None)\<rparr>) (l\<lparr>dl_tail := q, dl_count := dl_count l - 1\<rparr>) ms"
      using rep q snoc n by (auto simp: dl_rep_def N_def dchain_append)
    moreover have "dl_frame h (ms @ [(p, x)]) (h\<lparr>dl_nodes := N(p := None)\<rparr>) ms" using q snoc n by (auto simp: dl_frame_def N_def)
    ultimately show ?thesis unfolding unlinked_def by simp
  qed
qed

lemma unlink_dn_unlinks:
  assumes "dl_rep h l (as @ (p, x) # bs)" "as \<noteq> []" "bs \<noteq> []"
  shows "unlinked h (as @ (p, x) # bs) l (as @ bs) (unlink_dn l p h)"
proof -
  obtain as' c y where as: "as = as' @ [(c, y)]" using assms(2) by (cases as rule: rev_cases) auto
  obtain d z bs' where bs: "bs = (d, z) # bs'" using assms(3) by (cases bs) auto
  have rep: "dchain (dl_nodes h) 0 as' c" "c \<noteq> 0" "dl_nodes h c = Some (dn_of y p (last_addr 0 as'))"
    "p \<noteq> 0" "dl_nodes h p = Some (dn_of x d c)" "d \<noteq> 0" "dl_nodes h d = Some (dn_of z (first_addr bs' 0) p)" "dchain (dl_nodes h) d bs' 0"
    using assms(1) unfolding as bs dl_rep_def by (simp_all add: dchain_append)
  have ne: "c \<noteq> p" "d \<noteq> p" "c \<noteq> d" "c \<notin> addrs as'" "d \<notin> addrs as'" "p \<notin> addrs as'" "c \<notin> addrs bs'" "d \<notin> addrs bs'" "p \<notin> addrs bs'"
    "distinct (map fst (as @ bs))"
    using assms(1) unfolding as bs dl_rep_def by auto
  have rest: "dl_head l = first_addr (as @ bs) 0" "dl_tail l = last_addr 0 (as @ bs)" "dl_count l = int (length (as @ bs)) + 1"
    "0 < dl_fresh h" "\<forall>a \<ge> dl_fresh h. dl_nodes h a = None"
    using assms(1) unfolding as bs dl_rep_def by simp_all
  define N where "N = (dl_nodes h)(c \<mapsto> dn_of y d (last_addr 0 as'))"
  define M where "M = N(d \<mapsto> dn_of z (first_addr bs' 0) c)"
  have "set_next c d h = Some (h\<lparr>dl_nodes := N\<rparr>)" using dn_links(2) [OF rep(2,3)] by (simp add: N_def)
  moreover have "load_dn h p = Some (dn_of x d c)" "load_dn (h\<lparr>dl_nodes := N\<rparr>) p = Some (dn_of x d c)"
    using rep(4,5) ne(1) by (simp_all add: load_dn_def N_def)
  moreover have "set_previous d c (h\<lparr>dl_nodes := N\<rparr>) = Some (h\<lparr>dl_nodes := M\<rparr>)"
    using dn_links(3) [OF rep(6), of "h\<lparr>dl_nodes := N\<rparr>"] rep(7) ne(3) by (simp add: N_def M_def)
  moreover have "free_dn p (h\<lparr>dl_nodes := M\<rparr>) = Some (h\<lparr>dl_nodes := M(p := None)\<rparr>)"
    using dn_links(4) [OF rep(4), of "h\<lparr>dl_nodes := M\<rparr>"] rep(5) ne(1,2) by (simp add: N_def M_def)
  ultimately have run: "unlink_dn l p h = Some (l\<lparr>dl_count := dl_count l - 1\<rparr>, h\<lparr>dl_nodes := M(p := None)\<rparr>)"
    by (simp add: unlink_dn_def)
  have "dchain (M(p := None)) 0 (as @ bs) 0" using rep ne by (simp add: as bs dchain_append N_def M_def)
  moreover have "M a = None" if "dl_fresh h \<le> a" for a using rest(5) that rep(3,7) by (auto simp: M_def N_def)
  ultimately have "dl_rep (h\<lparr>dl_nodes := M(p := None)\<rparr>) (l\<lparr>dl_count := dl_count l - 1\<rparr>) (as @ bs)"
    using rest ne(10) by (simp add: dl_rep_def)
  moreover have "dl_frame h (as @ (p, x) # bs) (h\<lparr>dl_nodes := M(p := None)\<rparr>) (as @ bs)"
    by (auto simp: dl_frame_def M_def N_def as bs)
  ultimately show ?thesis unfolding run unlinked_def by simp
qed

definition delete_item :: "nat \<Rightarrow> 'a list \<Rightarrow> 'a list" where
  "delete_item k ns = take k ns @ drop (Suc k) ns"

text \<open>The three ways out, by position.\<close>

lemma unlink_at:
  assumes "dl_rep h l ns" "k < length ns"
  shows "k = 0 \<Longrightarrow> unlinked h ns l (delete_item k ns) (list_double_linked_internal_remove_from_head l h)"
    "k = length ns - 1 \<Longrightarrow> unlinked h ns l (delete_item k ns) (list_double_linked_internal_remove_from_tail l h)"
    "k \<noteq> 0 \<Longrightarrow> k \<noteq> length ns - 1 \<Longrightarrow> unlinked h ns l (delete_item k ns) (unlink_dn l (fst (ns ! k)) h)"
proof -
  obtain as p x bs where s: "ns = as @ (p, x) # bs" "length as = k" "ns ! k = (p, x)" using split_at_index [OF assms(2)] by blast
  have del: "delete_item k ns = as @ bs" using s(1,2) by (simp add: delete_item_def)
  show "k = 0 \<Longrightarrow> unlinked h ns l (delete_item k ns) (list_double_linked_internal_remove_from_head l h)"
    using remove_from_head_unlinks [of h l p x bs] assms(1) s(1,2) del by simp
  show "k = length ns - 1 \<Longrightarrow> unlinked h ns l (delete_item k ns) (list_double_linked_internal_remove_from_tail l h)"
    using remove_from_tail_unlinks [of h l as p x] assms(1) s(1,2) del by simp
  show "k \<noteq> 0 \<Longrightarrow> k \<noteq> length ns - 1 \<Longrightarrow> unlinked h ns l (delete_item k ns) (unlink_dn l (fst (ns ! k)) h)"
    using unlink_dn_unlinks [of h l as p x bs] assms(1) s del by auto
qed

lemma remove_at_correct:
  fixes pos :: int
  assumes "dl_rep h l ns"
  defines "k \<equiv> if pos = LONG_MAX then int (length ns) - 1 else pos"
  defines "ns' \<equiv> if 0 \<le> k \<and> k < int (length ns) then delete_item (nat k) ns else ns"
  shows "\<exists>l' h'. list_double_linked_remove_at (Some l) pos h = Some (Some l', h') \<and> dl_rep h' l' ns' \<and> dl_frame h ns h' ns' \<and>
    dl_iterator l' = dl_iterator l"
proof (cases "0 \<le> k \<and> k < int (length ns)")
  case False
  have "(if pos = LONG_MAX then dl_count l - 1 else pos) = k" "dl_count l = int (length ns)"
    using assms(1) by (simp_all add: dl_rep_def k_def)
  moreover have "k < 0 \<or> int (length ns) \<le> k" using False by linarith
  ultimately have "list_double_linked_remove_at (Some l) pos h = Some (Some l, h)"
    by (simp only: list_double_linked_remove_at_def option.case Let_def if_True)
  moreover have "ns' = ns" unfolding ns'_def by (rule if_not_P [OF False])
  ultimately show ?thesis using assms(1) by simp
next
  case True
  have count: "dl_count l = int (length ns)" and hd: "dl_head l = first_addr ns 0" and ch: "dchain (dl_nodes h) 0 ns 0"
    using assms(1) by (simp_all add: dl_rep_def)
  have lt: "nat k < length ns" using True by linarith
  have w: "walk_dn h (nat k) (dl_head l) = Some (fst (ns ! nat k))" unfolding hd by (rule walk_dn_reaches [OF ch lt])
  have "unlinked h ns l (delete_item (nat k) ns)
      (if k = 0 then list_double_linked_internal_remove_from_head l h
       else if k = dl_count l - 1 then list_double_linked_internal_remove_from_tail l h
       else do { curptr \<leftarrow> walk_dn h (nat k) (dl_head l); unlink_dn l curptr h })"
  proof -
    have eq: "nat k = 0 \<longleftrightarrow> k = 0" "nat k = length ns - 1 \<longleftrightarrow> k = dl_count l - 1" using True count by auto
    note out = unlink_at [OF assms(1) lt, unfolded eq]
    consider "k = 0" | "k \<noteq> 0" "k = dl_count l - 1" | "k \<noteq> 0" "k \<noteq> dl_count l - 1" by blast
    then show ?thesis
    proof cases
      case 1
      then show ?thesis using out(1) by (simp only: simp_thms if_True)
    next
      case 2
      then show ?thesis using out(2) by (simp only: simp_thms if_True if_False)
    next
      case 3
      then show ?thesis using out(3) w by (simp only: simp_thms if_False bind_Some_iff)
    qed
  qed
  then obtain l' h' where out: "(if k = 0 then list_double_linked_internal_remove_from_head l h
       else if k = dl_count l - 1 then list_double_linked_internal_remove_from_tail l h
       else do { curptr \<leftarrow> walk_dn h (nat k) (dl_head l); unlink_dn l curptr h }) = Some (l', h')"
    "dl_rep h' l' (delete_item (nat k) ns)" "dl_frame h ns h' (delete_item (nat k) ns)" "dl_iterator l' = dl_iterator l"
    unfolding unlinked_def by blast
  have "(if pos = LONG_MAX then dl_count l - 1 else pos) = k" using count by (simp add: k_def)
  then have "list_double_linked_remove_at (Some l) pos h = Some (Some l', h')"
    using True count out(1) by (simp add: list_double_linked_remove_at_def)
  then show ?thesis using True out(2-4) by (simp add: ns'_def)
qed

text \<open>The first item with the value, and removal by value.\<close>

definition value_index :: "byte list \<Rightarrow> dl_item list \<Rightarrow> nat" where
  "value_index x ns = length (takeWhile (\<lambda>n. snd n \<noteq> x) ns)"

lemma dn_holds_value: "sz \<le> length src \<Longrightarrow> dn_holds (dn_of x nx pv) src sz = Some (x = take sz src)"
  using bytes_cmp_eq_0 [of x "take sz src"] by (auto simp: dn_holds_def mem_cmp_def)

lemma find_value_finds:
  assumes "sz \<le> length src"
  shows "dchain (dl_nodes h) pv ns 0 \<Longrightarrow> find_value_dn h src sz (first_addr ns 0) idx =
    Some (let k = value_index (take sz src) ns in if k < length ns then (fst (ns ! k), idx + k) else (0, idx + length ns))"
proof (induction ns arbitrary: pv idx)
  case Nil
  then show ?case by (subst find_value_dn.simps) (simp add: value_index_def)
next
  case (Cons n ns)
  obtain p x where n: "n = (p, x)" by (cases n)
  show ?case using Cons.IH [of p "idx + 1"] Cons.prems n dn_holds_value [OF assms, of x "first_addr ns 0" pv]
    by (subst find_value_dn.simps) (auto simp: load_dn_def value_index_def Let_def)
qed

lemma nth_addr_inj: "distinct (map fst ns) \<Longrightarrow> i < length ns \<Longrightarrow> j < length ns \<Longrightarrow> fst (ns ! i) = fst (ns ! j) \<longleftrightarrow> i = j"
  by (metis length_map nth_eq_iff_index_eq nth_map)

lemma remove_value_correct:
  assumes "dl_rep h l ns" "0 < sz" "sz \<le> length src"
  defines "k \<equiv> value_index (take sz src) ns"
  defines "ns' \<equiv> if k < length ns then delete_item k ns else ns"
  shows "\<exists>l' h'. list_double_linked_remove_value (Some l) (Some src) sz h = Some (Some l', h') \<and> dl_rep h' l' ns' \<and> dl_frame h ns h' ns' \<and>
    dl_iterator l' = dl_iterator l"
proof -
  have rep: "dl_head l = first_addr ns 0" "dl_tail l = last_addr 0 ns" "dchain (dl_nodes h) 0 ns 0" "distinct (map fst ns)"
    using assms(1) by (simp_all add: dl_rep_def)
  have found: "find_value_dn h src sz (dl_head l) 0 = Some (if k < length ns then (fst (ns ! k), k) else (0, length ns))"
    using find_value_finds [OF assms(3) rep(3), of 0] rep(1) by (simp add: k_def Let_def)
  show ?thesis
  proof (cases "k < length ns")
    case False
    then show ?thesis using found assms(1,2) by (simp add: list_double_linked_remove_value_def ns'_def)
  next
    case True
    then have ne: "ns \<noteq> []" by auto
    have ptr: "fst (ns ! k) \<noteq> 0" using dchain_zero [OF rep(3)] True by (metis image_eqI nth_mem)
    have "dl_head l = fst (ns ! 0)" using rep(1) ne by (cases ns) auto
    moreover have "dl_tail l = fst (ns ! (length ns - 1))" using rep(2) ne by (simp add: last_addr_def last_conv_nth)
    ultimately have ends: "fst (ns ! k) = dl_head l \<longleftrightarrow> k = 0" "fst (ns ! k) = dl_tail l \<longleftrightarrow> k = length ns - 1"
      using nth_addr_inj [OF rep(4) True, of 0] nth_addr_inj [OF rep(4) True, of "length ns - 1"] ne by auto
    note out = unlink_at [OF assms(1) True]
    have "unlinked h ns l (delete_item k ns)
        (if fst (ns ! k) = dl_head l then list_double_linked_internal_remove_from_head l h
         else if fst (ns ! k) = dl_tail l then list_double_linked_internal_remove_from_tail l h
         else unlink_dn l (fst (ns ! k)) h)"
    proof -
      consider "k = 0" | "k \<noteq> 0" "k = length ns - 1" | "k \<noteq> 0" "k \<noteq> length ns - 1" by blast
      then show ?thesis
      proof cases
        case 1
        then show ?thesis unfolding ends using out(1) by (simp only: simp_thms if_True)
      next
        case 2
        then show ?thesis unfolding ends using out(2) by (simp only: simp_thms if_True if_False)
      next
        case 3
        then show ?thesis unfolding ends using out(3) by (simp only: simp_thms if_False)
      qed
    qed
    then obtain l' h' where o: "(if fst (ns ! k) = dl_head l then list_double_linked_internal_remove_from_head l h
         else if fst (ns ! k) = dl_tail l then list_double_linked_internal_remove_from_tail l h
         else unlink_dn l (fst (ns ! k)) h) = Some (l', h')"
      "dl_rep h' l' (delete_item k ns)" "dl_frame h ns h' (delete_item k ns)" "dl_iterator l' = dl_iterator l"
      unfolding unlinked_def by blast
    have "list_double_linked_remove_value (Some l) (Some src) sz h = Some (Some l', h')"
      using found True ptr assms(2) o(1) by (simp add: list_double_linked_remove_value_def)
    then show ?thesis using o(2-4) True by (simp add: ns'_def)
  qed
qed

lemma clear_dn_clears: "dl_rep h l ns \<Longrightarrow> \<exists>l' h'. clear_dn l h = Some (l', h') \<and> dl_rep h' l' [] \<and> dl_frame h ns h' []"
proof (induction ns arbitrary: h l rule: rev_induct)
  case Nil
  then have "clear_dn l h = Some (l, h)" by (subst clear_dn.simps) (simp add: dl_rep_def)
  then show ?case using Nil by auto
next
  case (snoc n ns)
  obtain p x where n: "n = (p, x)" by (cases n)
  obtain l1 h1 where u: "list_double_linked_internal_remove_from_tail l h = Some (l1, h1)" "dl_rep h1 l1 ns" "dl_frame h (ns @ [n]) h1 ns"
    using remove_from_tail_unlinks [of h l ns p x] snoc.prems n unfolding unlinked_def by blast
  obtain l2 h2 where c: "clear_dn l1 h1 = Some (l2, h2)" "dl_rep h2 l2 []" "dl_frame h1 ns h2 []" using snoc.IH [OF u(2)] by blast
  have "clear_dn l h = Some (l2, h2)" using u(1) c(1) snoc.prems by (subst clear_dn.simps) (simp add: dl_rep_def)
  moreover have "dl_frame h (ns @ [n]) h2 []" by (rule dl_frame_trans [OF u(3) c(3)]) (use snoc.prems in \<open>simp add: dl_rep_def\<close>)
  ultimately show ?case using c(2) by blast
qed

lemma clear_correct:
  assumes "dl_rep h l ns"
  shows "\<exists>l' h'. list_double_linked_clear (Some l) h = Some (Some l', h') \<and> dl_rep h' l' [] \<and> dl_frame h ns h' []"
    "\<exists>h'. list_double_linked_free (Some l) h = Some h' \<and> dl_frame h ns h' []"
  using clear_dn_clears [OF assms] by (auto simp: list_double_linked_clear_def list_double_linked_free_def)

section \<open>Queries and iteration\<close>

lemma find_data_finds:
  "dchain (dl_nodes h) pv ns 0 \<Longrightarrow> distinct (map fst ns) \<Longrightarrow> k < length ns \<Longrightarrow>
    find_data_dn h (fst (ns ! k)) (first_addr ns 0) idx = Some (int (idx + k))"
proof (induction ns arbitrary: pv idx k)
  case (Cons n ns)
  obtain p x where n: "n = (p, x)" by (cases n)
  show ?case
  proof (cases k)
    case 0
    then show ?thesis using Cons.prems n by (subst find_data_dn.simps) (simp add: load_dn_def)
  next
    case (Suc j)
    have "fst (ns ! j) \<in> addrs ns" using Cons.prems(3) Suc by (intro imageI nth_mem) simp
    then have "fst (ns ! j) \<noteq> p" using Cons.prems(2) n by auto
    then show ?thesis using Cons.IH [of p j "idx + 1"] Cons.prems n Suc by (subst find_data_dn.simps) (auto simp: load_dn_def)
  qed
qed simp

lemma find_data_missing:
  "dchain (dl_nodes h) pv ns 0 \<Longrightarrow> d \<notin> addrs ns \<Longrightarrow> find_data_dn h d (first_addr ns 0) idx = Some (-1)"
proof (induction ns arbitrary: pv idx)
  case Nil
  then show ?case by (subst find_data_dn.simps) simp
next
  case (Cons n ns)
  obtain p x where n: "n = (p, x)" by (cases n)
  then show ?case using Cons.IH [of p "idx + 1"] Cons.prems by (subst find_data_dn.simps) (auto simp: load_dn_def)
qed

text \<open>
  What the queries answer: the count; the index of a node's data and of the first item with a value; the data at an index.
\<close>

lemma dl_queries:
  assumes "dl_rep h l ns"
  shows "list_double_linked_item_count (Some l) = int (length ns)"
    "k < length ns \<Longrightarrow> list_double_linked_index_of (Some l) (fst (ns ! k)) h = Some (int k)"
    "d \<notin> addrs ns \<Longrightarrow> list_double_linked_index_of (Some l) d h = Some (-1)"
    "0 < sz \<Longrightarrow> sz \<le> length src \<Longrightarrow> list_double_linked_index_of_value (Some l) (Some src) sz h =
      Some (if value_index (take sz src) ns < length ns then int (value_index (take sz src) ns) else -1)"
    "k < length ns \<Longrightarrow> k < 2 ^ 31 \<Longrightarrow> list_double_linked_get_at (Some l) (int k) h = Some (fst (ns ! k))"
    "i < 0 \<or> i \<ge> int (length ns) \<Longrightarrow> list_double_linked_get_at (Some l) i h = Some 0"
proof -
  have rep: "dl_head l = first_addr ns 0" "dchain (dl_nodes h) 0 ns 0" "distinct (map fst ns)" "dl_count l = int (length ns)"
    using assms by (simp_all add: dl_rep_def)
  have nz: "k < length ns \<Longrightarrow> fst (ns ! k) \<noteq> 0" for k using dchain_zero [OF rep(2)] by (metis image_eqI nth_mem)
  show "list_double_linked_item_count (Some l) = int (length ns)" using rep(4) by (simp add: list_double_linked_item_count_def)
  show "k < length ns \<Longrightarrow> list_double_linked_index_of (Some l) (fst (ns ! k)) h = Some (int k)"
    using find_data_finds [OF rep(2,3), of k 0] rep(1) by (simp add: list_double_linked_index_of_def)
  show "d \<notin> addrs ns \<Longrightarrow> list_double_linked_index_of (Some l) d h = Some (-1)"
    using find_data_missing [OF rep(2), of d 0] rep(1) by (simp add: list_double_linked_index_of_def)
  show "0 < sz \<Longrightarrow> sz \<le> length src \<Longrightarrow> list_double_linked_index_of_value (Some l) (Some src) sz h =
      Some (if value_index (take sz src) ns < length ns then int (value_index (take sz src) ns) else -1)"
    using find_value_finds [OF _ rep(2), of sz src 0] rep(1) nz [of "value_index (take sz src) ns"]
    by (auto simp: list_double_linked_index_of_value_def Let_def)
  show "i < 0 \<or> i \<ge> int (length ns) \<Longrightarrow> list_double_linked_get_at (Some l) i h = Some 0"
    using rep(4) by (auto simp: list_double_linked_get_at_def)
  assume k: "k < length ns" "k < 2 ^ 31"
  obtain as p x bs where s: "ns = as @ (p, x) # bs" "length as = k" "ns ! k = (p, x)" using split_at_index [OF k(1)] by blast
  have "load_dn h p = Some (dn_of x (first_addr bs 0) (last_addr 0 as))"
    using dchain_at [of "dl_nodes h" 0 as p x bs 0] rep(2) s(1) by (simp add: load_dn_def)
  then show "list_double_linked_get_at (Some l) (int k) h = Some (fst (ns ! k))"
    using walk_dn_reaches [OF rep(2) k(1)] rep(1,4) k s(3) by (simp add: list_double_linked_get_at_def)
qed

text \<open>The iterator on the item at an index, and how it moves.\<close>

definition dl_iterates :: "list_double_linked_t \<Rightarrow> dl_item list \<Rightarrow> nat \<Rightarrow> bool" where
  "dl_iterates l ns k = (k < length ns \<and> dl_iterator l = fst (ns ! k))"

lemma dl_rep_iterator [simp]: "dl_rep h (l\<lparr>dl_iterator := p\<rparr>) ns = dl_rep h l ns"
  by (simp add: dl_rep_def)

lemma dl_at:
  assumes "dl_rep h l ns" "k < length ns"
  shows "load_dn h (fst (ns ! k)) = Some (dn_of (snd (ns ! k)) (if Suc k < length ns then fst (ns ! Suc k) else 0) (if k = 0 then 0 else fst (ns ! (k - 1))))"
    "fst (ns ! k) \<noteq> 0"
proof -
  obtain as p x bs where s: "ns = as @ (p, x) # bs" "length as = k" "ns ! k = (p, x)" using split_at_index [OF assms(2)] by blast
  have at: "p \<noteq> 0" "dl_nodes h p = Some (dn_of x (first_addr bs 0) (last_addr 0 as))"
    using dchain_at [of "dl_nodes h" 0 as p x bs 0] assms(1) s(1) by (simp_all add: dl_rep_def)
  have "first_addr bs 0 = (if Suc k < length ns then fst (ns ! Suc k) else 0)" using s(1,2) by (cases bs) (auto simp: nth_append)
  moreover have "last_addr 0 as = (if k = 0 then 0 else fst (ns ! (k - 1)))"
    using s(1,2) by (cases as rule: rev_cases) (auto simp: nth_append)
  ultimately show "load_dn h (fst (ns ! k)) = Some (dn_of (snd (ns ! k)) (if Suc k < length ns then fst (ns ! Suc k) else 0) (if k = 0 then 0 else fst (ns ! (k - 1))))"
    "fst (ns ! k) \<noteq> 0"
    using at s(3) by (simp_all add: load_dn_def)
qed

lemma dl_iteration:
  assumes "dl_rep h l ns"
  shows "ns \<noteq> [] \<Longrightarrow> \<exists>l'. list_double_linked_get_first (Some l) h = Some (fst (ns ! 0), Some l') \<and> dl_rep h l' ns \<and> dl_iterates l' ns 0"
    "ns \<noteq> [] \<Longrightarrow> \<exists>l'. list_double_linked_get_last (Some l) h = Some (fst (ns ! (length ns - 1)), Some l') \<and> dl_rep h l' ns \<and>
      dl_iterates l' ns (length ns - 1)"
    "ns = [] \<Longrightarrow> list_double_linked_get_first (Some l) h = Some (0, Some l) \<and> list_double_linked_get_last (Some l) h = Some (0, Some l)"
    "dl_iterates l ns k \<Longrightarrow> Suc k < length ns \<Longrightarrow>
      \<exists>l'. list_double_linked_get_next (Some l) h = Some (fst (ns ! Suc k), Some l') \<and> dl_rep h l' ns \<and> dl_iterates l' ns (Suc k)"
    "dl_iterates l ns k \<Longrightarrow> Suc k = length ns \<Longrightarrow> list_double_linked_get_next (Some l) h = Some (0, Some l)"
    "dl_iterates l ns (Suc k) \<Longrightarrow>
      \<exists>l'. list_double_linked_get_previous (Some l) h = Some (fst (ns ! k), Some l') \<and> dl_rep h l' ns \<and> dl_iterates l' ns k"
    "dl_iterates l ns 0 \<Longrightarrow> list_double_linked_get_previous (Some l) h = Some (0, Some l)"
proof -
  have rep: "dl_head l = first_addr ns 0" "dl_tail l = last_addr 0 ns" using assms by (simp_all add: dl_rep_def)
  have ends: "dl_head l = fst (ns ! 0)" "dl_tail l = fst (ns ! (length ns - 1))" if "ns \<noteq> []"
    using rep that by (cases ns; simp add: last_addr_def last_conv_nth)+
  note at = dl_at [OF assms]
  show "ns \<noteq> [] \<Longrightarrow> \<exists>l'. list_double_linked_get_first (Some l) h = Some (fst (ns ! 0), Some l') \<and> dl_rep h l' ns \<and> dl_iterates l' ns 0"
    using at [of 0] ends assms by (simp add: list_double_linked_get_first_def iterate_dn_def dl_iterates_def)
  show "ns \<noteq> [] \<Longrightarrow> \<exists>l'. list_double_linked_get_last (Some l) h = Some (fst (ns ! (length ns - 1)), Some l') \<and> dl_rep h l' ns \<and>
      dl_iterates l' ns (length ns - 1)"
    using at [of "length ns - 1"] ends assms by (simp add: list_double_linked_get_last_def iterate_dn_def dl_iterates_def)
  show "ns = [] \<Longrightarrow> list_double_linked_get_first (Some l) h = Some (0, Some l) \<and> list_double_linked_get_last (Some l) h = Some (0, Some l)"
    using rep by (simp add: list_double_linked_get_first_def list_double_linked_get_last_def)
  show "dl_iterates l ns k \<Longrightarrow> Suc k < length ns \<Longrightarrow>
      \<exists>l'. list_double_linked_get_next (Some l) h = Some (fst (ns ! Suc k), Some l') \<and> dl_rep h l' ns \<and> dl_iterates l' ns (Suc k)"
    using at [of k] at [of "Suc k"] assms by (simp add: list_double_linked_get_next_def iterate_dn_def dl_iterates_def)
  show "dl_iterates l ns k \<Longrightarrow> Suc k = length ns \<Longrightarrow> list_double_linked_get_next (Some l) h = Some (0, Some l)"
    using at [of k] by (simp add: list_double_linked_get_next_def dl_iterates_def)
  show "dl_iterates l ns (Suc k) \<Longrightarrow>
      \<exists>l'. list_double_linked_get_previous (Some l) h = Some (fst (ns ! k), Some l') \<and> dl_rep h l' ns \<and> dl_iterates l' ns k"
    using at [of k] at [of "Suc k"] assms by (simp add: list_double_linked_get_previous_def iterate_dn_def dl_iterates_def)
  show "dl_iterates l ns 0 \<Longrightarrow> list_double_linked_get_previous (Some l) h = Some (0, Some l)"
    using at [of 0] by (simp add: list_double_linked_get_previous_def dl_iterates_def)
qed

section \<open>Sorting\<close>

text \<open>The merge sort on items, for a comparison of their bytes.\<close>

fun merge_dl :: "(byte list \<Rightarrow> byte list \<Rightarrow> int) \<Rightarrow> dl_item list \<Rightarrow> dl_item list \<Rightarrow> dl_item list" where
  "merge_dl c [] bs = bs"
| "merge_dl c (a # as) [] = a # as"
| "merge_dl c (a # as) (b # bs) = (if c (snd a) (snd b) \<le> 0 then a # merge_dl c as (b # bs) else b # merge_dl c (a # as) bs)"

function msort_dl :: "(byte list \<Rightarrow> byte list \<Rightarrow> int) \<Rightarrow> dl_item list \<Rightarrow> dl_item list" where
  "msort_dl c ns =
     (if length ns \<le> 1 then ns
      else merge_dl c (msort_dl c (take ((length ns + 1) div 2) ns)) (msort_dl c (drop ((length ns + 1) div 2) ns)))"
  by pat_completeness auto
termination by (relation "measure (\<lambda>(c, ns). length ns)") auto

declare msort_dl.simps [simp del]

lemma mset_merge_dl [simp]: "mset (merge_dl c as bs) = mset as + mset bs"
  by (induction c as bs rule: merge_dl.induct) auto

lemma set_merge_dl [simp]: "set (merge_dl c as bs) = set as \<union> set bs"
  by (induction c as bs rule: merge_dl.induct) auto

lemma mset_msort_dl [simp]: "mset (msort_dl c ns) = mset ns"
proof (induction c ns rule: msort_dl.induct)
  case (1 c ns)
  show ?case
  proof (cases "length ns \<le> 1")
    case True
    then show ?thesis by (subst msort_dl.simps) simp
  next
    case False
    then show ?thesis using 1 by (subst msort_dl.simps) (simp flip: mset_append)
  qed
qed

lemma set_msort_dl [simp]: "set (msort_dl c ns) = set ns"
  by (metis mset_msort_dl set_mset_mset)

lemma merge_dl_empty: "merge_dl c as bs = [] \<longleftrightarrow> as = [] \<and> bs = []"
  by (induction c as bs rule: merge_dl.induct) auto

lemma distinct_merge_dl: "distinct (map fst (merge_dl c as bs)) = distinct (map fst (as @ bs))"
proof (rule mset_eq_imp_distinct_iff)
  show "mset (map fst (merge_dl c as bs)) = mset (map fst (as @ bs))" by simp
qed

text \<open>While sorting only the forward links count; the back links are repaired at the end.\<close>

fun nchain :: "(addr \<rightharpoonup> node_double_linked_t) \<Rightarrow> dl_item list \<Rightarrow> bool" where
  "nchain N [] = True"
| "nchain N ((p, x) # ns) = (p \<noteq> 0 \<and> (\<exists>pv. N p = Some (dn_of x (first_addr ns 0) pv)) \<and> nchain N ns)"

definition relinked :: "addr set \<Rightarrow> dl_heap \<Rightarrow> dl_heap \<Rightarrow> bool" where
  "relinked A h h' = (dl_fresh h' = dl_fresh h \<and> dl_oom h' = dl_oom h \<and> (\<forall>a. a \<notin> A \<longrightarrow> dl_nodes h' a = dl_nodes h a))"

lemma relinked_refl [simp]: "relinked A h h"
  by (simp add: relinked_def)

lemma relinked_trans: "relinked A h h1 \<Longrightarrow> relinked B h1 h2 \<Longrightarrow> A \<subseteq> C \<Longrightarrow> B \<subseteq> C \<Longrightarrow> relinked C h h2"
  by (auto simp: relinked_def) (metis subsetD)

lemma nchain_cong: "(\<And>a. a \<in> addrs ns \<Longrightarrow> N' a = N a) \<Longrightarrow> nchain N' ns = nchain N ns"
  by (induction N ns rule: nchain.induct) auto

lemma nchain_relinked: "nchain (dl_nodes h) ns \<Longrightarrow> relinked A h h' \<Longrightarrow> addrs ns \<inter> A = {} \<Longrightarrow> nchain (dl_nodes h') ns"
  using nchain_cong [of ns "dl_nodes h'" "dl_nodes h"] by (auto simp: relinked_def)

lemma dchain_nchain: "dchain N pv ns 0 \<Longrightarrow> nchain N ns"
  by (induction ns arbitrary: pv) auto

text \<open>Changing the back link of a node.\<close>

lemma nchain_set_previous:
  "nchain N ns \<Longrightarrow> distinct (map fst ns) \<Longrightarrow> N p = Some nd \<Longrightarrow> nchain (N(p \<mapsto> nd\<lparr>dn_previous := q\<rparr>)) ns"
proof (induction ns)
  case (Cons n ns)
  obtain a x where n: "n = (a, x)" by (cases n)
  then show ?case using Cons by (cases "a = p") auto
qed simp

lemma nchain_first: "nchain N ns \<Longrightarrow> ns \<noteq> [] \<Longrightarrow> first_addr ns 0 \<noteq> 0 \<and> (\<exists>nd. N (first_addr ns 0) = Some nd)"
  by (cases ns) auto

lemma nchain_zero: "nchain N ns \<Longrightarrow> 0 \<notin> addrs ns"
  by (induction N ns rule: nchain.induct) auto

lemma put_before_puts:
  assumes "dl_nodes h p = Some (dn_of x q0 p0)" "p \<noteq> 0" "p \<notin> addrs rs" "nchain (dl_nodes h) rs" "distinct (map fst rs)"
  shows "\<exists>h'. put_before p (first_addr rs 0) h = Some (p, h') \<and> nchain (dl_nodes h') ((p, x) # rs) \<and>
    relinked (insert p (addrs rs)) h h' \<and> dl_nodes h' p = Some (dn_of x (first_addr rs 0) 0)"
proof -
  define N where "N = (dl_nodes h)(p \<mapsto> dn_of x (first_addr rs 0) p0)"
  have n: "set_next p (first_addr rs 0) h = Some (h\<lparr>dl_nodes := N\<rparr>)" using dn_links(2) [OF assms(2,1)] by (simp add: N_def)
  have rs: "nchain N rs" using assms(3,4) nchain_cong [of rs N "dl_nodes h"] by (force simp: N_def)
  show ?thesis
  proof (cases "rs = []")
    case True
    then show ?thesis using n dn_links(3) [OF assms(2), of "h\<lparr>dl_nodes := N\<rparr>"] assms(2)
      by (auto simp: put_before_def N_def relinked_def)
  next
    case False
    define q where "q = first_addr rs 0"
    obtain nd where q: "q \<noteq> 0" "N q = Some nd" using nchain_first [OF rs False] by (auto simp: q_def)
    have "q \<in> addrs rs" using False by (cases rs) (auto simp: q_def)
    then have "q \<noteq> p" using assms(3) by auto
    define M where "M = N(q \<mapsto> nd\<lparr>dn_previous := p\<rparr>)"
    have "set_previous q p (h\<lparr>dl_nodes := N\<rparr>) = Some (h\<lparr>dl_nodes := M\<rparr>)" using dn_links(3) [OF q(1), of "h\<lparr>dl_nodes := N\<rparr>"] q(2) by (simp add: M_def)
    moreover have "set_previous p 0 (h\<lparr>dl_nodes := M\<rparr>) = Some (h\<lparr>dl_nodes := M(p \<mapsto> dn_of x q 0)\<rparr>)"
      using dn_links(3) [OF assms(2), of "h\<lparr>dl_nodes := M\<rparr>"] \<open>q \<noteq> p\<close> by (simp add: M_def N_def q_def)
    ultimately have "put_before p q h = Some (p, h\<lparr>dl_nodes := M(p \<mapsto> dn_of x q 0)\<rparr>)" using n q(1) by (simp add: put_before_def flip: q_def)
    moreover have "nchain M rs" unfolding M_def by (rule nchain_set_previous [OF rs assms(5) q(2)])
    then have "nchain (M(p \<mapsto> dn_of x q 0)) rs" using assms(3) nchain_cong [of rs "M(p \<mapsto> dn_of x q 0)" M] by force
    ultimately show ?thesis using assms(2) \<open>q \<in> addrs rs\<close> by (auto simp: relinked_def M_def N_def simp flip: q_def)
  qed
qed

text \<open>What the comparison answers on two items.\<close>

definition compares :: "list_double_linked_compare_fn \<Rightarrow> (byte list \<Rightarrow> byte list \<Rightarrow> int) \<Rightarrow> bool" where
  "compares cmp c = (\<forall>x y. cmp x (length x) y (length y) = Some (c x y))"

definition head_free :: "dl_heap \<Rightarrow> dl_item list \<Rightarrow> bool" where
  "head_free h ns = (case ns of [] \<Rightarrow> True | n # ms \<Rightarrow> dl_nodes h (fst n) = Some (dn_of (snd n) (first_addr ms 0) 0))"

lemma merge_sorted_merges:
  "compares cmp c \<Longrightarrow> nchain (dl_nodes h) as \<Longrightarrow> nchain (dl_nodes h) bs \<Longrightarrow> distinct (map fst (as @ bs)) \<Longrightarrow>
    \<exists>h'. list_double_linked_internal_merge_sorted cmp (first_addr as 0) (first_addr bs 0) h = Some (first_addr (merge_dl c as bs) 0, h') \<and>
      nchain (dl_nodes h') (merge_dl c as bs) \<and> relinked (addrs as \<union> addrs bs) h h' \<and>
      (as \<noteq> [] \<longrightarrow> bs \<noteq> [] \<longrightarrow> head_free h' (merge_dl c as bs))"
proof (induction c as bs rule: merge_dl.induct)
  case (1 c bs)
  then show ?case by (subst list_double_linked_internal_merge_sorted.simps) simp
next
  case (2 c a as)
  then show ?case by (cases a) (subst list_double_linked_internal_merge_sorted.simps, simp)
next
  case (3 c a as b bs)
  obtain p x q y where ab: "a = (p, x)" "b = (q, y)" by (cases a; cases b)
  obtain pa pb where at: "p \<noteq> 0" "dl_nodes h p = Some (dn_of x (first_addr as 0) pa)" "nchain (dl_nodes h) as"
    "q \<noteq> 0" "dl_nodes h q = Some (dn_of y (first_addr bs 0) pb)" "nchain (dl_nodes h) bs"
    using 3(4,5) ab by auto
  have ds: "distinct (map fst (as @ b # bs))" "distinct (map fst ((a # as) @ bs))" "p \<notin> addrs as" "p \<notin> addrs bs" "q \<notin> addrs as" "q \<notin> addrs bs" "p \<noteq> q"
    using 3(6) ab by auto
  have cmp: "cmp x (length x) y (length y) = Some (c x y)" using 3(3) by (simp add: compares_def)
  have load: "load_dn h p = Some (dn_of x (first_addr as 0) pa)" "load_dn h q = Some (dn_of y (first_addr bs 0) pb)"
    using at by (simp_all add: load_dn_def)
  show ?case
  proof (cases "c x y \<le> 0")
    case True
    define rs where "rs = merge_dl c as (b # bs)"
    obtain h1 where h1: "list_double_linked_internal_merge_sorted cmp (first_addr as 0) q h = Some (first_addr rs 0, h1)"
      "nchain (dl_nodes h1) rs" "relinked (addrs as \<union> addrs (b # bs)) h h1"
      using "3.IH"(1) [OF _ 3(3) at(3) 3(5) ds(1)] True ab by (auto simp: rs_def)
    have p: "dl_nodes h1 p = Some (dn_of x (first_addr as 0) pa)" using h1(3) at(2) ds(3,4,7) ab by (simp add: relinked_def)
    have "p \<notin> addrs rs" using ds(3,4,7) ab by (auto simp: rs_def)
    moreover have "distinct (map fst rs)"
      using ds(1) by (simp add: rs_def distinct_merge_dl)
    ultimately obtain h2 where h2: "put_before p (first_addr rs 0) h1 = Some (p, h2)" "nchain (dl_nodes h2) ((p, x) # rs)"
      "relinked (insert p (addrs rs)) h1 h2" "dl_nodes h2 p = Some (dn_of x (first_addr rs 0) 0)"
      using put_before_puts [OF p at(1) _ h1(2)] by blast
    have "list_double_linked_internal_merge_sorted cmp (first_addr (a # as) 0) (first_addr (b # bs) 0) h = Some (p, h2)"
      using at(1,4) load cmp True h1(1) h2(1) ab by (subst list_double_linked_internal_merge_sorted.simps) simp
    moreover have "relinked (addrs (a # as) \<union> addrs (b # bs)) h h2"
      by (rule relinked_trans [OF h1(3) h2(3)]) (auto simp: rs_def ab)
    ultimately show ?thesis using h2(2,4) True ab by (auto simp: head_free_def rs_def)
  next
    case False
    define rs where "rs = merge_dl c (a # as) bs"
    obtain h1 where h1: "list_double_linked_internal_merge_sorted cmp p (first_addr bs 0) h = Some (first_addr rs 0, h1)"
      "nchain (dl_nodes h1) rs" "relinked (addrs (a # as) \<union> addrs bs) h h1"
      using "3.IH"(2) [OF _ 3(3,4) at(6) ds(2)] False ab by (auto simp: rs_def)
    have q: "dl_nodes h1 q = Some (dn_of y (first_addr bs 0) pb)" using h1(3) at(5) ds(5-7) ab by (simp add: relinked_def)
    have "q \<notin> addrs rs" using ds(5-7) ab by (auto simp: rs_def)
    moreover have "distinct (map fst rs)"
      using ds(2) by (simp add: rs_def distinct_merge_dl)
    ultimately obtain h2 where h2: "put_before q (first_addr rs 0) h1 = Some (q, h2)" "nchain (dl_nodes h2) ((q, y) # rs)"
      "relinked (insert q (addrs rs)) h1 h2" "dl_nodes h2 q = Some (dn_of y (first_addr rs 0) 0)"
      using put_before_puts [OF q at(4) _ h1(2)] by blast
    have "list_double_linked_internal_merge_sorted cmp (first_addr (a # as) 0) (first_addr (b # bs) 0) h = Some (q, h2)"
      using at(1,4) load cmp False h1(1) h2(1) ab by (subst list_double_linked_internal_merge_sorted.simps) simp
    moreover have "relinked (addrs (a # as) \<union> addrs (b # bs)) h h2"
      by (rule relinked_trans [OF h1(3) h2(3)]) (auto simp: rs_def ab)
    ultimately show ?thesis using h2(2,4) False ab by (auto simp: head_free_def rs_def)
  qed
qed

lemma split_dn_middle:
  "nchain (dl_nodes h) (s # ss) \<Longrightarrow> nchain (dl_nodes h) fs \<Longrightarrow> length fs \<le> length ss \<Longrightarrow>
    split_dn h (fst s) (first_addr fs 0) = Some (fst ((s # ss) ! (length fs div 2)))"
proof (induction fs arbitrary: s ss rule: induct_list012)
  case 1
  then show ?case by (subst split_dn.simps) simp
next
  case (2 f)
  then show ?case by (cases f; cases s) (subst split_dn.simps, auto simp: load_dn_def)
next
  case (3 f g fs)
  obtain t us where ss: "ss = t # us" using 3(5) by (cases ss) auto
  have "split_dn h (fst t) (first_addr fs 0) = Some (fst ((t # us) ! (length fs div 2)))"
    using "3.IH"(1) [of t us] 3(3-5) ss by (cases s; cases f; cases g) auto
  then show ?case using 3(3,4) ss
    by (cases s; cases f; cases g) (subst split_dn.simps, auto simp: load_dn_def)
qed

lemma nchain_append: "nchain N (as @ bs) \<Longrightarrow> nchain N bs"
  by (induction as) auto

lemma internal_split_splits:
  assumes "nchain (dl_nodes h) ns" "distinct (map fst ns)" "2 \<le> length ns"
  defines "k \<equiv> (length ns + 1) div 2"
  shows "\<exists>h'. list_double_linked_internal_split (first_addr ns 0) h = Some (first_addr (take k ns) 0, first_addr (drop k ns) 0, h') \<and>
    nchain (dl_nodes h') (take k ns) \<and> nchain (dl_nodes h') (drop k ns) \<and> relinked (addrs ns) h h'"
proof -
  obtain n ms where ns: "ns = n # ms" using assms(3) by (cases ns) auto
  have k: "0 < k" "k < length ns" "length ms div 2 = k - 1" using assms(3) ns by (auto simp: k_def)
  obtain as p x bs where s: "ns = as @ (p, x) # bs" "length as = k - 1" "ns ! (k - 1) = (p, x)"
    using split_at_index [of "k - 1" ns] k by (metis less_imp_diff_less)
  have tk: "take k ns = as @ [(p, x)]" "drop k ns = bs" using s(1,2) k(1) by (simp_all add: take_Cons' drop_Cons')
  have "bs \<noteq> []" using tk(2) k(2) by auto
  have slow: "split_dn h (fst n) (first_addr ms 0) = Some p"
    using split_dn_middle [of h n ms ms] assms(1) nchain_append [of "dl_nodes h" "[n]" ms] s(3) k(3) ns by simp
  have p: "p \<noteq> 0" "\<exists>pv. dl_nodes h p = Some (dn_of x (first_addr bs 0) pv)" "nchain (dl_nodes h) bs"
    using nchain_append [of "dl_nodes h" as "(p, x) # bs"] assms(1) s(1) by auto
  then obtain pv where pv: "dl_nodes h p = Some (dn_of x (first_addr bs 0) pv)" by blast
  have ds: "p \<notin> addrs as" "p \<notin> addrs bs" "distinct (map fst as)" "distinct (map fst bs)" "addrs as \<inter> addrs bs = {}" using assms(2) s(1) by auto
  define N where "N = (dl_nodes h)(p \<mapsto> dn_of x 0 pv)"
  have n: "set_next p 0 h = Some (h\<lparr>dl_nodes := N\<rparr>)" using dn_links(2) [OF p(1) pv] by (simp add: N_def)
  define q where "q = first_addr bs 0"
  obtain nd where q: "q \<noteq> 0" "dl_nodes h q = Some nd" using nchain_first [OF p(3) \<open>bs \<noteq> []\<close>] by (auto simp: q_def)
  have qb: "q \<in> addrs bs" using \<open>bs \<noteq> []\<close> by (cases bs) (auto simp: q_def)
  then have "q \<noteq> p" using ds(2) by auto
  define M where "M = N(q \<mapsto> nd\<lparr>dn_previous := 0\<rparr>)"
  have "set_previous q 0 (h\<lparr>dl_nodes := N\<rparr>) = Some (h\<lparr>dl_nodes := M\<rparr>)"
    using dn_links(3) [OF q(1), of "h\<lparr>dl_nodes := N\<rparr>"] q(2) \<open>q \<noteq> p\<close> by (simp add: M_def N_def)
  moreover obtain nx where "load_dn h (fst n) = Some nx" "dn_next nx = first_addr ms 0" using assms(1) ns by (cases n) (auto simp: load_dn_def)
  ultimately have run: "list_double_linked_internal_split (first_addr ns 0) h = Some (first_addr ns 0, q, h\<lparr>dl_nodes := M\<rparr>)"
    using slow dn_links(1) [OF p(1) pv] n q(1) ns by (simp add: list_double_linked_internal_split_def q_def)
  have "nchain N bs" using p(3) ds(2) nchain_cong [of bs N "dl_nodes h"] by (force simp: N_def)
  then have "nchain M bs" unfolding M_def by (rule nchain_set_previous) (use ds(4) q(2) \<open>q \<noteq> p\<close> in \<open>simp_all add: N_def\<close>)
  moreover have "nchain M (as @ [(p, x)])"
  proof -
    have old: "nchain (dl_nodes h) (as @ (p, x) # bs)" using assms(1) s(1) by simp
    have "nchain (dl_nodes h) (as @ (p, x) # bs) \<Longrightarrow> addrs as \<inter> {p, q} = {} \<Longrightarrow> nchain M (as @ [(p, x)])" for as
    proof (induction as)
      case Nil
      then show ?case using p(1) \<open>q \<noteq> p\<close> by (auto simp: M_def N_def)
    next
      case (Cons a as)
      then show ?case by (cases a) (auto simp: M_def N_def)
    qed
    then show ?thesis using old ds(1,5) qb by auto
  qed
  moreover have "first_addr (take k ns) 0 = first_addr ns 0" using k(1) ns by (cases k) auto
  ultimately show ?thesis using run tk qb s(1) by (auto simp: relinked_def M_def N_def q_def)
qed

lemma merge_sort_sorts:
  "compares cmp c \<Longrightarrow> nchain (dl_nodes h) ns \<Longrightarrow> distinct (map fst ns) \<Longrightarrow>
    \<exists>h'. list_double_linked_internal_merge_sort_recursive cmp (first_addr ns 0) h = Some (first_addr (msort_dl c ns) 0, h') \<and>
      nchain (dl_nodes h') (msort_dl c ns) \<and> relinked (addrs ns) h h' \<and> (2 \<le> length ns \<longrightarrow> head_free h' (msort_dl c ns))"
proof (induction c ns arbitrary: h rule: msort_dl.induct)
  case (1 c ns)
  show ?case
  proof (cases "length ns \<le> 1")
    case True
    then consider "ns = []" | p x where "ns = [(p, x)]" by (cases ns) auto
    then show ?thesis
    proof cases
      case 1
      then show ?thesis by (subst list_double_linked_internal_merge_sort_recursive.simps, subst (1 2 3) msort_dl.simps) simp
    next
      case 2
      then show ?thesis using "1.prems"(2)
        by (subst list_double_linked_internal_merge_sort_recursive.simps, subst (1 2 3) msort_dl.simps) (auto simp: load_dn_def)
    qed
  next
    case False
    define k where "k = (length ns + 1) div 2"
    have k: "0 < k" "k < length ns" using False by (auto simp: k_def)
    obtain n n' ms where ns: "ns = n # n' # ms" using False by (cases ns rule: list.exhaust; cases "tl ns") auto
    obtain h1 where h1: "list_double_linked_internal_split (first_addr ns 0) h = Some (first_addr (take k ns) 0, first_addr (drop k ns) 0, h1)"
      "nchain (dl_nodes h1) (take k ns)" "nchain (dl_nodes h1) (drop k ns)" "relinked (addrs ns) h h1"
      using internal_split_splits [OF "1.prems"(2,3)] False k_def by auto
    have dist: "distinct (map fst (take k ns))" "distinct (map fst (drop k ns))" "addrs (take k ns) \<inter> addrs (drop k ns) = {}"
      using "1.prems"(3) append_take_drop_id [of k ns] by (metis distinct_append map_append, metis distinct_append map_append, metis distinct_append map_append set_map)
    have sub: "addrs (take k ns) \<subseteq> addrs ns" "addrs (drop k ns) \<subseteq> addrs ns" by (auto dest: in_set_takeD in_set_dropD)
    obtain h2 where h2: "list_double_linked_internal_merge_sort_recursive cmp (first_addr (take k ns) 0) h1 = Some (first_addr (msort_dl c (take k ns)) 0, h2)"
      "nchain (dl_nodes h2) (msort_dl c (take k ns))" "relinked (addrs (take k ns)) h1 h2"
      using "1.IH"(1) [OF False "1.prems"(1)] h1(2) dist(1) unfolding k_def by blast
    have r: "nchain (dl_nodes h2) (drop k ns)" using nchain_relinked [OF h1(3) h2(3)] dist(3) by blast
    obtain h3 where h3: "list_double_linked_internal_merge_sort_recursive cmp (first_addr (drop k ns) 0) h2 = Some (first_addr (msort_dl c (drop k ns)) 0, h3)"
      "nchain (dl_nodes h3) (msort_dl c (drop k ns))" "relinked (addrs (drop k ns)) h2 h3"
      using "1.IH"(2) [OF False "1.prems"(1)] r dist(2) unfolding k_def by blast
    have l: "nchain (dl_nodes h3) (msort_dl c (take k ns))" using nchain_relinked [OF h2(2) h3(3)] dist(3) by auto
    have "mset (map fst (msort_dl c (take k ns) @ msort_dl c (drop k ns))) = mset (map fst (take k ns @ drop k ns))"
      by (simp only: map_append mset_append mset_map mset_msort_dl)
    then have d: "distinct (map fst (msort_dl c (take k ns) @ msort_dl c (drop k ns)))"
      using mset_eq_imp_distinct_iff "1.prems"(3) append_take_drop_id [of k ns] by metis
    obtain h4 where h4: "list_double_linked_internal_merge_sorted cmp (first_addr (msort_dl c (take k ns)) 0) (first_addr (msort_dl c (drop k ns)) 0) h3 =
        Some (first_addr (merge_dl c (msort_dl c (take k ns)) (msort_dl c (drop k ns))) 0, h4)"
      "nchain (dl_nodes h4) (merge_dl c (msort_dl c (take k ns)) (msort_dl c (drop k ns)))"
      "relinked (addrs (take k ns) \<union> addrs (drop k ns)) h3 h4"
      "msort_dl c (take k ns) \<noteq> [] \<longrightarrow> msort_dl c (drop k ns) \<noteq> [] \<longrightarrow> head_free h4 (merge_dl c (msort_dl c (take k ns)) (msort_dl c (drop k ns)))"
      using merge_sorted_merges [OF "1.prems"(1) l h3(2) d] by auto
    have ne: "msort_dl c (take k ns) \<noteq> []" "msort_dl c (drop k ns) \<noteq> []"
      using k set_msort_dl [of c "take k ns"] set_msort_dl [of c "drop k ns"] by (metis drop_eq_Nil not_le set_empty take_eq_Nil length_0_conv less_nat_zero_code)+
    have ms: "msort_dl c ns = merge_dl c (msort_dl c (take k ns)) (msort_dl c (drop k ns))"
      using False by (subst msort_dl.simps) (simp add: k_def)
    obtain nd where "load_dn h (first_addr ns 0) = Some nd" "dn_next nd \<noteq> 0" "first_addr ns 0 \<noteq> 0"
      using "1.prems"(2) ns by (cases n; cases n') (auto simp: load_dn_def)
    then have "list_double_linked_internal_merge_sort_recursive cmp (first_addr ns 0) h = Some (first_addr (msort_dl c ns) 0, h4)"
      using h1(1) h2(1) h3(1) h4(1) ms by (subst list_double_linked_internal_merge_sort_recursive.simps) simp
    moreover have "relinked (addrs ns) h h4"
    proof -
      have "relinked (addrs ns) h h2" by (rule relinked_trans [OF h1(4) h2(3)]) (use sub in auto)
      then have "relinked (addrs ns) h h3" by (rule relinked_trans [OF _ h3(3)]) (use sub in auto)
      then show ?thesis by (rule relinked_trans [OF _ h4(3)]) (use sub in auto)
    qed
    ultimately show ?thesis using h4(2,4) ms ne by auto
  qed
qed

lemma repair_dn_repairs:
  "nchain (dl_nodes h) ((p, x) # ns) \<Longrightarrow> distinct (map fst ((p, x) # ns)) \<Longrightarrow> dl_nodes h p = Some (dn_of x (first_addr ns 0) pv) \<Longrightarrow>
    \<exists>h'. repair_dn p t h = Some (last_addr p ns, h') \<and> dchain (dl_nodes h') pv ((p, x) # ns) 0 \<and> relinked (insert p (addrs ns)) h h' \<and>
      dl_nodes h' p = dl_nodes h p"
proof (induction ns arbitrary: h p x pv)
  case Nil
  then have "repair_dn p t h = Some (p, h)"
    by (subst repair_dn.simps) (simp add: load_dn_def, subst repair_dn.simps, simp)
  then show ?case using Nil by auto
next
  case (Cons n ns)
  obtain q y where n: "n = (q, y)" by (cases n)
  obtain q0 where q: "q \<noteq> 0" "dl_nodes h q = Some (dn_of y (first_addr ns 0) q0)" "p \<noteq> q" "q \<notin> addrs ns" "p \<notin> addrs ns"
    using Cons.prems n by auto
  define h1 where "h1 = h\<lparr>dl_nodes := (dl_nodes h)(q \<mapsto> dn_of y (first_addr ns 0) p)\<rparr>"
  have s: "set_previous q p h = Some h1" using dn_links(3) [OF q(1,2)] by (simp add: h1_def)
  have "nchain (dl_nodes h1) ((q, y) # ns)"
  proof -
    have "nchain (dl_nodes h1) ns" using Cons.prems(1) nchain_cong [of ns "dl_nodes h1" "dl_nodes h"] q(4) n by (force simp: h1_def)
    then show ?thesis using q(1) by (auto simp: h1_def)
  qed
  moreover have "dl_nodes h1 q = Some (dn_of y (first_addr ns 0) p)" by (simp add: h1_def)
  ultimately obtain h2 where h2: "repair_dn q t h1 = Some (last_addr q ns, h2)" "dchain (dl_nodes h2) p ((q, y) # ns) 0"
    "relinked (insert q (addrs ns)) h1 h2"
    using Cons.IH [of h1 q y p] Cons.prems n by auto
  have "repair_dn p t h = Some (last_addr p (n # ns), h2)"
    using Cons.prems n q(1) s h2(1) by (subst repair_dn.simps) (auto simp: load_dn_def)
  moreover have p: "dl_nodes h2 p = dl_nodes h p" using h2(3) q(3,5) by (simp add: relinked_def h1_def)
  moreover have "relinked (insert p (addrs (n # ns))) h h2" using h2(3) n by (auto simp: relinked_def h1_def)
  ultimately show ?case using h2(2) Cons.prems n by auto
qed

definition int_cmp :: "byte list \<Rightarrow> byte list \<Rightarrow> int" where
  "int_cmp x y =
     (if length x \<noteq> 4 \<or> length y \<noteq> 4 then 0 else if le_int x < le_int y then -1 else if le_int x > le_int y then 1 else 0)"

lemma default_compares: "compares list_double_linked_internal_default_compare int_cmp"
  by (auto simp: compares_def list_double_linked_internal_default_compare_def int_cmp_def)

lemma sort_correct:
  assumes "dl_rep h l ns"
  defines "ns' \<equiv> msort_dl int_cmp ns"
  shows "\<exists>l' h'. list_double_linked_sort (Some l) h = Some (Some l', h') \<and> dl_rep h' l' ns' \<and> dl_frame h ns h' ns'"
proof (cases "length ns \<le> 1")
  case True
  then have "ns' = ns" unfolding ns'_def by (subst msort_dl.simps) simp
  moreover have "list_double_linked_sort (Some l) h = Some (Some l, h)"
    using assms(1) True by (simp add: list_double_linked_sort_def list_double_linked_internal_sort_def dl_rep_def)
  ultimately show ?thesis using assms(1) by simp
next
  case False
  have rep: "nchain (dl_nodes h) ns" "distinct (map fst ns)" "dl_head l = first_addr ns 0" "dl_count l = int (length ns)"
    "0 < dl_fresh h" "\<forall>a \<ge> dl_fresh h. dl_nodes h a = None"
    using assms(1) by (auto simp: dl_rep_def dest: dchain_nchain)
  obtain h1 where h1: "list_double_linked_internal_merge_sort_recursive list_double_linked_internal_default_compare (dl_head l) h =
      Some (first_addr ns' 0, h1)" "nchain (dl_nodes h1) ns'" "relinked (addrs ns) h h1" "head_free h1 ns'"
    using merge_sort_sorts [OF default_compares rep(1,2)] False rep(3) unfolding ns'_def by auto
  have m: "mset ns' = mset ns" "set ns' = set ns" by (simp_all add: ns'_def)
  then have "mset (map fst ns') = mset (map fst ns)" by simp
  then have d: "distinct (map fst ns')" using rep(2) mset_eq_imp_distinct_iff by blast
  have len: "length ns' = length ns" using m(1) by (metis size_mset)
  obtain p x ms where ns': "ns' = (p, x) # ms" using False len by (cases ns') auto
  obtain h2 where h2: "repair_dn p 0 h1 = Some (last_addr p ms, h2)" "dchain (dl_nodes h2) 0 ns' 0" "relinked (insert p (addrs ms)) h1 h2"
    using repair_dn_repairs [of h1 p x ms 0 0] h1(2,4) d ns' by (auto simp: head_free_def)
  have "insert p (addrs ms) = addrs ns" using ns' m(2) by force
  then have r: "relinked (addrs ns) h h2" using relinked_trans [OF h1(3) h2(3), of "addrs ns"] by simp
  have "addrs ns \<subseteq> {..<dl_fresh h}" by (rule dl_rep_below [OF assms(1)])
  then have "\<forall>a \<ge> dl_fresh h. dl_nodes h2 a = None" using r rep(6) unfolding relinked_def by (metis lessThan_iff not_less subsetD)
  then have "dl_rep h2 (l\<lparr>dl_head := p, dl_tail := last_addr p ms, dl_iterator := 0\<rparr>) ns'"
    using h2(2) d len rep(4,5) r ns' by (simp add: dl_rep_def relinked_def)
  moreover have "dl_frame h ns h2 ns'" using r m(2) by (auto simp: dl_frame_def relinked_def)
  moreover have "list_double_linked_sort (Some l) h = Some (Some (l\<lparr>dl_head := p, dl_tail := last_addr p ms, dl_iterator := 0\<rparr>), h2)"
    using h1(1) h2(1) False rep(4) ns' by (simp add: list_double_linked_sort_def list_double_linked_internal_sort_def)
  ultimately show ?thesis by blast
qed

text \<open>Sorted by their values when all items are integers; in their order when none is.\<close>

lemma sorted_merge_dl:
  "c = int_cmp \<Longrightarrow> sorted_wrt (\<lambda>a b. le_int (snd a) \<le> le_int (snd b)) as \<Longrightarrow> sorted_wrt (\<lambda>a b. le_int (snd a) \<le> le_int (snd b)) bs \<Longrightarrow>
   \<forall>n \<in> set as \<union> set bs. length (snd n) = 4 \<Longrightarrow> sorted_wrt (\<lambda>a b. le_int (snd a) \<le> le_int (snd b)) (merge_dl c as bs)"
proof (induction c as bs rule: merge_dl.induct)
  case (3 c a as b bs)
  have le: "c (snd a) (snd b) \<le> 0 \<longleftrightarrow> le_int (snd a) \<le> le_int (snd b)" using 3(3,6) by (simp add: int_cmp_def)
  show ?case
  proof (cases "le_int (snd a) \<le> le_int (snd b)")
    case True
    have "sorted_wrt (\<lambda>a b. le_int (snd a) \<le> le_int (snd b)) (merge_dl c as (b # bs))"
      using 3(4-6) True le by (intro "3.IH"(1) 3(3)) simp_all
    moreover have "\<forall>z \<in> set (b # bs). le_int (snd a) \<le> le_int (snd z)" using 3(5) True order_trans by auto
    ultimately show ?thesis using 3(4) True le by (simp only: merge_dl.simps if_True sorted_wrt.simps set_merge_dl) auto
  next
    case False
    have "sorted_wrt (\<lambda>a b. le_int (snd a) \<le> le_int (snd b)) (merge_dl c (a # as) bs)"
      using 3(4-6) False le by (intro "3.IH"(2) 3(3)) simp_all
    moreover have "\<forall>z \<in> set (a # as). le_int (snd b) \<le> le_int (snd z)" using 3(4) False by (auto dest: order_trans [of "le_int (snd b)" "le_int (snd a)"])
    ultimately show ?thesis using 3(5) False le by (simp only: merge_dl.simps if_False sorted_wrt.simps set_merge_dl) auto
  qed
qed simp_all

lemma sorted_msort_dl: "c = int_cmp \<Longrightarrow> \<forall>n \<in> set ns. length (snd n) = 4 \<Longrightarrow> sorted_wrt (\<lambda>a b. le_int (snd a) \<le> le_int (snd b)) (msort_dl c ns)"
proof (induction c ns rule: msort_dl.induct)
  case (1 c ns)
  show ?case
  proof (cases "length ns \<le> 1")
    case True
    then show ?thesis by (subst msort_dl.simps) (cases ns; simp)
  next
    case False
    let ?k = "(length ns + 1) div 2"
    have "\<forall>n \<in> set (take ?k ns). length (snd n) = 4" "\<forall>n \<in> set (drop ?k ns). length (snd n) = 4"
      using "1.prems"(2) by (auto dest: in_set_takeD in_set_dropD)
    then have "sorted_wrt (\<lambda>a b. le_int (snd a) \<le> le_int (snd b)) (merge_dl c (msort_dl c (take ?k ns)) (msort_dl c (drop ?k ns)))"
      using "1.IH" [OF False "1.prems"(1)] by (intro sorted_merge_dl [OF "1.prems"(1)]) auto
    then show ?thesis using False by (subst msort_dl.simps) simp
  qed
qed

lemma merge_dl_equal: "\<forall>a \<in> set as. \<forall>b \<in> set bs. c (snd a) (snd b) = 0 \<Longrightarrow> merge_dl c as bs = as @ bs"
  by (induction c as bs rule: merge_dl.induct) auto

lemma msort_dl_other: "c = int_cmp \<Longrightarrow> \<forall>n \<in> set ns. length (snd n) \<noteq> 4 \<Longrightarrow> msort_dl c ns = ns"
proof (induction c ns rule: msort_dl.induct)
  case (1 c ns)
  show ?case
  proof (cases "length ns \<le> 1")
    case True
    then show ?thesis by (subst msort_dl.simps) simp
  next
    case False
    let ?k = "(length ns + 1) div 2"
    have s: "\<forall>n \<in> set (take ?k ns). length (snd n) \<noteq> 4" "\<forall>n \<in> set (drop ?k ns). length (snd n) \<noteq> 4"
      using "1.prems"(2) by (auto dest: in_set_takeD in_set_dropD)
    then have "msort_dl c ns = merge_dl c (take ?k ns) (drop ?k ns)"
      using "1.IH" [OF False "1.prems"(1)] False by (subst msort_dl.simps) simp
    also have "\<dots> = take ?k ns @ drop ?k ns" by (rule merge_dl_equal) (use s "1.prems"(1) in \<open>auto simp: int_cmp_def\<close>)
    finally show ?thesis by simp
  qed
qed

section \<open>The sequence of values a list promises to be\<close>

text \<open>
  Every operation of the client as one step on the sequence of the values.  With \<open>ok\<close> no insertion is refused;
  otherwise an insertion for which memory is missing leaves the sequence as it is.
\<close>

datatype dl_op =
    DL_insert "byte list" int
  | DL_add_to_head "byte list"
  | DL_add_to_tail "byte list"
  | DL_remove_at int
  | DL_remove_from_head
  | DL_remove_from_tail
  | DL_remove_value "byte list"
  | DL_clear
  | DL_sort

definition dl_apply :: "dl_op \<Rightarrow> list_double_linked_t option \<Rightarrow> dl_heap \<Rightarrow> (list_double_linked_t option \<times> dl_heap) option" where
  "dl_apply op lptr h =
     (case op of
        DL_insert x pos \<Rightarrow> list_double_linked_insert lptr (Some x) (length x) pos h
      | DL_add_to_head x \<Rightarrow> list_double_linked_add_to_head lptr (Some x) (length x) h
      | DL_add_to_tail x \<Rightarrow> list_double_linked_add_to_tail lptr (Some x) (length x) h
      | DL_remove_at pos \<Rightarrow> list_double_linked_remove_at lptr pos h
      | DL_remove_from_head \<Rightarrow> list_double_linked_remove_from_head lptr h
      | DL_remove_from_tail \<Rightarrow> list_double_linked_remove_from_tail lptr h
      | DL_remove_value x \<Rightarrow> list_double_linked_remove_value lptr (Some x) (length x) h
      | DL_clear \<Rightarrow> list_double_linked_clear lptr h
      | DL_sort \<Rightarrow> list_double_linked_sort lptr h)"

fun dl_run :: "dl_op list \<Rightarrow> list_double_linked_t option \<Rightarrow> dl_heap \<Rightarrow> (list_double_linked_t option \<times> dl_heap) option" where
  "dl_run [] lptr h = Some (lptr, h)"
| "dl_run (op # ops) lptr h = do { (lptr, h) \<leftarrow> dl_apply op lptr h; dl_run ops lptr h }"

inductive dl_step :: "bool \<Rightarrow> byte list list \<Rightarrow> dl_op \<Rightarrow> byte list list \<Rightarrow> bool" for mem :: bool where
  dl_insert: "dl_step mem xs (DL_insert x pos) (insert_item pos x xs)"
| dl_head: "dl_step mem xs (DL_add_to_head x) (x # xs)"
| dl_tail: "dl_step mem xs (DL_add_to_tail x) (xs @ [x])"
| dl_refused: "\<not> mem \<Longrightarrow> op \<in> {DL_insert x pos, DL_add_to_head x, DL_add_to_tail x} \<Longrightarrow> dl_step mem xs op xs"
| dl_remove: "0 \<le> pos \<Longrightarrow> pos < int (length xs) \<Longrightarrow> dl_step mem xs (DL_remove_at pos) (delete_item (nat pos) xs)"
| dl_remove_none: "pos < 0 \<or> pos \<ge> int (length xs) \<and> pos \<noteq> LONG_MAX \<Longrightarrow> dl_step mem xs (DL_remove_at pos) xs"
| dl_remove_last: "dl_step mem xs (DL_remove_at LONG_MAX) (butlast xs)"
| dl_remove_head: "dl_step mem xs DL_remove_from_head (tl xs)"
| dl_remove_tail: "dl_step mem xs DL_remove_from_tail (butlast xs)"
| dl_remove_value: "dl_step mem xs (DL_remove_value x) (remove1 x xs)"
| dl_clear: "dl_step mem xs DL_clear []"
| dl_sort: "mset ys = mset xs \<Longrightarrow> (\<forall>x \<in> set xs. length x = 4) \<longrightarrow> ys = sort_key le_int xs \<Longrightarrow>
    (\<forall>x \<in> set xs. length x \<noteq> 4) \<longrightarrow> ys = xs \<Longrightarrow> dl_step mem xs DL_sort ys"

inductive dl_steps :: "bool \<Rightarrow> byte list list \<Rightarrow> dl_op list \<Rightarrow> byte list list \<Rightarrow> bool" for mem :: bool where
  dl_done: "dl_steps mem xs [] xs"
| dl_more: "dl_step mem xs op ys \<Longrightarrow> dl_steps mem ys ops zs \<Longrightarrow> dl_steps mem xs (op # ops) zs"

definition dl_takes :: "dl_op \<Rightarrow> bool" where
  "dl_takes op = (case op of
       DL_insert x _ \<Rightarrow> x \<noteq> [] | DL_add_to_head x \<Rightarrow> x \<noteq> [] | DL_add_to_tail x \<Rightarrow> x \<noteq> [] | DL_remove_value x \<Rightarrow> x \<noteq> [] | _ \<Rightarrow> True)"

lemma insert_item_map: "map f (insert_item pos n ns) = insert_item pos (f n) (map f ns)"
  by (simp add: insert_item_def Let_def take_map drop_map)

lemma delete_item_map: "map f (delete_item k ns) = delete_item k (map f ns)"
  by (simp add: delete_item_def take_map drop_map)

lemma insert_item_ends: "insert_item 0 n ns = n # ns" "pos \<ge> int (length ns) \<Longrightarrow> 0 < pos \<Longrightarrow> insert_item pos n ns = ns @ [n]"
  by (simp_all add: insert_item_def)

lemma delete_item_ends: "delete_item 0 ns = tl ns" "delete_item (length ns - 1) ns = butlast ns"
  by (cases ns; simp add: delete_item_def butlast_conv_take)+

lemma delete_value: "map snd (if value_index x ns < length ns then delete_item (value_index x ns) ns else ns) = remove1 x (map snd ns)"
proof (induction ns)
  case (Cons n ns)
  have "delete_item (Suc k) (n # ns) = n # delete_item k ns" for k by (simp add: delete_item_def)
  then show ?case using Cons by (cases "snd n = x") (auto simp: value_index_def delete_item_def)
qed (simp add: value_index_def)

lemma le_int_inj: "inj_on le_int {x. length x = 4}"
proof (rule inj_onI)
  fix x y :: "byte list"
  assume a: "x \<in> {x. length x = 4}" "y \<in> {x. length x = 4}" "le_int x = le_int y"
  obtain a0 a1 a2 a3 where x: "x = [a0, a1, a2, a3]" using a(1) by (auto simp: length_Suc_conv numeral_eq_Suc)
  obtain b0 b1 b2 b3 where y: "y = [b0, b1, b2, b3]" using a(2) by (auto simp: length_Suc_conv numeral_eq_Suc)
  have b: "unat (w :: byte) \<le> 255" for w using unat_byte_less [of w] by linarith
  let ?u = "\<lambda>w0 w1 w2 w3 :: byte. unat w0 + 256 * (unat w1 + 256 * (unat w2 + 256 * unat w3))"
  have top: "?u a0 a1 a2 a3 < 4294967296" "?u b0 b1 b2 b3 < 4294967296"
    using b [of a0] b [of a1] b [of a2] b [of a3] b [of b0] b [of b1] b [of b2] b [of b3]
    by (simp_all only: distrib_left mult.assoc [symmetric])
  have inj: "u = v" if "(if int u < 2 ^ 31 then int u else int u - 2 ^ 32) = (if int v < 2 ^ 31 then int v else int v - 2 ^ 32)"
    "u < 4294967296" "v < 4294967296" for u v :: nat
    using that by (simp split: if_splits)
  have li: "le_int [w0, w1, w2, w3] = (if int (?u w0 w1 w2 w3) < 2 ^ 31 then int (?u w0 w1 w2 w3) else int (?u w0 w1 w2 w3) - 2 ^ 32)" for w0 w1 w2 w3
  proof -
    have "[w0, w1, w2, w3] ! 0 = w0" "[w0, w1, w2, w3] ! 1 = w1" "[w0, w1, w2, w3] ! 2 = w2" "[w0, w1, w2, w3] ! 3 = w3" by simp_all
    then show ?thesis by (simp only: le_int_def Let_def)
  qed
  have e0: "?u a0 a1 a2 a3 = ?u b0 b1 b2 b3" by (rule inj [OF _ top]) (use a(3) x y li in \<open>simp only:\<close>)
  have d: "p = q" "r = t" if "p + 256 * r = q + 256 * t" "p \<le> 255" "q \<le> 255" for p q r t :: nat
  proof -
    have "(p + 256 * r) mod 256 = p" "(q + 256 * t) mod 256 = q" using that(2,3) by simp_all
    then show "p = q" using that(1) by simp
    then show "r = t" using that(1) by simp
  qed
  note e1 = d(2) [OF e0 b b]
  note e2 = d(2) [OF e1 b b]
  have "a0 = b0" "a1 = b1" "a2 = b2" "a3 = b3"
    using d(1) [OF e0 b b] d(1) [OF e1 b b] d(1) [OF e2 b b] d(2) [OF e2 b b] by (simp_all only: word_unat_eq_iff)
  then show "x = y" using x y by (simp only:)
qed

lemma msort_dl_sorts: "\<forall>x \<in> set (map snd ns). length x = 4 \<Longrightarrow> map snd (msort_dl int_cmp ns) = sort_key le_int (map snd ns)"
proof (rule sym, rule sort_key_inj_key_eq)
  show "mset (map snd ns) = mset (map snd (msort_dl int_cmp ns))" by simp
  show "\<forall>x \<in> set (map snd ns). length x = 4 \<Longrightarrow> inj_on le_int (set (map snd ns))" using le_int_inj by (rule inj_on_subset) auto
  show "\<forall>x \<in> set (map snd ns). length x = 4 \<Longrightarrow> sorted (map le_int (map snd (msort_dl int_cmp ns)))"
    using sorted_msort_dl [of int_cmp ns] by (simp add: sorted_wrt_map)
qed

lemma insert_refused:
  assumes "dl_rep h l ns" "0 < sz" "dl_oom h (dl_fresh h) \<or> dl_oom h (dl_fresh h + 1)"
  shows "\<exists>h'. list_double_linked_insert (Some l) (Some src) sz pos h = Some (Some l, h') \<and> dl_rep h' l ns \<and> dl_frame h ns h' ns"
proof -
  define h' where "h' = h\<lparr>dl_fresh := dl_fresh h + (if dl_oom h (dl_fresh h) then 1 else 2)\<rparr>"
  have "list_double_linked_insert (Some l) (Some src) sz pos h = Some (Some l, h')"
    using assms(2,3) by (cases "dl_oom h (dl_fresh h)") (simp_all add: list_double_linked_insert_def dl_calloc_def Let_def h'_def)
  moreover have "dl_rep h' l ns" "dl_frame h ns h' ns" using assms(1) by (auto simp: dl_rep_def dl_frame_def h'_def)
  ultimately show ?thesis by blast
qed

text \<open>What an operation leaves behind: a list again, whose values are a step of the sequence.\<close>

definition dl_goes :: "dl_heap \<Rightarrow> dl_item list \<Rightarrow> dl_op \<Rightarrow> (list_double_linked_t option \<times> dl_heap) option \<Rightarrow> bool" where
  "dl_goes h ns op r =
     (\<exists>l' h' ns'. r = Some (Some l', h') \<and> dl_rep h' l' ns' \<and> dl_frame h ns h' ns' \<and>
        dl_step (\<forall>a. \<not> dl_oom h a) (map snd ns) op (map snd ns'))"

lemma dl_goesI:
  "r = Some (Some l', h') \<Longrightarrow> dl_rep h' l' ns' \<Longrightarrow> dl_frame h ns h' ns' \<Longrightarrow> map snd ns' = ys \<Longrightarrow>
   dl_step (\<forall>a. \<not> dl_oom h a) (map snd ns) op ys \<Longrightarrow> dl_goes h ns op r"
  unfolding dl_goes_def by blast

lemma insert_goes:
  assumes rep: "dl_rep h l ns" and x: "x \<noteq> []"
    and op: "op \<in> {DL_insert x pos, DL_add_to_head x, DL_add_to_tail x}"
    and step: "\<And>mem. dl_step mem (map snd ns) op (insert_item pos x (map snd ns))"
  shows "dl_goes h ns op (list_double_linked_insert (Some l) (Some x) (length x) pos h)"
proof (cases "dl_oom h (dl_fresh h) \<or> dl_oom h (dl_fresh h + 1)")
  case True
  obtain h' where h': "list_double_linked_insert (Some l) (Some x) (length x) pos h = Some (Some l, h')" "dl_rep h' l ns" "dl_frame h ns h' ns"
    using insert_refused [OF rep _ True] x by blast
  have "dl_step (\<forall>a. \<not> dl_oom h a) (map snd ns) op (map snd ns)" using True op by (intro dl_refused) auto
  then show ?thesis by (rule dl_goesI [OF h' refl])
next
  case False
  then obtain l' h' where l': "list_double_linked_insert (Some l) (Some x) (length x) pos h = Some (Some l', h')"
    "dl_rep h' l' (insert_item pos (dl_fresh h, x) ns)" "dl_frame h ns h' (insert_item pos (dl_fresh h, x) ns)"
    using insert_correct [OF rep, of "length x" x pos] x by auto
  show ?thesis by (rule dl_goesI [OF l' _ step]) (simp add: insert_item_map)
qed

lemma remove_goes:
  assumes rep: "dl_rep h l ns"
    and k: "k = (if pos = LONG_MAX then int (length ns) - 1 else pos)"
    and step: "\<And>mem. dl_step mem (map snd ns) op (if 0 \<le> k \<and> k < int (length ns) then delete_item (nat k) (map snd ns) else map snd ns)"
  shows "dl_goes h ns op (list_double_linked_remove_at (Some l) pos h)"
proof -
  obtain l' h' where l': "list_double_linked_remove_at (Some l) pos h = Some (Some l', h')"
    "dl_rep h' l' (if 0 \<le> k \<and> k < int (length ns) then delete_item (nat k) ns else ns)"
    "dl_frame h ns h' (if 0 \<le> k \<and> k < int (length ns) then delete_item (nat k) ns else ns)"
    using remove_at_correct [OF rep, of pos] k by auto
  show ?thesis by (rule dl_goesI [OF l' _ step]) (simp add: delete_item_map)
qed

lemma last_goes: "(if 0 \<le> int (length xs) - 1 \<and> int (length xs) - 1 < int (length xs) then delete_item (nat (int (length xs) - 1)) xs else xs) = butlast xs"
proof (cases "xs = []")
  case False
  then have "nat (int (length xs) - 1) = length xs - 1" "0 \<le> int (length xs) - 1" by (cases xs; simp)+
  then show ?thesis by (simp only: delete_item_ends) simp
qed simp

lemma dl_apply_goes:
  assumes rep: "dl_rep h l ns" and op: "dl_takes op" and len: "int (length ns) < LONG_MAX"
  shows "dl_goes h ns op (dl_apply op (Some l) h)"
proof (cases op)
  case (DL_insert x pos)
  then show ?thesis using op by (simp add: dl_apply_def dl_takes_def) (rule insert_goes [OF rep], auto intro: dl_step.intros)
next
  case (DL_add_to_head x)
  have "dl_step mem (map snd ns) (DL_add_to_head x) (insert_item 0 x (map snd ns))" for mem by (simp add: insert_item_ends dl_head)
  then show ?thesis using DL_add_to_head op
    by (simp add: dl_apply_def dl_takes_def list_double_linked_add_to_head_def) (rule insert_goes [OF rep], simp_all)
next
  case (DL_add_to_tail x)
  have "dl_step mem (map snd ns) (DL_add_to_tail x) (insert_item LONG_MAX x (map snd ns))" for mem
    using len by (simp add: insert_item_ends LONG_MAX_def dl_tail)
  then show ?thesis using DL_add_to_tail op
    by (simp add: dl_apply_def dl_takes_def list_double_linked_add_to_tail_def) (rule insert_goes [OF rep], simp_all)
next
  case (DL_remove_at pos)
  have "dl_step mem (map snd ns) (DL_remove_at pos)
      (let k = (if pos = LONG_MAX then int (length ns) - 1 else pos)
       in if 0 \<le> k \<and> k < int (length ns) then delete_item (nat k) (map snd ns) else map snd ns)" for mem
  proof (cases "pos = LONG_MAX")
    case True
    then show ?thesis using dl_remove_last [of mem "map snd ns"] last_goes [of "map snd ns"] by (simp only: Let_def if_True length_map simp_thms)
  next
    case False
    then show ?thesis by (cases "0 \<le> pos \<and> pos < int (length ns)") (auto simp: Let_def intro!: dl_remove dl_remove_none)
  qed
  then show ?thesis using DL_remove_at by (simp add: dl_apply_def) (rule remove_goes [OF rep refl], simp add: Let_def)
next
  case DL_remove_from_head
  have "dl_step mem (map snd ns) DL_remove_from_head
      (if 0 \<le> (0 :: int) \<and> 0 < int (length ns) then delete_item (nat 0) (map snd ns) else map snd ns)" for mem
    using dl_remove_head [of mem "map snd ns"] by (cases ns) (simp_all add: delete_item_def)
  then show ?thesis using DL_remove_from_head
    by (simp add: dl_apply_def list_double_linked_remove_from_head_def) (rule remove_goes [OF rep, of 0], simp_all add: LONG_MAX_def)
next
  case DL_remove_from_tail
  have "dl_step mem (map snd ns) DL_remove_from_tail
      (if 0 \<le> int (length ns) - 1 \<and> int (length ns) - 1 < int (length ns) then delete_item (nat (int (length ns) - 1)) (map snd ns) else map snd ns)" for mem
    using last_goes [of "map snd ns"] dl_remove_tail [of mem "map snd ns"] by (simp only: length_map)
  then show ?thesis using DL_remove_from_tail
    by (simp add: dl_apply_def list_double_linked_remove_from_tail_def) (rule remove_goes [OF rep, of "int (length ns) - 1"], simp_all)
next
  case (DL_remove_value x)
  then obtain l' h' where l': "dl_apply op (Some l) h = Some (Some l', h')"
    "dl_rep h' l' (if value_index x ns < length ns then delete_item (value_index x ns) ns else ns)"
    "dl_frame h ns h' (if value_index x ns < length ns then delete_item (value_index x ns) ns else ns)"
    using remove_value_correct [OF rep, of "length x" x, unfolded take_all_iff [THEN iffD2, OF order_refl]] op
    by (force simp: dl_apply_def dl_takes_def split del: if_split)
  show ?thesis by (rule dl_goesI [OF l' delete_value]) (simp add: DL_remove_value dl_remove_value)
next
  case DL_clear
  then show ?thesis using clear_correct(1) [OF rep] dl_clear by (fastforce simp: dl_apply_def dl_goes_def)
next
  case DL_sort
  obtain l' h' where l': "list_double_linked_sort (Some l) h = Some (Some l', h')" "dl_rep h' l' (msort_dl int_cmp ns)"
    "dl_frame h ns h' (msort_dl int_cmp ns)"
    using sort_correct [OF rep] by blast
  have "dl_step (\<forall>a. \<not> dl_oom h a) (map snd ns) DL_sort (map snd (msort_dl int_cmp ns))"
    by (rule dl_sort) (use msort_dl_sorts [of ns] msort_dl_other [of int_cmp ns] in simp_all)
  then show ?thesis using dl_goesI [OF l' refl] DL_sort by (simp add: dl_apply_def)
qed

text \<open>A run of operations.\<close>

lemma dl_step_length: "dl_step mem xs op ys \<Longrightarrow> length ys \<le> Suc (length xs)"
proof (induction rule: dl_step.induct)
  case (dl_sort ys xs)
  then show ?case by (metis size_mset le_Suc_eq order_refl)
qed (auto simp: insert_item_def delete_item_def Let_def length_remove1)

lemma dl_run_goes:
  "dl_rep h l ns \<Longrightarrow> list_all dl_takes ops \<Longrightarrow> int (length ns + length ops) \<le> LONG_MAX \<Longrightarrow>
    \<exists>l' h' ns'. dl_run ops (Some l) h = Some (Some l', h') \<and> dl_rep h' l' ns' \<and> dl_frame h ns h' ns' \<and>
      dl_steps (\<forall>a. \<not> dl_oom h a) (map snd ns) ops (map snd ns')"
proof (induction ops arbitrary: h l ns)
  case Nil
  then show ?case by (auto intro: dl_done)
next
  case (Cons op ops)
  obtain l1 h1 ns1 where 1: "dl_apply op (Some l) h = Some (Some l1, h1)" "dl_rep h1 l1 ns1" "dl_frame h ns h1 ns1"
    "dl_step (\<forall>a. \<not> dl_oom h a) (map snd ns) op (map snd ns1)"
    using dl_apply_goes [OF Cons.prems(1), of op] Cons.prems unfolding dl_goes_def by auto
  have "length ns1 \<le> Suc (length ns)" using dl_step_length [OF 1(4)] by simp
  then obtain l' h' ns' where 2: "dl_run ops (Some l1) h1 = Some (Some l', h')" "dl_rep h' l' ns'" "dl_frame h1 ns1 h' ns'"
    "dl_steps (\<forall>a. \<not> dl_oom h1 a) (map snd ns1) ops (map snd ns')"
    using Cons.IH [OF 1(2)] Cons.prems by auto
  have old: "\<forall>a \<ge> dl_fresh h. dl_nodes h a = None" using Cons.prems(1) by (simp add: dl_rep_def)
  have "dl_oom h1 = dl_oom h" using 1(3) by (simp add: dl_frame_def)
  then have "dl_steps (\<forall>a. \<not> dl_oom h a) (map snd ns) (op # ops) (map snd ns')" using dl_more [OF 1(4)] 2(4) by simp
  moreover have "dl_run (op # ops) (Some l) h = Some (Some l', h')" using 1(1) 2(1) by simp
  ultimately show ?case using 2(2) dl_frame_trans [OF 1(3) 2(3) old] by blast
qed

text \<open>Reading a list through its iterator: \<open>d = first(l); while (d != NULL) d = next(l)\<close>, at most \<open>n\<close> further items.\<close>

type_synonym dl_iterator_fn = "list_double_linked_t option \<Rightarrow> dl_heap \<Rightarrow> (addr \<times> list_double_linked_t option) option"

fun dl_collect :: "dl_iterator_fn \<Rightarrow> nat \<Rightarrow> list_double_linked_t option \<Rightarrow> dl_heap \<Rightarrow> addr list option" where
  "dl_collect nxt 0 lptr h = None"
| "dl_collect nxt (Suc n) lptr h = do {
     (p, lptr) \<leftarrow> nxt lptr h;
     if p = 0 then Some [] else do { ps \<leftarrow> dl_collect nxt n lptr h; Some (p # ps) } }"

definition dl_visit :: "dl_iterator_fn \<Rightarrow> dl_iterator_fn \<Rightarrow> nat \<Rightarrow> list_double_linked_t option \<Rightarrow> dl_heap \<Rightarrow> addr list option" where
  "dl_visit fst_fn nxt n lptr h = do {
     (p, lptr) \<leftarrow> fst_fn lptr h;
     if p = 0 then Some [] else do { ps \<leftarrow> dl_collect nxt n lptr h; Some (p # ps) } }"

lemma collect_next:
  "dl_rep h l ns \<Longrightarrow> dl_iterates l ns k \<Longrightarrow> length ns - k \<le> n \<Longrightarrow>
    dl_collect list_double_linked_get_next n (Some l) h = Some (map fst (drop (Suc k) ns))"
proof (induction n arbitrary: l k)
  case 0
  then show ?case by (simp add: dl_iterates_def)
next
  case (Suc n)
  show ?case
  proof (cases "Suc k < length ns")
    case True
    obtain l' where l': "list_double_linked_get_next (Some l) h = Some (fst (ns ! Suc k), Some l')" "dl_rep h l' ns" "dl_iterates l' ns (Suc k)"
      using dl_iteration(4) [OF Suc.prems(1,2) True] by blast
    have "map fst (drop (Suc k) ns) = fst (ns ! Suc k) # map fst (drop (Suc (Suc k)) ns)"
      using Cons_nth_drop_Suc [OF True] by (metis list.map(2))
    then show ?thesis using l' Suc.IH [OF l'(2,3)] Suc.prems(3) dl_at(2) [OF Suc.prems(1) True] by simp
  next
    case False
    then have "Suc k = length ns" using Suc.prems(2) by (simp add: dl_iterates_def)
    then show ?thesis using dl_iteration(5) [OF Suc.prems(1,2)] by simp
  qed
qed

lemma collect_previous:
  "dl_rep h l ns \<Longrightarrow> dl_iterates l ns k \<Longrightarrow> k < n \<Longrightarrow>
    dl_collect list_double_linked_get_previous n (Some l) h = Some (rev (map fst (take k ns)))"
proof (induction n arbitrary: l k)
  case (Suc n)
  show ?case
  proof (cases k)
    case (Suc j)
    have j: "j < length ns" using Suc.prems(2) Suc by (simp add: dl_iterates_def)
    obtain l' where l': "list_double_linked_get_previous (Some l) h = Some (fst (ns ! j), Some l')" "dl_rep h l' ns" "dl_iterates l' ns j"
      using dl_iteration(6) [OF Suc.prems(1), of j] Suc.prems(2) Suc by blast
    then show ?thesis using Suc.IH [OF l'(2,3)] Suc.prems(3) Suc dl_at(2) [OF Suc.prems(1) j] by (simp add: take_Suc_conv_app_nth j)
  next
    case 0
    then show ?thesis using dl_iteration(7) [OF Suc.prems(1)] Suc.prems(2) by simp
  qed
qed simp

lemma dl_visits:
  assumes "dl_rep h l ns" "length ns \<le> n"
  shows "dl_visit list_double_linked_get_first list_double_linked_get_next n (Some l) h = Some (map fst ns)"
    "dl_visit list_double_linked_get_last list_double_linked_get_previous n (Some l) h = Some (rev (map fst ns))"
proof -
  show "dl_visit list_double_linked_get_first list_double_linked_get_next n (Some l) h = Some (map fst ns)"
  proof (cases "ns = []")
    case False
    obtain l' where l': "list_double_linked_get_first (Some l) h = Some (fst (ns ! 0), Some l')" "dl_rep h l' ns" "dl_iterates l' ns 0"
      using dl_iteration(1) [OF assms(1) False] by blast
    then show ?thesis using collect_next [OF l'(2,3), of n] assms dl_at(2) [OF assms(1), of 0] False
      by (cases ns) (simp_all add: dl_visit_def)
  qed (use dl_iteration(3) [OF assms(1)] in \<open>simp add: dl_visit_def\<close>)
  show "dl_visit list_double_linked_get_last list_double_linked_get_previous n (Some l) h = Some (rev (map fst ns))"
  proof (cases "ns = []")
    case False
    obtain l' where l': "list_double_linked_get_last (Some l) h = Some (fst (ns ! (length ns - 1)), Some l')" "dl_rep h l' ns" "dl_iterates l' ns (length ns - 1)"
      using dl_iteration(2) [OF assms(1) False] by blast
    obtain ms n' where ns: "ns = ms @ [n']" using False by (cases ns rule: rev_cases) auto
    then show ?thesis using collect_previous [OF l'(2,3), of n] l'(1) assms(2) dl_at(2) [OF assms(1), of "length ns - 1"]
      by (simp add: dl_visit_def)
  qed (use dl_iteration(3) [OF assms(1)] in \<open>simp add: dl_visit_def\<close>)
qed

text \<open>Joining: the sources are only read, the new list holds the values of both.\<close>

lemma dl_rep_other:
  assumes "dl_rep h l ns" "dl_frame h ms h' ms'" "addrs ns \<inter> addrs ms = {}" "dl_rep h' l' ms'"
  shows "dl_rep h' l ns" "addrs ns \<inter> addrs ms' = {}"
proof -
  have "addrs ms' \<subseteq> addrs ms \<union> {dl_fresh h..<dl_fresh h'}" using assms(2) by (simp only: dl_frame_def)
  moreover have "addrs ns \<inter> {dl_fresh h..<dl_fresh h'} = {}" using dl_rep_below [OF assms(1)] by fastforce
  ultimately show d: "addrs ns \<inter> addrs ms' = {}" using assms(3) by blast
  have "\<forall>a. a \<notin> addrs ms \<longrightarrow> a \<notin> addrs ms' \<longrightarrow> dl_nodes h' a = dl_nodes h a" using assms(2) unfolding dl_frame_def by blast
  then have "dl_nodes h' a = dl_nodes h a" if "a \<in> addrs ns" for a using that assms(3) d by blast
  then have "dchain (dl_nodes h') 0 ns 0 = dchain (dl_nodes h) 0 ns 0" by (rule dchain_cong)
  then show "dl_rep h' l ns" using assms(1,4) by (simp add: dl_rep_def)
qed

lemma append_dn_appends:
  assumes src: "dl_rep h s (as @ bs)" and dst: "dl_rep h l ns" and dis: "addrs (as @ bs) \<inter> addrs ns = {}"
    and mem: "\<forall>a. \<not> dl_oom h a" and ne: "\<forall>n \<in> set bs. snd n \<noteq> []" and len: "int (length ns + length bs) < LONG_MAX"
  shows "\<exists>l' h' ns'. append_dn (Some l) (first_addr bs 0) h = Some (Some l', h') \<and> dl_rep h' l' ns' \<and> dl_frame h ns h' ns' \<and>
    map snd ns' = map snd ns @ map snd bs"
  using assms
proof (induction bs arbitrary: as h l ns)
  case Nil
  then show ?case by (subst append_dn.simps) auto
next
  case (Cons b bs)
  obtain p x where b: "b = (p, x)" by (cases b)
  have at: "load_dn h0 p = Some (dn_of x (first_addr bs 0) (last_addr 0 as))" if "dl_rep h0 s (as @ b # bs)" for h0
    using dchain_at [of "dl_nodes h0" 0 as p x bs 0] that b by (simp add: dl_rep_def load_dn_def)
  have "insert_item LONG_MAX n ns = ns @ [n]" for n using Cons.prems(6) by (intro insert_item_ends) (simp_all add: LONG_MAX_def)
  then obtain l1 h1 where 1: "list_double_linked_add_to_tail (Some l) (Some x) (length x) h = Some (Some l1, h1)"
    "dl_rep h1 l1 (ns @ [(dl_fresh h, x)])" "dl_frame h ns h1 (ns @ [(dl_fresh h, x)])"
    using insert_correct [OF Cons.prems(2), of "length x" x LONG_MAX] Cons.prems(4,5) b by (auto simp: list_double_linked_add_to_tail_def)
  note other = dl_rep_other [OF Cons.prems(1) 1(3) Cons.prems(3) 1(2)]
  obtain l' h' ns' where 2: "append_dn (Some l1) (first_addr bs 0) h1 = Some (Some l', h')" "dl_rep h' l' ns'"
    "dl_frame h1 (ns @ [(dl_fresh h, x)]) h' ns'" "map snd ns' = map snd (ns @ [(dl_fresh h, x)]) @ map snd bs"
    using Cons.IH [of h1 "as @ [b]" l1 "ns @ [(dl_fresh h, x)]"] other 1 Cons.prems(4-6) by (auto simp: dl_frame_def)
  have "p \<noteq> 0" using dchain_at [of "dl_nodes h" 0 as p x bs 0] Cons.prems(1) b by (simp add: dl_rep_def)
  then have "append_dn (Some l) (first_addr (b # bs) 0) h = Some (Some l', h')"
    using at [OF Cons.prems(1)] at [OF other(1)] 1(1) 2(1) b by (subst append_dn.simps) simp
  moreover have "dl_frame h ns h' ns'" by (rule dl_frame_trans [OF 1(3) 2(3)]) (use Cons.prems(2) in \<open>simp add: dl_rep_def\<close>)
  ultimately show ?case using 2(2,4) b by auto
qed

text \<open>A source may be NULL.\<close>

definition dl_source :: "dl_heap \<Rightarrow> list_double_linked_t option \<Rightarrow> dl_item list \<Rightarrow> bool" where
  "dl_source h lptr ns = ((\<forall>n \<in> set ns. snd n \<noteq> []) \<and> (case lptr of None \<Rightarrow> ns = [] | Some l \<Rightarrow> dl_rep h l ns))"

definition append_source :: "list_double_linked_t \<Rightarrow> list_double_linked_t option \<Rightarrow> dl_heap \<Rightarrow> (list_double_linked_t option \<times> dl_heap) option" where
  "append_source l lptr h = (case lptr of None \<Rightarrow> Some (Some l, h) | Some s \<Rightarrow> list_double_linked_internal_append_all (Some l) s h)"

lemma append_source_appends:
  assumes "dl_source h lptr bs" "dl_rep h l ns" "addrs bs \<inter> addrs ns = {}" "\<forall>a. \<not> dl_oom h a" "int (length ns + length bs) < LONG_MAX"
  shows "\<exists>l' h' ns'. append_source l lptr h = Some (Some l', h') \<and> dl_rep h' l' ns' \<and> dl_frame h ns h' ns' \<and>
    map snd ns' = map snd ns @ map snd bs"
proof (cases lptr)
  case (Some s)
  then have "dl_rep h s ([] @ bs)" "dl_head s = first_addr bs 0" using assms(1) by (simp_all add: dl_source_def dl_rep_def)
  then show ?thesis using append_dn_appends [of h s "[]" bs l ns] assms Some
    by (simp add: append_source_def list_double_linked_internal_append_all_def dl_source_def)
qed (use assms in \<open>simp add: append_source_def dl_source_def, blast intro: dl_frame_refl\<close>)

lemma dl_source_other:
  "dl_source h lptr bs \<Longrightarrow> dl_frame h ns h' ns' \<Longrightarrow> addrs bs \<inter> addrs ns = {} \<Longrightarrow> dl_rep h' l' ns' \<Longrightarrow> dl_source h' lptr bs"
  using dl_rep_other(1) by (cases lptr) (auto simp: dl_source_def)

lemma join_joins:
  assumes src: "dl_source h lptrFirst as" "dl_source h lptrSecond bs" "lptrFirst \<noteq> None \<or> lptrSecond \<noteq> None"
    and mem: "\<forall>a. \<not> dl_oom h a" and len: "int (length as + length bs) < LONG_MAX"
  shows "\<exists>l h' ns. list_double_linked_join lptrFirst lptrSecond h = Some (Some l, h') \<and> dl_rep h' l ns \<and> dl_frame h [] h' ns \<and>
    map snd ns = map snd as @ map snd bs \<and> dl_source h' lptrFirst as \<and> dl_source h' lptrSecond bs"
proof -
  define l0 where "l0 = \<lparr>dl_count = 0, dl_head = 0, dl_tail = 0, dl_iterator = 0\<rparr>"
  define h0 where "h0 = h\<lparr>dl_fresh := dl_fresh h + 1\<rparr>"
  obtain s ss where s: "dl_rep h s ss" using src by (cases lptrFirst; cases lptrSecond) (auto simp: dl_source_def)
  then have rep0: "dl_rep h0 l0 []" "dl_frame h [] h0 []" by (auto simp: dl_rep_def l0_def h0_def dl_frame_def)
  have src0: "dl_source h0 lptrFirst as" "dl_source h0 lptrSecond bs"
    using dl_source_other [OF src(1) rep0(2) _ rep0(1)] dl_source_other [OF src(2) rep0(2) _ rep0(1)] by simp_all
  obtain l1 h1 ns1 where 1: "append_source l0 lptrFirst h0 = Some (Some l1, h1)" "dl_rep h1 l1 ns1" "dl_frame h0 [] h1 ns1" "map snd ns1 = map snd as"
    using append_source_appends [OF src0(1) rep0(1)] mem len by (auto simp: h0_def)
  have src1: "dl_source h1 lptrFirst as" "dl_source h1 lptrSecond bs"
    using dl_source_other [OF src0(1) 1(3) _ 1(2)] dl_source_other [OF src0(2) 1(3) _ 1(2)] by simp_all
  have dis: "addrs as \<inter> addrs ns1 = {}" "addrs bs \<inter> addrs ns1 = {}"
    using src0 dl_rep_other(2) [OF _ 1(3) _ 1(2)] by (cases lptrFirst; cases lptrSecond; auto simp: dl_source_def)+
  have "length ns1 = length as" using 1(4) by (metis length_map)
  then obtain l2 h2 ns2 where 2: "append_source l1 lptrSecond h1 = Some (Some l2, h2)" "dl_rep h2 l2 ns2" "dl_frame h1 ns1 h2 ns2"
    "map snd ns2 = map snd ns1 @ map snd bs"
    using append_source_appends [OF src1(2) 1(2) dis(2)] mem len 1(3) by (auto simp: h0_def dl_frame_def)
  have src2: "dl_source h2 lptrFirst as" "dl_source h2 lptrSecond bs"
    using dl_source_other [OF src1(1) 2(3) dis(1) 2(2)] dl_source_other [OF src1(2) 2(3) dis(2) 2(2)] by simp_all
  have new: "list_double_linked_allocate h = (Some l0, h0)"
    using mem by (simp add: list_double_linked_allocate_def dl_calloc_def h0_def l0_def)
  have "list_double_linked_join lptrFirst lptrSecond h = Some (Some l2, h2)"
    using src(3) 1(1) 2(1) new by (cases lptrFirst; cases lptrSecond) (simp_all add: list_double_linked_join_def append_source_def)
  moreover have "dl_frame h0 [] h2 ns2" by (rule dl_frame_trans [OF 1(3) 2(3)]) (use rep0(1) in \<open>simp add: dl_rep_def\<close>)
  then have "dl_frame h [] h2 ns2" by (rule dl_frame_trans [OF rep0(2)]) (use s in \<open>simp add: dl_rep_def\<close>)
  ultimately show ?thesis using 2(2,4) 1(4) src2 by auto
qed

section \<open>Properties\<close>

text \<open>A heap in which nothing was allocated yet beyond other clients' nodes.\<close>

definition dl_ready :: "dl_heap \<Rightarrow> bool" where
  "dl_ready h = (0 < dl_fresh h \<and> (\<forall>a \<ge> dl_fresh h. dl_nodes h a = None))"

lemma allocate_rep:
  assumes "dl_ready h" "\<not> dl_oom h (dl_fresh h)"
  shows "\<exists>l h'. list_double_linked_allocate h = (Some l, h') \<and> dl_rep h' l [] \<and> dl_frame h [] h' []"
  using assms by (auto simp: list_double_linked_allocate_def dl_calloc_def dl_ready_def dl_rep_def dl_frame_def)

lemma dl_life:
  assumes "dl_ready h" "\<not> dl_oom h (dl_fresh h)" "list_all dl_takes ops" "int (length ops) \<le> LONG_MAX"
  shows "\<exists>l h1 l' h2 ns h3. list_double_linked_allocate h = (Some l, h1) \<and> dl_run ops (Some l) h1 = Some (Some l', h2) \<and>
    dl_rep h2 l' ns \<and> dl_steps (\<forall>a. \<not> dl_oom h a) [] ops (map snd ns) \<and>
    list_double_linked_free (Some l') h2 = Some h3 \<and> dl_nodes h3 = dl_nodes h"
proof -
  obtain l h1 where 1: "list_double_linked_allocate h = (Some l, h1)" "dl_rep h1 l []" "dl_frame h [] h1 []"
    using allocate_rep [OF assms(1,2)] by blast
  obtain l' h2 ns where 2: "dl_run ops (Some l) h1 = Some (Some l', h2)" "dl_rep h2 l' ns" "dl_frame h1 [] h2 ns"
    "dl_steps (\<forall>a. \<not> dl_oom h1 a) [] ops (map snd ns)"
    using dl_run_goes [OF 1(2) assms(3)] assms(4) by auto
  obtain h3 where 3: "list_double_linked_free (Some l') h2 = Some h3" "dl_frame h2 ns h3 []" using clear_correct(2) [OF 2(2)] by blast
  have old: "\<forall>a \<ge> dl_fresh h. dl_nodes h a = None" using assms(1) by (simp add: dl_ready_def)
  have "dl_frame h [] h3 []" by (rule dl_frame_trans [OF dl_frame_trans [OF 1(3) 2(3) old] 3(2) old])
  then have "dl_nodes h3 = dl_nodes h" by (auto simp: dl_frame_def)
  moreover have "dl_oom h1 = dl_oom h" using 1(3) by (simp add: dl_frame_def)
  ultimately show ?thesis using 1(1) 2 3(1) by auto
qed

text \<open>
  C33: A doubly linked list refines a plain sequence of values.  Every run of insertions, additions at either end,
  removals by position, at either end or by value, clearings and sorts on a new list ends without an access to memory that is not
  there, leaves a list that is linked in both directions with a correct head, tail and count, and whose values went through the
  steps of the sequence (insertion at the position cut to the length; nothing out of range is removed; the first equal value goes;
  an insertion may only be refused when an allocation failed).  Freeing the list afterwards releases every node the run left
  and touches no other: the memory is as before the list was allocated.
\<close>

theorem double_list_refines_sequence:
  assumes "dl_ready h" "\<not> dl_oom h (dl_fresh h)" "list_all dl_takes ops" "int (length ops) \<le> LONG_MAX"
  shows "\<exists>l h1 l' h2 ns h3. list_double_linked_allocate h = (Some l, h1) \<and> dl_run ops (Some l) h1 = Some (Some l', h2) \<and>
    dl_rep h2 l' ns \<and> dl_steps (\<forall>a. \<not> dl_oom h a) [] ops (map snd ns) \<and>
    list_double_linked_free (Some l') h2 = Some h3 \<and> dl_nodes h3 = dl_nodes h"
  using assms by (rule dl_life)

lemma double_list_refines_sequence_witness:
  "\<exists>l h1 l' h2 ns h3. list_double_linked_allocate \<lparr>dl_nodes = Map.empty, dl_fresh = 1, dl_oom = (\<lambda>a. a = 4)\<rparr> = (Some l, h1) \<and>
    dl_run [DL_add_to_tail [1], DL_insert [2, 3] (-1), DL_add_to_head [4], DL_sort, DL_remove_at 1, DL_remove_value [1]] (Some l) h1 = Some (Some l', h2) \<and>
    dl_rep h2 l' ns \<and> list_double_linked_free (Some l') h2 = Some h3 \<and> dl_nodes h3 = Map.empty"
  using double_list_refines_sequence [of "\<lparr>dl_nodes = Map.empty, dl_fresh = 1, dl_oom = (\<lambda>a. a = 4)\<rparr>"
    "[DL_add_to_tail [1], DL_insert [2, 3] (-1), DL_add_to_head [4], DL_sort, DL_remove_at 1, DL_remove_value [1]]"]
  by (simp add: dl_ready_def dl_takes_def LONG_MAX_def) blast

text \<open>
  C34: Reading a doubly linked list.  On a list that consists of the nodes \<open>ns\<close> the iterator visits them from the first to the
  last with \<open>get_first\<close> and \<open>get_next\<close> and in reverse with \<open>get_last\<close> and \<open>get_previous\<close>, and answers NULL behind the end; the
  count is their number; the data at an index are those of that node, with NULL out of range; and the index of some data, and of a
  value, is the one where they stand (the first one for a value), \<open>-1\<close> where there are none.
\<close>

theorem double_list_reads:
  assumes "dl_rep h l ns" "length ns \<le> n" "0 < sz" "sz \<le> length src"
  shows "dl_visit list_double_linked_get_first list_double_linked_get_next n (Some l) h = Some (map fst ns) \<and>
    dl_visit list_double_linked_get_last list_double_linked_get_previous n (Some l) h = Some (rev (map fst ns)) \<and>
    list_double_linked_item_count (Some l) = int (length ns) \<and>
    (\<forall>k < length ns. list_double_linked_index_of (Some l) (fst (ns ! k)) h = Some (int k) \<and>
      (k < 2 ^ 31 \<longrightarrow> list_double_linked_get_at (Some l) (int k) h = Some (fst (ns ! k)))) \<and>
    (\<forall>d. d \<notin> fst ` set ns \<longrightarrow> list_double_linked_index_of (Some l) d h = Some (-1)) \<and>
    (\<forall>i. i < 0 \<or> i \<ge> int (length ns) \<longrightarrow> list_double_linked_get_at (Some l) i h = Some 0) \<and>
    list_double_linked_index_of_value (Some l) (Some src) sz h =
      Some (if take sz src \<in> snd ` set ns then int (length (takeWhile (\<lambda>x. x \<noteq> take sz src) (map snd ns))) else -1)"
proof -
  have "value_index (take sz src) ns = length (takeWhile (\<lambda>x. x \<noteq> take sz src) (map snd ns))" by (simp add: value_index_def takeWhile_map comp_def)
  moreover have "length (takeWhile (\<lambda>x. x \<noteq> v) xs) < length xs \<longleftrightarrow> v \<in> set xs" for v and xs :: "byte list list" by (induction xs) auto
  from this [of "take sz src" "map snd ns"] calculation
  have "value_index (take sz src) ns < length ns \<longleftrightarrow> take sz src \<in> snd ` set ns" by simp
  ultimately show ?thesis using dl_queries [OF assms(1)] dl_visits [OF assms(1,2)] assms(3,4) by simp
qed

lemma double_list_reads_witness:
  "list_double_linked_index_of_value (Some \<lparr>dl_count = 2, dl_head = 1, dl_tail = 2, dl_iterator = 0\<rparr>) (Some [8, 9]) 2
     \<lparr>dl_nodes = [1 \<mapsto> dn_of [7] 2 0, 2 \<mapsto> dn_of [8, 9] 0 1], dl_fresh = 3, dl_oom = (\<lambda>a. False)\<rparr> = Some 1 \<and>
   dl_visit list_double_linked_get_last list_double_linked_get_previous 5 (Some \<lparr>dl_count = 2, dl_head = 1, dl_tail = 2, dl_iterator = 0\<rparr>)
     \<lparr>dl_nodes = [1 \<mapsto> dn_of [7] 2 0, 2 \<mapsto> dn_of [8, 9] 0 1], dl_fresh = 3, dl_oom = (\<lambda>a. False)\<rparr> = Some [2, 1]"
  using double_list_reads [of "\<lparr>dl_nodes = [1 \<mapsto> dn_of [7] 2 0, 2 \<mapsto> dn_of [8, 9] 0 1], dl_fresh = 3, dl_oom = (\<lambda>a. False)\<rparr>"
    "\<lparr>dl_count = 2, dl_head = 1, dl_tail = 2, dl_iterator = 0\<rparr>" "[(1, [7]), (2, [8, 9])]" 5 2 "[8, 9]"]
  by (simp add: dl_rep_def)

text \<open>
  C35: Sorting and merging.  \<open>sort\<close> relinks the very nodes of the list, none lost, added or copied: when every value is an
  integer of four bytes they come out in the order of the integers, and when none is, the list stays as it is, because the
  comparison the code always uses finds all values of another size equal.  \<open>merge\<close> of two lists, either of which may be NULL,
  gives with enough memory a new list with the integers of both in order and leaves the sources as they were.
\<close>

theorem double_list_sorts_and_merges:
  assumes "dl_rep h l ns" "dl_source h lptrFirst as" "dl_source h lptrSecond bs" "lptrFirst \<noteq> None \<or> lptrSecond \<noteq> None"
    "\<forall>a. \<not> dl_oom h a" "int (length as + length bs) < LONG_MAX"
  shows "(\<exists>l' h' ns'. list_double_linked_sort (Some l) h = Some (Some l', h') \<and> dl_rep h' l' ns' \<and> mset ns' = mset ns \<and>
      ((\<forall>n \<in> set ns. length (snd n) = 4) \<longrightarrow> map snd ns' = sort_key le_int (map snd ns)) \<and>
      ((\<forall>n \<in> set ns. length (snd n) \<noteq> 4) \<longrightarrow> ns' = ns)) \<and>
    (\<exists>l' h' ns'. list_double_linked_merge lptrFirst lptrSecond h = Some (Some l', h') \<and> dl_rep h' l' ns' \<and>
      mset (map snd ns') = mset (map snd as @ map snd bs) \<and>
      ((\<forall>n \<in> set (as @ bs). length (snd n) = 4) \<longrightarrow> map snd ns' = sort_key le_int (map snd as @ map snd bs)) \<and>
      dl_source h' lptrFirst as \<and> dl_source h' lptrSecond bs)"
proof
  show "\<exists>l' h' ns'. list_double_linked_sort (Some l) h = Some (Some l', h') \<and> dl_rep h' l' ns' \<and> mset ns' = mset ns \<and>
      ((\<forall>n \<in> set ns. length (snd n) = 4) \<longrightarrow> map snd ns' = sort_key le_int (map snd ns)) \<and>
      ((\<forall>n \<in> set ns. length (snd n) \<noteq> 4) \<longrightarrow> ns' = ns)"
    using sort_correct [OF assms(1)] msort_dl_sorts [of ns] msort_dl_other [OF refl, of ns] mset_msort_dl [of int_cmp ns] by fastforce
  obtain l1 h1 ns1 where 1: "list_double_linked_join lptrFirst lptrSecond h = Some (Some l1, h1)" "dl_rep h1 l1 ns1" "dl_frame h [] h1 ns1"
    "map snd ns1 = map snd as @ map snd bs" "dl_source h1 lptrFirst as" "dl_source h1 lptrSecond bs"
    using join_joins [OF assms(2-6)] by blast
  obtain l2 h2 where 2: "list_double_linked_sort (Some l1) h1 = Some (Some l2, h2)" "dl_rep h2 l2 (msort_dl int_cmp ns1)"
    "dl_frame h1 ns1 h2 (msort_dl int_cmp ns1)"
    using sort_correct [OF 1(2)] by blast
  have dis: "addrs as \<inter> addrs ns1 = {}" "addrs bs \<inter> addrs ns1 = {}"
    using assms(2,3) dl_rep_other(2) [OF _ 1(3) _ 1(2)] by (cases lptrFirst; cases lptrSecond; auto simp: dl_source_def)+
  have src: "dl_source h2 lptrFirst as" "dl_source h2 lptrSecond bs"
    using dl_source_other [OF 1(5) 2(3) dis(1) 2(2)] dl_source_other [OF 1(6) 2(3) dis(2) 2(2)] by simp_all
  have "list_double_linked_merge lptrFirst lptrSecond h = Some (Some l2, h2)"
    using assms(4) 1(1) 2(1) by (auto simp: list_double_linked_merge_def)
  moreover have "mset (map snd (msort_dl int_cmp ns1)) = mset (map snd as @ map snd bs)" using 1(4) mset_map by (metis mset_msort_dl)
  moreover have "map snd (msort_dl int_cmp ns1) = sort_key le_int (map snd as @ map snd bs)" if "\<forall>n \<in> set (as @ bs). length (snd n) = 4"
  proof -
    have "set (map snd ns1) = snd ` set (as @ bs)" using 1(4) by (simp add: image_Un)
    then show ?thesis using msort_dl_sorts [of ns1] 1(4) that by (metis imageE)
  qed
  ultimately show "\<exists>l' h' ns'. list_double_linked_merge lptrFirst lptrSecond h = Some (Some l', h') \<and> dl_rep h' l' ns' \<and>
      mset (map snd ns') = mset (map snd as @ map snd bs) \<and>
      ((\<forall>n \<in> set (as @ bs). length (snd n) = 4) \<longrightarrow> map snd ns' = sort_key le_int (map snd as @ map snd bs)) \<and>
      dl_source h' lptrFirst as \<and> dl_source h' lptrSecond bs"
    using 2(2) src by blast
qed

lemma double_list_sorts_and_merges_witness:
  "\<exists>l' h' ns'. list_double_linked_merge (Some \<lparr>dl_count = 2, dl_head = 1, dl_tail = 2, dl_iterator = 0\<rparr>) None
     \<lparr>dl_nodes = [1 \<mapsto> dn_of [7, 0, 0, 0] 2 0, 2 \<mapsto> dn_of [255, 255, 255, 255] 0 1], dl_fresh = 3, dl_oom = (\<lambda>a. False)\<rparr> = Some (Some l', h') \<and>
   dl_rep h' l' ns' \<and> map snd ns' = [[255, 255, 255, 255], [7, 0, 0, 0]]"
proof -
  let ?h = "\<lparr>dl_nodes = [1 \<mapsto> dn_of [7, 0, 0, 0] 2 0, 2 \<mapsto> dn_of [255, 255, 255, 255] 0 1], dl_fresh = 3, dl_oom = (\<lambda>a. False)\<rparr>"
  let ?l = "\<lparr>dl_count = 2, dl_head = 1, dl_tail = 2, dl_iterator = 0\<rparr>"
  let ?ns = "[(1, [7, 0, 0, 0]), (2, [255, 255, 255, 255])] :: dl_item list"
  have rep: "dl_rep ?h ?l ?ns" by (simp add: dl_rep_def)
  have src: "dl_source ?h (Some ?l) ?ns" "dl_source ?h None []" using rep by (simp_all add: dl_source_def)
  have less: "le_int [255, 255, 255, 255] < le_int [7, 0, 0, 0]" by (simp add: le_int_def)
  have "map snd ?ns @ map snd ([] :: dl_item list) = [[7, 0, 0, 0], [255, 255, 255, 255]]" by simp
  moreover have "sort_key le_int [[7, 0, 0, 0], [255, 255, 255, 255]] = [[255, 255, 255, 255], [7, 0, 0, 0]]" using less by simp
  moreover have "\<forall>n \<in> set (?ns @ []). length (snd n) = 4" by simp
  moreover have hyps: "Some ?l \<noteq> None \<or> None \<noteq> (None :: list_double_linked_t option)" "\<forall>a. \<not> dl_oom ?h a" "int (length ?ns + length ([] :: dl_item list)) < LONG_MAX"
    by (simp_all add: LONG_MAX_def)
  obtain l' h' ns' where "list_double_linked_merge (Some ?l) None ?h = Some (Some l', h')" "dl_rep h' l' ns'"
    "(\<forall>n \<in> set (?ns @ []). length (snd n) = 4) \<longrightarrow> map snd ns' = sort_key le_int (map snd ?ns @ map snd ([] :: dl_item list))"
    using double_list_sorts_and_merges [OF rep src hyps, THEN conjunct2] by (elim exE conjE) (rule that)
  ultimately show ?thesis by (intro exI conjI) (assumption, assumption, simp only:)
qed

text \<open>
  C36: No removal resets the iterator.  When the item on which the iterator stands is removed, which the client that walks
  through a list with \<open>get_first\<close> and \<open>get_next\<close> and removes what it finds does, the next step in either direction
  reads the released node.
\<close>

theorem double_list_iterator_dangles:
  assumes "dl_rep h l ns" "dl_iterates l ns k" "int (length ns) < LONG_MAX"
  shows "\<exists>l' h'. list_double_linked_remove_at (Some l) (int k) h = Some (Some l', h') \<and>
    dl_rep h' l' (take k ns @ drop (Suc k) ns) \<and>
    list_double_linked_get_next (Some l') h' = None \<and> list_double_linked_get_previous (Some l') h' = None"
proof -
  have k: "k < length ns" "dl_iterator l = fst (ns ! k)" using assms(2) by (simp_all add: dl_iterates_def)
  obtain l' h' where 1: "list_double_linked_remove_at (Some l) (int k) h = Some (Some l', h')" "dl_rep h' l' (delete_item k ns)"
    "dl_frame h ns h' (delete_item k ns)" "dl_iterator l' = dl_iterator l"
    using remove_at_correct [OF assms(1), of "int k"] k(1) assms(3) by auto
  obtain as p x bs where s: "ns = as @ (p, x) # bs" "length as = k" "ns ! k = (p, x)" using split_at_index [OF k(1)] by blast
  have "distinct (map fst ns)" using assms(1) by (simp add: dl_rep_def)
  then have "p \<in> addrs ns - addrs (delete_item k ns)" using s by (auto simp: delete_item_def)
  then have "dl_nodes h' p = None" using 1(3) by (simp only: dl_frame_def)
  moreover have "p \<noteq> 0" using dl_at(2) [OF assms(1) k(1)] s(3) by simp
  ultimately have "list_double_linked_get_next (Some l') h' = None" "list_double_linked_get_previous (Some l') h' = None"
    using 1(4) k(2) s(3) by (simp_all add: list_double_linked_get_next_def list_double_linked_get_previous_def load_dn_def)
  then show ?thesis using 1(1,2) by (auto simp: delete_item_def)
qed

lemma double_list_iterator_dangles_witness:
  "\<exists>l' h'. list_double_linked_remove_at (Some \<lparr>dl_count = 2, dl_head = 1, dl_tail = 2, dl_iterator = 1\<rparr>) 0
     \<lparr>dl_nodes = [1 \<mapsto> dn_of [7] 2 0, 2 \<mapsto> dn_of [8, 9] 0 1], dl_fresh = 3, dl_oom = (\<lambda>a. False)\<rparr> = Some (Some l', h') \<and>
   list_double_linked_get_next (Some l') h' = None"
proof -
  let ?h = "\<lparr>dl_nodes = [1 \<mapsto> dn_of [7] 2 0, 2 \<mapsto> dn_of [8, 9] 0 1], dl_fresh = 3, dl_oom = (\<lambda>a. False)\<rparr>"
  let ?l = "\<lparr>dl_count = 2, dl_head = 1, dl_tail = 2, dl_iterator = 1\<rparr>"
  have "dl_rep ?h ?l [(1, [7]), (2, [8, 9])]" "dl_iterates ?l [(1, [7]), (2, [8, 9])] 0" "int (length [(1, [7 :: byte]), (2, [8, 9])]) < LONG_MAX"
    by (simp_all add: dl_rep_def dl_iterates_def LONG_MAX_def)
  from double_list_iterator_dangles [OF this] show ?thesis by auto
qed

end
