(* ===== verification/Abnf.thy ===== *)
theory Abnf
  imports Dictionary BufferString StringList
begin

text \<open>
  The messages of \<open>comm/src/abnf.c\<close>: a start line of three parts, header lines, an empty line and a body, as HTTP, SIP,
  SMTP and IMAP share them.  The object is a client of the string, the dictionary and the buffer, and their models are used as
  they are.  \<open>ps\<close> is the page size that \<open>sysconf\<close> answers; \<open>ok n\<close> answers the n-th allocation of a call, and
  \<open>oks i\<close> those of its i-th step.
\<close>

section \<open>The message\<close>

datatype abnf_protcol_usage_t =
    ABNF_PROTOCOL_USAGE_HTTP
  | ABNF_PROTOCOL_USAGE_SIP
  | ABNF_PROTOCOL_USAGE_SMTP
  | ABNF_PROTOCOL_USAGE_IMAP4
  | ABNF_PROTOCOL_USAGE_UNKNOWN

record abnf_t =
  ab_is_valid :: bool
  ab_protocol :: abnf_protcol_usage_t
  ab_method :: "string_t option"
  ab_protocol_version :: "string_t option"
  ab_request_uri :: "string_t option"
  ab_status_code :: "string_t option"
  ab_reason_phrase :: "string_t option"
  ab_headers :: "dictionary_t option"
  ab_body :: "buffer_t option"

text \<open>A copy of the first \<open>len\<close> bytes of a block, with a terminator.\<close>

definition abnf_strndup_local :: "bool \<Rightarrow> byte list \<Rightarrow> nat \<Rightarrow> byte list option option" where
  "abnf_strndup_local ok src len =
     (if \<not> ok then Some None
      else do {
        out \<leftarrow> (if len > 0 then mem_copy (replicate (len + 1) 0) 0 src 0 len else Some (replicate (len + 1) 0));
        Some (Some out) })"

text \<open>A view, a start and a length, is the list of the characters it spans.\<close>

definition abnf_trim_view :: "byte list \<Rightarrow> byte list" where
  "abnf_trim_view v = rev (dropWhile is_space (rev (dropWhile is_space v)))"

definition abnf_assign_string_field :: "nat \<Rightarrow> bool \<Rightarrow> string_t option \<Rightarrow> byte list option \<Rightarrow> (string_t option \<times> bool) option" where
  "abnf_assign_string_field ps ok field text_ptr =
     (if field = None \<or> text_ptr = None then Some (field, False)
      else do {
        field \<leftarrow> string_clear field;
        string_append ps ok ok field text_ptr })"

text \<open>\<open>strncmp(s, p, strlen(p)) == 0\<close>.\<close>

definition str_begins :: "byte list \<Rightarrow> string \<Rightarrow> bool option" where
  "str_begins s p = do { t \<leftarrow> c_string s; Some (take (length p) t = bytes_of p) }"

definition abnf_detect_protocol_from_version :: "byte list option \<Rightarrow> abnf_protcol_usage_t option" where
  "abnf_detect_protocol_from_version version =
     (case version of
        None \<Rightarrow> Some ABNF_PROTOCOL_USAGE_UNKNOWN
      | Some v \<Rightarrow> do {
          http \<leftarrow> str_begins v ''HTTP/'';
          if http then Some ABNF_PROTOCOL_USAGE_HTTP
          else do {
            sip \<leftarrow> str_begins v ''SIP/'';
            Some (if sip then ABNF_PROTOCOL_USAGE_SIP else ABNF_PROTOCOL_USAGE_UNKNOWN) } })"

section \<open>Allocation and release\<close>

definition abnf_free :: "abnf_t option \<Rightarrow> abnf_t option option" where
  "abnf_free ptr =
     (case ptr of None \<Rightarrow> Some None | Some m \<Rightarrow> do { dictionary_free (ab_headers m); Some None })"

definition abnf_allocate :: "nat \<Rightarrow> (nat \<Rightarrow> bool) \<Rightarrow> abnf_t option option" where
  "abnf_allocate ps ok =
     (if \<not> ok 0 then Some None
      else
        let m = \<lparr>ab_is_valid = False, ab_protocol = ABNF_PROTOCOL_USAGE_UNKNOWN,
                 ab_method = string_allocate_default ps (ok 1) (ok 2),
                 ab_protocol_version = string_allocate_default ps (ok 3) (ok 4),
                 ab_request_uri = string_allocate_default ps (ok 5) (ok 6),
                 ab_status_code = string_allocate_default ps (ok 7) (ok 8),
                 ab_reason_phrase = string_allocate_default ps (ok 9) (ok 10),
                 ab_headers = dictionary_allocate (ok 11),
                 ab_body = buffer_allocate_default (int ps) (ok 12) (ok 13)\<rparr>
        in if ab_method m = None \<or> ab_protocol_version m = None \<or> ab_request_uri m = None \<or> ab_status_code m = None \<or>
              ab_reason_phrase m = None \<or> ab_headers m = None \<or> ab_body m = None
           then abnf_free (Some m) else Some (Some m))"

section \<open>Parsing\<close>

text \<open>
  The first line: two tokens of \<open>strtok\<close> and what is left of the line.  The results of the assignments are ignored.
\<close>

definition abnf_parse_start_line :: "nat \<Rightarrow> (nat \<Rightarrow> bool) \<Rightarrow> abnf_t option \<Rightarrow> byte list option \<Rightarrow> (bool \<times> abnf_t option) option" where
  "abnf_parse_start_line ps ok ptr line =
     (case (ptr, line) of
        (Some m, Some l) \<Rightarrow> do {
          n \<leftarrow> str_len l;
          r \<leftarrow> abnf_strndup_local (ok 0) l n;
          case r of
            None \<Rightarrow> Some (False, ptr)
          | Some local \<Rightarrow> do {
              t \<leftarrow> c_string local;
              let (first, r1) = str_tok [32] t;
              let (second, r2) = str_tok [32] r1;
              let (third, r3) = str_tok [] r2;
              (case (first, second) of
                 (Some f, Some s) \<Rightarrow> do {
                   http \<leftarrow> str_begins (f @ [0]) ''HTTP/'';
                   sip \<leftarrow> str_begins (f @ [0]) ''SIP/'';
                   case third of
                     None \<Rightarrow> Some (False, ptr)
                   | Some th \<Rightarrow>
                     if http \<or> sip
                     then do {
                       (v, _) \<leftarrow> abnf_assign_string_field ps (ok 1) (ab_protocol_version m) (Some (f @ [0]));
                       (c, _) \<leftarrow> abnf_assign_string_field ps (ok 2) (ab_status_code m) (Some (s @ [0]));
                       (p, _) \<leftarrow> abnf_assign_string_field ps (ok 3) (ab_reason_phrase m) (Some (th @ [0]));
                       proto \<leftarrow> abnf_detect_protocol_from_version (Some (f @ [0]));
                       Some (True, Some (m\<lparr>ab_protocol_version := v, ab_status_code := c, ab_reason_phrase := p, ab_protocol := proto\<rparr>)) }
                     else do {
                       (c, _) \<leftarrow> abnf_assign_string_field ps (ok 1) (ab_method m) (Some (f @ [0]));
                       (u, _) \<leftarrow> abnf_assign_string_field ps (ok 2) (ab_request_uri m) (Some (s @ [0]));
                       (v, _) \<leftarrow> abnf_assign_string_field ps (ok 3) (ab_protocol_version m) (Some (th @ [0]));
                       proto \<leftarrow> abnf_detect_protocol_from_version (Some (th @ [0]));
                       Some (True, Some (m\<lparr>ab_method := c, ab_request_uri := u, ab_protocol_version := v, ab_protocol := proto\<rparr>)) } }
               | _ \<Rightarrow> Some (False, ptr)) } }
      | _ \<Rightarrow> Some (False, ptr))"

text \<open>One header line, without its line end.\<close>

definition abnf_header_line :: "(nat \<Rightarrow> bool) \<Rightarrow> byte list \<Rightarrow> dictionary_t option \<Rightarrow> (bool \<times> dictionary_t option) option" where
  "abnf_header_line ok line headers =
     (if 58 \<notin> set line then Some (True, headers)
      else
        let k = abnf_trim_view (takeWhile (\<lambda>c. c \<noteq> 58) line);
            v = abnf_trim_view (drop 1 (dropWhile (\<lambda>c. c \<noteq> 58) line))
        in if length k = 0 then Some (True, headers)
           else do {
             key_buf \<leftarrow> abnf_strndup_local (ok 0) k (length k);
             value_buf \<leftarrow> abnf_strndup_local (ok 1) v (length v);
             case (key_buf, value_buf) of
               (Some kb, Some vb) \<Rightarrow> do {
                 kl \<leftarrow> str_len kb;
                 vl \<leftarrow> str_len vb;
                 headers \<leftarrow> dictionary_set_value (\<lambda>i. ok (i + 2)) headers (Some kb) (kl + 1) (Some vb) (vl + 1);
                 Some (True, headers) }
             | _ \<Rightarrow> Some (False, headers) })"

text \<open>The loop over the header lines from \<open>cursor\<close>, the block at \<open>headers\<close>; \<open>i\<close> counts the rounds.\<close>

function abnf_headers_loop ::
  "(nat \<Rightarrow> nat \<Rightarrow> bool) \<Rightarrow> nat \<Rightarrow> byte list \<Rightarrow> nat \<Rightarrow> nat \<Rightarrow> dictionary_t option \<Rightarrow> (bool \<times> dictionary_t option) option" where
  "abnf_headers_loop oks i headers headers_len cursor dict =
     (if cursor < headers_len
      then (case (if cursor \<le> length headers then c_string (drop cursor headers) else None) of
              None \<Rightarrow> None
            | Some line \<Rightarrow>
              (case str_find [13, 10] line of
                 None \<Rightarrow> Some (True, dict)
               | Some line_len \<Rightarrow>
                 if cursor + line_len > headers_len \<or> line_len = 0 then Some (True, dict)
                 else (case abnf_header_line (oks i) (take line_len line) dict of
                         None \<Rightarrow> None
                       | Some (False, dict) \<Rightarrow> Some (False, dict)
                       | Some (True, dict) \<Rightarrow> abnf_headers_loop oks (i + 1) headers headers_len (cursor + line_len + 2) dict)))
      else Some (True, dict))"
  by pat_completeness auto
termination by (relation "measure (\<lambda>(oks, i, headers, n, cursor, dict). n - cursor)") auto

declare abnf_headers_loop.simps [simp del]

definition abnf_parse_headers_block ::
  "(nat \<Rightarrow> nat \<Rightarrow> bool) \<Rightarrow> abnf_t option \<Rightarrow> byte list option \<Rightarrow> nat \<Rightarrow> (bool \<times> abnf_t option) option" where
  "abnf_parse_headers_block oks ptr headers headers_len =
     (case (ptr, headers) of
        (Some m, Some h) \<Rightarrow> do {
          (r, d) \<leftarrow> abnf_headers_loop oks 0 h headers_len 0 (ab_headers m);
          Some (r, Some (m\<lparr>ab_headers := d\<rparr>)) }
      | _ \<Rightarrow> Some (False, ptr))"

text \<open>\<open>body\<close> is the block at \<open>body_start\<close>, \<open>n\<close> what is left of the text there.\<close>

definition abnf_take_body :: "nat \<Rightarrow> (nat \<Rightarrow> bool) \<Rightarrow> abnf_t option \<Rightarrow> byte list \<Rightarrow> nat \<Rightarrow> abnf_t option option" where
  "abnf_take_body ps ok ptr body n =
     (if n > 0
      then do {
        m \<leftarrow> ptr;
        (b, _) \<leftarrow> buffer_append (int ps) (ok 0) (ok 1) (ab_body m) (Some body) n;
        Some (Some (m\<lparr>ab_body := b\<rparr>)) }
      else Some ptr)"

definition abnf_parse_internal ::
  "nat \<Rightarrow> (nat \<Rightarrow> nat \<Rightarrow> bool) \<Rightarrow> string_t option \<Rightarrow> bool \<Rightarrow> abnf_t option option" where
  "abnf_parse_internal ps oks data with_body =
     (if data = None then Some None
      else do {
        raw \<leftarrow> string_c_str data;
        raw_len \<leftarrow> string_get_length data;
        (case raw of
           None \<Rightarrow> Some None
         | Some r \<Rightarrow>
           if raw_len = 0 then Some None
           else do {
             ptr \<leftarrow> abnf_allocate ps (oks 0);
             if ptr = None then Some None
             else do {
               working \<leftarrow> abnf_strndup_local (oks 1 0) r raw_len;
               case working of
                 None \<Rightarrow> abnf_free ptr
               | Some w \<Rightarrow> do {
                   t \<leftarrow> c_string w;
                   case str_find [13, 10] t of
                     None \<Rightarrow> abnf_free ptr
                   | Some n \<Rightarrow> do {
                       w \<leftarrow> mem_write w n 0;
                       (parsed, ptr) \<leftarrow> abnf_parse_start_line ps (oks 2) ptr (Some w);
                       if \<not> parsed then abnf_free ptr
                       else do {
                         let headers = drop (n + 2) w;
                         ht \<leftarrow> c_string headers;
                         case str_find [13, 10, 13, 10] ht of
                           Some headers_len \<Rightarrow> do {
                             (parsed, ptr) \<leftarrow> abnf_parse_headers_block (\<lambda>i. oks (i + 4)) ptr (Some headers) headers_len;
                             if \<not> parsed then abnf_free ptr
                             else do {
                               let body_offset = n + 2 + headers_len + 4;
                               ptr \<leftarrow> (if with_body \<and> body_offset \<le> raw_len
                                      then abnf_take_body ps (oks 3) ptr (drop body_offset w) (raw_len - body_offset) else Some ptr);
                               Some (map_option (ab_is_valid_update (\<lambda>_. True)) ptr) } }
                         | None \<Rightarrow> do {
                             (parsed, ptr) \<leftarrow> abnf_parse_headers_block (\<lambda>i. oks (i + 4)) ptr (Some headers) (raw_len - (n + 2));
                             if \<not> parsed then abnf_free ptr else Some (map_option (ab_is_valid_update (\<lambda>_. True)) ptr) } } } } } }) })"

definition abnf_parse_and_allocate :: "nat \<Rightarrow> (nat \<Rightarrow> nat \<Rightarrow> bool) \<Rightarrow> string_t option \<Rightarrow> abnf_t option option" where
  "abnf_parse_and_allocate ps oks data = abnf_parse_internal ps oks data True"

definition abnf_parse_and_allocate_from_headers :: "nat \<Rightarrow> (nat \<Rightarrow> nat \<Rightarrow> bool) \<Rightarrow> string_t option \<Rightarrow> abnf_t option option" where
  "abnf_parse_and_allocate_from_headers ps oks data = abnf_parse_internal ps oks data False"

definition abnf_is_valid :: "abnf_t option \<Rightarrow> bool" where
  "abnf_is_valid ptr = (case ptr of None \<Rightarrow> False | Some m \<Rightarrow> ab_is_valid m)"

section \<open>Serializing\<close>

text \<open>A row of \<open>string_append(result, ...)\<close>, whose results are ignored.\<close>

fun append_pieces :: "nat \<Rightarrow> (nat \<Rightarrow> bool) \<Rightarrow> string_t option \<Rightarrow> byte list option list \<Rightarrow> string_t option option" where
  "append_pieces ps ok result [] = Some result"
| "append_pieces ps ok result (d # ds) = do {
     (result, _) \<leftarrow> string_append ps (ok 0) (ok 0) result d;
     append_pieces ps (\<lambda>i. ok (i + 1)) result ds }"

definition lit :: "string \<Rightarrow> byte list option" where
  "lit s = Some (bytes_of s @ [0])"

definition crlf :: "byte list" where "crlf = [13, 10]"

text \<open>\<open>string_get_length(a) > 0 && string_get_length(b) > 0 && ...\<close>.\<close>

fun all_filled :: "string_t option list \<Rightarrow> bool option" where
  "all_filled [] = Some True"
| "all_filled (f # fs) = do { n \<leftarrow> string_get_length f; if n > 0 then all_filled fs else Some False }"

text \<open>The pieces of the first line; \<open>Some None\<close> where the function gives up.\<close>

definition abnf_first_line :: "abnf_t \<Rightarrow> abnf_protcol_usage_t \<Rightarrow> byte list option list option option" where
  "abnf_first_line m usage =
     (if usage = ABNF_PROTOCOL_USAGE_HTTP \<or> usage = ABNF_PROTOCOL_USAGE_SIP
      then do {
        request \<leftarrow> all_filled [ab_method m, ab_request_uri m, ab_protocol_version m];
        if request
        then do {
          c \<leftarrow> string_c_str (ab_method m);
          u \<leftarrow> string_c_str (ab_request_uri m);
          v \<leftarrow> string_c_str (ab_protocol_version m);
          Some (Some [c, lit '' '', u, lit '' '', v, Some (crlf @ [0])]) }
        else do {
          response \<leftarrow> all_filled [ab_protocol_version m, ab_status_code m, ab_reason_phrase m];
          if response
          then do {
            v \<leftarrow> string_c_str (ab_protocol_version m);
            c \<leftarrow> string_c_str (ab_status_code m);
            r \<leftarrow> string_c_str (ab_reason_phrase m);
            Some (Some [v, lit '' '', c, lit '' '', r, Some (crlf @ [0])]) }
          else Some None } }
      else if usage = ABNF_PROTOCOL_USAGE_SMTP \<or> usage = ABNF_PROTOCOL_USAGE_IMAP4
      then do {
        command \<leftarrow> all_filled [ab_method m];
        if command
        then do {
          c \<leftarrow> string_c_str (ab_method m);
          arguments \<leftarrow> all_filled [ab_request_uri m];
          u \<leftarrow> string_c_str (ab_request_uri m);
          Some (Some (c # (if arguments then [lit '' '', u] else []) @ [Some (crlf @ [0])])) }
        else do {
          response \<leftarrow> all_filled [ab_status_code m, ab_reason_phrase m];
          if response
          then do {
            c \<leftarrow> string_c_str (ab_status_code m);
            r \<leftarrow> string_c_str (ab_reason_phrase m);
            Some (Some [c, lit '' '', r, Some (crlf @ [0])]) }
          else Some None } }
      else Some None)"

text \<open>The loop over the table of keys.  The dictionary of a message has no references.\<close>

fun append_headers ::
  "nat \<Rightarrow> (nat \<Rightarrow> nat \<Rightarrow> bool) \<Rightarrow> string_t option \<Rightarrow> dictionary_t option \<Rightarrow> byte list option list \<Rightarrow> string_t option option" where
  "append_headers ps oks result headers [] = None"
| "append_headers ps oks result headers (None # ks) = Some result"
| "append_headers ps oks result headers (Some k # ks) = do {
     n \<leftarrow> str_len k;
     v \<leftarrow> dictionary_get_value headers (Some k) (n + 1);
     result \<leftarrow> (case v of
                 NullValue \<Rightarrow> Some result
               | Owned b \<Rightarrow> append_pieces ps (oks 0) result [Some k, lit '': '', Some b, Some (crlf @ [0])]
               | Reference _ \<Rightarrow> None);
     append_headers ps (\<lambda>i. oks (i + 1)) result headers ks }"

definition abnf_serialize ::
  "nat \<Rightarrow> (nat \<Rightarrow> nat \<Rightarrow> bool) \<Rightarrow> abnf_t option \<Rightarrow> abnf_protcol_usage_t \<Rightarrow> string_t option option" where
  "abnf_serialize ps oks ptr usage =
     (case ptr of
        None \<Rightarrow> Some None
      | Some m \<Rightarrow>
        if \<not> ab_is_valid m then Some None
        else (case string_allocate_default ps (oks 0 0) (oks 0 1) of
                None \<Rightarrow> Some None
              | result \<Rightarrow> do {
                  line \<leftarrow> abnf_first_line m usage;
                  case line of
                    None \<Rightarrow> Some (string_free result)
                  | Some pieces \<Rightarrow> do {
                      result \<leftarrow> append_pieces ps (oks 1) result pieces;
                      result \<leftarrow> (if ab_headers m = None then Some result
                        else do {
                          keys \<leftarrow> dictionary_get_all_keys (oks 2) (ab_headers m);
                          (case keys of
                             None \<Rightarrow> Some result
                           | Some cells \<Rightarrow> do {
                               result \<leftarrow> append_headers ps (\<lambda>i. oks (i + 5)) result (ab_headers m) cells;
                               dictionary_free_key_list (ab_headers m) keys;
                               Some result }) });
                      (result, _) \<leftarrow> string_append ps (oks 3 0) (oks 3 0) result (Some (crlf @ [0]));
                      (if ab_body m \<noteq> None \<and> buffer_get_size (ab_body m) > 0
                       then do {
                         body_string \<leftarrow> buffer_convert_to_string ps (oks 4 0) (oks 4 1) (oks 4 2) (ab_body m);
                         if body_string = None then Some result
                         else do {
                           b \<leftarrow> string_c_str body_string;
                           (result, _) \<leftarrow> string_append ps (oks 4 3) (oks 4 3) result b;
                           Some result } }
                       else Some result) } }))"

section \<open>Getters and setters\<close>

definition abnf_get_protocol :: "abnf_t option \<Rightarrow> abnf_protcol_usage_t" where
  "abnf_get_protocol ptr = (case ptr of None \<Rightarrow> ABNF_PROTOCOL_USAGE_UNKNOWN | Some m \<Rightarrow> ab_protocol m)"

definition abnf_get_protocol_version :: "abnf_t option \<Rightarrow> string_t option" where
  "abnf_get_protocol_version ptr = (case ptr of None \<Rightarrow> None | Some m \<Rightarrow> ab_protocol_version m)"

definition abnf_get_method :: "abnf_t option \<Rightarrow> string_t option" where
  "abnf_get_method ptr = (case ptr of None \<Rightarrow> None | Some m \<Rightarrow> ab_method m)"

definition abnf_get_request_uri :: "abnf_t option \<Rightarrow> string_t option" where
  "abnf_get_request_uri ptr = (case ptr of None \<Rightarrow> None | Some m \<Rightarrow> ab_request_uri m)"

definition abnf_get_status_code :: "abnf_t option \<Rightarrow> int option" where
  "abnf_get_status_code ptr =
     (case ptr of
        None \<Rightarrow> Some (-1)
      | Some m \<Rightarrow> do {
          n \<leftarrow> string_get_length (ab_status_code m);
          if n = 0 then Some (-1)
          else do {
            d \<leftarrow> string_c_str (ab_status_code m);
            b \<leftarrow> d;
            t \<leftarrow> c_string b;
            Some (atoi_text t) } })"

definition abnf_get_reason_phrase :: "abnf_t option \<Rightarrow> string_t option" where
  "abnf_get_reason_phrase ptr = (case ptr of None \<Rightarrow> None | Some m \<Rightarrow> ab_reason_phrase m)"

definition abnf_get_header_value :: "nat \<Rightarrow> (nat \<Rightarrow> bool) \<Rightarrow> abnf_t option \<Rightarrow> byte list option \<Rightarrow> string_t option option" where
  "abnf_get_header_value ps ok ptr header_name =
     (case (ptr, header_name) of
        (Some m, Some name) \<Rightarrow>
          if ab_headers m = None then Some None
          else do {
            n \<leftarrow> str_len name;
            v \<leftarrow> dictionary_get_value (ab_headers m) header_name (n + 1);
            (case v of NullValue \<Rightarrow> Some None | Owned b \<Rightarrow> string_allocate ps (ok 0) (ok 1) (Some b) | Reference _ \<Rightarrow> None) }
      | _ \<Rightarrow> Some None)"

fun list_cells :: "nat \<Rightarrow> (nat \<Rightarrow> nat \<Rightarrow> bool) \<Rightarrow> string_list_t option \<Rightarrow> byte list option list \<Rightarrow> string_list_t option option" where
  "list_cells ps oks result [] = None"
| "list_cells ps oks result (None # ks) = Some result"
| "list_cells ps oks result (Some k # ks) = do {
     result \<leftarrow> string_append_to_list ps (oks 0 0) (oks 0 1) (oks 0 2) result (Some k);
     list_cells ps (\<lambda>i. oks (i + 1)) result ks }"

definition abnf_get_all_headers :: "nat \<Rightarrow> (nat \<Rightarrow> nat \<Rightarrow> bool) \<Rightarrow> abnf_t option \<Rightarrow> string_list_t option option" where
  "abnf_get_all_headers ps oks ptr =
     (case ptr of
        None \<Rightarrow> Some None
      | Some m \<Rightarrow>
        if ab_headers m = None then Some None
        else do {
          keys \<leftarrow> dictionary_get_all_keys (oks 0) (ab_headers m);
          (case keys of
             None \<Rightarrow> Some None
           | Some cells \<Rightarrow>
             (case string_list_allocate_default (oks 1 0) of
                None \<Rightarrow> do { dictionary_free_key_list (ab_headers m) keys; Some None }
              | result \<Rightarrow> do {
                  result \<leftarrow> list_cells ps (\<lambda>i. oks (i + 2)) result cells;
                  dictionary_free_key_list (ab_headers m) keys;
                  Some result })) })"

definition abnf_get_body :: "nat \<Rightarrow> (nat \<Rightarrow> bool) \<Rightarrow> abnf_t option \<Rightarrow> string_t option option" where
  "abnf_get_body ps ok ptr =
     (case ptr of None \<Rightarrow> Some None
      | Some m \<Rightarrow> if ab_body m = None then Some None else buffer_convert_to_string ps (ok 0) (ok 1) (ok 2) (ab_body m))"

text \<open>The setters answer with the object.\<close>

definition abnf_set_body :: "nat \<Rightarrow> (nat \<Rightarrow> bool) \<Rightarrow> abnf_t option \<Rightarrow> byte list option \<Rightarrow> (bool \<times> abnf_t option) option" where
  "abnf_set_body ps ok ptr body =
     (case (ptr, body) of
        (Some m, Some t) \<Rightarrow>
          let m = (if ab_body m = None then m\<lparr>ab_body := buffer_allocate_default (int ps) (ok 0) (ok 1)\<rparr> else m)
          in if ab_body m = None then Some (False, Some m)
             else do {
               b \<leftarrow> buffer_clear (ab_body m);
               n \<leftarrow> str_len t;
               (b, _) \<leftarrow> buffer_append (int ps) (ok 2) (ok 3) b body n;
               Some (True, Some (m\<lparr>ab_body := b\<rparr>)) }
      | _ \<Rightarrow> Some (False, ptr))"

definition abnf_set_header_value ::
  "(nat \<Rightarrow> bool) \<Rightarrow> abnf_t option \<Rightarrow> byte list option \<Rightarrow> byte list option \<Rightarrow> (bool \<times> abnf_t option) option" where
  "abnf_set_header_value ok ptr header_name header_value =
     (case (ptr, header_name, header_value) of
        (Some m, Some name, Some val) \<Rightarrow>
          let m = (if ab_headers m = None then m\<lparr>ab_headers := dictionary_allocate (ok 0)\<rparr> else m)
          in if ab_headers m = None then Some (False, Some m)
             else do {
               kl \<leftarrow> str_len name;
               vl \<leftarrow> str_len val;
               d \<leftarrow> dictionary_set_value (\<lambda>i. ok (i + 1)) (ab_headers m) header_name (kl + 1) header_value (vl + 1);
               Some (True, Some (m\<lparr>ab_headers := d\<rparr>)) }
      | _ \<Rightarrow> Some (False, ptr))"

text \<open>The setters of the text fields share their guards.\<close>

definition abnf_set_text ::
  "(abnf_t \<Rightarrow> string_t option) \<Rightarrow> (string_t option \<Rightarrow> abnf_t \<Rightarrow> abnf_t) \<Rightarrow>
   nat \<Rightarrow> bool \<Rightarrow> abnf_t option \<Rightarrow> byte list option \<Rightarrow> (bool \<times> abnf_t option) option" where
  "abnf_set_text get put ps ok ptr txt =
     (case ptr of
        None \<Rightarrow> Some (False, None)
      | Some m \<Rightarrow>
        if txt = None \<or> get m = None then Some (False, ptr)
        else do { (f, r) \<leftarrow> abnf_assign_string_field ps ok (get m) txt; Some (r, Some (put f m)) })"

definition abnf_set_method :: "nat \<Rightarrow> bool \<Rightarrow> abnf_t option \<Rightarrow> byte list option \<Rightarrow> (bool \<times> abnf_t option) option" where
  "abnf_set_method = abnf_set_text ab_method (\<lambda>f. ab_method_update (\<lambda>_. f))"

definition abnf_set_request_uri :: "nat \<Rightarrow> bool \<Rightarrow> abnf_t option \<Rightarrow> byte list option \<Rightarrow> (bool \<times> abnf_t option) option" where
  "abnf_set_request_uri = abnf_set_text ab_request_uri (\<lambda>f. ab_request_uri_update (\<lambda>_. f))"

definition abnf_set_reason_phrase :: "nat \<Rightarrow> bool \<Rightarrow> abnf_t option \<Rightarrow> byte list option \<Rightarrow> (bool \<times> abnf_t option) option" where
  "abnf_set_reason_phrase = abnf_set_text ab_reason_phrase (\<lambda>f. ab_reason_phrase_update (\<lambda>_. f))"

definition abnf_set_protocol_version :: "nat \<Rightarrow> bool \<Rightarrow> abnf_t option \<Rightarrow> byte list option \<Rightarrow> (bool \<times> abnf_t option) option" where
  "abnf_set_protocol_version = abnf_set_text ab_protocol_version (\<lambda>f. ab_protocol_version_update (\<lambda>_. f))"

definition abnf_set_status_code :: "nat \<Rightarrow> bool \<Rightarrow> abnf_t option \<Rightarrow> int \<Rightarrow> (bool \<times> abnf_t option) option" where
  "abnf_set_status_code ps ok ptr status_code =
     (case ptr of
        None \<Rightarrow> Some (False, None)
      | Some m \<Rightarrow>
        if status_code < 100 \<or> status_code > 999 \<or> ab_status_code m = None then Some (False, ptr)
        else do {
          code_str \<leftarrow> print_into 4 (int_digits status_code);
          (f, r) \<leftarrow> abnf_assign_string_field ps ok (ab_status_code m) (Some code_str);
          Some (r, Some (m\<lparr>ab_status_code := f\<rparr>)) })"

definition abnf_set_protocol :: "abnf_t option \<Rightarrow> abnf_protcol_usage_t \<Rightarrow> bool \<times> abnf_t option" where
  "abnf_set_protocol ptr usage = (case ptr of None \<Rightarrow> (False, None) | Some m \<Rightarrow> (True, Some (m\<lparr>ab_protocol := usage\<rparr>)))"

section \<open>What a message means\<close>

text \<open>A message as texts.  \<open>headers_enc\<close> are the entries of the dictionary: C strings with their terminators.\<close>

record abnf_msg =
  am_method :: "byte list"
  am_request_uri :: "byte list"
  am_protocol_version :: "byte list"
  am_status_code :: "byte list"
  am_reason_phrase :: "byte list"
  am_headers :: "byte list \<rightharpoonup> byte list"
  am_body :: "byte list"

definition empty_msg :: abnf_msg where
  "empty_msg = \<lparr>am_method = [], am_request_uri = [], am_protocol_version = [], am_status_code = [], am_reason_phrase = [],
     am_headers = Map.empty, am_body = []\<rparr>"

definition headers_enc :: "(byte list \<rightharpoonup> byte list) \<Rightarrow> byte list \<rightharpoonup> value_ptr" where
  "headers_enc H k = (if k \<noteq> [] \<and> last k = 0 then map_option (\<lambda>v. Owned (v @ [0])) (H (butlast k)) else None)"

definition headers_ok :: "(byte list \<rightharpoonup> byte list) \<Rightarrow> bool" where
  "headers_ok H = (\<forall>k v. H k = Some v \<longrightarrow> 0 \<notin> set k \<and> 0 \<notin> set v)"

definition dict_headers :: "dictionary_t option \<Rightarrow> (byte list \<rightharpoonup> byte list) \<Rightarrow> bool" where
  "dict_headers p H = (\<exists>d. p = Some d \<and> dict_wf d \<and> dict_map d = headers_enc H \<and> headers_ok H)"

definition abnf_rep :: "nat \<Rightarrow> abnf_t \<Rightarrow> abnf_msg \<Rightarrow> bool" where
  "abnf_rep ps m a =
     (string_rep ps (ab_method m) (am_method a) \<and> string_rep ps (ab_request_uri m) (am_request_uri a) \<and>
      string_rep ps (ab_protocol_version m) (am_protocol_version a) \<and> string_rep ps (ab_status_code m) (am_status_code a) \<and>
      string_rep ps (ab_reason_phrase m) (am_reason_phrase a) \<and> dict_headers (ab_headers m) (am_headers a) \<and>
      buffer_rep (ab_body m) (am_body a))"

lemma headers_enc_empty [simp]: "headers_enc Map.empty = Map.empty"
  by (rule ext) (simp add: headers_enc_def)

lemma headers_enc_update: "headers_enc (H(k \<mapsto> v)) = (headers_enc H)(k @ [0] \<mapsto> Owned (v @ [0]))"
proof (rule ext)
  fix x
  show "headers_enc (H(k \<mapsto> v)) x = ((headers_enc H)(k @ [0] \<mapsto> Owned (v @ [0]))) x"
    by (cases x rule: rev_cases) (simp_all add: headers_enc_def)
qed

lemma headers_enc_dom: "dom (headers_enc H) = (\<lambda>k. k @ [0]) ` dom H"
proof (rule set_eqI)
  fix x
  show "x \<in> dom (headers_enc H) \<longleftrightarrow> x \<in> (\<lambda>k. k @ [0]) ` dom H"
    by (cases x rule: rev_cases) (auto simp: headers_enc_def image_iff split: if_splits)
qed

lemma c_string_end [simp]: "0 \<notin> set t \<Longrightarrow> c_string (t @ [0]) = Some t"
  using c_string_exact [of t "[]"] by simp

lemma strndup_text: "abnf_strndup_local True (t @ r) (length t) = Some (Some (t @ [0]))"
proof -
  have "mem_copy (replicate (length t + 1) 0) 0 (t @ r) 0 (length t) = Some (t @ [0])"
    by (simp add: mem_copy_def flip: replicate_append_same)
  then show ?thesis by (cases t) (simp_all add: abnf_strndup_local_def)
qed

text \<open>A field set to a text, and a header added.\<close>

lemma assign_field:
  assumes "string_rep ps p xs" "0 \<notin> set t" "t \<noteq> []" "length t \<le> SIZE_MAX div 2"
  shows "\<exists>q. abnf_assign_string_field ps True p (Some (t @ [0])) = Some (q, True) \<and> string_rep ps q t"
proof -
  obtain q where q: "string_clear p = Some q" "string_rep ps q []" using string_clear_rep [OF assms(1)] by blast
  obtain q' where "string_append ps True True q (Some (t @ [0])) = Some (q', True)" "string_rep ps q' t"
    using string_append_rep [OF q(2) c_string_end [OF assms(2)] assms(3)] assms(4) by auto
  moreover have "p \<noteq> None" using assms(1) by (auto simp: string_rep_def)
  ultimately show ?thesis using q(1) by (simp add: abnf_assign_string_field_def)
qed

lemma set_header:
  assumes "dict_headers p H" "0 \<notin> set k" "0 \<notin> set v"
  shows "\<exists>q. dictionary_set_value (\<lambda>_. True) p (Some (k @ [0])) (length k + 1) (Some (v @ [0])) (length v + 1) = Some q \<and>
    dict_headers q (H(k \<mapsto> v))"
proof -
  obtain d where d: "p = Some d" "dict_wf d" "dict_map d = headers_enc H" "headers_ok H" using assms(1) by (auto simp: dict_headers_def)
  have n: "0 < length k + 1" "length k + 1 \<le> length (k @ [0])" "take (length k + 1) (k @ [0]) = k @ [0]"
    "0 < length v + 1" "length v + 1 \<le> length (v @ [0])" "take (length v + 1) (v @ [0]) = v @ [0]" by simp_all
  obtain d' where d': "dictionary_set_value (\<lambda>_. True) (Some d) (Some (k @ [0])) (length k + 1) (Some (v @ [0])) (length v + 1) = Some (Some d')"
    "dict_wf d'" "dict_map d' = (dict_map d)(k @ [0] \<mapsto> Owned (v @ [0]))"
  proof (cases "k @ [0] \<in> dom (dict_map d)")
    case True
    then show ?thesis using set_existing(1) [OF d(2) n(1,2) _ n(4,5), of "\<lambda>_. True"] n(3,6) that by auto
  next
    case False
    then show ?thesis using set_new(1) [OF d(2) n(1,2) _ _ n(4,5), of "\<lambda>_. True"] n(3,6) that by auto
  qed
  have "dict_map d' = headers_enc (H(k \<mapsto> v))" using d'(3) d(3) by (simp add: headers_enc_update)
  moreover have "headers_ok (H(k \<mapsto> v))" using d(4) assms(2,3) by (simp add: headers_ok_def)
  ultimately show ?thesis using d(1) d'(1,2) by (auto simp: dict_headers_def)
qed

section \<open>The grammar of a message\<close>

text \<open>The first line.\<close>

definition is_status_line :: "byte list \<Rightarrow> bool" where
  "is_status_line f = (take 5 f = bytes_of ''HTTP/'' \<or> take 4 f = bytes_of ''SIP/'')"

definition protocol_of :: "byte list \<Rightarrow> abnf_protcol_usage_t" where
  "protocol_of v =
     (if take 5 v = bytes_of ''HTTP/'' then ABNF_PROTOCOL_USAGE_HTTP
      else if take 4 v = bytes_of ''SIP/'' then ABNF_PROTOCOL_USAGE_SIP else ABNF_PROTOCOL_USAGE_UNKNOWN)"

definition start_of :: "byte list \<Rightarrow> (abnf_protcol_usage_t \<times> abnf_msg) option" where
  "start_of t =
     (case str_tok [32] t of
        (Some f, r1) \<Rightarrow>
          (case str_tok [32] r1 of
             (Some s, th) \<Rightarrow>
               if th = [] then None
               else if is_status_line f
               then Some (protocol_of f, empty_msg\<lparr>am_protocol_version := f, am_status_code := s, am_reason_phrase := th\<rparr>)
               else Some (protocol_of th, empty_msg\<lparr>am_method := f, am_request_uri := s, am_protocol_version := th\<rparr>)
           | _ \<Rightarrow> None)
      | _ \<Rightarrow> None)"

lemma str_tok_parts:
  "str_tok ds t = (Some f, r) \<Longrightarrow> f \<noteq> [] \<and> set f \<subseteq> set t \<and> set r \<subseteq> set t \<and> length f \<le> length t \<and> length r \<le> length t"
proof -
  assume a: "str_tok ds t = (Some f, r)"
  define u where "u = dropWhile (\<lambda>c. c \<in> set ds) t"
  have u: "u \<noteq> []" "f = takeWhile (\<lambda>c. c \<notin> set ds) u" "r = drop 1 (dropWhile (\<lambda>c. c \<notin> set ds) u)"
    using a by (auto simp: str_tok_def u_def Let_def split: if_splits)
  have "hd u \<notin> set ds" using hd_dropWhile [of "\<lambda>c. c \<in> set ds" t] u(1) by (simp add: u_def)
  then have "f \<noteq> []" using u(1,2) by (cases u) auto
  moreover have "set u \<subseteq> set t" "length u \<le> length t"
    using set_dropWhileD [of _ "\<lambda>c. c \<in> set ds" t] length_dropWhile_le [of "\<lambda>c. c \<in> set ds" t] by (auto simp: u_def)
  moreover have "set f \<subseteq> set u" "set r \<subseteq> set u" using u(2,3) by (auto dest!: set_takeWhileD in_set_dropD set_dropWhileD)
  moreover have "length f \<le> length u" "length r \<le> length u"
    using u(2,3) length_takeWhile_le [of "\<lambda>c. c \<notin> set ds" u] length_dropWhile_le [of "\<lambda>c. c \<notin> set ds" u] by auto
  ultimately show ?thesis by auto
qed

lemma str_tok_rest: "str_tok [] r = (if r = [] then (None, []) else (Some r, []))"
proof -
  have d: "takeWhile (\<lambda>c. True) r = r" "dropWhile (\<lambda>c. True) r = []" "dropWhile (\<lambda>c. False) r = r"
    by (simp_all add: takeWhile_eq_all_conv dropWhile_eq_Nil_conv)
  show ?thesis by (simp add: str_tok_def Let_def d)
qed

lemma begins_text:
  "0 \<notin> set t \<Longrightarrow> str_begins (t @ [0]) ''HTTP/'' = Some (take 5 t = bytes_of ''HTTP/'')"
  "0 \<notin> set t \<Longrightarrow> str_begins (t @ [0]) ''SIP/'' = Some (take 4 t = bytes_of ''SIP/'')"
  by (simp_all add: str_begins_def numeral_eq_Suc)

lemma detect_text: "0 \<notin> set t \<Longrightarrow> abnf_detect_protocol_from_version (Some (t @ [0])) = Some (protocol_of t)"
  by (simp add: abnf_detect_protocol_from_version_def begins_text protocol_of_def)

lemma start_line_parses:
  assumes "abnf_rep ps m empty_msg" "c_string l = Some t" "length t \<le> SIZE_MAX div 2"
  shows "case start_of t of
      None \<Rightarrow> abnf_parse_start_line ps (\<lambda>_. True) (Some m) (Some l) = Some (False, Some m)
    | Some (pr, a) \<Rightarrow> \<exists>m'. abnf_parse_start_line ps (\<lambda>_. True) (Some m) (Some l) = Some (True, Some m') \<and> abnf_rep ps m' a \<and> ab_protocol m' = pr \<and>
        am_headers a = Map.empty \<and> am_body a = []"
proof -
  obtain r where l: "l = t @ 0 # r" "0 \<notin> set t" using assms(2) by (rule c_stringE)
  have pre: "str_len l = Some (length t)" "abnf_strndup_local True l (length t) = Some (Some (t @ [0]))" "c_string (t @ [0]) = Some t"
    using assms(2) l strndup_text [of t "0 # r"] by (simp_all add: str_len_def)
  obtain f' r1 where t1: "str_tok [32] t = (f', r1)" by (cases "str_tok [32] t")
  obtain s' th where t2: "str_tok [32] r1 = (s', th)" by (cases "str_tok [32] r1")
  note run = abnf_parse_start_line_def pre t1 t2 Let_def str_tok_rest
  show ?thesis
  proof (cases "f' = None \<or> s' = None")
    case True
    then have "start_of t = None" using t1 t2 by (cases f'; cases s') (simp_all add: start_of_def)
    moreover have "abnf_parse_start_line ps (\<lambda>_. True) (Some m) (Some l) = Some (False, Some m)"
      using True by (cases "th = []"; cases f'; cases s') (simp_all add: run)
    ultimately show ?thesis by simp
  next
    case False
    then obtain f s where fs: "f' = Some f" "s' = Some s" by auto
    have p1: "f \<noteq> []" "set f \<subseteq> set t" "set r1 \<subseteq> set t" "length f \<le> length t" "length r1 \<le> length t"
      using str_tok_parts [of "[32]" t f r1] t1 fs by auto
    have p2: "s \<noteq> []" "set s \<subseteq> set r1" "set th \<subseteq> set r1" "length s \<le> length r1" "length th \<le> length r1"
      using str_tok_parts [of "[32]" r1 s th] t2 fs by auto
    have z: "0 \<notin> set f" "0 \<notin> set s" "0 \<notin> set th" using p1 p2 l(2) by auto
    have n: "length f \<le> SIZE_MAX div 2" "length s \<le> SIZE_MAX div 2" "length th \<le> SIZE_MAX div 2" using p1 p2 assms(3) by linarith+
    note b = begins_text [OF z(1)] detect_text [OF z(1)] detect_text [OF z(3)]
    show ?thesis
    proof (cases "th = []")
      case True
      then show ?thesis using t1 t2 fs by (simp add: run start_of_def b)
    next
      case ne: False
      show ?thesis
      proof (cases "is_status_line f")
        case True
        obtain q1 q2 q3 where q: "abnf_assign_string_field ps True (ab_protocol_version m) (Some (f @ [0])) = Some (q1, True)" "string_rep ps q1 f"
          "abnf_assign_string_field ps True (ab_status_code m) (Some (s @ [0])) = Some (q2, True)" "string_rep ps q2 s"
          "abnf_assign_string_field ps True (ab_reason_phrase m) (Some (th @ [0])) = Some (q3, True)" "string_rep ps q3 th"
          using assign_field [OF _ z(1) p1(1) n(1)] assign_field [OF _ z(2) p2(1) n(2)] assign_field [OF _ z(3) ne n(3)] assms(1)
          unfolding abnf_rep_def by metis
        have "abnf_rep ps (m\<lparr>ab_protocol_version := q1, ab_status_code := q2, ab_reason_phrase := q3, ab_protocol := protocol_of f\<rparr>)
           (empty_msg\<lparr>am_protocol_version := f, am_status_code := s, am_reason_phrase := th\<rparr>)"
          using assms(1) q by (simp add: abnf_rep_def)
        then show ?thesis using t1 t2 fs ne True q(1,3,5)
          by (auto simp: run start_of_def b is_status_line_def empty_msg_def)
      next
        case False
        obtain q1 q2 q3 where q: "abnf_assign_string_field ps True (ab_method m) (Some (f @ [0])) = Some (q1, True)" "string_rep ps q1 f"
          "abnf_assign_string_field ps True (ab_request_uri m) (Some (s @ [0])) = Some (q2, True)" "string_rep ps q2 s"
          "abnf_assign_string_field ps True (ab_protocol_version m) (Some (th @ [0])) = Some (q3, True)" "string_rep ps q3 th"
          using assign_field [OF _ z(1) p1(1) n(1)] assign_field [OF _ z(2) p2(1) n(2)] assign_field [OF _ z(3) ne n(3)] assms(1)
          unfolding abnf_rep_def by metis
        have "abnf_rep ps (m\<lparr>ab_method := q1, ab_request_uri := q2, ab_protocol_version := q3, ab_protocol := protocol_of th\<rparr>)
           (empty_msg\<lparr>am_method := f, am_request_uri := s, am_protocol_version := th\<rparr>)"
          using assms(1) q by (simp add: abnf_rep_def)
        then show ?thesis using t1 t2 fs ne False q(1,3,5)
          by (auto simp: run start_of_def b is_status_line_def empty_msg_def)
      qed
    qed
  qed
qed

text \<open>A header line, and the lines of a block of at most \<open>n\<close> characters.\<close>

definition header_of :: "byte list \<Rightarrow> (byte list \<times> byte list) option" where
  "header_of l =
     (let k = abnf_trim_view (takeWhile (\<lambda>c. c \<noteq> 58) l); v = abnf_trim_view (drop 1 (dropWhile (\<lambda>c. c \<noteq> 58) l))
      in if 58 \<in> set l \<and> k \<noteq> [] then Some (k, v) else None)"

definition add_header :: "byte list \<Rightarrow> (byte list \<rightharpoonup> byte list) \<Rightarrow> byte list \<rightharpoonup> byte list" where
  "add_header l H = (case header_of l of None \<Rightarrow> H | Some (k, v) \<Rightarrow> H(k \<mapsto> v))"

function block_lines :: "nat \<Rightarrow> byte list \<Rightarrow> byte list list" where
  "block_lines n t =
     (if n = 0 then []
      else (case str_find crlf t of
              None \<Rightarrow> []
            | Some k \<Rightarrow> if k > n \<or> k = 0 then [] else take k t # block_lines (n - (k + 2)) (drop (k + 2) t)))"
  by pat_completeness auto
termination by (relation "measure fst") auto

declare block_lines.simps [simp del]

definition parse_of :: "bool \<Rightarrow> byte list \<Rightarrow> (abnf_protcol_usage_t \<times> abnf_msg) option" where
  "parse_of with_body t =
     (case str_find crlf t of
        None \<Rightarrow> None
      | Some n \<Rightarrow>
        (case start_of (take n t) of
           None \<Rightarrow> None
         | Some (pr, a) \<Rightarrow>
           let rest = drop (n + 2) t
           in (case str_find (crlf @ crlf) rest of
                 Some k \<Rightarrow> Some (pr, a\<lparr>am_headers := fold add_header (block_lines k rest) Map.empty,
                                    am_body := (if with_body then drop (k + 4) rest else [])\<rparr>)
               | None \<Rightarrow> Some (pr, a\<lparr>am_headers := fold add_header (block_lines (length rest) rest) Map.empty\<rparr>))))"

lemma trim_set: "set (abnf_trim_view v) \<subseteq> set v"
  by (auto simp: abnf_trim_view_def dest!: set_dropWhileD)

lemma trim_length: "length (abnf_trim_view v) \<le> length v"
  using length_dropWhile_le [of is_space v] length_dropWhile_le [of is_space "rev (dropWhile is_space v)"] by (simp add: abnf_trim_view_def)

lemma header_line_adds:
  assumes "dict_headers p H" "0 \<notin> set l"
  shows "\<exists>q. abnf_header_line (\<lambda>_. True) l p = Some (True, q) \<and> dict_headers q (add_header l H)"
proof -
  let ?k = "abnf_trim_view (takeWhile (\<lambda>c. c \<noteq> 58) l)" and ?v = "abnf_trim_view (drop 1 (dropWhile (\<lambda>c. c \<noteq> 58) l))"
  show ?thesis
  proof (cases "58 \<in> set l \<and> ?k \<noteq> []")
    case True
    have z: "0 \<notin> set ?k" "0 \<notin> set ?v"
      using trim_set [of "takeWhile (\<lambda>c. c \<noteq> 58) l"] trim_set [of "drop 1 (dropWhile (\<lambda>c. c \<noteq> 58) l)"] assms(2)
      by (auto dest: set_takeWhileD in_set_dropD set_dropWhileD)
    obtain q where q: "dictionary_set_value (\<lambda>_. True) p (Some (?k @ [0])) (length ?k + 1) (Some (?v @ [0])) (length ?v + 1) = Some q"
      "dict_headers q (H(?k \<mapsto> ?v))"
      using set_header [OF assms(1) z] by blast
    moreover have "str_len (?k @ [0]) = Some (length ?k)" "str_len (?v @ [0]) = Some (length ?v)" using z by (simp_all add: str_len_def)
    moreover have "abnf_strndup_local True ?k (length ?k) = Some (Some (?k @ [0]))" "abnf_strndup_local True ?v (length ?v) = Some (Some (?v @ [0]))"
      using strndup_text [of ?k "[]"] strndup_text [of ?v "[]"] by simp_all
    ultimately have "abnf_header_line (\<lambda>_. True) l p = Some (True, q)" using True by (simp add: abnf_header_line_def Let_def)
    moreover have "add_header l H = H(?k \<mapsto> ?v)" using True by (simp add: add_header_def header_of_def Let_def)
    ultimately show ?thesis using q(2) by simp
  next
    case False
    then have "abnf_header_line (\<lambda>_. True) l p = Some (True, p)" "add_header l H = H"
      by (auto simp: abnf_header_line_def add_header_def header_of_def Let_def)
    then show ?thesis using assms(1) by simp
  qed
qed

lemma headers_loop_adds:
  "dict_headers p H \<Longrightarrow> 0 \<notin> set t \<Longrightarrow> cursor \<le> length t \<Longrightarrow> n \<le> length t \<Longrightarrow>
    \<exists>q. abnf_headers_loop (\<lambda>_ _. True) i (t @ [0]) n cursor p = Some (True, q) \<and>
      dict_headers q (fold add_header (block_lines (n - cursor) (drop cursor t)) H)"
proof (induction "n - cursor" arbitrary: cursor i p H rule: less_induct)
  case less
  show ?case
  proof (cases "cursor < n")
    case False
    then show ?thesis using less.prems by (subst abnf_headers_loop.simps, subst block_lines.simps) simp
  next
    case True
    let ?u = "drop cursor t"
    have "0 \<notin> set ?u" using less.prems(2) by (auto dest: in_set_dropD)
    then have c: "c_string (drop cursor (t @ [0])) = Some ?u" using less.prems(3) by simp
    show ?thesis
    proof (cases "str_find crlf ?u")
      case None
      then show ?thesis using less.prems True c
        by (subst abnf_headers_loop.simps, subst block_lines.simps) (simp add: crlf_def)
    next
      case (Some k)
      show ?thesis
      proof (cases "k > n - cursor \<or> k = 0")
        case stop: True
        then have "cursor + k > n \<or> k = 0" using True by auto
        then show ?thesis using less.prems True c Some stop
          by (subst abnf_headers_loop.simps, subst block_lines.simps) (auto simp: crlf_def)
      next
        case False
        then have k: "0 < k" "cursor + k \<le> n" using True by auto
        have fin: "cursor + k + 2 \<le> length t" using str_find_bound [OF Some] less.prems(3) by (simp add: crlf_def)
        obtain q where q: "abnf_header_line (\<lambda>_. True) (take k ?u) p = Some (True, q)" "dict_headers q (add_header (take k ?u) H)"
          using header_line_adds [OF less.prems(1), of "take k ?u"] less.prems(2) by (auto dest: in_set_takeD in_set_dropD)
        have lines: "block_lines (n - cursor) ?u = take k ?u # block_lines (n - (cursor + k + 2)) (drop (cursor + k + 2) t)"
          using True False Some by (subst block_lines.simps) (simp add: add.commute add.left_commute)
        have smaller: "n - (cursor + k + 2) < n - cursor" using True by arith
        obtain q' where q': "abnf_headers_loop (\<lambda>_ _. True) (i + 1) (t @ [0]) n (cursor + k + 2) q = Some (True, q')"
          "dict_headers q' (fold add_header (block_lines (n - (cursor + k + 2)) (drop (cursor + k + 2) t)) (add_header (take k ?u) H))"
          using less.hyps [OF smaller q(2) less.prems(2) fin less.prems(4), of "i + 1"] by blast
        have "abnf_headers_loop (\<lambda>_ _. True) i (t @ [0]) n cursor p = Some (True, q')"
          using less.prems True c Some k q(1) q'(1) by (subst abnf_headers_loop.simps) (simp add: crlf_def)
        then show ?thesis using q'(2) lines by simp
      qed
    qed
  qed
qed

lemma abnf_allocate_rep:
  assumes "0 < ps" "ps \<le> SIZE_MAX div 4"
  shows "\<exists>m. abnf_allocate ps (\<lambda>_. True) = Some (Some m) \<and> abnf_rep ps m empty_msg \<and>
    ab_protocol m = ABNF_PROTOCOL_USAGE_UNKNOWN \<and> \<not> ab_is_valid m"
proof -
  have s: "string_rep ps (string_allocate_default ps True True) []" by (rule string_allocate_empty_rep(1) [OF assms])
  have b: "buffer_rep (buffer_allocate_default (int ps) True True) []"
    by (rule buffer_allocate_default_rep) (use assms(2) in \<open>simp add: SIZE_MAX_def LONG_MAX_def\<close>)
  have d: "dict_headers (dictionary_allocate True) Map.empty" by (simp add: dict_headers_def empty_wf headers_ok_def)
  obtain x y z where "string_allocate_default ps True True = Some x" "buffer_allocate_default (int ps) True True = Some y" "dictionary_allocate True = Some z"
    using s b d by (auto simp: string_rep_def buffer_rep_def dict_headers_def)
  then show ?thesis using s b d by (simp add: abnf_allocate_def Let_def abnf_rep_def empty_msg_def)
qed

lemma free_rep: "abnf_rep ps m a \<Longrightarrow> abnf_free (Some m) = Some None"
  by (auto simp: abnf_free_def abnf_rep_def dict_headers_def dictionary_free_def dict_wf_def free_buckets)

lemma abnf_rep_updates [simp]:
  "abnf_rep ps (m\<lparr>ab_is_valid := b\<rparr>) a = abnf_rep ps m a"
  "abnf_rep ps (m\<lparr>ab_protocol := pr\<rparr>) a = abnf_rep ps m a"
  by (simp_all add: abnf_rep_def)

lemma headers_block_adds:
  assumes "abnf_rep ps m a" "am_headers a = Map.empty" "0 \<notin> set t" "n \<le> length t"
  shows "\<exists>m'. abnf_parse_headers_block (\<lambda>_ _. True) (Some m) (Some (t @ [0])) n = Some (True, Some m') \<and>
    abnf_rep ps m' (a\<lparr>am_headers := fold add_header (block_lines n t) Map.empty\<rparr>) \<and> ab_protocol m' = ab_protocol m"
proof -
  have d: "dict_headers (ab_headers m) Map.empty" using assms(1,2) by (simp add: abnf_rep_def)
  obtain q where "abnf_headers_loop (\<lambda>_ _. True) 0 (t @ [0]) n 0 (ab_headers m) = Some (True, q)"
    "dict_headers q (fold add_header (block_lines n t) Map.empty)"
    using headers_loop_adds [OF d assms(3) _ assms(4), of 0 0] by auto
  then show ?thesis using assms(1) by (auto simp: abnf_parse_headers_block_def abnf_rep_def)
qed

lemma take_body_takes:
  assumes "abnf_rep ps m a" "am_body a = []" "length t \<le> SIZE_MAX div 2"
  shows "\<exists>m'. abnf_take_body ps (\<lambda>_. True) (Some m) (t @ [0]) (length t) = Some (Some m') \<and> abnf_rep ps m' (a\<lparr>am_body := t\<rparr>) \<and>
    ab_protocol m' = ab_protocol m"
proof (cases "t = []")
  case True
  then show ?thesis using assms(1,2) by (simp add: abnf_take_body_def) (metis abnf_msg.surjective abnf_msg.update_convs(7))
next
  case False
  have b: "buffer_rep (ab_body m) []" using assms(1,2) by (simp add: abnf_rep_def)
  obtain q where "buffer_append (int ps) True True (ab_body m) (Some (t @ [0])) (length t) = Some (q, True)" "buffer_rep q t"
    using buffer_append_rep [OF b, of "length t" "t @ [0]" "int ps" True True] False assms(3) by auto
  then show ?thesis using assms(1) False by (simp add: abnf_take_body_def abnf_rep_def)
qed

lemma parse_internal_parses:
  assumes "string_rep ps p t" "t \<noteq> []" "length t \<le> SIZE_MAX div 2"
  shows "case parse_of wb t of
      None \<Rightarrow> abnf_parse_internal ps (\<lambda>_ _. True) p wb = Some None
    | Some (pr, a) \<Rightarrow> \<exists>m. abnf_parse_internal ps (\<lambda>_ _. True) p wb = Some (Some m) \<and> abnf_rep ps m a \<and> ab_protocol m = pr \<and> ab_is_valid m"
proof -
  obtain s k where s: "p = Some s" "st_data s = Some (t @ replicate k 0)" "st_data_size s = length t" "0 < ps" "ps \<le> SIZE_MAX div 4" "0 \<notin> set t"
    using assms(1) by (rule string_repE)
  obtain m0 where m0: "abnf_allocate ps (\<lambda>_. True) = Some (Some m0)" "abnf_rep ps m0 empty_msg" using abnf_allocate_rep [OF s(4,5)] by blast
  have free: "abnf_free (Some m0) = Some None" by (rule free_rep [OF m0(2)])
  note start = s(1-3) assms(2) m0(1) free strndup_text [of t "replicate k 0"] c_string_end [OF s(6)]
  note run = abnf_parse_internal_def string_c_str_def string_get_length_def
  show ?thesis
  proof (cases "str_find crlf t")
    case None
    then show ?thesis using start by (simp add: run parse_of_def crlf_def)
  next
    case (Some n)
    have n: "n + 2 \<le> length t" using str_find_bound [OF Some] by (simp add: crlf_def)
    define w where "w = (t @ [0])[n := 0]"
    have w: "mem_write (t @ [0]) n 0 = Some w" using n by (simp add: w_def)
    have ct: "c_string w = Some (take n t)"
    proof -
      have "w = take n t @ 0 # drop (Suc n) (t @ [0])" using n by (simp add: w_def upd_conv_take_nth_drop)
      moreover have "0 \<notin> set (take n t)" using s(6) by (auto dest: in_set_takeD)
      ultimately show ?thesis using c_string_exact by simp
    qed
    have rest: "drop j w = drop j t @ [0]" if "n + 2 \<le> j" "j \<le> length t" for j using n that by (simp add: w_def)
    define r where "r = drop (n + 2) t"
    have rz: "0 \<notin> set (drop (n + 2) t)" using s(6) by (auto dest: in_set_dropD)
    have r: "drop (n + 2) w = r @ [0]" "0 \<notin> set r" "c_string (r @ [0]) = Some r" "length r = length t - (n + 2)"
      using rest [of "n + 2"] n rz by (simp_all add: r_def)
    have ln: "length (take n t) \<le> SIZE_MAX div 2" using assms(3) by simp
    note sl = start_line_parses [OF m0(2) ct ln]
    show ?thesis
    proof (cases "start_of (take n t)")
      case none: None
      then have "abnf_parse_start_line ps (\<lambda>_. True) (Some m0) (Some w) = Some (False, Some m0)" using sl by simp
      then show ?thesis using start Some w none by (simp add: run parse_of_def crlf_def)
    next
      case st: (Some pa)
      obtain pr a where pa: "pa = (pr, a)" by (cases pa)
      obtain m1 where m1: "abnf_parse_start_line ps (\<lambda>_. True) (Some m0) (Some w) = Some (True, Some m1)" "abnf_rep ps m1 a"
        "ab_protocol m1 = pr" "am_headers a = Map.empty" "am_body a = []"
        using sl st pa by auto
      show ?thesis
      proof (cases "str_find (crlf @ crlf) r")
        case none: None
        obtain m2 where m2: "abnf_parse_headers_block (\<lambda>_ _. True) (Some m1) (Some (r @ [0])) (length r) = Some (True, Some m2)"
          "abnf_rep ps m2 (a\<lparr>am_headers := fold add_header (block_lines (length r) r) Map.empty\<rparr>)" "ab_protocol m2 = pr"
          using headers_block_adds [OF m1(2,4) r(2) order_refl] m1(3) by auto
        have "abnf_parse_internal ps (\<lambda>_ _. True) p wb = Some (Some (m2\<lparr>ab_is_valid := True\<rparr>))"
          using start Some w m1(1) r none m2(1) by (simp add: run crlf_def)
        moreover have "parse_of wb t = Some (pr, a\<lparr>am_headers := fold add_header (block_lines (length r) r) Map.empty\<rparr>)"
          using Some st pa none by (simp add: parse_of_def r_def Let_def)
        ultimately show ?thesis using m2(2,3) by simp
      next
        case hd: (Some j)
        have j: "j + 4 \<le> length r" using str_find_bound [OF hd] by (simp add: crlf_def)
        obtain m2 where m2: "abnf_parse_headers_block (\<lambda>_ _. True) (Some m1) (Some (r @ [0])) j = Some (True, Some m2)"
          "abnf_rep ps m2 (a\<lparr>am_headers := fold add_header (block_lines j r) Map.empty\<rparr>)" "ab_protocol m2 = pr"
          using headers_block_adds [OF m1(2,4) r(2), of j] j m1(3) by auto
        have body: "drop (n + 2 + j + 4) w = drop (j + 4) r @ [0]" "length t - (n + 2 + j + 4) = length (drop (j + 4) r)" "n + 2 + j + 4 \<le> length t"
        proof -
          show fit: "n + 2 + j + 4 \<le> length t" using j r(4) n by simp
          have "drop (n + 2 + j + 4) t = drop (j + 4) r" unfolding r_def drop_drop by (rule arg_cong [of _ _ "\<lambda>i. drop i t"]) simp
          then show "drop (n + 2 + j + 4) w = drop (j + 4) r @ [0]" using rest [OF _ fit] by simp
          show "length t - (n + 2 + j + 4) = length (drop (j + 4) r)" using r(4) by simp
        qed
        have "length (drop (j + 4) r) \<le> length t" using r(4) by simp
        then have short: "length (drop (j + 4) r) \<le> SIZE_MAX div 2" using assms(3) by (rule order_trans)
        obtain m3 where m3: "abnf_take_body ps (\<lambda>_. True) (Some m2) (drop (j + 4) r @ [0]) (length (drop (j + 4) r)) = Some (Some m3)"
          "abnf_rep ps m3 (a\<lparr>am_headers := fold add_header (block_lines j r) Map.empty, am_body := drop (j + 4) r\<rparr>)" "ab_protocol m3 = pr"
          using take_body_takes [OF m2(2) _ short] m1(5) m2(3) by auto
        have spec: "parse_of wb t = Some (pr, a\<lparr>am_headers := fold add_header (block_lines j r) Map.empty,
            am_body := (if wb then drop (j + 4) r else [])\<rparr>)"
          using Some st pa hd by (simp add: parse_of_def r_def Let_def)
        note go = start Some w m1(1) r(1,3) hd m2(1) body m3(1)
        show ?thesis
        proof (cases wb)
          case True
          have "abnf_parse_internal ps (\<lambda>_ _. True) p wb = Some (Some (m3\<lparr>ab_is_valid := True\<rparr>))"
            using go True by (simp only: run crlf_def append_Cons append_Nil) (simp add: Let_def)
          then show ?thesis using spec m3(2,3) True by simp
        next
          case False
          have "abnf_parse_internal ps (\<lambda>_ _. True) p wb = Some (Some (m2\<lparr>ab_is_valid := True\<rparr>))"
            using go False by (simp add: run crlf_def Let_def)
          moreover have "a\<lparr>am_headers := H, am_body := []\<rparr> = a\<lparr>am_headers := H\<rparr>" for H using m1(5) by simp
          ultimately show ?thesis using spec m2(2,3) False by simp
        qed
      qed
    qed
  qed
qed

section \<open>What is written\<close>

definition header_text :: "byte list \<Rightarrow> byte list \<Rightarrow> byte list" where
  "header_text k v = k @ bytes_of '': '' @ v"

definition headers_text :: "(byte list \<rightharpoonup> byte list) \<Rightarrow> byte list list \<Rightarrow> byte list" where
  "headers_text H ks = concat (map (\<lambda>k. header_text k (the (H k)) @ crlf) ks)"

definition first_text :: "abnf_protcol_usage_t \<Rightarrow> abnf_msg \<Rightarrow> byte list option" where
  "first_text usage a =
     (if usage = ABNF_PROTOCOL_USAGE_HTTP \<or> usage = ABNF_PROTOCOL_USAGE_SIP
      then if am_method a \<noteq> [] \<and> am_request_uri a \<noteq> [] \<and> am_protocol_version a \<noteq> []
           then Some (am_method a @ 32 # am_request_uri a @ 32 # am_protocol_version a)
           else if am_protocol_version a \<noteq> [] \<and> am_status_code a \<noteq> [] \<and> am_reason_phrase a \<noteq> []
           then Some (am_protocol_version a @ 32 # am_status_code a @ 32 # am_reason_phrase a) else None
      else if usage = ABNF_PROTOCOL_USAGE_SMTP \<or> usage = ABNF_PROTOCOL_USAGE_IMAP4
      then if am_method a \<noteq> [] then Some (am_method a @ (if am_request_uri a \<noteq> [] then 32 # am_request_uri a else []))
           else if am_status_code a \<noteq> [] \<and> am_reason_phrase a \<noteq> [] then Some (am_status_code a @ 32 # am_reason_phrase a) else None
      else None)"

definition message_text :: "abnf_protcol_usage_t \<Rightarrow> abnf_msg \<Rightarrow> byte list list \<Rightarrow> byte list option" where
  "message_text usage a ks = map_option (\<lambda>f. f @ crlf @ headers_text (am_headers a) ks @ crlf @ am_body a) (first_text usage a)"

text \<open>
  The serializer reads the fields and the body as C strings.  A string whose length fills its pages has no terminator.
\<close>

definition terminated :: "nat \<Rightarrow> abnf_msg \<Rightarrow> bool" where
  "terminated ps a =
     ((\<forall>f \<in> {am_method a, am_request_uri a, am_protocol_version a, am_status_code a, am_reason_phrase a, am_body a}.
         f = [] \<or> \<not> ps dvd length f) \<and> 0 \<notin> set (am_body a))"

definition key_order :: "abnf_msg \<Rightarrow> byte list list \<Rightarrow> bool" where
  "key_order a ks = (distinct ks \<and> set ks = dom (am_headers a))"

definition fits :: "abnf_protcol_usage_t \<Rightarrow> abnf_msg \<Rightarrow> bool" where
  "fits usage a = (length (am_body a) \<le> SIZE_MAX div 2 \<and>
     (\<forall>ks t. key_order a ks \<longrightarrow> message_text usage a ks = Some t \<longrightarrow> length t \<le> SIZE_MAX div 2))"

definition piece :: "byte list option \<Rightarrow> byte list \<Rightarrow> bool" where
  "piece d t = (\<exists>b. d = Some b \<and> c_string b = Some t)"

lemma pieceI: "c_string b = Some t \<Longrightarrow> piece (Some b) t"
  by (simp add: piece_def)

lemma piece_lit: "piece (lit '' '') [32]" "piece (lit '': '') (bytes_of '': '')" "piece (Some (crlf @ [0])) crlf"
  by (auto simp: piece_def lit_def bytes_of_def c_string_def crlf_def)

lemma field_piece:
  assumes "string_rep ps p xs" "\<not> ps dvd length xs"
  shows "\<exists>d. string_c_str p = Some d \<and> piece d xs"
proof -
  obtain s n where s: "p = Some s" "st_data s = Some (xs @ replicate n 0)" "ps dvd length xs + n" "0 \<notin> set xs"
    using assms(1) by (rule string_repE)
  have "n \<noteq> 0" using s(3) assms(2) by (metis add_0_right)
  then obtain j where "n = Suc j" by (cases n) auto
  then show ?thesis using s by (auto simp: string_c_str_def piece_def c_string_term simp del: replicate_Suc)
qed

lemma append_pieces_appends:
  "string_rep ps r xs \<Longrightarrow> list_all2 piece ds ts \<Longrightarrow> length xs + length (concat ts) \<le> SIZE_MAX div 2 \<Longrightarrow>
    \<exists>q. append_pieces ps (\<lambda>_. True) r ds = Some q \<and> string_rep ps q (xs @ concat ts)"
proof (induction ts arbitrary: ds r xs)
  case (Cons t ts)
  obtain d es where ds: "ds = d # es" "piece d t" "list_all2 piece es ts" using Cons.prems(2) by (auto simp: list_all2_Cons2)
  obtain b where b: "d = Some b" "c_string b = Some t" using ds(2) by (auto simp: piece_def)
  obtain q ok where q: "string_append ps True True r d = Some (q, ok)" "string_rep ps q (xs @ t)"
  proof (cases "t = []")
    case True
    then have "string_append ps True True r d = Some (r, False)" using b by (simp add: string_append_def)
    then show ?thesis using that [of r False] True Cons.prems(1) by simp
  next
    case False
    then show ?thesis using string_append_rep [OF Cons.prems(1) b(2), of True True] Cons.prems(3) b(1) that by auto
  qed
  then show ?case using Cons.IH [OF q(2) ds(3)] Cons.prems(3) ds(1) by auto
qed simp

lemma get_header:
  assumes "dict_headers p H" "H k = Some v"
  shows "dictionary_get_value p (Some ((k @ [0]) @ r)) (length k + 1) = Some (Owned (v @ [0]))"
proof -
  obtain d where d: "p = Some d" "dict_wf d" "dict_map d = headers_enc H" using assms(1) by (auto simp: dict_headers_def)
  have "take (length k + 1) ((k @ [0]) @ r) = k @ [0]" by simp
  moreover have "headers_enc H (k @ [0]) = Some (Owned (v @ [0]))" using assms(2) by (simp add: headers_enc_def)
  ultimately show ?thesis using get_value [OF d(2), of "length k + 1" "(k @ [0]) @ r"] d(1,3) by simp
qed

text \<open>The dictionary holds a key with its terminator, and the table of its keys adds another.\<close>

definition key_cell :: "byte list \<Rightarrow> byte list" where
  "key_cell k = (k @ [0]) @ [0]"

lemma key_cell_text: "0 \<notin> set k \<Longrightarrow> c_string (key_cell k) = Some k"
  using c_string_exact [of k "[0]"] by (simp add: key_cell_def)

lemma append_headers_appends:
  "dict_headers p H \<Longrightarrow> set ks \<subseteq> dom H \<Longrightarrow> string_rep ps r xs \<Longrightarrow> length xs + length (headers_text H ks) \<le> SIZE_MAX div 2 \<Longrightarrow>
    \<exists>q. append_headers ps (\<lambda>_ _. True) r p (map (Some \<circ> key_cell) ks @ [None]) = Some q \<and> string_rep ps q (xs @ headers_text H ks)"
proof (induction ks arbitrary: r xs)
  case Nil
  then show ?case by (simp add: headers_text_def)
next
  case (Cons k ks)
  obtain v where v: "H k = Some v" using Cons.prems(2) by auto
  have z: "0 \<notin> set k" "0 \<notin> set v" using Cons.prems(1) v by (auto simp: dict_headers_def headers_ok_def)
  have get: "dictionary_get_value p (Some (key_cell k)) (length k + 1) = Some (Owned (v @ [0]))"
    unfolding key_cell_def by (rule get_header [OF Cons.prems(1) v])
  define ds where "ds = [Some (key_cell k), lit '': '', Some (v @ [0]), Some (crlf @ [0])]"
  define ts where "ts = [k, bytes_of '': '', v, crlf]"
  have "list_all2 piece ds ts" unfolding ds_def ts_def by (intro list.rel_intros piece_lit pieceI key_cell_text c_string_end z)
  moreover have tx: "headers_text H (k # ks) = concat ts @ headers_text H ks"
    using v by (simp add: headers_text_def header_text_def ts_def)
  moreover have len: "length xs + length (concat ts) + length (headers_text H ks) \<le> SIZE_MAX div 2"
    using Cons.prems(4) by (simp only: tx length_append)
  ultimately obtain q where q: "append_pieces ps (\<lambda>_. True) r ds = Some q" "string_rep ps q (xs @ concat ts)"
    using append_pieces_appends [OF Cons.prems(3)] by (meson add_leD1)
  have sub: "set ks \<subseteq> dom H" using Cons.prems(2) by simp
  have len': "length (xs @ concat ts) + length (headers_text H ks) \<le> SIZE_MAX div 2" using len by (simp only: length_append)
  obtain q' where q': "append_headers ps (\<lambda>_ _. True) q p (map (Some \<circ> key_cell) ks @ [None]) = Some q'"
    "string_rep ps q' ((xs @ concat ts) @ headers_text H ks)"
    using Cons.IH [OF Cons.prems(1) sub q(2) len'] by blast
  have "append_headers ps (\<lambda>_ _. True) r p (map (Some \<circ> key_cell) (k # ks) @ [None]) = Some q'"
    using key_cell_text [OF z(1)] get q(1) q'(1) by (simp add: str_len_def ds_def del: append_pieces.simps)
  then show ?case using q'(2) tx by (simp only: append_assoc) blast
qed

lemma all_filled_reps:
  "list_all2 (string_rep ps) fs xs \<Longrightarrow> all_filled fs = Some (list_all (\<lambda>x. x \<noteq> []) xs)"
  by (induction rule: list_all2_induct) (auto simp: string_get_rep)

lemma first_line_pieces:
  assumes rep: "abnf_rep ps m a" and trm: "terminated ps a"
  shows "case first_text usage a of
      None \<Rightarrow> abnf_first_line m usage = Some None
    | Some f \<Rightarrow> \<exists>pieces ts. abnf_first_line m usage = Some (Some pieces) \<and> list_all2 piece pieces ts \<and> concat ts = f @ crlf"
proof -
  note reps = rep [unfolded abnf_rep_def]
  have fp: "string_rep ps p xs \<Longrightarrow> xs = [] \<or> \<not> ps dvd length xs \<Longrightarrow> \<exists>d. string_c_str p = Some d \<and> (xs \<noteq> [] \<longrightarrow> piece d xs)" for p xs
    using field_piece [of ps p xs] by (cases "xs = []") (auto simp: string_rep_def string_c_str_def)
  have t: "am_method a = [] \<or> \<not> ps dvd length (am_method a)" "am_request_uri a = [] \<or> \<not> ps dvd length (am_request_uri a)"
    "am_protocol_version a = [] \<or> \<not> ps dvd length (am_protocol_version a)"
    "am_status_code a = [] \<or> \<not> ps dvd length (am_status_code a)" "am_reason_phrase a = [] \<or> \<not> ps dvd length (am_reason_phrase a)"
    using trm by (simp_all add: terminated_def)
  have r: "string_rep ps (ab_method m) (am_method a)" "string_rep ps (ab_request_uri m) (am_request_uri a)"
    "string_rep ps (ab_protocol_version m) (am_protocol_version a)" "string_rep ps (ab_status_code m) (am_status_code a)"
    "string_rep ps (ab_reason_phrase m) (am_reason_phrase a)"
    using reps by simp_all
  obtain dm where dm: "string_c_str (ab_method m) = Some dm" "am_method a \<noteq> [] \<longrightarrow> piece dm (am_method a)" using fp [OF r(1) t(1)] by blast
  obtain du where du: "string_c_str (ab_request_uri m) = Some du" "am_request_uri a \<noteq> [] \<longrightarrow> piece du (am_request_uri a)" using fp [OF r(2) t(2)] by blast
  obtain dv where dv: "string_c_str (ab_protocol_version m) = Some dv" "am_protocol_version a \<noteq> [] \<longrightarrow> piece dv (am_protocol_version a)"
    using fp [OF r(3) t(3)] by blast
  obtain dc where dc: "string_c_str (ab_status_code m) = Some dc" "am_status_code a \<noteq> [] \<longrightarrow> piece dc (am_status_code a)" using fp [OF r(4) t(4)] by blast
  obtain dr where dr: "string_c_str (ab_reason_phrase m) = Some dr" "am_reason_phrase a \<noteq> [] \<longrightarrow> piece dr (am_reason_phrase a)" using fp [OF r(5) t(5)] by blast
  note d = dm du dv dc dr
  have n: "string_get_length (ab_method m) = Some (length (am_method a))" "string_get_length (ab_request_uri m) = Some (length (am_request_uri a))"
    "string_get_length (ab_protocol_version m) = Some (length (am_protocol_version a))"
    "string_get_length (ab_status_code m) = Some (length (am_status_code a))" "string_get_length (ab_reason_phrase m) = Some (length (am_reason_phrase a))"
    using r by (simp_all add: string_get_rep)
  note eval = abnf_first_line_def first_text_def d(1,3,5,7,9) n
  have three: "piece x u \<Longrightarrow> piece y v \<Longrightarrow> piece z w \<Longrightarrow>
      \<exists>ts. list_all2 piece [x, lit '' '', y, lit '' '', z, Some (crlf @ [0])] ts \<and> concat ts = (u @ 32 # v @ 32 # w) @ crlf" for x y z u v w
    by (rule exI [of _ "[u, [32], v, [32], w, crlf]"]) (simp add: piece_lit)
  have two: "piece x u \<Longrightarrow> piece y v \<Longrightarrow>
      \<exists>ts. list_all2 piece [x, lit '' '', y, Some (crlf @ [0])] ts \<and> concat ts = (u @ 32 # v) @ crlf" for x y u v
    by (rule exI [of _ "[u, [32], v, crlf]"]) (simp add: piece_lit)
  have one: "piece x u \<Longrightarrow> \<exists>ts. list_all2 piece [x, Some (crlf @ [0])] ts \<and> concat ts = u @ crlf" for x u
    by (rule exI [of _ "[u, crlf]"]) (simp add: piece_lit)
  consider "usage = ABNF_PROTOCOL_USAGE_HTTP \<or> usage = ABNF_PROTOCOL_USAGE_SIP"
    | "usage = ABNF_PROTOCOL_USAGE_SMTP \<or> usage = ABNF_PROTOCOL_USAGE_IMAP4" | "usage = ABNF_PROTOCOL_USAGE_UNKNOWN"
    by (cases usage) auto
  then show ?thesis
  proof cases
    case 1
    consider (request) "am_method a \<noteq> []" "am_request_uri a \<noteq> []" "am_protocol_version a \<noteq> []"
      | (response) "am_method a = [] \<or> am_request_uri a = []" "am_protocol_version a \<noteq> []" "am_status_code a \<noteq> []" "am_reason_phrase a \<noteq> []"
      | (neither) "am_method a = [] \<or> am_request_uri a = [] \<or> am_protocol_version a = []"
          "am_protocol_version a = [] \<or> am_status_code a = [] \<or> am_reason_phrase a = []"
      by blast
    then show ?thesis
    proof cases
      case request
      then show ?thesis using 1 three [of dm "am_method a" du "am_request_uri a" dv "am_protocol_version a"] d(2,4,6) by (auto simp: eval)
    next
      case response
      then show ?thesis using 1 three [of dv "am_protocol_version a" dc "am_status_code a" dr "am_reason_phrase a"] d(6,8,10) by (auto simp: eval)
    next
      case neither
      then show ?thesis using 1 by (auto simp: eval)
    qed
  next
    case 2
    consider (command) "am_method a \<noteq> []" "am_request_uri a = []" | (arguments) "am_method a \<noteq> []" "am_request_uri a \<noteq> []"
      | (response) "am_method a = []" "am_status_code a \<noteq> []" "am_reason_phrase a \<noteq> []"
      | (neither) "am_method a = []" "am_status_code a = [] \<or> am_reason_phrase a = []"
      by blast
    then show ?thesis
    proof cases
      case command
      then show ?thesis using 2 one [of dm "am_method a"] d(2) by (auto simp: eval)
    next
      case arguments
      then show ?thesis using 2 two [of dm "am_method a" du "am_request_uri a"] d(2,4) by (auto simp: eval)
    next
      case response
      then show ?thesis using 2 two [of dc "am_status_code a" dr "am_reason_phrase a"] d(8,10) by (auto simp: eval)
    next
      case neither
      then show ?thesis using 2 by (auto simp: eval)
    qed
  next
    case 3
    then show ?thesis by (simp add: eval)
  qed
qed

lemma keys_of:
  assumes "dict_headers (Some d) H"
  shows "\<exists>ks. dictionary_get_all_keys (\<lambda>_. True) (Some d) = Some (Some (map (Some \<circ> key_cell) ks @ [None])) \<and> distinct ks \<and> set ks = dom H \<and>
    dictionary_free_key_list (Some d) (Some (map (Some \<circ> key_cell) ks @ [None])) = Some (length ks)"
proof -
  have d: "dict_wf d" "dict_map d = headers_enc H" using assms by (auto simp: dict_headers_def)
  obtain js where js: "dictionary_get_all_keys (\<lambda>_. True) (Some d) = Some (Some (map (\<lambda>k. Some (k @ [0])) js @ [None]))"
    "distinct js" "set js = dom (dict_map d)" "dictionary_free_key_list (Some d) (Some (map (\<lambda>k. Some (k @ [0])) js @ [None])) = Some (length js)"
    using dictionary_lists_keys [OF d(1), of "\<lambda>_. True"] by auto
  define ks where "ks = map butlast js"
  have "\<forall>j \<in> set js. \<exists>k. j = k @ [0]" using js(3) d(2) by (auto simp: headers_enc_dom)
  then have jk: "js = map (\<lambda>k. k @ [0]) ks" unfolding ks_def by (simp add: map_idI) (rule map_idI [symmetric], auto)
  have "distinct ks" using js(2) by (simp add: jk distinct_map)
  moreover have "set ks = dom H"
  proof -
    have "(\<lambda>k. k @ [0]) ` set ks = (\<lambda>k. k @ [0 :: byte]) ` dom H" using js(3) d(2) by (simp add: jk headers_enc_dom)
    then show ?thesis by (simp add: inj_image_eq_iff inj_on_def)
  qed
  moreover have "map (\<lambda>k. Some (k @ [0])) js = map (Some \<circ> key_cell) ks" by (simp add: jk key_cell_def)
  ultimately show ?thesis using js(1,4) by (metis jk length_map)
qed

lemma serialize_writes:
  assumes rep: "abnf_rep ps m a" and valid: "ab_is_valid m" and trm: "terminated ps a" and fit: "fits usage a"
  shows "case first_text usage a of
      None \<Rightarrow> abnf_serialize ps (\<lambda>_ _. True) (Some m) usage = Some None
    | Some f \<Rightarrow> \<exists>ks q. abnf_serialize ps (\<lambda>_ _. True) (Some m) usage = Some q \<and> key_order a ks \<and>
        string_rep ps q (f @ crlf @ headers_text (am_headers a) ks @ crlf @ am_body a)"
proof -
  have ps: "0 < ps" "ps \<le> SIZE_MAX div 4" using rep by (auto simp: abnf_rep_def string_rep_def)
  obtain r0 where r0: "string_allocate_default ps True True = Some r0" "string_rep ps (Some r0) []"
    using string_allocate_empty_rep(1) [OF ps] by (auto simp: string_rep_def)
  note line = first_line_pieces [OF rep trm, of usage]
  show ?thesis
  proof (cases "first_text usage a")
    case None
    then show ?thesis using line r0(1) valid by (simp add: abnf_serialize_def string_free_def)
  next
    case (Some f)
    obtain pieces ts where ft: "abnf_first_line m usage = Some (Some pieces)" "list_all2 piece pieces ts" "concat ts = f @ crlf"
      using line Some by auto
    obtain d where d: "ab_headers m = Some d" "dict_headers (Some d) (am_headers a)" using rep by (auto simp: abnf_rep_def dict_headers_def)
    obtain ks where ks: "dictionary_get_all_keys (\<lambda>_. True) (Some d) = Some (Some (map (Some \<circ> key_cell) ks @ [None]))" "distinct ks"
      "set ks = dom (am_headers a)" "dictionary_free_key_list (Some d) (Some (map (Some \<circ> key_cell) ks @ [None])) = Some (length ks)"
      using keys_of [OF d(2)] by blast
    let ?h = "headers_text (am_headers a) ks"
    have "message_text usage a ks = Some (f @ crlf @ ?h @ crlf @ am_body a)" using Some by (simp add: message_text_def)
    then have len: "length (f @ crlf @ ?h @ crlf @ am_body a) \<le> SIZE_MAX div 2" using fit ks(2,3) unfolding fits_def key_order_def by blast
    obtain r1 where r1: "append_pieces ps (\<lambda>_. True) (Some r0) pieces = Some r1" "string_rep ps r1 (f @ crlf)"
      using append_pieces_appends [OF r0(2) ft(2)] ft(3) len by auto
    obtain r2 where r2: "append_headers ps (\<lambda>_ _. True) r1 (Some d) (map (Some \<circ> key_cell) ks @ [None]) = Some r2" "string_rep ps r2 ((f @ crlf) @ ?h)"
      using append_headers_appends [OF d(2) _ r1(2), of ks] ks(3) len by auto
    have cr: "c_string (crlf @ [0]) = Some crlf" by (simp add: crlf_def c_string_def)
    obtain r3 where r3: "string_append ps True True r2 (Some (crlf @ [0])) = Some (r3, True)" "string_rep ps r3 ((f @ crlf) @ ?h @ crlf)"
      using string_append_rep [OF r2(2) cr, of True True] len by (auto simp: crlf_def)
    have b: "buffer_rep (ab_body m) (am_body a)" "ab_body m \<noteq> None" using rep by (auto simp: abnf_rep_def buffer_rep_def)
    note bs = buffer_get_size_rep [OF b(1)]
    note go = r0(1) valid ft(1) d(1) ks(1,4) r1(1) r2(1) r3(1) b(2) bs
    show ?thesis
    proof (cases "am_body a = []")
      case True
      then have "abnf_serialize ps (\<lambda>_ _. True) (Some m) usage = Some r3" using go by (simp add: abnf_serialize_def)
      then show ?thesis using Some r3(2) True ks(2,3) by (auto simp: key_order_def)
    next
      case False
      have z: "takeWhile (\<lambda>b. b \<noteq> 0) (am_body a) = am_body a" "\<not> ps dvd length (am_body a)"
        using trm False by (auto simp: terminated_def takeWhile_eq_all_conv)
      have "length (am_body a) \<le> SIZE_MAX div 2" using fit by (simp add: fits_def)
      then obtain s where s: "buffer_convert_to_string ps True True True (ab_body m) = Some s" "string_rep ps s (am_body a)"
        using buffer_convert_to_string_rep [OF b(1) _ ps] z(1) by auto
      obtain e where e: "string_c_str s = Some e" "piece e (am_body a)" using field_piece [OF s(2) z(2)] by blast
      obtain eb where eb: "e = Some eb" "c_string eb = Some (am_body a)" using e(2) by (auto simp: piece_def)
      obtain r4 where r4: "string_append ps True True r3 e = Some (r4, True)" "string_rep ps r4 (((f @ crlf) @ ?h @ crlf) @ am_body a)"
        using string_append_rep [OF r3(2) eb(2) False, of True True] len eb(1) by auto
      obtain s' where "s = Some s'" using s(2) by (auto simp: string_rep_def)
      then have "abnf_serialize ps (\<lambda>_ _. True) (Some m) usage = Some r4"
        using go False s(1) e(1) r4(1) by (simp add: abnf_serialize_def)
      then show ?thesis using Some r4(2) ks(2,3) by (auto simp: key_order_def)
    qed
  qed
qed

section \<open>What is read of what was written\<close>

lemma find_skips: "13 \<notin> set l \<Longrightarrow> str_find (13 # s) (l @ r) = map_option ((+) (length l)) (str_find (13 # s) r)"
proof (induction l)
  case Nil
  then show ?case by (cases "str_find (13 # s) r") simp_all
next
  case (Cons c l)
  then show ?case by (cases "str_find (13 # s) r") auto
qed

lemma find_crlf: "13 \<notin> set l \<Longrightarrow> str_find crlf (l @ crlf @ r) = Some (length l)"
  unfolding crlf_def by (subst find_skips) simp_all

lemma find_blank: "13 \<notin> set l \<Longrightarrow> str_find (crlf @ crlf) (l @ crlf @ crlf @ r) = Some (length l)"
  unfolding crlf_def by (simp add: find_skips)

lemma find_blank_later:
  assumes "13 \<notin> set l" "r = [] \<or> hd r \<noteq> 13"
  shows "str_find (crlf @ crlf) (l @ crlf @ r) = map_option ((+) (length l + 2)) (str_find (crlf @ crlf) r)"
proof -
  have "str_find (crlf @ crlf) (crlf @ r) = map_option (\<lambda>k. k + 2) (str_find (crlf @ crlf) r)"
    using assms(2) by (cases r; cases "str_find (crlf @ crlf) r") (auto simp: crlf_def)
  then show ?thesis using find_skips [OF assms(1), of "[10, 13, 10]" "crlf @ r"]
    by (cases "str_find (crlf @ crlf) r") (simp_all add: crlf_def)
qed

definition lines_text :: "byte list list \<Rightarrow> byte list" where
  "lines_text ls = concat (map (\<lambda>l. l @ crlf) ls)"

lemma lines_text_simps [simp]: "lines_text [] = []" "lines_text (l # ls) = l @ crlf @ lines_text ls"
  by (simp_all add: lines_text_def)

lemma find_end:
  "\<forall>l \<in> set ls. l \<noteq> [] \<and> 13 \<notin> set l \<Longrightarrow> ls \<noteq> [] \<Longrightarrow>
    str_find (crlf @ crlf) (lines_text ls @ crlf @ r) = Some (length (lines_text ls) - 2) \<and> 2 \<le> length (lines_text ls)"
proof (induction ls)
  case (Cons l ls)
  show ?case
  proof (cases "ls = []")
    case True
    then show ?thesis using find_blank [of l r] Cons.prems by (simp add: crlf_def)
  next
    case False
    then obtain l' ms where ls: "ls = l' # ms" by (cases ls) auto
    have hd: "hd (lines_text ls @ crlf @ r) \<noteq> 13" using Cons.prems(1) ls by (cases l') auto
    have "str_find (crlf @ crlf) (l @ crlf @ lines_text ls @ crlf @ r) =
        map_option ((+) (length l + 2)) (str_find (crlf @ crlf) (lines_text ls @ crlf @ r))"
      by (rule find_blank_later) (use Cons.prems(1) hd in simp_all)
    then show ?thesis using Cons.IH Cons.prems(1) False by (auto simp: crlf_def)
  qed
qed simp

lemma block_lines_text:
  "\<forall>l \<in> set ls. l \<noteq> [] \<and> 13 \<notin> set l \<Longrightarrow> block_lines (length (lines_text ls) - 2) (lines_text ls @ r) = ls"
proof (induction ls)
  case Nil
  then show ?case by (subst block_lines.simps) simp
next
  case (Cons l ls)
  have "str_find crlf (l @ crlf @ lines_text ls @ r) = Some (length l)" using Cons.prems by (simp add: find_crlf)
  moreover have "length (lines_text (l # ls)) - 2 = length l + length (lines_text ls)" by (simp add: crlf_def)
  moreover have "length l + length (lines_text ls) - (length l + 2) = length (lines_text ls) - 2" by simp
  moreover have "drop (length l + 2) (l @ crlf @ lines_text ls @ r) = lines_text ls @ r" by (simp add: crlf_def)
  ultimately show ?case using Cons by (subst block_lines.simps) simp
qed

text \<open>A message that the grammar can carry: no part contains what separates the parts.\<close>

definition sendable :: "abnf_msg \<Rightarrow> bool" where
  "sendable a =
     ((am_method a \<noteq> [] \<and> {13, 32} \<inter> set (am_method a) = {} \<and> \<not> is_status_line (am_method a) \<and>
         am_request_uri a \<noteq> [] \<and> {13, 32} \<inter> set (am_request_uri a) = {} \<and> am_protocol_version a \<noteq> [] \<and> 13 \<notin> set (am_protocol_version a) \<and>
         am_status_code a = [] \<and> am_reason_phrase a = [] \<or>
       is_status_line (am_protocol_version a) \<and> {13, 32} \<inter> set (am_protocol_version a) = {} \<and>
         am_status_code a \<noteq> [] \<and> {13, 32} \<inter> set (am_status_code a) = {} \<and> am_reason_phrase a \<noteq> [] \<and> 13 \<notin> set (am_reason_phrase a) \<and>
         am_method a = [] \<and> am_request_uri a = []) \<and>
      (\<forall>k v. am_headers a k = Some v \<longrightarrow>
         k \<noteq> [] \<and> abnf_trim_view k = k \<and> {13, 58} \<inter> set k = {} \<and> abnf_trim_view v = v \<and> 13 \<notin> set v))"

lemma tok_first: "f \<noteq> [] \<Longrightarrow> 32 \<notin> set f \<Longrightarrow> str_tok [32] (f @ 32 # r) = (Some f, r)"
proof -
  assume f: "f \<noteq> []" "32 \<notin> set f"
  have "dropWhile (\<lambda>c. c = 32) (f @ 32 # r) = f @ 32 # r" using f by (cases f) auto
  moreover have "takeWhile (\<lambda>c. c \<noteq> 32) (f @ 32 # r) = f" "dropWhile (\<lambda>c. c \<noteq> 32) (f @ 32 # r) = 32 # r"
    using f(2) by (auto simp: takeWhile_append dropWhile_append)
  ultimately show ?thesis using f(1) by (simp add: str_tok_def Let_def)
qed

lemma start_of_text:
  assumes "sendable a" "usage \<in> {ABNF_PROTOCOL_USAGE_HTTP, ABNF_PROTOCOL_USAGE_SIP}"
  shows "\<exists>f. first_text usage a = Some f \<and> 13 \<notin> set f \<and>
    start_of f = Some (protocol_of (am_protocol_version a), a\<lparr>am_headers := Map.empty, am_body := []\<rparr>)"
proof -
  consider (request) "am_method a \<noteq> []" "{13, 32} \<inter> set (am_method a) = {}" "\<not> is_status_line (am_method a)" "am_request_uri a \<noteq> []"
      "{13, 32} \<inter> set (am_request_uri a) = {}" "am_protocol_version a \<noteq> []" "13 \<notin> set (am_protocol_version a)" "am_status_code a = []" "am_reason_phrase a = []"
    | (response) "is_status_line (am_protocol_version a)" "{13, 32} \<inter> set (am_protocol_version a) = {}" "am_status_code a \<noteq> []"
      "{13, 32} \<inter> set (am_status_code a) = {}" "am_reason_phrase a \<noteq> []" "13 \<notin> set (am_reason_phrase a)" "am_method a = []" "am_request_uri a = []"
    using assms(1) unfolding sendable_def by blast
  then show ?thesis
  proof cases
    case request
    have "first_text usage a = Some (am_method a @ 32 # am_request_uri a @ 32 # am_protocol_version a)"
      using request assms(2) by (auto simp: first_text_def)
    moreover have "start_of (am_method a @ 32 # am_request_uri a @ 32 # am_protocol_version a) =
        Some (protocol_of (am_protocol_version a), empty_msg\<lparr>am_method := am_method a, am_request_uri := am_request_uri a, am_protocol_version := am_protocol_version a\<rparr>)"
      using request by (simp add: start_of_def tok_first)
    moreover have "empty_msg\<lparr>am_method := am_method a, am_request_uri := am_request_uri a, am_protocol_version := am_protocol_version a\<rparr> =
        a\<lparr>am_headers := Map.empty, am_body := []\<rparr>" using request by (simp add: empty_msg_def)
    ultimately show ?thesis using request by auto
  next
    case response
    have ne: "am_protocol_version a \<noteq> []" using response(1) by (auto simp: is_status_line_def bytes_of_def)
    have "first_text usage a = Some (am_protocol_version a @ 32 # am_status_code a @ 32 # am_reason_phrase a)"
      using response ne assms(2) by (auto simp: first_text_def)
    moreover have "start_of (am_protocol_version a @ 32 # am_status_code a @ 32 # am_reason_phrase a) =
        Some (protocol_of (am_protocol_version a), empty_msg\<lparr>am_protocol_version := am_protocol_version a, am_status_code := am_status_code a,
          am_reason_phrase := am_reason_phrase a\<rparr>)"
      using response ne by (simp add: start_of_def tok_first)
    moreover have "empty_msg\<lparr>am_protocol_version := am_protocol_version a, am_status_code := am_status_code a, am_reason_phrase := am_reason_phrase a\<rparr> =
        a\<lparr>am_headers := Map.empty, am_body := []\<rparr>" using response by (simp add: empty_msg_def)
    ultimately show ?thesis using response by auto
  qed
qed

lemma header_of_text:
  assumes "k \<noteq> []" "abnf_trim_view k = k" "58 \<notin> set k" "abnf_trim_view v = v"
  shows "header_of (header_text k v) = Some (k, v)"
proof -
  have tx: "header_text k v = k @ 58 # 32 # v" by (simp add: header_text_def bytes_of_def)
  have "takeWhile (\<lambda>c. c \<noteq> 58) (k @ 58 # 32 # v) = k" "dropWhile (\<lambda>c. c \<noteq> 58) (k @ 58 # 32 # v) = 58 # 32 # v"
    using assms(3) by (auto simp: takeWhile_append dropWhile_append)
  moreover have "abnf_trim_view (32 # v) = v" using assms(4) by (simp add: abnf_trim_view_def is_space_def)
  ultimately show ?thesis unfolding tx using assms(1,2) by (simp add: header_of_def Let_def)
qed

lemma fold_headers:
  assumes "\<forall>k v. H k = Some v \<longrightarrow> k \<noteq> [] \<and> abnf_trim_view k = k \<and> 58 \<notin> set k \<and> abnf_trim_view v = v"
  shows "set ks \<subseteq> dom H \<Longrightarrow> fold add_header (map (\<lambda>k. header_text k (the (H k))) ks) G = (\<lambda>x. if x \<in> set ks then H x else G x)"
proof (induction ks arbitrary: G)
  case (Cons k ks)
  obtain v where v: "H k = Some v" using Cons.prems by auto
  have "add_header (header_text k v) G = G(k \<mapsto> v)" using header_of_text [of k v] assms v by (simp add: add_header_def)
  then have "fold add_header (map (\<lambda>k. header_text k (the (H k))) (k # ks)) G = fold add_header (map (\<lambda>k. header_text k (the (H k))) ks) (G(k \<mapsto> v))"
    using v by simp
  also have "\<dots> = (\<lambda>x. if x \<in> set ks then H x else (G(k \<mapsto> v)) x)" using Cons.prems by (intro Cons.IH) simp
  also have "\<dots> = (\<lambda>x. if x \<in> set (k # ks) then H x else G x)" using v by (intro ext) simp
  finally show ?case .
qed simp

lemma find_none: "13 \<notin> set s \<Longrightarrow> str_find (13 # p) s = None"
  by (induction s) auto

lemma sendable_headers:
  "sendable a \<Longrightarrow> am_headers a k = Some v \<Longrightarrow> k \<noteq> [] \<and> abnf_trim_view k = k \<and> 58 \<notin> set k \<and> abnf_trim_view v = v \<and> 13 \<notin> set k \<and> 13 \<notin> set v"
  by (simp add: sendable_def)

lemma parse_of_text:
  assumes snd: "sendable a" and us: "usage \<in> {ABNF_PROTOCOL_USAGE_HTTP, ABNF_PROTOCOL_USAGE_SIP}" and ks: "key_order a ks"
    and f: "first_text usage a = Some f"
  defines "t \<equiv> f @ crlf @ headers_text (am_headers a) ks @ crlf @ am_body a"
  shows "ks \<noteq> [] \<Longrightarrow> parse_of True t = Some (protocol_of (am_protocol_version a), a)"
    and "ks = [] \<Longrightarrow> 13 \<notin> set (am_body a) \<Longrightarrow> parse_of True t = Some (protocol_of (am_protocol_version a), a\<lparr>am_body := []\<rparr>)"
proof -
  let ?b = "a\<lparr>am_headers := Map.empty, am_body := []\<rparr>"
  have st: "13 \<notin> set f" "start_of f = Some (protocol_of (am_protocol_version a), ?b)" using start_of_text [OF snd us] f by auto
  have H: "\<forall>k v. am_headers a k = Some v \<longrightarrow> k \<noteq> [] \<and> abnf_trim_view k = k \<and> 58 \<notin> set k \<and> abnf_trim_view v = v"
    "\<forall>k v. am_headers a k = Some v \<longrightarrow> 13 \<notin> set k \<and> 13 \<notin> set v" using sendable_headers [OF snd] by blast+
  have dom: "set ks = dom (am_headers a)" using ks by (simp add: key_order_def)
  let ?r = "headers_text (am_headers a) ks @ crlf @ am_body a"
  have first: "str_find crlf t = Some (length f)" "take (length f) t = f" "drop (length f + 2) t = ?r"
    using find_crlf [OF st(1), of ?r] by (simp_all add: t_def crlf_def)
  define ls where "ls = map (\<lambda>k. header_text k (the (am_headers a k))) ks"
  have lt: "headers_text (am_headers a) ks = lines_text ls" by (simp add: headers_text_def lines_text_def ls_def comp_def)
  {
    assume ne: "ks \<noteq> []"
    have lines: "\<forall>l \<in> set ls. l \<noteq> [] \<and> 13 \<notin> set l"
    proof
      fix l assume "l \<in> set ls"
      then obtain k where k: "k \<in> set ks" "l = header_text k (the (am_headers a k))" by (auto simp: ls_def)
      then obtain v where "am_headers a k = Some v" using dom by blast
      then have "l = k @ 58 # 32 # v" "13 \<notin> set k" "13 \<notin> set v" using k(2) H(2) by (simp_all add: header_text_def bytes_of_def)
      then show "l \<noteq> [] \<and> 13 \<notin> set l" by simp
    qed
    have fnd: "str_find (crlf @ crlf) ?r = Some (length (lines_text ls) - 2)" "2 \<le> length (lines_text ls)"
      using find_end [OF lines, of "am_body a"] ne by (simp_all add: lt ls_def)
    have bl: "block_lines (length (lines_text ls) - 2) ?r = ls" using block_lines_text [OF lines] by (simp add: lt)
    have "fold add_header ls Map.empty = am_headers a"
    proof -
      have "fold add_header ls Map.empty = (\<lambda>x. if x \<in> set ks then am_headers a x else None)"
        unfolding ls_def by (rule fold_headers [OF H(1)]) (simp add: dom)
      also have "\<dots> = am_headers a" using dom by (intro ext) (simp add: dom_def)
      finally show ?thesis .
    qed
    moreover have "drop (length (lines_text ls) - 2 + 4) ?r = am_body a" using fnd(2) by (simp add: lt crlf_def)
    ultimately show "parse_of True t = Some (protocol_of (am_protocol_version a), a)"
      using first st(2) fnd(1) bl by (simp add: parse_of_def Let_def)
  }
  {
    assume e: "ks = []" "13 \<notin> set (am_body a)"
    have r: "?r = crlf @ am_body a" using e(1) by (simp add: headers_text_def)
    have "str_find (crlf @ crlf) (crlf @ am_body a) = None"
      using find_blank_later [of "[]" "am_body a"] find_none [OF e(2), of "[10, 13, 10]"] e(2)
      by (cases "am_body a") (auto simp: crlf_def)
    moreover have "block_lines n (crlf @ am_body a) = []" for n by (subst block_lines.simps) (simp add: crlf_def)
    moreover have "am_headers a = Map.empty" using e(1) dom by (metis dom_eq_empty_conv list.set(1))
    ultimately show "parse_of True t = Some (protocol_of (am_protocol_version a), a\<lparr>am_body := []\<rparr>)"
      using first st(2) r by (simp add: parse_of_def Let_def)
  }
qed

section \<open>Building a message\<close>

text \<open>The setters, on texts handed over as C strings.\<close>

datatype abnf_setter =
    Set_Method "byte list"
  | Set_Request_Uri "byte list"
  | Set_Protocol_Version "byte list"
  | Set_Reason_Phrase "byte list"
  | Set_Status_Code int
  | Set_Header "byte list" "byte list"
  | Set_Body "byte list"
  | Set_Protocol abnf_protcol_usage_t

fun abnf_set :: "nat \<Rightarrow> abnf_setter \<Rightarrow> abnf_t option \<Rightarrow> (bool \<times> abnf_t option) option" where
  "abnf_set ps (Set_Method t) p = abnf_set_method ps True p (Some (t @ [0]))"
| "abnf_set ps (Set_Request_Uri t) p = abnf_set_request_uri ps True p (Some (t @ [0]))"
| "abnf_set ps (Set_Protocol_Version t) p = abnf_set_protocol_version ps True p (Some (t @ [0]))"
| "abnf_set ps (Set_Reason_Phrase t) p = abnf_set_reason_phrase ps True p (Some (t @ [0]))"
| "abnf_set ps (Set_Status_Code i) p = abnf_set_status_code ps True p i"
| "abnf_set ps (Set_Header k v) p = abnf_set_header_value (\<lambda>_. True) p (Some (k @ [0])) (Some (v @ [0]))"
| "abnf_set ps (Set_Body t) p = abnf_set_body ps (\<lambda>_. True) p (Some (t @ [0]))"
| "abnf_set ps (Set_Protocol u) p = Some (abnf_set_protocol p u)"

fun abnf_sets :: "nat \<Rightarrow> abnf_setter list \<Rightarrow> abnf_t option \<Rightarrow> abnf_t option option" where
  "abnf_sets ps [] p = Some p"
| "abnf_sets ps (op # ops) p = do { (_, p) \<leftarrow> abnf_set ps op p; abnf_sets ps ops p }"

fun setter_text :: "abnf_setter \<Rightarrow> byte list" where
  "setter_text (Set_Header k v) = k @ v"
| "setter_text (Set_Method t) = t"
| "setter_text (Set_Request_Uri t) = t"
| "setter_text (Set_Protocol_Version t) = t"
| "setter_text (Set_Reason_Phrase t) = t"
| "setter_text (Set_Body t) = t"
| "setter_text _ = []"

definition setter_ok :: "abnf_setter \<Rightarrow> bool" where
  "setter_ok op = (0 \<notin> set (setter_text op) \<and> length (setter_text op) \<le> SIZE_MAX div 2)"

fun msg_set :: "abnf_setter \<Rightarrow> abnf_msg \<Rightarrow> abnf_msg" where
  "msg_set (Set_Method t) a = a\<lparr>am_method := t\<rparr>"
| "msg_set (Set_Request_Uri t) a = a\<lparr>am_request_uri := t\<rparr>"
| "msg_set (Set_Protocol_Version t) a = a\<lparr>am_protocol_version := t\<rparr>"
| "msg_set (Set_Reason_Phrase t) a = a\<lparr>am_reason_phrase := t\<rparr>"
| "msg_set (Set_Status_Code i) a = (if 100 \<le> i \<and> i \<le> 999 then a\<lparr>am_status_code := int_digits i\<rparr> else a)"
| "msg_set (Set_Header k v) a = a\<lparr>am_headers := (am_headers a)(k \<mapsto> v)\<rparr>"
| "msg_set (Set_Body t) a = a\<lparr>am_body := t\<rparr>"
| "msg_set (Set_Protocol u) a = a"

lemma assign_any:
  assumes "string_rep ps p xs" "0 \<notin> set t" "length t \<le> SIZE_MAX div 2"
  shows "\<exists>q r. abnf_assign_string_field ps True p (Some (t @ [0])) = Some (q, r) \<and> string_rep ps q t"
proof (cases "t = []")
  case True
  obtain q where q: "string_clear p = Some q" "string_rep ps q []" using string_clear_rep [OF assms(1)] by blast
  moreover have "string_append ps True True q (Some [0]) = Some (q, False)" by (simp add: string_append_def c_string_def)
  moreover obtain p' where "p = Some p'" using assms(1) by (auto simp: string_rep_def)
  ultimately have "abnf_assign_string_field ps True p (Some (t @ [0])) = Some (q, False)" using True by (simp add: abnf_assign_string_field_def)
  then show ?thesis using q(2) True by blast
next
  case False
  then show ?thesis using assign_field [OF assms(1,2) _ assms(3)] by blast
qed

lemma status_digits:
  assumes "100 \<le> i" "i \<le> 999"
  shows "print_into 4 (int_digits i) = Some (int_digits i @ [0])" "0 \<notin> set (int_digits i)" "length (int_digits i) = 3"
proof -
  define n where "n = nat i"
  have n: "100 \<le> n" "n \<le> 999" using assms by (auto simp: n_def)
  have "n div 10 div 10 < 10" "\<not> n div 10 < 10" "\<not> n < 10" using n by auto
  then have "length (nat_digits n) = 3" by (simp add: nat_digits.simps [of n] nat_digits.simps [of "n div 10"] nat_digits.simps [of "n div 10 div 10"])
  then show l: "length (int_digits i) = 3" using assms by (simp add: int_digits_def n_def)
  show "0 \<notin> set (int_digits i)" by (rule int_digits_props(1))
  show "print_into 4 (int_digits i) = Some (int_digits i @ [0])" using l by (simp add: print_into_def mem_copy_def)
qed

definition set_to :: "nat \<Rightarrow> bool \<Rightarrow> abnf_msg \<Rightarrow> (bool \<times> abnf_t option) option \<Rightarrow> bool" where
  "set_to ps b a r = (\<exists>x m'. r = Some (x, Some m') \<and> abnf_rep ps m' a \<and> ab_is_valid m' = b)"

lemma set_sets:
  assumes rep: "abnf_rep ps m a" and op: "setter_ok op"
  shows "set_to ps (ab_is_valid m) (msg_set op a) (abnf_set ps op (Some m))"
proof -
  note r = rep [unfolded abnf_rep_def]
  note text_defs = set_to_def abnf_set_text_def abnf_set_method_def abnf_set_request_uri_def abnf_set_protocol_version_def
    abnf_set_reason_phrase_def abnf_rep_def
  have asg: "\<exists>q x f. p = Some f \<and> abnf_assign_string_field ps True p (Some (t @ [0])) = Some (q, x) \<and> string_rep ps q t"
    if "string_rep ps p xs" "0 \<notin> set t" "length t \<le> SIZE_MAX div 2" for p xs t
    using assign_any [OF that] that(1) by (auto simp: string_rep_def)
  show ?thesis
  proof (cases op)
    case (Set_Method t)
    then show ?thesis using asg [of "ab_method m" "am_method a" t] r op by (auto simp: text_defs setter_ok_def)
  next
    case (Set_Request_Uri t)
    then show ?thesis using asg [of "ab_request_uri m" "am_request_uri a" t] r op by (auto simp: text_defs setter_ok_def)
  next
    case (Set_Protocol_Version t)
    then show ?thesis using asg [of "ab_protocol_version m" "am_protocol_version a" t] r op by (auto simp: text_defs setter_ok_def)
  next
    case (Set_Reason_Phrase t)
    then show ?thesis using asg [of "ab_reason_phrase m" "am_reason_phrase a" t] r op by (auto simp: text_defs setter_ok_def)
  next
    case (Set_Status_Code i)
    show ?thesis
    proof (cases "100 \<le> i \<and> i \<le> 999")
      case True
      then have l: "length (int_digits i) \<le> SIZE_MAX div 2" using status_digits(3) [of i] by (simp add: SIZE_MAX_def)
      then show ?thesis using asg [of "ab_status_code m" "am_status_code a" "int_digits i"] r status_digits [of i] True Set_Status_Code
        by (auto simp: set_to_def abnf_set_status_code_def abnf_rep_def)
    next
      case False
      then show ?thesis using r Set_Status_Code by (auto simp: set_to_def abnf_set_status_code_def abnf_rep_def)
    qed
  next
    case (Set_Header k v)
    then have z: "0 \<notin> set k" "0 \<notin> set v" using op by (simp_all add: setter_ok_def)
    have d: "dict_headers (ab_headers m) (am_headers a)" "ab_headers m \<noteq> None" using r by (auto simp: dict_headers_def)
    have n: "str_len (k @ [0]) = Some (length k)" "str_len (v @ [0]) = Some (length v)" using z by (simp_all add: str_len_def)
    obtain q where "dictionary_set_value (\<lambda>_. True) (ab_headers m) (Some (k @ [0])) (length k + 1) (Some (v @ [0])) (length v + 1) = Some q"
      "dict_headers q ((am_headers a)(k \<mapsto> v))" using set_header [OF d(1) z] by blast
    then show ?thesis using r n d(2) Set_Header by (auto simp: set_to_def abnf_set_header_value_def abnf_rep_def)
  next
    case (Set_Body t)
    then have z: "0 \<notin> set t" "length t \<le> SIZE_MAX div 2" using op by (simp_all add: setter_ok_def)
    obtain b where b: "buffer_clear (ab_body m) = Some b" "buffer_rep b []" using buffer_clear_rep r by blast
    obtain q x where q: "buffer_append (int ps) True True b (Some (t @ [0])) (length t) = Some (q, x)" "buffer_rep q t"
      using buffer_append_rep [OF b(2), of "length t" "t @ [0]" "int ps" True True] z(2) by (cases "t = []") auto
    have "ab_body m \<noteq> None" using r by (auto simp: buffer_rep_def)
    then show ?thesis using r b(1) q z(1) Set_Body by (auto simp: set_to_def abnf_set_body_def abnf_rep_def str_len_def)
  next
    case (Set_Protocol u)
    then show ?thesis using r by (auto simp: set_to_def abnf_set_protocol_def abnf_rep_def)
  qed
qed

lemma sets_set:
  "abnf_rep ps m a \<Longrightarrow> list_all setter_ok ops \<Longrightarrow>
    \<exists>m'. abnf_sets ps ops (Some m) = Some (Some m') \<and> abnf_rep ps m' (fold msg_set ops a) \<and> ab_is_valid m' = ab_is_valid m"
proof (induction ops arbitrary: m a)
  case (Cons op ops)
  obtain x m1 where 1: "abnf_set ps op (Some m) = Some (x, Some m1)" "abnf_rep ps m1 (msg_set op a)" "ab_is_valid m1 = ab_is_valid m"
    using set_sets [OF Cons.prems(1), of op] Cons.prems(2) by (auto simp: set_to_def)
  then show ?case using Cons.IH [OF 1(2)] Cons.prems(2) by auto
qed simp

section \<open>Properties\<close>

text \<open>
  C37: Parsing.  With memory available, every text of any bytes but NUL is parsed without a memory error to what the grammar
  \<open>parse_of\<close> gives it, with the body or without: its first line of two words and a rest, every line with a colon up to the first
  empty line as a header (a later one replaces an earlier one of the same name), and the characters behind the first blank line.
  The answer is NULL exactly when the grammar has none, and a message that is returned is marked valid.
\<close>

theorem abnf_parses_grammar:
  assumes "string_rep ps p t" "t \<noteq> []" "length t \<le> SIZE_MAX div 2"
  shows "(case parse_of True t of
      None \<Rightarrow> abnf_parse_and_allocate ps (\<lambda>_ _. True) p = Some None
    | Some (pr, a) \<Rightarrow> \<exists>m. abnf_parse_and_allocate ps (\<lambda>_ _. True) p = Some (Some m) \<and> abnf_rep ps m a \<and>
        abnf_get_protocol (Some m) = pr \<and> abnf_is_valid (Some m)) \<and>
    (case parse_of False t of
      None \<Rightarrow> abnf_parse_and_allocate_from_headers ps (\<lambda>_ _. True) p = Some None
    | Some (pr, a) \<Rightarrow> \<exists>m. abnf_parse_and_allocate_from_headers ps (\<lambda>_ _. True) p = Some (Some m) \<and> abnf_rep ps m a \<and>
        abnf_get_protocol (Some m) = pr \<and> abnf_is_valid (Some m))"
  using parse_internal_parses [OF assms, of True] parse_internal_parses [OF assms, of False]
  unfolding abnf_parse_and_allocate_def abnf_parse_and_allocate_from_headers_def abnf_get_protocol_def abnf_is_valid_def option.case
  by (rule conjI)

text \<open>The text \<open>GET / HTTP/1.1\<close>, a header \<open>A: b\<close>, and the body \<open>x\<close>.\<close>

definition test_text :: "byte list" where
  "test_text = bytes_of ''GET / HTTP/1.1'' @ crlf @ bytes_of ''A: b'' @ crlf @ crlf @ bytes_of ''x''"

definition test_msg :: abnf_msg where
  "test_msg = \<lparr>am_method = bytes_of ''GET'', am_request_uri = bytes_of ''/'', am_protocol_version = bytes_of ''HTTP/1.1'',
     am_status_code = [], am_reason_phrase = [], am_headers = [bytes_of ''A'' \<mapsto> bytes_of ''b''], am_body = bytes_of ''x''\<rparr>"

lemma test_text_eval: "test_text = [71, 69, 84, 32, 47, 32, 72, 84, 84, 80, 47, 49, 46, 49, 13, 10, 65, 58, 32, 98, 13, 10, 13, 10, 120]"
  by (simp add: test_text_def bytes_of_def crlf_def)

lemma test_msg_sendable: "sendable test_msg"
  by (simp add: test_msg_def sendable_def is_status_line_def bytes_of_def abnf_trim_view_def is_space_def)

lemma test_parse: "parse_of True test_text = Some (ABNF_PROTOCOL_USAGE_HTTP, test_msg)"
proof -
  have f: "first_text ABNF_PROTOCOL_USAGE_HTTP test_msg = Some (bytes_of ''GET / HTTP/1.1'')" by (simp add: first_text_def test_msg_def bytes_of_def)
  have k: "key_order test_msg [bytes_of ''A'']" by (simp add: key_order_def test_msg_def)
  have "headers_text (am_headers test_msg) [bytes_of ''A''] = bytes_of ''A: b'' @ crlf"
    by (simp add: headers_text_def header_text_def test_msg_def bytes_of_def)
  moreover have "protocol_of (am_protocol_version test_msg) = ABNF_PROTOCOL_USAGE_HTTP" by (simp add: protocol_of_def test_msg_def bytes_of_def)
  ultimately show ?thesis using parse_of_text(1) [OF test_msg_sendable _ k f] by (simp add: test_text_def test_msg_def)
qed

lemma abnf_parses_grammar_witness:
  "\<exists>p m. string_allocate 4096 True True (Some (test_text @ [0])) = Some p \<and>
    abnf_parse_and_allocate 4096 (\<lambda>_ _. True) p = Some (Some m) \<and> abnf_rep 4096 m test_msg \<and> abnf_is_valid (Some m)"
proof -
  have c: "c_string (test_text @ [0]) = Some test_text" by (simp add: test_text_eval c_string_def)
  have n: "length test_text \<le> SIZE_MAX div 2" by (simp add: test_text_eval SIZE_MAX_def)
  obtain p where p: "string_allocate 4096 True True (Some (test_text @ [0])) = Some p" "string_rep 4096 p test_text"
    using string_allocate_rep [OF c n, of 4096] by (auto simp: SIZE_MAX_def)
  have ne: "test_text \<noteq> []" by (simp add: test_text_eval)
  show ?thesis using abnf_parses_grammar [OF p(2) ne n, THEN conjunct1] p(1) by (auto simp: test_parse)
qed

lemma round_trip:
  assumes rep: "abnf_rep ps m a" "ab_is_valid m" "terminated ps a" "fits usage a"
    and snd: "sendable a" and us: "usage \<in> {ABNF_PROTOCOL_USAGE_HTTP, ABNF_PROTOCOL_USAGE_SIP}"
    and body: "am_headers a = Map.empty \<longrightarrow> 13 \<notin> set (am_body a)"
  shows "\<exists>q m'. abnf_serialize ps (\<lambda>_ _. True) (Some m) usage = Some q \<and> abnf_parse_and_allocate ps (\<lambda>_ _. True) q = Some (Some m') \<and>
    abnf_rep ps m' (if am_headers a = Map.empty then a\<lparr>am_body := []\<rparr> else a) \<and>
    ab_protocol m' = protocol_of (am_protocol_version a) \<and> ab_is_valid m'"
proof -
  obtain f where f: "first_text usage a = Some f" using start_of_text [OF snd us] by blast
  obtain ks q where q: "abnf_serialize ps (\<lambda>_ _. True) (Some m) usage = Some q" "key_order a ks"
    "string_rep ps q (f @ crlf @ headers_text (am_headers a) ks @ crlf @ am_body a)"
    using serialize_writes [OF rep, of] f by auto
  let ?t = "f @ crlf @ headers_text (am_headers a) ks @ crlf @ am_body a"
  have len: "length ?t \<le> SIZE_MAX div 2" using rep(4) q(2) f unfolding fits_def by (auto simp: message_text_def)
  have ne: "?t \<noteq> []" by (simp add: crlf_def)
  have e: "am_headers a = Map.empty \<longleftrightarrow> ks = []" using q(2) unfolding key_order_def by (metis dom_eq_empty_conv set_empty)
  have "parse_of True ?t = Some (protocol_of (am_protocol_version a), if am_headers a = Map.empty then a\<lparr>am_body := []\<rparr> else a)"
    using parse_of_text [OF snd us q(2) f] body e by (cases "ks = []") simp_all
  then show ?thesis using parse_internal_parses [OF q(3) ne len, of True] q(1) by (auto simp: abnf_parse_and_allocate_def)
qed

text \<open>
  C38: Round trip, with memory available.  A valid message comes back from the parser as it was when it was serialized for HTTP
  or SIP: every field, every header, and the body.  The conditions on it: it has at least one header; it is either a request
  or a status line; its parts contain none of the characters that separate them, and names and values of headers no blanks
  at their ends (\<open>sendable\<close>); no field of the first line, and not the body, has a length that is a positive multiple
  of the page size, for \<open>abnf_serialize\<close> would read behind the block of such a part, and the body contains no NUL,
  for it would be cut there (\<open>terminated\<close>); and the message is not longer than half the address space (\<open>fits\<close>).
\<close>

theorem abnf_round_trip:
  assumes "abnf_rep ps m a" "ab_is_valid m" "terminated ps a" "fits usage a" "sendable a"
    "usage \<in> {ABNF_PROTOCOL_USAGE_HTTP, ABNF_PROTOCOL_USAGE_SIP}" "am_headers a \<noteq> Map.empty"
  shows "\<exists>q m'. abnf_serialize ps (\<lambda>_ _. True) (Some m) usage = Some q \<and> abnf_parse_and_allocate ps (\<lambda>_ _. True) q = Some (Some m') \<and>
    abnf_rep ps m' a \<and> ab_protocol m' = protocol_of (am_protocol_version a) \<and> ab_is_valid m'"
  using round_trip [OF assms(1-6)] assms(7) by simp

lemma test_msg_fits: "terminated 4096 test_msg" "fits usage test_msg"
proof -
  show "terminated 4096 test_msg" by (simp add: terminated_def test_msg_def bytes_of_def nat_dvd_not_less)
  have k: "ks = [bytes_of ''A'']" if "key_order test_msg ks" for ks
  proof -
    have s: "set ks = {bytes_of ''A''}" "distinct ks" using that by (auto simp: key_order_def test_msg_def)
    then have "length ks = 1" using distinct_card [of ks] by simp
    then show ?thesis using s(1) by (cases ks) auto
  qed
  have "length t \<le> SIZE_MAX div 2" if "message_text usage test_msg [bytes_of ''A''] = Some t" for t
    using that by (cases usage) (auto simp: message_text_def first_text_def headers_text_def header_text_def test_msg_def bytes_of_def crlf_def SIZE_MAX_def)
  then show "fits usage test_msg" using k by (auto simp: fits_def test_msg_def bytes_of_def SIZE_MAX_def)
qed

lemma test_object: "\<exists>m. abnf_rep 4096 m test_msg \<and> ab_is_valid m"
proof -
  have c: "c_string (test_text @ [0]) = Some test_text" by (simp add: test_text_eval c_string_def)
  have n: "length test_text \<le> SIZE_MAX div 2" by (simp add: test_text_eval SIZE_MAX_def)
  obtain p where p: "string_rep 4096 p test_text" using string_allocate_rep [OF c n, of 4096] by (auto simp: SIZE_MAX_def)
  have ne: "test_text \<noteq> []" by (simp add: test_text_eval)
  show ?thesis using parse_internal_parses [OF p ne n, of True] by (auto simp: test_parse)
qed

lemma abnf_round_trip_witness:
  "\<exists>m q m'. abnf_serialize 4096 (\<lambda>_ _. True) (Some m) ABNF_PROTOCOL_USAGE_HTTP = Some q \<and>
    abnf_parse_and_allocate 4096 (\<lambda>_ _. True) q = Some (Some m') \<and> abnf_rep 4096 m' test_msg"
proof -
  obtain m where m: "abnf_rep 4096 m test_msg" "ab_is_valid m" using test_object by blast
  have h: "am_headers test_msg \<noteq> Map.empty" by (simp add: test_msg_def)
  show ?thesis using abnf_round_trip [OF m test_msg_fits test_msg_sendable _ h, of ABNF_PROTOCOL_USAGE_HTTP] by auto
qed

text \<open>
  C39: A message without headers loses its body, if the body contains no carriage return.  What the serializer writes for it, and
  what HTTP prescribes, is the first line, an empty line and the body; the parser looks for the blank line only behind the first
  line end, finds none, and returns the message with an empty body.  The other conditions are those of the round trip: \<open>sendable\<close>, \<open>terminated\<close> (no field of the first
  line and no body whose length is a positive multiple of the page size, no NUL in the body) and \<open>fits\<close>.
\<close>

theorem abnf_headerless_loses_body:
  assumes "abnf_rep ps m a" "ab_is_valid m" "terminated ps a" "fits usage a" "sendable a"
    "usage \<in> {ABNF_PROTOCOL_USAGE_HTTP, ABNF_PROTOCOL_USAGE_SIP}" "am_headers a = Map.empty" "13 \<notin> set (am_body a)"
  shows "\<exists>q m'. abnf_serialize ps (\<lambda>_ _. True) (Some m) usage = Some q \<and> abnf_parse_and_allocate ps (\<lambda>_ _. True) q = Some (Some m') \<and>
    abnf_rep ps m' (a\<lparr>am_body := []\<rparr>) \<and> ab_is_valid m'"
  using round_trip [OF assms(1-6)] assms(7,8) by auto

lemma abnf_headerless_loses_body_witness:
  "\<exists>m q m'. abnf_rep 4096 m (test_msg\<lparr>am_headers := Map.empty\<rparr>) \<and>
    abnf_serialize 4096 (\<lambda>_ _. True) (Some m) ABNF_PROTOCOL_USAGE_HTTP = Some q \<and>
    abnf_parse_and_allocate 4096 (\<lambda>_ _. True) q = Some (Some m') \<and> abnf_rep 4096 m' (test_msg\<lparr>am_headers := Map.empty, am_body := []\<rparr>)"
proof -
  let ?a = "test_msg\<lparr>am_headers := Map.empty\<rparr>"
  obtain m where m: "abnf_rep 4096 m test_msg" "ab_is_valid m" using test_object by blast
  define m' where "m' = m\<lparr>ab_headers := dictionary_allocate True\<rparr>"
  have m': "abnf_rep 4096 m' ?a" "ab_is_valid m'"
    using m by (simp_all add: m'_def abnf_rep_def dict_headers_def empty_wf headers_ok_def)
  have t: "terminated 4096 ?a" using test_msg_fits(1) by (simp add: terminated_def)
  have k: "ks = []" if "key_order ?a ks" for ks using that by (simp add: key_order_def)
  have f: "fits ABNF_PROTOCOL_USAGE_HTTP ?a" unfolding fits_def
  proof (intro conjI allI impI)
    show "length (am_body ?a) \<le> SIZE_MAX div 2" by (simp add: test_msg_def bytes_of_def SIZE_MAX_def)
    fix ks t assume "key_order ?a ks" "message_text ABNF_PROTOCOL_USAGE_HTTP ?a ks = Some t"
    then have "message_text ABNF_PROTOCOL_USAGE_HTTP ?a [] = Some t" using k by blast
    then show "length t \<le> SIZE_MAX div 2"
      by (auto simp: message_text_def first_text_def headers_text_def test_msg_def bytes_of_def crlf_def SIZE_MAX_def)
  qed
  have s: "sendable ?a" using test_msg_sendable by (simp add: sendable_def)
  have h: "am_headers ?a = Map.empty" "13 \<notin> set (am_body ?a)" by (simp_all add: test_msg_def bytes_of_def)
  show ?thesis using abnf_headerless_loses_body [OF m' t f s _ h] m'(1) by auto
qed

text \<open>
  C40: Building a message.  On a new message every run of setters with texts of any length that memory holds stores each text, header,
  status code from 100 to 999 and body last set; but no setter marks the message valid, and \<open>abnf_serialize\<close> refuses
  whatever was built, for every protocol: only messages that were parsed can be written.
\<close>

theorem abnf_built_never_serializes:
  assumes "0 < ps" "ps \<le> SIZE_MAX div 4" "list_all setter_ok ops"
  shows "\<exists>m m'. abnf_allocate ps (\<lambda>_. True) = Some (Some m) \<and> abnf_sets ps ops (Some m) = Some (Some m') \<and>
    abnf_rep ps m' (fold msg_set ops empty_msg) \<and> \<not> abnf_is_valid (Some m') \<and>
    (\<forall>oks usage. abnf_serialize ps oks (Some m') usage = Some None)"
proof -
  obtain m where m: "abnf_allocate ps (\<lambda>_. True) = Some (Some m)" "abnf_rep ps m empty_msg" "\<not> ab_is_valid m"
    using abnf_allocate_rep [OF assms(1,2)] by blast
  obtain m' where m': "abnf_sets ps ops (Some m) = Some (Some m')" "abnf_rep ps m' (fold msg_set ops empty_msg)" "\<not> ab_is_valid m'"
    using sets_set [OF m(2) assms(3)] m(3) by auto
  then show ?thesis using m(1) by (auto simp: abnf_is_valid_def abnf_serialize_def)
qed

lemma abnf_built_never_serializes_witness:
  "\<exists>m m'. abnf_allocate 4096 (\<lambda>_. True) = Some (Some m) \<and>
    abnf_sets 4096 [Set_Method [71], Set_Request_Uri [47], Set_Protocol_Version [72], Set_Header [65] [98]] (Some m) = Some (Some m') \<and>
    abnf_serialize 4096 (\<lambda>_ _. True) (Some m') ABNF_PROTOCOL_USAGE_HTTP = Some None"
  using abnf_built_never_serializes [of 4096 "[Set_Method [71], Set_Request_Uri [47], Set_Protocol_Version [72], Set_Header [65] [98]]"]
  by (auto simp: setter_ok_def SIZE_MAX_def simp del: abnf_sets.simps)

end
