(* ===== verification/Spec2Isabelle.thy ===== *)
theory Spec2Isabelle
  imports Base64 Keyvalue Variant Dictionary QueueStack Modbus StringList TcpString BufferString DateTime Mqtt Json Configuration
    DoubleList Abnf
begin

text \<open>
  A verification library for TreOnzLib, a C library for embedded gateways: containers, strings, values and
  codecs (\<open>core/\<close>), network clients (\<open>comm/\<close>), and device drivers over the Linux device files (\<open>io/\<close>).

  \<^bold>\<open>The parts and how they interact.\<close>  The growable \<open>buffer_t\<close> and \<open>string_t\<close> carry bytes everywhere; \<open>key_value_t\<close> is
  a pair of buffers.  The queue and the stack are clients of the singly linked list.  The dictionary
  and the variant are self-contained.  The TCP client moves buffers and strings over a socket; the Modbus
  client builds frames in buffers and sends them through the TCP client or the UART driver; the MQTT client
  builds packets in buffers from strings and sends them through the TCP client.  The date and time functions
  stand alone on the C library's calendar, and so does the JSON parser on its own allocator wrappers.  The configuration files
  are read with strings; the messages of \<open>abnf.c\<close> are made of strings, a dictionary and a buffer.

  \<^bold>\<open>Which theory models what\<close> (a definition has the name of the C function it translates; the fields of a
  record are those of the C structure, with a prefix):

  \<^item> \<open>CPrelude\<close>: blocks of memory as lists, with the C library's copies, comparisons and string functions;
    \<open>size_t\<close> arithmetic; what the option monad means here (below).
  \<^item> \<open>Interfaces\<close>: the contracts between components as locales: \<open>byte_sink\<close> (something bytes are appended to,
    interpreted by the buffer), \<open>text_sink\<close> (interpreted by the string), \<open>keyed_store\<close> (by the dictionary),
    \<open>channel\<close> (by queue and stack on the list), \<open>byte_stream\<close> (by the TCP client; the Modbus client rests on it).
  \<^item> \<open>Base64\<close>: \<open>core/src/base64.c\<close>, with RFC 4648 as the specification.
  \<^item> \<open>Buffer\<close>, \<open>BufferString\<close>, \<open>Keyvalue\<close>: \<open>core/src/buffer.c\<close>, \<open>core/src/keyvalue.c\<close>.
  \<^item> \<open>Variant\<close>: \<open>core/src/variant.c\<close>, on the bytes of its union-like data block.
  \<^item> \<open>Dictionary\<close>: \<open>core/src/dictionary.c\<close>: hash buckets with chains of owned or referenced values, refining a
    finite map.
  \<^item> \<open>LinkedList\<close> (the functions of \<open>core/src/list.c\<close> on an explicit heap), \<open>ListLaws\<close> (what each does to a
    well-formed chain of nodes), \<open>ListSequence\<close> (refinement of a plain list, no leak, sorting, iteration);
    \<open>QueueStack\<close>: \<open>core/src/queue.c\<close> and \<open>core/src/stack.c\<close>.
  \<^item> \<open>StringEx\<close>, \<open>StringOps\<close>, \<open>StringList\<close>: \<open>core/src/stringex.c\<close>: storage and appending; searching, trimming,
    removing and replacing; splitting, joining and lists of strings.
  \<^item> \<open>TcpClient\<close>, \<open>TcpString\<close>: \<open>comm/src/tcpclient.c\<close>.
  \<^item> \<open>Uart\<close>: \<open>io/src/uart.c\<close>.
  \<^item> \<open>Frames\<close> (16-bit fields and bytes put into a buffer), \<open>Modbus\<close>: \<open>comm/src/modbus.c\<close> over both transports;
    \<open>Mqtt\<close>: \<open>comm/src/mqtt.c\<close>, with the pending publications and the subscriptions as lists.
  \<^item> \<open>Calendar\<close> (the C library's conversions between dates and seconds), \<open>DateTime\<close>: \<open>core/src/datetime.c\<close>.
  \<^item> \<open>Json\<close>: \<open>core/src/json.c\<close>: the recursive-descent parser with every allocation, navigation, printing; the
    grammar of the accepted texts, and that the parser accepts exactly it.
  \<^item> \<open>Configuration\<close>: \<open>core/src/configuration.c\<close>: reading a file line by line into sections of keys and values, and
    the getters; what a file means when its lines end with line feeds.
  \<^item> \<open>DoubleList\<close>: \<open>core/src/listdoublelinked.c\<close> on an explicit heap: links in both directions, the iterator, merge
    sort and merging, refining a plain sequence.
  \<^item> \<open>Abnf\<close>: \<open>comm/src/abnf.c\<close>: messages of a start line, headers and a body, on the models of string, dictionary and
    buffer; the grammar the parser accepts, and what comes back of a message that was serialized.

  \<^bold>\<open>How the code is modelled.\<close>  A function that may go wrong returns an option: \<open>None\<close> stands for everything the
  C standard leaves open (an access outside a block, through NULL, to released or indeterminate memory, an overflow of a
  signed integer) and for not returning; every theorem that a call answers \<open>Some\<close> thereby says that it
  is free of these and returns.  A pointer that may be NULL is itself an option.  Unchecked casts are written out:
  \<open>size_t\<close> wraps by \<open>size_sub\<close> and \<open>mod 2 ^ 64\<close>, narrower integers are words.  The answers of the
  allocator, of \<open>sysconf\<close> and of the system calls are arguments of the definitions: a flag
  for each allocation, a page size \<open>ps\<close>, and for a socket the list of what \<open>send\<close> and \<open>recv\<close> will answer.
  Where several owners can reach one block (the two lists) the heap is explicit; where a block has
  one owner it is a value inside its owner.  The MQTT loop keeps a pointer into a buffer that it releases: what the pointer
  refers to is a \<open>mqtt_block\<close>, \<open>Held\<close> or \<open>Released\<close>.  The UART driver reads a structure that it never fills in: its cells may be
  indeterminate (\<open>uart_path\<close>).

  \<^bold>\<open>Readings chosen.\<close>  A \<open>strcpy\<close> between overlapping parts of one block (\<open>remove_shift\<close>), which C leaves undefined, copies in
  ascending order, as the libraries do.  A \<open>recv\<close> that would wait for ever is a call that fails.  The local time zone is a
  constant offset without daylight saving.  The C stack of recursive functions has no limit.  Structures that two arguments can share are
  distinct unless a definition says otherwise (\<open>variant_set_itself\<close>).  In the doubly linked list the data block of a node, and the
  list structure, are values, so that their releases show only as those of the nodes.

  \<^bold>\<open>What the lemmas show.\<close>  For each component a representation predicate relates the C state to its
  mathematical content (\<open>buffer_rep\<close>, \<open>string_rep\<close>, \<open>string_term\<close>, \<open>list_rep\<close>, \<open>dl_rep\<close>, \<open>dictionary_wf\<close>, \<open>uart_inv\<close>,
  \<open>tcp_healthy\<close>); one lemma per operation shows that it is kept and what happens to the content; the
  properties compose them: runs of arbitrary operations refine a specification on plain lists, maps or byte
  strings, codecs are round trips, and the errors of the code are stated as they are, with the inputs that
  reach them.

  \<^bold>\<open>Loops and bounds.\<close>  Loops are recursive functions with a termination proof; a loop over a socket ends because
  the list of answers gets shorter, and an exhausted list answers with an error.  Loops that the C
  code does not end for some inputs (\<open>base64_encode_loop\<close>, \<open>replace_substr_loop\<close>, \<open>remove_substr_loop\<close>) are partial
  functions of the option monad.  Sizes in hypotheses such as \<open>SIZE_MAX div 2\<close> or \<open>2 ^ 31\<close> are where the C
  arithmetic would wrap or a cast to \<open>int\<close> would truncate.  Only the JSON parser is given fuel: \<open>json_fuel\<close>, one more
  than the length of the text.  Each nested value and each further round of a loop has consumed a byte, so that
  it never runs out (\<open>parse_value_ok\<close>: with that fuel the parser always has a result).

  \<^bold>\<open>Not modelled.\<close>  The listing is in the manifest beside this development.  Left out are: what only calls
  the operating system (files, directories, environment, signals, the other device drivers); the logger;
  the XML parser and the mail clients; the responders, which the build leaves out and which are C++-style code that does not compile as C;
  functions over doubles; \<open>modbus_client_connect_rtu\<close>, whose calls do not fit the declarations of the UART driver.
\<close>

end
